(* ===== verification/Prelude.thy ===== *)
theory Prelude
  imports Main "HOL-Library.Sublist"
begin

text \<open>
  Shared vocabulary of the development: the names of the Go types every component uses, the
  SQL statement forms the storage package is written in, pgx transactions, and the generic
  list facts the component proofs rest on.

  A Go \<open>string\<close> or \<open>[]byte\<close> is a HOL \<^typ>\<open>string\<close> (a list of bytes). A \<open>uuid.UUID\<close> is an
  opaque identifier, compared and ordered but never inspected, so it is a natural number. A
  \<open>time.Time\<close> or a \<open>timestamptz\<close> is an instant on one integer time line (the unit is the tick of
  the clock in question) and a \<open>time.Duration\<close> is a difference of instants.
\<close>

type_synonym uuid = nat
type_synonym instant = int
type_synonym duration = int
type_synonym bytes = string
type_synonym rune = nat

named_theorems sql_simps \<open>unfolding rules for the SQL statement forms\<close>
named_theorems wf_intros \<open>preservation of the schema constraints\<close>

section \<open>SQL statement forms\<close>

text \<open>
  A table is the list of its rows. The storage package uses four statement forms: an UPDATE or
  a DELETE with a row predicate, an INSERT, and a SELECT. A SELECT that the schema makes
  single-row (its WHERE clause pins a unique key) is \<open>sql_row\<close>.
\<close>

definition sql_update :: "('r \<Rightarrow> bool) \<Rightarrow> ('r \<Rightarrow> 'r) \<Rightarrow> 'r list \<Rightarrow> 'r list" where
  [sql_simps]: "sql_update P f rows = map (\<lambda>r. if P r then f r else r) rows"

definition sql_delete :: "('r \<Rightarrow> bool) \<Rightarrow> 'r list \<Rightarrow> 'r list" where
  [sql_simps]: "sql_delete P rows = filter (\<lambda>r. \<not> P r) rows"

definition sql_insert :: "'r \<Rightarrow> 'r list \<Rightarrow> 'r list" where
  [sql_simps]: "sql_insert r rows = rows @ [r]"

definition sql_row :: "('r \<Rightarrow> bool) \<Rightarrow> 'r list \<Rightarrow> 'r option" where
  [sql_simps]: "sql_row P rows = find P rows"

definition sql_exists :: "('r \<Rightarrow> bool) \<Rightarrow> 'r list \<Rightarrow> bool" where
  [sql_simps]: "sql_exists P rows = list_ex P rows"

text \<open>\<open>ORDER BY k\<close> is a stable sort on the key \<open>k\<close>; \<open>LIMIT n\<close> is \<^const>\<open>take\<close>.\<close>

definition sql_order :: "('r \<Rightarrow> 'k::linorder) \<Rightarrow> 'r list \<Rightarrow> 'r list" where
  [sql_simps]: "sql_order k rows = sort_key k rows"

lemma sql_row_Some_iff:
  "sql_row P rows = Some r \<Longrightarrow> r \<in> set rows \<and> P r"
  by (auto simp: sql_row_def find_Some_iff)

lemma sql_row_None_iff: "sql_row P rows = None \<longleftrightarrow> (\<forall>r \<in> set rows. \<not> P r)"
  by (auto simp: sql_row_def find_None_iff)

lemma sql_exists_iff [simp]: "sql_exists P rows \<longleftrightarrow> (\<exists>r \<in> set rows. P r)"
  by (auto simp: sql_exists_def list_ex_iff)

lemma set_sql_update: "set (sql_update P f rows) = (\<lambda>r. if P r then f r else r) ` set rows"
  by (simp add: sql_update_def)

lemma set_sql_delete [simp]: "set (sql_delete P rows) = {r \<in> set rows. \<not> P r}"
  by (auto simp: sql_delete_def)

lemma set_sql_insert [simp]: "set (sql_insert r rows) = insert r (set rows)"
  by (auto simp: sql_insert_def)

lemma length_sql_update [simp]: "length (sql_update P f rows) = length rows"
  by (simp add: sql_update_def)

text \<open>An UPDATE that leaves a column alone leaves the list of its values alone.\<close>

lemma map_sql_update_frame:
  "(\<And>r. P r \<Longrightarrow> g (f r) = g r) \<Longrightarrow> map g (sql_update P f rows) = map g rows"
  by (simp add: sql_update_def)

text \<open>A lookup by the predicate of an UPDATE finds the updated row.\<close>

lemma sql_row_sql_update:
  "(\<And>r. P r \<Longrightarrow> P (f r)) \<Longrightarrow> sql_row P (sql_update P f rows) = map_option f (sql_row P rows)"
  by (induction rows) (auto simp: sql_row_def sql_update_def)

text \<open>Rows a statement does not match are untouched by it.\<close>

lemma filter_sql_update_other:
  "(\<And>r. P r \<Longrightarrow> \<not> Q r \<and> \<not> Q (f r)) \<Longrightarrow> filter Q (sql_update P f rows) = filter Q rows"
  by (induction rows) (auto simp: sql_update_def)

lemma filter_sql_delete_other:
  "(\<And>r. P r \<Longrightarrow> \<not> Q r) \<Longrightarrow> filter Q (sql_delete P rows) = filter Q rows"
  by (induction rows) (auto simp: sql_delete_def)

lemma in_sql_update: "r \<in> set (sql_update P f rows) \<longleftrightarrow> (\<exists>x \<in> set rows. r = (if P x then f x else x))"
  by (auto simp: sql_update_def)

lemma sql_updateI: "x \<in> set rows \<Longrightarrow> P x \<Longrightarrow> f x \<in> set (sql_update P f rows)"
  by (auto simp: sql_update_def)

lemma sql_updateI_other: "x \<in> set rows \<Longrightarrow> \<not> P x \<Longrightarrow> x \<in> set (sql_update P f rows)"
  by (force simp: sql_update_def)

lemma sql_updateE:
  assumes "r \<in> set (sql_update P f rows)"
  obtains (changed) x where "x \<in> set rows" "P x" "r = f x" | (kept) "r \<in> set rows" "\<not> P r"
  using assms by (auto simp: sql_update_def)

text \<open>A lookup by a unique key finds exactly the row that carries it.\<close>

lemma sql_row_unique:
  assumes "distinct (map k rows)" and "r \<in> set rows"
  shows "sql_row (\<lambda>x. k x = k r) rows = Some r"
proof (cases "sql_row (\<lambda>x. k x = k r) rows")
  case None
  with assms(2) show ?thesis by (auto simp: sql_row_None_iff)
next
  case (Some x)
  then have x: "x \<in> set rows" "k x = k r"
    by (auto dest: sql_row_Some_iff)
  from assms(1) x assms(2) have "x = r"
    by (auto simp: distinct_map dest: inj_onD)
  with Some show ?thesis by simp
qed

lemma distinct_map_inj:
  "distinct (map k rows) \<Longrightarrow> r \<in> set rows \<Longrightarrow> s \<in> set rows \<Longrightarrow> k r = k s \<Longrightarrow> r = s"
  by (auto simp: distinct_map dest: inj_onD)

lemma distinct_map_sql_delete:
  "distinct (map k rows) \<Longrightarrow> distinct (map k (sql_delete P rows))"
  by (simp add: sql_delete_def distinct_map_filter)

lemma distinct_map_sql_insert:
  "distinct (map k (sql_insert r rows)) \<longleftrightarrow> distinct (map k rows) \<and> k r \<notin> k ` set rows"
  by (auto simp: sql_insert_def)

lemma set_map_filter: "set (List.map_filter g xs) = {y. \<exists>x \<in> set xs. g x = Some y}"
  by (induction xs) (auto simp: List.map_filter_simps split: option.splits)

text \<open>Two stable sorts in a row order by the second key, then by the first.\<close>

lemma sorted_wrt_lex:
  fixes g :: "'a \<Rightarrow> 'k::linorder"
  assumes "sorted (map g xs)" and "\<And>k. sorted_wrt R (filter (\<lambda>x. g x = k) xs)"
  shows "sorted_wrt (\<lambda>a b. g a < g b \<or> g a = g b \<and> R a b) xs"
  using assms
proof (induction xs)
  case (Cons x xs)
  have "\<forall>b \<in> set xs. g x < g b \<or> g x = g b \<and> R x b"
  proof
    fix b assume b: "b \<in> set xs"
    with Cons.prems(1) have "g x \<le> g b" by simp
    moreover from Cons.prems(2) [of "g x"] b have "R x b" if "g b = g x"
      using that by simp
    ultimately show "g x < g b \<or> g x = g b \<and> R x b" by auto
  qed
  moreover have "sorted_wrt R (filter (\<lambda>y. g y = k) xs)" for k
    using Cons.prems(2) [of k] by (cases "g x = k") auto
  ultimately show ?case using Cons by simp
qed simp

lemma sql_order_lex:
  assumes "sorted_wrt R xs"
  shows "sorted_wrt (\<lambda>a b. g a < g b \<or> g a = g b \<and> R a b) (sql_order g xs)"
  unfolding sql_order_def
proof (rule sorted_wrt_lex)
  show "sorted (map g (sort_key g xs))" by (rule sorted_sort_key)
  show "sorted_wrt R (filter (\<lambda>x. g x = k) (sort_key g xs))" for k
    using assms by (simp add: sort_key_stable sorted_wrt_filter)
qed

lemma set_sql_order [simp]: "set (sql_order k xs) = set xs"
  by (simp add: sql_order_def)

text \<open>A WHERE clause and an ORDER BY commute; a key without repetitions orders strictly.\<close>

lemma sql_order_filter: "sql_order key (filter P rows) = filter P (sql_order key rows)"
  by (simp add: sql_order_def filter_sort)

lemma sql_order_strict:
  assumes "distinct (map key rows)"
  shows "sorted_wrt (\<lambda>a b. key a < key b) (sql_order key rows)"
proof -
  have "distinct (map key (sql_order key rows))" using assms by (simp add: sql_order_def distinct_map)
  then have "sorted_wrt (<) (map key (sql_order key rows))"
    unfolding strict_sorted_iff by (simp add: sql_order_def)
  then show ?thesis by (simp add: sorted_wrt_map)
qed

text \<open>An UPDATE keeps a row with a property it does not take away.\<close>

lemma sql_update_keeps:
  assumes "\<exists>t \<in> set rows. Q t" and "\<And>t. P t \<Longrightarrow> Q t \<Longrightarrow> Q (f t)"
  shows "\<exists>t \<in> set (sql_update P f rows). Q t"
  using assms by (auto simp: set_sql_update simp del: if_image_distrib)

section \<open>Errors and transactions\<close>

text \<open>
  The sentinel errors of the storage package, and the ways a statement of it can be refused by the
  schema (with the name of the constraint where the code reads it). A lost connection or a cancelled context is not modelled: it aborts
  the transaction before it has an effect.
\<close>

datatype store_error =
    ErrNotFound
  | ErrChannelNotFound
  | ErrTotpAlreadyEnabled
  | ErrTotpNotEnabled
  | ErrTotpRequiredByOrg
  | ErrTotpSetupNotVerified
  | ErrMlsGroupNotFound
  | ErrMlsGroupExists
  | ErrMlsEpochConflict
  | ErrMlsDeviceNotFound
  | ErrMlsWelcomeOutsider
  | ErrMlsBackupNotFound
  | ErrMlsBackupStale
  | ErrUsernameTaken
  | ErrEmailTaken
  | ErrLastAdmin
  | ErrChannelSlugTaken
  | ErrDMMembershipFixed
  | ErrDMHasNoTopic
  | ErrDMWithSelf
  | ErrLastMember
  | ErrAttachmentNotFound
  | ErrEmptyMessage
  | ErrScimIdentifierTaken
  | ErrOidcAccountLinked
  | ErrOidcIdentityTaken
  | UniqueViolationOf string
  | ForeignKeyViolationOf string
  | UniqueViolation
  | ForeignKeyViolation
  | CheckViolation
  | NumericOutOfRange
  | ErrOther string

text \<open>
  The body of a transaction either fails, or returns a value and the state it leaves. What
  \<open>pgx.BeginFunc\<close> adds is atomicity: a failing body is rolled back, so the state after it is
  the state before it.
\<close>

type_synonym ('s, 'a) tx = "'s \<Rightarrow> store_error + 'a \<times> 's"

definition begin_func :: "('s, 'a) tx \<Rightarrow> 's \<Rightarrow> (store_error + 'a) \<times> 's" where
  "begin_func body s = (case body s of Inl e \<Rightarrow> (Inl e, s) | Inr (a, s') \<Rightarrow> (Inr a, s'))"

lemma begin_func_Inl [simp]: "begin_func body s = (Inl e, s') \<longleftrightarrow> body s = Inl e \<and> s' = s"
  by (auto simp: begin_func_def split: sum.splits prod.splits)

lemma begin_func_Inr [simp]: "begin_func body s = (Inr a, s') \<longleftrightarrow> body s = Inr (a, s')"
  by (auto simp: begin_func_def split: sum.splits prod.splits)

lemma begin_func_invariant:
  assumes "I s" and "\<And>a s'. body s = Inr (a, s') \<Longrightarrow> I s'"
  shows "I (snd (begin_func body s))"
  using assms by (auto simp: begin_func_def split: sum.splits prod.splits)

section \<open>Keyset pagination\<close>

text \<open>
  Every list endpoint of the server pages by key: a page is the rows whose key is past the
  cursor, in key order, cut at a limit, and the next cursor is the key of the last row. A client
  walks the pages: fetch one, continue from its last key, stop on an empty page.
\<close>

fun keyset_walk ::
  "('k option \<Rightarrow> nat \<Rightarrow> 'r list) \<Rightarrow> ('r \<Rightarrow> 'k) \<Rightarrow> nat \<Rightarrow> 'k option \<Rightarrow> nat \<Rightarrow> 'r list" where
  "keyset_walk page key 0 after limit = []"
| "keyset_walk page key (Suc fuel) after limit =
     (case page after limit of
        [] \<Rightarrow> []
      | p # ps \<Rightarrow> (p # ps) @ keyset_walk page key fuel (Some (key (last (p # ps)))) limit)"

text \<open>
  An endpoint that says whether there is more asks for one row past the limit and shows it to nobody; its
  client follows the cursors it is given.
\<close>

fun probe_walk ::
  "('k option \<Rightarrow> nat \<Rightarrow> 'r list) \<Rightarrow> ('r \<Rightarrow> 'k) \<Rightarrow> nat \<Rightarrow> 'k option \<Rightarrow> nat \<Rightarrow> 'r list" where
  "probe_walk page key 0 after limit = []"
| "probe_walk page key (Suc fuel) after limit =
     (let rows = page after (Suc limit); shown = take limit rows
      in if limit < length rows then shown @ probe_walk page key fuel (Some (key (last shown))) limit else rows)"

definition past :: "('r \<Rightarrow> 'k::linorder) \<Rightarrow> 'k option \<Rightarrow> 'r \<Rightarrow> bool" where
  "past key after r = (case after of None \<Rightarrow> True | Some a \<Rightarrow> a < key r)"

lemma past_simps [simp]: "past key None r" "past key (Some a) r \<longleftrightarrow> a < key r"
  by (simp_all add: past_def)

lemma sorted_wrt_le_last:
  "sorted_wrt (\<lambda>a b. key a < (key b::'k::linorder)) xs \<Longrightarrow> a \<in> set xs \<Longrightarrow> key a \<le> key (last xs)"
  by (induction xs) (auto simp: less_imp_le)

lemma filter_past_prefix:
  fixes key :: "'r \<Rightarrow> 'k::linorder"
  assumes "sorted_wrt (\<lambda>a b. key a < key b) (xs @ ys)" and "xs \<noteq> []"
  shows "filter (past key (Some (key (last xs)))) (xs @ ys) = ys"
proof -
  from assms(1) have xs: "sorted_wrt (\<lambda>a b. key a < key b) xs"
    and cross: "\<forall>a \<in> set xs. \<forall>b \<in> set ys. key a < key b"
    by (auto simp: sorted_wrt_append)
  from sorted_wrt_le_last [OF xs] have "filter (past key (Some (key (last xs)))) xs = []"
    by (auto simp: filter_empty_conv not_less)
  moreover from cross assms(2) have "filter (past key (Some (key (last xs)))) ys = ys"
    by (auto simp: filter_id_conv)
  ultimately show ?thesis by simp
qed

text \<open>
  The interface: what a paged endpoint promises of its page function. What a client that walks
  every page relies on is proved once, from these two laws.
\<close>

locale keyset_pager =
  fixes rows :: "'r list" and key :: "'r \<Rightarrow> 'k::linorder"
    and page :: "'k option \<Rightarrow> nat \<Rightarrow> 'r list"
  assumes sorted_rows: "sorted_wrt (\<lambda>a b. key a < key b) rows"
    and page_eq: "page after limit = take limit (filter (past key after) rows)"
begin

lemma page_bounded: "length (page after limit) \<le> limit"
  by (simp add: page_eq)

text \<open>From any suffix of the rows, the walk returns exactly that suffix.\<close>

lemma walk_suffix:
  assumes "0 < limit" and "rows = pre @ suf" and "filter (past key after) rows = suf"
    and "length suf \<le> fuel"
  shows "keyset_walk page key (Suc fuel) after limit = suf"
  using assms(2-)
proof (induction fuel arbitrary: pre suf after)
  case 0
  then show ?case by (simp add: page_eq)
next
  case (Suc fuel)
  show ?case
  proof (cases "take limit suf")
    case Nil
    with assms(1) Suc.prems show ?thesis by (simp add: page_eq)
  next
    case (Cons p ps)
    let ?rest = "drop limit suf"
    have split: "rows = (pre @ take limit suf) @ ?rest"
      using Suc.prems(1) by simp
    have "filter (past key (Some (key (last (p # ps))))) rows = ?rest"
      using filter_past_prefix [of key "pre @ take limit suf" ?rest] sorted_rows split Cons
      by simp
    moreover have "length ?rest \<le> fuel"
      using Suc.prems(3) assms(1) Cons by (cases suf) auto
    ultimately have "keyset_walk page key (Suc fuel) (Some (key (last (p # ps)))) limit = ?rest"
      using Suc.IH split by blast
    moreover have "page after limit = p # ps"
      using Cons Suc.prems(2) by (simp add: page_eq)
    ultimately show ?thesis
      using Cons append_take_drop_id [of limit suf] by simp
  qed
qed

lemma probe_suffix:
  assumes "0 < limit" and "rows = pre @ suf" and "filter (past key after) rows = suf" and "length suf \<le> fuel"
  shows "probe_walk page key (Suc fuel) after limit = suf"
  using assms(2-)
proof (induction fuel arbitrary: pre suf after)
  case (Suc fuel)
  show ?case
  proof (cases "limit < length suf")
    case False
    then show ?thesis using Suc.prems(2) by (subst probe_walk.simps(2)) (simp add: page_eq Let_def)
  next
    case True
    let ?shown = "take limit suf" and ?rest = "drop limit suf"
    have rows: "rows = (pre @ ?shown) @ ?rest" using Suc.prems(1) by simp
    have ne: "?shown \<noteq> []" using assms(1) True by auto
    have "filter (past key (Some (key (last ?shown)))) rows = ?rest"
      using filter_past_prefix [of key "pre @ ?shown" ?rest] sorted_rows rows ne by simp
    moreover have "length ?rest \<le> fuel" using Suc.prems(3) assms(1) True by simp
    ultimately have "probe_walk page key (Suc fuel) (Some (key (last ?shown))) limit = ?rest" using Suc.IH rows by blast
    moreover have "page after (Suc limit) = take (Suc limit) suf" using Suc.prems(2) by (simp add: page_eq)
    ultimately show ?thesis using True by (subst probe_walk.simps(2)) (simp add: Let_def)
  qed
qed (simp add: page_eq)

lemma probe_complete: "0 < limit \<Longrightarrow> length rows \<le> fuel \<Longrightarrow> probe_walk page key (Suc fuel) None limit = rows"
  by (rule probe_suffix [where pre = "[]"]) (auto simp: filter_id_conv)

text \<open>
  A full walk reads every row exactly once, in order. One fetch more than there are rows is
  always enough fuel, since every non-empty page moves the cursor.
\<close>

lemma walk_complete: "0 < limit \<Longrightarrow> length rows \<le> fuel \<Longrightarrow>
    keyset_walk page key (Suc fuel) None limit = rows"
  by (rule walk_suffix [where pre = "[]"]) (auto simp: filter_id_conv)

end

text \<open>
  The page query every endpoint is written with meets the contract, whenever its key identifies a
  row: the rows past the cursor, ordered by the key, cut at the limit.
\<close>

lemma keyset_pager_sql:
  assumes "distinct (map key rows)"
    and "\<And>after limit. page after limit = take limit (sql_order key (filter (past key after) rows))"
  shows "keyset_pager (sql_order key rows) key page"
proof
  show "sorted_wrt (\<lambda>a b. key a < key b) (sql_order key rows)" by (rule sql_order_strict [OF assms(1)])
  show "page after limit = take limit (filter (past key after) (sql_order key rows))" for after limit
    by (simp add: assms(2) sql_order_filter)
qed

end
