(* ===== verification/Authz.thy ===== *)
theory Authz
  imports Prelude
begin

text \<open>
  The authorization choke point, \<^verbatim>\<open>server/internal/authz\<close>: the action names, the three resource
  types with the facts the rules turn on, and the decision functions \<open>canChannel\<close>, \<open>canMessage\<close>,
  \<open>canConference\<close> and \<open>Can\<close>. An \<open>Action\<close> is a Go string; the declared constants are the
  constructors and any other string is \<open>UnknownAction\<close>. A resource is a Go \<open>any\<close>: nil, one of the
  three types the switch names, or some other value.
\<close>

section \<open>Actions, users, resources\<close>

datatype action =
    AdminUsersList | AdminUsersCreate
  | AdminUsersUpdate | AdminUsersResetPassword
  | AdminInvitesList | AdminInvitesCreate | AdminInvitesRevoke
  | AdminOrgRead | AdminOrgUpdate | AdminAuditList
  | AdminScimTokensList | AdminScimTokensCreate | AdminScimTokensRevoke
  | AdminUpdateRead | AdminUpdateRequest
  | ChannelRead | ChannelUpdate | ChannelMemberAdd | ChannelMemberRemove
  | MessageSend | MessageEdit | MessageDelete | ReadPositionSet | FileUpload | CallJoin
  | MlsRead | MlsWrite
  | ConferenceRevoke | ConferenceListAll
  | UnknownAction string

record authz_user =
  au_id :: uuid
  IsAdmin :: bool

text \<open>The part of \<open>storage.Channel\<close> and \<open>storage.Conference\<close> the rules read: who made the row.\<close>

record channel_row =
  ch_id :: uuid
  ch_created_by :: "uuid option"

record conference_row =
  conf_id :: uuid
  conf_created_by :: "uuid option"

record channel_res =
  Channel :: channel_row
  Member :: bool
  Creator :: bool

record message_res =
  msg_channel :: channel_res
  Author :: bool

record conference_res =
  Owner :: bool

datatype resource =
    NoResource
  | ChannelRes channel_res
  | MessageRes message_res
  | ConferenceRes conference_res
  | OtherRes

definition NewChannel :: "channel_row \<Rightarrow> uuid \<Rightarrow> bool \<Rightarrow> channel_res" where
  "NewChannel ch actingUserID member =
     \<lparr>Channel = ch, Member = member,
      Creator = (case ch_created_by ch of None \<Rightarrow> False | Some c \<Rightarrow> c = actingUserID)\<rparr>"

definition NewConference :: "conference_row \<Rightarrow> uuid \<Rightarrow> conference_res" where
  "NewConference conf actingUserID =
     \<lparr>Owner = (case conf_created_by conf of None \<Rightarrow> False | Some c \<Rightarrow> c = actingUserID)\<rparr>"

section \<open>The decision functions\<close>

definition canChannel :: "authz_user \<Rightarrow> action \<Rightarrow> channel_res \<Rightarrow> bool" where
  "canChannel user act res =
     (if \<not> Member res then False
      else case act of
          ChannelRead \<Rightarrow> True | ChannelUpdate \<Rightarrow> True | ChannelMemberAdd \<Rightarrow> True
        | MessageSend \<Rightarrow> True | ReadPositionSet \<Rightarrow> True | FileUpload \<Rightarrow> True | CallJoin \<Rightarrow> True
        | MlsRead \<Rightarrow> True | MlsWrite \<Rightarrow> True
        | ChannelMemberRemove \<Rightarrow> Creator res \<or> IsAdmin user
        | _ \<Rightarrow> False)"

definition canMessage :: "authz_user \<Rightarrow> action \<Rightarrow> message_res \<Rightarrow> bool" where
  "canMessage user act res =
     (if \<not> Member (msg_channel res) then False
      else case act of
          MessageEdit \<Rightarrow> Author res
        | MessageDelete \<Rightarrow> Author res \<or> IsAdmin user
        | _ \<Rightarrow> False)"

definition canConference :: "authz_user \<Rightarrow> action \<Rightarrow> conference_res \<Rightarrow> bool" where
  "canConference user act res =
     (case act of
        ConferenceRevoke \<Rightarrow> Owner res \<or> IsAdmin user
      | _ \<Rightarrow> False)"

text \<open>
  The instance-level switch at the end of \<open>Can\<close>: reached with no resource, or with one of a type
  the first switch does not name.
\<close>

definition canInstance :: "authz_user \<Rightarrow> action \<Rightarrow> bool" where
  "canInstance user act =
     (case act of
        AdminUsersList \<Rightarrow> IsAdmin user | AdminUsersCreate \<Rightarrow> IsAdmin user
      | AdminUsersUpdate \<Rightarrow> IsAdmin user | AdminUsersResetPassword \<Rightarrow> IsAdmin user
      | AdminInvitesList \<Rightarrow> IsAdmin user | AdminInvitesCreate \<Rightarrow> IsAdmin user
      | AdminInvitesRevoke \<Rightarrow> IsAdmin user
      | AdminOrgRead \<Rightarrow> IsAdmin user | AdminOrgUpdate \<Rightarrow> IsAdmin user
      | AdminAuditList \<Rightarrow> IsAdmin user
      | AdminScimTokensList \<Rightarrow> IsAdmin user | AdminScimTokensCreate \<Rightarrow> IsAdmin user
      | AdminScimTokensRevoke \<Rightarrow> IsAdmin user
      | AdminUpdateRead \<Rightarrow> IsAdmin user | AdminUpdateRequest \<Rightarrow> IsAdmin user
      | ConferenceListAll \<Rightarrow> IsAdmin user
      | _ \<Rightarrow> False)"

definition Can :: "authz_user option \<Rightarrow> action \<Rightarrow> resource \<Rightarrow> bool" where
  "Can user act res =
     (case user of
        None \<Rightarrow> False
      | Some u \<Rightarrow>
          (case res of
             ChannelRes c \<Rightarrow> canChannel u act c
           | MessageRes m \<Rightarrow> canMessage u act m
           | ConferenceRes c \<Rightarrow> canConference u act c
           | _ \<Rightarrow> canInstance u act))"

lemmas can_defs = canChannel_def canMessage_def canConference_def canInstance_def Can_def

section \<open>The policy the rules implement\<close>

text \<open>
  The policy as the design documents state it (ADR 001, ADR 005, ADR 006), independently of the
  switches: three kinds of standing (a member of the conversation, an instance administrator, the
  maker of the thing) and which actions each of them opens.
\<close>

definition any_member_actions :: "action set" where
  "any_member_actions = {ChannelRead, ChannelUpdate, ChannelMemberAdd, MessageSend,
     ReadPositionSet, FileUpload, CallJoin, MlsRead, MlsWrite}"

definition instance_actions :: "action set" where
  "instance_actions = {AdminUsersList, AdminUsersCreate, AdminUsersUpdate,
     AdminUsersResetPassword, AdminInvitesList, AdminInvitesCreate, AdminInvitesRevoke,
     AdminOrgRead, AdminOrgUpdate, AdminAuditList, AdminScimTokensList, AdminScimTokensCreate,
     AdminScimTokensRevoke, AdminUpdateRead, AdminUpdateRequest, ConferenceListAll}"

inductive permitted :: "authz_user \<Rightarrow> action \<Rightarrow> resource \<Rightarrow> bool" where
  any_member: "Member c \<Longrightarrow> a \<in> any_member_actions \<Longrightarrow> permitted u a (ChannelRes c)"
| remove_member: "Member c \<Longrightarrow> Creator c \<or> IsAdmin u \<Longrightarrow>
    permitted u ChannelMemberRemove (ChannelRes c)"
| edit_own: "Member (msg_channel m) \<Longrightarrow> Author m \<Longrightarrow> permitted u MessageEdit (MessageRes m)"
| delete_message: "Member (msg_channel m) \<Longrightarrow> Author m \<or> IsAdmin u \<Longrightarrow>
    permitted u MessageDelete (MessageRes m)"
| revoke_conference: "Owner f \<or> IsAdmin u \<Longrightarrow> permitted u ConferenceRevoke (ConferenceRes f)"
| instance_admin: "IsAdmin u \<Longrightarrow> a \<in> instance_actions \<Longrightarrow> r = NoResource \<or> r = OtherRes \<Longrightarrow>
    permitted u a r"

inductive_simps permitted_channel: "permitted u a (ChannelRes c)"
inductive_simps permitted_message: "permitted u a (MessageRes m)"
inductive_simps permitted_conference: "permitted u a (ConferenceRes f)"
inductive_simps permitted_none: "permitted u a NoResource"
inductive_simps permitted_other: "permitted u a OtherRes"

lemmas permitted_shapes =
  permitted_channel permitted_message permitted_conference permitted_none permitted_other

lemma canChannel_permitted: "canChannel u a c \<longleftrightarrow> permitted u a (ChannelRes c)"
  by (cases a) (auto simp: canChannel_def permitted_channel any_member_actions_def)

lemma canMessage_permitted: "canMessage u a m \<longleftrightarrow> permitted u a (MessageRes m)"
  by (cases a) (auto simp: canMessage_def permitted_message)

lemma canConference_permitted: "canConference u a f \<longleftrightarrow> permitted u a (ConferenceRes f)"
  by (cases a) (auto simp: canConference_def permitted_conference)

lemma canInstance_permitted:
  "canInstance u a \<longleftrightarrow> permitted u a NoResource" "canInstance u a \<longleftrightarrow> permitted u a OtherRes"
  by (cases a; auto simp: canInstance_def permitted_none permitted_other instance_actions_def)+

lemma Can_permitted: "Can (Some u) a r \<longleftrightarrow> permitted u a r"
  by (cases r) (simp_all add: Can_def canChannel_permitted canMessage_permitted
      canConference_permitted canInstance_permitted(1) [symmetric] canInstance_permitted(2) [symmetric])

section \<open>The interface handlers rely on\<close>

text \<open>
  What every call site of \<open>Can\<close> relies on: an absent user is denied, a stranger to a conversation
  can do nothing to it, and nothing that is not asked with the resource it is about is answered
  yes. The consequences a handler draws from these laws are proved inside the locale.
\<close>

locale authorizer =
  fixes can :: "authz_user option \<Rightarrow> action \<Rightarrow> resource \<Rightarrow> bool"
  assumes deny_nobody: "\<not> can None a r"
    and deny_unknown: "\<not> can u (UnknownAction n) r"
    and channel_needs_member: "can u a (ChannelRes c) \<Longrightarrow> Member c"
    and message_needs_member: "can u a (MessageRes m) \<Longrightarrow> Member (msg_channel m)"
    and admin_may_what_members_may:
      "can (Some v) a r \<Longrightarrow> can (Some (v\<lparr>IsAdmin := True\<rparr>)) a r"
begin

text \<open>A resource built for a non-member opens nothing, whatever the user's role.\<close>

lemma stranger_denied: "\<not> can u a (ChannelRes (NewChannel ch uid False))"
  using channel_needs_member [of u a "NewChannel ch uid False"] by (auto simp: NewChannel_def)

lemma stranger_message_denied:
  "\<not> can u a (MessageRes \<lparr>msg_channel = NewChannel ch uid False, Author = auth\<rparr>)"
  using message_needs_member [of u a "\<lparr>msg_channel = NewChannel ch uid False, Author = auth\<rparr>"]
  by (auto simp: NewChannel_def)

lemma allowed_has_user: "can u a r \<Longrightarrow> \<exists>v. u = Some v"
  using deny_nobody by (cases u) auto

end

interpretation choke: authorizer Can
proof
  show "\<not> Can None a r" for a r by (simp add: Can_def)
  show "\<not> Can u (UnknownAction n) r" for u n r
    by (auto simp: can_defs split: option.splits resource.splits)
  show "Can u a (ChannelRes c) \<Longrightarrow> Member c" for u a c
    by (auto simp: can_defs split: option.splits if_splits)
  show "Can u a (MessageRes m) \<Longrightarrow> Member (msg_channel m)" for u a m
    by (auto simp: can_defs split: option.splits if_splits)
  show "Can (Some u) a r \<Longrightarrow> Can (Some (u\<lparr>IsAdmin := True\<rparr>)) a r" for u a r
    by (auto simp: Can_permitted elim!: permitted.cases intro: permitted.intros)
qed

section \<open>Properties\<close>

text \<open>
  C5. The switches of \<open>Can\<close> implement the policy exactly: a decision is yes if and only if there is
  a user and one of the policy's rules permits the action on the resource.
\<close>

theorem Can_iff_permitted: "Can user a r \<longleftrightarrow> (\<exists>u. user = Some u \<and> permitted u a r)"
proof (cases user)
  case None
  then show ?thesis using choke.deny_nobody by simp
next
  case (Some u)
  then show ?thesis by (simp add: Can_permitted)
qed

text \<open>
  Membership gates every decision about a conversation, administrators included: a user who is
  not a member of the channel is refused every action on it and on its messages.
\<close>

theorem Can_stranger_denied:
  "\<not> Can u a (ChannelRes (NewChannel ch uid False)) \<and>
   \<not> Can u a (MessageRes \<lparr>msg_channel = NewChannel ch uid False, Author = auth\<rparr>)"
  using choke.stranger_denied choke.stranger_message_denied by blast

text \<open>
  Creator and owner rights come from the row alone: removing another member is open to a
  non-administrator exactly when the row names the acting user as creator, and a row whose creator
  is gone grants creator rights to nobody.
\<close>

theorem Can_remove_by_creator:
  assumes "\<not> IsAdmin u"
  shows "(Can (Some u) ChannelMemberRemove (ChannelRes (NewChannel ch (au_id u) True))
            \<longleftrightarrow> ch_created_by ch = Some (au_id u)) \<and>
         (Can (Some u) ConferenceRevoke (ConferenceRes (NewConference conf (au_id u)))
            \<longleftrightarrow> conf_created_by conf = Some (au_id u))"
  using assms
  by (auto simp: Can_def canChannel_def canConference_def NewChannel_def NewConference_def
      split: option.splits)

theorem Can_remove_by_creator_witness:
  "\<not> IsAdmin \<lparr>au_id = 7, IsAdmin = False\<rparr> \<and>
   Can (Some \<lparr>au_id = 7, IsAdmin = False\<rparr>) ChannelMemberRemove
     (ChannelRes (NewChannel \<lparr>ch_id = 1, ch_created_by = Some 7\<rparr> 7 True)) \<and>
   \<not> Can (Some \<lparr>au_id = 7, IsAdmin = False\<rparr>) ConferenceRevoke
     (ConferenceRes (NewConference \<lparr>conf_id = 2, conf_created_by = None\<rparr> 7))"
  using Can_remove_by_creator [of "\<lparr>au_id = 7, IsAdmin = False\<rparr>"
      "\<lparr>ch_id = 1, ch_created_by = Some 7\<rparr>" "\<lparr>conf_id = 2, conf_created_by = None\<rparr>"]
  by simp

end
