(* ===== verification/Ratelimit.thy ===== *)
theory Ratelimit
  imports Prelude
begin

text \<open>
  The in-memory sliding-window limiter, \<^verbatim>\<open>server/internal/ratelimit/ratelimit.go\<close>, and its client
  in the WebSocket gateway, \<^verbatim>\<open>server/internal/wsgateway/connectbudget.go\<close>.

  Every method holds the limiter's mutex from its first read of the map to its return, so an
  operation is one atomic step on the limiter's state; the clock reading it starts with is an
  argument. Times are integers (nanoseconds).
\<close>

section \<open>The limiter\<close>

record limiter =
  limit :: int
  window :: duration
  events :: "string \<Rightarrow> instant list option"
  lastSweep :: instant

text \<open>\<open>New\<close> panics (\<^const>\<open>None\<close>) on a limit or a window that is not positive.\<close>

definition New :: "int \<Rightarrow> duration \<Rightarrow> instant \<Rightarrow> limiter option" where
  "New lim win now =
     (if lim \<le> 0 \<or> win \<le> 0 then None
      else Some \<lparr>limit = lim, window = win, events = (\<lambda>_. None), lastSweep = now\<rparr>)"

fun pruneBefore :: "instant list \<Rightarrow> instant \<Rightarrow> instant list" where
  "pruneBefore [] cutoff = []"
| "pruneBefore (ts # stamps) cutoff =
     (if \<not> ts < cutoff then ts # stamps else pruneBefore stamps cutoff)"

definition maybeSweep :: "instant \<Rightarrow> instant \<Rightarrow> limiter \<Rightarrow> limiter" where
  "maybeSweep now cutoff l =
     (if now - lastSweep l < window l then l
      else l\<lparr>lastSweep := now,
             events := (\<lambda>key. case events l key of
                 None \<Rightarrow> None
               | Some stamps \<Rightarrow>
                   (let recent = pruneBefore stamps cutoff
                    in if recent = [] then None else Some recent))\<rparr>)"

definition Limited :: "instant \<Rightarrow> string \<Rightarrow> limiter \<Rightarrow> bool \<times> limiter" where
  "Limited now key l0 =
     (let cutoff = now - window l0;
          l = maybeSweep now cutoff l0
      in case events l key of
           None \<Rightarrow> (False, l)
         | Some stamps \<Rightarrow>
             (let recent = pruneBefore stamps cutoff
              in if recent = [] then (False, l\<lparr>events := (events l)(key := None)\<rparr>)
                 else (limit l \<le> int (length recent),
                       l\<lparr>events := (events l)(key := Some recent)\<rparr>)))"

text \<open>
  Reading a missing key of a Go map yields the nil slice. \<open>recent[len(recent)-l.limit]\<close> is in
  range on the branch that evaluates it: there \<open>0 < limit \<le> len(recent)\<close>.
\<close>

definition slice_of :: "instant list option \<Rightarrow> instant list" where
  "slice_of m = (case m of None \<Rightarrow> [] | Some stamps \<Rightarrow> stamps)"

definition RetryAfter :: "instant \<Rightarrow> string \<Rightarrow> limiter \<Rightarrow> duration \<times> limiter" where
  "RetryAfter now key l0 =
     (let cutoff = now - window l0;
          l = maybeSweep now cutoff l0;
          recent = pruneBefore (slice_of (events l key)) cutoff
      in if recent = [] then (0, l\<lparr>events := (events l)(key := None)\<rparr>)
         else (let l' = l\<lparr>events := (events l)(key := Some recent)\<rparr>
               in if int (length recent) < limit l then (0, l')
                  else (recent ! nat (int (length recent) - limit l) + window l - now, l')))"

definition Record :: "instant \<Rightarrow> string \<Rightarrow> limiter \<Rightarrow> limiter" where
  "Record now key l0 =
     (let cutoff = now - window l0;
          l = maybeSweep now cutoff l0
      in l\<lparr>events := (events l)(key :=
             Some (pruneBefore (slice_of (events l key)) cutoff @ [now]))\<rparr>)"

section \<open>The connect budget\<close>

record connect_limiters =
  connectByFamily :: limiter
  connectByIP :: limiter

definition connectPerFamily :: int where "connectPerFamily = 60"
definition connectPerIP :: int where "connectPerIP = 600"

text \<open>One minute, in nanoseconds.\<close>

definition connectWindow :: duration where "connectWindow = 60 * 10 ^ 9"

definition newConnectLimiters :: "instant \<Rightarrow> connect_limiters option" where
  "newConnectLimiters now =
     (case (New connectPerFamily connectWindow now, New connectPerIP connectWindow now) of
        (Some f, Some i) \<Rightarrow> Some \<lparr>connectByFamily = f, connectByIP = i\<rparr>
      | _ \<Rightarrow> None)"

text \<open>
  \<open>||\<close> is lazy: the IP limiter is only consulted when the family limiter let the handshake pass.
  The calls of one \<open>ConnectAllowed\<close> read the clock separately; they are modelled at one reading.
\<close>

definition ConnectAllowed ::
  "instant \<Rightarrow> string \<Rightarrow> string \<Rightarrow> connect_limiters \<Rightarrow> (duration \<times> bool) \<times> connect_limiters" where
  "ConnectAllowed now family clientIP g =
     (let (famLimited, f1) = Limited now family (connectByFamily g);
          (ipLimited, i1) =
            (if famLimited then (False, connectByIP g) else Limited now clientIP (connectByIP g))
      in if famLimited \<or> ipLimited then
           (let (rf, f2) = RetryAfter now family f1;
                (ri, i2) = RetryAfter now clientIP i1
            in ((max rf ri, False), \<lparr>connectByFamily = f2, connectByIP = i2\<rparr>))
         else ((0, True),
               \<lparr>connectByFamily = Record now family f1, connectByIP = Record now clientIP i1\<rparr>))"

section \<open>The abstract limiter\<close>

text \<open>
  What a limiter means: a log of every event recorded so far, of which only those inside the
  window count. The concrete limiter forgets events as they age out; \<open>refines\<close> says that what
  it still holds agrees with the log on everything any later question can ask about.
\<close>

type_synonym event_log = "(string \<times> instant) list"

definition times_of :: "string \<Rightarrow> event_log \<Rightarrow> instant list" where
  "times_of k h = map snd (filter (\<lambda>e. fst e = k) h)"

definition in_window :: "instant \<Rightarrow> instant list \<Rightarrow> instant list" where
  "in_window c ts = filter (\<lambda>x. c \<le> x) ts"

definition spec_limited :: "int \<Rightarrow> duration \<Rightarrow> event_log \<Rightarrow> instant \<Rightarrow> string \<Rightarrow> bool" where
  "spec_limited lim win h now k \<longleftrightarrow> lim \<le> int (length (in_window (now - win) (times_of k h)))"

definition slice_ok :: "duration \<Rightarrow> instant \<Rightarrow> instant list \<Rightarrow> instant list \<Rightarrow> bool" where
  "slice_ok win t held logged \<longleftrightarrow> sorted held \<and> (\<forall>x \<in> set held. x \<le> t) \<and>
     (\<forall>c \<ge> t - win. in_window c held = in_window c logged)"

definition refines :: "int \<Rightarrow> duration \<Rightarrow> event_log \<Rightarrow> instant \<Rightarrow> limiter \<Rightarrow> bool" where
  "refines lim win h t l \<longleftrightarrow>
     limit l = lim \<and> window l = win \<and> 0 < lim \<and> 0 < win \<and>
     (\<forall>k. slice_ok win t (slice_of (events l k)) (times_of k h))"

lemma slice_of_simps [simp]: "slice_of None = []" "slice_of (Some ts) = ts"
  by (simp_all add: slice_of_def)

lemma times_of_snoc [simp]:
  "times_of k (h @ [(j, now)]) = (if j = k then times_of k h @ [now] else times_of k h)"
  by (simp add: times_of_def)

lemma in_window_append [simp]: "in_window c (xs @ ys) = in_window c xs @ in_window c ys"
  by (simp add: in_window_def)

lemma set_in_window: "set (in_window c ts) = {x \<in> set ts. c \<le> x}"
  by (auto simp: in_window_def)

lemma in_window_later: "c \<le> d \<Longrightarrow> in_window d (in_window c ts) = in_window d ts"
  by (induction ts) (auto simp: in_window_def)

lemma pruneBefore_sorted: "sorted ts \<Longrightarrow> pruneBefore ts c = in_window c ts"
proof (induction ts)
  case (Cons t ts)
  show ?case
  proof (cases "t < c")
    case False
    with Cons.prems have "\<forall>x \<in> set (t # ts). c \<le> x" by auto
    then have "in_window c (t # ts) = t # ts" unfolding in_window_def by (rule filter_True)
    with False show ?thesis by simp
  qed (use Cons in \<open>simp add: in_window_def\<close>)
qed (simp add: in_window_def)

lemma sorted_in_window: "sorted ts \<Longrightarrow> sorted (in_window c ts)"
  by (simp add: in_window_def sorted_wrt_filter)

text \<open>
  Every write of the event map replaces the slices of some keys by what is left of them after
  pruning at a cutoff the clock has reached; such a write changes no later answer.
\<close>

lemma slice_ok_later: "slice_ok win t ts hs \<Longrightarrow> t \<le> now \<Longrightarrow> slice_ok win now ts hs"
  by (force simp: slice_ok_def)

lemma slice_ok_prune:
  assumes "slice_ok win t ts hs" and "t \<le> now"
  shows "slice_ok win now (pruneBefore ts (now - win)) hs"
proof -
  from slice_ok_later [OF assms] have ok: "sorted ts" "\<forall>x \<in> set ts. x \<le> now"
    and agree: "\<forall>c \<ge> now - win. in_window c ts = in_window c hs"
    by (simp_all add: slice_ok_def)
  have "sorted (in_window (now - win) ts)" "\<forall>x \<in> set (in_window (now - win) ts). x \<le> now"
    using ok by (simp_all add: sorted_in_window set_in_window)
  moreover have "\<forall>c \<ge> now - win. in_window c (in_window (now - win) ts) = in_window c hs"
    using agree by (simp add: in_window_later)
  ultimately show ?thesis using ok by (simp add: slice_ok_def pruneBefore_sorted)
qed

lemma slice_ok_snoc:
  assumes "slice_ok win now ts hs"
  shows "slice_ok win now (ts @ [now]) (hs @ [now])"
  using assms by (auto simp: slice_ok_def sorted_append)

lemma refines_prune:
  assumes r: "refines lim win h t l" and now: "t \<le> now"
    and frame: "limit l' = limit l" "window l' = window l"
    and ev: "\<And>k. slice_of (events l' k) = slice_of (events l k) \<or>
                 slice_of (events l' k) = pruneBefore (slice_of (events l k)) (now - win)"
  shows "refines lim win h now l'"
proof -
  have "slice_ok win now (slice_of (events l' k)) (times_of k h)" for k
    using r ev [of k] now slice_ok_later slice_ok_prune by (fastforce simp: refines_def)
  with r frame show ?thesis by (simp add: refines_def)
qed

lemma maybeSweep_frame [simp]:
  "limit (maybeSweep now c l) = limit l" "window (maybeSweep now c l) = window l"
  by (simp_all add: maybeSweep_def)

lemma maybeSweep_slice:
  "slice_of (events (maybeSweep now c l) k) = slice_of (events l k) \<or>
   slice_of (events (maybeSweep now c l) k) = pruneBefore (slice_of (events l k)) c"
  by (auto simp: maybeSweep_def Let_def split: option.splits)

lemma refines_maybeSweep:
  "refines lim win h t l \<Longrightarrow> t \<le> now \<Longrightarrow> refines lim win h now (maybeSweep now (now - win) l)"
  by (rule refines_prune [where l = l]) (use maybeSweep_slice in auto)

lemma refines_window: "refines lim win h t l \<Longrightarrow> window l = win \<and> limit l = lim \<and> 0 < lim \<and> 0 < win"
  by (simp add: refines_def)

text \<open>The slice a limiter works on after its sweep is the log's, cut at the cutoff.\<close>

lemma refines_recent:
  assumes "refines lim win h t l" and "t \<le> now"
  shows "pruneBefore (slice_of (events (maybeSweep now (now - win) l) k)) (now - win)
           = in_window (now - win) (times_of k h)"
proof -
  have "refines lim win h now (maybeSweep now (now - win) l)"
    using assms by (rule refines_maybeSweep)
  then show ?thesis by (auto simp: refines_def slice_ok_def pruneBefore_sorted)
qed

lemma Limited_unfold:
  assumes "window l = win"
  shows "Limited now k l =
    (let s = maybeSweep now (now - win) l; recent = pruneBefore (slice_of (events s k)) (now - win)
     in if recent = [] then (False, s\<lparr>events := (events s)(k := None)\<rparr>)
        else (limit l \<le> int (length recent), s\<lparr>events := (events s)(k := Some recent)\<rparr>))"
  using assms by (auto simp: Limited_def Let_def fun_upd_idem split: option.splits)

lemma refines_write_recent:
  assumes "refines lim win h t l" and "t \<le> now"
    and "slice_of v = pruneBefore (slice_of (events (maybeSweep now (now - win) l) k)) (now - win)"
  shows "refines lim win h now
    (maybeSweep now (now - win) l\<lparr>events := (events (maybeSweep now (now - win) l))(k := v)\<rparr>)"
  by (rule refines_prune [OF refines_maybeSweep [OF assms(1,2)] order_refl])
     (use assms(3) in \<open>auto simp: slice_of_def split: option.splits\<close>)

lemma Limited_correct:
  assumes "refines lim win h t l" and "t \<le> now"
  shows "fst (Limited now k l) \<longleftrightarrow> spec_limited lim win h now k"
    and "refines lim win h now (snd (Limited now k l))"
proof -
  have w: "window l = win" "limit l = lim" "0 < lim"
    using refines_window [OF assms(1)] by auto
  show "fst (Limited now k l) \<longleftrightarrow> spec_limited lim win h now k"
    using w refines_recent [OF assms, of k]
    by (auto simp: Limited_unfold spec_limited_def Let_def)
  show "refines lim win h now (snd (Limited now k l))"
    using w assms by (auto simp: Limited_unfold Let_def intro!: refines_write_recent)
qed

lemma RetryAfter_refines:
  assumes "refines lim win h t l" and "t \<le> now"
  shows "refines lim win h now (snd (RetryAfter now k l))"
  using refines_window [OF assms(1)] assms
  by (auto simp: RetryAfter_def Let_def intro!: refines_write_recent)

lemma refines_record:
  assumes "refines lim win h now l" and "ts = pruneBefore (slice_of (events l k)) (now - win)"
  shows "refines lim win (h @ [(k, now)]) now (l\<lparr>events := (events l)(k := Some (ts @ [now]))\<rparr>)"
  using assms by (auto simp: refines_def intro!: slice_ok_snoc slice_ok_prune)

lemma Record_refines:
  assumes "refines lim win h t l" and "t \<le> now"
  shows "refines lim win (h @ [(k, now)]) now (Record now k l)"
  using refines_window [OF assms(1)] refines_maybeSweep [OF assms]
  by (auto simp: Record_def Let_def intro!: refines_record)

lemma New_refines: "New lim win now = Some l \<Longrightarrow> refines lim win [] now l"
  by (auto simp: New_def refines_def slice_ok_def times_of_def in_window_def split: if_splits)

section \<open>The interface its clients rely on\<close>

text \<open>
  A client asks first and records only what it lets through (\<open>rateLimitMiddleware\<close>,
  \<open>ConnectAllowed\<close>). \<open>gated_run\<close> is that discipline over any limiter: it feeds a sequence of timed
  attempts through \<open>limited\<close> and keeps the log of the ones admitted.
\<close>

fun gated_run ::
  "(instant \<Rightarrow> string \<Rightarrow> 's \<Rightarrow> bool \<times> 's) \<Rightarrow> (instant \<Rightarrow> string \<Rightarrow> 's \<Rightarrow> 's) \<Rightarrow>
   (instant \<times> string) list \<Rightarrow> event_log \<Rightarrow> 's \<Rightarrow> event_log \<times> 's" where
  "gated_run limd rec [] h s = (h, s)"
| "gated_run limd rec ((now, k) # as) h s =
     (case limd now k s of
        (True, s') \<Rightarrow> gated_run limd rec as h s'
      | (False, s') \<Rightarrow> gated_run limd rec as (h @ [(k, now)]) (rec now k s'))"

text \<open>At most \<open>lim\<close> events of one key in any closed span of one window.\<close>

definition within_budget :: "int \<Rightarrow> duration \<Rightarrow> event_log \<Rightarrow> bool" where
  "within_budget lim win h \<longleftrightarrow>
     (\<forall>k s. int (length (filter (\<lambda>x. s \<le> x \<and> x \<le> s + win) (times_of k h))) \<le> lim)"

lemma within_budget_empty: "0 < lim \<Longrightarrow> within_budget lim win []"
  by (simp add: within_budget_def times_of_def)

lemma within_budget_admit:
  assumes b: "within_budget lim win h" and free: "\<not> spec_limited lim win h now k"
  shows "within_budget lim win (h @ [(k, now)])"
  unfolding within_budget_def
proof (intro allI)
  fix j s
  let ?span = "\<lambda>x. s \<le> x \<and> x \<le> s + win"
  show "int (length (filter ?span (times_of j (h @ [(k, now)])))) \<le> lim"
  proof (cases "j = k \<and> ?span now")
    case True
    have "length (filter ?span (times_of k h)) \<le> length (in_window (now - win) (times_of k h))"
    proof -
      have "filter ?span (times_of k h) = filter ?span (in_window (now - win) (times_of k h))"
        unfolding in_window_def filter_filter using True
        by (intro filter_cong) auto
      then show ?thesis by (metis length_filter_le)
    qed
    with free True show ?thesis by (simp add: spec_limited_def)
  qed (use b in \<open>auto simp: within_budget_def\<close>)
qed

locale rate_limiter =
  fixes limd :: "instant \<Rightarrow> string \<Rightarrow> 's \<Rightarrow> bool \<times> 's"
    and rec :: "instant \<Rightarrow> string \<Rightarrow> 's \<Rightarrow> 's"
    and rel :: "event_log \<Rightarrow> instant \<Rightarrow> 's \<Rightarrow> bool"
    and lim :: int and win :: duration
  assumes limited_answers: "rel h t s \<Longrightarrow> t \<le> now \<Longrightarrow> fst (limd now k s) \<longleftrightarrow> spec_limited lim win h now k"
    and limited_keeps: "rel h t s \<Longrightarrow> t \<le> now \<Longrightarrow> rel h now (snd (limd now k s))"
    and record_logs: "rel h t s \<Longrightarrow> t \<le> now \<Longrightarrow> rel (h @ [(k, now)]) now (rec now k s)"
begin

text \<open>A gated client never lets more than the limit through in any window.\<close>

lemma gated_run_within_budget:
  assumes "rel h t s" and "within_budget lim win h" and "sorted (t # map fst as)"
  shows "within_budget lim win (fst (gated_run limd rec as h s))"
  using assms
proof (induction as arbitrary: h t s)
  case (Cons a as)
  obtain now k where a: "a = (now, k)" by (cases a)
  obtain b s' where l: "limd now k s = (b, s')" by (cases "limd now k s")
  have now: "t \<le> now" and rest: "sorted (now # map fst as)"
    using Cons.prems(3) a by auto
  have kept: "rel h now s'" using limited_keeps [OF Cons.prems(1) now, of k] l by simp
  show ?case
  proof (cases b)
    case True
    then show ?thesis using Cons.IH [OF kept Cons.prems(2) rest] a l by simp
  next
    case False
    then have "within_budget lim win (h @ [(k, now)])"
      using limited_answers [OF Cons.prems(1) now, of k] l Cons.prems(2)
      by (simp add: within_budget_admit)
    with False show ?thesis
      using Cons.IH [OF record_logs [OF kept order_refl, of k] _ rest] a l by simp
  qed
qed simp

end

interpretation sliding: rate_limiter Limited Record "refines lim win" lim win for lim win
  by unfold_locales (auto intro: Limited_correct Record_refines simp: Limited_correct)

section \<open>Runs of the limiter\<close>

datatype limiter_op = OpLimited string | OpRetryAfter string | OpRecord string

fun limiter_step :: "limiter \<Rightarrow> instant \<times> limiter_op \<Rightarrow> limiter" where
  "limiter_step l (now, OpLimited k) = snd (Limited now k l)"
| "limiter_step l (now, OpRetryAfter k) = snd (RetryAfter now k l)"
| "limiter_step l (now, OpRecord k) = Record now k l"

fun limiter_run :: "limiter \<Rightarrow> (instant \<times> limiter_op) list \<Rightarrow> limiter" where
  "limiter_run l [] = l"
| "limiter_run l (e # es) = limiter_run (limiter_step l e) es"

text \<open>The log of a run: one entry per \<open>Record\<close>, at the time it was made.\<close>

fun logged :: "(instant \<times> limiter_op) list \<Rightarrow> event_log" where
  "logged [] = []"
| "logged ((now, OpRecord k) # es) = (k, now) # logged es"
| "logged ((now, _) # es) = logged es"

lemma limiter_step_refines:
  "refines lim win h t l \<Longrightarrow> t \<le> fst e \<Longrightarrow> refines lim win (h @ logged [e]) (fst e) (limiter_step l e)"
  by (cases e; cases "snd e")
     (auto intro: Limited_correct(2) RetryAfter_refines Record_refines)

lemma logged_Cons: "logged (e # es) = logged [e] @ logged es"
  by (cases e; cases "snd e") auto

lemma limiter_run_refines:
  assumes "refines lim win h t l" and "sorted (t # map fst es)"
  shows "refines lim win (h @ logged es) (last (t # map fst es)) (limiter_run l es)"
  using assms
proof (induction es arbitrary: h t l)
  case (Cons e es)
  have "refines lim win (h @ logged [e]) (fst e) (limiter_step l e)"
    using Cons.prems by (auto intro: limiter_step_refines)
  from Cons.IH [OF this] Cons.prems(2) show ?case
    by (simp add: logged_Cons [of e es])
qed simp

lemma limiter_reachable:
  assumes "New lim win t0 = Some l0" and "sorted (t0 # map fst es @ [now])"
  shows "refines lim win (logged es) (last (t0 # map fst es)) (limiter_run l0 es)"
    and "last (t0 # map fst es) \<le> now"
proof -
  show "refines lim win (logged es) (last (t0 # map fst es)) (limiter_run l0 es)"
    using limiter_run_refines [OF New_refines [OF assms(1)], of es] assms(2)
    by (auto simp: sorted_append)
  show "last (t0 # map fst es) \<le> now"
    using assms(2) by (cases es rule: rev_cases) (auto simp: sorted_append)
qed

text \<open>In a sorted list, at least \<open>m\<close> entries reach \<open>c\<close> exactly when the \<open>m\<close>-th from the end does.\<close>

lemma sorted_count_ge:
  fixes c :: int
  assumes "sorted R" and "0 < m" and "m \<le> length R"
  shows "m \<le> length (in_window c R) \<longleftrightarrow> c \<le> R ! (length R - m)"
proof
  let ?i = "length R - m"
  have i: "?i < length R" using assms(2,3) by simp
  { assume c: "c \<le> R ! ?i"
    have "\<forall>x \<in> set (drop ?i R). c \<le> x"
    proof
      fix x assume "x \<in> set (drop ?i R)"
      then obtain j where "j < m" "x = R ! (?i + j)"
        using assms(3) by (auto simp: in_set_conv_nth)
      moreover from this assms(3) have "R ! ?i \<le> R ! (?i + j)"
        by (intro sorted_nth_mono [OF assms(1)]) simp_all
      ultimately show "c \<le> x" using c by simp
    qed
    then have "in_window c (drop ?i R) = drop ?i R"
      unfolding in_window_def by (rule filter_True)
    moreover have "in_window c R = in_window c (take ?i R) @ in_window c (drop ?i R)"
      by (metis append_take_drop_id in_window_append)
    ultimately show "m \<le> length (in_window c R)" using assms(3) by simp }
  { assume m: "m \<le> length (in_window c R)"
    show "c \<le> R ! ?i"
    proof (rule ccontr)
      assume "\<not> c \<le> R ! ?i"
      then have "\<forall>x \<in> set (take (Suc ?i) R). \<not> c \<le> x"
        using sorted_nth_mono [OF assms(1) _ i] by (fastforce simp: in_set_conv_nth less_Suc_eq_le)
      then have "in_window c (take (Suc ?i) R) = []"
        unfolding in_window_def by (simp add: filter_empty_conv)
      then have "in_window c R = in_window c (drop (Suc ?i) R)"
        by (metis append_Nil append_take_drop_id in_window_append)
      then have "length (in_window c R) \<le> length R - Suc ?i"
        unfolding in_window_def by (metis length_drop length_filter_le)
      with m assms(2,3) show False by simp
    qed }
qed

lemma RetryAfter_value:
  assumes "refines lim win h t l" and "t \<le> now" and "R = in_window (now - win) (times_of k h)"
  shows "fst (RetryAfter now k l) =
           (if spec_limited lim win h now k then R ! nat (int (length R) - lim) + win - now else 0)"
  using refines_window [OF assms(1)] refines_recent [OF assms(1,2), of k]
  by (auto simp: RetryAfter_def Let_def spec_limited_def assms(3))

lemma RetryAfter_exact:
  assumes r: "refines lim win h t l" and now: "t \<le> now" and later: "now \<le> t'"
    and lim: "spec_limited lim win h now k"
  shows "spec_limited lim win h t' k \<longleftrightarrow> t' \<le> now + fst (RetryAfter now k l)"
proof -
  define R where "R = in_window (now - win) (times_of k h)"
  have "sorted R"
    using r now refines_recent [OF r now, of k] refines_maybeSweep [OF r now]
    by (metis R_def refines_def slice_ok_def pruneBefore_sorted sorted_in_window)
  moreover have m: "0 < nat lim" "nat lim \<le> length R"
    using refines_window [OF r] lim by (auto simp: R_def spec_limited_def)
  ultimately have "nat lim \<le> length (in_window (t' - win) R) \<longleftrightarrow> t' - win \<le> R ! (length R - nat lim)"
    by (rule sorted_count_ge)
  moreover have "in_window (t' - win) R = in_window (t' - win) (times_of k h)"
    using later by (simp add: R_def in_window_later)
  moreover have "nat (int (length R) - lim) = length R - nat lim"
    using m by simp
  ultimately show ?thesis
    using m RetryAfter_value [OF r now R_def] lim by (auto simp: R_def spec_limited_def)
qed

section \<open>Properties\<close>

text \<open>
  C35. The limiter answers from the whole history: after any sequence of \<open>Limited\<close>, \<open>RetryAfter\<close>
  and \<open>Record\<close> calls on a clock that does not run backwards, \<open>Limited\<close> reports a key limited exactly
  when at least \<open>limit\<close> of all events ever recorded for that key lie in the window that ends now.
  The pruning and the sweeps that bound the memory never change an answer.
\<close>

theorem Limited_counts_window:
  assumes "New lim win t0 = Some l0" and "sorted (t0 # map fst ops @ [now])"
  shows "fst (Limited now k (limiter_run l0 ops)) \<longleftrightarrow>
           lim \<le> int (length (filter (\<lambda>x. now - win \<le> x) (times_of k (logged ops))))"
  using Limited_correct(1) [OF limiter_reachable [OF assms]]
  by (simp add: spec_limited_def in_window_def)

theorem Limited_counts_window_witness:
  "fst (Limited 12 ''a'' (limiter_run \<lparr>limit = 2, window = 10, events = (\<lambda>_. None), lastSweep = 0\<rparr>
     [(1, OpRecord ''a''), (5, OpRecord ''a''), (12, OpRecord ''b'')])) = False \<and>
   fst (Limited 11 ''a'' (limiter_run \<lparr>limit = 2, window = 10, events = (\<lambda>_. None), lastSweep = 0\<rparr>
     [(1, OpRecord ''a''), (5, OpRecord ''a'')])) = True"
  using Limited_counts_window [of 2 10 0 _ "[(1, OpRecord ''a''), (5, OpRecord ''a''), (12, OpRecord ''b'')]" 12 "''a''"]
    Limited_counts_window [of 2 10 0 _ "[(1, OpRecord ''a''), (5, OpRecord ''a'')]" 11 "''a''"]
  by (simp add: New_def times_of_def)

text \<open>
  The rate the limiter exists to bound: whatever the attempts, a client that asks \<open>Limited\<close>
  first and calls \<open>Record\<close> only on what it lets through admits at most \<open>limit\<close> events of one key in
  any span of one window, closed at both ends.
\<close>

theorem gated_rate_bounded:
  assumes "New lim win t0 = Some l0" and "sorted (t0 # map fst attempts)"
  shows "int (length (filter (\<lambda>x. s \<le> x \<and> x \<le> s + win)
           (times_of k (fst (gated_run Limited Record attempts [] l0))))) \<le> lim"
proof -
  have "refines lim win [] t0 l0" using assms(1) by (rule New_refines)
  moreover have "within_budget lim win []"
    using assms(1) by (auto simp: New_def within_budget_empty split: if_splits)
  ultimately have "within_budget lim win (fst (gated_run Limited Record attempts [] l0))"
    using assms(2) by (rule sliding.gated_run_within_budget)
  then show ?thesis by (simp add: within_budget_def)
qed

theorem gated_rate_bounded_witness:
  "length (filter (\<lambda>x. 0 \<le> x \<and> x \<le> (0::int) + 10)
     (times_of ''a'' (fst (gated_run Limited Record [(1, ''a''), (2, ''a''), (3, ''a''), (12, ''a'')] []
        \<lparr>limit = 2, window = 10, events = (\<lambda>_. None), lastSweep = 0\<rparr>)))) \<le> 2"
  using gated_rate_bounded [of 2 10 0 _ "[(1, ''a''), (2, ''a''), (3, ''a''), (12, ''a'')]" 0 "''a''"]
  by (simp add: New_def)

text \<open>
  \<open>RetryAfter\<close> is exact: for a key that is limited now, and with nothing recorded in between,
  \<open>Limited\<close> keeps answering yes at every instant up to and including now plus the returned wait,
  and answers no at every instant after it. The wait is never negative.
\<close>

theorem RetryAfter_honest:
  assumes "New lim win t0 = Some l0" and "sorted (t0 # map fst ops @ [now])"
    and "fst (Limited now k (limiter_run l0 ops))" and "now \<le> t'"
  shows "0 \<le> fst (RetryAfter now k (limiter_run l0 ops)) \<and>
         (fst (Limited t' k (limiter_run l0 ops)) \<longleftrightarrow>
            t' \<le> now + fst (RetryAfter now k (limiter_run l0 ops)))"
proof -
  note reach = limiter_reachable [OF assms(1,2)]
  have lim: "spec_limited lim win (logged ops) now k"
    using assms(3) Limited_correct(1) [OF reach] by simp
  have "fst (Limited t' k (limiter_run l0 ops)) \<longleftrightarrow> spec_limited lim win (logged ops) t' k"
    using Limited_correct(1) [OF reach(1)] reach(2) assms(4) by simp
  then show ?thesis
    using RetryAfter_exact [OF reach assms(4) lim] RetryAfter_exact [OF reach order_refl lim] lim by simp
qed

text \<open>
  The instance also shows the boundary: at instant 11 the key is still limited although the wait
  the limiter names at that instant is zero.
\<close>

theorem RetryAfter_honest_witness:
  "fst (Limited 11 ''a'' (limiter_run \<lparr>limit = 2, window = 10, events = (\<lambda>_. None), lastSweep = 0\<rparr>
     [(1, OpRecord ''a''), (5, OpRecord ''a'')])) = True \<and>
   fst (RetryAfter 11 ''a'' (limiter_run \<lparr>limit = 2, window = 10, events = (\<lambda>_. None), lastSweep = 0\<rparr>
     [(1, OpRecord ''a''), (5, OpRecord ''a'')])) = 0 \<and>
   fst (Limited 12 ''a'' (limiter_run \<lparr>limit = 2, window = 10, events = (\<lambda>_. None), lastSweep = 0\<rparr>
     [(1, OpRecord ''a''), (5, OpRecord ''a'')])) = False"
proof -
  let ?l = "\<lparr>limit = 2, window = 10, events = (\<lambda>_. None), lastSweep = 0\<rparr>"
  let ?ops = "[(1, OpRecord ''a''), (5, OpRecord ''a'')]"
  have lim: "fst (Limited 11 ''a'' (limiter_run ?l ?ops))" and wait: "fst (RetryAfter 11 ''a'' (limiter_run ?l ?ops)) = 0"
    by (simp_all add: Limited_def RetryAfter_def Record_def maybeSweep_def Let_def)
  have new: "New 2 10 0 = Some ?l" by (simp add: New_def)
  show ?thesis
    using RetryAfter_honest [OF new _ lim, of 12] lim wait by simp
qed

subsection \<open>The connect budget\<close>

lemma spec_limited_antitone:
  "spec_limited lim win h t' k \<Longrightarrow> now \<le> t' \<Longrightarrow> spec_limited lim win h now k"
proof -
  assume "spec_limited lim win h t' k" and le: "now \<le> t'"
  then have "lim \<le> int (length (in_window (t' - win) (in_window (now - win) (times_of k h))))"
    by (simp add: spec_limited_def in_window_later)
  also have "\<dots> \<le> int (length (in_window (now - win) (times_of k h)))"
    by (simp add: in_window_def [of "t' - win"])
  finally show ?thesis by (simp add: spec_limited_def)
qed

lemma RetryAfter_nonneg:
  assumes "refines lim win h t l" and "t \<le> now"
  shows "0 \<le> fst (RetryAfter now k l)"
  using RetryAfter_exact [OF assms order_refl, of k] RetryAfter_value [OF assms refl, of k] by auto

lemma clear_after_wait:
  assumes "refines lim win h t l" and "t \<le> now" and "now + fst (RetryAfter now k l) < t'"
  shows "\<not> spec_limited lim win h t' k"
  using RetryAfter_exact [OF assms(1,2), of t' k] RetryAfter_nonneg [OF assms(1,2), of k]
    spec_limited_antitone [of lim win h t' k now] assms(3)
  by linarith

text \<open>The two limiters of a gateway, against the logs of what they let through.\<close>

definition connect_rel :: "event_log \<Rightarrow> event_log \<Rightarrow> instant \<Rightarrow> connect_limiters \<Rightarrow> bool" where
  "connect_rel hf hi t g \<longleftrightarrow>
     refines connectPerFamily connectWindow hf t (connectByFamily g) \<and>
     refines connectPerIP connectWindow hi t (connectByIP g)"

abbreviation "fam_limited \<equiv> spec_limited connectPerFamily connectWindow"
abbreviation "ip_limited \<equiv> spec_limited connectPerIP connectWindow"

lemma ConnectAllowed_admit:
  assumes "connect_rel hf hi t g" and "t \<le> now"
    and "\<not> fam_limited hf now fam" and "\<not> ip_limited hi now ip"
  obtains g' where "ConnectAllowed now fam ip g = ((0, True), g')"
    and "connect_rel (hf @ [(fam, now)]) (hi @ [(ip, now)]) now g'"
proof -
  obtain f1 where f1: "Limited now fam (connectByFamily g) = (False, f1)"
    and rf: "refines connectPerFamily connectWindow hf now f1"
    using assms Limited_correct [of _ _ hf t "connectByFamily g" now fam]
    by (cases "Limited now fam (connectByFamily g)") (auto simp: connect_rel_def)
  obtain i1 where i1: "Limited now ip (connectByIP g) = (False, i1)"
    and ri: "refines connectPerIP connectWindow hi now i1"
    using assms Limited_correct [of _ _ hi t "connectByIP g" now ip]
    by (cases "Limited now ip (connectByIP g)") (auto simp: connect_rel_def)
  show thesis
    by (rule that [of "\<lparr>connectByFamily = Record now fam f1, connectByIP = Record now ip i1\<rparr>"])
       (auto simp: ConnectAllowed_def f1 i1 connect_rel_def intro: Record_refines rf ri)
qed

lemma ConnectAllowed_refuse:
  assumes "connect_rel hf hi t g" and "t \<le> now"
    and "fam_limited hf now fam \<or> ip_limited hi now ip"
  obtains wait g' where "ConnectAllowed now fam ip g = ((wait, False), g')"
    and "connect_rel hf hi now g'" and "0 \<le> wait"
    and "\<And>t'. now + wait < t' \<Longrightarrow> \<not> fam_limited hf t' fam \<and> \<not> ip_limited hi t' ip"
proof -
  obtain b f1 where f1: "Limited now fam (connectByFamily g) = (b, f1)"
    and rf: "refines connectPerFamily connectWindow hf now f1" and b: "b = fam_limited hf now fam"
    using assms Limited_correct [of _ _ hf t "connectByFamily g" now fam]
    by (cases "Limited now fam (connectByFamily g)") (auto simp: connect_rel_def)
  define ipc where "ipc = (if b then (False, connectByIP g) else Limited now ip (connectByIP g))"
  obtain c i1 where c: "ipc = (c, i1)" by (cases ipc)
  obtain u where ri: "refines connectPerIP connectWindow hi u i1" and u: "u \<le> now"
    using assms(1,2) c Limited_correct(2) [of _ _ hi t "connectByIP g" now ip]
    by (force simp: connect_rel_def ipc_def split: if_splits)
  have no: "b \<or> c"
    using assms c b Limited_correct(1) [of _ _ hi t "connectByIP g" now ip]
    by (auto simp: connect_rel_def ipc_def split: if_splits)
  let ?rf = "RetryAfter now fam f1" and ?ri = "RetryAfter now ip i1"
  have "ConnectAllowed now fam ip g =
    ((max (fst ?rf) (fst ?ri), False), \<lparr>connectByFamily = snd ?rf, connectByIP = snd ?ri\<rparr>)"
    using no c by (auto simp: ConnectAllowed_def f1 ipc_def split: prod.splits)
  then show thesis
  proof (rule that)
    show "connect_rel hf hi now \<lparr>connectByFamily = snd ?rf, connectByIP = snd ?ri\<rparr>"
      using RetryAfter_refines [OF rf order_refl] RetryAfter_refines [OF ri u]
      by (simp add: connect_rel_def)
    show "0 \<le> max (fst ?rf) (fst ?ri)"
      using RetryAfter_nonneg [OF rf order_refl, of fam] by simp
    show "\<not> fam_limited hf t' fam \<and> \<not> ip_limited hi t' ip" if "now + max (fst ?rf) (fst ?ri) < t'" for t'
      using clear_after_wait [OF rf order_refl, of fam t'] clear_after_wait [OF ri u, of ip t'] that
      by simp
  qed
qed

text \<open>A run of the gateway's budget: the handshakes it let through, and the state it leaves.\<close>

fun connect_run ::
  "connect_limiters \<Rightarrow> (instant \<times> string \<times> string) list \<Rightarrow>
   (instant \<times> string \<times> string) list \<times> connect_limiters" where
  "connect_run g [] = ([], g)"
| "connect_run g ((now, fam, ip) # hs) =
     (case ConnectAllowed now fam ip g of
        ((_, ok), g') \<Rightarrow>
          (case connect_run g' hs of
             (adm, g'') \<Rightarrow> ((if ok then [(now, fam, ip)] else []) @ adm, g'')))"

definition fam_log :: "(instant \<times> string \<times> string) list \<Rightarrow> event_log" where
  "fam_log adm = map (\<lambda>(now, fam, ip). (fam, now)) adm"

definition ip_log :: "(instant \<times> string \<times> string) list \<Rightarrow> event_log" where
  "ip_log adm = map (\<lambda>(now, fam, ip). (ip, now)) adm"

lemma log_simps [simp]:
  "fam_log [] = []" "fam_log ((now, fam, ip) # adm) = (fam, now) # fam_log adm"
  "ip_log [] = []" "ip_log ((now, fam, ip) # adm) = (ip, now) # ip_log adm"
  by (simp_all add: fam_log_def ip_log_def)

lemma connect_run_rel:
  assumes "connect_rel hf hi t g" and "sorted (t # map fst hs)"
    and "within_budget connectPerFamily connectWindow hf" and "within_budget connectPerIP connectWindow hi"
    and "connect_run g hs = (adm, g')"
  shows "connect_rel (hf @ fam_log adm) (hi @ ip_log adm) (last (t # map fst hs)) g' \<and>
         within_budget connectPerFamily connectWindow (hf @ fam_log adm) \<and>
         within_budget connectPerIP connectWindow (hi @ ip_log adm)"
  using assms
proof (induction hs arbitrary: hf hi t g adm)
  case (Cons h hs)
  obtain now fam ip where h: "h = (now, fam, ip)" by (cases h)
  have now: "t \<le> now" and rest: "sorted (now # map fst hs)" using Cons.prems(2) h by auto
  show ?case
  proof (cases "fam_limited hf now fam \<or> ip_limited hi now ip")
    case True
    then obtain wait g1 where g1: "ConnectAllowed now fam ip g = ((wait, False), g1)" "connect_rel hf hi now g1"
      using ConnectAllowed_refuse [OF Cons.prems(1) now] by metis
    obtain adm' where "connect_run g1 hs = (adm', g')" "adm = adm'"
      using Cons.prems(5) h g1 by (auto split: prod.splits)
    then show ?thesis using Cons.IH [OF g1(2) rest Cons.prems(3,4)] h by simp
  next
    case False
    then obtain g1 where g1: "ConnectAllowed now fam ip g = ((0, True), g1)"
        "connect_rel (hf @ [(fam, now)]) (hi @ [(ip, now)]) now g1"
      using ConnectAllowed_admit [OF Cons.prems(1) now] by metis
    obtain adm' where "connect_run g1 hs = (adm', g')" "adm = (now, fam, ip) # adm'"
      using Cons.prems(5) h g1 by (auto split: prod.splits)
    then show ?thesis
      using Cons.IH [OF g1(2) rest within_budget_admit within_budget_admit] Cons.prems(3,4) False h
      by simp
  qed
qed simp

lemma newConnectLimiters_rel:
  "newConnectLimiters t0 = Some g0 \<Longrightarrow> connect_rel [] [] t0 g0"
  by (auto simp: newConnectLimiters_def connect_rel_def intro: New_refines split: option.splits)

lemma connect_run_reach:
  assumes "newConnectLimiters t0 = Some g0" and "sorted (t0 # map fst hs)"
    and "connect_run g0 hs = (adm, g)"
  shows "connect_rel (fam_log adm) (ip_log adm) (last (t0 # map fst hs)) g"
    and "within_budget connectPerFamily connectWindow (fam_log adm)"
    and "within_budget connectPerIP connectWindow (ip_log adm)"
  using connect_run_rel [OF newConnectLimiters_rel [OF assms(1)] assms(2) _ _ assms(3)]
    within_budget_empty by (simp_all add: connectPerFamily_def connectPerIP_def)

text \<open>
  The connect-flood bound: over any sequence of handshakes, at most 60 of one session family
  and at most 600 of one client address are let through in any span of a minute.
\<close>

theorem connect_flood_bounded:
  assumes "newConnectLimiters t0 = Some g0" and "sorted (t0 # map fst hs)"
  shows "length (filter (\<lambda>x. s \<le> x \<and> x \<le> s + connectWindow)
           (times_of fam (fam_log (fst (connect_run g0 hs))))) \<le> 60 \<and>
         length (filter (\<lambda>x. s \<le> x \<and> x \<le> s + connectWindow)
           (times_of ip (ip_log (fst (connect_run g0 hs))))) \<le> 600"
  using connect_run_reach(2,3) [OF assms, of "fst (connect_run g0 hs)" "snd (connect_run g0 hs)"]
  by (simp add: within_budget_def connectPerFamily_def connectPerIP_def)

theorem connect_flood_bounded_witness:
  "length (filter (\<lambda>x. 0 \<le> x \<and> x \<le> 0 + connectWindow) (times_of ''f'' (fam_log (fst (connect_run
     \<lparr>connectByFamily = \<lparr>limit = 60, window = connectWindow, events = (\<lambda>_. None), lastSweep = 0\<rparr>,
      connectByIP = \<lparr>limit = 600, window = connectWindow, events = (\<lambda>_. None), lastSweep = 0\<rparr>\<rparr>
     (map (\<lambda>i. (int i, ''f'', ''10.0.0.1'')) [0..<1000])))))) \<le> 60"
  using connect_flood_bounded [of 0 "\<lparr>connectByFamily = \<lparr>limit = 60, window = connectWindow, events = (\<lambda>_. None), lastSweep = 0\<rparr>,
      connectByIP = \<lparr>limit = 600, window = connectWindow, events = (\<lambda>_. None), lastSweep = 0\<rparr>\<rparr>"
     "map (\<lambda>i. (int i, ''f'', ''10.0.0.1'')) [0..<1000]" 0 "''f''"]
  by (simp add: newConnectLimiters_def New_def connectPerFamily_def connectPerIP_def connectWindow_def
      comp_def sorted_wrt_map)

text \<open>
  A refused handshake costs nothing and its wait is honest: a caller that comes back later than
  the wait it was told, with no handshake let through in between, is admitted, whichever of the two
  halves of the budget had refused it.
\<close>

theorem connect_wait_honest:
  assumes "newConnectLimiters t0 = Some g0" and "sorted (t0 # map fst hs @ [now])"
    and "connect_run g0 hs = (adm, g)"
    and "ConnectAllowed now fam ip g = ((wait, False), g')" and "now + wait < t'"
  shows "0 \<le> wait \<and> snd (fst (ConnectAllowed t' fam ip g')) = True"
proof -
  have srt: "sorted (t0 # map fst hs)" and last: "last (t0 # map fst hs) \<le> now"
    using assms(2) by (cases hs rule: rev_cases; auto simp: sorted_append)+
  note rel = connect_run_reach(1) [OF assms(1) srt assms(3)]
  have "fam_limited (fam_log adm) now fam \<or> ip_limited (ip_log adm) now ip"
    using ConnectAllowed_admit [OF rel last] assms(4) by (metis Pair_inject)
  then obtain w g1 where g1: "ConnectAllowed now fam ip g = ((w, False), g1)"
    "connect_rel (fam_log adm) (ip_log adm) now g1" "0 \<le> w"
    "\<not> fam_limited (fam_log adm) t' fam \<and> \<not> ip_limited (ip_log adm) t' ip"
    using ConnectAllowed_refuse [OF rel last] assms(4,5) by (metis Pair_inject)
  with assms(4,5) have "now \<le> t'" and "connect_rel (fam_log adm) (ip_log adm) now g'" by auto
  with g1 assms(4) show ?thesis
    using ConnectAllowed_admit [of "fam_log adm" "ip_log adm" now g' t' fam ip] by (metis Pair_inject fst_conv snd_conv)
qed

lemma times_of_replicate [simp]: "times_of k (replicate n (k, t)) = replicate n t"
  by (simp add: times_of_def)

lemma connect_run_burst:
  assumes "connect_rel (replicate a (fam, t)) (replicate a (ip, t)) t g" and "a + n \<le> 60"
  shows "\<exists>g'. connect_run g (replicate n (t, fam, ip)) = (replicate n (t, fam, ip), g') \<and>
              connect_rel (replicate (a + n) (fam, t)) (replicate (a + n) (ip, t)) t g'"
  using assms
proof (induction n arbitrary: a g)
  case (Suc n)
  have "\<not> fam_limited (replicate a (fam, t)) t fam" "\<not> ip_limited (replicate a (ip, t)) t ip"
    using Suc.prems(2) by (auto simp: spec_limited_def in_window_def connectPerFamily_def
        connectPerIP_def connectWindow_def)
  then obtain g1 where "ConnectAllowed t fam ip g = ((0, True), g1)"
    and "connect_rel (replicate (Suc a) (fam, t)) (replicate (Suc a) (ip, t)) t g1"
    using ConnectAllowed_admit [OF Suc.prems(1) order_refl]
    by (metis replicate_Suc replicate_append_same)
  with Suc.IH [of "Suc a" g1] Suc.prems(2) show ?case by auto
qed auto

theorem connect_wait_honest_witness:
  "\<exists>g0 adm g wait g'. newConnectLimiters 0 = Some g0 \<and>
     connect_run g0 (replicate 60 (0, ''f'', ''ip'')) = (adm, g) \<and>
     ConnectAllowed 7 ''f'' ''ip'' g = ((wait, False), g') \<and> 0 \<le> wait \<and>
     snd (fst (ConnectAllowed (7 + wait + 1) ''f'' ''ip'' g'))"
proof -
  obtain g0 where g0: "newConnectLimiters 0 = Some g0"
    by (simp add: newConnectLimiters_def New_def connectPerFamily_def connectPerIP_def connectWindow_def)
  then obtain g where run: "connect_run g0 (replicate 60 (0, ''f'', ''ip'')) = (replicate 60 (0, ''f'', ''ip''), g)"
    and rel: "connect_rel (replicate 60 (''f'', 0)) (replicate 60 (''ip'', 0)) 0 g"
    using connect_run_burst [of 0 "''f''" 0 "''ip''" g0 60] newConnectLimiters_rel [OF g0]
    unfolding replicate_0 add_0 by blast
  have "fam_limited (replicate 60 (''f'', 0)) 7 ''f''"
    unfolding spec_limited_def times_of_replicate
    by (simp only: in_window_def filter_replicate connectPerFamily_def connectWindow_def) simp
  then obtain wait g' where ref: "ConnectAllowed 7 ''f'' ''ip'' g = ((wait, False), g')"
    using ConnectAllowed_refuse [OF rel _ disjI1] by (metis zero_le_numeral)
  have srt: "sorted (0 # map fst (replicate n ((0::int), ''f'', ''ip'')) @ [7])" for n
    by (simp add: sorted_append)
  have "0 \<le> wait \<and> snd (fst (ConnectAllowed (7 + wait + 1) ''f'' ''ip'' g'))"
    using connect_wait_honest [OF g0 srt run ref, of "7 + wait + 1"] by force
  with g0 run ref show ?thesis by blast
qed

end
