(* ===== verification/Go_Text.thy ===== *)
theory Go_Text
  imports Prelude
begin

text \<open>
  The parts of Go's language and standard library the string-handling components use: ranging over
  a string (UTF-8 decoding, where every invalid byte yields U+FFFD and moves on by one),
  \<open>unicode.ToUpper\<close> and \<open>unicode.ToLower\<close>, \<open>strconv.Itoa\<close>, truncating integer division, and the
  base32 encoding.
\<close>

section \<open>Runes\<close>

definition byte_of :: "char \<Rightarrow> nat" where "byte_of c = of_char c"

definition is_cont :: "nat \<Rightarrow> nat \<Rightarrow> nat \<Rightarrow> bool" where
  "is_cont lo hi b \<longleftrightarrow> lo \<le> b \<and> b \<le> hi"

text \<open>The range of the second byte, by first byte, and the bits the first byte carries.\<close>

definition second_range :: "nat \<Rightarrow> nat \<times> nat" where
  "second_range b =
     (if b = 0xE0 then (0xA0, 0xBF) else if b = 0xED then (0x80, 0x9F)
      else if b = 0xF0 then (0x90, 0xBF) else if b = 0xF4 then (0x80, 0x8F) else (0x80, 0xBF))"

text \<open>\<open>utf8.DecodeRuneInString\<close>: the rune at the front and how many further bytes it takes.\<close>

definition decode_rune :: "nat \<Rightarrow> nat list \<Rightarrow> rune \<times> nat" where
  "decode_rune b s =
     (let (lo, hi) = second_range b in
      if b < 0x80 then (b, 0)
      else if 0xC2 \<le> b \<and> b \<le> 0xDF then
        (case s of
           c # _ \<Rightarrow> if is_cont lo hi c then ((b - 0xC0) * 64 + (c - 0x80), 1) else (0xFFFD, 0)
         | _ \<Rightarrow> (0xFFFD, 0))
      else if 0xE0 \<le> b \<and> b \<le> 0xEF then
        (case s of
           c # d # _ \<Rightarrow>
             if is_cont lo hi c \<and> is_cont 0x80 0xBF d
             then ((b - 0xE0) * 4096 + (c - 0x80) * 64 + (d - 0x80), 2) else (0xFFFD, 0)
         | _ \<Rightarrow> (0xFFFD, 0))
      else if 0xF0 \<le> b \<and> b \<le> 0xF4 then
        (case s of
           c # d # e # _ \<Rightarrow>
             if is_cont lo hi c \<and> is_cont 0x80 0xBF d \<and> is_cont 0x80 0xBF e
             then ((b - 0xF0) * 262144 + (c - 0x80) * 4096 + (d - 0x80) * 64 + (e - 0x80), 3)
             else (0xFFFD, 0)
         | _ \<Rightarrow> (0xFFFD, 0))
      else (0xFFFD, 0))"

function decode_runes :: "nat list \<Rightarrow> rune list" where
  "decode_runes [] = []"
| "decode_runes (b # s) =
     (let (r, w) = decode_rune b s in r # decode_runes (drop w s))"
  by pat_completeness auto
termination
  by (relation "measure length") auto

text \<open>\<open>for _, r := range s\<close>; \<open>utf8.RuneCountInString\<close> is its length.\<close>

definition go_runes :: "string \<Rightarrow> rune list" where
  "go_runes s = decode_runes (map byte_of s)"

lemma decode_rune_ascii [simp]: "b < 0x80 \<Longrightarrow> decode_rune b s = (b, 0)"
  by (simp add: decode_rune_def split: prod.splits)

lemma decode_runes_ascii: "\<forall>b \<in> set bs. b < 0x80 \<Longrightarrow> decode_runes bs = bs"
  by (induction bs) auto

lemma byte_of_lt: "byte_of c < 256"
  unfolding byte_of_def by (metis of_char_mod_256 mod_less_divisor zero_less_numeral)

lemma go_runes_ascii: "\<forall>c \<in> set s. byte_of c < 0x80 \<Longrightarrow> go_runes s = map byte_of s"
  unfolding go_runes_def by (rule decode_runes_ascii) auto

lemma length_decode_runes: "length (decode_runes bs) \<le> length bs"
proof (induction bs rule: decode_runes.induct)
  case (2 b s)
  obtain r w where "decode_rune b s = (r, w)" by (cases "decode_rune b s")
  with 2 [of "(r, w)"] show ?case by simp
qed simp

text \<open>
  \<open>unicode.ToUpper\<close> and \<open>unicode.ToLower\<close>. Two code points outside ASCII upper-case into ASCII
  (dotless i and long s) and two lower-case into it (dotted capital I and the Kelvin sign); the
  others stay outside ASCII. The model keeps those others unchanged: every use here tells only
  the ASCII code points apart.
\<close>

definition ToUpper :: "rune \<Rightarrow> rune" where
  "ToUpper r = (if 97 \<le> r \<and> r \<le> 122 then r - 32
     else if r = 0x131 then 0x49 else if r = 0x17F then 0x53 else r)"

definition ToLower :: "rune \<Rightarrow> rune" where
  "ToLower r = (if 65 \<le> r \<and> r \<le> 90 then r + 32
     else if r = 0x130 then 0x69 else if r = 0x212A then 0x6B else r)"

section \<open>Numbers\<close>

text \<open>Go's integer division truncates towards zero.\<close>

definition go_div :: "int \<Rightarrow> int \<Rightarrow> int" where
  "go_div a b = sgn a * sgn b * (\<bar>a\<bar> div \<bar>b\<bar>)"

lemma go_div_nonneg: "0 \<le> a \<Longrightarrow> 0 < b \<Longrightarrow> go_div a b = a div b"
  by (cases "a = 0") (simp_all add: go_div_def)

text \<open>\<open>strconv.Itoa\<close> on a non-negative int.\<close>

definition digit_char :: "nat \<Rightarrow> char" where
  "digit_char d = char_of (48 + d)"

fun itoa :: "nat \<Rightarrow> string" where
  "itoa n = (if n < 10 then [digit_char n] else itoa (n div 10) @ [digit_char (n mod 10)])"

declare itoa.simps [simp del]

fun atoi :: "string \<Rightarrow> nat" where
  "atoi s = foldl (\<lambda>a c. 10 * a + (byte_of c - 48)) 0 s"

lemma byte_of_digit: "d < 10 \<Longrightarrow> byte_of (digit_char d) = 48 + d"
  by (simp add: byte_of_def digit_char_def of_char_of)

lemma itoa_digits: "c \<in> set (itoa n) \<Longrightarrow> 48 \<le> byte_of c \<and> byte_of c \<le> 57"
proof (induction n rule: itoa.induct)
  case (1 n)
  show ?case
  proof (cases "n < 10")
    case True
    with "1.prems" show ?thesis by (simp add: itoa.simps [of n] byte_of_digit)
  next
    case False
    with "1.prems" have "c \<in> set (itoa (n div 10)) \<or> c = digit_char (n mod 10)"
      by (auto simp: itoa.simps [of n])
    with "1.IH" [OF False] show ?thesis by (auto simp: byte_of_digit)
  qed
qed

lemma itoa_nonempty: "itoa n \<noteq> []"
  by (subst itoa.simps) simp

lemma atoi_itoa: "atoi (itoa n) = n"
proof (induction n rule: itoa.induct)
  case (1 n)
  show ?case
  proof (cases "n < 10")
    case True
    then show ?thesis by (simp add: itoa.simps [of n] byte_of_digit)
  next
    case False
    with "1.IH" show ?thesis by (simp add: itoa.simps [of n] byte_of_digit)
  qed
qed

lemma itoa_inj: "itoa m = itoa n \<Longrightarrow> m = n"
  by (metis atoi_itoa)

lemma length_itoa: "n < 10 ^ Suc k \<Longrightarrow> length (itoa n) \<le> Suc k"
proof (induction k arbitrary: n)
  case 0
  then show ?case by (simp add: itoa.simps)
next
  case (Suc k)
  show ?case
  proof (cases "n < 10")
    case True
    then show ?thesis by (simp add: itoa.simps [of n])
  next
    case False
    have "n div 10 < 10 ^ Suc k" using Suc.prems by (simp add: less_mult_imp_div_less mult.commute)
    with Suc.IH False show ?thesis by (simp add: itoa.simps [of n])
  qed
qed

section \<open>Base32\<close>

text \<open>\<open>base32.StdEncoding.WithPadding(NoPadding)\<close>: five bits to a symbol, the last group filled
  with zero bits.\<close>

fun bits_of :: "nat \<Rightarrow> nat \<Rightarrow> bool list" where
  "bits_of 0 v = []"
| "bits_of (Suc n) v = odd (v div 2 ^ n) # bits_of n v"

definition bits_val :: "bool list \<Rightarrow> nat" where
  "bits_val bs = foldl (\<lambda>a b. 2 * a + of_bool b) 0 bs"

function fives :: "bool list \<Rightarrow> bool list list" where
  "fives bs = (if bs = [] then []
     else (take 5 bs @ replicate (5 - length bs) False) # fives (drop 5 bs))"
  by pat_completeness auto
termination
  by (relation "measure length") auto

declare fives.simps [simp del]

definition base32_alphabet :: string where
  "base32_alphabet = ''ABCDEFGHIJKLMNOPQRSTUVWXYZ234567''"

definition base32_encode :: "bytes \<Rightarrow> string" where
  "base32_encode s =
     map (\<lambda>g. base32_alphabet ! bits_val g) (fives (concat (map (\<lambda>c. bits_of 8 (byte_of c)) s)))"

lemma length_bits_of [simp]: "length (bits_of n v) = n"
  by (induction n) auto

lemma length_fives: "length (fives bs) = (length bs + 4) div 5"
proof (induction bs rule: fives.induct)
  case (1 bs)
  show ?case
  proof (cases "bs = []")
    case True
    then show ?thesis by (simp add: fives.simps)
  next
    case False
    then have "length (fives bs) = Suc ((length bs - 5 + 4) div 5)"
      using 1 by (simp add: fives.simps [of bs])
    moreover have "0 < length bs" using False by simp
    then have "Suc ((length bs - 5 + 4) div 5) = (length bs + 4) div 5"
      by (cases "5 \<le> length bs") (simp_all add: le_div_geq neq_Nil_conv, auto simp: le_div_geq)
    ultimately show ?thesis by simp
  qed
qed

lemma bits_val_lt_aux: "foldl (\<lambda>a b. 2 * a + of_bool b) (v::nat) bs < (v + 1) * 2 ^ length bs"
proof (induction bs arbitrary: v)
  case (Cons b bs)
  have "foldl (\<lambda>a b. 2 * a + of_bool b) (2 * v + of_bool b) bs < (2 * v + of_bool b + 1) * 2 ^ length bs"
    by (rule Cons.IH)
  also have "\<dots> \<le> (2 * v + 2) * 2 ^ length bs" by (intro mult_right_mono) auto
  finally show ?case by (simp add: algebra_simps)
qed simp

lemma bits_val_lt: "bits_val bs < 2 ^ length bs"
  using bits_val_lt_aux [of 0 bs] by (simp add: bits_val_def)

lemma fives_length5: "g \<in> set (fives bs) \<Longrightarrow> length g = 5"
proof (induction bs rule: fives.induct)
  case (1 bs)
  then show ?case by (cases "bs = []") (auto simp: fives.simps [of bs] fives.simps [of "[]"])
qed

lemma length_base32: "length (base32_encode s) = (8 * length s + 4) div 5"
proof -
  have "length (concat (map (\<lambda>c. bits_of 8 (byte_of c)) s)) = 8 * length s" by (induction s) auto
  then show ?thesis by (simp add: base32_encode_def length_fives)
qed

lemma base32_symbols: "c \<in> set (base32_encode s) \<Longrightarrow> c \<in> set base32_alphabet"
proof -
  assume "c \<in> set (base32_encode s)"
  then obtain g where g: "length g = 5" "c = base32_alphabet ! bits_val g"
    by (auto simp: base32_encode_def dest: fives_length5)
  moreover have "bits_val g < 32" using bits_val_lt [of g] g by simp
  moreover have "length base32_alphabet = 32" by (simp add: base32_alphabet_def)
  ultimately show ?thesis by simp
qed

end
