(* ===== verification/Uservalidate.thy ===== *)
theory Uservalidate
  imports Go_Text
begin

text \<open>
  The account-credential rules, \<^verbatim>\<open>server/internal/uservalidate/uservalidate.go\<close>, and the username
  derivation that SCIM and single sign-on provisioning share, \<^verbatim>\<open>derive.go\<close>. The digest of the
  fallback base is \<open>crypto/sha256\<close>, the parameter \<open>sha256\<close> (32 bytes for every input).
\<close>

section \<open>The rules\<close>

definition MinUsernameLen :: nat where "MinUsernameLen = 3"
definition MaxUsernameLen :: nat where "MaxUsernameLen = 32"
definition MinPasswordLen :: nat where "MinPasswordLen = 12"
definition MaxPasswordLen :: nat where "MaxPasswordLen = 1024"

datatype cred_error = ErrUsernameLength | ErrUsernamePattern | ErrPasswordLength

definition lower_alnum :: "rune \<Rightarrow> bool" where
  "lower_alnum r \<longleftrightarrow> byte_of CHR ''a'' \<le> r \<and> r \<le> byte_of CHR ''z'' \<or>
     byte_of CHR ''0'' \<le> r \<and> r \<le> byte_of CHR ''9''"

definition punct :: "rune \<Rightarrow> bool" where
  "punct r \<longleftrightarrow> r = byte_of CHR ''_'' \<or> r = byte_of CHR ''.'' \<or> r = byte_of CHR ''-''"

text \<open>\<open>^[a-z0-9][a-z0-9_.-]*$\<close>, matched against the whole text.\<close>

definition usernamePattern :: "rune list \<Rightarrow> bool" where
  "usernamePattern rs =
     (case rs of [] \<Rightarrow> False
      | r # rest \<Rightarrow> lower_alnum r \<and> list_all (\<lambda>x. lower_alnum x \<or> punct x) rest)"

definition Username :: "string \<Rightarrow> cred_error option" where
  "Username username =
     (let n = length (go_runes username)
      in if n < MinUsernameLen \<or> MaxUsernameLen < n then Some ErrUsernameLength
         else if \<not> usernamePattern (go_runes username) then Some ErrUsernamePattern
         else None)"

definition Password :: "string \<Rightarrow> cred_error option" where
  "Password password =
     (let n = length (go_runes password)
      in if n < MinPasswordLen \<or> MaxPasswordLen < n then Some ErrPasswordLength else None)"

section \<open>The derivation\<close>

definition fallbackPrefix :: string where "fallbackPrefix = ''user-''"
definition fallbackDigestLen :: nat where "fallbackDigestLen = 8"

definition hex_digit :: "nat \<Rightarrow> char" where
  "hex_digit d = ''0123456789abcdef'' ! d"

definition hex_encode :: "nat list \<Rightarrow> string" where
  "hex_encode bs = concat (map (\<lambda>b. [hex_digit (b div 16 mod 16), hex_digit (b mod 16)]) bs)"

definition fallbackBase :: "(bytes \<Rightarrow> nat list) \<Rightarrow> string \<Rightarrow> string" where
  "fallbackBase sha256 raw = fallbackPrefix @ take fallbackDigestLen (hex_encode (sha256 raw))"

text \<open>The switch of the loop: what one lower-cased rune writes.\<close>

definition derive_rune :: "rune \<Rightarrow> char" where
  "derive_rune r = (if lower_alnum r then char_of r else if punct r then char_of r else CHR ''-'')"

text \<open>\<open>strings.Cut(raw, "@")\<close>, its first result.\<close>

definition before_at :: "string \<Rightarrow> string" where
  "before_at raw = takeWhile (\<lambda>c. c \<noteq> CHR ''@'') raw"

function pad_name :: "string \<Rightarrow> string" where
  "pad_name name = (if length name < MinUsernameLen then pad_name (name @ ''0'') else name)"
  by pat_completeness auto
termination
  by (relation "measure (\<lambda>n. MinUsernameLen - length n)") auto

declare pad_name.simps [simp del]

definition derive_base :: "(bytes \<Rightarrow> nat list) \<Rightarrow> string \<Rightarrow> string" where
  "derive_base sha256 raw =
     (let b = map (\<lambda>r. derive_rune (ToLower r)) (go_runes (before_at raw));
          base = dropWhile (\<lambda>c. punct (byte_of c)) b
      in if base = [] then fallbackBase sha256 raw else base)"

definition derive_suffix :: "int \<Rightarrow> string" where
  "derive_suffix attempt = (if 0 < attempt then ''-'' @ itoa (nat attempt) else [])"

definition DeriveUsername :: "(bytes \<Rightarrow> nat list) \<Rightarrow> string \<Rightarrow> int \<Rightarrow> string" where
  "DeriveUsername sha256 raw attempt =
     (let base = derive_base sha256 raw;
          suffix = derive_suffix attempt;
          base' = (if MaxUsernameLen < length base + length suffix
                   then take (MaxUsernameLen - length suffix) base else base)
      in pad_name (base' @ suffix))"

lemmas length_consts = MinUsernameLen_def MaxUsernameLen_def

section \<open>Lemmas\<close>

text \<open>A text over the username alphabet: one byte per rune.\<close>

definition name_char :: "char \<Rightarrow> bool" where
  "name_char c \<longleftrightarrow> lower_alnum (byte_of c) \<or> punct (byte_of c)"

definition name_ok :: "string \<Rightarrow> bool" where
  "name_ok s \<longleftrightarrow> s \<noteq> [] \<and> lower_alnum (byte_of (hd s)) \<and> list_all name_char s"

lemma name_char_ascii: "name_char c \<Longrightarrow> byte_of c < 0x80"
  by (auto simp: name_char_def lower_alnum_def punct_def byte_of_def)

lemma name_ok_runes: "list_all name_char s \<Longrightarrow> go_runes s = map byte_of s"
  by (rule go_runes_ascii) (auto simp: list_all_iff name_char_ascii)

lemma Username_ok:
  assumes "name_ok s" and "MinUsernameLen \<le> length s" and "length s \<le> MaxUsernameLen"
  shows "Username s = None"
proof -
  have runes: "go_runes s = map byte_of s" using assms(1) by (simp add: name_ok_def name_ok_runes)
  have "usernamePattern (map byte_of s)"
    using assms(1) by (cases s) (auto simp: name_ok_def usernamePattern_def list_all_iff name_char_def)
  with assms(2,3) show ?thesis by (simp add: Username_def runes Let_def)
qed

lemma byte_of_char_of_ascii: "r < 256 \<Longrightarrow> byte_of (char_of r) = r"
  by (simp add: byte_of_def of_char_of)

lemma name_char_derive_rune: "name_char (derive_rune r)"
proof -
  have "lower_alnum r \<or> punct r \<Longrightarrow> r < 256" by (auto simp: lower_alnum_def punct_def byte_of_def)
  then show ?thesis
    by (auto simp: derive_rune_def name_char_def byte_of_char_of_ascii punct_def)
qed

lemma dropWhile_hd: "dropWhile P xs \<noteq> [] \<Longrightarrow> \<not> P (hd (dropWhile P xs))"
  by (rule hd_dropWhile)

lemma hex_digit_ok: "d < 16 \<Longrightarrow> lower_alnum (byte_of (hex_digit d))"
proof -
  have "list_all (\<lambda>c. lower_alnum (byte_of c)) ''0123456789abcdef''" by code_simp
  moreover assume "d < 16"
  then have "hex_digit d \<in> set ''0123456789abcdef''"
    unfolding hex_digit_def by (intro nth_mem) simp
  ultimately show "lower_alnum (byte_of (hex_digit d))"
    unfolding list_all_iff by blast
qed

lemma fallbackBase_ok:
  "name_ok (fallbackBase sha256 raw)"
proof -
  have "list_all name_char (hex_encode bs)" for bs
    by (auto simp: hex_encode_def list_all_iff name_char_def hex_digit_ok)
  then have "list_all name_char (take n (hex_encode bs))" for n bs
    by (meson list_all_iff in_set_takeD)
  moreover have "list_all name_char fallbackPrefix" "lower_alnum (byte_of (hd fallbackPrefix))"
    by code_simp+
  ultimately show ?thesis
    by (simp add: name_ok_def fallbackBase_def fallbackPrefix_def)
qed

lemma derive_base_ok: "name_ok (derive_base sha256 raw)"
proof -
  define b where "b = map (\<lambda>r. derive_rune (ToLower r)) (go_runes (before_at raw))"
  define base where "base = dropWhile (\<lambda>c. punct (byte_of c)) b"
  have eq: "derive_base sha256 raw = (if base = [] then fallbackBase sha256 raw else base)"
    unfolding derive_base_def Let_def b_def base_def by (rule refl)
  have all: "list_all name_char base"
    by (auto simp: base_def b_def list_all_iff name_char_derive_rune dest!: set_dropWhileD)
  show ?thesis
  proof (cases "base = []")
    case True
    then show ?thesis by (simp add: eq fallbackBase_ok)
  next
    case False
    then have "\<not> punct (byte_of (hd base))" unfolding base_def by (rule hd_dropWhile)
    moreover have "name_char (hd base)" using False all by (simp add: list_all_iff)
    ultimately have "lower_alnum (byte_of (hd base))" by (simp add: name_char_def)
    with False all show ?thesis by (simp add: eq name_ok_def)
  qed
qed

lemma suffix_ok:
  assumes "attempt < 2 ^ 63"
  shows "list_all name_char (derive_suffix attempt)" and "length (derive_suffix attempt) \<le> 20"
proof -
  have "name_char c" if "c \<in> set (itoa n)" for c n
    using itoa_digits [OF that] by (simp add: name_char_def lower_alnum_def byte_of_def)
  moreover have "name_char CHR ''-''" by (simp add: name_char_def punct_def)
  ultimately show "list_all name_char (derive_suffix attempt)"
    by (auto simp: derive_suffix_def list_all_iff)
  have "nat attempt < 10 ^ Suc 18" using assms by simp
  from length_itoa [OF this] show "length (derive_suffix attempt) \<le> 20"
    by (simp add: derive_suffix_def)
qed

lemma pad_name_ok:
  assumes "name_ok s" and "length s \<le> MaxUsernameLen"
  shows "name_ok (pad_name s) \<and> MinUsernameLen \<le> length (pad_name s) \<and> length (pad_name s) \<le> MaxUsernameLen"
  using assms
proof (induction s rule: pad_name.induct)
  case (1 s)
  show ?case
  proof (cases "length s < MinUsernameLen")
    case True
    have "name_char CHR ''0''" by (simp add: name_char_def lower_alnum_def byte_of_def)
    then have "name_ok (s @ ''0'')" using "1.prems"(1) by (simp add: name_ok_def)
    with "1.IH" [OF True] True show ?thesis
      by (simp add: pad_name.simps [of s] length_consts)
  next
    case False
    with "1.prems" show ?thesis by (simp add: pad_name.simps [of s])
  qed
qed

text \<open>The shape of a derived name before padding: a non-empty prefix of the base, and the suffix.\<close>

lemma derive_shape:
  assumes "attempt < 2 ^ 63"
  obtains p where "DeriveUsername sha256 raw attempt = pad_name (p @ derive_suffix attempt)"
    and "name_ok p" and "length (p @ derive_suffix attempt) \<le> MaxUsernameLen"
proof -
  let ?base = "derive_base sha256 raw" and ?s = "derive_suffix attempt"
  define p where "p = (if MaxUsernameLen < length ?base + length ?s
    then take (MaxUsernameLen - length ?s) ?base else ?base)"
  have s: "length ?s \<le> 20" using suffix_ok(2) [OF assms] .
  have ne: "0 < MaxUsernameLen - length ?s" using s by (simp add: length_consts)
  have "name_ok (take n ?base)" if "0 < n" for n
    using derive_base_ok [of sha256 raw] that by (auto simp: name_ok_def list_all_iff hd_take dest: in_set_takeD)
  then have "name_ok p" using ne derive_base_ok by (simp add: p_def)
  moreover have "length (p @ ?s) \<le> MaxUsernameLen"
    using s by (auto simp: p_def length_consts)
  ultimately show thesis by (intro that [of p]) (simp_all add: DeriveUsername_def Let_def p_def)
qed

lemma after_last_dash:
  assumes "xs @ c # ys = xs' @ c # ys'" and "c \<notin> set ys" and "c \<notin> set ys'"
  shows "ys = ys'"
proof -
  have tail: "takeWhile (\<lambda>x. x \<noteq> c) (rev (us @ c # vs)) = rev vs" if "c \<notin> set vs" for us vs
    using that by (induction vs rule: rev_induct) auto
  from tail [OF assms(2), of xs] tail [OF assms(3), of xs'] assms(1) have "rev ys = rev ys'" by simp
  then show ?thesis by simp
qed

section \<open>Properties\<close>

text \<open>
  C38. A derived username always satisfies the account rules: whatever the directory sent and
  whatever the collision counter (any 64-bit int), the result has 3 to 32 characters, starts with a
  lowercase letter or digit and contains only the allowed ones.
\<close>

theorem DeriveUsername_valid:
  assumes "attempt < 2 ^ 63"
  shows "Username (DeriveUsername sha256 raw attempt) = None"
proof -
  obtain p where "DeriveUsername sha256 raw attempt = pad_name (p @ derive_suffix attempt)"
    and "name_ok p" and "length (p @ derive_suffix attempt) \<le> MaxUsernameLen"
    by (rule derive_shape [OF assms])
  moreover have "name_ok (p @ derive_suffix attempt)"
    using \<open>name_ok p\<close> suffix_ok(1) [OF assms] by (simp add: name_ok_def)
  ultimately show ?thesis using pad_name_ok Username_ok by metis
qed

theorem DeriveUsername_valid_witness:
  "DeriveUsername (\<lambda>_. replicate 32 171) ''Sara.M@example.org'' 0 = ''sara.m'' \<and>
   DeriveUsername (\<lambda>_. replicate 32 171) ''@@'' 7 = ''user-abababab-7'' \<and>
   Username (DeriveUsername (\<lambda>_. replicate 32 171) ''@@'' 7) = None"
proof -
  have "DeriveUsername (\<lambda>_. replicate 32 171) ''Sara.M@example.org'' 0 = ''sara.m'' \<and>
     DeriveUsername (\<lambda>_. replicate 32 171) ''@@'' 7 = ''user-abababab-7''"
    by code_simp
  then show ?thesis using DeriveUsername_valid [of 7 "\<lambda>_. replicate 32 171" "''@@''"] by simp
qed

text \<open>
  The collision counter makes progress: for one directory value, two different positive
  attempts never derive the same username, so a caller that retries past a taken name tries a new
  name every time.
\<close>

theorem DeriveUsername_attempts_distinct:
  assumes "0 < a" and "0 < b" and "a < 2 ^ 63" and "b < 2 ^ 63" and "a \<noteq> b"
  shows "DeriveUsername sha256 raw a \<noteq> DeriveUsername sha256 raw b"
proof
  assume eq: "DeriveUsername sha256 raw a = DeriveUsername sha256 raw b"
  have shape: "\<exists>p. DeriveUsername sha256 raw n = p @ CHR ''-'' # itoa (nat n)"
    if n: "0 < n" "n < 2 ^ 63" for n
  proof -
    obtain p where p: "DeriveUsername sha256 raw n = pad_name (p @ derive_suffix n)" "name_ok p"
      by (rule derive_shape [OF n(2)])
    have "p \<noteq> []" using p(2) by (simp add: name_ok_def)
    moreover have "itoa (nat n) \<noteq> []" by (rule itoa_nonempty)
    ultimately have "\<not> length (p @ derive_suffix n) < MinUsernameLen"
      using n(1) by (cases p; cases "itoa (nat n)") (simp_all add: derive_suffix_def length_consts)
    then have "pad_name (p @ derive_suffix n) = p @ derive_suffix n"
      by (subst pad_name.simps) simp
    with p(1) n(1) show ?thesis by (simp add: derive_suffix_def)
  qed
  have "CHR ''-'' \<notin> set (itoa n)" for n
    using itoa_digits [of "CHR ''-''" n] by (auto simp: byte_of_def)
  with shape [OF assms(1,3)] shape [OF assms(2,4)] eq have "itoa (nat a) = itoa (nat b)"
    using after_last_dash by metis
  with assms show False using itoa_inj by force
qed

theorem DeriveUsername_attempts_distinct_witness:
  "DeriveUsername (\<lambda>_. replicate 32 0) ''sara'' 1 \<noteq> DeriveUsername (\<lambda>_. replicate 32 0) ''sara'' 11"
  by (rule DeriveUsername_attempts_distinct) simp_all

end
