(* ===== verification/Schema.thy ===== *)
theory Schema
  imports Prelude
begin

text \<open>
  The tables of \<^verbatim>\<open>server/internal/storage\<close> the development models, one record per row type (the
  Go struct of the table plus the columns its queries read), and the database as the record of
  its tables. The password hash of an account without one is the empty string (\<open>COALESCE\<close>).
  \<open>org_settings\<close> holds exactly one row (migration 0009), so it is one record. Time is
  in microseconds, the resolution of \<open>timestamptz\<close>.
\<close>

record user_row =
  u_id :: uuid
  u_username :: string
  u_email :: "string option"
  u_password_hash :: string
  u_is_admin :: bool
  u_is_active :: bool
  u_display_name :: string
  u_locale :: string
  u_must_change :: bool
  u_created :: instant

record session_row =
  s_id :: uuid
  s_user :: uuid
  s_family :: uuid
  s_refresh_hash :: bytes
  s_access_hash :: bytes
  s_refresh_exp :: instant
  s_access_exp :: instant
  s_used_at :: "instant option"
  s_revoked_at :: "instant option"
  s_user_agent :: string
  s_ip :: "string option"
  s_created :: instant
  s_enroll :: bool

record org_row =
  require_totp :: bool
  session_lifetime_hours :: int
  org_name :: string
  default_locale :: string
  registration_mode :: string
  sso_jit_provisioning :: bool
  encryption_mode :: string

record totp_row =
  ut_user :: uuid
  ut_secret :: bytes
  ut_verified_at :: "instant option"
  ut_activated_at :: "instant option"
  ut_setup_exp :: instant
  ut_attempts :: int
  ut_last_step :: "int option"
  ut_created :: instant

record recovery_row =
  rc_id :: uuid
  rc_user :: uuid
  rc_hash :: string
  rc_used_at :: "instant option"
  rc_created :: instant

record challenge_row =
  tc_id :: uuid
  tc_user :: uuid
  tc_token_hash :: bytes
  tc_exp :: instant
  tc_attempts :: int
  tc_consumed_at :: "instant option"
  tc_created :: instant

record device_row =
  md_id :: uuid
  md_user :: uuid
  md_key :: bytes
  md_created :: instant

record key_package_row =
  kp_id :: uuid
  kp_device :: uuid
  kp_data :: bytes
  kp_created :: instant

record group_row =
  mg_channel :: uuid
  mg_group_id :: bytes
  mg_epoch :: int
  mg_created :: instant

record commit_row =
  mc_channel :: uuid
  mc_epoch :: int
  mc_message :: bytes
  mc_created :: instant

record welcome_row =
  mw_id :: uuid
  mw_channel :: uuid
  mw_device :: uuid
  mw_welcome :: bytes
  mw_created :: instant

record backup_row =
  mb_user :: uuid
  mb_envelope :: bytes
  mb_counter :: int
  mb_updated :: instant

record chan_row =
  c_id :: uuid
  c_kind :: string
  c_slug :: "string option"
  c_topic :: string
  c_dm_a :: "uuid option"
  c_dm_b :: "uuid option"
  c_created_by :: "uuid option"
  c_e2ee :: bool
  c_created :: instant

record member_row =
  cm_channel :: uuid
  cm_user :: uuid

record message_row =
  m_id :: uuid
  m_channel :: uuid
  m_author :: uuid
  m_client :: uuid
  m_content :: string
  m_created :: instant
  m_edited :: "instant option"
  m_deleted :: "instant option"
  m_deleted_by :: "uuid option"
  m_mls :: "(int \<times> bytes) option"

record mention_row =
  mn_message :: uuid
  mn_user :: uuid

record read_row =
  rp_channel :: uuid
  rp_user :: uuid
  rp_message :: uuid
  rp_at :: instant

record attachment_row =
  at_id :: uuid
  at_channel :: uuid
  at_uploader :: uuid
  at_message :: "uuid option"
  at_position :: "int option"
  at_filename :: string
  at_content_type :: string
  at_size :: int
  at_dims :: "(int \<times> int) option"
  at_thumbnail :: bool
  at_created :: instant

record preview_row =
  lp_message :: uuid
  lp_url :: string
  lp_title :: "string option"
  lp_description :: "string option"
  lp_image :: "uuid option"
  lp_fetched :: instant

record audit_row =
  ae_seq :: int
  ae_id :: uuid
  ae_action :: string
  ae_actor :: "uuid option"
  ae_target :: "uuid option"
  ae_label :: "string option"
  ae_detail :: "bytes option"
  ae_ip :: "string option"
  ae_occurred :: instant
  ae_prev :: bytes
  ae_hash :: bytes

record reset_row =
  pr_id :: uuid
  pr_user :: uuid
  pr_token_hash :: bytes
  pr_exp :: instant
  pr_created :: instant
  pr_used_at :: "instant option"

record invite_row =
  iv_id :: uuid
  iv_token_hash :: bytes
  iv_created_by :: uuid
  iv_note :: string
  iv_created :: instant
  iv_exp :: instant
  iv_accepted_at :: "instant option"
  iv_accepted_by :: "uuid option"
  iv_revoked_at :: "instant option"

record db =
  users :: "user_row list"
  sessions :: "session_row list"
  org_settings :: org_row
  user_totp :: "totp_row list"
  user_recovery_codes :: "recovery_row list"
  totp_challenges :: "challenge_row list"
  channels :: "chan_row list"
  channel_members :: "member_row list"
  mls_devices :: "device_row list"
  mls_key_packages :: "key_package_row list"
  mls_groups :: "group_row list"
  mls_commits :: "commit_row list"
  mls_welcomes :: "welcome_row list"
  mls_backups :: "backup_row list"
  messages :: "message_row list"
  message_mentions :: "mention_row list"
  read_positions :: "read_row list"
  attachments :: "attachment_row list"
  link_previews :: "preview_row list"
  reset_tokens :: "reset_row list"
  invites :: "invite_row list"
  audit_entries :: "audit_row list"

text \<open>One hour, for \<open>make_interval(hours => \<dots>)\<close>.\<close>

definition hour :: duration where "hour = 3600 * 10 ^ 6"

text \<open>
  \<open>char_length\<close> of a UTF-8 text: the bytes that do not continue a code point
  (\<open>0x80\<close> to \<open>0xBF\<close> continue one).
\<close>

definition char_length :: "string \<Rightarrow> nat" where
  "char_length s = length (filter (\<lambda>c. (of_char c :: nat) div 64 \<noteq> 2) s)"

text \<open>The account has an activated second factor.\<close>

definition totp_activated :: "uuid \<Rightarrow> db \<Rightarrow> bool" where
  "totp_activated uid db =
     sql_exists (\<lambda>ut. ut_user ut = uid \<and> ut_activated_at ut \<noteq> None) (user_totp db)"

text \<open>The row migration 0009 inserts (with 0015 and 0018), with the two settings the runs below vary.\<close>

definition org_of :: "bool \<Rightarrow> int \<Rightarrow> org_row" where
  "org_of totp hours = \<lparr>require_totp = totp, session_lifetime_hours = hours, org_name = ''Hamlaneh'',
     default_locale = ''en'', registration_mode = ''invite'', sso_jit_provisioning = False,
     encryption_mode = ''strict''\<rparr>"

text \<open>An instance with one account and no rows elsewhere, for the concrete runs below.\<close>

definition empty_db :: "uuid list \<Rightarrow> org_row \<Rightarrow> db" where
  "empty_db uids org =
     \<lparr>users = map (\<lambda>u. \<lparr>u_id = u, u_username = ''u'', u_email = None,
        u_password_hash = [], u_is_admin = False, u_is_active = True,
        u_display_name = ''u'', u_locale = ''en'', u_must_change = False, u_created = 0\<rparr>) uids,
      sessions = [], org_settings = org, user_totp = [], user_recovery_codes = [],
      totp_challenges = [], channels = [], channel_members = [], mls_devices = [],
      mls_key_packages = [], mls_groups = [], mls_commits = [], mls_welcomes = [],
      mls_backups = [], messages = [], message_mentions = [], read_positions = [],
      attachments = [], link_previews = [],
      reset_tokens = [], invites = [], audit_entries = []\<rparr>"

end
