(* ===== verification/Session_Store.thy ===== *)
theory Session_Store
  imports Schema
begin

text \<open>
  Refresh-token sessions, \<^verbatim>\<open>server/internal/storage/sessions.go\<close> and
  \<^verbatim>\<open>server/internal/storage/session_families.go\<close>: families, rotation with reuse detection, listing
  and revocation. Each operation is one transaction on the database; \<open>now\<close> is the database clock,
  constant within a transaction, and the identifiers \<open>gen_random_uuid()\<close> draws are arguments. The
  advisory lock of \<open>lockSessionMint\<close> orders transactions and has no effect on the state.
\<close>

section \<open>Rows, tokens, outcomes\<close>

record session_tokens =
  AccessTokenHash :: bytes
  RefreshTokenHash :: bytes
  AccessTTL :: duration
  RefreshTTL :: duration
  UserAgent :: string
  IP :: "string option"

text \<open>The \<open>Session\<close> struct: what a query returns of a row (\<open>sessionColumns\<close>, no token hashes).\<close>

record session =
  ID :: uuid
  UserID :: uuid
  FamilyID :: uuid
  AccessExpiresAt :: instant
  RefreshExpiresAt :: instant
  CreatedAt :: instant
  TotpEnrollmentRequired :: bool

definition scanSession :: "session_row \<Rightarrow> session" where
  "scanSession r = \<lparr>ID = s_id r, UserID = s_user r, FamilyID = s_family r,
     AccessExpiresAt = s_access_exp r, RefreshExpiresAt = s_refresh_exp r,
     CreatedAt = s_created r, TotpEnrollmentRequired = s_enroll r\<rparr>"

datatype RotateOutcome =
  RotateOutcomeInvalid | RotateOutcomeRotated | RotateOutcomeReuseDetected

section \<open>Statements\<close>

text \<open>
  The INSERT shared by a mint and a rotation, with the constraints of the \<open>sessions\<close> table
  (migration 0002): the CHECKs, the primary key and the two unique hashes, the user reference.
\<close>

definition insert_session :: "session_row \<Rightarrow> (db, session) tx" where
  "insert_session r db =
     (if length (s_refresh_hash r) \<noteq> 32 \<or> length (s_access_hash r) \<noteq> 32
          \<or> 512 < char_length (s_user_agent r) then Inl CheckViolation
      else if sql_exists (\<lambda>x. s_id x = s_id r \<or> s_refresh_hash x = s_refresh_hash r
                 \<or> s_access_hash x = s_access_hash r) (sessions db) then Inl UniqueViolation
      else if \<not> sql_exists (\<lambda>u. u_id u = s_user r) (users db) then Inl ForeignKeyViolation
      else Inr (scanSession r, db\<lparr>sessions := sql_insert r (sessions db)\<rparr>))"

text \<open>
  The row a mint or a rotation inserts: the refresh window is the organisation's lifetime clamped
  to the caller's ceiling, and the enrolment flag only survives on an account with no activated
  second factor.
\<close>

definition next_row ::
  "instant \<Rightarrow> uuid \<Rightarrow> uuid \<Rightarrow> uuid \<Rightarrow> session_tokens \<Rightarrow> bool \<Rightarrow> db \<Rightarrow> session_row" where
  "next_row now newID uid fam t flag db =
     \<lparr>s_id = newID, s_user = uid, s_family = fam,
      s_refresh_hash = RefreshTokenHash t, s_access_hash = AccessTokenHash t,
      s_refresh_exp = now + min (session_lifetime_hours (org_settings db) * hour) (RefreshTTL t),
      s_access_exp = now + AccessTTL t,
      s_used_at = None, s_revoked_at = None,
      s_user_agent = UserAgent t, s_ip = IP t, s_created = now,
      s_enroll = (flag \<and> \<not> totp_activated uid db)\<rparr>"

definition insertSessionFamily ::
  "instant \<Rightarrow> uuid \<Rightarrow> uuid \<Rightarrow> uuid \<Rightarrow> session_tokens \<Rightarrow> (db, session) tx" where
  "insertSessionFamily now newID newFamily uid t db =
     insert_session (next_row now newID uid newFamily t (require_totp (org_settings db)) db) db"

definition CreateSession ::
  "instant \<Rightarrow> uuid \<Rightarrow> uuid \<Rightarrow> uuid \<Rightarrow> session_tokens \<Rightarrow> db \<Rightarrow> (store_error + session) \<times> db" where
  "CreateSession now newID newFamily uid t =
     begin_func (insertSessionFamily now newID newFamily uid t)"

definition SessionUserByAccessHash ::
  "instant \<Rightarrow> bytes \<Rightarrow> db \<Rightarrow> store_error + session \<times> user_row" where
  "SessionUserByAccessHash now accessHash db =
     (case sql_row (\<lambda>s. s_access_hash s = accessHash \<and> s_revoked_at s = None
                       \<and> now < s_access_exp s) (sessions db) of
        None \<Rightarrow> Inl ErrNotFound
      | Some s \<Rightarrow>
          (case sql_row (\<lambda>u. u_id u = s_user s) (users db) of
             None \<Rightarrow> Inl ErrNotFound
           | Some u \<Rightarrow> Inr (scanSession s, u)))"

definition revoke_where :: "(session_row \<Rightarrow> bool) \<Rightarrow> instant \<Rightarrow> db \<Rightarrow> db" where
  "revoke_where P now db = db\<lparr>sessions :=
     sql_update (\<lambda>s. P s \<and> s_revoked_at s = None) (\<lambda>s. s\<lparr>s_revoked_at := Some now\<rparr>) (sessions db)\<rparr>"

definition retire_row :: "uuid \<Rightarrow> instant \<Rightarrow> db \<Rightarrow> db" where
  "retire_row i now db = db\<lparr>sessions :=
     sql_update (\<lambda>s. s_id s = i) (\<lambda>s. s\<lparr>s_used_at := Some now, s_access_exp := now\<rparr>) (sessions db)\<rparr>"

text \<open>
  Sweeps. Under READ COMMITTED an UPDATE works on the rows its snapshot has. A rotation that runs at the same time may
  have inserted its next generation and commit it later: the sweep waits for the row that rotation locked, and does not
  see the inserted one. \<open>unseen\<close> names the rows a sweep missed that way; it is any list, and empty when nothing ran
  beside the sweep. The sweeps of \<open>Account_Store\<close> miss none: they hold the account row \<open>FOR UPDATE\<close>, which the
  foreign key of a concurrent INSERT waits for, and read the sessions in a later statement.
\<close>

definition missed :: "uuid list \<Rightarrow> session_row \<Rightarrow> bool" where
  "missed unseen s \<longleftrightarrow> s_id s \<in> set unseen"

text \<open>
  The body of the rotation's transaction. The row it presented is locked, so its own sweep sees that one. The outcome and the session are the captured variables
  of the closure: on a path that assigns no session the zero value stands, here \<^const>\<open>None\<close>.
\<close>

definition rotate_body ::
  "uuid list \<Rightarrow> instant \<Rightarrow> uuid \<Rightarrow> bytes \<Rightarrow> session_tokens \<Rightarrow> (db, session option \<times> RotateOutcome) tx" where
  "rotate_body unseen now newID refreshHash next db =
     (case sql_row (\<lambda>s. s_refresh_hash s = refreshHash) (sessions db) of
        None \<Rightarrow> Inr ((None, RotateOutcomeInvalid), db)
      | Some s \<Rightarrow>
          if s_revoked_at s \<noteq> None then Inr ((None, RotateOutcomeInvalid), db)
          else if s_used_at s \<noteq> None then
            Inr ((None, RotateOutcomeReuseDetected),
                 revoke_where (\<lambda>x. s_family x = s_family s \<and> (x = s \<or> \<not> missed unseen x)) now db)
          else if s_refresh_exp s \<le> now then Inr ((None, RotateOutcomeInvalid), db)
          else
            (let db1 = retire_row (s_id s) now db
             in case insert_session
                       (next_row now newID (s_user s) (s_family s) next (s_enroll s) db1) db1 of
                  Inl e \<Rightarrow> Inl e
                | Inr (sess, db2) \<Rightarrow> Inr ((Some sess, RotateOutcomeRotated), db2)))"

definition RotateSession ::
  "uuid list \<Rightarrow> instant \<Rightarrow> uuid \<Rightarrow> bytes \<Rightarrow> session_tokens \<Rightarrow> db \<Rightarrow>
   (store_error + session option \<times> RotateOutcome) \<times> db" where
  "RotateSession unseen now newID refreshHash next = begin_func (rotate_body unseen now newID refreshHash next)"

definition RevokeFamily :: "uuid list \<Rightarrow> instant \<Rightarrow> uuid \<Rightarrow> db \<Rightarrow> db" where
  "RevokeFamily unseen now familyID = revoke_where (\<lambda>s. s_family s = familyID \<and> \<not> missed unseen s) now"

text \<open>One statement does both: the UPDATE runs, and the EXISTS reads the snapshot before it.\<close>

definition RevokeUserFamily ::
  "uuid list \<Rightarrow> instant \<Rightarrow> uuid \<Rightarrow> uuid \<Rightarrow> db \<Rightarrow> (store_error + unit) \<times> db" where
  "RevokeUserFamily unseen now uid familyID db =
     ((if sql_exists (\<lambda>s. s_user s = uid \<and> s_family s = familyID \<and> \<not> missed unseen s) (sessions db)
       then Inr () else Inl ErrNotFound),
      revoke_where (\<lambda>s. s_user s = uid \<and> s_family s = familyID \<and> \<not> missed unseen s) now db)"

definition RevokeOtherFamilies :: "uuid list \<Rightarrow> instant \<Rightarrow> uuid \<Rightarrow> uuid \<Rightarrow> db \<Rightarrow> db" where
  "RevokeOtherFamilies unseen now uid keepFamilyID =
     revoke_where (\<lambda>s. s_user s = uid \<and> s_family s \<noteq> keepFamilyID \<and> \<not> missed unseen s) now"

section \<open>Listing\<close>

record session_family =
  sf_family :: uuid
  sf_user_agent :: string
  sf_ip :: "string option"
  sf_last_active :: instant
  sf_current :: bool

text \<open>
  \<open>DISTINCT ON (family_id) \<dots> ORDER BY family_id, created_at DESC, id DESC\<close>: of each family, its
  newest generation, families in ascending order.
\<close>

definition newer :: "session_row \<Rightarrow> session_row \<Rightarrow> bool" where
  "newer a b \<longleftrightarrow> s_created b < s_created a \<or> s_created a = s_created b \<and> s_id b \<le> s_id a"

fun newest_of :: "session_row list \<Rightarrow> session_row option" where
  "newest_of [] = None"
| "newest_of (r # rs) =
     (case newest_of rs of None \<Rightarrow> Some r | Some m \<Rightarrow> Some (if newer r m then r else m))"

definition newest_generations :: "uuid \<Rightarrow> session_row list \<Rightarrow> session_row list" where
  "newest_generations uid rows =
     (let mine = filter (\<lambda>s. s_user s = uid) rows;
          fams = sort (remdups (map s_family mine))
      in List.map_filter (\<lambda>f. newest_of (filter (\<lambda>s. s_family s = f) mine)) fams)"

definition scan_family :: "uuid \<Rightarrow> session_row \<Rightarrow> session_family" where
  "scan_family cur s = \<lparr>sf_family = s_family s, sf_user_agent = s_user_agent s, sf_ip = s_ip s,
     sf_last_active = s_created s, sf_current = (s_family s = cur)\<rparr>"

text \<open>
  \<open>ORDER BY (family_id = $2) DESC, created_at DESC, family_id\<close>: the rows arrive in ascending family
  order and each of the two sorts is stable.
\<close>

definition ListSessionFamilies :: "instant \<Rightarrow> uuid \<Rightarrow> uuid \<Rightarrow> db \<Rightarrow> session_family list" where
  "ListSessionFamilies now uid currentFamilyID db =
     (let live = filter (\<lambda>s. s_revoked_at s = None \<and> now < s_refresh_exp s)
                   (newest_generations uid (sessions db));
          by_time = sql_order (\<lambda>s. - s_created s) live;
          ordered = sql_order (\<lambda>s. s_family s \<noteq> currentFamilyID) by_time
      in map (scan_family currentFamilyID) ordered)"

lemmas session_ops = CreateSession_def insertSessionFamily_def SessionUserByAccessHash_def
  RotateSession_def rotate_body_def RevokeFamily_def RevokeUserFamily_def RevokeOtherFamilies_def

section \<open>The invariant\<close>

text \<open>
  What the table satisfies between transactions. The keys are unique. A family has one user and at most one
  generation whose refresh token is still unused; a used generation's access token expired no later than its use.
  That a family is revoked as a whole is not invariant: a sweep can miss a generation.
\<close>

definition keys_ok :: "session_row list \<Rightarrow> bool" where
  "keys_ok rows \<longleftrightarrow> distinct (map s_id rows) \<and> distinct (map s_refresh_hash rows) \<and>
     distinct (map s_access_hash rows)"

definition kin_ok :: "session_row \<Rightarrow> session_row \<Rightarrow> bool" where
  "kin_ok a b \<longleftrightarrow> s_family a = s_family b \<longrightarrow>
     s_user a = s_user b \<and> (s_used_at a = None \<and> s_used_at b = None \<longrightarrow> a = b)"

definition families_ok :: "session_row list \<Rightarrow> bool" where
  "families_ok rows \<longleftrightarrow> (\<forall>a \<in> set rows. \<forall>b \<in> set rows. kin_ok a b) \<and>
     (\<forall>a \<in> set rows. \<forall>t. s_used_at a = Some t \<longrightarrow> s_access_exp a \<le> t)"

definition sessions_inv :: "db \<Rightarrow> bool" where
  "sessions_inv db \<longleftrightarrow> keys_ok (sessions db) \<and> families_ok (sessions db)"

lemma keys_ok_update:
  assumes "keys_ok rows"
    and "\<And>r. s_id (f r) = s_id r \<and> s_refresh_hash (f r) = s_refresh_hash r \<and>
           s_access_hash (f r) = s_access_hash r"
  shows "keys_ok (sql_update P f rows)"
  using assms by (simp add: keys_ok_def map_sql_update_frame)

lemma families_ok_update:
  assumes "\<And>a b. a \<in> set rows \<Longrightarrow> b \<in> set rows \<Longrightarrow>
      kin_ok (if P a then f a else a) (if P b then f b else b)"
    and "\<And>a t. a \<in> set rows \<Longrightarrow> s_used_at (if P a then f a else a) = Some t \<Longrightarrow>
      s_access_exp (if P a then f a else a) \<le> t"
  shows "families_ok (sql_update P f rows)"
  using assms by (simp add: families_ok_def set_sql_update del: if_image_distrib)

lemma revoke_where_inv [wf_intros]:
  assumes inv: "sessions_inv db"
  shows "sessions_inv (revoke_where P now db)"
proof -
  let ?g = "\<lambda>s. if P s \<and> s_revoked_at s = None then s\<lparr>s_revoked_at := Some now\<rparr> else s"
  have kin: "kin_ok a b" if "a \<in> set (sessions db)" "b \<in> set (sessions db)" for a b
    using inv that by (simp add: sessions_inv_def families_ok_def)
  have "kin_ok (?g a) (?g b)" if "a \<in> set (sessions db)" "b \<in> set (sessions db)" for a b
    using kin [OF that] by (auto simp: kin_ok_def)
  moreover have "s_access_exp (?g a) \<le> t" if "a \<in> set (sessions db)" "s_used_at (?g a) = Some t" for a t
    using inv that by (auto simp: sessions_inv_def families_ok_def split: if_splits)
  ultimately have "families_ok (sessions (revoke_where P now db))"
    by (simp add: revoke_where_def families_ok_update)
  then show ?thesis using inv by (simp add: sessions_inv_def revoke_where_def keys_ok_update)
qed

lemma insert_session_Inr:
  "insert_session r db = Inr (sess, db') \<Longrightarrow>
     sess = scanSession r \<and> db' = db\<lparr>sessions := sessions db @ [r]\<rparr> \<and>
     (\<forall>x \<in> set (sessions db). s_id x \<noteq> s_id r \<and> s_refresh_hash x \<noteq> s_refresh_hash r \<and>
        s_access_hash x \<noteq> s_access_hash r) \<and>
     (\<exists>u \<in> set (users db). u_id u = s_user r)"
  by (auto simp: insert_session_def sql_insert_def split: if_splits)

lemma insert_session_inv:
  assumes ins: "insert_session r db = Inr (sess, db')" and inv: "sessions_inv db"
    and kin: "\<And>a. a \<in> set (sessions db) \<Longrightarrow> s_family a = s_family r \<Longrightarrow>
      s_user a = s_user r \<and> s_used_at a \<noteq> None"
    and fresh: "s_used_at r = None"
  shows "sessions_inv db'"
proof -
  have db': "sessions db' = sessions db @ [r]"
    using insert_session_Inr [OF ins] by simp
  have "keys_ok (sessions db')"
    using inv insert_session_Inr [OF ins] by (auto simp: sessions_inv_def keys_ok_def db')
  moreover have "kin_ok a r \<and> kin_ok r a" if "a \<in> set (sessions db)" for a
    using kin [OF that] fresh by (auto simp: kin_ok_def)
  moreover have "kin_ok r r" by (simp add: kin_ok_def)
  ultimately show ?thesis
    using inv fresh by (auto simp: sessions_inv_def families_ok_def db')
qed

lemma CreateSession_inv [wf_intros]:
  assumes "sessions_inv db" and "newFamily \<notin> s_family ` set (sessions db)"
  shows "sessions_inv (snd (CreateSession now newID newFamily uid t db))"
  unfolding CreateSession_def
proof (rule begin_func_invariant [of sessions_inv, OF assms(1)])
  fix a db' assume "insertSessionFamily now newID newFamily uid t db = Inr (a, db')"
  then show "sessions_inv db'"
    unfolding insertSessionFamily_def
    by (rule insert_session_inv [OF _ assms(1)]) (use assms(2) in \<open>auto simp: next_row_def\<close>)
qed

text \<open>
  Retiring the presented generation leaves its family with no unused generation at all, which is
  what lets the next one be inserted.
\<close>

lemma retire_row_rows:
  assumes inv: "sessions_inv db" and s: "s \<in> set (sessions db)"
    and live: "s_used_at s = None"
  shows "sessions_inv (retire_row (s_id s) now db)"
    and "a \<in> set (sessions (retire_row (s_id s) now db)) \<Longrightarrow> s_family a = s_family s \<Longrightarrow>
           s_user a = s_user s \<and> s_used_at a \<noteq> None"
proof -
  let ?g = "\<lambda>x. if s_id x = s_id s then x\<lparr>s_used_at := Some now, s_access_exp := now\<rparr> else x"
  have kin: "kin_ok a b" if "a \<in> set (sessions db)" "b \<in> set (sessions db)" for a b
    using inv that by (simp add: sessions_inv_def families_ok_def)
  have same: "x = s" if "x \<in> set (sessions db)" "s_id x = s_id s" for x
    using inv s that by (auto simp: sessions_inv_def keys_ok_def intro: distinct_map_inj)
  have "kin_ok (?g a) (?g b)" if "a \<in> set (sessions db)" "b \<in> set (sessions db)" for a b
    using kin [OF that] same [OF that(1)] same [OF that(2)] by (auto simp: kin_ok_def)
  moreover have "s_access_exp (?g a) \<le> t" if "a \<in> set (sessions db)" "s_used_at (?g a) = Some t" for a t
    using inv that by (auto simp: sessions_inv_def families_ok_def split: if_splits)
  ultimately have "families_ok (sessions (retire_row (s_id s) now db))"
    by (simp add: retire_row_def families_ok_update)
  then show "sessions_inv (retire_row (s_id s) now db)"
    using inv by (simp add: sessions_inv_def retire_row_def keys_ok_update)
  show "s_user a = s_user s \<and> s_used_at a \<noteq> None"
    if "a \<in> set (sessions (retire_row (s_id s) now db))" "s_family a = s_family s"
  proof -
    from that(1) obtain x where x: "x \<in> set (sessions db)" "a = ?g x"
      by (auto simp: retire_row_def set_sql_update)
    with that(2) kin [OF x(1) s] live same [OF x(1)] show ?thesis
      by (auto simp: kin_ok_def)
  qed
qed

lemma rotate_body_cases:
  assumes "rotate_body us now newID h next db = Inr ((so, out), db')"
  obtains (unknown) "sql_row (\<lambda>s. s_refresh_hash s = h) (sessions db) = None"
      "out = RotateOutcomeInvalid" "so = None" "db' = db"
  | (dead) s where "sql_row (\<lambda>s. s_refresh_hash s = h) (sessions db) = Some s"
      "s_revoked_at s \<noteq> None \<or> s_used_at s = None \<and> s_refresh_exp s \<le> now"
      "out = RotateOutcomeInvalid" "so = None" "db' = db"
  | (reuse) s where "sql_row (\<lambda>s. s_refresh_hash s = h) (sessions db) = Some s"
      "s_revoked_at s = None" "s_used_at s \<noteq> None" "out = RotateOutcomeReuseDetected" "so = None"
      "db' = revoke_where (\<lambda>x. s_family x = s_family s \<and> (x = s \<or> \<not> missed us x)) now db"
  | (rotated) s sess where "sql_row (\<lambda>s. s_refresh_hash s = h) (sessions db) = Some s"
      "s_revoked_at s = None" "s_used_at s = None" "now < s_refresh_exp s"
      "out = RotateOutcomeRotated" "so = Some sess"
      "insert_session (next_row now newID (s_user s) (s_family s) next (s_enroll s)
         (retire_row (s_id s) now db)) (retire_row (s_id s) now db) = Inr (sess, db')"
  using assms
  by (fastforce simp: rotate_body_def Let_def split: option.splits if_splits sum.splits prod.splits)

lemma RotateSession_inv [wf_intros]:
  assumes inv: "sessions_inv db"
  shows "sessions_inv (snd (RotateSession us now newID h next db))"
  unfolding RotateSession_def
proof (rule begin_func_invariant [of sessions_inv, OF inv])
  fix a db' assume body: "rotate_body us now newID h next db = Inr (a, db')"
  obtain so out where "a = (so, out)" by (cases a)
  with body have "rotate_body us now newID h next db = Inr ((so, out), db')" by simp
  then show "sessions_inv db'"
  proof (cases rule: rotate_body_cases)
    case (reuse s)
    then show ?thesis using inv by (auto intro: revoke_where_inv)
  next
    case (rotated s sess)
    have s: "s \<in> set (sessions db)" using rotated(1) by (auto dest: sql_row_Some_iff)
    note ret = retire_row_rows [OF inv s rotated(3), where now = now]
    show ?thesis
      by (rule insert_session_inv [OF rotated(7) ret(1)]) (use ret(2) in \<open>auto simp: next_row_def\<close>)
  qed (use inv in auto)
qed

section \<open>Runs of the store\<close>

text \<open>
  A step is one committed or rolled-back transaction at a clock reading. Besides the operations
  of this component, other components write other tables, clear enrolment flags (\<open>ActivateTotp\<close>)
  and revoke an account's families (\<open>ConsumePasswordReset\<close>, \<open>UpdatePassword\<close>, deactivation); no
  statement of the storage package deletes a session row. That
  \<open>gen_random_uuid()\<close> draws a family identifier nobody holds is a premise of the mint.
\<close>

inductive session_step :: "instant \<Rightarrow> db \<Rightarrow> db \<Rightarrow> bool" where
  create: "newFamily \<notin> s_family ` set (sessions db) \<Longrightarrow>
    session_step now db (snd (CreateSession now newID newFamily uid t db))"
| rotate: "session_step now db (snd (RotateSession us now newID h next db))"
| revoke: "session_step now db (RevokeFamily us now f db)"
| revoke_user: "session_step now db (snd (RevokeUserFamily us now uid f db))"
| revoke_others: "session_step now db (RevokeOtherFamilies us now uid f db)"
| elsewhere: "sessions db' = sql_update P (\<lambda>s. s\<lparr>s_enroll := False\<rparr>) (sessions db) \<Longrightarrow>
    session_step now db db'"
| account: "sessions db' = sessions (revoke_where (\<lambda>s. s_user s = uid \<and> s_family s \<notin> keep) now db) \<Longrightarrow>
    session_step now db db'"

inductive session_run :: "instant \<Rightarrow> db \<Rightarrow> instant \<Rightarrow> db \<Rightarrow> bool" for t db where
  here: "session_run t db t db"
| later: "session_run t db t1 db1 \<Longrightarrow> t1 \<le> now \<Longrightarrow> session_step now db1 db2 \<Longrightarrow> session_run t db now db2"

text \<open>
  Rows are never lost: after any step every old row still has a successor with the same identity,
  used if it was used, revoked if it was revoked, and with its access token no longer-lived.
\<close>

definition row_succ :: "session_row \<Rightarrow> session_row \<Rightarrow> bool" where
  "row_succ a b \<longleftrightarrow> s_id b = s_id a \<and> s_user b = s_user a \<and> s_family b = s_family a \<and>
     s_refresh_hash b = s_refresh_hash a \<and> s_access_hash b = s_access_hash a \<and>
     (s_used_at a \<noteq> None \<longrightarrow> s_used_at b \<noteq> None \<and> s_access_exp b \<le> s_access_exp a) \<and>
     (s_revoked_at a \<noteq> None \<longrightarrow> s_revoked_at b \<noteq> None)"

definition extends :: "session_row list \<Rightarrow> session_row list \<Rightarrow> bool" where
  "extends old new \<longleftrightarrow> (\<forall>a \<in> set old. \<exists>b \<in> set new. row_succ a b)"

lemma extends_refl [simp]: "extends rows rows"
  by (auto simp: extends_def row_succ_def)

lemma extends_trans: "extends a b \<Longrightarrow> extends b c \<Longrightarrow> extends a c"
proof -
  have "row_succ x z" if "row_succ x y" "row_succ y z" for x y z
    using that by (auto simp: row_succ_def)
  then show "extends a b \<Longrightarrow> extends b c \<Longrightarrow> extends a c"
    unfolding extends_def by meson
qed

lemma extends_update:
  "(\<And>a. a \<in> set rows \<Longrightarrow> P a \<Longrightarrow> row_succ a (f a)) \<Longrightarrow> extends rows (sql_update P f rows)"
  unfolding extends_def set_sql_update
  by (auto simp: row_succ_def simp del: if_image_distrib)

lemma extends_revoke: "extends (sessions db) (sessions (revoke_where P now db))"
  unfolding revoke_where_def by (simp, rule extends_update) (simp add: row_succ_def)

lemma extends_insert: "insert_session r db = Inr (sess, db') \<Longrightarrow> extends (sessions db) (sessions db')"
  using insert_session_Inr by (fastforce simp: extends_def row_succ_def)

lemma extends_retire:
  assumes "sessions_inv db" and "s \<in> set (sessions db)" and "s_used_at s = None"
  shows "extends (sessions db) (sessions (retire_row (s_id s) now db))"
proof -
  have "row_succ x (x\<lparr>s_used_at := Some now, s_access_exp := now\<rparr>)"
    if "x \<in> set (sessions db)" "s_id x = s_id s" for x
  proof -
    have "x = s"
      using assms(1,2) that by (auto simp: sessions_inv_def keys_ok_def intro: distinct_map_inj)
    with assms(3) show ?thesis by (simp add: row_succ_def)
  qed
  then show ?thesis unfolding retire_row_def by (simp add: extends_update)
qed

lemma extends_rotate:
  assumes inv: "sessions_inv db"
  shows "extends (sessions db) (sessions (snd (RotateSession us now newID h next db)))"
  unfolding RotateSession_def
proof (rule begin_func_invariant [of "\<lambda>d. extends (sessions db) (sessions d)"])
  fix a db' assume body: "rotate_body us now newID h next db = Inr (a, db')"
  obtain so out where "a = (so, out)" by (cases a)
  with body have "rotate_body us now newID h next db = Inr ((so, out), db')" by simp
  then show "extends (sessions db) (sessions db')"
  proof (cases rule: rotate_body_cases)
    case (rotated s sess)
    then have "s \<in> set (sessions db)" by (auto dest: sql_row_Some_iff)
    with rotated show ?thesis
      by (auto intro: extends_trans extends_retire [OF inv] extends_insert)
  qed (auto intro: extends_revoke)
qed simp

lemma kin_ok_flag:
  "kin_ok a b \<Longrightarrow>
   kin_ok (if P a then a\<lparr>s_enroll := False\<rparr> else a) (if P b then b\<lparr>s_enroll := False\<rparr> else b)"
  by (cases "P a"; cases "P b") (auto simp: kin_ok_def)

lemma step_keeps:
  assumes "session_step now db db'" and "sessions_inv db"
  shows "sessions_inv db' \<and> extends (sessions db) (sessions db')"
  using assms
proof (induction rule: session_step.induct)
  case (create newFamily db now newID uid t)
  have "extends (sessions db) (sessions (snd (CreateSession now newID newFamily uid t db)))"
    unfolding CreateSession_def insertSessionFamily_def
    by (rule begin_func_invariant) (auto intro: extends_insert)
  with create show ?case by (auto intro: wf_intros)
next
  case (rotate now db us newID h "next")
  then show ?case by (simp add: RotateSession_inv extends_rotate)
next
  case (elsewhere db' P db now)
  have fam: "families_ok (sessions db)" using elsewhere.prems by (simp add: sessions_inv_def)
  have "families_ok (sessions db')"
    unfolding elsewhere.hyps
  proof (rule families_ok_update)
    show "kin_ok (if P a then a\<lparr>s_enroll := False\<rparr> else a) (if P b then b\<lparr>s_enroll := False\<rparr> else b)"
      if "a \<in> set (sessions db)" "b \<in> set (sessions db)" for a b
      using fam that kin_ok_flag by (simp add: families_ok_def)
    show "s_access_exp (if P a then a\<lparr>s_enroll := False\<rparr> else a) \<le> t"
      if "a \<in> set (sessions db)" "s_used_at (if P a then a\<lparr>s_enroll := False\<rparr> else a) = Some t" for a t
      using fam that by (cases "P a") (auto simp: families_ok_def)
  qed
  then show ?case
    using elsewhere by (auto simp: sessions_inv_def keys_ok_update row_succ_def intro!: extends_update)
next
  case (account db' uid keep now db)
  have "sessions_inv (revoke_where (\<lambda>s. s_user s = uid \<and> s_family s \<notin> keep) now db)"
    using account.prems by (rule revoke_where_inv)
  then show ?case by (simp add: sessions_inv_def account.hyps extends_revoke)
qed (auto simp: RevokeFamily_def RevokeUserFamily_def RevokeOtherFamilies_def
    intro!: revoke_where_inv extends_revoke)

lemma run_keeps:
  assumes "session_run t db t' db'" and "sessions_inv db"
  shows "t \<le> t' \<and> sessions_inv db' \<and> extends (sessions db) (sessions db')"
  using assms
proof (induction rule: session_run.induct)
  case (later t1 db1 now db2)
  then show ?case using step_keeps by (meson extends_trans order_trans)
qed simp

section \<open>The interface its clients rely on\<close>

text \<open>
  The handlers, the middleware and the WebSocket gateway hold only token hashes and family
  identifiers. What they rely on is that a family the store has killed stays dead: nothing a
  later request presents brings it back.
\<close>

locale token_store =
  fixes auth :: "instant \<Rightarrow> bytes \<Rightarrow> 's \<Rightarrow> store_error + session \<times> user_row"
    and rotate :: "uuid list \<Rightarrow> instant \<Rightarrow> uuid \<Rightarrow> bytes \<Rightarrow> session_tokens \<Rightarrow> 's \<Rightarrow>
                   (store_error + session option \<times> RotateOutcome) \<times> 's"
    and step :: "instant \<Rightarrow> 's \<Rightarrow> 's \<Rightarrow> bool"
    and dead :: "uuid \<Rightarrow> 's \<Rightarrow> bool"
    and ok :: "'s \<Rightarrow> bool"
  assumes step_ok: "step now s s' \<Longrightarrow> ok s \<Longrightarrow> ok s'"
    and step_dead: "step now s s' \<Longrightarrow> ok s \<Longrightarrow> dead f s \<Longrightarrow> dead f s'"
    and dead_auth: "dead f s \<Longrightarrow> auth now h s = Inr (sess, u) \<Longrightarrow> FamilyID sess \<noteq> f"
    and dead_rotate: "dead f s \<Longrightarrow> fst (rotate us now i h t s) = Inr (Some sess, out) \<Longrightarrow> FamilyID sess \<noteq> f"
begin

definition later_states :: "'s \<Rightarrow> 's \<Rightarrow> bool" where
  "later_states = (\<lambda>a b. \<exists>now. step now a b)\<^sup>*\<^sup>*"

lemma dead_forever:
  assumes "later_states s s'" and "ok s" and "dead f s"
  shows "ok s' \<and> dead f s'"
  using assms unfolding later_states_def
  by (induction rule: rtranclp_induct) (auto intro: step_ok step_dead)

lemma dead_never_answers:
  assumes "later_states s s'" and "ok s" and "dead f s"
  shows "auth now h s' = Inr (sess, u) \<Longrightarrow> FamilyID sess \<noteq> f"
    and "fst (rotate us now i h t s') = Inr (Some sess, out) \<Longrightarrow> FamilyID sess \<noteq> f"
  using dead_forever [OF assms] dead_auth dead_rotate by blast+

end

definition dead_family :: "uuid \<Rightarrow> db \<Rightarrow> bool" where
  "dead_family f db \<longleftrightarrow> (\<exists>s \<in> set (sessions db). s_family s = f) \<and>
     (\<forall>s \<in> set (sessions db). s_family s = f \<longrightarrow> s_revoked_at s \<noteq> None)"

text \<open>Where the rows of a step come from: each is an old one, revoked if that was, or opens a family, or continues a live one.\<close>

lemma RotateSession_rows:
  assumes c: "c \<in> set (sessions (snd (RotateSession us now i h nxt db)))"
  shows "(\<exists>a \<in> set (sessions db). s_family a = s_family c \<and> (s_revoked_at a \<noteq> None \<longrightarrow> s_revoked_at c \<noteq> None)) \<or>
    (\<exists>a \<in> set (sessions db). s_family a = s_family c \<and> s_revoked_at a = None)"
proof (cases "rotate_body us now i h nxt db")
  case (Inl e)
  then show ?thesis using c by (auto simp: RotateSession_def begin_func_def)
next
  case (Inr p)
  then obtain so out db' where body: "rotate_body us now i h nxt db = Inr ((so, out), db')" by (metis prod.collapse)
  then have c': "c \<in> set (sessions db')" using c by (simp add: RotateSession_def begin_func_def)
  from body show ?thesis
  proof (cases rule: rotate_body_cases)
    case (reuse s)
    from c' [unfolded reuse(6) revoke_where_def] show ?thesis by (auto elim!: sql_updateE)
  next
    case (rotated s sess)
    have s: "s \<in> set (sessions db)" using rotated(1) by (auto dest: sql_row_Some_iff)
    have "c \<in> set (sessions (retire_row (s_id s) now db)) \<or> s_family c = s_family s"
      using c' insert_session_Inr [OF rotated(7)] by (auto simp: next_row_def)
    then show ?thesis using s rotated(2) by (auto simp: retire_row_def elim!: sql_updateE)
  qed (use c' in auto)
qed

lemma revoke_where_rows:
  "c \<in> set (sessions (revoke_where P now db)) \<Longrightarrow>
   \<exists>a \<in> set (sessions db). s_family a = s_family c \<and> (s_revoked_at a \<noteq> None \<longrightarrow> s_revoked_at c \<noteq> None)"
  by (auto simp: revoke_where_def elim!: sql_updateE)

lemma step_rows:
  assumes "session_step now db db'" and "c \<in> set (sessions db')"
  shows "(\<exists>a \<in> set (sessions db). s_family a = s_family c \<and> (s_revoked_at a \<noteq> None \<longrightarrow> s_revoked_at c \<noteq> None)) \<or>
    s_family c \<notin> s_family ` set (sessions db) \<or> (\<exists>a \<in> set (sessions db). s_family a = s_family c \<and> s_revoked_at a = None)"
  using assms
proof (induction rule: session_step.induct)
  case (create newFamily db now newID uid t)
  show ?case
  proof (cases "insertSessionFamily now newID newFamily uid t db")
    case (Inl e)
    then show ?thesis using create.prems by (auto simp: CreateSession_def begin_func_def)
  next
    case (Inr p)
    then obtain sess db1 where p: "insertSessionFamily now newID newFamily uid t db = Inr (sess, db1)" by (cases p) auto
    then have "c \<in> set (sessions db1)" using create.prems by (simp add: CreateSession_def begin_func_def)
    then show ?thesis using create.hyps insert_session_Inr [OF p [unfolded insertSessionFamily_def]] by (auto simp: next_row_def)
  qed
next
  case (rotate now db us newID h "next")
  then show ?case using RotateSession_rows by blast
next
  case (elsewhere db' P db now)
  then show ?case by (auto elim!: sql_updateE)
qed (simp_all only: RevokeFamily_def RevokeUserFamily_def RevokeOtherFamilies_def snd_conv revoke_where_rows simp_thms)

lemma dead_family_step:
  assumes "session_step now db db'" and inv: "sessions_inv db" and dead: "dead_family f db"
  shows "dead_family f db'"
proof -
  have ext: "extends (sessions db) (sessions db')" using step_keeps [OF assms(1) inv] by auto
  obtain a where "a \<in> set (sessions db)" "s_family a = f" using dead by (auto simp: dead_family_def)
  then have "\<exists>b \<in> set (sessions db'). s_family b = f" using ext unfolding extends_def row_succ_def by metis
  moreover have "s_revoked_at c \<noteq> None" if c: "c \<in> set (sessions db')" and cf: "s_family c = f" for c
  proof -
    consider (old) a where "a \<in> set (sessions db)" "s_family a = f" "s_revoked_at a \<noteq> None \<longrightarrow> s_revoked_at c \<noteq> None"
      | (opened) "f \<notin> s_family ` set (sessions db)"
      | (continued) a where "a \<in> set (sessions db)" "s_family a = f" "s_revoked_at a = None"
      using step_rows [OF assms(1) c] cf by auto
    then show ?thesis by cases (use dead in \<open>auto simp: dead_family_def\<close>)
  qed
  ultimately show ?thesis by (auto simp: dead_family_def)
qed

lemma dead_family_auth:
  "dead_family f db \<Longrightarrow> SessionUserByAccessHash now h db = Inr (sess, u) \<Longrightarrow> FamilyID sess \<noteq> f"
  by (auto simp: SessionUserByAccessHash_def dead_family_def scanSession_def
      dest!: sql_row_Some_iff split: option.splits)

lemma RotateSession_Some:
  assumes "fst (RotateSession us now i h t db) = Inr (Some sess, out)"
  obtains s db' where "sql_row (\<lambda>s. s_refresh_hash s = h) (sessions db) = Some s"
    "s_revoked_at s = None" "s_used_at s = None" "now < s_refresh_exp s"
    "out = RotateOutcomeRotated" "snd (RotateSession us now i h t db) = db'"
    "insert_session (next_row now i (s_user s) (s_family s) t (s_enroll s)
       (retire_row (s_id s) now db)) (retire_row (s_id s) now db) = Inr (sess, db')"
proof -
  obtain db' where rot: "RotateSession us now i h t db = (Inr (Some sess, out), db')"
    using assms by (metis prod.collapse)
  then have "rotate_body us now i h t db = Inr ((Some sess, out), db')"
    by (simp add: RotateSession_def)
  then show thesis
    by (cases rule: rotate_body_cases) (use rot that in auto)
qed

lemma rotated_family:
  assumes "fst (RotateSession us now i h t db) = Inr (Some sess, out)"
  shows "\<exists>s \<in> set (sessions db). s_refresh_hash s = h \<and> s_revoked_at s = None \<and>
           s_used_at s = None \<and> FamilyID sess = s_family s"
  using assms
  by (elim RotateSession_Some)
     (auto dest!: sql_row_Some_iff insert_session_Inr simp: scanSession_def next_row_def)

interpretation pg: token_store SessionUserByAccessHash RotateSession session_step dead_family sessions_inv
proof
  show "session_step now s s' \<Longrightarrow> sessions_inv s \<Longrightarrow> sessions_inv s'" for now s s'
    using step_keeps by blast
  show "session_step now s s' \<Longrightarrow> sessions_inv s \<Longrightarrow> dead_family f s \<Longrightarrow> dead_family f s'" for now s s' f
    by (rule dead_family_step)
  show "dead_family f s \<Longrightarrow> SessionUserByAccessHash now h s = Inr (sess, u) \<Longrightarrow> FamilyID sess \<noteq> f"
    for f s now h sess u by (rule dead_family_auth)
  show "dead_family f s \<Longrightarrow> fst (RotateSession us now i h t s) = Inr (Some sess, out) \<Longrightarrow> FamilyID sess \<noteq> f"
    for f s us now i h t sess out using rotated_family by (fastforce simp: dead_family_def)
qed

lemma run_later_states: "session_run t db t' db' \<Longrightarrow> pg.later_states db db'"
  unfolding pg.later_states_def
  by (induction rule: session_run.induct) (auto intro: rtranclp.rtrancl_into_rtrancl)

lemma revoke_where_kills:
  assumes "s \<in> set (sessions db)" and "s_family s = f"
    and "\<And>x. x \<in> set (sessions db) \<Longrightarrow> s_family x = f \<Longrightarrow> P x"
  shows "dead_family f (revoke_where P now db)"
proof -
  let ?g = "\<lambda>x. if P x \<and> s_revoked_at x = None then x\<lparr>s_revoked_at := Some now\<rparr> else x"
  have rows: "set (sessions (revoke_where P now db)) = ?g ` set (sessions db)"
    by (simp add: revoke_where_def set_sql_update del: if_image_distrib)
  have "?g s \<in> ?g ` set (sessions db)" "s_family (?g s) = f"
    using assms(1,2) by auto
  moreover have "s_revoked_at (?g x) \<noteq> None" if "x \<in> set (sessions db)" "s_family (?g x) = f" for x
    using assms(3) [OF that(1)] that(2) by (auto split: if_splits)
  ultimately show ?thesis unfolding dead_family_def rows by blast
qed

text \<open>A refresh token whose row is used stays used, so it never rotates again.\<close>

lemma used_never_rotates:
  assumes inv: "sessions_inv db" and s: "s \<in> set (sessions db)" "s_refresh_hash s = h" "s_used_at s \<noteq> None"
    and run: "session_run t db t' db'"
  shows "fst (RotateSession us now i h nxt db') \<noteq> Inr (Some sess, out)"
proof
  assume "fst (RotateSession us now i h nxt db') = Inr (Some sess, out)"
  then obtain x where x: "x \<in> set (sessions db')" "s_refresh_hash x = h" "s_used_at x = None"
    using rotated_family by blast
  have inv': "sessions_inv db'" and "extends (sessions db) (sessions db')"
    using run_keeps [OF run inv] by auto
  then obtain b where b: "b \<in> set (sessions db')" "s_refresh_hash b = h" "s_used_at b \<noteq> None"
    using s by (fastforce simp: extends_def row_succ_def)
  have "x = b"
    using inv' x b by (auto simp: sessions_inv_def keys_ok_def intro: distinct_map_inj)
  with x b show False by simp
qed

text \<open>After a rotation the presented row is still there, used, its access token expired.\<close>

lemma rotated_retires:
  assumes inv: "sessions_inv db" and rot: "fst (RotateSession us now i h nxt db) = Inr (Some sess, out)"
    and s: "s \<in> set (sessions db)" "s_refresh_hash s = h"
  shows "\<exists>b \<in> set (sessions (snd (RotateSession us now i h nxt db))).
           s_refresh_hash b = h \<and> s_access_hash b = s_access_hash s \<and> s_family b = s_family s \<and>
           s_used_at b = Some now \<and> s_access_exp b = now \<and> s_revoked_at b = None"
  using rot
proof (rule RotateSession_Some)
  fix x db' assume x: "sql_row (\<lambda>s. s_refresh_hash s = h) (sessions db) = Some x" "s_revoked_at x = None"
    and db': "snd (RotateSession us now i h nxt db) = db'"
    "insert_session (next_row now i (s_user x) (s_family x) nxt (s_enroll x)
       (retire_row (s_id x) now db)) (retire_row (s_id x) now db) = Inr (sess, db')"
  have "x = s"
    using inv s sql_row_Some_iff [OF x(1)] by (auto simp: sessions_inv_def keys_ok_def intro: distinct_map_inj)
  then have "s\<lparr>s_used_at := Some now, s_access_exp := now\<rparr> \<in> set (sessions (retire_row (s_id x) now db))"
    using s by (auto simp: retire_row_def sql_update_def)
  with insert_session_Inr [OF db'(2)] x(2) s \<open>x = s\<close> show ?thesis
    by (intro bexI [of _ "s\<lparr>s_used_at := Some now, s_access_exp := now\<rparr>"]) (auto simp: db'(1))
qed

section \<open>Properties\<close>

text \<open>A concrete instance: one account, the default thirty-day lifetime, one sign-in, one refresh.\<close>

definition demo_tokens :: "char \<Rightarrow> char \<Rightarrow> session_tokens" where
  "demo_tokens a r = \<lparr>AccessTokenHash = replicate 32 a, RefreshTokenHash = replicate 32 r,
     AccessTTL = 900 * 10 ^ 6, RefreshTTL = 720 * hour, UserAgent = ''ua'', IP = None\<rparr>"

definition demo0 :: db where
  "demo0 = empty_db [1] (org_of False 720)"

definition demo1 :: db where
  "demo1 = snd (CreateSession 0 10 20 1 (demo_tokens CHR ''a'' CHR ''r'') demo0)"

definition demo2 :: db where
  "demo2 = snd (RotateSession [] 5 11 (replicate 32 CHR ''r'') (demo_tokens CHR ''b'' CHR ''s'') demo1)"

lemma demo0_empty [simp]: "sessions demo0 = []"
  by (simp add: demo0_def empty_db_def)

lemma demo_runs: "session_run 0 demo0 0 demo1" "session_run 5 demo2 5 demo2" "session_run 0 demo0 5 demo2"
proof -
  have "session_step 0 demo0 demo1" unfolding demo1_def by (rule session_step.create) simp
  then show 1: "session_run 0 demo0 0 demo1"
    by (rule session_run.later [OF session_run.here order_refl])
  have "session_step 5 demo1 demo2" unfolding demo2_def by (rule session_step.rotate)
  with session_run.later [OF 1] show "session_run 0 demo0 5 demo2" by simp
  show "session_run 5 demo2 5 demo2" by (rule session_run.here)
qed

lemma demo_rotates:
  "\<exists>sess. fst (RotateSession [] 5 11 (replicate 32 CHR ''r'') (demo_tokens CHR ''b'' CHR ''s'') demo1)
     = Inr (Some sess, RotateOutcomeRotated)"
proof -
  have "case fst (RotateSession [] 5 11 (replicate 32 CHR ''r'') (demo_tokens CHR ''b'' CHR ''s'') demo1) of
      Inr (Some _, RotateOutcomeRotated) \<Rightarrow> True | _ \<Rightarrow> False"
    by code_simp
  then show ?thesis by (simp split: sum.splits prod.splits option.splits RotateOutcome.splits)
qed

text \<open>
  In every state reachable from an empty table, whatever the order of sign-ins, refreshes and
  revocations: a family belongs to one user and has at most one generation with an unused refresh token.
\<close>

theorem sessions_reachable_inv:
  assumes "sessions db = []" and "session_run t db t' db'"
    and "a \<in> set (sessions db')" and "b \<in> set (sessions db')" and "s_family a = s_family b"
  shows "s_user a = s_user b \<and> (s_used_at a = None \<and> s_used_at b = None \<longrightarrow> a = b)"
proof -
  have "sessions_inv db" using assms(1) by (simp add: sessions_inv_def keys_ok_def families_ok_def)
  then have "sessions_inv db'" using run_keeps [OF assms(2)] by simp
  then have "kin_ok a b" using assms(3,4) by (simp add: sessions_inv_def families_ok_def)
  with assms(5) show ?thesis by (simp add: kin_ok_def)
qed

theorem sessions_reachable_inv_witness:
  "\<exists>a b. sessions demo2 = [a, b] \<and> s_family a = s_family b \<and> s_user a = s_user b \<and>
     (s_used_at a = None \<and> s_used_at b = None \<longrightarrow> a = b)"
proof -
  have "length (sessions demo2) = 2 \<and> s_family (sessions demo2 ! 0) = s_family (sessions demo2 ! 1)"
    by code_simp
  then obtain a b where "sessions demo2 = [a, b]" "s_family a = s_family b"
    by (auto simp: length_Suc_conv numeral_2_eq_2)
  with sessions_reachable_inv [OF demo0_empty demo_runs(3), of a b] show ?thesis by simp
qed

lemma reachable_inv: "sessions db0 = [] \<Longrightarrow> session_run t0 db0 t db \<Longrightarrow> sessions_inv db"
  using run_keeps by (auto simp: sessions_inv_def keys_ok_def families_ok_def)

lemma rotated_row:
  assumes "sessions_inv db" and "fst (RotateSession us now i h nxt db) = Inr (Some sess, out)"
  obtains b where "b \<in> set (sessions (snd (RotateSession us now i h nxt db)))" "s_refresh_hash b = h"
    "s_used_at b = Some now" "s_access_exp b = now" "s_revoked_at b = None" "s_family b = FamilyID sess"
proof -
  obtain s where "s \<in> set (sessions db)" "s_refresh_hash s = h" "FamilyID sess = s_family s"
    using rotated_family [OF assms(2)] by auto
  then show thesis using rotated_retires [OF assms] that by auto
qed

text \<open>
  C2. A refresh token is good for one rotation, ever: once a presented token has been exchanged,
  presenting it again in any later state, at any time, with any new tokens, never yields a session.
  The answer is the reuse signal until the token's own generation is revoked, and invalid from then on, so
  in particular once the whole family is.
\<close>

theorem refresh_token_single_use:
  assumes "sessions db0 = []" and "session_run t0 db0 t db"
    and "fst (RotateSession us now i h nxt db) = Inr (Some sess, RotateOutcomeRotated)"
    and "session_run now (snd (RotateSession us now i h nxt db)) t' db'"
  shows "fst (RotateSession us' now' i' h nxt' db') =
           Inr (None, if \<exists>s \<in> set (sessions db'). s_refresh_hash s = h \<and> s_revoked_at s \<noteq> None
                      then RotateOutcomeInvalid else RotateOutcomeReuseDetected) \<and>
         (dead_family (FamilyID sess) db' \<longrightarrow>
           fst (RotateSession us' now' i' h nxt' db') = Inr (None, RotateOutcomeInvalid))"
proof -
  have inv: "sessions_inv db" using assms(1,2) by (rule reachable_inv)
  let ?db1 = "snd (RotateSession us now i h nxt db)"
  obtain b where b: "b \<in> set (sessions ?db1)" "s_refresh_hash b = h" "s_used_at b = Some now"
      "s_family b = FamilyID sess"
    using rotated_row [OF inv assms(3)] by metis
  have "sessions_inv ?db1" using inv by (rule RotateSession_inv)
  then have inv': "sessions_inv db'" and ext: "extends (sessions ?db1) (sessions db')"
    using run_keeps [OF assms(4)] by auto
  obtain c where c: "c \<in> set (sessions db')" "s_refresh_hash c = h" "s_used_at c \<noteq> None"
      "s_family c = FamilyID sess"
    using ext b unfolding extends_def row_succ_def by (metis option.distinct(1))
  have row: "sql_row (\<lambda>s. s_refresh_hash s = h) (sessions db') = Some c"
    using sql_row_unique [of s_refresh_hash "sessions db'" c] inv' c
    by (simp add: sessions_inv_def keys_ok_def)
  have "x = c" if "x \<in> set (sessions db')" "s_refresh_hash x = h" for x
    using inv' c that by (auto simp: sessions_inv_def keys_ok_def intro: distinct_map_inj)
  then have own: "(\<exists>s \<in> set (sessions db'). s_refresh_hash s = h \<and> s_revoked_at s \<noteq> None) \<longleftrightarrow> s_revoked_at c \<noteq> None"
    using c by blast
  have ans: "fst (RotateSession us' now' i' h nxt' db') =
      Inr (None, if s_revoked_at c \<noteq> None then RotateOutcomeInvalid else RotateOutcomeReuseDetected)"
    using row c(3) by (auto simp: RotateSession_def rotate_body_def begin_func_def)
  show ?thesis unfolding own using ans c by (auto simp: dead_family_def)
qed

theorem refresh_token_single_use_witness:
  "fst (RotateSession [] 6 12 (replicate 32 CHR ''r'') (demo_tokens CHR ''c'' CHR ''t'') demo2)
     = Inr (None, RotateOutcomeReuseDetected)"
proof -
  obtain sess where rot: "fst (RotateSession [] 5 11 (replicate 32 CHR ''r'') (demo_tokens CHR ''b'' CHR ''s'') demo1)
     = Inr (Some sess, RotateOutcomeRotated)"
    using demo_rotates by blast
  have "\<forall>s \<in> set (sessions demo2). s_revoked_at s = None" by code_simp
  with refresh_token_single_use [OF demo0_empty demo_runs(1) rot, folded demo2_def, OF demo_runs(2),
      of "[]" 6 12 "demo_tokens CHR ''c'' CHR ''t''"]
  show ?thesis by (simp split: if_splits)
qed

text \<open>A revoked generation answers nobody: neither its access token nor its refresh token, in any later state.\<close>

lemma revoked_row_answers_nobody:
  assumes inv: "sessions_inv db" and x: "x \<in> set (sessions db)" "s_revoked_at x \<noteq> None" and run: "session_run t db t' db'"
  shows "SessionUserByAccessHash n (s_access_hash x) db' = Inl ErrNotFound"
    and "fst (RotateSession us n i (s_refresh_hash x) nxt db') = Inr (None, RotateOutcomeInvalid)"
proof -
  have inv': "sessions_inv db'" and "extends (sessions db) (sessions db')" using run_keeps [OF run inv] by auto
  then obtain b where b: "b \<in> set (sessions db')" "s_access_hash b = s_access_hash x" "s_refresh_hash b = s_refresh_hash x"
      "s_revoked_at b \<noteq> None"
    using x unfolding extends_def row_succ_def by metis
  have "y = b" if "y \<in> set (sessions db')" "s_access_hash y = s_access_hash x" for y
    using inv' b that by (auto simp: sessions_inv_def keys_ok_def intro: distinct_map_inj)
  then have "sql_row (\<lambda>y. s_access_hash y = s_access_hash x \<and> s_revoked_at y = None \<and> n < s_access_exp y) (sessions db') = None"
    using b(4) by (auto simp: sql_row_None_iff)
  then show "SessionUserByAccessHash n (s_access_hash x) db' = Inl ErrNotFound" by (simp add: SessionUserByAccessHash_def)
  have "sql_row (\<lambda>s. s_refresh_hash s = s_refresh_hash x) (sessions db') = Some b"
    using sql_row_unique [of s_refresh_hash "sessions db'" b] inv' b by (simp add: sessions_inv_def keys_ok_def)
  then show "fst (RotateSession us n i (s_refresh_hash x) nxt db') = Inr (None, RotateOutcomeInvalid)"
    using b(4) by (simp add: RotateSession_def rotate_body_def begin_func_def)
qed

text \<open>
  C28. Reuse kills what its sweep sees, for good. When a used refresh token that is not revoked is presented, the
  rotation reports the reuse; the presented generation and every generation of its family that the sweep saw are dead
  in every later state, their access tokens authenticate nobody and their refresh tokens are invalid; and when no
  rotation of the family was being committed beside the sweep, so that it saw every generation, no later state has a
  session of that family, by any access or refresh token.
\<close>

theorem reuse_kills_family:
  assumes "sessions db0 = []" and "session_run t0 db0 t db"
    and "s \<in> set (sessions db)" and "s_used_at s \<noteq> None" and "s_revoked_at s = None"
    and "session_run now (snd (RotateSession unseen now i (s_refresh_hash s) nxt db)) t' db'"
  shows "fst (RotateSession unseen now i (s_refresh_hash s) nxt db) = Inr (None, RotateOutcomeReuseDetected) \<and>
         (\<forall>x \<in> set (sessions db). s_family x = s_family s \<and> (x = s \<or> s_id x \<notin> set unseen) \<longrightarrow>
            (\<forall>n. SessionUserByAccessHash n (s_access_hash x) db' = Inl ErrNotFound) \<and>
            (\<forall>vs n j y. fst (RotateSession vs n j (s_refresh_hash x) y db') = Inr (None, RotateOutcomeInvalid))) \<and>
         ((\<forall>x \<in> set (sessions db). s_family x = s_family s \<longrightarrow> x = s \<or> s_id x \<notin> set unseen) \<longrightarrow>
            (\<forall>n h sess u. SessionUserByAccessHash n h db' = Inr (sess, u) \<longrightarrow> FamilyID sess \<noteq> s_family s) \<and>
            (\<forall>vs n j h x sess out. fst (RotateSession vs n j h x db') = Inr (Some sess, out) \<longrightarrow> FamilyID sess \<noteq> s_family s))"
proof -
  have inv: "sessions_inv db" using assms(1,2) by (rule reachable_inv)
  let ?P = "\<lambda>x. s_family x = s_family s \<and> (x = s \<or> \<not> missed unseen x)" and ?rot = "RotateSession unseen now i (s_refresh_hash s) nxt db"
  have row: "sql_row (\<lambda>x. s_refresh_hash x = s_refresh_hash s) (sessions db) = Some s"
    using sql_row_unique [of s_refresh_hash "sessions db" s] inv assms(3)
    by (simp add: sessions_inv_def keys_ok_def)
  then have rot: "?rot = (Inr (None, RotateOutcomeReuseDetected), revoke_where ?P now db)"
    using assms(4,5) by (simp add: RotateSession_def rotate_body_def)
  have inv1: "sessions_inv (revoke_where ?P now db)" using inv by (rule revoke_where_inv)
  have run: "session_run now (revoke_where ?P now db) t' db'" using assms(6) by (simp add: rot)
  have seen: "(\<forall>n. SessionUserByAccessHash n (s_access_hash x) db' = Inl ErrNotFound) \<and>
      (\<forall>vs n j y. fst (RotateSession vs n j (s_refresh_hash x) y db') = Inr (None, RotateOutcomeInvalid))"
    if "x \<in> set (sessions db)" "s_family x = s_family s \<and> (x = s \<or> s_id x \<notin> set unseen)" for x
  proof -
    let ?x = "if s_revoked_at x = None then x\<lparr>s_revoked_at := Some now\<rparr> else x"
    have "?x \<in> set (sessions (revoke_where ?P now db))" "s_revoked_at ?x \<noteq> None"
      using that by (auto simp: revoke_where_def in_sql_update missed_def intro!: bexI [of _ x])
    note gone = revoked_row_answers_nobody [OF inv1 this run]
    have "s_access_hash ?x = s_access_hash x" "s_refresh_hash ?x = s_refresh_hash x" by simp_all
    then show ?thesis using gone by metis
  qed
  have whole: "dead_family (s_family s) (revoke_where ?P now db)"
    if "\<forall>x \<in> set (sessions db). s_family x = s_family s \<longrightarrow> x = s \<or> s_id x \<notin> set unseen"
    by (rule revoke_where_kills [OF assms(3)]) (use that in \<open>auto simp: missed_def\<close>)
  note never = pg.dead_never_answers [OF run_later_states [OF run] inv1 whole]
  show ?thesis using seen never by (intro conjI ballI impI allI) (simp_all add: rot)
qed

theorem reuse_kills_family_witness:
  "\<exists>s. s \<in> set (sessions demo2) \<and>
     fst (RotateSession [] 7 12 (s_refresh_hash s) (demo_tokens CHR ''c'' CHR ''t'') demo2)
       = Inr (None, RotateOutcomeReuseDetected) \<and>
     (\<forall>n h sess u. SessionUserByAccessHash n h
        (snd (RotateSession [] 7 12 (s_refresh_hash s) (demo_tokens CHR ''c'' CHR ''t'') demo2)) = Inr (sess, u)
        \<longrightarrow> FamilyID sess \<noteq> s_family s)"
proof -
  have "\<exists>s \<in> set (sessions demo2). s_used_at s \<noteq> None \<and> s_revoked_at s = None" by code_simp
  then obtain s where s: "s \<in> set (sessions demo2)" "s_used_at s \<noteq> None" "s_revoked_at s = None" by blast
  note killed = reuse_kills_family [OF demo0_empty demo_runs(3) s session_run.here, where unseen = "[]" and now = 7 and i = 12
      and nxt = "demo_tokens CHR ''c'' CHR ''t''"]
  show ?thesis using s(1) killed by (intro exI [of _ s]) simp
qed

text \<open>
  A sweep misses a session. A stolen token is presented while its owner's refresh is being committed: the reuse is
  reported and the sweep done, and the session the refresh minted is alive afterwards, by its access and by its refresh token.
\<close>

theorem racing_refresh_survives:
  "(case RotateSession [11] 6 12 (replicate 32 CHR ''r'') (demo_tokens CHR ''c'' CHR ''t'') demo2 of
      (Inr (None, RotateOutcomeReuseDetected), db1) \<Rightarrow>
        (case SessionUserByAccessHash 7 (replicate 32 CHR ''b'') db1 of Inr (sess, u) \<Rightarrow> FamilyID sess = 20 | Inl _ \<Rightarrow> False) \<and>
        (case fst (RotateSession [] 7 13 (replicate 32 CHR ''s'') (demo_tokens CHR ''d'' CHR ''u'') db1) of
           Inr (Some sess, RotateOutcomeRotated) \<Rightarrow> FamilyID sess = 20 | _ \<Rightarrow> False)
    | _ \<Rightarrow> False)"
  by code_simp

text \<open>
  A rotation retires the access token of the generation it replaces at once: from the moment
  of the exchange on, in every later state, that access token authenticates nobody, although it
  would have lived on for the rest of its fifteen minutes.
\<close>

theorem rotated_access_token_retired:
  assumes "sessions db0 = []" and "session_run t0 db0 t db"
    and "s \<in> set (sessions db)"
    and "fst (RotateSession us now i (s_refresh_hash s) nxt db) = Inr (Some sess, out)"
    and "session_run now (snd (RotateSession us now i (s_refresh_hash s) nxt db)) t' db'" and "now \<le> n"
  shows "SessionUserByAccessHash n (s_access_hash s) db' = Inl ErrNotFound"
proof -
  have inv: "sessions_inv db" using assms(1,2) by (rule reachable_inv)
  obtain b where b: "b \<in> set (sessions (snd (RotateSession us now i (s_refresh_hash s) nxt db)))"
      "s_access_hash b = s_access_hash s" "s_used_at b = Some now" "s_access_exp b = now"
    using rotated_retires [OF inv assms(4,3) refl] by blast
  have inv': "sessions_inv db'"
    and ext: "extends (sessions (snd (RotateSession us now i (s_refresh_hash s) nxt db))) (sessions db')"
    using run_keeps [OF assms(5) RotateSession_inv [OF inv]] by auto
  obtain c where c: "c \<in> set (sessions db')" "s_access_hash c = s_access_hash s" "s_access_exp c \<le> now"
    using ext b unfolding extends_def row_succ_def by (metis option.distinct(1))
  have "x = c" if "x \<in> set (sessions db')" "s_access_hash x = s_access_hash s" for x
    using inv' c that by (auto simp: sessions_inv_def keys_ok_def intro: distinct_map_inj)
  with c(3) assms(6) have "sql_row (\<lambda>x. s_access_hash x = s_access_hash s \<and> s_revoked_at x = None \<and>
      n < s_access_exp x) (sessions db') = None"
    by (fastforce simp: sql_row_None_iff)
  then show ?thesis by (simp add: SessionUserByAccessHash_def)
qed

theorem rotated_access_token_retired_witness:
  "(\<exists>x. SessionUserByAccessHash 4 (replicate 32 CHR ''a'') demo1 = Inr x) \<and>
   SessionUserByAccessHash 5 (replicate 32 CHR ''a'') demo2 = Inl ErrNotFound"
proof -
  have live: "SessionUserByAccessHash 4 (replicate 32 CHR ''a'') demo1 \<noteq> Inl ErrNotFound \<and>
      length (sessions demo1) = 1 \<and> s_refresh_hash (sessions demo1 ! 0) = replicate 32 CHR ''r'' \<and>
      s_access_hash (sessions demo1 ! 0) = replicate 32 CHR ''a''"
    by code_simp
  then obtain s where s: "s \<in> set (sessions demo1)" "s_refresh_hash s = replicate 32 CHR ''r''"
      "s_access_hash s = replicate 32 CHR ''a''"
    by (metis nth_mem zero_less_one)
  obtain sess where rot: "fst (RotateSession [] 5 11 (s_refresh_hash s) (demo_tokens CHR ''b'' CHR ''s'') demo1)
     = Inr (Some sess, RotateOutcomeRotated)"
    using demo_rotates s(2) by auto
  have "session_run 5 (snd (RotateSession [] 5 11 (s_refresh_hash s) (demo_tokens CHR ''b'' CHR ''s'') demo1)) 5 demo2"
    unfolding s(2) demo2_def by (rule session_run.here)
  from rotated_access_token_retired [OF demo0_empty demo_runs(1) s(1) rot this order_refl] s(3) live
  show ?thesis
    by (auto simp: SessionUserByAccessHash_def split: option.splits)
qed

text \<open>
  What a rotation mints: a session of the same user and family, created now, whose refresh
  window is the organisation's lifetime cut to the caller's ceiling, and whose enrolment flag is
  set only if the presented generation carried it and the account still has no activated second
  factor. A rotation can clear the flag; it can never raise it in the middle of a session.
\<close>

theorem rotation_mints:
  assumes "fst (RotateSession us now i h nxt db) = Inr (Some sess, out)"
  shows "\<exists>s \<in> set (sessions db). s_refresh_hash s = h \<and> s_revoked_at s = None \<and> s_used_at s = None \<and>
           now < s_refresh_exp s \<and> UserID sess = s_user s \<and> FamilyID sess = s_family s \<and>
           CreatedAt sess = now \<and> AccessExpiresAt sess = now + AccessTTL nxt \<and>
           RefreshExpiresAt sess =
             now + min (session_lifetime_hours (org_settings db) * hour) (RefreshTTL nxt) \<and>
           (TotpEnrollmentRequired sess \<longleftrightarrow> s_enroll s \<and> \<not> totp_activated (s_user s) db)"
  using assms
proof (rule RotateSession_Some)
  fix s db' assume s: "sql_row (\<lambda>s. s_refresh_hash s = h) (sessions db) = Some s"
    "s_revoked_at s = None" "s_used_at s = None" "now < s_refresh_exp s"
    and ins: "insert_session (next_row now i (s_user s) (s_family s) nxt (s_enroll s)
       (retire_row (s_id s) now db)) (retire_row (s_id s) now db) = Inr (sess, db')"
  from insert_session_Inr [OF ins] sql_row_Some_iff [OF s(1)] s(2-) show ?thesis
    by (intro bexI [of _ s])
       (auto simp: scanSession_def next_row_def retire_row_def totp_activated_def)
qed

theorem rotation_mints_witness:
  "\<exists>sess. fst (RotateSession [] 5 11 (replicate 32 CHR ''r'') (demo_tokens CHR ''b'' CHR ''s'') demo1)
      = Inr (Some sess, RotateOutcomeRotated) \<and> CreatedAt sess = 5 \<and> RefreshExpiresAt sess = 5 + 720 * hour"
proof -
  obtain sess where rot: "fst (RotateSession [] 5 11 (replicate 32 CHR ''r'') (demo_tokens CHR ''b'' CHR ''s'') demo1)
     = Inr (Some sess, RotateOutcomeRotated)"
    using demo_rotates by blast
  have "session_lifetime_hours (org_settings demo1) = 720" by code_simp
  then show ?thesis using rotation_mints [OF rot] rot by (auto simp: demo_tokens_def)
qed

text \<open>
  Revoking a family is scoped to its owner: the call succeeds exactly when the caller owns a
  generation of that family that it sees, it changes no row of anybody else or of any other family, the rows it
  sees all end up revoked, a row that was already revoked keeps its revocation time, and doing
  it again changes nothing.
\<close>

theorem RevokeUserFamily_scoped:
  "(fst (RevokeUserFamily us now uid f db) = Inr () \<longleftrightarrow>
      (\<exists>s \<in> set (sessions db). s_user s = uid \<and> s_family s = f \<and> \<not> missed us s)) \<and>
   sessions (snd (RevokeUserFamily us now uid f db)) =
     map (\<lambda>s. if s_user s = uid \<and> s_family s = f \<and> \<not> missed us s
              then s\<lparr>s_revoked_at := Some (case s_revoked_at s of None \<Rightarrow> now | Some t \<Rightarrow> t)\<rparr>
              else s) (sessions db) \<and>
   snd (RevokeUserFamily us later uid f (snd (RevokeUserFamily us now uid f db))) =
     snd (RevokeUserFamily us now uid f db)"
proof (intro conjI)
  show "fst (RevokeUserFamily us now uid f db) = Inr () \<longleftrightarrow>
      (\<exists>s \<in> set (sessions db). s_user s = uid \<and> s_family s = f \<and> \<not> missed us s)"
    by (simp add: RevokeUserFamily_def)
  show "sessions (snd (RevokeUserFamily us now uid f db)) =
     map (\<lambda>s. if s_user s = uid \<and> s_family s = f \<and> \<not> missed us s
              then s\<lparr>s_revoked_at := Some (case s_revoked_at s of None \<Rightarrow> now | Some t \<Rightarrow> t)\<rparr>
              else s) (sessions db)"
    by (auto simp: RevokeUserFamily_def revoke_where_def sql_update_def split: option.splits)
  show "snd (RevokeUserFamily us later uid f (snd (RevokeUserFamily us now uid f db))) =
     snd (RevokeUserFamily us now uid f db)"
    by (auto simp: RevokeUserFamily_def revoke_where_def sql_update_def missed_def intro!: db.equality)
qed

subsection \<open>The session list\<close>

lemma newer_trans: "newer a b \<Longrightarrow> newer b c \<Longrightarrow> newer a c"
  by (auto simp: newer_def)

lemma newer_total: "newer a b \<or> newer b a"
  by (auto simp: newer_def)

lemma newest_of_Some: "newest_of rows = Some m \<Longrightarrow> m \<in> set rows \<and> (\<forall>x \<in> set rows. newer m x)"
proof (induction rows arbitrary: m)
  case (Cons r rows)
  show ?case
  proof (cases "newest_of rows")
    case None
    then have "rows = []" by (cases rows) (auto split: option.splits)
    with Cons.prems show ?thesis by (auto simp: newer_def)
  next
    case (Some k)
    with Cons.IH have k: "k \<in> set rows" "\<forall>x \<in> set rows. newer k x" by auto
    show ?thesis
    proof (cases "newer r k")
      case True
      with Cons.prems Some k show ?thesis by (auto intro: newer_trans simp: newer_def)
    next
      case False
      with Cons.prems Some k newer_total [of r k] show ?thesis by auto
    qed
  qed
qed simp

lemma newest_of_None: "newest_of rows = None \<longleftrightarrow> rows = []"
  by (cases rows) (auto split: option.splits)

lemma newest_generations_iff:
  assumes "distinct (map s_id rows)"
  shows "m \<in> set (newest_generations uid rows) \<longleftrightarrow> m \<in> set rows \<and> s_user m = uid \<and>
           (\<forall>x \<in> set rows. s_user x = uid \<and> s_family x = s_family m \<longrightarrow> newer m x)"
proof -
  define fam where "fam f = filter (\<lambda>s. s_family s = f) (filter (\<lambda>s. s_user s = uid) rows)" for f
  have mem: "m \<in> set (newest_generations uid rows) \<longleftrightarrow>
      (\<exists>f \<in> s_family ` {s \<in> set rows. s_user s = uid}. newest_of (fam f) = Some m)"
    by (auto simp: newest_generations_def Let_def set_map_filter fam_def)
  have up: "newest_of (fam (s_family m)) = Some m"
    if m: "m \<in> set rows" "s_user m = uid" "\<forall>x \<in> set rows. s_user x = uid \<and> s_family x = s_family m \<longrightarrow> newer m x"
  proof -
    have "m \<in> set (fam (s_family m))" using m by (simp add: fam_def)
    then obtain k where k: "newest_of (fam (s_family m)) = Some k"
      by (cases "newest_of (fam (s_family m))") (auto simp: newest_of_None)
    with newest_of_Some [OF k] m \<open>m \<in> set (fam (s_family m))\<close> have "newer k m" "newer m k" "k \<in> set rows"
      by (auto simp: fam_def)
    then have "s_id k = s_id m" by (auto simp: newer_def)
    with assms m(1) \<open>k \<in> set rows\<close> have "k = m" by (auto intro: distinct_map_inj)
    with k show ?thesis by simp
  qed
  have down: "m \<in> set rows \<and> s_user m = uid \<and> s_family m = f \<and>
      (\<forall>x \<in> set rows. s_user x = uid \<and> s_family x = f \<longrightarrow> newer m x)" if "newest_of (fam f) = Some m" for f
    using newest_of_Some [OF that] by (auto simp: fam_def)
  show ?thesis
  proof
    assume "m \<in> set (newest_generations uid rows)"
    then obtain f where "newest_of (fam f) = Some m" using mem by blast
    from down [OF this] show "m \<in> set rows \<and> s_user m = uid \<and>
        (\<forall>x \<in> set rows. s_user x = uid \<and> s_family x = s_family m \<longrightarrow> newer m x)" by simp
  next
    assume m: "m \<in> set rows \<and> s_user m = uid \<and>
        (\<forall>x \<in> set rows. s_user x = uid \<and> s_family x = s_family m \<longrightarrow> newer m x)"
    with up mem show "m \<in> set (newest_generations uid rows)" by blast
  qed
qed

lemma distinct_map_filter_inj:
  "distinct fs \<Longrightarrow> (\<And>f x. g f = Some x \<Longrightarrow> k x = f) \<Longrightarrow> distinct (map k (List.map_filter g fs))"
  by (induction fs) (auto simp: List.map_filter_simps set_map_filter split: option.splits)

lemma newest_generations_distinct: "distinct (map s_family (newest_generations uid rows))"
  unfolding newest_generations_def Let_def
  by (rule distinct_map_filter_inj) (auto dest!: newest_of_Some)

lemma sql_order_distinct: "distinct (map f (sql_order k xs)) \<longleftrightarrow> distinct (map f xs)"
  by (simp add: sql_order_def distinct_map)

text \<open>
  The device list is exactly right: it has one entry per family of the caller whose newest
  generation is neither revoked nor past its refresh window (no older generation is consulted),
  the current family comes first, and the others follow from the most to the least recently
  active.
\<close>

theorem ListSessionFamilies_correct:
  assumes "distinct (map s_id (sessions db))"
  shows "distinct (map sf_family (ListSessionFamilies now uid cur db)) \<and>
    (\<forall>f. f \<in> sf_family ` set (ListSessionFamilies now uid cur db) \<longleftrightarrow>
       (\<exists>m \<in> set (sessions db). s_user m = uid \<and> s_family m = f \<and>
          s_revoked_at m = None \<and> now < s_refresh_exp m \<and>
          (\<forall>x \<in> set (sessions db). s_user x = uid \<and> s_family x = f \<longrightarrow> newer m x))) \<and>
    sorted_wrt (\<lambda>a b. sf_current a \<and> \<not> sf_current b \<or>
        sf_current a = sf_current b \<and> sf_last_active b \<le> sf_last_active a)
      (ListSessionFamilies now uid cur db)"
proof -
  define live where "live = filter (\<lambda>s. s_revoked_at s = None \<and> now < s_refresh_exp s)
      (newest_generations uid (sessions db))"
  define ord where "ord = sql_order (\<lambda>s. s_family s \<noteq> cur) (sql_order (\<lambda>s. - s_created s) live)"
  have L: "ListSessionFamilies now uid cur db = map (scan_family cur) ord"
    by (simp add: ListSessionFamilies_def live_def ord_def)
  have fam: "sf_family \<circ> scan_family cur = s_family" by (auto simp: scan_family_def)
  have "distinct (map s_family ord)"
    by (simp add: ord_def sql_order_distinct live_def distinct_map_filter newest_generations_distinct)
  then have "distinct (map sf_family (ListSessionFamilies now uid cur db))" by (simp add: L fam)
  moreover have "f \<in> sf_family ` set (ListSessionFamilies now uid cur db) \<longleftrightarrow>
       (\<exists>m \<in> set (sessions db). s_user m = uid \<and> s_family m = f \<and>
          s_revoked_at m = None \<and> now < s_refresh_exp m \<and>
          (\<forall>x \<in> set (sessions db). s_user x = uid \<and> s_family x = f \<longrightarrow> newer m x))" for f
    using newest_generations_iff [OF assms, of _ uid]
    by (auto simp: L image_image scan_family_def ord_def live_def)
  moreover have "sorted_wrt (\<lambda>a b. - s_created a \<le> - s_created b) (sql_order (\<lambda>s. - s_created s) live)"
    using sorted_sort_key [of "\<lambda>s. - s_created s" live] by (simp add: sql_order_def sorted_wrt_map)
  then have "sorted_wrt (\<lambda>a b. sf_current a \<and> \<not> sf_current b \<or>
        sf_current a = sf_current b \<and> sf_last_active b \<le> sf_last_active a)
      (ListSessionFamilies now uid cur db)"
    unfolding L sorted_wrt_map ord_def
    by (rule sorted_wrt_mono_rel [rotated, OF sql_order_lex])
       (auto simp: scan_family_def)
  ultimately show ?thesis by blast
qed

theorem ListSessionFamilies_correct_witness:
  "distinct (map s_id (sessions demo2)) \<and>
   distinct (map sf_family (ListSessionFamilies 6 1 20 demo2)) \<and>
   20 \<in> sf_family ` set (ListSessionFamilies 6 1 20 demo2)"
proof -
  have "distinct (map s_id (sessions demo2)) \<and> 20 \<in> sf_family ` set (ListSessionFamilies 6 1 20 demo2)"
    by code_simp
  with ListSessionFamilies_correct [of demo2 6 1 20] show ?thesis by blast
qed

end
