(* ===== verification/Totp_Core.thy ===== *)
theory Totp_Core
  imports Go_Text
begin

text \<open>
  Two-step verification primitives, \<^verbatim>\<open>server/internal/totp/totp.go\<close> and \<^verbatim>\<open>recovery.go\<close>: the time
  step, the shape of a code, \<open>Verify\<close> with its skew window and replay rule, and the recovery codes.

  The HOTP arithmetic is the third-party function \<open>hotp.ValidateCustom\<close>; it is the parameter
  \<open>hotp code counter secret\<close>, whose result is \<^const>\<open>None\<close> for an error and otherwise whether the
  code matches. Random bytes are arguments. Time is in nanoseconds.
\<close>

section \<open>Codes and steps\<close>

definition SecretBytes :: nat where "SecretBytes = 20"
definition Digits :: nat where "Digits = 6"
definition SkewSteps :: int where "SkewSteps = 1"
definition MaxSetupAttempts :: int where "MaxSetupAttempts = 5"
definition MaxChallengeAttempts :: int where "MaxChallengeAttempts = 5"

text \<open>\<open>t.Unix()\<close> rounds towards the past; the quotient by the period truncates towards zero.\<close>

definition Unix :: "instant \<Rightarrow> int" where "Unix t = t div 10 ^ 9"

definition Step :: "instant \<Rightarrow> int" where
  "Step t = go_div (Unix t) 30"

definition IsAuthenticatorCode :: "string \<Rightarrow> bool" where
  "IsAuthenticatorCode code =
     (if length code \<noteq> Digits then False
      else \<not> list_ex (\<lambda>c. byte_of c < byte_of CHR ''0'' \<or> byte_of CHR ''9'' < byte_of c) code)"

definition EncodeSecret :: "bytes \<Rightarrow> string" where
  "EncodeSecret secret = base32_encode secret"

type_synonym hotp_fun = "string \<Rightarrow> int \<Rightarrow> string \<Rightarrow> bool option"

text \<open>The loop of \<open>Verify\<close> over its candidate steps.\<close>

fun verify_loop :: "(int \<Rightarrow> bool option) \<Rightarrow> int option \<Rightarrow> int list \<Rightarrow> int option" where
  "verify_loop valid lastUsed [] = None"
| "verify_loop valid lastUsed (candidate # cs) =
     (if candidate < 0 then verify_loop valid lastUsed cs
      else if (case lastUsed of None \<Rightarrow> False | Some l \<Rightarrow> candidate \<le> l) then verify_loop valid lastUsed cs
      else case valid candidate of
             None \<Rightarrow> None
           | Some matched \<Rightarrow> if matched then Some candidate else verify_loop valid lastUsed cs)"

definition Verify ::
  "hotp_fun \<Rightarrow> bytes \<Rightarrow> string \<Rightarrow> instant \<Rightarrow> int option \<Rightarrow> int option" where
  "Verify hotp secret code now lastUsedStep =
     (if \<not> IsAuthenticatorCode code then None
      else let encoded = EncodeSecret secret; current = Step now
           in verify_loop (\<lambda>c. hotp code c encoded) lastUsedStep
                [current - SkewSteps .. current + SkewSteps])"

section \<open>Recovery codes\<close>

definition recoveryGroupLen :: nat where "recoveryGroupLen = 4"
definition recoverySymbols :: nat where "recoverySymbols = 2 * recoveryGroupLen"

definition recoveryAlphabet :: string where
  "recoveryAlphabet = ''0123456789ABCDEFGHJKMNPQRSTVWXYZ''"

fun recovery_loop :: "nat \<Rightarrow> nat list \<Rightarrow> string" where
  "recovery_loop i [] = []"
| "recovery_loop i (b # raw) =
     (if i = recoveryGroupLen then ''-'' else []) @
     [recoveryAlphabet ! (b mod length recoveryAlphabet)] @ recovery_loop (Suc i) raw"

text \<open>\<open>raw\<close> is what \<open>rand.Read\<close> filled in: \<open>recoverySymbols\<close> bytes.\<close>

definition newRecoveryCode :: "nat list \<Rightarrow> string" where
  "newRecoveryCode raw = recovery_loop 0 raw"

definition NewRecoveryCodes :: "nat list list \<Rightarrow> string list" where
  "NewRecoveryCodes raws = map newRecoveryCode raws"

definition disambiguate :: "rune \<Rightarrow> rune" where
  "disambiguate symbol =
     (if symbol = byte_of CHR ''I'' \<or> symbol = byte_of CHR ''L'' then byte_of CHR ''1''
      else if symbol = byte_of CHR ''O'' then byte_of CHR ''0'' else symbol)"

fun normalize_loop :: "rune list \<Rightarrow> rune list \<Rightarrow> rune list option" where
  "normalize_loop symbols [] = Some symbols"
| "normalize_loop symbols (r # rs) =
     (if r = byte_of CHR ''-'' \<or> r = byte_of CHR '' '' then normalize_loop symbols rs
      else let symbol = disambiguate (ToUpper r)
           in if symbol \<notin> set (map byte_of recoveryAlphabet) then None
              else if length symbols = recoverySymbols then None
              else normalize_loop (symbols @ [symbol]) rs)"

text \<open>Every accumulated symbol is an ASCII rune, so \<open>string(symbols)\<close> has one byte for each.\<close>

definition NormalizeRecoveryCode :: "string \<Rightarrow> string option" where
  "NormalizeRecoveryCode raw =
     (case normalize_loop [] (go_runes raw) of
        None \<Rightarrow> None
      | Some symbols \<Rightarrow>
          if length symbols \<noteq> recoverySymbols then None
          else Some (map char_of (take recoveryGroupLen symbols) @ ''-'' @
                     map char_of (drop recoveryGroupLen symbols)))"

section \<open>The code checker\<close>

text \<open>
  The store hands its transactions a callback \<open>CheckCode(secret, lastUsedStep)\<close> and persists the
  step it returns. What the store relies on is one law: an accepted step is past the last one.
  That a code is then never accepted twice follows for any sequence of attempts.
\<close>

fun accept_run :: "(int option \<Rightarrow> int option) list \<Rightarrow> int option \<Rightarrow> int list" where
  "accept_run [] lastUsed = []"
| "accept_run (chk # cs) lastUsed =
     (case chk lastUsed of
        None \<Rightarrow> accept_run cs lastUsed
      | Some st \<Rightarrow> st # accept_run cs (Some st))"

locale code_checker =
  fixes check :: "'c \<Rightarrow> int option \<Rightarrow> int option"
  assumes advances: "check c (Some l) = Some st \<Longrightarrow> l < st"
begin

lemma accepted_increase:
  "sorted_wrt (<) (accept_run (map check cs) lastUsed) \<and>
   (\<forall>l. lastUsed = Some l \<longrightarrow> (\<forall>st \<in> set (accept_run (map check cs) lastUsed). l < st))"
proof (induction cs arbitrary: lastUsed)
  case (Cons c cs)
  show ?case
  proof (cases "check c lastUsed")
    case None
    with Cons.IH [of lastUsed] show ?thesis by (cases lastUsed) simp_all
  next
    case (Some st)
    then have "l < st" if "lastUsed = Some l" for l using that advances by blast
    with Cons [of "Some st"] Some show ?thesis by fastforce
  qed
qed simp

lemma never_twice: "distinct (accept_run (map check cs) lastUsed)"
  using accepted_increase by (metis strict_sorted_iff)

end

text \<open>The candidates the loop tries: not negative, and past the last step used.\<close>

definition eligible :: "int option \<Rightarrow> int \<Rightarrow> bool" where
  "eligible lastUsed c \<longleftrightarrow> 0 \<le> c \<and> (\<forall>l. lastUsed = Some l \<longrightarrow> l < c)"

lemma verify_loop_Cons:
  "verify_loop valid lastUsed (c # cs) =
     (if eligible lastUsed c then
        (case valid c of None \<Rightarrow> None
         | Some matched \<Rightarrow> if matched then Some c else verify_loop valid lastUsed cs)
      else verify_loop valid lastUsed cs)"
  by (cases lastUsed) (auto simp: eligible_def split: option.splits)

lemma verify_loop_Some:
  "verify_loop valid lastUsed cs = Some st \<Longrightarrow>
     st \<in> set cs \<and> eligible lastUsed st \<and> valid st = Some True"
  by (induction cs)
     (auto simp: verify_loop_Cons simp del: verify_loop.simps(2) split: if_splits option.splits)

interpretation totp: code_checker "\<lambda>(hotp, secret, code, now). Verify hotp secret code now"
  by unfold_locales (auto simp: Verify_def Let_def eligible_def dest!: verify_loop_Some split: if_splits)

lemma verify_loop_first:
  assumes "\<And>c. c \<in> set cs \<Longrightarrow> eligible lastUsed c \<Longrightarrow> valid c \<noteq> None" and "sorted_wrt (<) cs"
  shows "verify_loop valid lastUsed cs = Some st \<longleftrightarrow>
     st \<in> set cs \<and> eligible lastUsed st \<and> valid st = Some True \<and>
     (\<forall>c \<in> set cs. c < st \<and> eligible lastUsed c \<longrightarrow> valid c = Some False)"
  using assms
proof (induction cs)
  case (Cons c cs)
  have lt: "\<forall>x \<in> set cs. c < x" using Cons.prems(2) by simp
  have IH: "verify_loop valid lastUsed cs = Some st \<longleftrightarrow>
     st \<in> set cs \<and> eligible lastUsed st \<and> valid st = Some True \<and>
     (\<forall>c \<in> set cs. c < st \<and> eligible lastUsed c \<longrightarrow> valid c = Some False)"
    using Cons by simp
  show ?case
  proof (cases "eligible lastUsed c")
    case True
    with Cons.prems(1) [of c] obtain m where "valid c = Some m" by auto
    with True IH lt show ?thesis
      by (cases m) (force simp: verify_loop_Cons simp del: verify_loop.simps(2))+
  qed (use IH in \<open>auto simp: verify_loop_Cons simp del: verify_loop.simps(2)\<close>)
qed simp

section \<open>Properties\<close>

text \<open>
  \<open>Verify\<close> accepts exactly what the policy allows: with a library that reports no error for a
  six-digit code, it returns a step if and only if the code has six digits and that step is the
  earliest one that is within one step of now, not negative, past the last step already used, and
  matches the code.
\<close>

theorem Verify_exact:
  assumes "\<And>c. 0 \<le> c \<Longrightarrow> hotp code c (EncodeSecret secret) \<noteq> None"
  shows "Verify hotp secret code now lastUsed = Some st \<longleftrightarrow>
     IsAuthenticatorCode code \<and> \<bar>st - Step now\<bar> \<le> 1 \<and> eligible lastUsed st \<and>
     hotp code st (EncodeSecret secret) = Some True \<and>
     (\<forall>c. \<bar>c - Step now\<bar> \<le> 1 \<and> c < st \<and> eligible lastUsed c \<longrightarrow>
        hotp code c (EncodeSecret secret) = Some False)"
proof -
  have "\<bar>c - Step now\<bar> \<le> 1 \<longleftrightarrow> c \<in> set [Step now - SkewSteps .. Step now + SkewSteps]" for c
    by (auto simp: SkewSteps_def)
  moreover have "eligible lastUsed c \<Longrightarrow> hotp code c (EncodeSecret secret) \<noteq> None" for c
    using assms by (simp add: eligible_def)
  ultimately show ?thesis
    using verify_loop_first [of "[Step now - SkewSteps .. Step now + SkewSteps]" lastUsed
        "\<lambda>c. hotp code c (EncodeSecret secret)" st]
    by (auto simp: Verify_def Let_def)
qed

theorem Verify_exact_witness:
  "Verify (\<lambda>code c s. Some (c = 41152263)) ''01234567890123456789'' ''123456'' 1234567890000000000 (Some 41152262)
     = Some 41152263"
proof -
  have "Step 1234567890000000000 = 41152263"
    by (simp add: Step_def Unix_def go_div_def)
  moreover have "IsAuthenticatorCode ''123456''"
    by (simp add: IsAuthenticatorCode_def Digits_def byte_of_def)
  ultimately show ?thesis
    using Verify_exact [of "\<lambda>code c s. Some (c = 41152263)" "''123456''" "''01234567890123456789''"
        1234567890000000000 "Some 41152262" 41152263]
    by (simp add: eligible_def)
qed

text \<open>
  An authenticator code is never accepted twice: whatever attempts are made, in whatever order
  and at whatever times, when each accepted step is remembered for the next attempt, the steps
  accepted are strictly increasing.
\<close>

theorem Verify_no_replay:
  "sorted_wrt (<) (accept_run (map (\<lambda>(hotp, secret, code, now). Verify hotp secret code now) attempts)
     lastUsed)"
  using totp.accepted_increase by blast

subsection \<open>Recovery codes\<close>

text \<open>The canonical form \<open>XXXX-XXXX\<close> over Crockford's alphabet.\<close>

definition canonical :: "string \<Rightarrow> bool" where
  "canonical c \<longleftrightarrow> (\<exists>xs. length xs = 8 \<and> set xs \<subseteq> set recoveryAlphabet \<and>
     c = take 4 xs @ ''-'' @ drop 4 xs)"

lemmas recovery_consts = recoveryGroupLen_def recoverySymbols_def

lemma alphabet_facts:
  "c \<in> set recoveryAlphabet \<Longrightarrow>
     byte_of c < 0x80 \<and> byte_of c \<noteq> byte_of CHR ''-'' \<and> byte_of c \<noteq> byte_of CHR '' '' \<and>
     disambiguate (ToUpper (byte_of c)) = byte_of c"
proof -
  have "list_all (\<lambda>c. byte_of c < 0x80 \<and> byte_of c \<noteq> byte_of CHR ''-'' \<and> byte_of c \<noteq> byte_of CHR '' '' \<and>
      disambiguate (ToUpper (byte_of c)) = byte_of c) recoveryAlphabet"
    by code_simp
  then show "c \<in> set recoveryAlphabet \<Longrightarrow> ?thesis" by (simp add: list_all_iff)
qed

lemma char_of_byte_of [simp]: "char_of (byte_of c) = c"
  by (simp add: byte_of_def)

abbreviation symbol_of :: "nat \<Rightarrow> char" where
  "symbol_of b \<equiv> recoveryAlphabet ! (b mod length recoveryAlphabet)"

lemma newRecoveryCode_eq:
  assumes "length raw = recoverySymbols"
  shows "newRecoveryCode raw = take 4 (map symbol_of raw) @ ''-'' @ drop 4 (map symbol_of raw)"
proof -
  have no_dash: "recovery_loop i xs = map symbol_of xs" if "4 < i" for i xs
    using that by (induction xs arbitrary: i) (simp_all add: recovery_consts)
  have dash: "recovery_loop i (xs @ y # ys) = map symbol_of xs @ ''-'' @ map symbol_of (y # ys)"
    if "i + length xs = 4" for i xs y ys
    using that no_dash by (induction xs arbitrary: i) (simp_all add: recovery_consts)
  have len: "length raw = 8" using assms by (simp add: recovery_consts)
  then obtain y ys where tail: "drop 4 raw = y # ys" by (cases "drop 4 raw") auto
  have "newRecoveryCode raw = recovery_loop 0 (take 4 raw @ y # ys)"
    unfolding newRecoveryCode_def by (metis tail append_take_drop_id)
  also have "\<dots> = take 4 (map symbol_of raw) @ ''-'' @ drop 4 (map symbol_of raw)"
    using dash [of 0 "take 4 raw" y ys] len tail by (simp add: take_map drop_map)
  finally show ?thesis .
qed

lemma recovery_loop_canonical:
  assumes "length raw = recoverySymbols"
  shows "canonical (newRecoveryCode raw)"
proof -
  have "symbol_of b \<in> set recoveryAlphabet" for b
    by (rule nth_mem) (simp add: recoveryAlphabet_def)
  then have "set (map symbol_of raw) \<subseteq> set recoveryAlphabet" by auto
  moreover have "length (map symbol_of raw) = 8" using assms by (simp add: recovery_consts)
  ultimately show ?thesis unfolding canonical_def newRecoveryCode_eq [OF assms] by blast
qed

lemma normalize_loop_symbols:
  "set xs \<subseteq> set recoveryAlphabet \<Longrightarrow> length acc + length xs \<le> recoverySymbols \<Longrightarrow>
     normalize_loop acc (map byte_of xs @ rest) = normalize_loop (acc @ map byte_of xs) rest"
proof (induction xs arbitrary: acc)
  case (Cons x xs)
  then have x: "x \<in> set recoveryAlphabet" by simp
  note alphabet_facts [OF x]
  moreover have "byte_of x \<in> set (map byte_of recoveryAlphabet)" using x by simp
  moreover have "length acc \<noteq> recoverySymbols" using Cons.prems(2) by simp
  ultimately show ?case using Cons.IH [of "acc @ [byte_of x]"] Cons.prems by (simp add: Let_def)
qed simp

lemma normalize_canonical:
  assumes "canonical c"
  shows "NormalizeRecoveryCode c = Some c"
proof -
  obtain xs where xs: "length xs = 8" "set xs \<subseteq> set recoveryAlphabet"
    and c: "c = take 4 xs @ ''-'' @ drop 4 xs"
    using assms by (auto simp: canonical_def)
  have sub: "set (take 4 xs) \<subseteq> set recoveryAlphabet" "set (drop 4 xs) \<subseteq> set recoveryAlphabet"
    using xs(2) set_take_subset [of 4 xs] set_drop_subset [of 4 xs] by blast+
  have "\<forall>x \<in> set c. byte_of x < 0x80"
    using sub alphabet_facts by (auto simp: c byte_of_def)
  then have "go_runes c = map byte_of (take 4 xs) @ [byte_of CHR ''-''] @ map byte_of (drop 4 xs) @ []"
    by (simp add: go_runes_ascii c)
  then have "normalize_loop [] (go_runes c) = Some (map byte_of xs)"
    using normalize_loop_symbols [OF sub(1), of "[]"] normalize_loop_symbols [OF sub(2), of "map byte_of (take 4 xs)" "[]"] xs(1)
    by (simp add: recovery_consts flip: map_append)
  then show ?thesis
    using xs(1) by (simp add: NormalizeRecoveryCode_def recovery_consts take_map drop_map c comp_def)
qed

lemma normalize_loop_range:
  "normalize_loop acc rs = Some out \<Longrightarrow> set acc \<subseteq> set (map byte_of recoveryAlphabet) \<Longrightarrow>
     set out \<subseteq> set (map byte_of recoveryAlphabet)"
proof (induction acc rs rule: normalize_loop.induct)
  case (2 symbols r rs)
  then show ?case by (auto simp: Let_def split: if_splits)
qed simp

lemma normalize_is_canonical:
  assumes "NormalizeRecoveryCode raw = Some c"
  shows "canonical c"
proof -
  obtain out where out: "normalize_loop [] (go_runes raw) = Some out" "length out = 8"
    and c: "c = map char_of (take 4 out) @ ''-'' @ map char_of (drop 4 out)"
    using assms by (auto simp: NormalizeRecoveryCode_def recovery_consts split: option.splits if_splits)
  have "set (map char_of out) \<subseteq> set recoveryAlphabet"
    using normalize_loop_range [OF out(1)] by auto
  with out(2) show ?thesis
    unfolding canonical_def c by (intro exI [of _ "map char_of out"]) (simp add: take_map drop_map)
qed

text \<open>
  Recovery codes round-trip: every generated code is in the canonical form \<open>XXXX-XXXX\<close> and
  normalizing what was generated gives it back unchanged; and whatever a user types, a normalized
  code is canonical and normalizing it again changes nothing. So the form that was hashed at
  generation is the form every accepted spelling is compared in.
\<close>

theorem recovery_code_roundtrip:
  assumes "length raw = recoverySymbols"
  shows "canonical (newRecoveryCode raw) \<and>
         NormalizeRecoveryCode (newRecoveryCode raw) = Some (newRecoveryCode raw) \<and>
         (\<forall>typed c. NormalizeRecoveryCode typed = Some c \<longrightarrow> canonical c \<and> NormalizeRecoveryCode c = Some c)"
  using recovery_loop_canonical [OF assms] normalize_canonical normalize_is_canonical by blast

theorem recovery_code_roundtrip_witness:
  "length [0, 33, 66, 99, 132, 165, 198, 231] = recoverySymbols \<and>
   newRecoveryCode [0, 33, 66, 99, 132, 165, 198, 231] = ''0123-4567'' \<and>
   NormalizeRecoveryCode ''0123-4567'' = Some ''0123-4567''"
proof -
  have "newRecoveryCode [0, 33, 66, 99, 132, 165, 198, 231] = ''0123-4567''"
    by (simp add: newRecoveryCode_def recovery_consts recoveryAlphabet_def)
  with recovery_code_roundtrip [of "[0, 33, 66, 99, 132, 165, 198, 231]"] show ?thesis
    by (simp add: recovery_consts)
qed

text \<open>
  Not every non-ASCII spelling is rejected, against what the comment in the loop says: the
  long s (U+017F) upper-cases to S and the dotless i (U+0131) to I, which is read as 1, so a typed
  code containing either normalizes to a canonical code.
\<close>

theorem normalize_accepts_non_ascii:
  "NormalizeRecoveryCode ([char_of (0xC5::nat), char_of (0xBF::nat)] @ ''000-0000'') = Some ''S000-0000'' \<and>
   NormalizeRecoveryCode ([char_of (0xC4::nat), char_of (0xB1::nat)] @ ''000-0000'') = Some ''1000-0000''"
  by code_simp

lemma residues_even: "s < m \<Longrightarrow> length (filter (\<lambda>b. b mod m = s) [0..<m * k]) = (k::nat)"
proof (induction k)
  case (Suc k)
  have "[0..<m * Suc k] = [0..<m * k] @ map (\<lambda>j. m * k + j) [0..<m]"
    using upt_add_eq_append [of 0 "m * k" m] by (simp add: map_add_upt add.commute)
  moreover have "filter ((\<lambda>b. b mod m = s) \<circ> (\<lambda>j. m * k + j)) [0..<m] = filter (\<lambda>j. j = s) [0..<m]"
    by (rule filter_cong) auto
  moreover have "length (filter (\<lambda>j. j = s) [0..<m]) = 1"
    using Suc.prems by (simp add: distinct_length_filter)
  ultimately show ?case using Suc by (simp add: filter_map)
qed simp

lemma symbol_preimages:
  assumes "x \<in> set recoveryAlphabet"
  shows "card {b. b < 256 \<and> symbol_of b = x} = 8"
proof -
  have len: "length recoveryAlphabet = 32" and dist: "distinct recoveryAlphabet"
    by (simp_all add: recoveryAlphabet_def)
  obtain s where s: "s < 32" "x = recoveryAlphabet ! s"
    using assms by (metis in_set_conv_nth len)
  have "symbol_of b = x \<longleftrightarrow> b mod 32 = s" for b
    using dist s by (simp add: nth_eq_iff_index_eq len)
  then have "{b. b < 256 \<and> symbol_of b = x} = set (filter (\<lambda>b. b mod 32 = s) [0..<256])"
    by auto
  moreover have "card (set (filter (\<lambda>b. b mod 32 = s) [0..<256])) = 8"
    using residues_even [OF s(1), of 8] distinct_card [of "filter (\<lambda>b. b mod 32 = s) [0..<256]"]
    by (simp del: set_filter)
  ultimately show ?thesis by simp
qed

lemma preimages_map:
  assumes "\<And>x. x \<in> set xs \<Longrightarrow> card {b \<in> A. f b = x} = n" and "finite A"
  shows "card {ys. set ys \<subseteq> A \<and> map f ys = xs} = n ^ length xs"
  using assms(1)
proof (induction xs)
  case Nil
  have "{ys. set ys \<subseteq> A \<and> map f ys = []} = {[]}" by auto
  then show ?case by simp
next
  case (Cons x xs)
  let ?S = "{ys. set ys \<subseteq> A \<and> map f ys = xs}"
  have "{ys. set ys \<subseteq> A \<and> map f ys = x # xs} = (\<lambda>(b, ys). b # ys) ` ({b \<in> A. f b = x} \<times> ?S)"
    by (auto simp: image_iff map_eq_Cons_conv)
  moreover have "inj_on (\<lambda>(b, ys). b # ys) ({b \<in> A. f b = x} \<times> ?S)"
    by (auto simp: inj_on_def)
  ultimately have "card {ys. set ys \<subseteq> A \<and> map f ys = x # xs} = card {b \<in> A. f b = x} * card ?S"
    by (simp add: card_image card_cartesian_product)
  with Cons show ?case by simp
qed

text \<open>
  Recovery codes are drawn without bias: of the \<open>256 ^ 8\<close> equally likely readings of the random
  source, exactly \<open>8 ^ 8\<close> give each canonical code, so each of the \<open>32 ^ 8\<close> codes is equally likely.
\<close>

theorem recovery_code_uniform:
  assumes "canonical c"
  shows "card {raw. length raw = recoverySymbols \<and> set raw \<subseteq> {b. b < 256} \<and> newRecoveryCode raw = c} = 8 ^ 8"
proof -
  obtain xs where xs: "length xs = 8" "set xs \<subseteq> set recoveryAlphabet" and c: "c = take 4 xs @ ''-'' @ drop 4 xs"
    using assms by (auto simp: canonical_def)
  have same: "newRecoveryCode raw = c \<longleftrightarrow> map symbol_of raw = xs" if "length raw = 8" for raw
  proof -
    have "length (take 4 (map symbol_of raw)) = length (take 4 xs)" using that xs(1) by simp
    then have "newRecoveryCode raw = c \<longleftrightarrow>
        take 4 (map symbol_of raw) = take 4 xs \<and> drop 4 (map symbol_of raw) = drop 4 xs"
      using newRecoveryCode_eq [of raw] that by (simp add: c recovery_consts)
    then show ?thesis by (metis append_take_drop_id)
  qed
  have "length raw = 8" if "map symbol_of raw = xs" for raw using that xs(1) by auto
  with same have "{raw. length raw = recoverySymbols \<and> set raw \<subseteq> {b. b < 256} \<and> newRecoveryCode raw = c} =
      {raw. set raw \<subseteq> {b. b < 256} \<and> map symbol_of raw = xs}"
    by (auto simp: recovery_consts)
  also have "card \<dots> = 8 ^ 8"
    using preimages_map [of xs "{b. b < 256}" symbol_of 8] symbol_preimages xs by auto
  finally show ?thesis .
qed

theorem recovery_code_uniform_witness:
  "card {raw. length raw = recoverySymbols \<and> set raw \<subseteq> {b. b < 256} \<and> newRecoveryCode raw = ''0123-4567''} = 8 ^ 8"
  using recovery_loop_canonical [of "[0, 1, 2, 3, 4, 5, 6, 7]"] recovery_code_uniform [of "''0123-4567''"]
  by (simp add: newRecoveryCode_def recovery_consts recoveryAlphabet_def)

end
