(* ===== verification/Totp_Store.thy ===== *)
theory Totp_Store
  imports Session_Store Totp_Core
begin

text \<open>
  Two-step verification storage, \<^verbatim>\<open>server/internal/storage/totp.go\<close>: setup in three steps, activation,
  recovery codes, and the sign-in challenge between the password and the code. Each operation is
  one transaction; the row locks it takes order transactions and have no effect on the state.

  The callbacks of the Go structs are functions of the model: \<open>CheckCode\<close> maps the secret and the
  last accepted step to the step it accepts, \<open>MatchRecoveryCode\<close> says whether the presented code
  matches a stored hash. The identifiers \<open>gen_random_uuid()\<close> draws are arguments; the \<open>i\<close>-th row
  of a multi-row INSERT draws \<open>ids i\<close>.
\<close>

section \<open>Reading\<close>

definition Enabled :: "totp_row \<Rightarrow> bool" where
  "Enabled t \<longleftrightarrow> ut_activated_at t \<noteq> None"

definition TotpByUser :: "uuid \<Rightarrow> db \<Rightarrow> store_error + totp_row" where
  "TotpByUser uid db =
     (case sql_row (\<lambda>t. ut_user t = uid) (user_totp db) of None \<Rightarrow> Inl ErrNotFound | Some t \<Rightarrow> Inr t)"

definition RecoveryCodeCounts :: "uuid \<Rightarrow> db \<Rightarrow> nat \<times> nat" where
  "RecoveryCodeCounts uid db =
     (let mine = filter (\<lambda>r. rc_user r = uid) (user_recovery_codes db)
      in (length (filter (\<lambda>r. rc_used_at r = None) mine), length mine))"

definition TotpChallengeUserByTokenHash :: "bytes \<Rightarrow> db \<Rightarrow> store_error + uuid" where
  "TotpChallengeUserByTokenHash tokenHash db =
     (case sql_row (\<lambda>c. tc_token_hash c = tokenHash) (totp_challenges db) of
        None \<Rightarrow> Inl ErrNotFound | Some c \<Rightarrow> Inr (tc_user c))"

section \<open>Recovery codes\<close>

definition deleteRecoveryCodes :: "uuid \<Rightarrow> db \<Rightarrow> db" where
  "deleteRecoveryCodes uid db = db\<lparr>user_recovery_codes :=
     sql_delete (\<lambda>r. rc_user r = uid) (user_recovery_codes db)\<rparr>"

definition recovery_rows :: "instant \<Rightarrow> (nat \<Rightarrow> uuid) \<Rightarrow> uuid \<Rightarrow> string list \<Rightarrow> recovery_row list" where
  "recovery_rows now ids uid hashes =
     map (\<lambda>i. \<lparr>rc_id = ids i, rc_user = uid, rc_hash = hashes ! i, rc_used_at = None, rc_created = now\<rparr>)
       [0..<length hashes]"

definition replaceRecoveryCodes ::
  "instant \<Rightarrow> (nat \<Rightarrow> uuid) \<Rightarrow> uuid \<Rightarrow> string list \<Rightarrow> (db, unit) tx" where
  "replaceRecoveryCodes now ids uid hashes db =
     (let db1 = deleteRecoveryCodes uid db;
          rows = recovery_rows now ids uid hashes
      in if hashes = [] then Inl (ErrOther ''install recovery codes: empty set'')
         else if \<not> distinct (map rc_id (user_recovery_codes db1 @ rows)) then Inl UniqueViolation
         else if \<not> sql_exists (\<lambda>u. u_id u = uid) (users db1) then Inl ForeignKeyViolation
         else Inr ((), db1\<lparr>user_recovery_codes := user_recovery_codes db1 @ rows\<rparr>))"

definition deletePendingSetup :: "uuid \<Rightarrow> db \<Rightarrow> db" where
  "deletePendingSetup uid db = deleteRecoveryCodes uid
     (db\<lparr>user_totp := sql_delete (\<lambda>t. ut_user t = uid \<and> ut_activated_at t = None) (user_totp db)\<rparr>)"

section \<open>Setup\<close>

text \<open>The upsert on \<open>user_id\<close>, with the constraints of \<open>user_totp\<close> (migration 0004).\<close>

definition install_setup :: "instant \<Rightarrow> uuid \<Rightarrow> bytes \<Rightarrow> duration \<Rightarrow> (db, unit) tx" where
  "install_setup now uid secret ttl db =
     (let row = \<lparr>ut_user = uid, ut_secret = secret, ut_verified_at = None, ut_activated_at = None,
                 ut_setup_exp = now + ttl, ut_attempts = 0, ut_last_step = None, ut_created = now\<rparr>
      in if length secret \<noteq> 20 then Inl CheckViolation
         else if sql_exists (\<lambda>t. ut_user t = uid) (user_totp db)
         then Inr ((), db\<lparr>user_totp := sql_update (\<lambda>t. ut_user t = uid)
                (\<lambda>t. t\<lparr>ut_secret := secret, ut_verified_at := None, ut_activated_at := None,
                       ut_setup_exp := now + ttl, ut_attempts := 0, ut_last_step := None,
                       ut_created := now\<rparr>) (user_totp db)\<rparr>)
         else if \<not> sql_exists (\<lambda>u. u_id u = uid) (users db) then Inl ForeignKeyViolation
         else Inr ((), db\<lparr>user_totp := sql_insert row (user_totp db)\<rparr>))"

definition start_setup_body :: "instant \<Rightarrow> uuid \<Rightarrow> bytes \<Rightarrow> duration \<Rightarrow> (db, unit) tx" where
  "start_setup_body now uid secret ttl db =
     (if (case sql_row (\<lambda>t. ut_user t = uid) (user_totp db) of None \<Rightarrow> False | Some t \<Rightarrow> Enabled t)
      then Inl ErrTotpAlreadyEnabled
      else case install_setup now uid secret ttl db of
             Inl e \<Rightarrow> Inl e
           | Inr (_, db1) \<Rightarrow> Inr ((), deleteRecoveryCodes uid db1))"

definition StartTotpSetup ::
  "instant \<Rightarrow> uuid \<Rightarrow> bytes \<Rightarrow> duration \<Rightarrow> db \<Rightarrow> (store_error + unit) \<times> db" where
  "StartTotpSetup now uid secret ttl = begin_func (start_setup_body now uid secret ttl)"

datatype TotpVerifyOutcome =
  TotpVerifyNoSetup | TotpVerifyRejected | TotpVerifyRevoked | TotpVerifyAccepted

record TotpSetupVerification =
  v_UserID :: uuid
  v_MaxAttempts :: int
  v_CheckCode :: "bytes \<Rightarrow> int option \<Rightarrow> int option"
  v_RecoveryCodeHashes :: "string list"

text \<open>
  \<open>UPDATE \<dots> RETURNING\<close> a single row: the statement and the value it returns. With no row the scan
  reports \<open>pgx.ErrNoRows\<close>.
\<close>

definition burnSetupAttempt :: "uuid \<Rightarrow> int \<Rightarrow> (db, bool) tx" where
  "burnSetupAttempt uid maxAttempts db =
     (let db1 = db\<lparr>user_totp := sql_update (\<lambda>t. ut_user t = uid)
                     (\<lambda>t. t\<lparr>ut_attempts := ut_attempts t + 1\<rparr>) (user_totp db)\<rparr>
      in case sql_row (\<lambda>t. ut_user t = uid) (user_totp db1) of
           None \<Rightarrow> Inl (ErrOther ''count wrong setup code'')
         | Some t \<Rightarrow> if ut_attempts t < maxAttempts then Inr (False, db1)
                    else Inr (True, deletePendingSetup uid db1))"

definition record_verification :: "instant \<Rightarrow> uuid \<Rightarrow> int \<Rightarrow> db \<Rightarrow> db" where
  "record_verification now uid step db = db\<lparr>user_totp := sql_update (\<lambda>t. ut_user t = uid)
     (\<lambda>t. t\<lparr>ut_verified_at := Some (case ut_verified_at t of None \<Rightarrow> now | Some v \<Rightarrow> v),
            ut_last_step := Some step, ut_attempts := 0\<rparr>) (user_totp db)\<rparr>"

definition verify_setup_body ::
  "instant \<Rightarrow> (nat \<Rightarrow> uuid) \<Rightarrow> TotpSetupVerification \<Rightarrow> (db, TotpVerifyOutcome) tx" where
  "verify_setup_body now ids v db =
     (case sql_row (\<lambda>t. ut_user t = v_UserID v) (user_totp db) of
        None \<Rightarrow> Inr (TotpVerifyNoSetup, db)
      | Some t \<Rightarrow>
          if Enabled t \<or> v_MaxAttempts v \<le> ut_attempts t then Inr (TotpVerifyNoSetup, db)
          else if ut_setup_exp t \<le> now then Inr (TotpVerifyNoSetup, deletePendingSetup (v_UserID v) db)
          else case v_CheckCode v (ut_secret t) (ut_last_step t) of
                 None \<Rightarrow>
                   (case burnSetupAttempt (v_UserID v) (v_MaxAttempts v) db of
                      Inl e \<Rightarrow> Inl e
                    | Inr (revoked, db1) \<Rightarrow>
                        Inr (if revoked then TotpVerifyRevoked else TotpVerifyRejected, db1))
               | Some step \<Rightarrow>
                   (case replaceRecoveryCodes now ids (v_UserID v) (v_RecoveryCodeHashes v)
                           (record_verification now (v_UserID v) step db) of
                      Inl e \<Rightarrow> Inl e
                    | Inr (_, db2) \<Rightarrow> Inr (TotpVerifyAccepted, db2)))"

definition VerifyTotpSetup ::
  "instant \<Rightarrow> (nat \<Rightarrow> uuid) \<Rightarrow> TotpSetupVerification \<Rightarrow> db \<Rightarrow> (store_error + TotpVerifyOutcome) \<times> db" where
  "VerifyTotpSetup now ids v = begin_func (verify_setup_body now ids v)"

section \<open>Activation and removal\<close>

text \<open>The WHERE clause of the activating UPDATE.\<close>

definition activatable :: "instant \<Rightarrow> uuid \<Rightarrow> db \<Rightarrow> totp_row \<Rightarrow> bool" where
  "activatable now uid db t \<longleftrightarrow> ut_user t = uid \<and> ut_activated_at t = None \<and> ut_verified_at t \<noteq> None \<and>
     now < ut_setup_exp t \<and>
     sql_exists (\<lambda>r. rc_user r = uid \<and> rc_used_at r = None) (user_recovery_codes db)"

definition clear_enrollment :: "uuid \<Rightarrow> db \<Rightarrow> db" where
  "clear_enrollment uid db = db\<lparr>sessions :=
     sql_update (\<lambda>s. s_user s = uid \<and> s_enroll s) (\<lambda>s. s\<lparr>s_enroll := False\<rparr>) (sessions db)\<rparr>"

definition activate_body :: "instant \<Rightarrow> uuid \<Rightarrow> (db, instant) tx" where
  "activate_body now uid db =
     (if \<not> sql_exists (activatable now uid db) (user_totp db) then Inl ErrTotpSetupNotVerified
      else Inr (now, clear_enrollment uid (db\<lparr>user_totp :=
             sql_update (activatable now uid db) (\<lambda>t. t\<lparr>ut_activated_at := Some now\<rparr>) (user_totp db)\<rparr>)))"

definition ActivateTotp :: "instant \<Rightarrow> uuid \<Rightarrow> db \<Rightarrow> (store_error + instant) \<times> db" where
  "ActivateTotp now uid = begin_func (activate_body now uid)"

definition disable_body :: "uuid \<Rightarrow> (db, unit) tx" where
  "disable_body uid db =
     (if require_totp (org_settings db) then Inl ErrTotpRequiredByOrg
      else
        (let db1 = db\<lparr>totp_challenges := sql_delete (\<lambda>c. tc_user c = uid) (totp_challenges db)\<rparr>;
             P = (\<lambda>t. ut_user t = uid \<and> ut_activated_at t \<noteq> None);
             db2 = db1\<lparr>user_totp := sql_delete P (user_totp db1)\<rparr>
         in if \<not> sql_exists P (user_totp db1) then Inl ErrTotpNotEnabled
            else Inr ((), deleteRecoveryCodes uid db2)))"

definition DisableTotp :: "uuid \<Rightarrow> db \<Rightarrow> (store_error + unit) \<times> db" where
  "DisableTotp uid = begin_func (disable_body uid)"

definition replace_codes_body ::
  "instant \<Rightarrow> (nat \<Rightarrow> uuid) \<Rightarrow> uuid \<Rightarrow> string list \<Rightarrow> (db, unit) tx" where
  "replace_codes_body now ids uid hashes db =
     (case sql_row (\<lambda>t. ut_user t = uid) (user_totp db) of
        None \<Rightarrow> Inl ErrTotpNotEnabled
      | Some t \<Rightarrow> if \<not> Enabled t then Inl ErrTotpNotEnabled
                 else replaceRecoveryCodes now ids uid hashes db)"

definition ReplaceRecoveryCodes ::
  "instant \<Rightarrow> (nat \<Rightarrow> uuid) \<Rightarrow> uuid \<Rightarrow> string list \<Rightarrow> db \<Rightarrow> (store_error + unit) \<times> db" where
  "ReplaceRecoveryCodes now ids uid hashes = begin_func (replace_codes_body now ids uid hashes)"

section \<open>The sign-in challenge\<close>

text \<open>
  The upsert on \<open>user_id\<close> (unique since migration 0005), with the constraints of the table: the
  token hash has 32 bytes and is unique, the identifier is unique, the user exists.
\<close>

definition create_challenge_body :: "instant \<Rightarrow> uuid \<Rightarrow> uuid \<Rightarrow> bytes \<Rightarrow> duration \<Rightarrow> (db, unit) tx" where
  "create_challenge_body now newID uid tokenHash ttl db =
     (let row = \<lparr>tc_id = newID, tc_user = uid, tc_token_hash = tokenHash, tc_exp = now + ttl,
                 tc_attempts = 0, tc_consumed_at = None, tc_created = now\<rparr>
      in if length tokenHash \<noteq> 32 then Inl CheckViolation
         else if sql_exists (\<lambda>c. tc_token_hash c = tokenHash \<and> tc_user c \<noteq> uid) (totp_challenges db)
         then Inl UniqueViolation
         else if sql_exists (\<lambda>c. tc_user c = uid) (totp_challenges db)
         then Inr ((), db\<lparr>totp_challenges := sql_update (\<lambda>c. tc_user c = uid)
                (\<lambda>c. c\<lparr>tc_token_hash := tokenHash, tc_exp := now + ttl, tc_attempts := 0,
                       tc_consumed_at := None, tc_created := now\<rparr>) (totp_challenges db)\<rparr>)
         else if sql_exists (\<lambda>c. tc_id c = newID) (totp_challenges db) then Inl UniqueViolation
         else if \<not> sql_exists (\<lambda>u. u_id u = uid) (users db) then Inl ForeignKeyViolation
         else Inr ((), db\<lparr>totp_challenges := sql_insert row (totp_challenges db)\<rparr>))"

definition CreateTotpChallenge ::
  "instant \<Rightarrow> uuid \<Rightarrow> uuid \<Rightarrow> bytes \<Rightarrow> duration \<Rightarrow> db \<Rightarrow> (store_error + unit) \<times> db" where
  "CreateTotpChallenge now newID uid tokenHash ttl =
     begin_func (create_challenge_body now newID uid tokenHash ttl)"

datatype TotpChallengeOutcome =
  TotpChallengeNone | TotpChallengeRejected | TotpChallengeRevoked | TotpChallengeCompleted

record TotpChallengeAttempt =
  a_TokenHash :: bytes
  a_MaxAttempts :: int
  a_CheckCode :: "(bytes \<Rightarrow> int option \<Rightarrow> int option) option"
  a_MatchRecoveryCode :: "(string \<Rightarrow> bool) option"
  a_Session :: session_tokens

definition consumeChallenge :: "instant \<Rightarrow> uuid \<Rightarrow> db \<Rightarrow> db" where
  "consumeChallenge now challengeID db = db\<lparr>totp_challenges :=
     sql_update (\<lambda>c. tc_id c = challengeID \<and> tc_consumed_at c = None)
       (\<lambda>c. c\<lparr>tc_consumed_at := Some now\<rparr>) (totp_challenges db)\<rparr>"

definition burnChallengeAttempt :: "instant \<Rightarrow> uuid \<Rightarrow> int \<Rightarrow> (db, bool) tx" where
  "burnChallengeAttempt now challengeID maxAttempts db =
     (let db1 = db\<lparr>totp_challenges := sql_update (\<lambda>c. tc_id c = challengeID)
                     (\<lambda>c. c\<lparr>tc_attempts := tc_attempts c + 1\<rparr>) (totp_challenges db)\<rparr>
      in case sql_row (\<lambda>c. tc_id c = challengeID) (totp_challenges db1) of
           None \<Rightarrow> Inl (ErrOther ''count wrong sign-in code'')
         | Some c \<Rightarrow> if tc_attempts c < maxAttempts then Inr (False, db1)
                    else Inr (True, consumeChallenge now challengeID db1))"

text \<open>The loop over the candidates: the first that matches is spent, under its row lock.\<close>

fun spend_first :: "instant \<Rightarrow> (string \<Rightarrow> bool) \<Rightarrow> recovery_row list \<Rightarrow> (db, bool) tx" where
  "spend_first now match [] db = Inr (False, db)"
| "spend_first now match (c # cs) db =
     (if \<not> match (rc_hash c) then spend_first now match cs db
      else
        (let P = (\<lambda>r. rc_id r = rc_id c \<and> rc_used_at r = None)
         in if length (filter P (user_recovery_codes db)) \<noteq> 1
            then Inl (ErrOther ''spend recovery code: row changed under the lock'')
            else Inr (True, db\<lparr>user_recovery_codes :=
                   sql_update P (\<lambda>r. r\<lparr>rc_used_at := Some now\<rparr>) (user_recovery_codes db)\<rparr>)))"

definition recovery_candidates :: "uuid \<Rightarrow> db \<Rightarrow> recovery_row list" where
  "recovery_candidates uid db =
     sql_order rc_created (sql_order rc_id
       (filter (\<lambda>r. rc_user r = uid \<and> rc_used_at r = None) (user_recovery_codes db)))"

definition consumeRecoveryCode :: "instant \<Rightarrow> uuid \<Rightarrow> (string \<Rightarrow> bool) \<Rightarrow> (db, bool) tx" where
  "consumeRecoveryCode now uid match db = spend_first now match (recovery_candidates uid db) db"

definition record_step :: "uuid \<Rightarrow> int \<Rightarrow> db \<Rightarrow> db" where
  "record_step uid step db = db\<lparr>user_totp :=
     sql_update (\<lambda>t. ut_user t = uid) (\<lambda>t. t\<lparr>ut_last_step := Some step\<rparr>) (user_totp db)\<rparr>"

definition acceptChallengeCode ::
  "instant \<Rightarrow> TotpChallengeAttempt \<Rightarrow> uuid \<Rightarrow> bytes \<Rightarrow> int option \<Rightarrow> (db, bool) tx" where
  "acceptChallengeCode now att uid secret lastUsedStep db =
     (case a_CheckCode att of
        Some check \<Rightarrow>
          (case check secret lastUsedStep of
             None \<Rightarrow> Inr (False, db)
           | Some step \<Rightarrow> Inr (True, record_step uid step db))
      | None \<Rightarrow>
          (case a_MatchRecoveryCode att of
             Some match \<Rightarrow> consumeRecoveryCode now uid match db
           | None \<Rightarrow> Inr (False, db)))"

text \<open>
  The captured variables of the closure are its result: the user and the session stay the zero
  value, here \<^const>\<open>None\<close>, on every path that does not assign them.
\<close>

definition complete_body ::
  "instant \<Rightarrow> uuid \<Rightarrow> uuid \<Rightarrow> TotpChallengeAttempt \<Rightarrow>
   (db, (user_row \<times> session) option \<times> TotpChallengeOutcome) tx" where
  "complete_body now newID newFamily att db =
     (case sql_row (\<lambda>c. tc_token_hash c = a_TokenHash att \<and> tc_consumed_at c = None \<and>
                       now < tc_exp c \<and> tc_attempts c < a_MaxAttempts att) (totp_challenges db) of
        None \<Rightarrow> Inr ((None, TotpChallengeNone), db)
      | Some c \<Rightarrow>
          (case sql_row (\<lambda>t. ut_user t = tc_user c \<and> ut_activated_at t \<noteq> None) (user_totp db) of
             None \<Rightarrow> Inr ((None, TotpChallengeNone), consumeChallenge now (tc_id c) db)
           | Some t \<Rightarrow>
               (case acceptChallengeCode now att (tc_user c) (ut_secret t) (ut_last_step t) db of
                  Inl e \<Rightarrow> Inl e
                | Inr (accepted, db1) \<Rightarrow>
                    if \<not> accepted then
                      (case burnChallengeAttempt now (tc_id c) (a_MaxAttempts att) db1 of
                         Inl e \<Rightarrow> Inl e
                       | Inr (revoked, db2) \<Rightarrow>
                           Inr ((None, if revoked then TotpChallengeRevoked else TotpChallengeRejected), db2))
                    else
                      (case insertSessionFamily now newID newFamily (tc_user c) (a_Session att)
                              (consumeChallenge now (tc_id c) db1) of
                         Inl e \<Rightarrow> Inl e
                       | Inr (sess, db3) \<Rightarrow>
                           (case sql_row (\<lambda>u. u_id u = tc_user c) (users db3) of
                              None \<Rightarrow> Inl ErrNotFound
                            | Some u \<Rightarrow> Inr ((Some (u, sess), TotpChallengeCompleted), db3))))))"

definition CompleteTotpChallenge ::
  "instant \<Rightarrow> uuid \<Rightarrow> uuid \<Rightarrow> TotpChallengeAttempt \<Rightarrow> db \<Rightarrow>
   (store_error + (user_row \<times> session) option \<times> TotpChallengeOutcome) \<times> db" where
  "CompleteTotpChallenge now newID newFamily att = begin_func (complete_body now newID newFamily att)"

lemmas totp_bodies = start_setup_body_def install_setup_def verify_setup_body_def activate_body_def
  disable_body_def replace_codes_body_def create_challenge_body_def

section \<open>What each transaction does\<close>

lemma burnSetupAttempt_eq:
  assumes "sql_row (\<lambda>t. ut_user t = uid) (user_totp db) = Some t"
  shows "burnSetupAttempt uid m db =
    (let db1 = db\<lparr>user_totp := sql_update (\<lambda>t. ut_user t = uid)
                 (\<lambda>t. t\<lparr>ut_attempts := ut_attempts t + 1\<rparr>) (user_totp db)\<rparr>
     in if ut_attempts t + 1 < m then Inr (False, db1) else Inr (True, deletePendingSetup uid db1))"
  using assms by (simp add: burnSetupAttempt_def sql_row_sql_update Let_def)

lemma verify_setup_cases:
  assumes "verify_setup_body now ids v db = Inr (out, db')"
  obtains (none) "out = TotpVerifyNoSetup" "db' = db"
  | (expired) t where "sql_row (\<lambda>t. ut_user t = v_UserID v) (user_totp db) = Some t" "\<not> Enabled t"
      "out = TotpVerifyNoSetup" "db' = deletePendingSetup (v_UserID v) db"
  | (wrong) t where "sql_row (\<lambda>t. ut_user t = v_UserID v) (user_totp db) = Some t" "\<not> Enabled t"
      "out = TotpVerifyRejected" "ut_attempts t + 1 < v_MaxAttempts v"
      "db' = db\<lparr>user_totp := sql_update (\<lambda>t. ut_user t = v_UserID v)
         (\<lambda>t. t\<lparr>ut_attempts := ut_attempts t + 1\<rparr>) (user_totp db)\<rparr>"
  | (revoked) t where "sql_row (\<lambda>t. ut_user t = v_UserID v) (user_totp db) = Some t" "\<not> Enabled t"
      "out = TotpVerifyRevoked" "ut_attempts t < v_MaxAttempts v"
      "db' = deletePendingSetup (v_UserID v) (db\<lparr>user_totp := sql_update (\<lambda>t. ut_user t = v_UserID v)
         (\<lambda>t. t\<lparr>ut_attempts := ut_attempts t + 1\<rparr>) (user_totp db)\<rparr>)"
  | (accepted) t st where "sql_row (\<lambda>t. ut_user t = v_UserID v) (user_totp db) = Some t" "\<not> Enabled t"
      "v_CheckCode v (ut_secret t) (ut_last_step t) = Some st" "out = TotpVerifyAccepted"
      "replaceRecoveryCodes now ids (v_UserID v) (v_RecoveryCodeHashes v)
         (record_verification now (v_UserID v) st db) = Inr ((), db')"
  using assms
  by (auto simp: verify_setup_body_def burnSetupAttempt_eq Let_def not_less
      split: option.splits if_splits sum.splits prod.splits)

lemma replaceRecoveryCodes_Inr:
  "replaceRecoveryCodes now ids uid hashes db = Inr (x, db') \<Longrightarrow>
     hashes \<noteq> [] \<and> distinct (map rc_id (user_recovery_codes db')) \<and>
     db' = db\<lparr>user_recovery_codes := sql_delete (\<lambda>r. rc_user r = uid) (user_recovery_codes db)
                 @ recovery_rows now ids uid hashes\<rparr>"
  by (auto simp: replaceRecoveryCodes_def deleteRecoveryCodes_def Let_def split: if_splits)

lemma recovery_rows_iff:
  "r \<in> set (recovery_rows now ids uid hashes) \<Longrightarrow> rc_user r = uid"
  "recovery_rows now ids uid hashes = [] \<longleftrightarrow> hashes = []"
  by (auto simp: recovery_rows_def)

lemma burnChallengeAttempt_eq:
  assumes "distinct (map tc_id (totp_challenges db))" and "c \<in> set (totp_challenges db)"
  shows "burnChallengeAttempt now (tc_id c) m db =
    (let db1 = db\<lparr>totp_challenges := sql_update (\<lambda>x. tc_id x = tc_id c)
                 (\<lambda>x. x\<lparr>tc_attempts := tc_attempts x + 1\<rparr>) (totp_challenges db)\<rparr>
     in if tc_attempts c + 1 < m then Inr (False, db1)
        else Inr (True, consumeChallenge now (tc_id c) db1))"
  using sql_row_unique [OF assms]
  by (simp add: burnChallengeAttempt_def sql_row_sql_update Let_def)

lemma spend_first_cases:
  assumes "spend_first now m cs db = Inr (b, db')"
  shows "(\<not> b \<longrightarrow> db' = db) \<and> (b \<longrightarrow> (\<exists>c \<in> set cs. m (rc_hash c) \<and>
     length (filter (\<lambda>r. rc_id r = rc_id c \<and> rc_used_at r = None) (user_recovery_codes db)) = 1 \<and>
     db' = db\<lparr>user_recovery_codes := sql_update (\<lambda>r. rc_id r = rc_id c \<and> rc_used_at r = None)
                 (\<lambda>r. r\<lparr>rc_used_at := Some now\<rparr>) (user_recovery_codes db)\<rparr>))"
  using assms by (induction now m cs db rule: spend_first.induct) (auto simp: Let_def split: if_splits)

lemma set_recovery_candidates:
  "set (recovery_candidates uid db) =
     {r \<in> set (user_recovery_codes db). rc_user r = uid \<and> rc_used_at r = None}"
  by (auto simp: recovery_candidates_def)

lemma accept_cases:
  assumes "acceptChallengeCode now att uid secret l db = Inr (b, db')"
  obtains (no) "\<not> b" "db' = db"
  | (step) check st where "b" "a_CheckCode att = Some check" "check secret l = Some st"
      "db' = record_step uid st db"
  | (code) m c where "b" "a_CheckCode att = None" "a_MatchRecoveryCode att = Some m" "m (rc_hash c)"
      "c \<in> set (user_recovery_codes db)" "rc_user c = uid" "rc_used_at c = None"
      "db' = db\<lparr>user_recovery_codes := sql_update (\<lambda>r. rc_id r = rc_id c \<and> rc_used_at r = None)
                 (\<lambda>r. r\<lparr>rc_used_at := Some now\<rparr>) (user_recovery_codes db)\<rparr>"
proof (cases "a_CheckCode att")
  case (Some check)
  with assms that(1,2) show thesis
    by (auto simp: acceptChallengeCode_def split: option.splits)
next
  case None
  show thesis
  proof (cases "a_MatchRecoveryCode att")
    case (Some m)
    with assms None have sp: "spend_first now m (recovery_candidates uid db) db = Inr (b, db')"
      by (simp add: acceptChallengeCode_def consumeRecoveryCode_def)
    from spend_first_cases [OF this] that(1) that(3) [OF _ None Some] show thesis
      by (cases b) (auto simp: set_recovery_candidates)
  next
    case None': None
    with assms None that(1) show thesis by (auto simp: acceptChallengeCode_def)
  qed
qed

abbreviation live_challenge :: "instant \<Rightarrow> TotpChallengeAttempt \<Rightarrow> challenge_row \<Rightarrow> bool" where
  "live_challenge now att c \<equiv> tc_token_hash c = a_TokenHash att \<and> tc_consumed_at c = None \<and>
     now < tc_exp c \<and> tc_attempts c < a_MaxAttempts att"

lemma complete_cases:
  assumes body: "complete_body now i f att db = Inr ((so, out), db')"
    and dist: "distinct (map tc_id (totp_challenges db))"
  obtains (none) "so = None" "out = TotpChallengeNone" "db' = db"
  | (off) c where "so = None" "out = TotpChallengeNone"
      "c \<in> set (totp_challenges db)" "live_challenge now att c" "db' = consumeChallenge now (tc_id c) db"
  | (wrong) c where "so = None" "out = TotpChallengeRejected"
      "c \<in> set (totp_challenges db)" "live_challenge now att c" "tc_attempts c + 1 < a_MaxAttempts att"
      "db' = db\<lparr>totp_challenges := sql_update (\<lambda>x. tc_id x = tc_id c)
                 (\<lambda>x. x\<lparr>tc_attempts := tc_attempts x + 1\<rparr>) (totp_challenges db)\<rparr>"
  | (revoked) c where "so = None" "out = TotpChallengeRevoked"
      "c \<in> set (totp_challenges db)" "live_challenge now att c"
      "db' = consumeChallenge now (tc_id c) (db\<lparr>totp_challenges := sql_update (\<lambda>x. tc_id x = tc_id c)
                 (\<lambda>x. x\<lparr>tc_attempts := tc_attempts x + 1\<rparr>) (totp_challenges db)\<rparr>)"
  | (completed) c t db1 u sess where "so = Some (u, sess)" "out = TotpChallengeCompleted"
      "c \<in> set (totp_challenges db)" "live_challenge now att c"
      "t \<in> set (user_totp db)" "ut_user t = tc_user c" "ut_activated_at t \<noteq> None"
      "acceptChallengeCode now att (tc_user c) (ut_secret t) (ut_last_step t) db = Inr (True, db1)"
      "insertSessionFamily now i f (tc_user c) (a_Session att) (consumeChallenge now (tc_id c) db1)
         = Inr (sess, db')"
      "u_id u = tc_user c"
proof (cases "sql_row (live_challenge now att) (totp_challenges db)")
  case None
  with body none show thesis by (auto simp: complete_body_def)
next
  case (Some c)
  then have c: "c \<in> set (totp_challenges db)" "live_challenge now att c"
    by (auto dest: sql_row_Some_iff)
  show thesis
  proof (cases "sql_row (\<lambda>t. ut_user t = tc_user c \<and> ut_activated_at t \<noteq> None) (user_totp db)")
    case None
    with Some body off [OF _ _ c] show thesis by (auto simp: complete_body_def)
  next
    case (Some t)
    then have t: "t \<in> set (user_totp db)" "ut_user t = tc_user c" "ut_activated_at t \<noteq> None"
      by (auto dest: sql_row_Some_iff)
    obtain b db1 where acc: "acceptChallengeCode now att (tc_user c) (ut_secret t) (ut_last_step t) db
        = Inr (b, db1)"
      using body Some \<open>sql_row (live_challenge now att) (totp_challenges db) = Some c\<close>
      by (auto simp: complete_body_def split: sum.splits)
    show thesis
    proof (cases b)
      case True
      with body Some acc \<open>sql_row (live_challenge now att) (totp_challenges db) = Some c\<close>
      obtain u sess where "so = Some (u, sess)" "out = TotpChallengeCompleted" "u_id u = tc_user c"
          "insertSessionFamily now i f (tc_user c) (a_Session att) (consumeChallenge now (tc_id c) db1)
             = Inr (sess, db')"
        by (auto simp: complete_body_def dest: sql_row_Some_iff split: sum.splits prod.splits option.splits)
      with True acc show thesis using completed [OF _ _ c t] by simp
    next
      case False
      have "db1 = db" using acc False by (cases rule: accept_cases) auto
      with False body Some acc \<open>sql_row (live_challenge now att) (totp_challenges db) = Some c\<close>
        burnChallengeAttempt_eq [OF dist c(1)] wrong [OF _ _ c] revoked [OF _ _ c]
      show thesis by (auto simp: complete_body_def Let_def split: if_splits)
    qed
  qed
qed

section \<open>The invariant\<close>

text \<open>
  Between transactions: an account has at most one two-step row and one challenge; a row is
  activated only after it was verified; a pending row has attempts left; and an account has
  recovery codes exactly when its setup has been verified. A challenge that is not consumed has
  attempts left.
\<close>

definition row_ok :: "totp_row \<Rightarrow> bool" where
  "row_ok t \<longleftrightarrow> (ut_activated_at t \<noteq> None \<longrightarrow> ut_verified_at t \<noteq> None) \<and> 0 \<le> ut_attempts t \<and>
     (ut_activated_at t = None \<longrightarrow> ut_attempts t < MaxSetupAttempts)"

definition codes_iff_verified :: "uuid \<Rightarrow> totp_row list \<Rightarrow> recovery_row list \<Rightarrow> bool" where
  "codes_iff_verified uid T R \<longleftrightarrow>
     ((\<exists>t \<in> set T. ut_user t = uid \<and> ut_verified_at t \<noteq> None) \<longleftrightarrow> (\<exists>r \<in> set R. rc_user r = uid))"

definition setups_ok :: "totp_row list \<Rightarrow> recovery_row list \<Rightarrow> bool" where
  "setups_ok T R \<longleftrightarrow> distinct (map ut_user T) \<and> distinct (map rc_id R) \<and>
     (\<forall>t \<in> set T. row_ok t) \<and> (\<forall>uid. codes_iff_verified uid T R)"

definition challenge_ok :: "challenge_row \<Rightarrow> bool" where
  "challenge_ok c \<longleftrightarrow> 0 \<le> tc_attempts c \<and> (tc_consumed_at c = None \<longrightarrow> tc_attempts c < MaxChallengeAttempts)"

definition challenges_ok :: "challenge_row list \<Rightarrow> bool" where
  "challenges_ok C \<longleftrightarrow> distinct (map tc_id C) \<and> distinct (map tc_user C) \<and>
     distinct (map tc_token_hash C) \<and> (\<forall>c \<in> set C. challenge_ok c)"

definition totp_inv :: "db \<Rightarrow> bool" where
  "totp_inv db \<longleftrightarrow> setups_ok (user_totp db) (user_recovery_codes db) \<and> challenges_ok (totp_challenges db)"

text \<open>A statement on one account leaves the other accounts' rows as they are.\<close>

lemma setups_ok_account:
  assumes ok: "setups_ok T R"
    and T: "\<And>t. ut_user t \<noteq> uid \<Longrightarrow> t \<in> set T' \<longleftrightarrow> t \<in> set T" "distinct (map ut_user T')"
    and R: "\<And>r. rc_user r \<noteq> uid \<Longrightarrow> r \<in> set R' \<longleftrightarrow> r \<in> set R" "distinct (map rc_id R')"
    and acct: "\<And>t. t \<in> set T' \<Longrightarrow> ut_user t = uid \<Longrightarrow> row_ok t" "codes_iff_verified uid T' R'"
  shows "setups_ok T' R'"
proof -
  have "codes_iff_verified u T' R'" for u
  proof (cases "u = uid")
    case False
    have "(\<exists>t \<in> set T'. ut_user t = u \<and> Q t) \<longleftrightarrow> (\<exists>t \<in> set T. ut_user t = u \<and> Q t)" for Q
      using T(1) False by blast
    moreover have "(\<exists>r \<in> set R'. rc_user r = u) \<longleftrightarrow> (\<exists>r \<in> set R. rc_user r = u)"
      using R(1) False by blast
    ultimately have "codes_iff_verified u T' R' \<longleftrightarrow> codes_iff_verified u T R"
      unfolding codes_iff_verified_def by simp
    with ok show ?thesis by (simp add: setups_ok_def)
  qed (use acct(2) in simp)
  moreover have "row_ok t" if "t \<in> set T'" for t
    using that acct(1) ok T(1) by (cases "ut_user t = uid") (auto simp: setups_ok_def)
  ultimately show ?thesis using T(2) R(2) by (simp add: setups_ok_def)
qed

lemma setups_ok_row:
  assumes "setups_ok T R" and "sql_row (\<lambda>t. ut_user t = uid) T = Some t"
  shows "t \<in> set T" "ut_user t = uid" "row_ok t" "x \<in> set T \<Longrightarrow> ut_user x = uid \<Longrightarrow> x = t"
  using assms sql_row_Some_iff [OF assms(2)]
  by (auto simp: setups_ok_def intro: distinct_map_inj)

lemma setups_ok_drop:
  assumes ok: "setups_ok T R" and only: "\<And>t. t \<in> set T \<Longrightarrow> ut_user t = uid \<Longrightarrow> P t"
    and P: "\<And>t. P t \<Longrightarrow> ut_user t = uid"
  shows "setups_ok (sql_delete P T) (sql_delete (\<lambda>r. rc_user r = uid) R)"
proof (rule setups_ok_account [OF ok, where uid = uid])
  show "distinct (map ut_user (sql_delete P T))"
    "distinct (map rc_id (sql_delete (\<lambda>r. rc_user r = uid) R))"
    using ok by (simp_all add: setups_ok_def distinct_map_sql_delete)
qed (use only P in \<open>auto simp: codes_iff_verified_def\<close>)

lemma setups_ok_update:
  assumes ok: "setups_ok T R" and P: "\<And>t. P t \<Longrightarrow> ut_user t = uid"
    and f: "\<And>t. ut_user (f t) = ut_user t"
    and row: "\<And>t. t \<in> set T \<Longrightarrow> P t \<Longrightarrow> row_ok (f t)"
    and R: "\<And>r. rc_user r \<noteq> uid \<Longrightarrow> r \<in> set R' \<longleftrightarrow> r \<in> set R" "distinct (map rc_id R')"
    and codes: "codes_iff_verified uid (sql_update P f T) R'"
  shows "setups_ok (sql_update P f T) R'"
proof (rule setups_ok_account [OF ok, where uid = uid])
  show "distinct (map ut_user (sql_update P f T))"
    using ok f by (simp add: setups_ok_def map_sql_update_frame)
  show "row_ok t" if "t \<in> set (sql_update P f T)" "ut_user t = uid" for t
    using that ok row by (elim sql_updateE) (auto simp: setups_ok_def)
  show "t \<in> set (sql_update P f T) \<longleftrightarrow> t \<in> set T" if "ut_user t \<noteq> uid" for t
  proof -
    have "\<not> P t" using that P by blast
    moreover have "t \<noteq> f x" if "P x" for x using that P f \<open>ut_user t \<noteq> uid\<close> by metis
    ultimately show ?thesis unfolding in_sql_update by metis
  qed
qed (use R codes in auto)

text \<open>An UPDATE that keeps the verification mark keeps who has codes.\<close>

lemma codes_iff_update:
  assumes "setups_ok T R"
    and "\<And>t. ut_user (f t) = ut_user t" and "\<And>t. (ut_verified_at (f t) = None) = (ut_verified_at t = None)"
  shows "codes_iff_verified uid (sql_update P f T) R"
proof -
  have "(\<exists>t \<in> set (sql_update P f T). ut_user t = uid \<and> ut_verified_at t \<noteq> None) \<longleftrightarrow>
      (\<exists>t \<in> set T. ut_user t = uid \<and> ut_verified_at t \<noteq> None)"
    unfolding set_sql_update bex_simps(7) by (intro bex_cong refl) (simp add: assms(2,3) del: not_None_eq)
  with assms(1) show ?thesis unfolding setups_ok_def codes_iff_verified_def by simp
qed

lemma deletePendingSetup_ok:
  assumes "setups_ok (user_totp db) (user_recovery_codes db)"
    and "\<And>t. t \<in> set (user_totp db) \<Longrightarrow> ut_user t = uid \<Longrightarrow> ut_activated_at t = None"
  shows "setups_ok (user_totp (deletePendingSetup uid db)) (user_recovery_codes (deletePendingSetup uid db))"
proof -
  have "setups_ok (sql_delete (\<lambda>t. ut_user t = uid \<and> ut_activated_at t = None) (user_totp db))
      (sql_delete (\<lambda>r. rc_user r = uid) (user_recovery_codes db))"
    by (rule setups_ok_drop [OF assms(1)]) (use assms(2) in blast)+
  then show ?thesis by (simp add: deletePendingSetup_def deleteRecoveryCodes_def)
qed

lemma start_setup_ok:
  assumes "start_setup_body now uid secret ttl db = Inr (x, db')"
    and ok: "setups_ok (user_totp db) (user_recovery_codes db)"
  shows "setups_ok (user_totp db') (user_recovery_codes db')"
proof -
  let ?f = "\<lambda>t. t\<lparr>ut_secret := secret, ut_verified_at := None, ut_activated_at := None,
                  ut_setup_exp := now + ttl, ut_attempts := 0, ut_last_step := None, ut_created := now\<rparr>"
  let ?R = "sql_delete (\<lambda>r. rc_user r = uid) (user_recovery_codes db)"
  let ?row = "\<lparr>ut_user = uid, ut_secret = secret, ut_verified_at = None, ut_activated_at = None,
                 ut_setup_exp = now + ttl, ut_attempts = 0, ut_last_step = None, ut_created = now\<rparr>"
  have dR: "distinct (map rc_id ?R)" using ok by (simp add: setups_ok_def distinct_map_sql_delete)
  consider "user_totp db' = sql_update (\<lambda>t. ut_user t = uid) ?f (user_totp db)"
    | "user_totp db' = sql_insert ?row (user_totp db)" "\<forall>t \<in> set (user_totp db). ut_user t \<noteq> uid"
    using assms(1) by (auto simp: totp_bodies deleteRecoveryCodes_def Let_def split: if_splits sum.splits)
  then have "setups_ok (user_totp db') ?R"
  proof cases
    case 1
    have "ut_verified_at t = None"
      if "t \<in> set (sql_update (\<lambda>t. ut_user t = uid) ?f (user_totp db))" "ut_user t = uid" for t
      using that by (elim sql_updateE) simp_all
    then have "codes_iff_verified uid (sql_update (\<lambda>t. ut_user t = uid) ?f (user_totp db)) ?R"
      by (auto simp: codes_iff_verified_def)
    with dR show ?thesis unfolding 1
      by (intro setups_ok_update [OF ok, where uid = uid]) (simp_all add: row_ok_def MaxSetupAttempts_def)
  next
    case 2
    then have "distinct (map ut_user (user_totp db'))"
      using ok by (auto simp: distinct_map_sql_insert setups_ok_def)
    moreover have "row_ok t \<and> ut_verified_at t = None"
      if t: "t \<in> set (user_totp db')" "ut_user t = uid" for t
    proof -
      have "t = ?row" using t 2 by (metis insertE set_sql_insert)
      then show ?thesis by (simp add: row_ok_def MaxSetupAttempts_def)
    qed
    moreover have "t \<in> set (user_totp db') \<longleftrightarrow> t \<in> set (user_totp db)" if "ut_user t \<noteq> uid" for t
      using that 2 by auto
    ultimately show ?thesis
      using dR by (intro setups_ok_account [OF ok, where uid = uid]) (auto simp: codes_iff_verified_def)
  qed
  moreover have "user_recovery_codes db' = ?R"
    using assms(1) by (auto simp: totp_bodies deleteRecoveryCodes_def Let_def split: if_splits sum.splits)
  ultimately show ?thesis by simp
qed

lemma verify_setup_ok:
  assumes body: "verify_setup_body now ids v db = Inr (out, db')" and m: "v_MaxAttempts v = MaxSetupAttempts"
    and ok: "setups_ok (user_totp db) (user_recovery_codes db)"
  shows "setups_ok (user_totp db') (user_recovery_codes db')"
  using body
proof (cases rule: verify_setup_cases)
  case (expired t)
  with setups_ok_row [OF ok expired(1)] show ?thesis
    by (metis deletePendingSetup_ok [OF ok] Enabled_def)
next
  case (wrong t)
  note row = setups_ok_row [OF ok wrong(1)]
  have "setups_ok (sql_update (\<lambda>t. ut_user t = v_UserID v) (\<lambda>t. t\<lparr>ut_attempts := ut_attempts t + 1\<rparr>)
      (user_totp db)) (user_recovery_codes db)"
  proof (rule setups_ok_update [OF ok, where uid = "v_UserID v"])
    show "row_ok (x\<lparr>ut_attempts := ut_attempts x + 1\<rparr>)"
      if "x \<in> set (user_totp db)" "ut_user x = v_UserID v" for x
      using row(4) [OF that] row(3) wrong(4) m by (auto simp: row_ok_def)
    show "codes_iff_verified (v_UserID v) (sql_update (\<lambda>t. ut_user t = v_UserID v)
        (\<lambda>t. t\<lparr>ut_attempts := ut_attempts t + 1\<rparr>) (user_totp db)) (user_recovery_codes db)"
      by (rule codes_iff_update [OF ok]) simp_all
  qed (use ok in \<open>auto simp: setups_ok_def\<close>)
  then show ?thesis by (simp add: wrong(5))
next
  case (revoked t)
  note row = setups_ok_row [OF ok revoked(1)]
  let ?db1 = "db\<lparr>user_totp := sql_update (\<lambda>t. ut_user t = v_UserID v)
         (\<lambda>t. t\<lparr>ut_attempts := ut_attempts t + 1\<rparr>) (user_totp db)\<rparr>"
  have pend: "ut_activated_at x = None" if "x \<in> set (user_totp db)" "ut_user x = v_UserID v" for x
    using row(4) [OF that] revoked(2) by (simp add: Enabled_def)
  have "setups_ok (sql_delete (\<lambda>t. ut_user t = v_UserID v \<and> ut_activated_at t = None) (user_totp db))
      (sql_delete (\<lambda>r. rc_user r = v_UserID v) (user_recovery_codes db))"
    by (rule setups_ok_drop [OF ok]) (use pend in auto)
  moreover have "sql_delete (\<lambda>t. ut_user t = v_UserID v \<and> ut_activated_at t = None) (user_totp ?db1) =
      sql_delete (\<lambda>t. ut_user t = v_UserID v \<and> ut_activated_at t = None) (user_totp db)"
    using pend by (auto simp: sql_delete_def sql_update_def filter_map comp_def cong: filter_cong
        intro!: map_idI)
  ultimately show ?thesis by (simp add: revoked(5) deletePendingSetup_def deleteRecoveryCodes_def)
next
  case (accepted t st)
  note row = setups_ok_row [OF ok accepted(1)] and repl = replaceRecoveryCodes_Inr [OF accepted(5)]
  let ?f = "\<lambda>t. t\<lparr>ut_verified_at := Some (case ut_verified_at t of None \<Rightarrow> now | Some v \<Rightarrow> v),
            ut_last_step := Some st, ut_attempts := 0\<rparr>"
  have T: "user_totp db' = sql_update (\<lambda>t. ut_user t = v_UserID v) ?f (user_totp db)"
    using repl by (simp add: record_verification_def)
  have R: "user_recovery_codes db' = sql_delete (\<lambda>r. rc_user r = v_UserID v) (user_recovery_codes db)
      @ recovery_rows now ids (v_UserID v) (v_RecoveryCodeHashes v)"
    using repl by (simp add: record_verification_def)
  have rows: "recovery_rows now ids (v_UserID v) (v_RecoveryCodeHashes v) \<noteq> []"
    using repl recovery_rows_iff(2) by blast
  then obtain r where "r \<in> set (recovery_rows now ids (v_UserID v) (v_RecoveryCodeHashes v))"
    using last_in_set by blast
  then have "\<exists>r \<in> set (user_recovery_codes db'). rc_user r = v_UserID v"
    using recovery_rows_iff(1) unfolding R set_append by blast
  moreover have "\<exists>t \<in> set (user_totp db'). ut_user t = v_UserID v \<and> ut_verified_at t \<noteq> None"
    unfolding T
    using sql_updateI [where P = "\<lambda>t. ut_user t = v_UserID v" and f = ?f, OF row(1,2)] row(2)
    by (intro bexI [of _ "?f t"]) simp_all
  ultimately have iff: "codes_iff_verified (v_UserID v) (user_totp db') (user_recovery_codes db')"
    by (simp add: codes_iff_verified_def)
  show ?thesis
    unfolding T
  proof (rule setups_ok_update [OF ok, where uid = "v_UserID v"])
    show "row_ok (?f x)" if "x \<in> set (user_totp db)" "ut_user x = v_UserID v" for x
      using row(4) [OF that] accepted(2) by (simp add: row_ok_def Enabled_def MaxSetupAttempts_def)
    show "r \<in> set (user_recovery_codes db') \<longleftrightarrow> r \<in> set (user_recovery_codes db)"
      if "rc_user r \<noteq> v_UserID v" for r
      using that recovery_rows_iff(1) by (auto simp: R)
    show "distinct (map rc_id (user_recovery_codes db'))" using repl by blast
  qed (use iff in \<open>simp_all add: T\<close>)
qed (use ok in simp)

lemma replace_codes_ok:
  assumes body: "replace_codes_body now ids uid hashes db = Inr (x, db')"
    and ok: "setups_ok (user_totp db) (user_recovery_codes db)"
  shows "setups_ok (user_totp db') (user_recovery_codes db')"
proof -
  obtain t where t: "sql_row (\<lambda>t. ut_user t = uid) (user_totp db) = Some t" "Enabled t"
    and r: "replaceRecoveryCodes now ids uid hashes db = Inr (x, db')"
    using body by (auto simp: replace_codes_body_def split: option.splits if_splits)
  note row = setups_ok_row [OF ok t(1)] and repl = replaceRecoveryCodes_Inr [OF r]
  have T: "user_totp db' = user_totp db"
    and R: "user_recovery_codes db' = sql_delete (\<lambda>r. rc_user r = uid) (user_recovery_codes db)
      @ recovery_rows now ids uid hashes"
    using repl by simp_all
  have "recovery_rows now ids uid hashes \<noteq> []" using repl recovery_rows_iff(2) by blast
  then obtain r where "r \<in> set (recovery_rows now ids uid hashes)" using last_in_set by blast
  then have "\<exists>r \<in> set (user_recovery_codes db'). rc_user r = uid"
    using recovery_rows_iff(1) unfolding R set_append by blast
  moreover have "ut_verified_at t \<noteq> None" using row(3) t(2) by (simp add: row_ok_def Enabled_def)
  ultimately have iff: "codes_iff_verified uid (user_totp db') (user_recovery_codes db')"
    using row(1,2) unfolding codes_iff_verified_def T by blast
  show ?thesis
  proof (rule setups_ok_account [OF ok, where uid = uid])
    show "distinct (map rc_id (user_recovery_codes db'))" using repl by blast
    show "r \<in> set (user_recovery_codes db') \<longleftrightarrow> r \<in> set (user_recovery_codes db)" if "rc_user r \<noteq> uid" for r
      using that recovery_rows_iff(1) by (auto simp: R)
  qed (use ok iff in \<open>auto simp: T setups_ok_def\<close>)
qed

lemma activate_ok:
  assumes body: "activate_body now uid db = Inr (x, db')"
    and ok: "setups_ok (user_totp db) (user_recovery_codes db)"
  shows "setups_ok (user_totp db') (user_recovery_codes db')"
proof -
  let ?f = "\<lambda>t. t\<lparr>ut_activated_at := Some now\<rparr>"
  have T: "user_totp db' = sql_update (activatable now uid db) ?f (user_totp db)"
    and R: "user_recovery_codes db' = user_recovery_codes db"
    using body by (auto simp: activate_body_def clear_enrollment_def split: if_splits)
  have "setups_ok (sql_update (activatable now uid db) ?f (user_totp db)) (user_recovery_codes db)"
  proof (rule setups_ok_update [OF ok, where uid = uid])
    show "row_ok (?f t)" if "t \<in> set (user_totp db)" "activatable now uid db t" for t
      using that ok by (auto simp: row_ok_def activatable_def setups_ok_def)
    show "codes_iff_verified uid (sql_update (activatable now uid db) ?f (user_totp db))
        (user_recovery_codes db)"
      by (rule codes_iff_update [OF ok]) simp_all
  qed (use ok in \<open>auto simp: activatable_def setups_ok_def\<close>)
  then show ?thesis by (simp add: T R)
qed

lemma disable_ok:
  assumes body: "disable_body uid db = Inr (x, db')"
    and ok: "setups_ok (user_totp db) (user_recovery_codes db)"
  shows "setups_ok (user_totp db') (user_recovery_codes db')"
proof -
  obtain t where t: "t \<in> set (user_totp db)" "ut_user t = uid" "ut_activated_at t \<noteq> None"
    and db': "user_totp db' = sql_delete (\<lambda>t. ut_user t = uid \<and> ut_activated_at t \<noteq> None) (user_totp db)"
      "user_recovery_codes db' = sql_delete (\<lambda>r. rc_user r = uid) (user_recovery_codes db)"
    using body by (auto simp: disable_body_def deleteRecoveryCodes_def Let_def split: if_splits)
  have "x = t" if "x \<in> set (user_totp db)" "ut_user x = uid" for x
    using ok t that by (auto simp: setups_ok_def intro: distinct_map_inj)
  with t(3) have "ut_activated_at x \<noteq> None" if "x \<in> set (user_totp db)" "ut_user x = uid" for x
    using that by blast
  then show ?thesis unfolding db' by (intro setups_ok_drop [OF ok]) blast+
qed

lemma accept_ok:
  assumes acc: "acceptChallengeCode now att uid secret l db = Inr (b, db')"
    and ok: "setups_ok (user_totp db) (user_recovery_codes db)"
  shows "setups_ok (user_totp db') (user_recovery_codes db') \<and> totp_challenges db' = totp_challenges db \<and>
    sessions db' = sessions db"
  using acc
proof (cases rule: accept_cases)
  case (step check st)
  have "setups_ok (sql_update (\<lambda>t. ut_user t = uid) (\<lambda>t. t\<lparr>ut_last_step := Some st\<rparr>) (user_totp db))
      (user_recovery_codes db)"
  proof (rule setups_ok_update [OF ok, where uid = uid])
    show "codes_iff_verified uid (sql_update (\<lambda>t. ut_user t = uid) (\<lambda>t. t\<lparr>ut_last_step := Some st\<rparr>)
        (user_totp db)) (user_recovery_codes db)"
      by (rule codes_iff_update [OF ok]) simp_all
  qed (use ok in \<open>auto simp: setups_ok_def row_ok_def\<close>)
  then show ?thesis by (simp add: step(4) record_step_def)
next
  case (code m c)
  let ?R = "sql_update (\<lambda>r. rc_id r = rc_id c \<and> rc_used_at r = None)
                 (\<lambda>r. r\<lparr>rc_used_at := Some now\<rparr>) (user_recovery_codes db)"
  have "(\<exists>r \<in> set ?R. rc_user r = u) \<longleftrightarrow> (\<exists>r \<in> set (user_recovery_codes db). rc_user r = u)" for u
    unfolding set_sql_update bex_simps(7) by (intro bex_cong refl) simp
  then have "codes_iff_verified u (user_totp db) ?R" for u
    using ok unfolding setups_ok_def codes_iff_verified_def by simp
  moreover have "distinct (map rc_id ?R)" using ok by (simp add: setups_ok_def map_sql_update_frame)
  ultimately show ?thesis using ok by (simp add: code(8) setups_ok_def)
qed (use ok in simp)

lemma challenges_ok_update:
  assumes "challenges_ok C"
    and "\<And>c. tc_id (f c) = tc_id c \<and> tc_user (f c) = tc_user c \<and> tc_token_hash (f c) = tc_token_hash c"
    and "\<And>c. c \<in> set C \<Longrightarrow> P c \<Longrightarrow> challenge_ok (f c)"
  shows "challenges_ok (sql_update P f C)"
proof -
  have "challenge_ok c" if "c \<in> set (sql_update P f C)" for c
    using that assms(1,3) by (elim sql_updateE) (auto simp: challenges_ok_def)
  with assms(1,2) show ?thesis by (simp add: challenges_ok_def map_sql_update_frame)
qed

lemma consume_ok: "challenges_ok C \<Longrightarrow>
    challenges_ok (sql_update (\<lambda>c. P c \<and> tc_consumed_at c = None) (\<lambda>c. c\<lparr>tc_consumed_at := Some now\<rparr>) C)"
  by (rule challenges_ok_update) (auto simp: challenges_ok_def challenge_ok_def)

lemma create_challenge_ok:
  assumes body: "create_challenge_body now i uid h ttl db = Inr (x, db')"
    and ok: "challenges_ok (totp_challenges db)"
  shows "challenges_ok (totp_challenges db')"
proof -
  let ?f = "\<lambda>c. c\<lparr>tc_token_hash := h, tc_exp := now + ttl, tc_attempts := 0,
                       tc_consumed_at := None, tc_created := now\<rparr>"
  let ?row = "\<lparr>tc_id = i, tc_user = uid, tc_token_hash = h, tc_exp = now + ttl,
                 tc_attempts = 0, tc_consumed_at = None, tc_created = now\<rparr>"
  have free: "\<forall>c \<in> set (totp_challenges db). tc_token_hash c = h \<longrightarrow> tc_user c = uid"
    using body by (auto simp: create_challenge_body_def Let_def split: if_splits)
  consider "totp_challenges db' = sql_update (\<lambda>c. tc_user c = uid) ?f (totp_challenges db)"
    | "totp_challenges db' = sql_insert ?row (totp_challenges db)"
      "\<forall>c \<in> set (totp_challenges db). tc_user c \<noteq> uid \<and> tc_id c \<noteq> i"
    using body by (auto simp: create_challenge_body_def Let_def split: if_splits)
  then show ?thesis
  proof cases
    case 1
    have u: "distinct (map tc_user (totp_challenges db))" and t: "distinct (map tc_token_hash (totp_challenges db))"
      using ok by (simp_all add: challenges_ok_def)
    have "x = y" if xy: "x \<in> set (totp_challenges db)" "y \<in> set (totp_challenges db)"
      and eq: "(if tc_user x = uid then h else tc_token_hash x) = (if tc_user y = uid then h else tc_token_hash y)"
      for x y
    proof (cases "tc_user x = uid \<or> tc_user y = uid")
      case True
      then have "tc_user x = tc_user y" using eq xy free by (auto split: if_splits)
      then show ?thesis using u xy by (auto intro: distinct_map_inj)
    qed (use eq t xy in \<open>auto intro: distinct_map_inj\<close>)
    moreover have "distinct (totp_challenges db)" using u by (simp add: distinct_map)
    ultimately have "distinct (map (\<lambda>c. if tc_user c = uid then h else tc_token_hash c) (totp_challenges db))"
      by (simp add: distinct_map inj_on_def)
    moreover have "map tc_token_hash (totp_challenges db') =
        map (\<lambda>c. if tc_user c = uid then h else tc_token_hash c) (totp_challenges db)"
      by (simp add: 1 sql_update_def)
    moreover have "map tc_id (totp_challenges db') = map tc_id (totp_challenges db)"
      "map tc_user (totp_challenges db') = map tc_user (totp_challenges db)"
      by (simp_all add: 1 map_sql_update_frame)
    moreover have "challenge_ok c" if "c \<in> set (totp_challenges db')" for c
      using that ok unfolding 1 challenges_ok_def
      by (elim sql_updateE) (auto simp: challenge_ok_def MaxChallengeAttempts_def)
    ultimately show ?thesis using ok by (simp add: challenges_ok_def)
  next
    case 2
    then show ?thesis using ok free
      by (auto simp: challenges_ok_def challenge_ok_def distinct_map_sql_insert MaxChallengeAttempts_def)
  qed
qed

section \<open>Runs\<close>

text \<open>
  What an observer can count. A code is accepted at a step (\<open>StepAccepted\<close>) or spends a recovery
  code (\<open>CodeSpent\<close>); a wrong code burns an attempt of the challenge the token names (\<open>Burned\<close>) or
  of the pending setup (\<open>SetupBurned\<close>).
\<close>

datatype totp_event =
    Started uuid
  | SetupBurned uuid
  | StepAccepted uuid int
  | CodesIssued uuid
  | Minted bytes
  | Burned bytes
  | Completed bytes
  | CodeSpent uuid

text \<open>The step the account's row holds.\<close>

definition recorded_step :: "uuid \<Rightarrow> db \<Rightarrow> int" where
  "recorded_step uid db =
     (case sql_row (\<lambda>t. ut_user t = uid) (user_totp db) of
        Some t \<Rightarrow> (case ut_last_step t of Some st \<Rightarrow> st | None \<Rightarrow> 0) | None \<Rightarrow> 0)"

definition verify_events ::
  "uuid \<Rightarrow> store_error + TotpVerifyOutcome \<Rightarrow> db \<Rightarrow> totp_event list" where
  "verify_events uid r db' =
     (case r of Inr TotpVerifyAccepted \<Rightarrow> [StepAccepted uid (recorded_step uid db'), CodesIssued uid]
      | Inr TotpVerifyRejected \<Rightarrow> [SetupBurned uid]
      | Inr TotpVerifyRevoked \<Rightarrow> [SetupBurned uid]
      | _ \<Rightarrow> [])"

definition complete_events ::
  "TotpChallengeAttempt \<Rightarrow> store_error + (user_row \<times> session) option \<times> TotpChallengeOutcome \<Rightarrow> db \<Rightarrow>
   totp_event list" where
  "complete_events att r db' =
     (case r of
        Inr (Some (u, sess), _) \<Rightarrow>
          [Completed (a_TokenHash att),
           if a_CheckCode att = None then CodeSpent (UserID sess)
           else StepAccepted (UserID sess) (recorded_step (UserID sess) db')]
      | Inr (None, TotpChallengeRejected) \<Rightarrow> [Burned (a_TokenHash att)]
      | Inr (None, TotpChallengeRevoked) \<Rightarrow> [Burned (a_TokenHash att)]
      | _ \<Rightarrow> [])"

text \<open>
  One transaction at a clock reading, with what it counts. The handlers pass the caps of the
  \<open>totp\<close> package and a \<open>CheckCode\<close> that is \<^const>\<open>Verify\<close> on the presented code and the wall clock; the
  rest of the server changes sessions by its own steps and may consume challenges
  (\<open>ConsumePasswordReset\<close>), but writes none of the other two tables.
\<close>

definition verify_callback :: "hotp_fun \<Rightarrow> string \<Rightarrow> instant \<Rightarrow> bytes \<Rightarrow> int option \<Rightarrow> int option" where
  "verify_callback hotp code wall = (\<lambda>secret lastUsedStep. Verify hotp secret code wall lastUsedStep)"

inductive totp_step :: "instant \<Rightarrow> totp_event list \<Rightarrow> db \<Rightarrow> db \<Rightarrow> bool" where
  start: "StartTotpSetup now uid secret ttl db = (r, db') \<Longrightarrow>
    totp_step now (if r = Inr () then [Started uid] else []) db db'"
| verify: "VerifyTotpSetup now ids v db = (r, db') \<Longrightarrow> v_MaxAttempts v = MaxSetupAttempts \<Longrightarrow>
    v_CheckCode v = verify_callback hotp code wall \<Longrightarrow>
    totp_step now (verify_events (v_UserID v) r db') db db'"
| activate: "ActivateTotp now uid db = (r, db') \<Longrightarrow> totp_step now [] db db'"
| disable: "DisableTotp uid db = (r, db') \<Longrightarrow> totp_step now [] db db'"
| replace: "ReplaceRecoveryCodes now ids uid hashes db = (r, db') \<Longrightarrow>
    totp_step now (if r = Inr () then [CodesIssued uid] else []) db db'"
| mint: "CreateTotpChallenge now newID uid h ttl db = (r, db') \<Longrightarrow>
    totp_step now (if r = Inr () then [Minted h] else []) db db'"
| complete: "CompleteTotpChallenge now newID newFamily att db = (r, db') \<Longrightarrow>
    newFamily \<notin> s_family ` set (sessions db) \<Longrightarrow> a_MaxAttempts att = MaxChallengeAttempts \<Longrightarrow>
    (\<forall>check. a_CheckCode att = Some check \<longrightarrow> (\<exists>hotp code wall. check = verify_callback hotp code wall)) \<Longrightarrow>
    totp_step now (complete_events att r db') db db'"
| other: "session_step now db db' \<Longrightarrow> user_totp db' = user_totp db \<Longrightarrow>
    user_recovery_codes db' = user_recovery_codes db \<Longrightarrow>
    totp_challenges db' = sql_update (\<lambda>c. P c \<and> tc_consumed_at c = None)
      (\<lambda>c. c\<lparr>tc_consumed_at := Some now\<rparr>) (totp_challenges db) \<Longrightarrow>
    totp_step now [] db db'"

inductive totp_trace :: "db \<Rightarrow> totp_event list \<Rightarrow> db \<Rightarrow> bool" for db where
  start: "totp_trace db [] db"
| step: "totp_trace db es db1 \<Longrightarrow> totp_step now e db1 db2 \<Longrightarrow> totp_trace db (es @ e) db2"

lemmas totp_ops = StartTotpSetup_def VerifyTotpSetup_def ActivateTotp_def DisableTotp_def
  ReplaceRecoveryCodes_def CreateTotpChallenge_def CompleteTotpChallenge_def

text \<open>
  A step that reports an error rolled back: it counts nothing and changes nothing. Every proof
  about steps is by these cases.
\<close>

lemma insertSessionFamily_Inr:
  "insertSessionFamily now i f uid t db = Inr (sess, db') \<Longrightarrow>
     UserID sess = uid \<and> FamilyID sess = f \<and>
     db' = db\<lparr>sessions := sessions db @
       [next_row now i uid f t (require_totp (org_settings db)) db]\<rparr>"
  unfolding insertSessionFamily_def
  by (drule insert_session_Inr) (simp add: scanSession_def next_row_def)

lemma totp_step_cases:
  assumes "totp_step now es db db'"
  obtains (same) "es = []" "db' = db"
  | (start) uid secret ttl x where "start_setup_body now uid secret ttl db = Inr (x, db')" "es = [Started uid]"
  | (verify) ids v out hotp code wall where "verify_setup_body now ids v db = Inr (out, db')"
      "v_MaxAttempts v = MaxSetupAttempts" "v_CheckCode v = verify_callback hotp code wall"
      "es = verify_events (v_UserID v) (Inr out) db'"
  | (activate) uid x where "activate_body now uid db = Inr (x, db')" "es = []"
  | (disable) uid x where "disable_body uid db = Inr (x, db')" "es = []"
  | (replace) ids uid hashes x where "replace_codes_body now ids uid hashes db = Inr (x, db')"
      "es = [CodesIssued uid]"
  | (mint) i uid h ttl x where "create_challenge_body now i uid h ttl db = Inr (x, db')" "es = [Minted h]"
  | (complete) i f att so out where "complete_body now i f att db = Inr ((so, out), db')"
      "f \<notin> s_family ` set (sessions db)" "a_MaxAttempts att = MaxChallengeAttempts"
      "\<forall>check. a_CheckCode att = Some check \<longrightarrow> (\<exists>hotp code wall. check = verify_callback hotp code wall)"
      "es = complete_events att (Inr (so, out)) db'"
  | (other) P where "session_step now db db'" "user_totp db' = user_totp db"
      "user_recovery_codes db' = user_recovery_codes db"
      "totp_challenges db' = sql_update (\<lambda>c. P c \<and> tc_consumed_at c = None)
         (\<lambda>c. c\<lparr>tc_consumed_at := Some now\<rparr>) (totp_challenges db)" "es = []"
  using assms
proof cases
  case (start uid secret ttl r)
  then show ?thesis using that(1,2) by (cases r) (simp_all add: totp_ops)
next
  case (verify ids v r hotp code wall)
  then show ?thesis using that(1,3) by (cases r) (simp_all add: totp_ops verify_events_def)
next
  case (activate uid r)
  then show ?thesis using that(1,4) by (cases r) (simp_all add: totp_ops)
next
  case (disable uid r)
  then show ?thesis using that(1,5) by (cases r) (simp_all add: totp_ops)
next
  case (replace ids uid hashes r)
  then show ?thesis using that(1,6) by (cases r) (simp_all add: totp_ops)
next
  case (mint i uid h ttl r)
  then show ?thesis using that(1,7) by (cases r) (simp_all add: totp_ops)
next
  case (complete i f att r)
  show ?thesis
  proof (cases r)
    case (Inl e)
    with complete that(1) show ?thesis by (simp add: totp_ops complete_events_def)
  next
    case (Inr x)
    with complete that(8) show ?thesis by (cases x) (simp add: totp_ops)
  qed
next
  case (other P)
  show ?thesis by (rule that(9) [OF other(2-5,1)])
qed

text \<open>What each transaction leaves alone.\<close>

lemma setup_frame:
  "start_setup_body now uid secret ttl db = Inr (x, db') \<Longrightarrow>
     totp_challenges db' = totp_challenges db \<and> sessions db' = sessions db"
  "verify_setup_body now ids v db = Inr (out, db') \<Longrightarrow>
     totp_challenges db' = totp_challenges db \<and> sessions db' = sessions db"
  "replace_codes_body now ids u hashes db = Inr (y, db') \<Longrightarrow>
     totp_challenges db' = totp_challenges db \<and> sessions db' = sessions db \<and> user_totp db' = user_totp db"
proof -
  show "start_setup_body now uid secret ttl db = Inr (x, db') \<Longrightarrow>
     totp_challenges db' = totp_challenges db \<and> sessions db' = sessions db"
    by (auto simp: totp_bodies deleteRecoveryCodes_def Let_def split: if_splits sum.splits)
  show "totp_challenges db' = totp_challenges db \<and> sessions db' = sessions db"
    if "verify_setup_body now ids v db = Inr (out, db')"
    using that by (cases rule: verify_setup_cases)
      (auto simp: deletePendingSetup_def deleteRecoveryCodes_def record_verification_def
        dest!: replaceRecoveryCodes_Inr)
  show "replace_codes_body now ids u hashes db = Inr (y, db') \<Longrightarrow>
     totp_challenges db' = totp_challenges db \<and> sessions db' = sessions db \<and> user_totp db' = user_totp db"
    by (auto simp: replace_codes_body_def dest!: replaceRecoveryCodes_Inr split: option.splits if_splits)
qed

lemma mint_frame:
  "create_challenge_body now i uid h ttl db = Inr (x, db') \<Longrightarrow>
     user_totp db' = user_totp db \<and> user_recovery_codes db' = user_recovery_codes db \<and> sessions db' = sessions db"
  by (auto simp: create_challenge_body_def Let_def split: if_splits)

lemma consume_frame [simp]:
  "user_totp (consumeChallenge now i db) = user_totp db"
  "user_recovery_codes (consumeChallenge now i db) = user_recovery_codes db"
  "sessions (consumeChallenge now i db) = sessions db"
  by (simp_all add: consumeChallenge_def)

lemma challenge_same:
  "challenges_ok C \<Longrightarrow> c \<in> set C \<Longrightarrow> x \<in> set C \<Longrightarrow> tc_id x = tc_id c \<Longrightarrow> x = c"
  by (auto simp: challenges_ok_def intro: distinct_map_inj)

lemma revoke_challenge_rows:
  assumes "challenges_ok (totp_challenges db)" and "c \<in> set (totp_challenges db)" and "tc_consumed_at c = None"
  shows "totp_challenges (consumeChallenge now (tc_id c) (db\<lparr>totp_challenges :=
           sql_update (\<lambda>x. tc_id x = tc_id c) (\<lambda>x. x\<lparr>tc_attempts := tc_attempts x + 1\<rparr>) (totp_challenges db)\<rparr>)) =
         sql_update (\<lambda>x. tc_id x = tc_id c)
           (\<lambda>x. x\<lparr>tc_attempts := tc_attempts x + 1, tc_consumed_at := Some now\<rparr>) (totp_challenges db)"
proof -
  have "tc_consumed_at x = None" if "x \<in> set (totp_challenges db)" "tc_id x = tc_id c" for x
    using challenge_same [OF assms(1,2) that] assms(3) by simp
  then show ?thesis by (auto simp: consumeChallenge_def sql_update_def)
qed

lemma complete_ok:
  assumes body: "complete_body now i f att db = Inr ((so, out), db')" and inv: "totp_inv db"
    and m: "a_MaxAttempts att = MaxChallengeAttempts"
  shows "totp_inv db'"
proof -
  have C: "challenges_ok (totp_challenges db)" and S: "setups_ok (user_totp db) (user_recovery_codes db)"
    using inv by (simp_all add: totp_inv_def)
  then have d: "distinct (map tc_id (totp_challenges db))" by (simp add: challenges_ok_def)
  let ?bump = "\<lambda>c. sql_update (\<lambda>x. tc_id x = tc_id c) (\<lambda>x. x\<lparr>tc_attempts := tc_attempts x + 1\<rparr>) (totp_challenges db)"
  from body d show ?thesis
  proof (cases rule: complete_cases)
    case (off c)
    then show ?thesis using S consume_ok [OF C] by (simp add: totp_inv_def consumeChallenge_def)
  next
    case (wrong c)
    have "challenges_ok (?bump c)"
      by (rule challenges_ok_update [OF C])
         (use C challenge_same [OF C wrong(3)] wrong(5) m in \<open>auto simp: challenges_ok_def challenge_ok_def\<close>)
    then show ?thesis using S by (simp add: totp_inv_def wrong(6))
  next
    case (revoked c)
    let ?f = "\<lambda>x. x\<lparr>tc_attempts := tc_attempts x + 1, tc_consumed_at := Some now\<rparr>"
    have "totp_challenges db' = sql_update (\<lambda>x. tc_id x = tc_id c) ?f (totp_challenges db)"
      using revoke_challenge_rows [OF C revoked(3)] revoked(4) by (simp add: revoked(5))
    moreover have "challenges_ok (sql_update (\<lambda>x. tc_id x = tc_id c) ?f (totp_challenges db))"
      by (rule challenges_ok_update [OF C]) (use C in \<open>auto simp: challenges_ok_def challenge_ok_def\<close>)
    ultimately show ?thesis using S by (simp add: totp_inv_def revoked(5))
  next
    case (completed c t db1 u sess)
    have "setups_ok (user_totp db1) (user_recovery_codes db1)" "totp_challenges db1 = totp_challenges db"
      using accept_ok [OF completed(8) S] by auto
    with insertSessionFamily_Inr [OF completed(9)] consume_ok [OF C] show ?thesis
      by (simp add: totp_inv_def consumeChallenge_def)
  qed (use inv in simp)
qed

lemma totp_inv_step:
  assumes "totp_step now es db db'" and inv: "totp_inv db"
  shows "totp_inv db'"
proof -
  have C: "challenges_ok (totp_challenges db)" and S: "setups_ok (user_totp db) (user_recovery_codes db)"
    using inv by (simp_all add: totp_inv_def)
  from assms(1) show ?thesis
  proof (cases rule: totp_step_cases)
    case start
    then show ?thesis using start_setup_ok [OF start(1) S] setup_frame(1) [OF start(1)] C by (simp add: totp_inv_def)
  next
    case verify
    then show ?thesis using verify_setup_ok [OF verify(1,2) S] setup_frame(2) [OF verify(1)] C
      by (simp add: totp_inv_def)
  next
    case activate
    then have "totp_challenges db' = totp_challenges db"
      by (auto simp: activate_body_def clear_enrollment_def split: if_splits)
    then show ?thesis using activate_ok [OF activate(1) S] C by (simp add: totp_inv_def)
  next
    case (disable uid x)
    then have "totp_challenges db' = sql_delete (\<lambda>c. tc_user c = uid) (totp_challenges db)"
      by (auto simp: disable_body_def deleteRecoveryCodes_def Let_def split: if_splits)
    with C have "challenges_ok (totp_challenges db')"
      by (simp add: challenges_ok_def distinct_map_sql_delete)
    then show ?thesis using disable_ok [OF disable(1) S] by (simp add: totp_inv_def)
  next
    case replace
    then show ?thesis using replace_codes_ok [OF replace(1) S] setup_frame(3) [OF replace(1)] C
      by (simp add: totp_inv_def)
  next
    case mint
    then show ?thesis using create_challenge_ok [OF mint(1) C] mint_frame [OF mint(1)] S
      by (simp add: totp_inv_def)
  next
    case complete
    then show ?thesis using complete_ok inv by blast
  next
    case other
    then show ?thesis using consume_ok [OF C] S by (simp add: totp_inv_def)
  qed (use inv in simp)
qed

lemma totp_inv_trace: "totp_trace db es db' \<Longrightarrow> totp_inv db \<Longrightarrow> totp_inv db'"
  by (induction rule: totp_trace.induct) (auto intro: totp_inv_step)

section \<open>Counting\<close>

text \<open>The wrong codes a challenge token still has, and what a trace counts against it.\<close>

definition budget :: "bytes \<Rightarrow> challenge_row list \<Rightarrow> nat" where
  "budget h C = (case sql_row (\<lambda>c. tc_token_hash c = h \<and> tc_consumed_at c = None) C of
     None \<Rightarrow> 0 | Some c \<Rightarrow> nat (MaxChallengeAttempts - tc_attempts c))"

definition tries :: "bytes \<Rightarrow> totp_event list \<Rightarrow> nat" where
  "tries h es = length (filter (\<lambda>e. e = Burned h \<or> e = Completed h) es)"

lemma tries_simps [simp]: "tries h [] = 0" "tries h (es @ fs) = tries h es + tries h fs"
  by (simp_all add: tries_def)

lemma budget_row:
  assumes "challenges_ok C" and "c \<in> set C" and "tc_token_hash c = h" and "tc_consumed_at c = None"
  shows "budget h C = nat (MaxChallengeAttempts - tc_attempts c)"
proof (cases "sql_row (\<lambda>c. tc_token_hash c = h \<and> tc_consumed_at c = None) C")
  case None
  with assms show ?thesis by (auto simp: sql_row_None_iff)
next
  case (Some x)
  with sql_row_Some_iff [OF Some] assms have "x = c"
    by (auto simp: challenges_ok_def intro: distinct_map_inj)
  with Some show ?thesis by (simp add: budget_def)
qed

lemma budget_none:
  assumes "\<And>c. c \<in> set C \<Longrightarrow> tc_token_hash c = h \<Longrightarrow> tc_consumed_at c \<noteq> None"
  shows "budget h C = 0"
proof -
  have "sql_row (\<lambda>c. tc_token_hash c = h \<and> tc_consumed_at c = None) C = None"
    using assms by (auto simp: sql_row_None_iff)
  then show ?thesis by (simp add: budget_def)
qed

lemma budget_mono:
  assumes ok: "challenges_ok C"
    and src: "\<And>c'. c' \<in> set C' \<Longrightarrow> tc_token_hash c' = h \<Longrightarrow> tc_consumed_at c' = None \<Longrightarrow>
      \<exists>c \<in> set C. tc_token_hash c = h \<and> tc_consumed_at c = None \<and> tc_attempts c \<le> tc_attempts c'"
  shows "budget h C' \<le> budget h C"
proof (cases "sql_row (\<lambda>c. tc_token_hash c = h \<and> tc_consumed_at c = None) C'")
  case (Some c')
  then obtain c where c: "c \<in> set C" "tc_token_hash c = h" "tc_consumed_at c = None" "tc_attempts c \<le> tc_attempts c'"
    using src sql_row_Some_iff [OF Some] by blast
  from budget_row [OF ok c(1-3)] c(4) Some show ?thesis by (simp add: budget_def)
qed (simp add: budget_def)

lemma budget_update:
  assumes "challenges_ok C"
    and "\<And>c. tc_token_hash (f c) = tc_token_hash c \<and> tc_attempts c \<le> tc_attempts (f c) \<and>
      (tc_consumed_at (f c) = None \<longrightarrow> tc_consumed_at c = None)"
  shows "budget h (sql_update P f C) \<le> budget h C"
proof (rule budget_mono [OF assms(1)])
  fix c' assume "c' \<in> set (sql_update P f C)" "tc_token_hash c' = h" "tc_consumed_at c' = None"
  then show "\<exists>c \<in> set C. tc_token_hash c = h \<and> tc_consumed_at c = None \<and> tc_attempts c \<le> tc_attempts c'"
    using assms(2) by (elim sql_updateE) auto
qed

lemma consumed_budget:
  assumes ok: "challenges_ok C" and c: "c \<in> set C" "tc_token_hash c = h" "P c"
    and f: "\<And>x. tc_consumed_at (f x) \<noteq> None"
  shows "budget h (sql_update P f C) = 0"
proof (rule budget_none)
  fix x assume "x \<in> set (sql_update P f C)" and h: "tc_token_hash x = h"
  then show "tc_consumed_at x \<noteq> None"
  proof (cases rule: sql_updateE)
    case kept
    then have "x = c" using ok c h by (auto simp: challenges_ok_def intro: distinct_map_inj)
    with kept c(3) show ?thesis by simp
  qed (use f in simp)
qed

lemma complete_tries:
  assumes body: "complete_body now i f att db = Inr ((so, out), db')" and inv: "totp_inv db"
    and m: "a_MaxAttempts att = MaxChallengeAttempts"
  shows "tries h (complete_events att (Inr (so, out)) db') + budget h (totp_challenges db')
           \<le> budget h (totp_challenges db) \<and>
         (Completed h \<in> set (complete_events att (Inr (so, out)) db') \<longrightarrow> budget h (totp_challenges db') = 0)"
proof -
  have C: "challenges_ok (totp_challenges db)" and S: "setups_ok (user_totp db) (user_recovery_codes db)"
    using inv by (simp_all add: totp_inv_def)
  then have d: "distinct (map tc_id (totp_challenges db))" by (simp add: challenges_ok_def)
  have C': "challenges_ok (totp_challenges db')" using complete_ok [OF body inv m] by (simp add: totp_inv_def)
  let ?g = "\<lambda>x. x\<lparr>tc_attempts := tc_attempts x + 1\<rparr>"
  have live: "budget (a_TokenHash att) (totp_challenges db) = nat (MaxChallengeAttempts - tc_attempts c)"
    "tc_attempts c < MaxChallengeAttempts"
    if "c \<in> set (totp_challenges db)" "live_challenge now att c" for c
    using budget_row [OF C that(1)] that(2) m by auto
  from body d show ?thesis
  proof (cases rule: complete_cases)
    case none
    then show ?thesis by (simp add: complete_events_def)
  next
    case (off c)
    then show ?thesis using budget_update [OF C]
      by (simp add: complete_events_def consumeChallenge_def)
  next
    case (wrong c)
    have mono: "budget h (totp_challenges db') \<le> budget h (totp_challenges db)"
      by (simp add: wrong(6) budget_update [OF C])
    have "?g c \<in> set (totp_challenges db')" using wrong(3) sql_updateI [of c _ "\<lambda>x. tc_id x = tc_id c" ?g]
      by (simp add: wrong(6))
    from budget_row [OF C' this] wrong(4) live [OF wrong(3,4)]
    have "Suc (budget (a_TokenHash att) (totp_challenges db')) = budget (a_TokenHash att) (totp_challenges db)"
      by (simp add: Suc_nat_eq_nat_zadd1 algebra_simps)
    with mono show ?thesis by (auto simp: wrong(1,2) complete_events_def tries_def)
  next
    case (revoked c)
    have eq: "totp_challenges db' = sql_update (\<lambda>x. tc_id x = tc_id c)
        (\<lambda>x. x\<lparr>tc_attempts := tc_attempts x + 1, tc_consumed_at := Some now\<rparr>) (totp_challenges db)"
      using revoke_challenge_rows [OF C revoked(3)] revoked(4) by (simp add: revoked(5))
    have zero: "budget (a_TokenHash att) (totp_challenges db') = 0"
      unfolding eq by (rule consumed_budget [OF C revoked(3)]) (use revoked(4) in simp_all)
    have mono: "budget h (totp_challenges db') \<le> budget h (totp_challenges db)"
      unfolding eq by (rule budget_update [OF C]) simp
    have "0 < budget (a_TokenHash att) (totp_challenges db)" using live [OF revoked(3,4)] by simp
    with mono zero show ?thesis by (auto simp: revoked(1,2) complete_events_def tries_def)
  next
    case (completed c t db1 u sess)
    have "totp_challenges db1 = totp_challenges db" using accept_ok [OF completed(8) S] by simp
    then have eq: "totp_challenges db' = sql_update (\<lambda>x. tc_id x = tc_id c \<and> tc_consumed_at x = None)
        (\<lambda>x. x\<lparr>tc_consumed_at := Some now\<rparr>) (totp_challenges db)"
      using insertSessionFamily_Inr [OF completed(9)] by (simp add: consumeChallenge_def)
    have "budget h (totp_challenges db') \<le> budget h (totp_challenges db)"
      unfolding eq by (rule budget_update [OF C]) simp
    moreover have "budget (a_TokenHash att) (totp_challenges db') = 0"
      unfolding eq by (rule consumed_budget [OF C completed(3)]) (use completed(4) in simp_all)
    moreover have "0 < budget (a_TokenHash att) (totp_challenges db)"
      using live [OF completed(3,4)] by simp
    ultimately show ?thesis by (auto simp: completed(1,2) complete_events_def tries_def)
  qed
qed

lemma budget_delete: "challenges_ok C \<Longrightarrow> budget h (sql_delete P C) \<le> budget h C"
  by (rule budget_mono) auto

lemma mint_budget:
  assumes body: "create_challenge_body now i uid h' ttl db = Inr (x, db')" and "h' \<noteq> h"
    and ok: "challenges_ok (totp_challenges db)"
  shows "budget h (totp_challenges db') \<le> budget h (totp_challenges db)"
proof (rule budget_mono [OF ok])
  fix c' assume c': "c' \<in> set (totp_challenges db')" "tc_token_hash c' = h"  "tc_consumed_at c' = None"
  have "c' \<in> set (totp_challenges db)"
    using body c'(1,2) assms(2)
    by (auto simp: create_challenge_body_def Let_def split: if_splits elim!: sql_updateE)
  with c' show "\<exists>c \<in> set (totp_challenges db). tc_token_hash c = h \<and> tc_consumed_at c = None \<and>
      tc_attempts c \<le> tc_attempts c'"
    by blast
qed

lemma verify_events_quiet:
  "tries h (verify_events uid r db) = 0 \<and> Completed h \<notin> set (verify_events uid r db) \<and>
   Minted h \<notin> set (verify_events uid r db) \<and> CodeSpent u \<notin> set (verify_events uid r db) \<and>
   Started u \<notin> set (verify_events uid r db)"
  by (auto simp: verify_events_def tries_def split: sum.splits TotpVerifyOutcome.splits)

lemma step_tries:
  assumes "totp_step now es db db'" and inv: "totp_inv db" and "Minted h \<notin> set es"
  shows "tries h es + budget h (totp_challenges db') \<le> budget h (totp_challenges db) \<and>
         (Completed h \<in> set es \<longrightarrow> budget h (totp_challenges db') = 0)"
proof -
  have C: "challenges_ok (totp_challenges db)" using inv by (simp add: totp_inv_def)
  from assms(1) show ?thesis
  proof (cases rule: totp_step_cases)
    case (start uid secret ttl x)
    then show ?thesis using setup_frame(1) [OF start(1)] by (simp add: tries_def)
  next
    case verify
    then show ?thesis using setup_frame(2) [OF verify(1)] verify_events_quiet by simp
  next
    case (activate uid x)
    then have "totp_challenges db' = totp_challenges db"
      by (auto simp: activate_body_def clear_enrollment_def split: if_splits)
    then show ?thesis by (simp add: activate(2))
  next
    case (disable uid x)
    then have "totp_challenges db' = sql_delete (\<lambda>c. tc_user c = uid) (totp_challenges db)"
      by (auto simp: disable_body_def deleteRecoveryCodes_def Let_def split: if_splits)
    then show ?thesis by (simp add: disable(2) budget_delete [OF C])
  next
    case replace
    then show ?thesis using setup_frame(3) [OF replace(1)] by (simp add: tries_def)
  next
    case (mint i uid h' ttl x)
    then show ?thesis using mint_budget [OF mint(1) _ C] assms(3) by (auto simp: tries_def)
  next
    case complete
    then show ?thesis using complete_tries [OF complete(1) inv complete(3)] by simp
  next
    case other
    then show ?thesis by (simp add: budget_update [OF C])
  qed simp
qed

lemma trace_tries:
  assumes "totp_trace db es db'" and "totp_inv db" and "Minted h \<notin> set es"
  shows "tries h es + budget h (totp_challenges db') \<le> budget h (totp_challenges db) \<and>
         (Completed h \<in> set es \<longrightarrow> budget h (totp_challenges db') = 0) \<and>
         length (filter (\<lambda>e. e = Completed h) es) \<le> 1"
  using assms
proof (induction rule: totp_trace.induct)
  case (step es db1 now e db2)
  then have IH: "tries h es + budget h (totp_challenges db1) \<le> budget h (totp_challenges db)"
      "Completed h \<in> set es \<longrightarrow> budget h (totp_challenges db1) = 0"
      "length (filter (\<lambda>e. e = Completed h) es) \<le> 1"
    by auto
  have inv: "totp_inv db1" using step totp_inv_trace by blast
  have st: "tries h e + budget h (totp_challenges db2) \<le> budget h (totp_challenges db1)"
      "Completed h \<in> set e \<longrightarrow> budget h (totp_challenges db2) = 0"
    using step_tries [OF step(2) inv] step.prems(2) by auto
  have le: "length (filter (\<lambda>e. e = Completed h) e) \<le> tries h e"
    unfolding tries_def by (induction e) auto
  have one: "length (filter (\<lambda>e. e = Completed h) e) \<le> 1"
    using step(2) by (cases rule: totp_step.cases)
      (auto simp: verify_events_def complete_events_def split: sum.splits TotpVerifyOutcome.splits
        option.splits prod.splits TotpChallengeOutcome.splits)
  have "filter (\<lambda>e. e = Completed h) es = []" if "Completed h \<notin> set es"
    using that by (auto simp: filter_empty_conv)
  then have "length (filter (\<lambda>e. e = Completed h) (es @ e)) \<le> 1"
    using IH(2,3) st(1) le one by (cases "Completed h \<in> set es") simp_all
  with IH st show ?case by auto
qed simp

subsection \<open>Accepted steps\<close>

fun steps_of :: "uuid \<Rightarrow> totp_event list \<Rightarrow> int list" where
  "steps_of uid [] = []"
| "steps_of uid (StepAccepted u st # es) = (if u = uid then st # steps_of uid es else steps_of uid es)"
| "steps_of uid (_ # es) = steps_of uid es"

lemma steps_of_append [simp]: "steps_of uid (es @ fs) = steps_of uid es @ steps_of uid fs"
  by (induction uid es rule: steps_of.induct) simp_all

text \<open>Every row of the account has recorded a step at least \<open>st\<close>.\<close>

definition reached :: "uuid \<Rightarrow> int \<Rightarrow> totp_row list \<Rightarrow> bool" where
  "reached uid st T \<longleftrightarrow> (\<forall>t \<in> set T. ut_user t = uid \<longrightarrow> (\<exists>l. ut_last_step t = Some l \<and> st \<le> l))"

lemma callback_advances: "verify_callback hotp code wall secret (Some l) = Some st \<Longrightarrow> l < st"
  using totp.advances [of "(hotp, secret, code, wall)" l st] by (simp add: verify_callback_def)

lemma reached_keep:
  "(\<And>t'. t' \<in> set T' \<Longrightarrow> ut_user t' = uid \<Longrightarrow> \<exists>t \<in> set T. ut_user t = uid \<and> ut_last_step t' = ut_last_step t) \<Longrightarrow>
   reached uid st T \<Longrightarrow> reached uid st T'"
  unfolding reached_def by metis

lemma reached_update:
  assumes "reached uid st T"
    and "\<And>t. ut_user (f t) = ut_user t \<and> ut_last_step (f t) = ut_last_step t"
  shows "reached uid st (sql_update P f T)"
  by (rule reached_keep [OF _ assms(1)]) (use assms(2) in \<open>auto elim!: sql_updateE\<close>)

lemma reached_delete: "reached uid st T \<Longrightarrow> reached uid st (sql_delete P T)"
  by (auto simp: reached_def)

text \<open>Recording a step the callback accepted moves the account past everything reached before.\<close>

lemma reached_record:
  assumes t: "t \<in> set T" "ut_user t = uid"
    and acc: "verify_callback hotp code wall secret (ut_last_step t) = Some st"
    and f: "\<And>t. ut_user (f t) = ut_user t \<and> ut_last_step (f t) = Some st"
  shows "reached u x T \<Longrightarrow> reached u x (sql_update (\<lambda>t. ut_user t = uid) f T)"
    and "reached uid st (sql_update (\<lambda>t. ut_user t = uid) f T)"
    and "reached uid x T \<Longrightarrow> x < st"
proof -
  show lt: "x < st" if "reached uid x T" for x
    using that t acc callback_advances unfolding reached_def by fastforce
  show "reached uid st (sql_update (\<lambda>t. ut_user t = uid) f T)"
    using f by (auto simp: reached_def elim!: sql_updateE)
  show "reached u x (sql_update (\<lambda>t. ut_user t = uid) f T)" if "reached u x T"
    unfolding reached_def
  proof (intro ballI impI)
    fix t' assume t': "t' \<in> set (sql_update (\<lambda>t. ut_user t = uid) f T)" "ut_user t' = u"
    from t'(1) show "\<exists>l. ut_last_step t' = Some l \<and> x \<le> l"
    proof (cases rule: sql_updateE)
      case (changed y)
      with t'(2) f have "u = uid" by simp
      with lt that have "x < st" by blast
      with changed f show ?thesis by auto
    qed (use that t'(2) in \<open>auto simp: reached_def\<close>)
  qed
qed

lemma recorded_step_eq:
  assumes "user_totp db = sql_update (\<lambda>t. ut_user t = uid) f T" and "t \<in> set T" "ut_user t = uid"
    and "\<And>t. ut_user (f t) = ut_user t \<and> ut_last_step (f t) = Some st"
  shows "recorded_step uid db = st"
proof -
  have "sql_row (\<lambda>t. ut_user t = uid) T \<noteq> None" using assms(2,3) by (auto simp: sql_row_None_iff)
  with assms(1,4) show ?thesis by (auto simp: recorded_step_def sql_row_sql_update)
qed

text \<open>What one transaction does to the steps of an account that starts no new setup.\<close>

definition advances_account :: "uuid \<Rightarrow> totp_event list \<Rightarrow> totp_row list \<Rightarrow> totp_row list \<Rightarrow> bool" where
  "advances_account uid es T T' \<longleftrightarrow> (\<forall>x. reached uid x T \<longrightarrow> reached uid x T') \<and>
     (steps_of uid es = [] \<or>
      (\<exists>st. steps_of uid es = [st] \<and> reached uid st T' \<and> (\<forall>x. reached uid x T \<longrightarrow> x < st)))"

lemma advances_record:
  assumes "t \<in> set T" "ut_user t = u" "verify_callback hotp code wall secret (ut_last_step t) = Some st"
    and f: "\<And>t. ut_user (f t) = ut_user t \<and> ut_last_step (f t) = Some st"
    and es: "steps_of uid es = (if u = uid then [st] else [])"
  shows "advances_account uid es T (sql_update (\<lambda>t. ut_user t = u) f T)"
  using reached_record [OF assms(1-3), of f] f es unfolding advances_account_def by auto

lemma verify_advances:
  assumes body: "verify_setup_body now ids v db = Inr (out, db')"
    and cb: "v_CheckCode v = verify_callback hotp code wall"
  shows "advances_account uid (verify_events (v_UserID v) (Inr out) db') (user_totp db) (user_totp db')"
  using body
proof (cases rule: verify_setup_cases)
  case (accepted t st)
  let ?f = "\<lambda>t. t\<lparr>ut_verified_at := Some (case ut_verified_at t of None \<Rightarrow> now | Some v \<Rightarrow> v),
            ut_last_step := Some st, ut_attempts := 0\<rparr>"
  have T: "user_totp db' = sql_update (\<lambda>t. ut_user t = v_UserID v) ?f (user_totp db)"
    using replaceRecoveryCodes_Inr [OF accepted(5)] by (simp add: record_verification_def)
  have t: "t \<in> set (user_totp db)" "ut_user t = v_UserID v" using sql_row_Some_iff [OF accepted(1)] by auto
  have "recorded_step (v_UserID v) db' = st" by (rule recorded_step_eq [OF T t]) simp
  then show ?thesis
    using advances_record [OF t, of hotp code wall "ut_secret t" st ?f] accepted(3,4) cb
    by (simp add: T verify_events_def)
qed (auto simp: advances_account_def verify_events_def deletePendingSetup_def deleteRecoveryCodes_def
    intro!: reached_update reached_delete)

lemma complete_advances:
  assumes body: "complete_body now i f att db = Inr ((so, out), db')"
    and d: "distinct (map tc_id (totp_challenges db))"
    and cb: "\<forall>check. a_CheckCode att = Some check \<longrightarrow> (\<exists>hotp code wall. check = verify_callback hotp code wall)"
  shows "advances_account uid (complete_events att (Inr (so, out)) db') (user_totp db) (user_totp db')"
  using body d
proof (cases rule: complete_cases)
  case (completed c t db1 u sess)
  note ins = insertSessionFamily_Inr [OF completed(9)]
  from completed(8) show ?thesis
  proof (cases rule: accept_cases)
    case (step check st)
    obtain hotp code wall where check: "check = verify_callback hotp code wall" using cb step(2) by blast
    have T: "user_totp db' = sql_update (\<lambda>t. ut_user t = tc_user c) (\<lambda>t. t\<lparr>ut_last_step := Some st\<rparr>) (user_totp db)"
      using ins by (simp add: step(4) record_step_def)
    have "recorded_step (tc_user c) db' = st" by (rule recorded_step_eq [OF T completed(5,6)]) simp
    then have "steps_of uid (complete_events att (Inr (so, out)) db') = (if tc_user c = uid then [st] else [])"
      using ins by (simp add: complete_events_def completed(1) step(2))
    with advances_record [OF completed(5,6), of hotp code wall "ut_secret t" st] step(3) check
    show ?thesis by (simp add: T)
  next
    case (code m r)
    then show ?thesis using ins by (simp add: advances_account_def complete_events_def completed(1))
  qed simp
qed (auto simp: advances_account_def complete_events_def)

lemma step_advances:
  assumes "totp_step now es db db'" and inv: "totp_inv db" and "Started uid \<notin> set es"
  shows "advances_account uid es (user_totp db) (user_totp db')"
  using assms(1)
proof (cases rule: totp_step_cases)
  case (start u secret ttl x)
  with assms(3) have "u \<noteq> uid" by simp
  then have "reached uid st (user_totp db')" if "reached uid st (user_totp db)" for st
    using start(1) that
    by (intro reached_keep [OF _ that])
       (auto simp: totp_bodies deleteRecoveryCodes_def Let_def split: if_splits sum.splits elim!: sql_updateE)
  then show ?thesis by (simp add: advances_account_def start(2))
next
  case verify
  then show ?thesis using verify_advances by simp
next
  case activate
  then show ?thesis
    by (auto simp: advances_account_def activate_body_def clear_enrollment_def
        split: if_splits intro!: reached_update)
next
  case disable
  then show ?thesis
    by (auto simp: advances_account_def disable_body_def deleteRecoveryCodes_def Let_def
        split: if_splits intro!: reached_delete)
next
  case replace
  then show ?thesis using setup_frame(3) [OF replace(1)] by (simp add: advances_account_def)
next
  case mint
  then show ?thesis using mint_frame [OF mint(1)] by (simp add: advances_account_def)
next
  case complete
  then show ?thesis using complete_advances inv by (simp add: totp_inv_def challenges_ok_def)
qed (simp_all add: advances_account_def)

lemma trace_steps:
  assumes "totp_trace db es db'" and "totp_inv db" and "Started uid \<notin> set es"
  shows "sorted_wrt (<) (steps_of uid es) \<and> (\<forall>st \<in> set (steps_of uid es). reached uid st (user_totp db'))"
  using assms
proof (induction rule: totp_trace.induct)
  case (step es db1 now e db2)
  then have IH: "sorted_wrt (<) (steps_of uid es)" "\<forall>st \<in> set (steps_of uid es). reached uid st (user_totp db1)"
    by auto
  have adv: "advances_account uid e (user_totp db1) (user_totp db2)"
    using step_advances [OF step(2) totp_inv_trace [OF step(1)]] step.prems by simp
  then show ?case using IH unfolding advances_account_def by (auto simp: sorted_wrt_append)
qed simp

subsection \<open>Recovery codes\<close>

abbreviation spendable :: "uuid \<Rightarrow> recovery_row \<Rightarrow> bool" where
  "spendable uid r \<equiv> rc_user r = uid \<and> rc_used_at r = None"

lemma remaining_eq: "fst (RecoveryCodeCounts uid db) = length (filter (spendable uid) (user_recovery_codes db))"
  by (simp add: RecoveryCodeCounts_def conj_commute)

lemma filter_map_less:
  assumes "\<forall>r \<in> set R. Q (g r) \<longrightarrow> Q r" and "c \<in> set R" "Q c" "\<not> Q (g c)"
  shows "length (filter Q (map g R)) < length (filter Q R)"
proof -
  have le: "length (filter Q (map g xs)) \<le> length (filter Q xs)" if "\<forall>r \<in> set xs. Q (g r) \<longrightarrow> Q r" for xs
    using that by (induction xs) auto
  from assms show ?thesis
  proof (induction R)
    case (Cons r R)
    then show ?case using le [of R] by (cases "c = r") auto
  qed simp
qed

lemma spend_count:
  assumes "c \<in> set R" "spendable u c"
  shows "length (filter (spendable uid) (sql_update (\<lambda>r. rc_id r = rc_id c \<and> rc_used_at r = None)
            (\<lambda>r. r\<lparr>rc_used_at := Some now\<rparr>) R)) + (if u = uid then 1 else 0)
         \<le> length (filter (spendable uid) R)"
proof (cases "u = uid")
  case True
  have "length (filter (spendable uid) (map (\<lambda>r. if rc_id r = rc_id c \<and> rc_used_at r = None
      then r\<lparr>rc_used_at := Some now\<rparr> else r) R)) < length (filter (spendable uid) R)"
    by (rule filter_map_less [OF _ assms(1)]) (use assms(2) True in \<open>auto split: if_splits\<close>)
  with True show ?thesis by (simp add: sql_update_def)
next
  case False
  have "length (filter (spendable uid) (sql_update P (\<lambda>r. r\<lparr>rc_used_at := Some now\<rparr>) R))
      \<le> length (filter (spendable uid) R)" for P
    by (induction R) (auto simp: sql_update_def)
  with False show ?thesis by simp
qed

definition spent :: "uuid \<Rightarrow> totp_event list \<Rightarrow> nat" where
  "spent uid es = length (filter (\<lambda>e. e = CodeSpent uid) es)"

lemma filter_delete_le: "length (filter Q (sql_delete P R)) \<le> length (filter Q R)"
  by (induction R) (auto simp: sql_delete_def)

lemma replace_other:
  assumes "replaceRecoveryCodes now ids u hashes db = Inr (x, db')" and "u \<noteq> uid"
  shows "filter (spendable uid) (user_recovery_codes db') = filter (spendable uid) (user_recovery_codes db)"
proof -
  have "filter (spendable uid) (recovery_rows now ids u hashes) = []"
    using assms(2) recovery_rows_iff(1) by (auto simp: filter_empty_conv)
  moreover have "filter (spendable uid) (sql_delete (\<lambda>r. rc_user r = u) (user_recovery_codes db))
      = filter (spendable uid) (user_recovery_codes db)"
    by (rule filter_sql_delete_other) (use assms(2) in auto)
  ultimately show ?thesis using replaceRecoveryCodes_Inr [OF assms(1)] by simp
qed

lemma verify_remaining:
  assumes body: "verify_setup_body now ids v db = Inr (out, db')"
    and "CodesIssued uid \<notin> set (verify_events (v_UserID v) (Inr out) db')"
  shows "length (filter (spendable uid) (user_recovery_codes db'))
           \<le> length (filter (spendable uid) (user_recovery_codes db))"
  using body
proof (cases rule: verify_setup_cases)
  case (accepted t st)
  then have "v_UserID v \<noteq> uid" using assms(2) by (simp add: verify_events_def)
  from replace_other [OF accepted(5) this] show ?thesis by (simp add: record_verification_def)
qed (simp_all add: deletePendingSetup_def deleteRecoveryCodes_def filter_delete_le)

lemma complete_remaining:
  assumes body: "complete_body now i f att db = Inr ((so, out), db')"
    and d: "distinct (map tc_id (totp_challenges db))"
  shows "spent uid (complete_events att (Inr (so, out)) db') +
      length (filter (spendable uid) (user_recovery_codes db'))
        \<le> length (filter (spendable uid) (user_recovery_codes db))"
  using body d
proof (cases rule: complete_cases)
  case (completed c t db1 u sess)
  note ins = insertSessionFamily_Inr [OF completed(9)]
  from completed(8) show ?thesis
  proof (cases rule: accept_cases)
    case (step check st)
    then show ?thesis using ins
      by (simp add: complete_events_def completed(1) spent_def record_step_def)
  next
    case (code m r)
    with spend_count [of r "user_recovery_codes db" "tc_user c" uid now] ins show ?thesis
      by (cases "tc_user c = uid") (simp_all add: complete_events_def completed(1) spent_def)
  qed simp
qed (simp_all add: complete_events_def spent_def)

lemma step_remaining:
  assumes "totp_step now es db db'" and inv: "totp_inv db" and "CodesIssued uid \<notin> set es"
  shows "spent uid es + fst (RecoveryCodeCounts uid db') \<le> fst (RecoveryCodeCounts uid db)"
  unfolding remaining_eq using assms(1)
proof (cases rule: totp_step_cases)
  case (start u secret ttl x)
  then have "user_recovery_codes db' = sql_delete (\<lambda>r. rc_user r = u) (user_recovery_codes db)"
    by (auto simp: totp_bodies deleteRecoveryCodes_def Let_def split: if_splits sum.splits)
  then show "spent uid es + length (filter (spendable uid) (user_recovery_codes db'))
      \<le> length (filter (spendable uid) (user_recovery_codes db))"
    by (simp add: start(2) spent_def filter_delete_le)
next
  case (verify ids v out hotp code wall)
  have "spent uid es = 0" using verify_events_quiet by (auto simp: verify(4) spent_def filter_empty_conv)
  then show "spent uid es + length (filter (spendable uid) (user_recovery_codes db'))
      \<le> length (filter (spendable uid) (user_recovery_codes db))"
    using verify_remaining [OF verify(1)] assms(3) verify(4) by simp
next
  case (disable u x)
  then have "user_recovery_codes db' = sql_delete (\<lambda>r. rc_user r = u) (user_recovery_codes db)"
    by (auto simp: disable_body_def deleteRecoveryCodes_def Let_def split: if_splits)
  then show "spent uid es + length (filter (spendable uid) (user_recovery_codes db'))
      \<le> length (filter (spendable uid) (user_recovery_codes db))"
    by (simp add: disable(2) spent_def filter_delete_le)
next
  case (replace ids u hashes x)
  then have "replaceRecoveryCodes now ids u hashes db = Inr (x, db')" "u \<noteq> uid"
    using assms(3) by (auto simp: replace_codes_body_def split: option.splits if_splits)
  from replace_other [OF this] show "spent uid es + length (filter (spendable uid) (user_recovery_codes db'))
      \<le> length (filter (spendable uid) (user_recovery_codes db))"
    by (simp add: replace(2) spent_def)
next
  case (complete i f att so out)
  then show "spent uid es + length (filter (spendable uid) (user_recovery_codes db'))
      \<le> length (filter (spendable uid) (user_recovery_codes db))"
    using complete_remaining inv by (simp add: totp_inv_def challenges_ok_def)
qed (auto simp: spent_def activate_body_def clear_enrollment_def dest!: mint_frame split: if_splits)

lemma trace_remaining:
  assumes "totp_trace db es db'" and "totp_inv db" and "CodesIssued uid \<notin> set es"
  shows "spent uid es + fst (RecoveryCodeCounts uid db') \<le> fst (RecoveryCodeCounts uid db)"
  using assms
proof (induction rule: totp_trace.induct)
  case (step es db1 now e db2)
  then have "spent uid es + fst (RecoveryCodeCounts uid db1) \<le> fst (RecoveryCodeCounts uid db)" by simp
  moreover have "spent uid e + fst (RecoveryCodeCounts uid db2) \<le> fst (RecoveryCodeCounts uid db1)"
    using step_remaining [OF step(2) totp_inv_trace [OF step(1)]] step.prems by simp
  moreover have "spent uid (es @ e) = spent uid es + spent uid e" by (simp add: spent_def)
  ultimately show ?case by simp
qed (simp add: spent_def)

section \<open>Enrolment flags\<close>

text \<open>No session of an account with an activated second factor is still blocked on enrolment.\<close>

definition flags_ok :: "db \<Rightarrow> bool" where
  "flags_ok db \<longleftrightarrow> (\<forall>s \<in> set (sessions db). s_enroll s \<longrightarrow> \<not> totp_activated (s_user s) db)"

lemma flags_ok_mono:
  assumes "flags_ok db"
    and "\<And>s'. s' \<in> set (sessions db') \<Longrightarrow> s_enroll s' \<Longrightarrow>
      (\<exists>s \<in> set (sessions db). s_user s = s_user s' \<and> s_enroll s) \<or> \<not> totp_activated (s_user s') db'"
    and "\<And>uid. totp_activated uid db' \<Longrightarrow> totp_activated uid db"
  shows "flags_ok db'"
  using assms unfolding flags_ok_def by metis

lemma flags_ok_insert:
  assumes "flags_ok db" "user_totp db' = user_totp db"
    and "sessions db' = sessions db @ [next_row now i uid f t flag db0]" "user_totp db0 = user_totp db"
  shows "flags_ok db'"
  using assms by (auto simp: flags_ok_def next_row_def totp_activated_def)

lemma session_step_flags:
  assumes "session_step now db db'" and "user_totp db' = user_totp db" and ok: "flags_ok db"
  shows "flags_ok db'"
proof -
  have upd: "flags_ok db1" if "sessions db1 = sql_update P g (sessions db)" "user_totp db1 = user_totp db"
      "\<And>s. s_user (g s) = s_user s \<and> (s_enroll (g s) \<longrightarrow> s_enroll s)" for db1 P g
  proof (rule flags_ok_mono [OF ok])
    fix s' assume s': "s' \<in> set (sessions db1)" "s_enroll s'"
    from s'(1) [unfolded that(1)] show "(\<exists>s \<in> set (sessions db). s_user s = s_user s' \<and> s_enroll s) \<or>
        \<not> totp_activated (s_user s') db1"
      by (cases rule: sql_updateE) (use s'(2) that(3) in auto)
  qed (use that(2) in \<open>simp add: totp_activated_def\<close>)
  from assms(1) show ?thesis
  proof cases
    case (create f i uid t)
    show ?thesis
    proof (cases "insertSessionFamily now i f uid t db")
      case (Inl e)
      with create ok show ?thesis by (simp add: CreateSession_def begin_func_def)
    next
      case (Inr p)
      then obtain sess db1 where p: "insertSessionFamily now i f uid t db = Inr (sess, db1)" by (cases p) auto
      then have "db' = db1" using create by (simp add: CreateSession_def begin_func_def)
      with insertSessionFamily_Inr [OF p] show ?thesis by (auto intro: flags_ok_insert [OF ok])
    qed
  next
    case (rotate us i h nxt)
    show ?thesis
    proof (cases "rotate_body us now i h nxt db")
      case (Inl e)
      with rotate ok show ?thesis by (simp add: RotateSession_def begin_func_def)
    next
      case (Inr p)
      then obtain so out where p: "rotate_body us now i h nxt db = Inr ((so, out), db')"
        using rotate by (cases p) (auto simp: RotateSession_def begin_func_def)
      then show ?thesis
      proof (cases rule: rotate_body_cases)
        case (reuse s)
        show ?thesis by (rule upd [OF _ assms(2)]) (simp add: reuse(6) revoke_where_def, simp)
      next
        case (rotated s sess)
        let ?db1 = "retire_row (s_id s) now db"
        have fl: "flags_ok ?db1" by (rule upd) (simp add: retire_row_def, simp add: retire_row_def, simp)
        have ins: "sessions db' = sessions ?db1 @ [next_row now i (s_user s) (s_family s) nxt (s_enroll s) ?db1]"
          "user_totp db' = user_totp ?db1"
          using insert_session_Inr [OF rotated(7)] by auto
        show ?thesis by (rule flags_ok_insert [OF fl ins(2,1) refl])
      qed (use ok in simp_all)
    qed
  next
    case (revoke us f)
    then show ?thesis by (intro upd [OF _ assms(2)]) (simp add: RevokeFamily_def revoke_where_def, simp)
  next
    case (revoke_user us uid f)
    then show ?thesis by (intro upd [OF _ assms(2)]) (simp add: RevokeUserFamily_def revoke_where_def, simp)
  next
    case (revoke_others us uid f)
    then show ?thesis by (intro upd [OF _ assms(2)]) (simp add: RevokeOtherFamilies_def revoke_where_def, simp)
  next
    case (elsewhere P)
    show ?thesis by (rule upd [OF elsewhere(1) assms(2)]) simp
  next
    case (account uid keep)
    then show ?thesis by (intro upd [OF _ assms(2)]) (simp add: revoke_where_def, simp)
  qed
qed

lemma activated_start:
  "start_setup_body now u secret ttl db = Inr (x, db') \<Longrightarrow> totp_activated uid db' \<Longrightarrow> totp_activated uid db"
  by (auto simp: totp_bodies deleteRecoveryCodes_def Let_def totp_activated_def
      split: if_splits sum.splits elim!: sql_updateE) blast+

lemma activated_verify:
  assumes "verify_setup_body now ids v db = Inr (out, db')" and "totp_activated uid db'"
  shows "totp_activated uid db"
  using assms(1)
proof (cases rule: verify_setup_cases)
  case (accepted t st)
  then show ?thesis using assms(2) replaceRecoveryCodes_Inr [OF accepted(5)]
    by (auto simp: totp_activated_def record_verification_def elim!: sql_updateE)
qed (use assms(2) in \<open>auto simp: totp_activated_def deletePendingSetup_def deleteRecoveryCodes_def elim!: sql_updateE\<close>)

lemma activate_flags:
  assumes "activate_body now uid db = Inr (x, db')" and ok: "flags_ok db"
  shows "flags_ok db'"
proof -
  have S: "sessions db' = sql_update (\<lambda>s. s_user s = uid \<and> s_enroll s) (\<lambda>s. s\<lparr>s_enroll := False\<rparr>) (sessions db)"
    and T: "user_totp db' = sql_update (activatable now uid db) (\<lambda>t. t\<lparr>ut_activated_at := Some now\<rparr>) (user_totp db)"
    using assms(1) by (auto simp: activate_body_def clear_enrollment_def split: if_splits)
  have act: "totp_activated u db' \<Longrightarrow> u \<noteq> uid \<Longrightarrow> totp_activated u db" for u
    by (auto simp: totp_activated_def T activatable_def elim!: sql_updateE)
  show ?thesis
    unfolding flags_ok_def
  proof (intro ballI impI)
    fix s assume s: "s \<in> set (sessions db')" "s_enroll s"
    from s(1) [unfolded S] have "s \<in> set (sessions db)" "s_user s \<noteq> uid"
      by (cases rule: sql_updateE; use s(2) in simp)+
    with ok s(2) act show "\<not> totp_activated (s_user s) db'" unfolding flags_ok_def by blast
  qed
qed

lemma complete_flags:
  assumes body: "complete_body now i f att db = Inr ((so, out), db')"
    and d: "distinct (map tc_id (totp_challenges db))" and ok: "flags_ok db"
  shows "flags_ok db'"
  using body d
proof (cases rule: complete_cases)
  case (completed c t db1 u sess)
  have "totp_activated uid (consumeChallenge now (tc_id c) db1) \<Longrightarrow> totp_activated uid db" for uid
    using completed(8)
    by (cases rule: accept_cases) (auto simp: totp_activated_def record_step_def elim!: sql_updateE)
  moreover have "sessions db1 = sessions db"
    using completed(8) by (cases rule: accept_cases) (auto simp: record_step_def)
  ultimately have "flags_ok (consumeChallenge now (tc_id c) db1)"
    using ok by (auto simp: flags_ok_def)
  with insertSessionFamily_Inr [OF completed(9)] show ?thesis
    by (auto intro: flags_ok_insert)
qed (use ok in \<open>simp_all add: flags_ok_def totp_activated_def\<close>)

lemma step_flags:
  assumes "totp_step now es db db'" and inv: "totp_inv db" and ok: "flags_ok db"
  shows "flags_ok db'"
  using assms(1)
proof (cases rule: totp_step_cases)
  case start
  then show ?thesis using activated_start [OF start(1)] setup_frame(1) [OF start(1)] ok
    by (auto simp: flags_ok_def)
next
  case verify
  then show ?thesis using activated_verify [OF verify(1)] setup_frame(2) [OF verify(1)] ok
    by (auto simp: flags_ok_def)
next
  case activate
  then show ?thesis using activate_flags ok by blast
next
  case disable
  then show ?thesis using ok
    by (auto simp: flags_ok_def disable_body_def deleteRecoveryCodes_def totp_activated_def Let_def split: if_splits)
next
  case replace
  then show ?thesis using setup_frame(3) [OF replace(1)] ok by (simp add: flags_ok_def totp_activated_def)
next
  case mint
  then show ?thesis using mint_frame [OF mint(1)] ok by (simp add: flags_ok_def totp_activated_def)
next
  case complete
  then show ?thesis using complete_flags ok inv by (auto simp: totp_inv_def challenges_ok_def)
next
  case other
  then show ?thesis using session_step_flags ok by blast
qed (use ok in simp)

lemma trace_flags: "totp_trace db es db' \<Longrightarrow> totp_inv db \<Longrightarrow> flags_ok db \<Longrightarrow> flags_ok db'"
  by (induction rule: totp_trace.induct) (auto intro: step_flags totp_inv_trace)

text \<open>A fresh instance: nobody has signed in or set anything up.\<close>

definition fresh :: "db \<Rightarrow> bool" where
  "fresh db \<longleftrightarrow> user_totp db = [] \<and> user_recovery_codes db = [] \<and> totp_challenges db = [] \<and> sessions db = []"

lemma fresh_inv: "fresh db \<Longrightarrow> totp_inv db" "fresh db \<Longrightarrow> flags_ok db"
  by (simp_all add: fresh_def totp_inv_def setups_ok_def challenges_ok_def codes_iff_verified_def flags_ok_def)

lemma fresh_trace_inv: "fresh db0 \<Longrightarrow> totp_trace db0 es db \<Longrightarrow> totp_inv db"
  using fresh_inv(1) totp_inv_trace by blast

section \<open>Properties\<close>

text \<open>
  A concrete run for the witnesses: setup, verification, activation, a challenge, one wrong code,
  then a sign-in with a recovery code. The library of the run accepts every code at every step.
\<close>

definition demo_hotp :: hotp_fun where "demo_hotp code counter secret = Some True"

definition demo_verification :: TotpSetupVerification where
  "demo_verification = \<lparr>v_UserID = 1, v_MaxAttempts = MaxSetupAttempts,
     v_CheckCode = verify_callback demo_hotp ''123456'' (60 * 10 ^ 9), v_RecoveryCodeHashes = [''h1'', ''h2'']\<rparr>"

definition demo_token :: bytes where "demo_token = replicate 32 CHR ''c''"

definition demo_attempt :: "string \<Rightarrow> TotpChallengeAttempt" where
  "demo_attempt typed = \<lparr>a_TokenHash = demo_token, a_MaxAttempts = MaxChallengeAttempts,
     a_CheckCode = None, a_MatchRecoveryCode = Some (\<lambda>stored. stored = typed),
     a_Session = demo_tokens CHR ''a'' CHR ''r''\<rparr>"

definition demo_row :: "instant option \<Rightarrow> instant option \<Rightarrow> int option \<Rightarrow> totp_row" where
  "demo_row verified activated st = \<lparr>ut_user = 1, ut_secret = replicate 20 CHR ''s'', ut_verified_at = verified,
     ut_activated_at = activated, ut_setup_exp = 600, ut_attempts = 0, ut_last_step = st, ut_created = 0\<rparr>"

definition demo_code :: "nat \<Rightarrow> instant option \<Rightarrow> recovery_row" where
  "demo_code i used = \<lparr>rc_id = 50 + i, rc_user = 1, rc_hash = [''h1'', ''h2''] ! i, rc_used_at = used, rc_created = 1\<rparr>"

definition demo_challenge :: "int \<Rightarrow> instant option \<Rightarrow> challenge_row" where
  "demo_challenge attempts consumed = \<lparr>tc_id = 60, tc_user = 1, tc_token_hash = demo_token, tc_exp = 603,
     tc_attempts = attempts, tc_consumed_at = consumed, tc_created = 3\<rparr>"

definition setup1 :: db where "setup1 = demo0\<lparr>user_totp := [demo_row None None None]\<rparr>"
definition setup2 :: db where
  "setup2 = demo0\<lparr>user_totp := [demo_row (Some 1) None (Some 1)],
     user_recovery_codes := [demo_code 0 None, demo_code 1 None]\<rparr>"
definition setup3 :: db where
  "setup3 = demo0\<lparr>user_totp := [demo_row (Some 1) (Some 2) (Some 1)],
     user_recovery_codes := [demo_code 0 None, demo_code 1 None]\<rparr>"
definition signin1 :: db where "signin1 = setup3\<lparr>totp_challenges := [demo_challenge 0 None]\<rparr>"
definition signin2 :: db where "signin2 = setup3\<lparr>totp_challenges := [demo_challenge 1 None]\<rparr>"
definition signin3 :: db where
  "signin3 = setup3\<lparr>totp_challenges := [demo_challenge 1 (Some 5)],
     user_recovery_codes := [demo_code 0 (Some 5), demo_code 1 None],
     sessions := [next_row 5 10 1 20 (demo_tokens CHR ''a'' CHR ''r'') False setup3]\<rparr>"

lemma demo_fresh: "fresh demo0"
  by (simp add: fresh_def demo0_def empty_db_def)

lemma demo_setup_ops:
  "StartTotpSetup 0 1 (replicate 20 CHR ''s'') 600 demo0 = (Inr (), setup1)"
  "VerifyTotpSetup 1 (\<lambda>i. 50 + i) demo_verification setup1 = (Inr TotpVerifyAccepted, setup2)"
  "ActivateTotp 2 1 setup2 = (Inr 2, setup3)"
  "CreateTotpChallenge 3 60 1 demo_token 600 setup3 = (Inr (), signin1)"
  by code_simp+

lemma demo_setup_steps:
  "totp_step 0 [Started 1] demo0 setup1"
  "totp_step 1 [StepAccepted 1 1, CodesIssued 1] setup1 setup2"
  "totp_step 2 [] setup2 setup3"
  "totp_step 3 [Minted demo_token] setup3 signin1"
proof -
  show "totp_step 0 [Started 1] demo0 setup1"
    using totp_step.start [OF demo_setup_ops(1)] by simp
  have v: "v_MaxAttempts demo_verification = MaxSetupAttempts" "v_UserID demo_verification = 1"
    "v_CheckCode demo_verification = verify_callback demo_hotp ''123456'' (60 * 10 ^ 9)"
    by (simp_all add: demo_verification_def)
  have "recorded_step 1 setup2 = 1" by code_simp
  then show "totp_step 1 [StepAccepted 1 1, CodesIssued 1] setup1 setup2"
    using totp_step.verify [OF demo_setup_ops(2) v(1,3)] by (simp add: v(2) verify_events_def)
  show "totp_step 2 [] setup2 setup3"
    by (rule totp_step.activate [OF demo_setup_ops(3)])
  show "totp_step 3 [Minted demo_token] setup3 signin1"
    using totp_step.mint [OF demo_setup_ops(4)] by simp
qed

lemma demo_wrong: "CompleteTotpChallenge 4 10 20 (demo_attempt ''no'') signin1 = (Inr (None, TotpChallengeRejected), signin2)"
  by code_simp

lemma demo_right:
  "CompleteTotpChallenge 5 10 20 (demo_attempt ''h1'') signin2 =
     (Inr (Some (hd (users demo0), scanSession (hd (sessions signin3))), TotpChallengeCompleted), signin3)"
  by code_simp

lemma demo_signin_steps:
  "totp_step 4 [Burned demo_token] signin1 signin2"
  "totp_step 5 [Completed demo_token, CodeSpent 1] signin2 signin3"
proof -
  have att: "a_MaxAttempts (demo_attempt c) = MaxChallengeAttempts" "a_CheckCode (demo_attempt c) = None"
    "a_TokenHash (demo_attempt c) = demo_token" for c
    by (simp_all add: demo_attempt_def)
  have none: "sessions signin1 = []" "sessions signin2 = []"
    by (simp_all add: signin1_def signin2_def setup3_def)
  have user: "UserID (scanSession (hd (sessions signin3))) = 1"
    by (simp add: signin3_def scanSession_def next_row_def)
  show "totp_step 4 [Burned demo_token] signin1 signin2"
    using totp_step.complete [OF demo_wrong _ att(1)] by (simp add: none att complete_events_def)
  show "totp_step 5 [Completed demo_token, CodeSpent 1] signin2 signin3"
    using totp_step.complete [OF demo_right _ att(1)] by (simp add: none att user complete_events_def)
qed

lemma demo_setup_trace: "totp_trace demo0 [Started 1, StepAccepted 1 1, CodesIssued 1, Minted demo_token] signin1"
proof -
  note totp_trace.step [OF totp_trace.start demo_setup_steps(1)]
  note totp_trace.step [OF this demo_setup_steps(2)]
  note totp_trace.step [OF this demo_setup_steps(3)]
  note totp_trace.step [OF this demo_setup_steps(4)]
  then show ?thesis by simp
qed

lemma demo_signin_trace: "totp_trace signin1 [Burned demo_token, Completed demo_token, CodeSpent 1] signin3"
  using totp_trace.step [OF totp_trace.step [OF totp_trace.start demo_signin_steps(1)] demo_signin_steps(2)]
  by simp

lemma trace_trans:
  assumes "totp_trace db es db1" and "totp_trace db1 fs db2"
  shows "totp_trace db (es @ fs) db2"
  using assms(2,1)
  by (induction rule: totp_trace.induct) (auto simp flip: append_assoc intro: totp_trace.step)

text \<open>
  In every state the two-step tables can reach from a fresh instance, an account has at most
  one two-step row and at most one challenge, a second factor is on only if an authenticator code
  was verified, a pending setup has attempts left, an account holds recovery codes exactly when its
  setup has been verified, and a challenge that is not consumed has attempts left.
\<close>

theorem totp_reachable_inv:
  assumes "fresh db0" and "totp_trace db0 es db"
  shows "distinct (map ut_user (user_totp db)) \<and> distinct (map tc_user (totp_challenges db)) \<and>
    (\<forall>t \<in> set (user_totp db). (ut_activated_at t \<noteq> None \<longrightarrow> ut_verified_at t \<noteq> None) \<and>
       (ut_activated_at t = None \<longrightarrow> 0 \<le> ut_attempts t \<and> ut_attempts t < MaxSetupAttempts)) \<and>
    (\<forall>uid. (\<exists>t \<in> set (user_totp db). ut_user t = uid \<and> ut_verified_at t \<noteq> None) \<longleftrightarrow>
       (\<exists>r \<in> set (user_recovery_codes db). rc_user r = uid)) \<and>
    (\<forall>c \<in> set (totp_challenges db). tc_consumed_at c = None \<longrightarrow>
       0 \<le> tc_attempts c \<and> tc_attempts c < MaxChallengeAttempts)"
  using fresh_trace_inv [OF assms]
  unfolding totp_inv_def setups_ok_def challenges_ok_def row_ok_def challenge_ok_def codes_iff_verified_def
  by blast

theorem totp_reachable_inv_witness:
  "distinct (map ut_user (user_totp signin1)) \<and> distinct (map tc_user (totp_challenges signin1)) \<and>
   (\<exists>t \<in> set (user_totp signin1). ut_user t = 1 \<and> ut_activated_at t = Some 2) \<and>
   (\<exists>r \<in> set (user_recovery_codes signin1). rc_user r = 1)"
proof -
  have row: "\<exists>t \<in> set (user_totp signin1). ut_user t = 1 \<and> ut_activated_at t = Some 2 \<and> ut_verified_at t \<noteq> None"
    by code_simp
  with totp_reachable_inv [OF demo_fresh demo_setup_trace] show ?thesis by blast
qed

text \<open>
  A sign-in challenge is worth at most five codes: from any reachable state, until a new
  challenge is minted under that token, no interleaving of requests evaluates more than
  \<open>MaxChallengeAttempts\<close> codes against the token, right or wrong, and at most one of them signs in.
\<close>

theorem challenge_tries_capped:
  assumes "fresh db0" and "totp_trace db0 es0 db" and "totp_trace db es db'" and "Minted h \<notin> set es"
  shows "length (filter (\<lambda>e. e = Burned h \<or> e = Completed h) es) \<le> nat MaxChallengeAttempts \<and>
         length (filter (\<lambda>e. e = Completed h) es) \<le> 1"
proof -
  have inv: "totp_inv db" using assms(1,2) by (rule fresh_trace_inv)
  have "budget h (totp_challenges db) \<le> nat MaxChallengeAttempts"
    using inv by (auto simp: budget_def totp_inv_def challenges_ok_def challenge_ok_def
        dest!: sql_row_Some_iff split: option.splits)
  then show ?thesis using trace_tries [OF assms(3) inv assms(4)] by (simp add: tries_def)
qed

theorem challenge_tries_capped_witness:
  "length (filter (\<lambda>e. e = Burned demo_token \<or> e = Completed demo_token)
     [Burned demo_token, Completed demo_token, CodeSpent 1]) \<le> 5"
  using challenge_tries_capped [OF demo_fresh demo_setup_trace demo_signin_trace, of demo_token]
  by (simp add: MaxChallengeAttempts_def)

text \<open>
  C36. An authenticator code is never accepted twice, across setup and sign-in, whatever happens in
  between: as long as the account does not start a new setup (a new secret), the time steps accepted
  for it are strictly increasing.
\<close>

theorem accepted_steps_increase:
  assumes "fresh db0" and "totp_trace db0 es0 db" and "totp_trace db es db'" and "Started uid \<notin> set es"
  shows "sorted_wrt (<) (steps_of uid es)"
  using trace_steps [OF assms(3) fresh_trace_inv [OF assms(1,2)] assms(4)] by blast

theorem accepted_steps_increase_witness:
  "totp_trace setup1 [StepAccepted 1 1, CodesIssued 1] setup2 \<and>
   sorted_wrt (<) (steps_of 1 [StepAccepted 1 1, CodesIssued 1])"
proof -
  have a: "totp_trace demo0 [Started 1] setup1"
    using totp_trace.step [OF totp_trace.start demo_setup_steps(1)] by simp
  have b: "totp_trace setup1 [StepAccepted 1 1, CodesIssued 1] setup2"
    using totp_trace.step [OF totp_trace.start demo_setup_steps(2)] by simp
  from accepted_steps_increase [OF demo_fresh a b, of 1] b show ?thesis by simp
qed

text \<open>
  A recovery code is spent at most once: between two issues of codes, the sign-ins an account
  completes with recovery codes plus the codes \<open>RecoveryCodeCounts\<close> still reports as remaining never
  exceed the codes it reported at the start.
\<close>

theorem recovery_codes_single_use:
  assumes "fresh db0" and "totp_trace db0 es0 db" and "totp_trace db es db'" and "CodesIssued uid \<notin> set es"
  shows "length (filter (\<lambda>e. e = CodeSpent uid) es) + fst (RecoveryCodeCounts uid db')
           \<le> fst (RecoveryCodeCounts uid db)"
  using trace_remaining [OF assms(3) fresh_trace_inv [OF assms(1,2)] assms(4)] by (simp add: spent_def)

theorem recovery_codes_single_use_witness:
  "1 + fst (RecoveryCodeCounts 1 signin3) \<le> fst (RecoveryCodeCounts 1 signin1)"
  using recovery_codes_single_use [OF demo_fresh demo_setup_trace demo_signin_trace, of 1] by simp

text \<open>
  What one accepted second factor spends: the step of an authenticator code, recorded, or one recovery
  code, marked used.
\<close>

definition factor_spent :: "instant \<Rightarrow> TotpChallengeAttempt \<Rightarrow> uuid \<Rightarrow> db \<Rightarrow> db \<Rightarrow> bool" where
  "factor_spent now att uid db db' \<longleftrightarrow>
     (\<exists>check t st. a_CheckCode att = Some check \<and> t \<in> set (user_totp db) \<and> ut_user t = uid \<and>
        check (ut_secret t) (ut_last_step t) = Some st \<and>
        user_totp db' = sql_update (\<lambda>t. ut_user t = uid) (\<lambda>t. t\<lparr>ut_last_step := Some st\<rparr>) (user_totp db) \<and>
        user_recovery_codes db' = user_recovery_codes db) \<or>
     (\<exists>m c. a_CheckCode att = None \<and> a_MatchRecoveryCode att = Some m \<and>
        c \<in> set (user_recovery_codes db) \<and> spendable uid c \<and> m (rc_hash c) \<and>
        user_totp db' = user_totp db \<and>
        user_recovery_codes db' = sql_update (\<lambda>r. rc_id r = rc_id c \<and> rc_used_at r = None)
          (\<lambda>r. r\<lparr>rc_used_at := Some now\<rparr>) (user_recovery_codes db))"

lemma accept_spends:
  assumes "acceptChallengeCode now att uid (ut_secret t) (ut_last_step t) db = Inr (True, db1)" "t \<in> set (user_totp db)" "ut_user t = uid"
  shows "factor_spent now att uid db db1"
  using assms(1)
proof (cases rule: accept_cases)
  case (step check st)
  then show ?thesis using assms(2,3) unfolding factor_spent_def
    by (intro disjI1 exI [of _ check] exI [of _ t] exI [of _ st]) (simp add: record_step_def)
next
  case (code m x)
  then show ?thesis unfolding factor_spent_def by (intro disjI2 exI [of _ m] exI [of _ x]) simp
qed simp

text \<open>
  C37. Completing a challenge is all or nothing. A sign-in that yields a session consumed the
  challenge it was for and exactly what the code was worth (the accepted step was recorded, or one
  unused matching recovery code was marked used), and added exactly that session, for the
  challenge's own user, whose second factor is on. Any other answer left the sessions, the recovery
  codes and the recorded steps as they were.
\<close>

theorem complete_all_or_nothing:
  assumes "fresh db0" and "totp_trace db0 es db"
    and "CompleteTotpChallenge now i f att db = (r, db')"
  shows "case r of
      Inr (Some (u, sess), out) \<Rightarrow>
        out = TotpChallengeCompleted \<and> totp_activated (u_id u) db \<and> UserID sess = u_id u \<and>
        (\<exists>row. sessions db' = sessions db @ [row] \<and> scanSession row = sess) \<and>
        (\<exists>c \<in> set (totp_challenges db). live_challenge now att c \<and> tc_user c = u_id u \<and>
           totp_challenges db' = sql_update (\<lambda>x. tc_id x = tc_id c \<and> tc_consumed_at x = None)
             (\<lambda>x. x\<lparr>tc_consumed_at := Some now\<rparr>) (totp_challenges db)) \<and>
        factor_spent now att (u_id u) db db'
    | Inr (None, _) \<Rightarrow> sessions db' = sessions db \<and> user_totp db' = user_totp db \<and>
        user_recovery_codes db' = user_recovery_codes db
    | Inl _ \<Rightarrow> db' = db"
proof -
  have inv: "totp_inv db" using assms(1,2) by (rule fresh_trace_inv)
  then have d: "distinct (map tc_id (totp_challenges db))" by (simp add: totp_inv_def challenges_ok_def)
  show ?thesis
  proof (cases r)
    case (Inl e)
    then show ?thesis using assms(3) by (simp add: CompleteTotpChallenge_def)
  next
    case (Inr p)
    obtain so out where p: "p = (so, out)" by (cases p)
    with Inr assms(3) have "complete_body now i f att db = Inr ((so, out), db')"
      by (simp add: CompleteTotpChallenge_def)
    then show ?thesis using d
    proof (cases rule: complete_cases)
      case (completed c t db1 u sess)
      note ins = insertSessionFamily_Inr [OF completed(9)]
      have "\<exists>row. sessions db' = sessions db1 @ [row] \<and> scanSession row = sess"
        using insert_session_Inr [OF completed(9) [unfolded insertSessionFamily_def]] by auto
      moreover have "sessions db1 = sessions db" "totp_challenges db1 = totp_challenges db"
        using completed(8) by (cases rule: accept_cases; simp add: record_step_def)+
      moreover have "totp_activated (u_id u) db"
        using completed(5,6,7,10) by (auto simp: totp_activated_def)
      moreover have "totp_challenges db' = sql_update (\<lambda>x. tc_id x = tc_id c \<and> tc_consumed_at x = None)
          (\<lambda>x. x\<lparr>tc_consumed_at := Some now\<rparr>) (totp_challenges db1)"
        using ins by (simp add: consumeChallenge_def)
      moreover have "factor_spent now att (u_id u) db db'"
        using accept_spends [OF completed(8,5,6)] completed(10) ins by (simp add: factor_spent_def)
      ultimately show ?thesis using Inr p completed ins by auto
    qed (simp_all add: Inr p)
  qed
qed

theorem complete_all_or_nothing_witness:
  "CompleteTotpChallenge 5 10 20 (demo_attempt ''h1'') signin2 =
     (Inr (Some (hd (users demo0), scanSession (hd (sessions signin3))), TotpChallengeCompleted), signin3) \<and>
   totp_activated (u_id (hd (users demo0))) signin2 \<and>
   (\<exists>row. sessions signin3 = sessions signin2 @ [row] \<and> scanSession row = scanSession (hd (sessions signin3)))"
proof -
  have t: "totp_trace demo0 ([Started 1, StepAccepted 1 1, CodesIssued 1, Minted demo_token] @ [Burned demo_token]) signin2"
    using totp_trace.step [OF demo_setup_trace demo_signin_steps(1)] .
  from complete_all_or_nothing [OF demo_fresh t demo_right] show ?thesis using demo_right by auto
qed

text \<open>
  Two-step verification turns on exactly under its conditions: \<open>ActivateTotp\<close> succeeds if and only
  if the account has a row that is not yet on, has verified a code, has not expired, and holds an
  unused recovery code; on success the factor is on and no session of the account is still blocked on
  enrolment, other accounts' sessions are untouched; otherwise nothing changes.
\<close>

theorem ActivateTotp_exact:
  "(case fst (ActivateTotp now uid db) of
      Inr at \<Rightarrow> at = now \<and> (\<exists>t \<in> set (user_totp db). activatable now uid db t) \<and>
        totp_activated uid (snd (ActivateTotp now uid db)) \<and>
        sessions (snd (ActivateTotp now uid db)) =
          map (\<lambda>s. if s_user s = uid then s\<lparr>s_enroll := False\<rparr> else s) (sessions db)
    | Inl e \<Rightarrow> e = ErrTotpSetupNotVerified \<and> (\<forall>t \<in> set (user_totp db). \<not> activatable now uid db t) \<and>
        snd (ActivateTotp now uid db) = db)"
proof (cases "\<exists>t \<in> set (user_totp db). activatable now uid db t")
  case True
  then obtain t where t: "t \<in> set (user_totp db)" "activatable now uid db t" by blast
  let ?T = "sql_update (activatable now uid db) (\<lambda>t. t\<lparr>ut_activated_at := Some now\<rparr>) (user_totp db)"
  have res: "ActivateTotp now uid db = (Inr now, clear_enrollment uid (db\<lparr>user_totp := ?T\<rparr>))"
    using t by (auto simp: ActivateTotp_def activate_body_def)
  have "t\<lparr>ut_activated_at := Some now\<rparr> \<in> set ?T" using t by (rule sql_updateI)
  moreover have "ut_user t = uid" using t(2) by (simp add: activatable_def)
  ultimately have "totp_activated uid (clear_enrollment uid (db\<lparr>user_totp := ?T\<rparr>))"
    unfolding totp_activated_def sql_exists_iff
    by (intro bexI [of _ "t\<lparr>ut_activated_at := Some now\<rparr>"]) (simp_all add: clear_enrollment_def)
  with res True show ?thesis by (simp add: clear_enrollment_def sql_update_def)
next
  case False
  then have "ActivateTotp now uid db = (Inl ErrTotpSetupNotVerified, db)"
    by (simp add: ActivateTotp_def activate_body_def)
  with False show ?thesis by simp
qed

theorem ActivateTotp_exact_witness:
  "totp_activated 1 (snd (ActivateTotp 2 1 setup2)) \<and> snd (ActivateTotp 2 1 setup1) = setup1"
proof -
  have "ActivateTotp 2 1 setup1 = (Inl ErrTotpSetupNotVerified, setup1)" by code_simp
  then show ?thesis
    using ActivateTotp_exact [where db = setup2 and now = 2 and uid = 1]
      ActivateTotp_exact [where db = setup1 and now = 2 and uid = 1] demo_setup_ops(3) by simp
qed

text \<open>
  Enrolment never blocks an account that has its second factor: in every state reachable from a
  fresh instance, through any interleaving of sign-ins, refreshes, revocations and two-step
  operations, no session of an account with an activated factor carries the enrolment flag, so the
  sweep at activation cannot be outrun by a sign-in or a refresh.
\<close>

theorem activated_never_blocked:
  assumes "fresh db0" and "totp_trace db0 es db" and "totp_activated uid db"
    and "s \<in> set (sessions db)" and "s_user s = uid"
  shows "\<not> s_enroll s"
proof -
  have "flags_ok db" using trace_flags [OF assms(2) fresh_inv [OF assms(1)]] .
  with assms(3-5) show ?thesis by (auto simp: flags_ok_def)
qed

theorem activated_never_blocked_witness:
  "\<exists>s \<in> set (sessions signin3). s_user s = 1 \<and> \<not> s_enroll s"
proof -
  have t: "totp_trace demo0 ([Started 1, StepAccepted 1 1, CodesIssued 1, Minted demo_token] @
      [Burned demo_token, Completed demo_token, CodeSpent 1]) signin3"
    by (rule trace_trans [OF demo_setup_trace demo_signin_trace])
  have "totp_activated 1 signin3" "\<exists>s \<in> set (sessions signin3). s_user s = 1" by code_simp+
  with activated_never_blocked [OF demo_fresh t] show ?thesis by blast
qed

text \<open>
  Turning two-step verification off: refused with no effect while the organisation requires it or
  the factor is not on; otherwise the secret, every recovery code and every challenge of the account
  are gone, nobody else's are, and all sessions are left alone. A setup that was never activated is
  not dropped by it.
\<close>

theorem DisableTotp_exact:
  "DisableTotp uid db =
     (if require_totp (org_settings db) then (Inl ErrTotpRequiredByOrg, db)
      else if \<not> totp_activated uid db then (Inl ErrTotpNotEnabled, db)
      else (Inr (), db\<lparr>totp_challenges := filter (\<lambda>c. tc_user c \<noteq> uid) (totp_challenges db),
              user_totp := filter (\<lambda>t. \<not> (ut_user t = uid \<and> ut_activated_at t \<noteq> None)) (user_totp db),
              user_recovery_codes := filter (\<lambda>r. rc_user r \<noteq> uid) (user_recovery_codes db)\<rparr>))"
proof -
  have eq: "sql_exists (\<lambda>t. ut_user t = uid \<and> ut_activated_at t \<noteq> None) (user_totp db) = totp_activated uid db"
    by (simp add: totp_activated_def)
  show ?thesis
    unfolding DisableTotp_def begin_func_def disable_body_def Let_def
    using eq by (simp add: deleteRecoveryCodes_def sql_delete_def del: sql_exists_iff not_None_eq)
qed

end
