(* ===== verification/Mls_Store.thy ===== *)
theory Mls_Store
  imports Schema
begin

text \<open>
  The MLS transport, \<^verbatim>\<open>server/internal/storage/mls.go\<close> and \<^verbatim>\<open>mls_backups.go\<close>: devices, key packages,
  one group per channel with its epoch, the commit log, pending Welcomes, and the sealed backup. The
  blobs are opaque: no definition looks inside one. An epoch and a counter are \<open>bigint\<close>; incrementing
  past the largest one is an error of the statement.

  Each operation is one transaction. A claim skips rows other transactions hold (\<open>SKIP LOCKED\<close>); which
  rows those are is the argument \<open>locked\<close>, and the results hold for every choice of it.
\<close>

section \<open>Data\<close>

record MlsKeyPackageClaim =
  kc_DeviceID :: uuid
  kc_KeyPackage :: bytes

record MlsMemberDevice =
  mm_UserID :: uuid
  mm_Keys :: "bytes list"

record MlsWelcomeDelivery =
  wd_DeviceIDs :: "uuid list"
  wd_Welcome :: bytes

record NewMlsCommit =
  nc_ChannelID :: uuid
  nc_Epoch :: int
  nc_Message :: bytes
  nc_Welcomes :: "MlsWelcomeDelivery list"

record MlsCommitOutcome =
  co_Epoch :: int
  co_WelcomeUserIDs :: "uuid list"

record MlsCommit =
  c_Epoch :: int
  c_Message :: bytes
  c_CreatedAt :: instant

record MlsWelcome =
  w_ID :: uuid
  w_ChannelID :: uuid
  w_GroupID :: bytes
  w_DeviceID :: uuid
  w_Welcome :: bytes
  w_CreatedAt :: instant

definition max_bigint :: int where "max_bigint = 2 ^ 63 - 1"

definition is_member :: "uuid \<Rightarrow> uuid \<Rightarrow> db \<Rightarrow> bool" where
  "is_member ch uid db = sql_exists (\<lambda>m. cm_channel m = ch \<and> cm_user m = uid) (channel_members db)"

section \<open>Devices\<close>

text \<open>
  \<open>INSERT \<dots> ON CONFLICT (user_id, signature_public_key) DO NOTHING RETURNING\<close>: no row back means the
  pair was there. The conflict is looked for before anything is inserted.
\<close>

definition insert_device :: "instant \<Rightarrow> uuid \<Rightarrow> uuid \<Rightarrow> bytes \<Rightarrow> (db, device_row option) tx" where
  "insert_device now newID uid key db =
     (let row = \<lparr>md_id = newID, md_user = uid, md_key = key, md_created = now\<rparr>
      in if sql_exists (\<lambda>d. md_user d = uid \<and> md_key d = key) (mls_devices db) then Inr (None, db)
         else if sql_exists (\<lambda>d. md_id d = newID) (mls_devices db) then Inl UniqueViolation
         else if \<not> sql_exists (\<lambda>u. u_id u = uid) (users db) then Inl ForeignKeyViolation
         else Inr (Some row, db\<lparr>mls_devices := sql_insert row (mls_devices db)\<rparr>))"

definition mapMissingReference :: "store_error \<Rightarrow> store_error" where
  "mapMissingReference err = (if err = ForeignKeyViolation then ErrNotFound else err)"

definition RegisterMlsDevice ::
  "instant \<Rightarrow> uuid \<Rightarrow> uuid \<Rightarrow> bytes \<Rightarrow> db \<Rightarrow> (store_error + device_row \<times> bool) \<times> db" where
  "RegisterMlsDevice now newID uid key db =
     (case insert_device now newID uid key db of
        Inl err \<Rightarrow> (Inl (mapMissingReference err), db)
      | Inr (Some device, db1) \<Rightarrow> (Inr (device, True), db1)
      | Inr (None, db1) \<Rightarrow>
          (case sql_row (\<lambda>d. md_user d = uid \<and> md_key d = key) (mls_devices db1) of
             None \<Rightarrow> (Inl ErrNotFound, db1)
           | Some device \<Rightarrow> (Inr (device, False), db1)))"

text \<open>The DELETE cascades to the device's key packages and its pending Welcomes (migration 0017).\<close>

definition DeregisterMlsDevice :: "uuid \<Rightarrow> uuid \<Rightarrow> db \<Rightarrow> (store_error + unit) \<times> db" where
  "DeregisterMlsDevice uid deviceID db =
     (let P = (\<lambda>d. md_id d = deviceID \<and> md_user d = uid)
      in if \<not> sql_exists P (mls_devices db) then (Inl ErrMlsDeviceNotFound, db)
         else (Inr (), db\<lparr>mls_devices := sql_delete P (mls_devices db),
                 mls_key_packages := sql_delete (\<lambda>k. kp_device k = deviceID) (mls_key_packages db),
                 mls_welcomes := sql_delete (\<lambda>w. mw_device w = deviceID) (mls_welcomes db)\<rparr>))"

definition mlsDeviceIDs :: "uuid \<Rightarrow> db \<Rightarrow> uuid list" where
  "mlsDeviceIDs uid db =
     map md_id (sql_order md_created (sql_order md_id (filter (\<lambda>d. md_user d = uid) (mls_devices db))))"

definition mlsDeviceOwners :: "uuid list \<Rightarrow> db \<Rightarrow> uuid list" where
  "mlsDeviceOwners deviceIDs db =
     remdups (map md_user (filter (\<lambda>d. md_id d \<in> set deviceIDs) (mls_devices db)))"

text \<open>
  One page of the allow-list: members past the cursor in user order, each with the keys of all its
  devices in registration order, none for a member without a device (the LEFT JOIN).
\<close>

definition member_keys :: "uuid \<Rightarrow> db \<Rightarrow> bytes list" where
  "member_keys uid db =
     map md_key (sql_order md_created (sql_order md_id (filter (\<lambda>d. md_user d = uid) (mls_devices db))))"

definition ListMlsMemberDevices :: "db \<Rightarrow> uuid \<Rightarrow> uuid option \<Rightarrow> nat \<Rightarrow> MlsMemberDevice list" where
  "ListMlsMemberDevices db ch after limit =
     (let rows = filter (\<lambda>m. cm_channel m = ch \<and> past cm_user after m) (channel_members db);
          ids = sort (remdups (map cm_user rows))
      in take limit (map (\<lambda>u. \<lparr>mm_UserID = u, mm_Keys = member_keys u db\<rparr>) ids))"

section \<open>Key packages\<close>

definition key_package_rows :: "instant \<Rightarrow> (nat \<Rightarrow> uuid) \<Rightarrow> uuid \<Rightarrow> bytes list \<Rightarrow> key_package_row list" where
  "key_package_rows now ids dev packages =
     map (\<lambda>i. \<lparr>kp_id = ids i, kp_device = dev, kp_data = packages ! i, kp_created = now\<rparr>) [0..<length packages]"

definition replace_packages_body ::
  "instant \<Rightarrow> (nat \<Rightarrow> uuid) \<Rightarrow> uuid \<Rightarrow> uuid \<Rightarrow> bytes list \<Rightarrow> (db, nat) tx" where
  "replace_packages_body now ids uid deviceID packages db =
     (if \<not> sql_exists (\<lambda>d. md_id d = deviceID \<and> md_user d = uid) (mls_devices db) then Inl ErrMlsDeviceNotFound
      else
        (let cleared = sql_delete (\<lambda>k. kp_device k = deviceID) (mls_key_packages db);
             rows = key_package_rows now ids deviceID packages
         in if \<not> distinct (map kp_id (cleared @ rows)) then Inl UniqueViolation
            else Inr (length rows, db\<lparr>mls_key_packages := cleared @ rows\<rparr>)))"

definition ReplaceMlsKeyPackages ::
  "instant \<Rightarrow> (nat \<Rightarrow> uuid) \<Rightarrow> uuid \<Rightarrow> uuid \<Rightarrow> bytes list \<Rightarrow> db \<Rightarrow> (store_error + nat) \<times> db" where
  "ReplaceMlsKeyPackages now ids uid deviceID packages =
     begin_func (replace_packages_body now ids uid deviceID packages)"

definition claim_key_package :: "(uuid \<Rightarrow> bool) \<Rightarrow> uuid \<Rightarrow> db \<Rightarrow> bytes option \<times> db" where
  "claim_key_package locked deviceID db =
     (case sql_order kp_created (sql_order kp_id
             (filter (\<lambda>k. kp_device k = deviceID \<and> \<not> locked (kp_id k)) (mls_key_packages db))) of
        [] \<Rightarrow> (None, db)
      | k # _ \<Rightarrow> (Some (kp_data k),
                  db\<lparr>mls_key_packages := sql_delete (\<lambda>x. kp_id x = kp_id k) (mls_key_packages db)\<rparr>))"

fun claim_loop ::
  "(uuid \<Rightarrow> bool) \<Rightarrow> uuid list \<Rightarrow> MlsKeyPackageClaim list \<Rightarrow> uuid list \<Rightarrow> db \<Rightarrow>
   MlsKeyPackageClaim list \<times> uuid list \<times> db" where
  "claim_loop locked [] claims missing db = (claims, missing, db)"
| "claim_loop locked (deviceID # ids) claims missing db =
     (case claim_key_package locked deviceID db of
        (None, db1) \<Rightarrow> claim_loop locked ids claims (missing @ [deviceID]) db1
      | (Some data, db1) \<Rightarrow>
          claim_loop locked ids (claims @ [\<lparr>kc_DeviceID = deviceID, kc_KeyPackage = data\<rparr>]) missing db1)"

definition claim_body ::
  "(uuid \<Rightarrow> bool) \<Rightarrow> uuid \<Rightarrow> uuid \<Rightarrow> (db, MlsKeyPackageClaim list \<times> uuid list) tx" where
  "claim_body locked ch target db =
     (if \<not> is_member ch target db then Inl ErrNotFound
      else (case claim_loop locked (mlsDeviceIDs target db) [] [] db of
              (claims, missing, db1) \<Rightarrow> Inr ((claims, missing), db1)))"

definition ClaimMlsKeyPackages ::
  "(uuid \<Rightarrow> bool) \<Rightarrow> uuid \<Rightarrow> uuid \<Rightarrow> db \<Rightarrow> (store_error + MlsKeyPackageClaim list \<times> uuid list) \<times> db" where
  "ClaimMlsKeyPackages locked ch target = begin_func (claim_body locked ch target)"

section \<open>Groups and commits\<close>

definition MlsGroupByChannel :: "uuid \<Rightarrow> db \<Rightarrow> store_error + group_row" where
  "MlsGroupByChannel ch db =
     (case sql_row (\<lambda>g. mg_channel g = ch) (mls_groups db) of
        None \<Rightarrow> Inl ErrMlsGroupNotFound | Some g \<Rightarrow> Inr g)"

definition insert_group :: "instant \<Rightarrow> uuid \<Rightarrow> bytes \<Rightarrow> (db, group_row) tx" where
  "insert_group now ch groupID db =
     (let row = \<lparr>mg_channel = ch, mg_group_id = groupID, mg_epoch = 0, mg_created = now\<rparr>
      in if sql_exists (\<lambda>g. mg_channel g = ch \<or> mg_group_id g = groupID) (mls_groups db) then Inl UniqueViolation
         else if \<not> sql_exists (\<lambda>c. c_id c = ch) (channels db) then Inl ForeignKeyViolation
         else Inr (row, db\<lparr>mls_groups := sql_insert row (mls_groups db)\<rparr>))"

definition mapMlsGroupConflict :: "store_error \<Rightarrow> store_error" where
  "mapMlsGroupConflict err =
     (case err of UniqueViolation \<Rightarrow> ErrMlsGroupExists | ForeignKeyViolation \<Rightarrow> ErrChannelNotFound | _ \<Rightarrow> err)"

definition CreateMlsGroup :: "instant \<Rightarrow> uuid \<Rightarrow> bytes \<Rightarrow> db \<Rightarrow> (store_error + group_row) \<times> db" where
  "CreateMlsGroup now ch groupID db =
     (case insert_group now ch groupID db of
        Inl err \<Rightarrow> (Inl (mapMlsGroupConflict err), db)
      | Inr (g, db1) \<Rightarrow> (Inr g, db1))"

text \<open>The compare-and-swap. The predicate picks the row first, then the new value is computed.\<close>

definition advance_epoch :: "uuid \<Rightarrow> int \<Rightarrow> (db, int option) tx" where
  "advance_epoch ch epoch db =
     (let P = (\<lambda>g. mg_channel g = ch \<and> mg_epoch g = epoch)
      in if \<not> sql_exists P (mls_groups db) then Inr (None, db)
         else if max_bigint < epoch + 1 then Inl NumericOutOfRange
         else Inr (Some (epoch + 1),
                   db\<lparr>mls_groups := sql_update P (\<lambda>g. g\<lparr>mg_epoch := mg_epoch g + 1\<rparr>) (mls_groups db)\<rparr>))"

definition mlsCASFailure :: "uuid \<Rightarrow> db \<Rightarrow> store_error" where
  "mlsCASFailure ch db =
     (if \<not> sql_exists (\<lambda>g. mg_channel g = ch) (mls_groups db) then ErrMlsGroupNotFound else ErrMlsEpochConflict)"

definition insert_commit :: "instant \<Rightarrow> uuid \<Rightarrow> int \<Rightarrow> bytes \<Rightarrow> (db, unit) tx" where
  "insert_commit now ch epoch message db =
     (let row = \<lparr>mc_channel = ch, mc_epoch = epoch, mc_message = message, mc_created = now\<rparr>
      in if sql_exists (\<lambda>c. mc_channel c = ch \<and> mc_epoch c = epoch) (mls_commits db) then Inl UniqueViolation
         else if \<not> sql_exists (\<lambda>g. mg_channel g = ch) (mls_groups db) then Inl ForeignKeyViolation
         else Inr ((), db\<lparr>mls_commits := sql_insert row (mls_commits db)\<rparr>))"

definition welcome_outsiders :: "uuid \<Rightarrow> uuid list \<Rightarrow> db \<Rightarrow> nat" where
  "welcome_outsiders ch recipients db =
     length (filter (\<lambda>(d, dev). md_id dev = d \<and> \<not> is_member ch (md_user dev) db)
       (List.product recipients (mls_devices db)))"

definition welcome_rows ::
  "instant \<Rightarrow> (nat \<Rightarrow> uuid) \<Rightarrow> uuid \<Rightarrow> uuid list \<Rightarrow> bytes \<Rightarrow> welcome_row list" where
  "welcome_rows now ids ch devs blob =
     map (\<lambda>i. \<lparr>mw_id = ids i, mw_channel = ch, mw_device = devs ! i, mw_welcome = blob, mw_created = now\<rparr>)
       [0..<length devs]"

definition insert_welcomes ::
  "instant \<Rightarrow> (nat \<Rightarrow> uuid) \<Rightarrow> uuid \<Rightarrow> uuid list \<Rightarrow> bytes \<Rightarrow> (db, unit) tx" where
  "insert_welcomes now ids ch devs blob db =
     (let rows = welcome_rows now ids ch devs blob
      in if \<not> distinct (map mw_id (mls_welcomes db @ rows)) then Inl UniqueViolation
         else if \<not> list_all (\<lambda>d. sql_exists (\<lambda>dev. md_id dev = d) (mls_devices db)) devs
              \<or> devs \<noteq> [] \<and> \<not> sql_exists (\<lambda>g. mg_channel g = ch) (mls_groups db)
         then Inl ForeignKeyViolation
         else Inr ((), db\<lparr>mls_welcomes := mls_welcomes db @ rows\<rparr>))"

definition mapMlsWelcomeConflict :: "store_error \<Rightarrow> store_error" where
  "mapMlsWelcomeConflict err = (if err = ForeignKeyViolation then ErrMlsDeviceNotFound else err)"

text \<open>The loop over the commit's Welcomes; the \<open>k\<close>-th draws its identifiers from \<open>ids k\<close>.\<close>

fun store_welcomes ::
  "instant \<Rightarrow> (nat \<Rightarrow> nat \<Rightarrow> uuid) \<Rightarrow> nat \<Rightarrow> uuid \<Rightarrow> MlsWelcomeDelivery list \<Rightarrow> (db, unit) tx" where
  "store_welcomes now ids k ch [] db = Inr ((), db)"
| "store_welcomes now ids k ch (w # ws) db =
     (case insert_welcomes now (ids k) ch (wd_DeviceIDs w) (wd_Welcome w) db of
        Inl err \<Rightarrow> Inl (mapMlsWelcomeConflict err)
      | Inr (_, db1) \<Rightarrow> store_welcomes now ids (Suc k) ch ws db1)"

definition submit_body ::
  "instant \<Rightarrow> (nat \<Rightarrow> nat \<Rightarrow> uuid) \<Rightarrow> NewMlsCommit \<Rightarrow> (db, MlsCommitOutcome) tx" where
  "submit_body now ids nc db =
     (case advance_epoch (nc_ChannelID nc) (nc_Epoch nc) db of
        Inl err \<Rightarrow> Inl err
      | Inr (None, db1) \<Rightarrow> Inl (mlsCASFailure (nc_ChannelID nc) db1)
      | Inr (Some newEpoch, db1) \<Rightarrow>
          (case insert_commit now (nc_ChannelID nc) newEpoch (nc_Message nc) db1 of
             Inl err \<Rightarrow> Inl err
           | Inr (_, db2) \<Rightarrow>
               if nc_Welcomes nc = [] then Inr (\<lparr>co_Epoch = newEpoch, co_WelcomeUserIDs = []\<rparr>, db2)
               else
                 (let recipients = concat (map wd_DeviceIDs (nc_Welcomes nc))
                  in if 0 < welcome_outsiders (nc_ChannelID nc) recipients db2 then Inl ErrMlsWelcomeOutsider
                     else case store_welcomes now ids 0 (nc_ChannelID nc) (nc_Welcomes nc) db2 of
                            Inl err \<Rightarrow> Inl err
                          | Inr (_, db3) \<Rightarrow>
                              Inr (\<lparr>co_Epoch = newEpoch, co_WelcomeUserIDs = mlsDeviceOwners recipients db3\<rparr>, db3))))"

definition SubmitMlsCommit ::
  "instant \<Rightarrow> (nat \<Rightarrow> nat \<Rightarrow> uuid) \<Rightarrow> NewMlsCommit \<Rightarrow> db \<Rightarrow> (store_error + MlsCommitOutcome) \<times> db" where
  "SubmitMlsCommit now ids nc = begin_func (submit_body now ids nc)"

definition scan_commit :: "commit_row \<Rightarrow> MlsCommit" where
  "scan_commit c = \<lparr>c_Epoch = mc_epoch c, c_Message = mc_message c, c_CreatedAt = mc_created c\<rparr>"

definition ListMlsCommits :: "db \<Rightarrow> uuid \<Rightarrow> int \<Rightarrow> nat \<Rightarrow> MlsCommit list" where
  "ListMlsCommits db ch afterEpoch limit =
     map scan_commit (take limit (sql_order mc_epoch
       (filter (\<lambda>c. mc_channel c = ch \<and> afterEpoch < mc_epoch c) (mls_commits db))))"

section \<open>Welcomes\<close>

definition ListMlsWelcomes :: "uuid \<Rightarrow> db \<Rightarrow> MlsWelcome list" where
  "ListMlsWelcomes uid db =
     concat (map (\<lambda>w.
       concat (map (\<lambda>d.
         map (\<lambda>g. \<lparr>w_ID = mw_id w, w_ChannelID = mw_channel w, w_GroupID = mg_group_id g,
                     w_DeviceID = mw_device w, w_Welcome = mw_welcome w, w_CreatedAt = mw_created w\<rparr>)
           (filter (\<lambda>g. mg_channel g = mw_channel w) (mls_groups db)))
         (filter (\<lambda>d. md_id d = mw_device w \<and> md_user d = uid) (mls_devices db))))
       (sql_order mw_created (sql_order mw_id (mls_welcomes db))))"

definition DeleteMlsWelcome :: "uuid \<Rightarrow> uuid \<Rightarrow> db \<Rightarrow> db" where
  "DeleteMlsWelcome uid welcomeID db = db\<lparr>mls_welcomes :=
     sql_delete (\<lambda>w. mw_id w = welcomeID \<and>
       sql_exists (\<lambda>d. md_id d = mw_device w \<and> md_user d = uid) (mls_devices db)) (mls_welcomes db)\<rparr>"

section \<open>The sealed backup\<close>

text \<open>The upsert whose conflict branch has a WHERE; the result is whether a row was written.\<close>

definition put_backup :: "instant \<Rightarrow> uuid \<Rightarrow> bytes \<Rightarrow> int \<Rightarrow> (db, bool) tx" where
  "put_backup now uid envelope counter db =
     (let row = \<lparr>mb_user = uid, mb_envelope = envelope, mb_counter = counter, mb_updated = now\<rparr>;
          P = (\<lambda>b. mb_user b = uid \<and> mb_counter b < counter)
      in if sql_exists (\<lambda>b. mb_user b = uid) (mls_backups db)
         then Inr (sql_exists P (mls_backups db), db\<lparr>mls_backups := sql_update P (\<lambda>b. row) (mls_backups db)\<rparr>)
         else if \<not> sql_exists (\<lambda>u. u_id u = uid) (users db) then Inl ForeignKeyViolation
         else Inr (True, db\<lparr>mls_backups := sql_insert row (mls_backups db)\<rparr>))"

definition PutMlsBackup ::
  "instant \<Rightarrow> uuid \<Rightarrow> bytes \<Rightarrow> int \<Rightarrow> db \<Rightarrow> (store_error + unit) \<times> db" where
  "PutMlsBackup now uid envelope counter db =
     (case put_backup now uid envelope counter db of
        Inl err \<Rightarrow> (Inl err, db)
      | Inr (affected, db1) \<Rightarrow> (if affected then Inr () else Inl ErrMlsBackupStale, db1))"

definition MlsBackupByUser :: "uuid \<Rightarrow> db \<Rightarrow> store_error + bytes \<times> int \<times> instant" where
  "MlsBackupByUser uid db =
     (case sql_row (\<lambda>b. mb_user b = uid) (mls_backups db) of
        None \<Rightarrow> Inl ErrMlsBackupNotFound
      | Some b \<Rightarrow> Inr (mb_envelope b, mb_counter b, mb_updated b))"

definition DeleteMlsBackup :: "uuid \<Rightarrow> db \<Rightarrow> db" where
  "DeleteMlsBackup uid db = db\<lparr>mls_backups := sql_delete (\<lambda>b. mb_user b = uid) (mls_backups db)\<rparr>"

section \<open>What each operation does\<close>

lemma sql_order_Cons:
  assumes "sql_order f (sql_order g xs) = k # ks"
  shows "k \<in> set xs" and "\<forall>x \<in> set xs. f k < f x \<or> f k = f x \<and> g k \<le> g x"
proof -
  have srt: "sorted_wrt (\<lambda>a b. g a \<le> g b) (sql_order g xs)"
    using sorted_sort_key [of g xs] by (simp add: sql_order_def sorted_wrt_map)
  have set: "set (k # ks) = set xs" using arg_cong [OF assms, of set] by simp
  then show "k \<in> set xs" by auto
  have "sorted_wrt (\<lambda>a b. f a < f b \<or> f a = f b \<and> g a \<le> g b) (k # ks)"
    using sql_order_lex [OF srt, of f] assms by simp
  then show "\<forall>x \<in> set xs. f k < f x \<or> f k = f x \<and> g k \<le> g x"
    unfolding set [symmetric] by auto
qed

lemma sql_row_append: "sql_row P (xs @ ys) = (case sql_row P xs of None \<Rightarrow> sql_row P ys | Some r \<Rightarrow> Some r)"
  by (induction xs) (auto simp: sql_row_def)

lemma sql_row_single: "sql_row P [x] = (if P x then Some x else None)"
  by (simp add: sql_row_def)

lemma sql_row_filter: "sql_row P xs = (case filter P xs of [] \<Rightarrow> None | x # _ \<Rightarrow> Some x)"
  by (induction xs) (auto simp: sql_row_def)

lemma sql_order_Nil: "sql_order f xs = [] \<longleftrightarrow> xs = []"
  by (metis set_empty set_sql_order)

text \<open>The package a claim takes: of the device's unlocked ones, the oldest.\<close>

definition oldest :: "(uuid \<Rightarrow> bool) \<Rightarrow> key_package_row list \<Rightarrow> key_package_row \<Rightarrow> bool" where
  "oldest locked K k \<longleftrightarrow> k \<in> set K \<and> \<not> locked (kp_id k) \<and>
     (\<forall>x \<in> set K. kp_device x = kp_device k \<and> \<not> locked (kp_id x) \<longrightarrow>
        kp_created k < kp_created x \<or> kp_created k = kp_created x \<and> kp_id k \<le> kp_id x)"

lemma claim_one_cases:
  obtains (empty) "claim_key_package locked dev db = (None, db)"
      "\<forall>k \<in> set (mls_key_packages db). kp_device k = dev \<longrightarrow> locked (kp_id k)"
  | (taken) k where "oldest locked (mls_key_packages db) k" "kp_device k = dev"
      "claim_key_package locked dev db = (Some (kp_data k),
         db\<lparr>mls_key_packages := sql_delete (\<lambda>x. kp_id x = kp_id k) (mls_key_packages db)\<rparr>)"
proof (cases "sql_order kp_created (sql_order kp_id
    (filter (\<lambda>k. kp_device k = dev \<and> \<not> locked (kp_id k)) (mls_key_packages db)))")
  case Nil
  then have "\<forall>k \<in> set (mls_key_packages db). kp_device k = dev \<longrightarrow> locked (kp_id k)"
    by (auto simp: sql_order_Nil filter_empty_conv)
  with Nil empty show thesis by (simp add: claim_key_package_def)
next
  case (Cons k ks)
  have "oldest locked (mls_key_packages db) k" "kp_device k = dev"
    using sql_order_Cons [OF Cons] by (auto simp: oldest_def)
  with Cons taken show thesis by (simp add: claim_key_package_def)
qed

text \<open>
  The whole claim: from the pool before it, packages of distinct devices, each the oldest of its
  device, are handed out; every other device has none that is free.
\<close>

definition handed_out ::
  "(uuid \<Rightarrow> bool) \<Rightarrow> uuid list \<Rightarrow> key_package_row list \<Rightarrow> key_package_row list \<Rightarrow> bool" where
  "handed_out locked devs K ks \<longleftrightarrow> map kp_device ks = filter (\<lambda>d. d \<in> kp_device ` set ks) devs \<and>
     (\<forall>k \<in> set ks. oldest locked K k) \<and>
     (\<forall>d \<in> set devs - kp_device ` set ks. \<forall>k \<in> set K. kp_device k = d \<longrightarrow> locked (kp_id k))"

lemma handed_out_devices: "handed_out locked devs K ks \<Longrightarrow> kp_device ` set ks \<subseteq> set devs"
  unfolding handed_out_def by (metis filter_is_subset list.set_map)

lemma handed_out_skip:
  assumes "\<forall>k \<in> set K. kp_device k = d \<longrightarrow> locked (kp_id k)" and "d \<notin> set devs"
    and "handed_out locked devs K ks"
  shows "handed_out locked (d # devs) K ks"
    and "filter (\<lambda>x. x \<notin> kp_device ` set ks) (d # devs) = d # filter (\<lambda>x. x \<notin> kp_device ` set ks) devs"
proof -
  have "d \<notin> kp_device ` set ks" using handed_out_devices [OF assms(3)] assms(2) by blast
  then show "filter (\<lambda>x. x \<notin> kp_device ` set ks) (d # devs) = d # filter (\<lambda>x. x \<notin> kp_device ` set ks) devs"
    by simp
  from \<open>d \<notin> kp_device ` set ks\<close> assms show "handed_out locked (d # devs) K ks"
    unfolding handed_out_def by auto
qed

lemma handed_out_take:
  assumes "oldest locked K k" and "kp_device k \<notin> set devs"
    and ks: "handed_out locked devs (filter (\<lambda>x. x \<noteq> k) K) ks"
  shows "handed_out locked (kp_device k # devs) K (k # ks)"
    and "filter (\<lambda>x. x \<notin> kp_device ` set (k # ks)) (kp_device k # devs)
           = filter (\<lambda>x. x \<notin> kp_device ` set ks) devs"
proof -
  have other: "kp_device x \<noteq> kp_device k" if "x \<in> set ks" for x
    using that handed_out_devices [OF ks] assms(2) by (metis image_eqI subsetD)
  have "oldest locked K x" if "x \<in> set ks" for x
  proof -
    have "oldest locked (filter (\<lambda>x. x \<noteq> k) K) x" using that ks by (simp add: handed_out_def)
    with other [OF that] show ?thesis by (auto simp: oldest_def)
  qed
  moreover have "filter (\<lambda>x. x \<in> kp_device ` set (k # ks)) devs = filter (\<lambda>x. x \<in> kp_device ` set ks) devs"
    by (rule filter_cong) (use assms(2) in auto)
  moreover have "locked (kp_id x)"
    if x: "x \<in> set K" "kp_device x \<in> set devs" "kp_device x \<notin> kp_device ` set ks" for x
  proof -
    have "x \<noteq> k" using x(2) assms(2) by auto
    with x ks show ?thesis by (auto simp: handed_out_def)
  qed
  moreover have "map kp_device ks = filter (\<lambda>x. x \<in> kp_device ` set ks) devs"
    using ks by (simp add: handed_out_def)
  ultimately show "handed_out locked (kp_device k # devs) K (k # ks)"
    unfolding handed_out_def using assms(1)
    by (intro conjI ballI impI) (simp, auto)
  show "filter (\<lambda>x. x \<notin> kp_device ` set (k # ks)) (kp_device k # devs)
      = filter (\<lambda>x. x \<notin> kp_device ` set ks) devs"
    using assms(2) by (auto intro!: filter_cong)
qed

abbreviation claim_of :: "key_package_row \<Rightarrow> MlsKeyPackageClaim" where
  "claim_of k \<equiv> \<lparr>kc_DeviceID = kp_device k, kc_KeyPackage = kp_data k\<rparr>"

lemma claim_loop_effect:
  assumes "claim_loop locked devs claims missing db = (claims', missing', db')" and "distinct devs"
    and "distinct (map kp_id (mls_key_packages db))"
  shows "\<exists>ks. handed_out locked devs (mls_key_packages db) ks \<and> claims' = claims @ map claim_of ks \<and>
     missing' = missing @ filter (\<lambda>d. d \<notin> kp_device ` set ks) devs \<and>
     db' = db\<lparr>mls_key_packages := filter (\<lambda>k. k \<notin> set ks) (mls_key_packages db)\<rparr>"
  using assms
proof (induction devs arbitrary: claims missing db)
  case Nil
  then show ?case by (intro exI [of _ "[]"]) (simp add: handed_out_def)
next
  case (Cons d devs)
  have d: "d \<notin> set devs" "distinct devs" using Cons.prems(2) by auto
  from claim_one_cases [of locked d db] show ?case
  proof cases
    case empty
    with Cons.prems(1) have "claim_loop locked devs claims (missing @ [d]) db = (claims', missing', db')" by simp
    from Cons.IH [OF this d(2) Cons.prems(3)] obtain ks where
      ks: "handed_out locked devs (mls_key_packages db) ks" "claims' = claims @ map claim_of ks"
        "missing' = (missing @ [d]) @ filter (\<lambda>d. d \<notin> kp_device ` set ks) devs"
        "db' = db\<lparr>mls_key_packages := filter (\<lambda>k. k \<notin> set ks) (mls_key_packages db)\<rparr>"
      by blast
    from handed_out_skip [OF empty(2) d(1) ks(1)] ks(2-) show ?thesis by (intro exI [of _ ks]) simp
  next
    case (taken k)
    let ?K1 = "filter (\<lambda>x. x \<noteq> k) (mls_key_packages db)"
    have k: "k \<in> set (mls_key_packages db)" using taken(1) by (simp add: oldest_def)
    have del: "sql_delete (\<lambda>x. kp_id x = kp_id k) (mls_key_packages db) = ?K1"
      unfolding sql_delete_def by (rule filter_cong) (use Cons.prems(3) k in \<open>auto intro: distinct_map_inj\<close>)
    have loop: "claim_loop locked devs (claims @ [claim_of k]) missing (db\<lparr>mls_key_packages := ?K1\<rparr>)
        = (claims', missing', db')"
      using Cons.prems(1) taken(2,3) del by simp
    have "distinct (map kp_id (mls_key_packages (db\<lparr>mls_key_packages := ?K1\<rparr>)))"
      using Cons.prems(3) by (simp add: distinct_map_filter)
    from Cons.IH [OF loop d(2) this] obtain ks where
      ks: "handed_out locked devs ?K1 ks" "claims' = (claims @ [claim_of k]) @ map claim_of ks"
        "missing' = missing @ filter (\<lambda>d. d \<notin> kp_device ` set ks) devs"
        "db' = db\<lparr>mls_key_packages := filter (\<lambda>k. k \<notin> set ks) ?K1\<rparr>"
      by auto
    have "filter (\<lambda>x. x \<notin> set ks) ?K1 = filter (\<lambda>x. x \<notin> set (k # ks)) (mls_key_packages db)"
      unfolding filter_filter by (rule filter_cong) auto
    moreover from handed_out_take [OF taken(1) _ ks(1)] taken(2) d(1)
    have "handed_out locked (d # devs) (mls_key_packages db) (k # ks)"
      "filter (\<lambda>x. x \<notin> kp_device ` set (k # ks)) (d # devs) = filter (\<lambda>x. x \<notin> kp_device ` set ks) devs"
      by simp_all
    ultimately show ?thesis
      using ks(2-4) by (intro exI [of _ "k # ks"]) (simp del: filter.simps filter_filter)
  qed
qed

text \<open>What a commit's Welcomes fan out to: one pair per device of each delivery, in order.\<close>

definition fan_out :: "MlsWelcomeDelivery list \<Rightarrow> (uuid \<times> bytes) list" where
  "fan_out ws = concat (map (\<lambda>w. map (\<lambda>d. (d, wd_Welcome w)) (wd_DeviceIDs w)) ws)"

lemma map_fst_fan_out: "map fst (fan_out ws) = concat (map wd_DeviceIDs ws)"
  by (induction ws) (auto simp: fan_out_def comp_def)

lemma welcome_rows_pairs:
  "map (\<lambda>r. (mw_device r, mw_welcome r)) (welcome_rows now ids ch devs blob) = map (\<lambda>d. (d, blob)) devs"
  by (rule nth_equalityI) (simp_all add: welcome_rows_def)

lemma welcome_rows_in:
  "r \<in> set (welcome_rows now ids ch devs blob) \<Longrightarrow> mw_channel r = ch \<and> mw_device r \<in> set devs"
  by (auto simp: welcome_rows_def)

lemma store_welcomes_effect:
  assumes "store_welcomes now ids k ch ws db = Inr (x, db')" and "distinct (map mw_id (mls_welcomes db))"
  shows "\<exists>rows. db' = db\<lparr>mls_welcomes := mls_welcomes db @ rows\<rparr> \<and>
     map (\<lambda>r. (mw_device r, mw_welcome r)) rows = fan_out ws \<and>
     (\<forall>r \<in> set rows. mw_channel r = ch \<and> mw_device r \<in> md_id ` set (mls_devices db)) \<and>
     distinct (map mw_id (mls_welcomes db @ rows))"
  using assms
proof (induction ws arbitrary: k db)
  case Nil
  then show ?case by (intro exI [of _ "[]"]) (simp add: fan_out_def)
next
  case (Cons w ws)
  let ?rows = "welcome_rows now (ids k) ch (wd_DeviceIDs w) (wd_Welcome w)"
  let ?db1 = "db\<lparr>mls_welcomes := mls_welcomes db @ ?rows\<rparr>"
  have ins: "insert_welcomes now (ids k) ch (wd_DeviceIDs w) (wd_Welcome w) db = Inr ((), ?db1)"
    and dist: "distinct (map mw_id (mls_welcomes db @ ?rows))"
    and devs: "set (wd_DeviceIDs w) \<subseteq> md_id ` set (mls_devices db)"
    using Cons.prems(1) by (auto simp: insert_welcomes_def Let_def list_all_iff image_iff split: if_splits sum.splits)
  have "store_welcomes now ids (Suc k) ch ws ?db1 = Inr (x, db')"
    using Cons.prems(1) ins by simp
  from Cons.IH [OF this] dist obtain rows where rows: "db' = ?db1\<lparr>mls_welcomes := (mls_welcomes db @ ?rows) @ rows\<rparr>"
      "map (\<lambda>r. (mw_device r, mw_welcome r)) rows = fan_out ws"
      "\<forall>r \<in> set rows. mw_channel r = ch \<and> mw_device r \<in> md_id ` set (mls_devices db)"
      "distinct (map mw_id ((mls_welcomes db @ ?rows) @ rows))"
    by auto
  show ?case
  proof (intro exI [of _ "?rows @ rows"] conjI)
    show "map (\<lambda>r. (mw_device r, mw_welcome r)) (?rows @ rows) = fan_out (w # ws)"
      using rows(2) by (simp add: welcome_rows_pairs fan_out_def)
    show "\<forall>r \<in> set (?rows @ rows). mw_channel r = ch \<and> mw_device r \<in> md_id ` set (mls_devices db)"
      using rows(3) devs welcome_rows_in by fastforce
  qed (use rows in simp_all)
qed

lemma welcome_outsiders_0:
  "welcome_outsiders ch recipients db = 0 \<longleftrightarrow>
     (\<forall>dev \<in> set (mls_devices db). md_id dev \<in> set recipients \<longrightarrow> is_member ch (md_user dev) db)"
  by (auto simp: welcome_outsiders_def filter_empty_conv)

text \<open>An accepted commit, in full.\<close>

lemma submit_effect:
  assumes "submit_body now ids nc db = Inr (out, db')" and "distinct (map mw_id (mls_welcomes db))"
  shows "\<exists>rows. (\<exists>g \<in> set (mls_groups db). mg_channel g = nc_ChannelID nc \<and> mg_epoch g = nc_Epoch nc) \<and>
     nc_Epoch nc + 1 \<le> max_bigint \<and> co_Epoch out = nc_Epoch nc + 1 \<and>
     (\<forall>c \<in> set (mls_commits db). mc_channel c = nc_ChannelID nc \<longrightarrow> mc_epoch c \<noteq> nc_Epoch nc + 1) \<and>
     db' = db\<lparr>mls_groups := sql_update (\<lambda>g. mg_channel g = nc_ChannelID nc \<and> mg_epoch g = nc_Epoch nc)
                 (\<lambda>g. g\<lparr>mg_epoch := mg_epoch g + 1\<rparr>) (mls_groups db),
               mls_commits := mls_commits db @ [\<lparr>mc_channel = nc_ChannelID nc, mc_epoch = nc_Epoch nc + 1,
                 mc_message = nc_Message nc, mc_created = now\<rparr>],
               mls_welcomes := mls_welcomes db @ rows\<rparr> \<and>
     map (\<lambda>r. (mw_device r, mw_welcome r)) rows = fan_out (nc_Welcomes nc) \<and>
     (\<forall>r \<in> set rows. mw_channel r = nc_ChannelID nc \<and> mw_device r \<in> md_id ` set (mls_devices db)) \<and>
     distinct (map mw_id (mls_welcomes db @ rows)) \<and>
     (\<forall>dev \<in> set (mls_devices db). md_id dev \<in> fst ` set (fan_out (nc_Welcomes nc)) \<longrightarrow>
        is_member (nc_ChannelID nc) (md_user dev) db) \<and>
     set (co_WelcomeUserIDs out) = md_user ` {dev \<in> set (mls_devices db). md_id dev \<in> fst ` set (fan_out (nc_Welcomes nc))}"
proof -
  let ?ch = "nc_ChannelID nc" and ?e = "nc_Epoch nc" and ?ws = "nc_Welcomes nc"
  let ?P = "\<lambda>g. mg_channel g = ?ch \<and> mg_epoch g = ?e"
  let ?db1 = "db\<lparr>mls_groups := sql_update ?P (\<lambda>g. g\<lparr>mg_epoch := mg_epoch g + 1\<rparr>) (mls_groups db)\<rparr>"
  let ?row = "\<lparr>mc_channel = ?ch, mc_epoch = ?e + 1, mc_message = nc_Message nc, mc_created = now\<rparr>"
  let ?db2 = "?db1\<lparr>mls_commits := mls_commits db @ [?row]\<rparr>"
  have adv: "\<exists>g \<in> set (mls_groups db). ?P g" "?e + 1 \<le> max_bigint"
      "advance_epoch ?ch ?e db = Inr (Some (?e + 1), ?db1)"
    using assms(1) by (auto simp: submit_body_def advance_epoch_def Let_def split: if_splits)
  then have com: "insert_commit now ?ch (?e + 1) (nc_Message nc) ?db1 = Inr ((), ?db2)"
      "\<forall>c \<in> set (mls_commits db). mc_channel c = ?ch \<longrightarrow> mc_epoch c \<noteq> ?e + 1"
    using assms(1) by (auto simp: submit_body_def insert_commit_def sql_insert_def Let_def split: if_splits)
  have rcp: "fst ` set (fan_out ?ws) = set (concat (map wd_DeviceIDs ?ws))"
    by (metis list.set_map map_fst_fan_out)
  show ?thesis
  proof (cases "?ws = []")
    case True
    then show ?thesis using assms adv com
      by (intro exI [of _ "[]"]) (auto simp: submit_body_def fan_out_def)
  next
    case False
    then obtain db3 where st: "store_welcomes now ids 0 ?ch ?ws ?db2 = Inr ((), db3)" "db' = db3"
      and out: "out = \<lparr>co_Epoch = ?e + 1, co_WelcomeUserIDs = mlsDeviceOwners (concat (map wd_DeviceIDs ?ws)) db3\<rparr>"
      and ins: "welcome_outsiders ?ch (concat (map wd_DeviceIDs ?ws)) ?db2 = 0"
      using assms(1) adv(3) com(1) by (auto simp: submit_body_def Let_def split: if_splits sum.splits)
    from store_welcomes_effect [OF st(1)] assms(2) obtain rows where rows:
        "db3 = ?db2\<lparr>mls_welcomes := mls_welcomes db @ rows\<rparr>"
        "map (\<lambda>r. (mw_device r, mw_welcome r)) rows = fan_out ?ws"
        "\<forall>r \<in> set rows. mw_channel r = ?ch \<and> mw_device r \<in> md_id ` set (mls_devices db)"
        "distinct (map mw_id (mls_welcomes db @ rows))"
      by auto
    have "\<forall>dev \<in> set (mls_devices db). md_id dev \<in> fst ` set (fan_out ?ws) \<longrightarrow> is_member ?ch (md_user dev) db"
      using ins unfolding welcome_outsiders_0 rcp by (simp add: is_member_def)
    moreover have "set (co_WelcomeUserIDs out) =
        md_user ` {dev \<in> set (mls_devices db). md_id dev \<in> fst ` set (fan_out ?ws)}"
      unfolding rcp by (auto simp: out mlsDeviceOwners_def rows(1))
    moreover have "db' = db\<lparr>mls_groups := sql_update ?P (\<lambda>g. g\<lparr>mg_epoch := mg_epoch g + 1\<rparr>) (mls_groups db),
        mls_commits := mls_commits db @ [?row], mls_welcomes := mls_welcomes db @ rows\<rparr>"
      using st(2) rows(1) by simp
    ultimately show ?thesis using adv(1,2) com(2) rows(2-4) out by (intro exI [of _ rows]) simp
  qed
qed

section \<open>The invariant\<close>

text \<open>
  Between transactions: a channel has at most one group and no two channels share one; the commits of
  a group are exactly the epochs 1 to its current one, each once; every commit and Welcome belongs to
  a group, every key package and Welcome to a device; a user has a signature key at most once.
\<close>

definition logs_ok :: "group_row list \<Rightarrow> commit_row list \<Rightarrow> bool" where
  "logs_ok G C \<longleftrightarrow> distinct (map mg_channel G) \<and> distinct (map mg_group_id G) \<and>
     distinct (map (\<lambda>c. (mc_channel c, mc_epoch c)) C) \<and> mc_channel ` set C \<subseteq> mg_channel ` set G \<and>
     (\<forall>g \<in> set G. 0 \<le> mg_epoch g \<and>
        mc_epoch ` {c \<in> set C. mc_channel c = mg_channel g} = {1..mg_epoch g})"

definition devices_ok :: "device_row list \<Rightarrow> key_package_row list \<Rightarrow> welcome_row list \<Rightarrow> bool" where
  "devices_ok D K W \<longleftrightarrow> distinct (map md_id D) \<and> distinct (map (\<lambda>d. (md_user d, md_key d)) D) \<and>
     distinct (map kp_id K) \<and> distinct (map mw_id W) \<and>
     kp_device ` set K \<subseteq> md_id ` set D \<and> mw_device ` set W \<subseteq> md_id ` set D"

definition mls_inv :: "db \<Rightarrow> bool" where
  "mls_inv db \<longleftrightarrow> logs_ok (mls_groups db) (mls_commits db) \<and>
     devices_ok (mls_devices db) (mls_key_packages db) (mls_welcomes db) \<and>
     mw_channel ` set (mls_welcomes db) \<subseteq> mg_channel ` set (mls_groups db)"

lemma logs_ok_create:
  assumes "logs_ok G C" and "ch \<notin> mg_channel ` set G" and "gid \<notin> mg_group_id ` set G"
  shows "logs_ok (G @ [\<lparr>mg_channel = ch, mg_group_id = gid, mg_epoch = 0, mg_created = now\<rparr>]) C"
proof -
  have "{c \<in> set C. mc_channel c = ch} = {}" using assms(1,2) by (auto simp: logs_ok_def)
  with assms show ?thesis by (auto simp: logs_ok_def)
qed

lemma logs_ok_commit:
  assumes ok: "logs_ok G C" and g: "g \<in> set G" "mg_channel g = ch" "mg_epoch g = e"
    and c: "mc_channel c = ch" "mc_epoch c = e + 1"
  shows "logs_ok (sql_update (\<lambda>g. mg_channel g = ch \<and> mg_epoch g = e) (\<lambda>g. g\<lparr>mg_epoch := mg_epoch g + 1\<rparr>) G) (C @ [c])"
    (is "logs_ok ?G ?C")
proof -
  have chans: "map mg_channel ?G = map mg_channel G" "map mg_group_id ?G = map mg_group_id G"
    by (simp_all add: map_sql_update_frame)
  then have set: "mg_channel ` set ?G = mg_channel ` set G" by (metis list.set_map)
  have e: "0 \<le> e" and log: "mc_epoch ` {c \<in> set C. mc_channel c = ch} = {1..e}"
    using ok g by (auto simp: logs_ok_def)
  have "0 \<le> mg_epoch h \<and> mc_epoch ` {c \<in> set ?C. mc_channel c = mg_channel h} = {1..mg_epoch h}"
    if "h \<in> set ?G" for h
    using that
  proof (cases rule: sql_updateE)
    case (changed x)
    have "{x \<in> set ?C. mc_channel x = mg_channel h} = insert c {x \<in> set C. mc_channel x = ch}"
      using changed c by auto
    moreover have "insert (e + 1) {1..e} = {1..e + 1}" using e by auto
    ultimately show ?thesis using changed log c(2) e by simp
  next
    case kept
    have "mg_channel h \<noteq> ch"
    proof
      assume "mg_channel h = ch"
      then have "h = g" using kept(1) g ok by (auto simp: logs_ok_def intro: distinct_map_inj)
      with kept g show False by simp
    qed
    then have "{x \<in> set ?C. mc_channel x = mg_channel h} = {x \<in> set C. mc_channel x = mg_channel h}"
      using c by auto
    with kept(1) ok show ?thesis by (simp add: logs_ok_def)
  qed
  moreover have "(ch, e + 1) \<notin> (\<lambda>c. (mc_channel c, mc_epoch c)) ` set C"
  proof
    assume "(ch, e + 1) \<in> (\<lambda>c. (mc_channel c, mc_epoch c)) ` set C"
    then have "e + 1 \<in> mc_epoch ` {c \<in> set C. mc_channel c = ch}" by force
    with log show False by simp
  qed
  moreover have "ch \<in> mg_channel ` set G" using g by blast
  ultimately show ?thesis using ok c unfolding logs_ok_def chans set by auto
qed

lemma devices_ok_shrink:
  assumes "devices_ok D K W"
  shows "devices_ok D (filter P K) (filter Q W)"
  using assms by (auto simp: devices_ok_def distinct_map_filter)

inductive mls_step :: "instant \<Rightarrow> db \<Rightarrow> db \<Rightarrow> bool" where
  register: "mls_step now db (snd (RegisterMlsDevice now newID uid key db))"
| deregister: "mls_step now db (snd (DeregisterMlsDevice uid dev db))"
| replace: "mls_step now db (snd (ReplaceMlsKeyPackages now ids uid dev packages db))"
| claim: "mls_step now db (snd (ClaimMlsKeyPackages locked ch target db))"
| create: "mls_step now db (snd (CreateMlsGroup now ch gid db))"
| submit: "mls_step now db (snd (SubmitMlsCommit now wids nc db))"
| acknowledge: "mls_step now db (DeleteMlsWelcome uid w db)"
| other: "mls_devices db' = mls_devices db \<Longrightarrow> mls_key_packages db' = mls_key_packages db \<Longrightarrow>
    mls_groups db' = mls_groups db \<Longrightarrow> mls_commits db' = mls_commits db \<Longrightarrow>
    mls_welcomes db' = mls_welcomes db \<Longrightarrow> mls_step now db db'"

inductive mls_run :: "db \<Rightarrow> db \<Rightarrow> bool" for db where
  here: "mls_run db db"
| later: "mls_run db db1 \<Longrightarrow> mls_step now db1 db2 \<Longrightarrow> mls_run db db2"

lemma register_inv:
  assumes "mls_inv db"
  shows "mls_inv (snd (RegisterMlsDevice now i uid key db))"
  using assms
  by (auto simp: RegisterMlsDevice_def insert_device_def mls_inv_def devices_ok_def sql_insert_def Let_def
      split: option.splits)

lemma deregister_inv:
  assumes "mls_inv db"
  shows "mls_inv (snd (DeregisterMlsDevice uid dev db))"
proof -
  have D: "devices_ok (mls_devices db) (mls_key_packages db) (mls_welcomes db)" using assms by (simp add: mls_inv_def)
  have keep: "d \<in> md_id ` {d \<in> set (mls_devices db). \<not> (md_id d = dev \<and> md_user d = uid)}"
    if "d \<in> md_id ` set (mls_devices db)" "d \<noteq> dev" for d
    using that by auto
  have "devices_ok (sql_delete (\<lambda>d. md_id d = dev \<and> md_user d = uid) (mls_devices db))
      (sql_delete (\<lambda>k. kp_device k = dev) (mls_key_packages db)) (sql_delete (\<lambda>w. mw_device w = dev) (mls_welcomes db))"
    using D keep unfolding devices_ok_def by (auto simp: distinct_map_sql_delete)
  with assms show ?thesis by (auto simp: DeregisterMlsDevice_def Let_def mls_inv_def)
qed

lemma replace_inv:
  assumes "mls_inv db"
  shows "mls_inv (snd (ReplaceMlsKeyPackages now ids uid dev packages db))"
  unfolding ReplaceMlsKeyPackages_def
proof (rule begin_func_invariant [of mls_inv, OF assms])
  fix n db' assume body: "replace_packages_body now ids uid dev packages db = Inr (n, db')"
  let ?rows = "key_package_rows now ids dev packages"
  have dev: "dev \<in> md_id ` set (mls_devices db)"
    and dist: "distinct (map kp_id (sql_delete (\<lambda>k. kp_device k = dev) (mls_key_packages db) @ ?rows))"
    and db': "db' = db\<lparr>mls_key_packages := sql_delete (\<lambda>k. kp_device k = dev) (mls_key_packages db) @ ?rows\<rparr>"
    using body by (auto simp: replace_packages_body_def Let_def split: if_splits)
  have "kp_device ` set ?rows \<subseteq> md_id ` set (mls_devices db)" using dev by (auto simp: key_package_rows_def)
  with assms dist show "mls_inv db'" unfolding mls_inv_def devices_ok_def db' by auto
qed

lemma mlsDeviceIDs_distinct: "distinct (map md_id (mls_devices db)) \<Longrightarrow> distinct (mlsDeviceIDs uid db)"
  by (simp add: mlsDeviceIDs_def sql_order_def distinct_map inj_on_def)

lemma claim_effect:
  assumes body: "claim_body locked ch target db = Inr ((claims, missing), db')" and inv: "mls_inv db"
  shows "\<exists>ks. handed_out locked (mlsDeviceIDs target db) (mls_key_packages db) ks \<and> claims = map claim_of ks \<and>
     missing = filter (\<lambda>d. d \<notin> kp_device ` set ks) (mlsDeviceIDs target db) \<and>
     db' = db\<lparr>mls_key_packages := filter (\<lambda>k. k \<notin> set ks) (mls_key_packages db)\<rparr>"
proof -
  have "claim_loop locked (mlsDeviceIDs target db) [] [] db = (claims, missing, db')"
    using body by (auto simp: claim_body_def split: if_splits prod.splits)
  from claim_loop_effect [OF this] mlsDeviceIDs_distinct inv show ?thesis
    by (simp add: mls_inv_def devices_ok_def)
qed

lemma claim_inv:
  assumes "mls_inv db"
  shows "mls_inv (snd (ClaimMlsKeyPackages locked ch target db))"
  unfolding ClaimMlsKeyPackages_def
proof (rule begin_func_invariant [of mls_inv, OF assms])
  fix r db' assume body: "claim_body locked ch target db = Inr (r, db')"
  obtain claims missing where "r = (claims, missing)" by (cases r)
  then obtain ks where "db' = db\<lparr>mls_key_packages := filter (\<lambda>k. k \<notin> set ks) (mls_key_packages db)\<rparr>"
    using claim_effect [OF _ assms] body by blast
  then show "mls_inv db'"
    using assms devices_ok_shrink [of "mls_devices db" "mls_key_packages db" "mls_welcomes db" "\<lambda>k. k \<notin> set ks" "\<lambda>_. True"]
    by (simp add: mls_inv_def)
qed

lemma create_inv:
  assumes "mls_inv db"
  shows "mls_inv (snd (CreateMlsGroup now ch gid db))"
proof (cases "insert_group now ch gid db")
  case (Inl e)
  then show ?thesis using assms by (simp add: CreateMlsGroup_def)
next
  case (Inr p)
  then have free: "ch \<notin> mg_channel ` set (mls_groups db)" "gid \<notin> mg_group_id ` set (mls_groups db)"
    and "snd (CreateMlsGroup now ch gid db) = db\<lparr>mls_groups := mls_groups db @
       [\<lparr>mg_channel = ch, mg_group_id = gid, mg_epoch = 0, mg_created = now\<rparr>]\<rparr>"
    by (auto simp: CreateMlsGroup_def insert_group_def sql_insert_def Let_def split: if_splits)
  with assms logs_ok_create [OF _ free] show ?thesis by (auto simp: mls_inv_def)
qed

lemma submit_inv:
  assumes inv: "mls_inv db"
  shows "mls_inv (snd (SubmitMlsCommit now ids nc db))"
  unfolding SubmitMlsCommit_def
proof (rule begin_func_invariant [of mls_inv, OF inv])
  fix out db' assume body: "submit_body now ids nc db = Inr (out, db')"
  have "distinct (map mw_id (mls_welcomes db))" using inv by (simp add: mls_inv_def devices_ok_def)
  from submit_effect [OF body this] obtain rows g where g: "g \<in> set (mls_groups db)"
      "mg_channel g = nc_ChannelID nc" "mg_epoch g = nc_Epoch nc"
    and db': "db' = db\<lparr>mls_groups := sql_update (\<lambda>g. mg_channel g = nc_ChannelID nc \<and> mg_epoch g = nc_Epoch nc)
                 (\<lambda>g. g\<lparr>mg_epoch := mg_epoch g + 1\<rparr>) (mls_groups db),
               mls_commits := mls_commits db @ [\<lparr>mc_channel = nc_ChannelID nc, mc_epoch = nc_Epoch nc + 1,
                 mc_message = nc_Message nc, mc_created = now\<rparr>],
               mls_welcomes := mls_welcomes db @ rows\<rparr>"
    and rows: "\<forall>r \<in> set rows. mw_channel r = nc_ChannelID nc \<and> mw_device r \<in> md_id ` set (mls_devices db)"
      "distinct (map mw_id (mls_welcomes db @ rows))"
    by blast
  have "logs_ok (mls_groups db') (mls_commits db')"
    using inv g by (simp add: db' mls_inv_def logs_ok_commit)
  moreover have "devices_ok (mls_devices db') (mls_key_packages db') (mls_welcomes db')"
    using inv rows by (auto simp: db' mls_inv_def devices_ok_def)
  moreover have "mg_channel ` set (mls_groups db') = mg_channel ` set (mls_groups db)"
  proof -
    have "map mg_channel (mls_groups db') = map mg_channel (mls_groups db)" by (simp add: db' map_sql_update_frame)
    then show ?thesis by (metis list.set_map)
  qed
  moreover have "mw_channel ` set (mls_welcomes db') \<subseteq> mg_channel ` set (mls_groups db)"
  proof -
    have "nc_ChannelID nc \<in> mg_channel ` set (mls_groups db)" using g(1,2) by (metis image_eqI)
    with inv rows(1) show ?thesis by (auto simp: db' mls_inv_def)
  qed
  ultimately show "mls_inv db'" by (simp add: mls_inv_def)
qed

lemma mls_inv_step: "mls_step now db db' \<Longrightarrow> mls_inv db \<Longrightarrow> mls_inv db'"
proof (induction rule: mls_step.induct)
  case (acknowledge now db uid w)
  then show ?case
    by (auto simp: DeleteMlsWelcome_def mls_inv_def devices_ok_def distinct_map_sql_delete)
next
  case (other db' db now)
  then show ?case by (simp add: mls_inv_def)
qed (rule register_inv deregister_inv replace_inv claim_inv create_inv submit_inv; assumption)+

lemma mls_inv_run: "mls_run db db' \<Longrightarrow> mls_inv db \<Longrightarrow> mls_inv db'"
  by (induction rule: mls_run.induct) (auto intro: mls_inv_step)

text \<open>A group stays, and its epoch never goes back.\<close>

definition groups_grow :: "group_row list \<Rightarrow> group_row list \<Rightarrow> bool" where
  "groups_grow G G' \<longleftrightarrow> (\<forall>g \<in> set G. \<exists>g' \<in> set G'. mg_channel g' = mg_channel g \<and> mg_epoch g \<le> mg_epoch g')"

lemma groups_grow_refl: "groups_grow G G"
  by (auto simp: groups_grow_def)

lemma groups_grow_trans: "groups_grow A B \<Longrightarrow> groups_grow B C \<Longrightarrow> groups_grow A C"
  unfolding groups_grow_def by (metis order_trans)

lemma groups_grow_update: "groups_grow G (sql_update P (\<lambda>g. g\<lparr>mg_epoch := mg_epoch g + 1\<rparr>) G)"
  unfolding groups_grow_def
proof
  fix g assume g: "g \<in> set G"
  show "\<exists>g' \<in> set (sql_update P (\<lambda>g. g\<lparr>mg_epoch := mg_epoch g + 1\<rparr>) G). mg_channel g' = mg_channel g \<and> mg_epoch g \<le> mg_epoch g'"
  proof (cases "P g")
    case True
    then show ?thesis using sql_updateI [OF g, of P "\<lambda>g. g\<lparr>mg_epoch := mg_epoch g + 1\<rparr>"]
      by (intro bexI [of _ "g\<lparr>mg_epoch := mg_epoch g + 1\<rparr>"]) simp_all
  next
    case False
    then show ?thesis using sql_updateI_other [OF g] by blast
  qed
qed

lemma groups_grow_step:
  assumes "mls_step now db db'" and "mls_inv db"
  shows "groups_grow (mls_groups db) (mls_groups db')"
  using assms
proof (induction rule: mls_step.induct)
  case (register now db i uid key)
  show ?case
    by (auto simp: RegisterMlsDevice_def insert_device_def Let_def groups_grow_refl split: option.splits)
next
  case (deregister now db uid dev)
  show ?case by (simp add: DeregisterMlsDevice_def Let_def groups_grow_refl)
next
  case (replace now db ids uid dev packages)
  show ?case unfolding ReplaceMlsKeyPackages_def
    by (rule begin_func_invariant) (auto simp: replace_packages_body_def Let_def groups_grow_refl split: if_splits)
next
  case (claim now db locked ch target)
  show ?case unfolding ClaimMlsKeyPackages_def
    by (rule begin_func_invariant) (use claim_effect claim in \<open>fastforce simp: groups_grow_refl\<close>)+
next
  case (create now db ch gid)
  show ?case
    by (auto simp: CreateMlsGroup_def insert_group_def groups_grow_def Let_def split: sum.splits)
next
  case (submit now db wids nc)
  show ?case unfolding SubmitMlsCommit_def
  proof (rule begin_func_invariant)
    fix out db' assume "submit_body now wids nc db = Inr (out, db')"
    moreover have "distinct (map mw_id (mls_welcomes db))" using submit by (simp add: mls_inv_def devices_ok_def)
    ultimately show "groups_grow (mls_groups db) (mls_groups db')"
      using submit_effect groups_grow_update by fastforce
  qed (rule groups_grow_refl)
qed (simp_all add: DeleteMlsWelcome_def groups_grow_refl)

lemma groups_grow_run: "mls_run db db' \<Longrightarrow> mls_inv db \<Longrightarrow> groups_grow (mls_groups db) (mls_groups db')"
  by (induction rule: mls_run.induct)
     (auto intro: groups_grow_refl groups_grow_trans groups_grow_step mls_inv_run)

section \<open>Paging\<close>

text \<open>
  Both paged reads meet the keyset contract. The roster does so in every state; the commit log needs
  its epochs to be positive, which the invariant gives.
\<close>

definition roster :: "db \<Rightarrow> uuid \<Rightarrow> MlsMemberDevice list" where
  "roster db ch = map (\<lambda>u. \<lparr>mm_UserID = u, mm_Keys = member_keys u db\<rparr>)
     (sort (remdups (map cm_user (filter (\<lambda>m. cm_channel m = ch) (channel_members db)))))"

lemma strict_sorted_remdups: "sorted_wrt (<) (sort (remdups (xs :: 'a::linorder list)))"
  by (simp add: strict_sorted_iff)

lemma filter_sort_remdups:
  "filter P (sort (remdups (xs :: 'a::linorder list))) = sort (remdups (filter P xs))"
proof (rule sorted_distinct_set_unique)
  show "sorted (filter P (sort (remdups xs)))" by (simp add: sorted_filter [where f = id, simplified])
qed simp_all

interpretation roster: keyset_pager "roster db ch" mm_UserID "ListMlsMemberDevices db ch" for db ch
proof
  show "sorted_wrt (\<lambda>a b. mm_UserID a < mm_UserID b) (roster db ch)"
    using strict_sorted_remdups [of "map cm_user (filter (\<lambda>m. cm_channel m = ch) (channel_members db))"]
    by (simp add: roster_def sorted_wrt_map)
  show "ListMlsMemberDevices db ch after limit = take limit (filter (past mm_UserID after) (roster db ch))" for after limit
  proof -
    let ?mk = "\<lambda>u. \<lparr>mm_UserID = u, mm_Keys = member_keys u db\<rparr>"
    let ?ids = "map cm_user (filter (\<lambda>m. cm_channel m = ch) (channel_members db))"
    have "past mm_UserID after \<circ> ?mk = past id after" by (auto simp: past_def split: option.splits)
    then have "filter (past mm_UserID after) (roster db ch) = map ?mk (sort (remdups (filter (past id after) ?ids)))"
      by (simp add: roster_def filter_map filter_sort_remdups)
    moreover have "filter (past id after) ?ids =
        map cm_user (filter (\<lambda>m. cm_channel m = ch \<and> past cm_user after m) (channel_members db))"
      by (induction "channel_members db") (auto simp: past_def filter_map comp_def conj_commute split: option.splits)
    ultimately show ?thesis by (simp add: ListMlsMemberDevices_def Let_def)
  qed
qed

definition commit_log :: "db \<Rightarrow> uuid \<Rightarrow> MlsCommit list" where
  "commit_log db ch = map scan_commit (sql_order mc_epoch (filter (\<lambda>c. mc_channel c = ch) (mls_commits db)))"

definition commit_page :: "db \<Rightarrow> uuid \<Rightarrow> int option \<Rightarrow> nat \<Rightarrow> MlsCommit list" where
  "commit_page db ch after limit = ListMlsCommits db ch (case after of None \<Rightarrow> 0 | Some e \<Rightarrow> e) limit"

lemma commit_positive:
  assumes "logs_ok G C" and "c \<in> set C"
  shows "0 < mc_epoch c"
proof -
  obtain g where "g \<in> set G" "mc_channel c = mg_channel g" using assms by (auto simp: logs_ok_def)
  with assms have "mc_epoch c \<in> {1..mg_epoch g}" unfolding logs_ok_def by blast
  then show ?thesis by simp
qed

lemma commit_log_epochs:
  assumes ok: "logs_ok (mls_groups db) (mls_commits db)"
  shows "sorted_wrt (\<lambda>a b. c_Epoch a < c_Epoch b) (commit_log db ch)"
    and "g \<in> set (mls_groups db) \<Longrightarrow> mg_channel g = ch \<Longrightarrow> map c_Epoch (commit_log db ch) = [1..mg_epoch g]"
proof -
  let ?C = "filter (\<lambda>c. mc_channel c = ch) (mls_commits db)"
  have eps: "map c_Epoch (commit_log db ch) = map mc_epoch (sql_order mc_epoch ?C)"
    by (simp add: commit_log_def scan_commit_def)
  have d: "distinct (map mc_epoch (sql_order mc_epoch ?C))"
  proof -
    have "distinct (map (\<lambda>c. (mc_channel c, mc_epoch c)) ?C)" using ok by (simp add: logs_ok_def distinct_map_filter)
    then have "inj_on mc_epoch (set ?C)" "distinct ?C" by (auto simp: distinct_map inj_on_def)
    then show ?thesis by (simp add: sql_order_def distinct_map)
  qed
  have srt: "sorted (map mc_epoch (sql_order mc_epoch ?C))" by (simp add: sql_order_def)
  with d show "sorted_wrt (\<lambda>a b. c_Epoch a < c_Epoch b) (commit_log db ch)"
    using eps by (metis strict_sorted_iff sorted_wrt_map)
  show "map c_Epoch (commit_log db ch) = [1..mg_epoch g]" if g: "g \<in> set (mls_groups db)" "mg_channel g = ch"
  proof (rule sorted_distinct_set_unique)
    have "mc_epoch ` {c \<in> set (mls_commits db). mc_channel c = ch} = {1..mg_epoch g}"
      using ok g by (auto simp: logs_ok_def)
    then show "set (map c_Epoch (commit_log db ch)) = set [1..mg_epoch g]" by (simp add: eps)
  qed (use srt d eps in simp_all)
qed

lemma commit_pager:
  assumes inv: "mls_inv db"
  shows "keyset_pager (commit_log db ch) c_Epoch (commit_page db ch)"
proof
  have ok: "logs_ok (mls_groups db) (mls_commits db)" using inv by (simp add: mls_inv_def)
  show "sorted_wrt (\<lambda>a b. c_Epoch a < c_Epoch b) (commit_log db ch)" using ok by (rule commit_log_epochs(1))
  show "commit_page db ch after limit = take limit (filter (past c_Epoch after) (commit_log db ch))" for after limit
  proof -
    let ?C = "filter (\<lambda>c. mc_channel c = ch) (mls_commits db)"
    have "past c_Epoch after (scan_commit c) \<longleftrightarrow> (case after of None \<Rightarrow> 0 | Some e \<Rightarrow> e) < mc_epoch c"
      if "c \<in> set ?C" for c
      using commit_positive [OF ok, of c] that by (auto simp: scan_commit_def split: option.splits)
    then have "filter (\<lambda>c. past c_Epoch after (scan_commit c)) ?C =
        filter (\<lambda>c. mc_channel c = ch \<and> (case after of None \<Rightarrow> 0 | Some e \<Rightarrow> e) < mc_epoch c) (mls_commits db)"
      unfolding filter_filter [symmetric] by (auto intro!: filter_cong)
    then show ?thesis
      by (simp add: commit_page_def ListMlsCommits_def commit_log_def filter_map comp_def sql_order_def
          filter_sort take_map)
  qed
qed

section \<open>Properties\<close>

definition mls_fresh :: "db \<Rightarrow> bool" where
  "mls_fresh db \<longleftrightarrow> mls_devices db = [] \<and> mls_key_packages db = [] \<and> mls_groups db = [] \<and>
     mls_commits db = [] \<and> mls_welcomes db = []"

lemma mls_fresh_run:
  assumes "mls_fresh db0" and "mls_run db0 db"
  shows "mls_inv db"
proof -
  have "mls_inv db0" using assms(1) by (simp add: mls_fresh_def mls_inv_def logs_ok_def devices_ok_def)
  with assms(2) show ?thesis by (rule mls_inv_run)
qed

text \<open>
  A concrete run: channel 7 with members 1 and 2; both register a device, user 2 publishes two key
  packages, user 1 creates the group, claims, and commits the addition of user 2's device.
\<close>

definition demo_channel :: chan_row where
  "demo_channel = \<lparr>c_id = 7, c_kind = ''private'', c_slug = Some ''room'', c_topic = [], c_dm_a = None,
     c_dm_b = None, c_created_by = Some 1, c_e2ee = True, c_created = 0\<rparr>"

definition mls0 :: db where
  "mls0 = (empty_db [1, 2] (org_of False 720))\<lparr>channels := [demo_channel],
     channel_members := [\<lparr>cm_channel = 7, cm_user = 2\<rparr>, \<lparr>cm_channel = 7, cm_user = 1\<rparr>]\<rparr>"

definition mls1 :: db where
  "mls1 = mls0\<lparr>mls_devices := [\<lparr>md_id = 11, md_user = 1, md_key = ''k1'', md_created = 0\<rparr>,
     \<lparr>md_id = 12, md_user = 2, md_key = ''k2'', md_created = 1\<rparr>]\<rparr>"

definition mls_packages :: "key_package_row list" where
  "mls_packages = [\<lparr>kp_id = 30, kp_device = 12, kp_data = ''p0'', kp_created = 2\<rparr>,
     \<lparr>kp_id = 31, kp_device = 12, kp_data = ''p1'', kp_created = 2\<rparr>]"

definition mls2 :: db where
  "mls2 = mls1\<lparr>mls_key_packages := mls_packages,
     mls_groups := [\<lparr>mg_channel = 7, mg_group_id = ''g'', mg_epoch = 0, mg_created = 3\<rparr>]\<rparr>"

definition mls3 :: db where
  "mls3 = mls1\<lparr>mls_key_packages := tl mls_packages,
     mls_groups := [\<lparr>mg_channel = 7, mg_group_id = ''g'', mg_epoch = 0, mg_created = 3\<rparr>]\<rparr>"

definition mls_commit1 :: NewMlsCommit where
  "mls_commit1 = \<lparr>nc_ChannelID = 7, nc_Epoch = 0, nc_Message = ''add'',
     nc_Welcomes = [\<lparr>wd_DeviceIDs = [12], wd_Welcome = ''w''\<rparr>]\<rparr>"

definition mls4 :: db where
  "mls4 = mls1\<lparr>mls_key_packages := tl mls_packages,
     mls_groups := [\<lparr>mg_channel = 7, mg_group_id = ''g'', mg_epoch = 1, mg_created = 3\<rparr>],
     mls_commits := [\<lparr>mc_channel = 7, mc_epoch = 1, mc_message = ''add'', mc_created = 5\<rparr>],
     mls_welcomes := [\<lparr>mw_id = 40, mw_channel = 7, mw_device = 12, mw_welcome = ''w'', mw_created = 5\<rparr>]\<rparr>"

lemma mls_demo_ops:
  "snd (RegisterMlsDevice 1 12 2 ''k2'' (snd (RegisterMlsDevice 0 11 1 ''k1'' mls0))) = mls1"
  "snd (CreateMlsGroup 3 7 ''g'' (snd (ReplaceMlsKeyPackages 2 (\<lambda>i. 30 + i) 2 12 [''p0'', ''p1''] mls1))) = mls2"
  "ClaimMlsKeyPackages (\<lambda>_. False) 7 2 mls2 = (Inr ([\<lparr>kc_DeviceID = 12, kc_KeyPackage = ''p0''\<rparr>], []), mls3)"
  "SubmitMlsCommit 5 (\<lambda>_ _. 40) mls_commit1 mls3 = (Inr \<lparr>co_Epoch = 1, co_WelcomeUserIDs = [2]\<rparr>, mls4)"
  by code_simp+

lemma mls_demo_fresh: "mls_fresh mls0"
  by (simp add: mls_fresh_def mls0_def empty_db_def)

lemma mls_demo_runs: "mls_run mls0 mls2" "mls_run mls0 mls3" "mls_run mls0 mls4"
proof -
  note mls_run.later [OF mls_run.later [OF mls_run.here [of mls0] mls_step.register [of 0 _ 11 1 "''k1''"]]
      mls_step.register [of 1 _ 12 2 "''k2''"]]
  note mls_run.later [OF mls_run.later [OF this [unfolded mls_demo_ops(1)]
      mls_step.replace [of 2 _ "\<lambda>i. 30 + i" 2 12 "[''p0'', ''p1'']"]] mls_step.create [of 3 _ 7 "''g''"]]
  then show 2: "mls_run mls0 mls2" unfolding mls_demo_ops(2) .
  show 3: "mls_run mls0 mls3"
    using mls_run.later [OF 2 mls_step.claim [of 4 _ "\<lambda>_. False" 7 2]] by (simp add: mls_demo_ops(3))
  show "mls_run mls0 mls4"
    using mls_run.later [OF 3 mls_step.submit [of 5 _ "\<lambda>_ _. 40" mls_commit1]] by (simp add: mls_demo_ops(4))
qed

text \<open>
  The commit log is complete: in every reachable state a group at epoch \<open>e\<close> has exactly one
  commit for each epoch from 1 to \<open>e\<close>, and a device that holds state at epoch \<open>n\<close> and reads page
  after page of \<open>ListMlsCommits\<close> receives exactly the epochs \<open>n + 1\<close> to \<open>e\<close>, in order, each once,
  whatever the page size.
\<close>

theorem commit_log_catch_up:
  assumes "mls_fresh db0" and "mls_run db0 db" and "g \<in> set (mls_groups db)" and "mg_channel g = ch"
    and "0 < limit" and "0 \<le> n" and "n \<le> mg_epoch g"
  shows "map c_Epoch (keyset_walk (commit_page db ch) c_Epoch (Suc (nat (mg_epoch g))) (Some n) limit)
           = [n + 1..mg_epoch g]"
proof -
  have inv: "mls_inv db" using assms(1,2) by (rule mls_fresh_run)
  then have log: "map c_Epoch (commit_log db ch) = [1..mg_epoch g]"
    using commit_log_epochs(2) assms(3,4) by (simp add: mls_inv_def)
  let ?pre = "take (nat n) (commit_log db ch)" and ?suf = "drop (nat n) (commit_log db ch)"
  have split: "[1..mg_epoch g] = [1..n] @ [n + 1..mg_epoch g]"
    using assms(6,7) by (intro sorted_distinct_set_unique) (auto simp: sorted_append)
  have pre: "map c_Epoch ?pre = [1..n]" and suf: "map c_Epoch ?suf = [n + 1..mg_epoch g]"
    using log split by (simp_all flip: take_map drop_map)
  have "\<forall>c \<in> set ?pre. c_Epoch c \<in> {1..n}" using arg_cong [OF pre, of set] by auto
  moreover have "\<forall>c \<in> set ?suf. c_Epoch c \<in> {n + 1..mg_epoch g}" using arg_cong [OF suf, of set] by auto
  ultimately have "filter (past c_Epoch (Some n)) ?pre = []" "filter (past c_Epoch (Some n)) ?suf = ?suf"
    by (auto simp: filter_empty_conv filter_id_conv)
  then have "filter (past c_Epoch (Some n)) (commit_log db ch) = ?suf"
    by (metis append_Nil append_take_drop_id filter_append)
  moreover have "length ?suf \<le> nat (mg_epoch g)"
    using arg_cong [OF suf, of length] assms(6) by simp
  ultimately have "keyset_walk (commit_page db ch) c_Epoch (Suc (nat (mg_epoch g))) (Some n) limit = ?suf"
    using keyset_pager.walk_suffix [OF commit_pager [OF inv] assms(5), where pre = ?pre and suf = ?suf] by simp
  with suf show ?thesis by simp
qed

theorem commit_log_catch_up_witness:
  "map c_Epoch (keyset_walk (commit_page mls4 7) c_Epoch 2 (Some 0) 50) = [1]"
proof -
  have "\<lparr>mg_channel = 7, mg_group_id = ''g'', mg_epoch = 1, mg_created = 3\<rparr> \<in> set (mls_groups mls4)"
    by (simp add: mls4_def)
  from commit_log_catch_up [OF mls_demo_fresh mls_demo_runs(3) this, of 7 50 0] show ?thesis
    by (simp add: numeral_2_eq_2)
qed

text \<open>
  C4. An epoch has one winner: once a commit built at epoch \<open>e\<close> has been accepted, every other commit
  built at \<open>e\<close> for that channel is refused as an epoch conflict, in every later state, and the refusal
  changes nothing.
\<close>

theorem epoch_single_winner:
  assumes "mls_fresh db0" and "mls_run db0 db"
    and "SubmitMlsCommit now ids nc db = (Inr out, db1)" and "mls_run db1 db2"
    and "nc_ChannelID nc' = nc_ChannelID nc" and "nc_Epoch nc' = nc_Epoch nc"
  shows "SubmitMlsCommit now' ids' nc' db2 = (Inl ErrMlsEpochConflict, db2)"
proof -
  have inv: "mls_inv db" using assms(1,2) by (rule mls_fresh_run)
  then have d: "distinct (map mw_id (mls_welcomes db))" by (simp add: mls_inv_def devices_ok_def)
  have body: "submit_body now ids nc db = Inr (out, db1)" using assms(3) by (simp add: SubmitMlsCommit_def)
  have inv1: "mls_inv db1" using submit_inv [OF inv, of now ids nc] assms(3) by simp
  then have inv2: "mls_inv db2" using assms(4) mls_inv_run by blast
  from submit_effect [OF body d] obtain g where g: "g \<in> set (mls_groups db)"
      "mg_channel g = nc_ChannelID nc" "mg_epoch g = nc_Epoch nc"
    and G: "mls_groups db1 = sql_update (\<lambda>g. mg_channel g = nc_ChannelID nc \<and> mg_epoch g = nc_Epoch nc)
                 (\<lambda>g. g\<lparr>mg_epoch := mg_epoch g + 1\<rparr>) (mls_groups db)"
    by auto
  have "g\<lparr>mg_epoch := mg_epoch g + 1\<rparr> \<in> set (mls_groups db1)"
    unfolding G by (rule sql_updateI) (use g in auto)
  then obtain h where "h \<in> set (mls_groups db2)"
      "mg_channel h = mg_channel (g\<lparr>mg_epoch := mg_epoch g + 1\<rparr>)"
      "mg_epoch (g\<lparr>mg_epoch := mg_epoch g + 1\<rparr>) \<le> mg_epoch h"
    using groups_grow_run [OF assms(4) inv1] unfolding groups_grow_def by blast
  with g have h: "h \<in> set (mls_groups db2)" "mg_channel h = nc_ChannelID nc" "nc_Epoch nc < mg_epoch h"
    by simp_all
  have "distinct (map mg_channel (mls_groups db2))" using inv2 by (simp add: mls_inv_def logs_ok_def)
  then have "x = h" if "x \<in> set (mls_groups db2)" "mg_channel x = nc_ChannelID nc" for x
    by (rule distinct_map_inj) (use h that in simp_all)
  with h(3) have none: "\<not> (\<exists>x \<in> set (mls_groups db2). mg_channel x = nc_ChannelID nc \<and> mg_epoch x = nc_Epoch nc)"
    by (metis less_irrefl)
  have "\<exists>x \<in> set (mls_groups db2). mg_channel x = nc_ChannelID nc" using h by blast
  with none show ?thesis
    by (simp add: SubmitMlsCommit_def submit_body_def advance_epoch_def mlsCASFailure_def Let_def assms(5,6) begin_func_def)
qed

theorem epoch_single_winner_witness:
  "SubmitMlsCommit 6 (\<lambda>_ _. 41) (mls_commit1\<lparr>nc_Message := ''other''\<rparr>) mls4 = (Inl ErrMlsEpochConflict, mls4)"
  by (rule epoch_single_winner [OF mls_demo_fresh mls_demo_runs(2) mls_demo_ops(4) mls_run.here])
     (simp_all add: mls_commit1_def)

text \<open>
  A commit and its Welcomes are one unit. An accepted commit advances exactly its group from the
  epoch it was built at, appends exactly one log entry carrying its blob, and stores exactly one
  Welcome per device of each delivery, all of them for existing devices whose owners are current
  members of the channel; the users to nudge are exactly those owners. A refused one changes nothing.
\<close>

theorem submit_commit_atomic:
  assumes "mls_fresh db0" and "mls_run db0 db" and "SubmitMlsCommit now ids nc db = (r, db')"
  shows "case r of
      Inl _ \<Rightarrow> db' = db
    | Inr out \<Rightarrow>
        co_Epoch out = nc_Epoch nc + 1 \<and>
        (\<exists>g \<in> set (mls_groups db). mg_channel g = nc_ChannelID nc \<and> mg_epoch g = nc_Epoch nc) \<and>
        mls_groups db' = sql_update (\<lambda>g. mg_channel g = nc_ChannelID nc)
          (\<lambda>g. g\<lparr>mg_epoch := nc_Epoch nc + 1\<rparr>) (mls_groups db) \<and>
        mls_commits db' = mls_commits db @ [\<lparr>mc_channel = nc_ChannelID nc, mc_epoch = nc_Epoch nc + 1,
          mc_message = nc_Message nc, mc_created = now\<rparr>] \<and>
        (\<exists>rows. mls_welcomes db' = mls_welcomes db @ rows \<and>
           map (\<lambda>w. (mw_device w, mw_welcome w)) rows =
             concat (map (\<lambda>d. map (\<lambda>dev. (dev, wd_Welcome d)) (wd_DeviceIDs d)) (nc_Welcomes nc)) \<and>
           (\<forall>w \<in> set rows. mw_channel w = nc_ChannelID nc \<and>
              (\<exists>dev \<in> set (mls_devices db). md_id dev = mw_device w \<and>
                 is_member (nc_ChannelID nc) (md_user dev) db \<and> md_user dev \<in> set (co_WelcomeUserIDs out))))"
proof (cases r)
  case (Inl e)
  then show ?thesis using assms(3) by (simp add: SubmitMlsCommit_def)
next
  case (Inr out)
  have inv: "mls_inv db" using assms(1,2) by (rule mls_fresh_run)
  then have d: "distinct (map mw_id (mls_welcomes db))" by (simp add: mls_inv_def devices_ok_def)
  have "submit_body now ids nc db = Inr (out, db')" using assms(3) Inr by (simp add: SubmitMlsCommit_def)
  from submit_effect [OF this d] obtain rows g where g: "g \<in> set (mls_groups db)"
      "mg_channel g = nc_ChannelID nc" "mg_epoch g = nc_Epoch nc" "co_Epoch out = nc_Epoch nc + 1"
    and db': "db' = db\<lparr>mls_groups := sql_update (\<lambda>g. mg_channel g = nc_ChannelID nc \<and> mg_epoch g = nc_Epoch nc)
                 (\<lambda>g. g\<lparr>mg_epoch := mg_epoch g + 1\<rparr>) (mls_groups db),
               mls_commits := mls_commits db @ [\<lparr>mc_channel = nc_ChannelID nc, mc_epoch = nc_Epoch nc + 1,
                 mc_message = nc_Message nc, mc_created = now\<rparr>],
               mls_welcomes := mls_welcomes db @ rows\<rparr>"
    and rows: "map (\<lambda>w. (mw_device w, mw_welcome w)) rows = fan_out (nc_Welcomes nc)"
      "\<forall>w \<in> set rows. mw_channel w = nc_ChannelID nc \<and> mw_device w \<in> md_id ` set (mls_devices db)"
    and mem: "\<forall>dev \<in> set (mls_devices db). md_id dev \<in> fst ` set (fan_out (nc_Welcomes nc)) \<longrightarrow>
        is_member (nc_ChannelID nc) (md_user dev) db"
    and own: "set (co_WelcomeUserIDs out) = md_user ` {dev \<in> set (mls_devices db). md_id dev \<in> fst ` set (fan_out (nc_Welcomes nc))}"
    by blast
  have "x = g" if "x \<in> set (mls_groups db)" "mg_channel x = nc_ChannelID nc" for x
    using inv g that by (auto simp: mls_inv_def logs_ok_def intro: distinct_map_inj)
  then have "mls_groups db' = sql_update (\<lambda>g. mg_channel g = nc_ChannelID nc)
      (\<lambda>g. g\<lparr>mg_epoch := nc_Epoch nc + 1\<rparr>) (mls_groups db)"
    using g(3) by (auto simp: db' sql_update_def)
  moreover have "\<exists>dev \<in> set (mls_devices db). md_id dev = mw_device w \<and>
      is_member (nc_ChannelID nc) (md_user dev) db \<and> md_user dev \<in> set (co_WelcomeUserIDs out)" if w: "w \<in> set rows" for w
  proof -
    obtain dev where dev: "dev \<in> set (mls_devices db)" "md_id dev = mw_device w" using rows(2) w by force
    have "(mw_device w, mw_welcome w) \<in> set (fan_out (nc_Welcomes nc))"
      using w unfolding rows(1) [symmetric] by simp
    then have "md_id dev \<in> fst ` set (fan_out (nc_Welcomes nc))" using dev(2) by force
    with dev mem own show ?thesis by blast
  qed
  ultimately show ?thesis
    using Inr g rows unfolding fan_out_def by (auto simp: db')
qed

theorem submit_commit_atomic_witness:
  "SubmitMlsCommit 5 (\<lambda>_ _. 40) mls_commit1 mls3 = (Inr \<lparr>co_Epoch = 1, co_WelcomeUserIDs = [2]\<rparr>, mls4) \<and>
   (\<exists>rows. mls_welcomes mls4 = mls_welcomes mls3 @ rows \<and> map (\<lambda>w. (mw_device w, mw_welcome w)) rows = [(12, ''w'')])"
  using submit_commit_atomic [OF mls_demo_fresh mls_demo_runs(2) mls_demo_ops(4)] mls_demo_ops(4)
  by (auto simp: mls_commit1_def)

text \<open>
  Key packages are single-use. A claim for a member hands out at most one package per device of
  that member, each the oldest one of its device that no concurrent claim holds, and every package
  handed out is gone from the pool it left; the reported missing devices are exactly those with
  nothing to hand out. A target who is not a member gets an error and nothing is consumed.
\<close>

theorem claim_single_use:
  assumes "mls_fresh db0" and "mls_run db0 db" and "ClaimMlsKeyPackages locked ch target db = (r, db')"
  shows "case r of
      Inl e \<Rightarrow> e = ErrNotFound \<and> \<not> is_member ch target db \<and> db' = db
    | Inr (claims, missing) \<Rightarrow> is_member ch target db \<and>
        (\<exists>ks. claims = map claim_of ks \<and> distinct (map kp_device ks) \<and>
           (\<forall>k \<in> set ks. oldest locked (mls_key_packages db) k \<and> kp_device k \<in> set (mlsDeviceIDs target db)) \<and>
           missing = filter (\<lambda>d. d \<notin> kp_device ` set ks) (mlsDeviceIDs target db) \<and>
           (\<forall>d \<in> set missing. \<forall>k \<in> set (mls_key_packages db). kp_device k = d \<longrightarrow> locked (kp_id k)) \<and>
           mls_key_packages db' = filter (\<lambda>k. k \<notin> set ks) (mls_key_packages db))"
proof (cases r)
  case (Inl e)
  then show ?thesis using assms(3)
    by (auto simp: ClaimMlsKeyPackages_def claim_body_def split: if_splits prod.splits)
next
  case (Inr p)
  obtain claims missing where p: "p = (claims, missing)" by (cases p)
  have inv: "mls_inv db" using assms(1,2) by (rule mls_fresh_run)
  have body: "claim_body locked ch target db = Inr ((claims, missing), db')"
    using assms(3) Inr p by (simp add: ClaimMlsKeyPackages_def)
  then have mem: "is_member ch target db" by (auto simp: claim_body_def split: if_splits)
  from claim_effect [OF body inv] obtain ks where ks:
      "handed_out locked (mlsDeviceIDs target db) (mls_key_packages db) ks" "claims = map claim_of ks"
      "missing = filter (\<lambda>d. d \<notin> kp_device ` set ks) (mlsDeviceIDs target db)"
      "db' = db\<lparr>mls_key_packages := filter (\<lambda>k. k \<notin> set ks) (mls_key_packages db)\<rparr>"
    by blast
  have "distinct (mlsDeviceIDs target db)"
    using inv by (intro mlsDeviceIDs_distinct) (simp add: mls_inv_def devices_ok_def)
  then have "distinct (map kp_device ks)" using ks(1) by (simp add: handed_out_def)
  with ks mem handed_out_devices [OF ks(1)] show ?thesis
    by (auto simp: Inr p handed_out_def intro!: exI [of _ ks])
qed

theorem claim_single_use_witness:
  "\<exists>ks. [\<lparr>kc_DeviceID = 12, kc_KeyPackage = ''p0''\<rparr>] = map claim_of ks \<and> distinct (map kp_device ks) \<and>
     mls_key_packages mls3 = filter (\<lambda>k. k \<notin> set ks) (mls_key_packages mls2)"
  using claim_single_use [OF mls_demo_fresh mls_demo_runs(1) mls_demo_ops(3)]
  unfolding sum.case prod.case by (elim conjE exE, intro exI conjI)

text \<open>
  Registration is idempotent: after a registration that answered a device, registering the same
  key for the same user again answers the same device as already existing and changes nothing.
\<close>

theorem register_idempotent:
  assumes "RegisterMlsDevice now i uid key db = (Inr (d, created), db')"
  shows "RegisterMlsDevice now' i' uid key db' = (Inr (d, False), db') \<and>
         md_user d = uid \<and> md_key d = key \<and> d \<in> set (mls_devices db')"
proof -
  let ?P = "\<lambda>d. md_user d = uid \<and> md_key d = key"
  have row: "sql_row ?P (mls_devices db') = Some d"
  proof (cases "sql_exists ?P (mls_devices db)")
    case True
    with assms show ?thesis
      by (auto simp: RegisterMlsDevice_def insert_device_def Let_def split: option.splits)
  next
    case False
    then have "sql_row ?P (mls_devices db) = None" by (auto simp: sql_row_None_iff)
    with False assms show ?thesis
      by (auto simp: RegisterMlsDevice_def insert_device_def Let_def sql_insert_def sql_row_append
          sql_row_single split: if_splits)
  qed
  then have "sql_exists ?P (mls_devices db')" by (auto dest: sql_row_Some_iff)
  with row sql_row_Some_iff [OF row] show ?thesis
    by (simp add: RegisterMlsDevice_def insert_device_def del: sql_exists_iff)
qed

theorem register_idempotent_witness:
  "RegisterMlsDevice 9 99 2 ''k2'' mls1 = (Inr (\<lparr>md_id = 12, md_user = 2, md_key = ''k2'', md_created = 1\<rparr>, False), mls1)"
proof -
  have "RegisterMlsDevice 1 98 2 ''k2'' mls1 = (Inr (\<lparr>md_id = 12, md_user = 2, md_key = ''k2'', md_created = 1\<rparr>, False), mls1)"
    by code_simp
  from register_idempotent [OF this, of 9 99] show ?thesis by simp
qed

text \<open>
  The eviction allow-list is exact: a client that walks every page of the roster gets each
  current member of the channel exactly once, in order, a member without a device included, each with
  exactly the signature keys of that member's devices; nobody else's key can be in it.
\<close>

theorem roster_walk_exact:
  assumes "0 < limit" and "length (channel_members db) \<le> fuel"
  shows "sorted_wrt (<) (map mm_UserID (keyset_walk (ListMlsMemberDevices db ch) mm_UserID (Suc fuel) None limit)) \<and>
    set (map mm_UserID (keyset_walk (ListMlsMemberDevices db ch) mm_UserID (Suc fuel) None limit)) =
      {u. is_member ch u db} \<and>
    (\<forall>m \<in> set (keyset_walk (ListMlsMemberDevices db ch) mm_UserID (Suc fuel) None limit).
       set (mm_Keys m) = md_key ` {d \<in> set (mls_devices db). md_user d = mm_UserID m})"
proof -
  have "length (remdups (map cm_user (filter (\<lambda>m. cm_channel m = ch) (channel_members db)))) \<le> length (channel_members db)"
    by (rule order_trans [OF length_remdups_leq]) simp
  then have len: "length (roster db ch) \<le> fuel" using assms(2) by (simp add: roster_def)
  have "set (mm_Keys m) = md_key ` {d \<in> set (mls_devices db). md_user d = mm_UserID m}" if "m \<in> set (roster db ch)" for m
    using that by (auto simp: roster_def member_keys_def)
  moreover have "set (map mm_UserID (roster db ch)) = {u. is_member ch u db}"
    by (auto simp: roster_def is_member_def image_image)
  moreover have "sorted_wrt (<) (map mm_UserID (roster db ch))"
    using roster.sorted_rows by (simp add: sorted_wrt_map)
  ultimately show ?thesis unfolding roster.walk_complete [OF assms(1) len] by blast
qed

theorem roster_walk_exact_witness:
  "set (map mm_UserID (keyset_walk (ListMlsMemberDevices mls1 7) mm_UserID 3 None 1)) = {u. is_member 7 u mls1} \<and>
   map mm_UserID (keyset_walk (ListMlsMemberDevices mls1 7) mm_UserID 3 None 1) = [1, 2]"
proof -
  have "map mm_UserID (keyset_walk (ListMlsMemberDevices mls1 7) mm_UserID 3 None 1) = [1, 2]" by code_simp
  moreover have "length (channel_members mls1) \<le> 2" by code_simp
  ultimately show ?thesis using roster_walk_exact [of 1 mls1 2 7] by (simp add: numeral_3_eq_3)
qed

lemma filter_sql_order: "sql_order k (sql_delete P xs) = filter (\<lambda>x. \<not> P x) (sql_order k xs)"
  by (simp add: sql_order_def sql_delete_def filter_sort)

lemma concat_map_filter:
  assumes "\<And>x. x \<in> set xs \<Longrightarrow> (if P x then h x else []) = filter Q (h x)"
  shows "concat (map h (filter P xs)) = filter Q (concat (map h xs))"
  using assms
proof (induction xs)
  case (Cons a xs)
  have "(if P a then h a else []) = filter Q (h a)" using Cons.prems by simp
  with Cons show ?case by (cases "P a") simp_all
qed simp

text \<open>
  Acknowledging a Welcome is scoped to its owner: it takes that one entry out of the caller's own
  list of waiting Welcomes and leaves every other user's list as it was, whether the identifier names
  the caller's Welcome, somebody else's, or none; and doing it twice is doing it once.
\<close>

theorem acknowledge_scoped:
  assumes "mls_fresh db0" and "mls_run db0 db"
  shows "ListMlsWelcomes u (DeleteMlsWelcome uid wid db) =
           (if u = uid then filter (\<lambda>w. w_ID w \<noteq> wid) (ListMlsWelcomes u db) else ListMlsWelcomes u db) \<and>
         DeleteMlsWelcome uid wid (DeleteMlsWelcome uid wid db) = DeleteMlsWelcome uid wid db"
proof -
  have dist: "distinct (map md_id (mls_devices db))"
    using mls_fresh_run [OF assms] by (simp add: mls_inv_def devices_ok_def)
  define h where "h = (\<lambda>u (w :: welcome_row). concat (map (\<lambda>d.
         map (\<lambda>g. \<lparr>w_ID = mw_id w, w_ChannelID = mw_channel w, w_GroupID = mg_group_id g,
                     w_DeviceID = mw_device w, w_Welcome = mw_welcome w, w_CreatedAt = mw_created w\<rparr>)
           (filter (\<lambda>g. mg_channel g = mw_channel w) (mls_groups db)))
         (filter (\<lambda>d. md_id d = mw_device w \<and> md_user d = u) (mls_devices db))))"
  define Q where "Q w \<longleftrightarrow> mw_id w = wid \<and> (\<exists>d \<in> set (mls_devices db). md_id d = mw_device w \<and> md_user d = uid)"
    for w :: welcome_row
  let ?W = "sql_order mw_created (sql_order mw_id (mls_welcomes db))"
  have list: "ListMlsWelcomes u db = concat (map (h u) ?W)" by (simp add: ListMlsWelcomes_def h_def)
  have list': "ListMlsWelcomes u (DeleteMlsWelcome uid wid db) = concat (map (h u) (filter (\<lambda>w. \<not> Q w) ?W))"
    by (simp add: ListMlsWelcomes_def DeleteMlsWelcome_def filter_sql_order h_def Q_def sql_order_def sql_delete_def filter_sort)
  have ids: "\<forall>x \<in> set (h u w). w_ID x = mw_id w" for w by (auto simp: h_def)
  have mine: "h uid w = []" if "mw_id w = wid" "\<not> Q w" for w
    using that by (auto simp: h_def Q_def filter_empty_conv)
  have theirs: "h u w = []" if "Q w" "u \<noteq> uid" for w
    using that dist by (auto simp: h_def Q_def filter_empty_conv dest: distinct_map_inj)
  have "concat (map (h u) (filter (\<lambda>w. \<not> Q w) ?W)) =
      filter (\<lambda>x. u = uid \<longrightarrow> w_ID x \<noteq> wid) (concat (map (h u) ?W))"
  proof (rule concat_map_filter)
    fix w
    show "(if \<not> Q w then h u w else []) = filter (\<lambda>x. u = uid \<longrightarrow> w_ID x \<noteq> wid) (h u w)"
    proof (cases "Q w")
      case True
      then have "mw_id w = wid" by (simp add: Q_def)
      then have "filter (\<lambda>x. u = uid \<longrightarrow> w_ID x \<noteq> wid) (h u w) = []"
        using theirs [OF True] ids [of w] by (cases "u = uid") (simp_all add: filter_empty_conv)
      with True show ?thesis by simp
    next
      case False
      then show ?thesis using mine ids [of w] by (cases "u = uid"; cases "mw_id w = wid") (auto simp: filter_id_conv)
    qed
  qed
  then have "ListMlsWelcomes u (DeleteMlsWelcome uid wid db) =
      (if u = uid then filter (\<lambda>w. w_ID w \<noteq> wid) (ListMlsWelcomes u db) else ListMlsWelcomes u db)"
    unfolding list list' by simp
  moreover have "DeleteMlsWelcome uid wid (DeleteMlsWelcome uid wid db) = DeleteMlsWelcome uid wid db"
    by (simp add: DeleteMlsWelcome_def sql_delete_def)
  ultimately show ?thesis by blast
qed

theorem acknowledge_scoped_witness:
  "ListMlsWelcomes 2 mls4 \<noteq> [] \<and> ListMlsWelcomes 2 (DeleteMlsWelcome 1 40 mls4) = ListMlsWelcomes 2 mls4"
proof -
  have "ListMlsWelcomes 2 mls4 \<noteq> []" by code_simp
  with acknowledge_scoped [OF mls_demo_fresh mls_demo_runs(3), of 2 1 40] show ?thesis by simp
qed

text \<open>
  The sealed backup: an upload is accepted exactly when the account has none or the counter moves
  past the stored one; an accepted upload is what the next read returns, a stale one changes nothing,
  and no other account's backup is affected.
\<close>

theorem backup_counter_advances:
  assumes "distinct (map mb_user (mls_backups db))" and "\<exists>u \<in> set (users db). u_id u = uid"
    and "PutMlsBackup now uid envelope counter db = (r, db')"
  shows "(r = Inr () \<longleftrightarrow> (\<forall>b \<in> set (mls_backups db). mb_user b = uid \<longrightarrow> mb_counter b < counter)) \<and>
    (r = Inr () \<longrightarrow> MlsBackupByUser uid db' = Inr (envelope, counter, now)) \<and>
    (r \<noteq> Inr () \<longrightarrow> r = Inl ErrMlsBackupStale \<and> db' = db) \<and>
    (\<forall>v. v \<noteq> uid \<longrightarrow> MlsBackupByUser v db' = MlsBackupByUser v db) \<and>
    distinct (map mb_user (mls_backups db'))"
proof -
  let ?row = "\<lparr>mb_user = uid, mb_envelope = envelope, mb_counter = counter, mb_updated = now\<rparr>"
  let ?P = "\<lambda>b. mb_user b = uid \<and> mb_counter b < counter"
  have one: "x = b" if "b \<in> set (mls_backups db)" "mb_user b = uid" "x \<in> set (mls_backups db)" "mb_user x = uid" for b x
    using assms(1) that by (auto intro: distinct_map_inj)
  consider (fresh) "\<forall>b \<in> set (mls_backups db). mb_user b \<noteq> uid"
    | (newer) b where "b \<in> set (mls_backups db)" "mb_user b = uid" "mb_counter b < counter"
    | (stale) b where "b \<in> set (mls_backups db)" "mb_user b = uid" "\<not> mb_counter b < counter"
    by blast
  then show ?thesis
  proof cases
    case fresh
    then have r: "r = Inr ()" "db' = db\<lparr>mls_backups := mls_backups db @ [?row]\<rparr>"
      using assms(2,3) by (auto simp: PutMlsBackup_def put_backup_def sql_insert_def Let_def)
    have "sql_row (\<lambda>b. mb_user b = uid) (mls_backups db) = None" using fresh by (simp add: sql_row_None_iff)
    then have "MlsBackupByUser uid db' = Inr (envelope, counter, now)"
      "\<forall>v. v \<noteq> uid \<longrightarrow> MlsBackupByUser v db' = MlsBackupByUser v db"
      by (auto simp: r(2) MlsBackupByUser_def sql_row_append sql_row_single split: option.splits)
    moreover have "distinct (map mb_user (mls_backups db'))" using fresh assms(1) by (auto simp: r(2))
    ultimately show ?thesis using fresh r(1) by simp
  next
    case (newer b)
    then have "sql_exists (\<lambda>b. mb_user b = uid) (mls_backups db)" "sql_exists ?P (mls_backups db)" by auto
    then have r: "r = Inr ()" "db' = db\<lparr>mls_backups := sql_update ?P (\<lambda>_. ?row) (mls_backups db)\<rparr>"
      using assms(3) by (simp_all add: PutMlsBackup_def put_backup_def Let_def del: sql_exists_iff)
    have "map mb_user (sql_update ?P (\<lambda>_. ?row) (mls_backups db)) = map mb_user (mls_backups db)"
      by (rule map_sql_update_frame) simp
    then have dist: "distinct (map mb_user (mls_backups db'))" using assms(1) by (simp add: r(2))
    have "?row \<in> set (mls_backups db')" unfolding r(2) using sql_updateI [OF newer(1), of ?P "\<lambda>_. ?row"] newer by simp
    from sql_row_unique [OF dist this] have "MlsBackupByUser uid db' = Inr (envelope, counter, now)"
      by (simp add: MlsBackupByUser_def)
    moreover have "MlsBackupByUser v db' = MlsBackupByUser v db" if "v \<noteq> uid" for v
      using that filter_sql_update_other [of ?P "\<lambda>b. mb_user b = v" "\<lambda>_. ?row" "mls_backups db"]
      by (simp add: MlsBackupByUser_def r(2) sql_row_filter)
    moreover have "\<forall>x \<in> set (mls_backups db). mb_user x = uid \<longrightarrow> mb_counter x < counter"
      using one newer by blast
    ultimately show ?thesis using r(1) dist by simp
  next
    case (stale b)
    then have no: "\<not> ?P x" if "x \<in> set (mls_backups db)" for x using one that by blast
    have same: "sql_update ?P (\<lambda>_. ?row) (mls_backups db) = mls_backups db"
      unfolding sql_update_def by (rule map_idI) (simp only: no if_False)
    have "\<not> sql_exists ?P (mls_backups db)" using no by auto
    moreover have "sql_exists (\<lambda>b. mb_user b = uid) (mls_backups db)" using stale by auto
    ultimately have "r = Inl ErrMlsBackupStale" "db' = db"
      using assms(3) same by (simp_all add: PutMlsBackup_def put_backup_def Let_def del: sql_exists_iff)
    then show ?thesis using stale assms(1) by auto
  qed
qed

theorem backup_counter_advances_witness:
  "fst (PutMlsBackup 1 1 ''e1'' 3 mls0) = Inr () \<and>
   MlsBackupByUser 1 (snd (PutMlsBackup 1 1 ''e1'' 3 mls0)) = Inr (''e1'', 3, 1)"
proof -
  have db: "distinct (map mb_user (mls_backups mls0))" "\<exists>u \<in> set (users mls0). u_id u = 1" "mls_backups mls0 = []"
    by (simp_all add: mls0_def empty_db_def)
  from backup_counter_advances [OF db(1,2) prod.collapse [symmetric], of 1 "''e1''" 3] db(3) show ?thesis by simp
qed

end
