(* ===== verification/Account_Store.thy ===== *)
theory Account_Store
  imports Totp_Store "HOL-Library.Product_Lexorder"
begin

text \<open>
  Accounts, \<^verbatim>\<open>server/internal/storage/users.go\<close>, \<^verbatim>\<open>passwordreset.go\<close> and \<^verbatim>\<open>invites.go\<close>: creating an
  account, an administrator's and a user's own changes to it, password reset links and invitations.
  Each operation is one transaction, so the row locks and the advisory lock order transactions and
  have no effect on the state.

  PostgreSQL's \<open>citext\<close> comparison is the parameter \<open>ceq\<close>. The identifier \<open>gen_random_uuid()\<close> draws
  and the transaction's clock \<open>now()\<close> are arguments.
\<close>

section \<open>The users table\<close>

record NewUser =
  nu_Username :: string
  nu_Email :: "string option"
  nu_DisplayName :: string
  nu_PasswordHash :: string
  nu_Locale :: string
  nu_IsAdmin :: bool
  nu_MustChangePassword :: bool

text \<open>The CHECK constraints of a row (migration 0001).\<close>

definition user_checks :: "user_row \<Rightarrow> bool" where
  "user_checks u \<longleftrightarrow> 3 \<le> char_length (u_username u) \<and> char_length (u_username u) \<le> 32 \<and>
     (case u_email u of None \<Rightarrow> True | Some m \<Rightarrow> char_length m \<le> 320) \<and>
     char_length (u_display_name u) \<le> 120 \<and> (u_locale u = ''en'' \<or> u_locale u = ''fa'')"

text \<open>A UNIQUE column that is NULL conflicts with nothing.\<close>

definition email_clash :: "(string \<Rightarrow> string \<Rightarrow> bool) \<Rightarrow> string option \<Rightarrow> string option \<Rightarrow> bool" where
  "email_clash ceq a b = (case a of None \<Rightarrow> False | Some x \<Rightarrow>
     (case b of None \<Rightarrow> False | Some y \<Rightarrow> ceq x y))"

text \<open>
  The constraints are tried in the order of their indexes, which PostgreSQL keeps in the order of their creation: the
  primary key, the name, the address. A row that violates two of them is reported under the first.
\<close>

definition insert_user :: "(string \<Rightarrow> string \<Rightarrow> bool) \<Rightarrow> user_row \<Rightarrow> (db, user_row) tx" where
  "insert_user ceq r db =
     (if \<not> user_checks r then Inl CheckViolation
      else if sql_exists (\<lambda>u. u_id u = u_id r) (users db) then Inl (UniqueViolationOf ''users_pkey'')
      else if sql_exists (\<lambda>u. ceq (u_username u) (u_username r)) (users db)
      then Inl (UniqueViolationOf ''users_username_key'')
      else if sql_exists (\<lambda>u. email_clash ceq (u_email u) (u_email r)) (users db)
      then Inl (UniqueViolationOf ''users_email_key'')
      else Inr (r, db\<lparr>users := sql_insert r (users db)\<rparr>))"

definition new_user_row :: "instant \<Rightarrow> uuid \<Rightarrow> NewUser \<Rightarrow> user_row" where
  "new_user_row now newID nu =
     \<lparr>u_id = newID, u_username = nu_Username nu, u_email = nu_Email nu,
      u_password_hash = nu_PasswordHash nu, u_is_admin = nu_IsAdmin nu, u_is_active = True,
      u_display_name = nu_DisplayName nu, u_locale = nu_Locale nu,
      u_must_change = nu_MustChangePassword nu, u_created = now\<rparr>"

fun mapUserConflict :: "store_error \<Rightarrow> store_error" where
  "mapUserConflict (UniqueViolationOf c) =
     (if c = ''users_username_key'' then ErrUsernameTaken
      else if c = ''users_email_key'' then ErrEmailTaken
      else if c = ''users_scim_user_name_key'' \<or> c = ''users_scim_external_id_key'' then ErrScimIdentifierTaken
      else UniqueViolationOf c)"
| "mapUserConflict e = e"

text \<open>The INSERT with its conflicts mapped, as \<open>CreateUser\<close> and \<open>RedeemInvite\<close> run it.\<close>

definition create_user_body ::
  "(string \<Rightarrow> string \<Rightarrow> bool) \<Rightarrow> instant \<Rightarrow> uuid \<Rightarrow> NewUser \<Rightarrow> (db, user_row) tx" where
  "create_user_body ceq now newID nu db =
     (case insert_user ceq (new_user_row now newID nu) db of
        Inl e \<Rightarrow> Inl (mapUserConflict e) | Inr x \<Rightarrow> Inr x)"

definition CreateUser ::
  "(string \<Rightarrow> string \<Rightarrow> bool) \<Rightarrow> instant \<Rightarrow> uuid \<Rightarrow> NewUser \<Rightarrow> db \<Rightarrow> (store_error + user_row) \<times> db" where
  "CreateUser ceq now newID nu = begin_func (create_user_body ceq now newID nu)"

definition UserByID :: "uuid \<Rightarrow> db \<Rightarrow> store_error + user_row" where
  "UserByID uid db =
     (case sql_row (\<lambda>u. u_id u = uid) (users db) of None \<Rightarrow> Inl ErrNotFound | Some u \<Rightarrow> Inr u)"

definition lockAccount :: "uuid \<Rightarrow> (db, unit) tx" where
  "lockAccount uid db =
     (if sql_exists (\<lambda>u. u_id u = uid) (users db) then Inr ((), db) else Inl ErrNotFound)"

text \<open>
  \<open>UPDATE users SET \<dots> WHERE id = $n RETURNING \<dots>\<close>: the CHECKs hold of every row the statement
  writes, and with no row the scan reports \<open>ErrNotFound\<close>.
\<close>

definition update_user :: "uuid \<Rightarrow> (user_row \<Rightarrow> user_row) \<Rightarrow> (db, user_row) tx" where
  "update_user uid f db =
     (case sql_row (\<lambda>u. u_id u = uid) (users db) of
        None \<Rightarrow> Inl ErrNotFound
      | Some u \<Rightarrow> if \<not> user_checks (f u) then Inl CheckViolation
                 else Inr (f u, db\<lparr>users := sql_update (\<lambda>u. u_id u = uid) f (users db)\<rparr>))"

definition update_password_body :: "instant \<Rightarrow> uuid \<Rightarrow> string \<Rightarrow> uuid \<Rightarrow> (db, unit) tx" where
  "update_password_body now uid passwordHash keepFamilyID db =
     (case update_user uid (\<lambda>u. u\<lparr>u_password_hash := passwordHash, u_must_change := False\<rparr>) db of
        Inl e \<Rightarrow> Inl e
      | Inr (_, db1) \<Rightarrow>
          Inr ((), revoke_where (\<lambda>s. s_user s = uid \<and> s_family s \<noteq> keepFamilyID) now db1))"

definition UpdatePassword ::
  "instant \<Rightarrow> uuid \<Rightarrow> string \<Rightarrow> uuid \<Rightarrow> db \<Rightarrow> (store_error + unit) \<times> db" where
  "UpdatePassword now uid passwordHash keepFamilyID =
     begin_func (update_password_body now uid passwordHash keepFamilyID)"

definition UpdatePasswordHash :: "uuid \<Rightarrow> string \<Rightarrow> db \<Rightarrow> (store_error + unit) \<times> db" where
  "UpdatePasswordHash uid passwordHash db =
     (if \<not> sql_exists (\<lambda>u. u_id u = uid) (users db) then (Inl ErrNotFound, db)
      else (Inr (), db\<lparr>users := sql_update (\<lambda>u. u_id u = uid)
                        (\<lambda>u. u\<lparr>u_password_hash := passwordHash\<rparr>) (users db)\<rparr>))"

text \<open>Keyset pagination on \<open>(created_at, id)\<close>; the row comparison of SQL is the lexicographic order.\<close>

definition user_key :: "user_row \<Rightarrow> instant \<times> uuid" where
  "user_key u = (u_created u, u_id u)"

definition ListUsers :: "(instant \<times> uuid) option \<Rightarrow> nat \<Rightarrow> db \<Rightarrow> user_row list" where
  "ListUsers after limit db = take limit (sql_order user_key (filter (past user_key after) (users db)))"

definition CountUsers :: "db \<Rightarrow> nat" where
  "CountUsers db = length (users db)"

text \<open>\<open>COALESCE($n, column)\<close>: a nil field of the patch leaves the column.\<close>

definition coalesce :: "'a option \<Rightarrow> 'a \<Rightarrow> 'a" where
  "coalesce p x = (case p of None \<Rightarrow> x | Some v \<Rightarrow> v)"

record UserProfileUpdate =
  up_DisplayName :: "string option"
  up_Locale :: "string option"

definition UpdateUserProfile :: "uuid \<Rightarrow> UserProfileUpdate \<Rightarrow> db \<Rightarrow> (store_error + user_row) \<times> db" where
  "UpdateUserProfile uid upd =
     begin_func (update_user uid (\<lambda>u. u\<lparr>u_display_name := coalesce (up_DisplayName upd) (u_display_name u),
                                         u_locale := coalesce (up_Locale upd) (u_locale u)\<rparr>))"

record AdminUserUpdate =
  au_IsAdmin :: "bool option"
  au_IsActive :: "bool option"

text \<open>The admins who can sign in, \<open>WHERE is_admin AND is_active\<close>.\<close>

definition active_admins :: "db \<Rightarrow> user_row list" where
  "active_admins db = filter (\<lambda>u. u_is_admin u \<and> u_is_active u) (users db)"

definition update_admin_body :: "instant \<Rightarrow> uuid \<Rightarrow> AdminUserUpdate \<Rightarrow> (db, user_row) tx" where
  "update_admin_body now uid upd db =
     (case lockAccount uid db of
        Inl e \<Rightarrow> Inl e
      | Inr _ \<Rightarrow>
          (case update_user uid (\<lambda>u. u\<lparr>u_is_admin := coalesce (au_IsAdmin upd) (u_is_admin u),
                                       u_is_active := coalesce (au_IsActive upd) (u_is_active u)\<rparr>) db of
             Inl e \<Rightarrow> Inl e
           | Inr (u, db1) \<Rightarrow>
               if active_admins db1 = [] then Inl ErrLastAdmin
               else if \<not> u_is_active u then Inr (u, revoke_where (\<lambda>s. s_user s = uid) now db1)
               else Inr (u, db1)))"

definition UpdateUserAdmin ::
  "instant \<Rightarrow> uuid \<Rightarrow> AdminUserUpdate \<Rightarrow> db \<Rightarrow> (store_error + user_row) \<times> db" where
  "UpdateUserAdmin now uid upd = begin_func (update_admin_body now uid upd)"

definition SetTemporaryPassword :: "uuid \<Rightarrow> string \<Rightarrow> db \<Rightarrow> (store_error + user_row) \<times> db" where
  "SetTemporaryPassword uid passwordHash =
     begin_func (update_user uid (\<lambda>u. u\<lparr>u_password_hash := passwordHash, u_must_change := True\<rparr>))"

section \<open>Password reset links\<close>

datatype ResetOutcome =
  ResetOutcomeUnknown | ResetOutcomeUsed | ResetOutcomeExpired | ResetOutcomeApplied

definition UserByEmail :: "(string \<Rightarrow> string \<Rightarrow> bool) \<Rightarrow> string \<Rightarrow> db \<Rightarrow> store_error + user_row" where
  "UserByEmail ceq email db =
     (case sql_row (\<lambda>u. email_clash ceq (u_email u) (Some email)) (users db) of
        None \<Rightarrow> Inl ErrNotFound | Some u \<Rightarrow> Inr u)"

text \<open>
  \<open>UPDATE password_reset_tokens SET used_at = now() WHERE user_id = $1 AND used_at IS NULL\<close>, under the
  table's CHECK that a token is used no earlier than it was created.
\<close>

definition use_tokens :: "instant \<Rightarrow> uuid \<Rightarrow> (db, unit) tx" where
  "use_tokens now uid db =
     (let P = (\<lambda>t. pr_user t = uid \<and> pr_used_at t = None)
      in if sql_exists (\<lambda>t. P t \<and> now < pr_created t) (reset_tokens db) then Inl CheckViolation
         else Inr ((), db\<lparr>reset_tokens := sql_update P (\<lambda>t. t\<lparr>pr_used_at := Some now\<rparr>) (reset_tokens db)\<rparr>))"

definition insert_token :: "instant \<Rightarrow> uuid \<Rightarrow> uuid \<Rightarrow> bytes \<Rightarrow> duration \<Rightarrow> (db, unit) tx" where
  "insert_token now newID uid tokenHash ttl db =
     (let row = \<lparr>pr_id = newID, pr_user = uid, pr_token_hash = tokenHash, pr_exp = now + ttl,
                 pr_created = now, pr_used_at = None\<rparr>
      in if length tokenHash \<noteq> 32 then Inl CheckViolation
         else if sql_exists (\<lambda>t. pr_id t = newID \<or> pr_token_hash t = tokenHash) (reset_tokens db)
         then Inl UniqueViolation
         else if \<not> sql_exists (\<lambda>u. u_id u = uid) (users db) then Inl ForeignKeyViolation
         else Inr ((), db\<lparr>reset_tokens := sql_insert row (reset_tokens db)\<rparr>))"

definition create_token_body :: "instant \<Rightarrow> uuid \<Rightarrow> uuid \<Rightarrow> bytes \<Rightarrow> duration \<Rightarrow> (db, unit) tx" where
  "create_token_body now newID uid tokenHash ttl db =
     (case lockAccount uid db of
        Inl e \<Rightarrow> Inl e
      | Inr _ \<Rightarrow>
          (case use_tokens now uid db of
             Inl e \<Rightarrow> Inl e
           | Inr (_, db1) \<Rightarrow> insert_token now newID uid tokenHash ttl db1))"

definition CreatePasswordResetToken ::
  "instant \<Rightarrow> uuid \<Rightarrow> uuid \<Rightarrow> bytes \<Rightarrow> duration \<Rightarrow> db \<Rightarrow> (store_error + unit) \<times> db" where
  "CreatePasswordResetToken now newID uid tokenHash ttl =
     begin_func (create_token_body now newID uid tokenHash ttl)"

text \<open>\<open>UPDATE totp_challenges SET consumed_at = now() WHERE user_id = $1 AND consumed_at IS NULL\<close>.\<close>

definition consume_challenges :: "instant \<Rightarrow> uuid \<Rightarrow> db \<Rightarrow> db" where
  "consume_challenges now uid db = db\<lparr>totp_challenges :=
     sql_update (\<lambda>c. tc_user c = uid \<and> tc_consumed_at c = None)
       (\<lambda>c. c\<lparr>tc_consumed_at := Some now\<rparr>) (totp_challenges db)\<rparr>"

text \<open>The applied branch, once the presented token has been judged live under the two locks.\<close>

definition apply_reset :: "instant \<Rightarrow> uuid \<Rightarrow> string \<Rightarrow> (db, uuid option \<times> ResetOutcome) tx" where
  "apply_reset now owner passwordHash db =
     (case use_tokens now owner db of
        Inl e \<Rightarrow> Inl e
      | Inr (_, db1) \<Rightarrow>
          (case update_user owner (\<lambda>u. u\<lparr>u_password_hash := passwordHash, u_must_change := False\<rparr>) db1 of
             Inl e \<Rightarrow> Inl e
           | Inr (_, db2) \<Rightarrow>
               Inr ((Some owner, ResetOutcomeApplied),
                    revoke_where (\<lambda>s. s_user s = owner) now (consume_challenges now owner db2))))"

text \<open>
  The second read of the row runs under the account lock in the same transaction and sees the row
  the first one saw. An account that is gone leaves the outcome unknown.
\<close>

definition consume_reset_body :: "instant \<Rightarrow> bytes \<Rightarrow> string \<Rightarrow> (db, uuid option \<times> ResetOutcome) tx" where
  "consume_reset_body now tokenHash passwordHash db =
     (case sql_row (\<lambda>t. pr_token_hash t = tokenHash) (reset_tokens db) of
        None \<Rightarrow> Inr ((None, ResetOutcomeUnknown), db)
      | Some t \<Rightarrow>
          (case lockAccount (pr_user t) db of
             Inl e \<Rightarrow> if e = ErrNotFound then Inr ((None, ResetOutcomeUnknown), db) else Inl e
           | Inr _ \<Rightarrow>
               if pr_used_at t \<noteq> None then Inr ((None, ResetOutcomeUsed), db)
               else if pr_exp t \<le> now then Inr ((None, ResetOutcomeExpired), db)
               else apply_reset now (pr_user t) passwordHash db))"

definition ConsumePasswordReset ::
  "instant \<Rightarrow> bytes \<Rightarrow> string \<Rightarrow> db \<Rightarrow> (store_error + uuid option \<times> ResetOutcome) \<times> db" where
  "ConsumePasswordReset now tokenHash passwordHash = begin_func (consume_reset_body now tokenHash passwordHash)"

section \<open>Invitations\<close>

record InviteCreator =
  ic_ID :: uuid
  ic_Username :: string
  ic_DisplayName :: string

record Invite =
  in_ID :: uuid
  in_CreatedBy :: InviteCreator
  in_Note :: string
  in_CreatedAt :: instant
  in_ExpiresAt :: instant

definition openInvite :: "instant \<Rightarrow> invite_row \<Rightarrow> bool" where
  "openInvite now i \<longleftrightarrow> iv_accepted_at i = None \<and> iv_revoked_at i = None \<and> now < iv_exp i"

text \<open>\<open>inviteColumns\<close> of a row joined with its creator; no creator, no row.\<close>

definition scanInvite :: "db \<Rightarrow> invite_row \<Rightarrow> Invite option" where
  "scanInvite db i =
     (case sql_row (\<lambda>u. u_id u = iv_created_by i) (users db) of
        None \<Rightarrow> None
      | Some u \<Rightarrow> Some \<lparr>in_ID = iv_id i,
          in_CreatedBy = \<lparr>ic_ID = u_id u, ic_Username = u_username u, ic_DisplayName = u_display_name u\<rparr>,
          in_Note = iv_note i, in_CreatedAt = iv_created i, in_ExpiresAt = iv_exp i\<rparr>)"

definition create_invite_body ::
  "instant \<Rightarrow> uuid \<Rightarrow> uuid \<Rightarrow> bytes \<Rightarrow> string \<Rightarrow> duration \<Rightarrow> (db, Invite) tx" where
  "create_invite_body now newID createdBy tokenHash note ttl db =
     (let row = \<lparr>iv_id = newID, iv_token_hash = tokenHash, iv_created_by = createdBy, iv_note = note,
                 iv_created = now, iv_exp = now + ttl, iv_accepted_at = None, iv_accepted_by = None,
                 iv_revoked_at = None\<rparr>
      in if 200 < char_length note then Inl CheckViolation
         else if sql_exists (\<lambda>i. iv_id i = newID \<or> iv_token_hash i = tokenHash) (invites db)
         then Inl UniqueViolation
         else if \<not> sql_exists (\<lambda>u. u_id u = createdBy) (users db) then Inl ForeignKeyViolation
         else (case scanInvite db row of
                 None \<Rightarrow> Inl ErrNotFound
               | Some link \<Rightarrow> Inr (link, db\<lparr>invites := sql_insert row (invites db)\<rparr>)))"

definition CreateInvite ::
  "instant \<Rightarrow> uuid \<Rightarrow> uuid \<Rightarrow> bytes \<Rightarrow> string \<Rightarrow> duration \<Rightarrow> db \<Rightarrow> (store_error + Invite) \<times> db" where
  "CreateInvite now newID createdBy tokenHash note ttl =
     begin_func (create_invite_body now newID createdBy tokenHash note ttl)"

definition invite_key :: "invite_row \<Rightarrow> instant \<times> uuid" where
  "invite_key i = (iv_exp i, iv_id i)"

definition open_invite_rows :: "instant \<Rightarrow> (instant \<times> uuid) option \<Rightarrow> nat \<Rightarrow> db \<Rightarrow> invite_row list" where
  "open_invite_rows now after limit db =
     take limit (sql_order invite_key (filter (\<lambda>i. openInvite now i \<and>
       sql_exists (\<lambda>u. u_id u = iv_created_by i) (users db) \<and> past invite_key after i) (invites db)))"

definition ListOpenInvites :: "instant \<Rightarrow> (instant \<times> uuid) option \<Rightarrow> nat \<Rightarrow> db \<Rightarrow> Invite list" where
  "ListOpenInvites now after limit db =
     List.map_filter (scanInvite db) (open_invite_rows now after limit db)"

definition RevokeInvite :: "instant \<Rightarrow> uuid \<Rightarrow> db \<Rightarrow> db" where
  "RevokeInvite now inviteID db = db\<lparr>invites :=
     sql_update (\<lambda>i. iv_id i = inviteID \<and> iv_accepted_at i = None \<and> iv_revoked_at i = None)
       (\<lambda>i. i\<lparr>iv_revoked_at := Some now\<rparr>) (invites db)\<rparr>"

definition OpenInviteByTokenHash :: "instant \<Rightarrow> bytes \<Rightarrow> db \<Rightarrow> store_error + Invite" where
  "OpenInviteByTokenHash now tokenHash db =
     (case sql_row (\<lambda>i. iv_token_hash i = tokenHash \<and> openInvite now i) (invites db) of
        None \<Rightarrow> Inl ErrNotFound
      | Some i \<Rightarrow> (case scanInvite db i of None \<Rightarrow> Inl ErrNotFound | Some link \<Rightarrow> Inr link))"

definition redeem_body ::
  "(string \<Rightarrow> string \<Rightarrow> bool) \<Rightarrow> instant \<Rightarrow> uuid \<Rightarrow> bytes \<Rightarrow> NewUser \<Rightarrow> (db, user_row) tx" where
  "redeem_body ceq now newID tokenHash nu db =
     (case sql_row (\<lambda>i. iv_token_hash i = tokenHash \<and> openInvite now i) (invites db) of
        None \<Rightarrow> Inl ErrNotFound
      | Some i \<Rightarrow>
          (case create_user_body ceq now newID nu db of
             Inl e \<Rightarrow> Inl e
           | Inr (u, db1) \<Rightarrow>
               Inr (u, db1\<lparr>invites := sql_update (\<lambda>x. iv_id x = iv_id i)
                 (\<lambda>x. x\<lparr>iv_accepted_at := Some now, iv_accepted_by := Some (u_id u)\<rparr>) (invites db1)\<rparr>)))"

definition RedeemInvite ::
  "(string \<Rightarrow> string \<Rightarrow> bool) \<Rightarrow> instant \<Rightarrow> uuid \<Rightarrow> bytes \<Rightarrow> NewUser \<Rightarrow> db \<Rightarrow> (store_error + user_row) \<times> db" where
  "RedeemInvite ceq now newID tokenHash nu = begin_func (redeem_body ceq now newID tokenHash nu)"

section \<open>What each transaction writes\<close>

lemma email_clash_simps [simp]:
  "\<not> email_clash ceq None b" "\<not> email_clash ceq a None" "email_clash ceq (Some x) (Some y) = ceq x y"
  by (auto simp: email_clash_def split: option.splits)

lemma insert_user_Inr:
  "insert_user ceq r db = Inr (u, db') \<Longrightarrow>
     u = r \<and> db' = db\<lparr>users := users db @ [r]\<rparr> \<and> user_checks r \<and>
     (\<forall>x \<in> set (users db). u_id x \<noteq> u_id r \<and> \<not> ceq (u_username x) (u_username r) \<and>
        \<not> email_clash ceq (u_email x) (u_email r))"
  by (auto simp: insert_user_def sql_insert_def split: if_splits)

lemma create_user_body_Inr:
  "create_user_body ceq now i nu db = Inr (u, db') \<Longrightarrow> insert_user ceq (new_user_row now i nu) db = Inr (u, db')"
  by (auto simp: create_user_body_def split: sum.splits)

lemma update_user_Inr:
  "update_user uid f db = Inr (u, db') \<Longrightarrow>
     db' = db\<lparr>users := sql_update (\<lambda>u. u_id u = uid) f (users db)\<rparr> \<and>
     (\<exists>v \<in> set (users db). u_id v = uid \<and> u = f v) \<and> user_checks u"
  by (auto simp: update_user_def dest!: sql_row_Some_iff split: option.splits if_splits)

lemma lockAccount_Inr: "lockAccount uid db = Inr (x, db') \<Longrightarrow> db' = db \<and> (\<exists>u \<in> set (users db). u_id u = uid)"
  by (auto simp: lockAccount_def split: if_splits)

lemma use_tokens_Inr:
  "use_tokens now uid db = Inr (x, db') \<Longrightarrow>
     db' = db\<lparr>reset_tokens := sql_update (\<lambda>t. pr_user t = uid \<and> pr_used_at t = None)
                (\<lambda>t. t\<lparr>pr_used_at := Some now\<rparr>) (reset_tokens db)\<rparr> \<and>
     (\<forall>t \<in> set (reset_tokens db). pr_user t = uid \<and> pr_used_at t = None \<longrightarrow> pr_created t \<le> now)"
  by (auto simp: use_tokens_def Let_def not_less split: if_splits)

lemma insert_token_Inr:
  "insert_token now i uid h ttl db = Inr (x, db') \<Longrightarrow>
     db' = db\<lparr>reset_tokens := reset_tokens db @ [\<lparr>pr_id = i, pr_user = uid, pr_token_hash = h, pr_exp = now + ttl,
                 pr_created = now, pr_used_at = None\<rparr>]\<rparr> \<and> length h = 32 \<and>
     (\<forall>t \<in> set (reset_tokens db). pr_id t \<noteq> i \<and> pr_token_hash t \<noteq> h)"
  by (auto simp: insert_token_def Let_def sql_insert_def split: if_splits)

lemma revoke_where_frame [simp]:
  "users (revoke_where P now db) = users db" "reset_tokens (revoke_where P now db) = reset_tokens db"
  "invites (revoke_where P now db) = invites db" "totp_challenges (revoke_where P now db) = totp_challenges db"
  "active_admins (revoke_where P now db) = active_admins db"
  by (simp_all add: revoke_where_def active_admins_def)

lemma consume_challenges_frame [simp]:
  "users (consume_challenges now uid db) = users db" "reset_tokens (consume_challenges now uid db) = reset_tokens db"
  "invites (consume_challenges now uid db) = invites db" "sessions (consume_challenges now uid db) = sessions db"
  by (simp_all add: consume_challenges_def)

lemma use_tokens_frame:
  "use_tokens now uid db = Inr (x, db') \<Longrightarrow>
     users db' = users db \<and> invites db' = invites db \<and> sessions db' = sessions db \<and>
     totp_challenges db' = totp_challenges db"
  by (auto dest: use_tokens_Inr)

lemma update_admin_body_Inr:
  assumes "update_admin_body now uid upd db = Inr (u, db')"
  shows "users db' = sql_update (\<lambda>u. u_id u = uid)
           (\<lambda>u. u\<lparr>u_is_admin := coalesce (au_IsAdmin upd) (u_is_admin u),
                  u_is_active := coalesce (au_IsActive upd) (u_is_active u)\<rparr>) (users db)"
    and "active_admins db' \<noteq> []" and "reset_tokens db' = reset_tokens db" and "invites db' = invites db"
    and "totp_challenges db' = totp_challenges db" and "u_id u = uid"
    and "sessions db' = (if u_is_active u then sessions db
           else sessions (revoke_where (\<lambda>s. s_user s = uid) now db))"
  using assms
  by (auto simp: update_admin_body_def revoke_where_def active_admins_def
      dest!: update_user_Inr split: sum.splits prod.splits if_splits)

lemma apply_reset_Inr:
  assumes "apply_reset now owner p db = Inr (out, db')"
  shows "out = (Some owner, ResetOutcomeApplied)"
    and "users db' = sql_update (\<lambda>u. u_id u = owner) (\<lambda>u. u\<lparr>u_password_hash := p, u_must_change := False\<rparr>) (users db)"
    and "reset_tokens db' = sql_update (\<lambda>t. pr_user t = owner \<and> pr_used_at t = None)
                (\<lambda>t. t\<lparr>pr_used_at := Some now\<rparr>) (reset_tokens db)"
    and "\<exists>d1. use_tokens now owner db = Inr ((), d1) \<and> reset_tokens db' = reset_tokens d1"
    and "invites db' = invites db"
    and "sessions db' = sessions (revoke_where (\<lambda>s. s_user s = owner) now db)"
    and "totp_challenges db' = totp_challenges (consume_challenges now owner db)"
proof -
  from assms obtain d1 u d2 where d1: "use_tokens now owner db = Inr ((), d1)"
    and d2: "update_user owner (\<lambda>u. u\<lparr>u_password_hash := p, u_must_change := False\<rparr>) d1 = Inr (u, d2)"
    and db': "db' = revoke_where (\<lambda>s. s_user s = owner) now (consume_challenges now owner d2)"
    and out: "out = (Some owner, ResetOutcomeApplied)"
    by (auto simp: apply_reset_def split: sum.splits)
  note t = use_tokens_Inr [OF d1] and u = update_user_Inr [OF d2]
  show "out = (Some owner, ResetOutcomeApplied)" by (rule out)
  show "users db' = sql_update (\<lambda>u. u_id u = owner) (\<lambda>u. u\<lparr>u_password_hash := p, u_must_change := False\<rparr>) (users db)"
    "reset_tokens db' = sql_update (\<lambda>t. pr_user t = owner \<and> pr_used_at t = None)
                (\<lambda>t. t\<lparr>pr_used_at := Some now\<rparr>) (reset_tokens db)"
    "invites db' = invites db"
    "sessions db' = sessions (revoke_where (\<lambda>s. s_user s = owner) now db)"
    "totp_challenges db' = totp_challenges (consume_challenges now owner db)"
    using t u by (simp_all add: db' revoke_where_def consume_challenges_def)
  show "\<exists>d1. use_tokens now owner db = Inr ((), d1) \<and> reset_tokens db' = reset_tokens d1"
    using d1 u by (simp add: db')
qed

text \<open>The four answers a presented reset token gets, and that only one of them changes anything.\<close>

lemma consume_reset_cases:
  assumes "consume_reset_body now h p db = Inr (out, db')"
  obtains (refused) "db' = db" "fst out = None" "snd out \<noteq> ResetOutcomeApplied"
  | (applied) t where "sql_row (\<lambda>t. pr_token_hash t = h) (reset_tokens db) = Some t" "pr_used_at t = None"
      "now < pr_exp t" "apply_reset now (pr_user t) p db = Inr (out, db')"
  using assms
  by (auto simp: consume_reset_body_def lockAccount_def split: option.splits sum.splits if_splits)

lemma redeem_body_Inr:
  assumes "redeem_body ceq now newID h nu db = Inr (u, db')"
  obtains i where "sql_row (\<lambda>i. iv_token_hash i = h \<and> openInvite now i) (invites db) = Some i"
    "u = new_user_row now newID nu" "insert_user ceq u db = Inr (u, db\<lparr>users := users db @ [u]\<rparr>)"
    "db' = db\<lparr>users := users db @ [u], invites := sql_update (\<lambda>x. iv_id x = iv_id i)
       (\<lambda>x. x\<lparr>iv_accepted_at := Some now, iv_accepted_by := Some newID\<rparr>) (invites db)\<rparr>"
proof -
  from assms obtain i db1 where i: "sql_row (\<lambda>i. iv_token_hash i = h \<and> openInvite now i) (invites db) = Some i"
    and c: "create_user_body ceq now newID nu db = Inr (u, db1)"
    and db': "db' = db1\<lparr>invites := sql_update (\<lambda>x. iv_id x = iv_id i)
       (\<lambda>x. x\<lparr>iv_accepted_at := Some now, iv_accepted_by := Some (u_id u)\<rparr>) (invites db1)\<rparr>"
    by (auto simp: redeem_body_def split: option.splits sum.splits)
  note ins = create_user_body_Inr [OF c]
  from insert_user_Inr [OF ins] have u: "u = new_user_row now newID nu" and db1: "db1 = db\<lparr>users := users db @ [u]\<rparr>"
    by auto
  show thesis
    by (rule that [OF i u]) (use ins u db1 db' in \<open>simp_all add: new_user_row_def\<close>)
qed

lemma create_invite_Inr:
  "create_invite_body now i by_user h remark ttl db = Inr (link, db') \<Longrightarrow>
     db' = db\<lparr>invites := invites db @ [\<lparr>iv_id = i, iv_token_hash = h, iv_created_by = by_user, iv_note = remark,
                 iv_created = now, iv_exp = now + ttl, iv_accepted_at = None, iv_accepted_by = None,
                 iv_revoked_at = None\<rparr>]\<rparr> \<and>
     (\<forall>x \<in> set (invites db). iv_id x \<noteq> i \<and> iv_token_hash x \<noteq> h)"
  by (auto simp: create_invite_body_def Let_def sql_insert_def split: if_splits option.splits)

section \<open>The account transactions as steps\<close>

text \<open>
  Every transaction of the three files, at any time and in any order, and every transaction of
  another component, which leaves their three tables alone.
\<close>

inductive account_step :: "(string \<Rightarrow> string \<Rightarrow> bool) \<Rightarrow> db \<Rightarrow> db \<Rightarrow> bool" for ceq where
  create: "account_step ceq db (snd (CreateUser ceq now i nu db))"
| password: "account_step ceq db (snd (UpdatePassword now uid p keep db))"
| rehash: "account_step ceq db (snd (UpdatePasswordHash uid p db))"
| profile: "account_step ceq db (snd (UpdateUserProfile uid pu db))"
| admin: "account_step ceq db (snd (UpdateUserAdmin now uid au db))"
| temporary: "account_step ceq db (snd (SetTemporaryPassword uid p db))"
| link: "account_step ceq db (snd (CreatePasswordResetToken now i uid h ttl db))"
| reset: "account_step ceq db (snd (ConsumePasswordReset now h p db))"
| invite: "account_step ceq db (snd (CreateInvite now i uid h remark ttl db))"
| withdraw: "account_step ceq db (RevokeInvite now i db)"
| redeem: "account_step ceq db (snd (RedeemInvite ceq now i h nu db))"
| elsewhere: "users db' = users db \<Longrightarrow> reset_tokens db' = reset_tokens db \<Longrightarrow> invites db' = invites db \<Longrightarrow>
    account_step ceq db db'"

inductive account_run :: "(string \<Rightarrow> string \<Rightarrow> bool) \<Rightarrow> db \<Rightarrow> db \<Rightarrow> bool" for ceq where
  here: "account_run ceq db db"
| later: "account_run ceq db db1 \<Longrightarrow> account_step ceq db1 db2 \<Longrightarrow> account_run ceq db db2"

lemmas account_ops = CreateUser_def UpdatePassword_def UpdateUserProfile_def UpdateUserAdmin_def
  SetTemporaryPassword_def CreatePasswordResetToken_def ConsumePasswordReset_def CreateInvite_def
  RedeemInvite_def

text \<open>What a step can do to each of the three tables.\<close>

definition keeps_identity :: "(user_row \<Rightarrow> user_row) \<Rightarrow> bool" where
  "keeps_identity f \<longleftrightarrow> (\<forall>u. u_id (f u) = u_id u \<and> u_username (f u) = u_username u \<and> u_email (f u) = u_email u)"

definition keeps_standing :: "(user_row \<Rightarrow> user_row) \<Rightarrow> bool" where
  "keeps_standing f \<longleftrightarrow> (\<forall>u. u_is_admin (f u) = u_is_admin u \<and> u_is_active (f u) = u_is_active u)"

inductive users_move :: "(string \<Rightarrow> string \<Rightarrow> bool) \<Rightarrow> db \<Rightarrow> db \<Rightarrow> bool" for ceq where
  same: "users db' = users db \<Longrightarrow> users_move ceq db db'"
| insert: "insert_user ceq r db = Inr (r, db1) \<Longrightarrow> users db' = users db1 \<Longrightarrow> users_move ceq db db'"
| change: "users db' = sql_update (\<lambda>u. u_id u = uid) f (users db) \<Longrightarrow> keeps_identity f \<Longrightarrow>
    keeps_standing f \<or> active_admins db' \<noteq> [] \<Longrightarrow> users_move ceq db db'"

inductive tokens_move :: "db \<Rightarrow> db \<Rightarrow> bool" where
  same: "reset_tokens db' = reset_tokens db \<Longrightarrow> tokens_move db db'"
| used: "use_tokens now uid db = Inr ((), db1) \<Longrightarrow> reset_tokens db' = reset_tokens db1 \<Longrightarrow> tokens_move db db'"
| issued: "use_tokens now uid db = Inr ((), db1) \<Longrightarrow> insert_token now i uid h ttl db1 = Inr ((), db2) \<Longrightarrow>
    reset_tokens db' = reset_tokens db2 \<Longrightarrow> tokens_move db db'"

inductive invites_move :: "db \<Rightarrow> db \<Rightarrow> bool" where
  same: "invites db' = invites db \<Longrightarrow> invites_move db db'"
| issued: "invites db' = invites db @ [i] \<Longrightarrow> iv_accepted_at i = None \<Longrightarrow> iv_accepted_by i = None \<Longrightarrow>
    iv_revoked_at i = None \<Longrightarrow> (\<forall>x \<in> set (invites db). iv_id x \<noteq> iv_id i \<and> iv_token_hash x \<noteq> iv_token_hash i) \<Longrightarrow>
    invites_move db db'"
| withdrawn: "invites db' = invites (RevokeInvite now k db) \<Longrightarrow> invites_move db db'"
| accepted: "i \<in> set (invites db) \<Longrightarrow> openInvite now i \<Longrightarrow>
    invites db' = sql_update (\<lambda>x. iv_id x = iv_id i)
       (\<lambda>x. x\<lparr>iv_accepted_at := Some now, iv_accepted_by := Some uid\<rparr>) (invites db) \<Longrightarrow> invites_move db db'"

lemma begin_func_moves:
  assumes "\<And>db. R db db" and "\<And>a db'. body db = Inr (a, db') \<Longrightarrow> R db db'"
  shows "R db (snd (begin_func body db))"
  using assms by (auto simp: begin_func_def split: sum.splits prod.splits)

lemma update_user_moves:
  assumes "update_user uid f db = Inr (u, db')" and "keeps_identity f" and "keeps_standing f"
  shows "users_move ceq db db' \<and> tokens_move db db' \<and> invites_move db db'"
  using update_user_Inr [OF assms(1)] assms(2,3)
  by (auto intro: users_move.change tokens_move.same invites_move.same)

lemma step_moves:
  assumes "account_step ceq db db'"
  shows "users_move ceq db db' \<and> tokens_move db db' \<and> invites_move db db'"
proof -
  let ?R = "\<lambda>db db'. users_move ceq db db' \<and> tokens_move db db' \<and> invites_move db db'"
  have refl: "?R d d" for d by (auto intro: users_move.same tokens_move.same invites_move.same)
  note bf = begin_func_moves [where R = ?R, OF refl]
  show ?thesis
    using assms
  proof cases
    case (create now i nu)
    show ?thesis unfolding create CreateUser_def
    proof (rule bf)
      fix u d assume "create_user_body ceq now i nu db = Inr (u, d)"
      note ins = create_user_body_Inr [OF this]
      show "?R db d"
        using ins insert_user_Inr [OF ins] by (auto intro: users_move.insert tokens_move.same invites_move.same)
    qed
  next
    case (password now uid p keep)
    show ?thesis unfolding password UpdatePassword_def
    proof (rule bf)
      fix u d assume "update_password_body now uid p keep db = Inr (u, d)"
      then obtain v d1 where "update_user uid (\<lambda>u. u\<lparr>u_password_hash := p, u_must_change := False\<rparr>) db = Inr (v, d1)"
          "d = revoke_where (\<lambda>s. s_user s = uid \<and> s_family s \<noteq> keep) now d1"
        by (auto simp: update_password_body_def split: sum.splits)
      with update_user_Inr [OF this(1)] show "?R db d"
        by (auto simp: keeps_identity_def keeps_standing_def
            intro!: users_move.change tokens_move.same invites_move.same)
    qed
  next
    case (rehash uid p)
    consider "db' = db" | "db' = db\<lparr>users := sql_update (\<lambda>u. u_id u = uid)
        (\<lambda>u. u\<lparr>u_password_hash := p\<rparr>) (users db)\<rparr>"
      using rehash by (auto simp: UpdatePasswordHash_def split: if_splits)
    then show ?thesis
      by cases (use refl in \<open>auto simp: keeps_identity_def keeps_standing_def
          intro!: users_move.change tokens_move.same invites_move.same\<close>)
  next
    case (profile uid pu)
    show ?thesis unfolding profile UpdateUserProfile_def
      by (rule bf, erule update_user_moves) (simp_all add: keeps_identity_def keeps_standing_def)
  next
    case (temporary uid p)
    show ?thesis unfolding temporary SetTemporaryPassword_def
      by (rule bf, erule update_user_moves) (simp_all add: keeps_identity_def keeps_standing_def)
  next
    case (admin now uid au)
    show ?thesis unfolding admin UpdateUserAdmin_def
    proof (rule bf)
      fix u d assume b: "update_admin_body now uid au db = Inr (u, d)"
      show "?R db d"
        using update_admin_body_Inr(1-4) [OF b]
        by (auto simp: keeps_identity_def intro!: users_move.change tokens_move.same invites_move.same)
    qed
  next
    case (link now i uid h ttl)
    show ?thesis unfolding link CreatePasswordResetToken_def
    proof (rule bf)
      fix u d assume "create_token_body now i uid h ttl db = Inr (u, d)"
      then obtain d1 where "use_tokens now uid db = Inr ((), d1)" "insert_token now i uid h ttl d1 = Inr ((), d)"
        by (auto simp: create_token_body_def split: sum.splits)
      with use_tokens_frame [OF this(1)] insert_token_Inr [OF this(2)] show "?R db d"
        by (auto intro: users_move.same tokens_move.issued invites_move.same)
    qed
  next
    case (reset now h p)
    show ?thesis unfolding reset ConsumePasswordReset_def
    proof (rule bf)
      fix out d assume "consume_reset_body now h p db = Inr (out, d)"
      then show "?R db d"
      proof (cases rule: consume_reset_cases)
        case (applied t)
        note a = apply_reset_Inr [OF applied(4)]
        with a(2,4,5) show ?thesis
          by (auto simp: keeps_identity_def keeps_standing_def
              intro!: users_move.change tokens_move.used invites_move.same)
      qed (use refl in auto)
    qed
  next
    case (invite now i uid h remark ttl)
    show ?thesis unfolding invite CreateInvite_def
    proof (rule bf)
      fix out d assume "create_invite_body now i uid h remark ttl db = Inr (out, d)"
      from create_invite_Inr [OF this] show "?R db d"
        by (auto intro: users_move.same tokens_move.same invites_move.issued)
    qed
  next
    case (withdraw now i)
    then show ?thesis
      by (auto simp: RevokeInvite_def intro: users_move.same tokens_move.same
          invites_move.withdrawn [of _ now i, unfolded RevokeInvite_def])
  next
    case (redeem now i h nu)
    show ?thesis unfolding redeem RedeemInvite_def
    proof (rule bf)
      fix u d assume "redeem_body ceq now i h nu db = Inr (u, d)"
      then show "?R db d"
        by (rule redeem_body_Inr)
           (auto dest!: sql_row_Some_iff intro: users_move.insert tokens_move.same invites_move.accepted)
    qed
  next
    case elsewhere
    then show ?thesis by (auto intro: users_move.same tokens_move.same invites_move.same)
  qed
qed

section \<open>The invariant\<close>

text \<open>
  Identifiers, names and addresses are unique; an account has at most one reset link that is not
  used, and no link was used before it was made; an invitation names its account exactly when it is
  spent, and is never both spent and withdrawn.
\<close>

definition names_ok :: "(string \<Rightarrow> string \<Rightarrow> bool) \<Rightarrow> user_row list \<Rightarrow> bool" where
  "names_ok ceq rows \<longleftrightarrow> distinct (map u_id rows) \<and>
     (\<forall>a \<in> set rows. \<forall>b \<in> set rows. u_id a \<noteq> u_id b \<longrightarrow>
        \<not> ceq (u_username a) (u_username b) \<and> \<not> email_clash ceq (u_email a) (u_email b))"

definition tokens_ok :: "reset_row list \<Rightarrow> bool" where
  "tokens_ok rows \<longleftrightarrow> distinct (map pr_token_hash rows) \<and>
     distinct (map pr_user (filter (\<lambda>t. pr_used_at t = None) rows)) \<and>
     (\<forall>t \<in> set rows. \<forall>u. pr_used_at t = Some u \<longrightarrow> pr_created t \<le> u)"

definition invite_ok :: "invite_row \<Rightarrow> bool" where
  "invite_ok i \<longleftrightarrow> (iv_accepted_at i = None \<longleftrightarrow> iv_accepted_by i = None) \<and>
     (iv_accepted_at i = None \<or> iv_revoked_at i = None)"

definition invites_ok :: "invite_row list \<Rightarrow> bool" where
  "invites_ok rows \<longleftrightarrow> distinct (map iv_id rows) \<and> distinct (map iv_token_hash rows) \<and>
     (\<forall>i \<in> set rows. invite_ok i)"

definition account_inv :: "(string \<Rightarrow> string \<Rightarrow> bool) \<Rightarrow> db \<Rightarrow> bool" where
  "account_inv ceq db \<longleftrightarrow> names_ok ceq (users db) \<and> tokens_ok (reset_tokens db) \<and> invites_ok (invites db)"

lemma names_ok_insert:
  assumes "symp ceq" and "names_ok ceq rows"
    and "\<forall>x \<in> set rows. u_id x \<noteq> u_id r \<and> \<not> ceq (u_username x) (u_username r) \<and>
        \<not> email_clash ceq (u_email x) (u_email r)"
  shows "names_ok ceq (rows @ [r])"
proof -
  have "\<not> ceq (u_username r) (u_username x) \<and> \<not> email_clash ceq (u_email r) (u_email x)" if "x \<in> set rows" for x
    using that assms(1,3) by (auto simp: email_clash_def dest: sympD split: option.splits)
  with assms(2,3) show ?thesis by (auto simp: names_ok_def)
qed

lemma names_ok_update:
  assumes "names_ok ceq rows" and "keeps_identity f"
  shows "names_ok ceq (sql_update P f rows)"
  using assms by (simp add: names_ok_def map_sql_update_frame keeps_identity_def set_sql_update del: if_image_distrib)

lemma users_move_ok: "users_move ceq db db' \<Longrightarrow> symp ceq \<Longrightarrow> names_ok ceq (users db) \<Longrightarrow> names_ok ceq (users db')"
  by (induction rule: users_move.induct) (auto simp: names_ok_insert names_ok_update dest: insert_user_Inr)

text \<open>Once an account has an administrator who can sign in, no transaction removes the last one.\<close>

lemma admins_iff: "active_admins db \<noteq> [] \<longleftrightarrow> (\<exists>u \<in> set (users db). u_is_admin u \<and> u_is_active u)"
  by (simp add: active_admins_def filter_empty_conv)

lemma users_move_admins: "users_move ceq db db' \<Longrightarrow> active_admins db \<noteq> [] \<Longrightarrow> active_admins db' \<noteq> []"
proof (induction rule: users_move.induct)
  case (insert r db db1 db')
  then show ?case using insert_user_Inr [OF insert.hyps(1)] by (auto simp: admins_iff)
next
  case (change db' uid f db)
  then show ?case
  proof (cases "active_admins db' = []")
    case True
    with change have "\<exists>u \<in> set (users db'). u_is_admin u \<and> u_is_active u"
      unfolding change.hyps(1) by (intro sql_update_keeps) (auto simp: admins_iff keeps_standing_def)
    then show ?thesis by (simp only: admins_iff)
  qed simp
qed (simp add: admins_iff)

lemma use_tokens_filter:
  assumes "use_tokens now uid db = Inr (x, db')"
  shows "filter (\<lambda>t. pr_used_at t = None) (reset_tokens db') =
         filter (\<lambda>t. pr_used_at t = None \<and> pr_user t \<noteq> uid) (reset_tokens db)"
proof -
  have "filter (\<lambda>t. pr_used_at t = None) (sql_update (\<lambda>t. pr_user t = uid \<and> pr_used_at t = None)
      (\<lambda>t. t\<lparr>pr_used_at := Some now\<rparr>) rows) = filter (\<lambda>t. pr_used_at t = None \<and> pr_user t \<noteq> uid) rows" for rows
    by (induction rows) (auto simp: sql_update_def)
  then show ?thesis using use_tokens_Inr [OF assms] by simp
qed

lemma use_tokens_ok:
  assumes "use_tokens now uid db = Inr (x, db')" and "tokens_ok (reset_tokens db)"
  shows "tokens_ok (reset_tokens db')" and "\<forall>t \<in> set (reset_tokens db'). pr_used_at t = None \<longrightarrow> pr_user t \<noteq> uid"
proof -
  let ?f = "\<lambda>t. t\<lparr>pr_used_at := Some now\<rparr>"
  let ?P = "\<lambda>t. pr_user t = uid \<and> pr_used_at t = None"
  have rows: "reset_tokens db' = sql_update ?P ?f (reset_tokens db)"
    and past: "\<forall>t \<in> set (reset_tokens db). ?P t \<longrightarrow> pr_created t \<le> now"
    using use_tokens_Inr [OF assms(1)] by auto
  have "distinct (map pr_user (filter (\<lambda>t. pr_used_at t = None) (reset_tokens db')))"
    using assms(2)
      distinct_map_filter [of pr_user "filter (\<lambda>t. pr_used_at t = None) (reset_tokens db)" "\<lambda>t. pr_user t \<noteq> uid"]
    by (simp add: use_tokens_filter [OF assms(1)] tokens_ok_def conj_commute)
  moreover have "pr_created t \<le> u" if "t \<in> set (reset_tokens db')" "pr_used_at t = Some u" for t u
    using that(1) unfolding rows
    by (cases rule: sql_updateE) (use past that(2) assms(2) in \<open>auto simp: tokens_ok_def\<close>)
  ultimately show "tokens_ok (reset_tokens db')"
    using assms(2) by (simp add: tokens_ok_def rows map_sql_update_frame)
  show "\<forall>t \<in> set (reset_tokens db'). pr_used_at t = None \<longrightarrow> pr_user t \<noteq> uid"
  proof
    fix t assume "t \<in> set (reset_tokens db')"
    then show "pr_used_at t = None \<longrightarrow> pr_user t \<noteq> uid"
      unfolding rows by (cases rule: sql_updateE) auto
  qed
qed

lemma tokens_move_ok: "tokens_move db db' \<Longrightarrow> tokens_ok (reset_tokens db) \<Longrightarrow> tokens_ok (reset_tokens db')"
proof (induction rule: tokens_move.induct)
  case (used now uid db db1 db')
  then show ?case using use_tokens_ok(1) by simp
next
  case (issued now uid db db1 i h ttl db2 db')
  note ok = use_tokens_ok [OF issued.hyps(1) issued.prems]
  show ?case
    using ok insert_token_Inr [OF issued.hyps(2)] issued.hyps(3) by (auto simp: tokens_ok_def)
qed simp

lemma invites_move_ok: "invites_move db db' \<Longrightarrow> invites_ok (invites db) \<Longrightarrow> invites_ok (invites db')"
proof (induction rule: invites_move.induct)
  case (issued db' db i)
  then show ?case by (auto simp: invites_ok_def invite_ok_def)
next
  case (withdrawn db' now k db)
  have "invite_ok i" if "i \<in> set (invites db')" for i
    using that withdrawn.prems unfolding withdrawn.hyps RevokeInvite_def
    by (auto simp: invites_ok_def invite_ok_def in_sql_update)
  with withdrawn show ?case by (simp add: invites_ok_def RevokeInvite_def map_sql_update_frame)
next
  case (accepted i db now db' uid)
  have "invite_ok x" if "x \<in> set (invites db')" for x
    using that unfolding accepted(3)
  proof (cases rule: sql_updateE)
    case (changed y)
    then have "y = i" using accepted by (auto simp: invites_ok_def intro: distinct_map_inj)
    with changed accepted(2) show ?thesis by (simp add: invite_ok_def openInvite_def)
  qed (use accepted.prems in \<open>simp add: invites_ok_def\<close>)
  with accepted show ?case by (simp add: invites_ok_def map_sql_update_frame)
qed simp

lemma step_inv: "account_step ceq db db' \<Longrightarrow> symp ceq \<Longrightarrow> account_inv ceq db \<Longrightarrow> account_inv ceq db'"
  using step_moves users_move_ok tokens_move_ok invites_move_ok unfolding account_inv_def by blast

lemma run_inv: "account_run ceq db db' \<Longrightarrow> symp ceq \<Longrightarrow> account_inv ceq db \<Longrightarrow> account_inv ceq db'"
  by (induction rule: account_run.induct) (auto intro: step_inv)

lemma run_admins: "account_run ceq db db' \<Longrightarrow> active_admins db \<noteq> [] \<Longrightarrow> active_admins db' \<noteq> []"
  by (induction rule: account_run.induct) (auto dest: step_moves users_move_admins)

section \<open>Links are spent for good\<close>

definition link_spent :: "bytes \<Rightarrow> db \<Rightarrow> bool" where
  "link_spent h db \<longleftrightarrow> (\<exists>t \<in> set (reset_tokens db). pr_token_hash t = h \<and> pr_used_at t \<noteq> None)"

definition invite_spent :: "bytes \<Rightarrow> db \<Rightarrow> bool" where
  "invite_spent h db \<longleftrightarrow> (\<exists>i \<in> set (invites db). iv_token_hash i = h \<and> (iv_accepted_at i \<noteq> None \<or> iv_revoked_at i \<noteq> None))"

lemma use_tokens_spent: "use_tokens now uid db = Inr (x, db') \<Longrightarrow> link_spent h db \<Longrightarrow> link_spent h db'"
  unfolding link_spent_def by (drule use_tokens_Inr) (auto intro!: sql_update_keeps)

lemma tokens_move_spent: "tokens_move db db' \<Longrightarrow> link_spent h db \<Longrightarrow> link_spent h db'"
proof (induction rule: tokens_move.induct)
  case (used now uid db db1 db')
  then show ?case using use_tokens_spent by (auto simp: link_spent_def)
next
  case (issued now uid db db1 i k ttl db2 db')
  then show ?case using use_tokens_spent [OF issued(1)] insert_token_Inr [OF issued(2)] by (auto simp: link_spent_def)
qed (simp add: link_spent_def)

lemma invites_move_spent: "invites_move db db' \<Longrightarrow> invite_spent h db \<Longrightarrow> invite_spent h db'"
  by (induction rule: invites_move.induct)
     (auto simp: invite_spent_def RevokeInvite_def intro!: sql_update_keeps)

lemma run_spent:
  "account_run ceq db db' \<Longrightarrow> link_spent h db \<Longrightarrow> link_spent h db'"
  "account_run ceq db db' \<Longrightarrow> invite_spent h db \<Longrightarrow> invite_spent h db'"
  by (induction rule: account_run.induct; blast dest: step_moves tokens_move_spent invites_move_spent)+

lemma link_spent_used:
  assumes "tokens_ok (reset_tokens db)" and "link_spent h db"
  shows "\<exists>out. ConsumePasswordReset now h p db = (Inr (None, out), db) \<and>
           (out = ResetOutcomeUsed \<or> out = ResetOutcomeUnknown)"
proof -
  obtain t where t: "t \<in> set (reset_tokens db)" "pr_token_hash t = h" "pr_used_at t \<noteq> None"
    using assms(2) by (auto simp: link_spent_def)
  then have "sql_row (\<lambda>t. pr_token_hash t = h) (reset_tokens db) = Some t"
    using assms(1) sql_row_unique [of pr_token_hash "reset_tokens db" t] by (simp add: tokens_ok_def)
  with t(3) show ?thesis
    by (auto simp: ConsumePasswordReset_def begin_func_def consume_reset_body_def lockAccount_def)
qed

lemma invite_spent_closed:
  assumes "invites_ok (invites db)" and "invite_spent h db"
  shows "OpenInviteByTokenHash now h db = Inl ErrNotFound \<and> RedeemInvite ceq now i h nu db = (Inl ErrNotFound, db)"
proof -
  obtain x where x: "x \<in> set (invites db)" "iv_token_hash x = h" "iv_accepted_at x \<noteq> None \<or> iv_revoked_at x \<noteq> None"
    using assms(2) by (auto simp: invite_spent_def)
  have "\<not> openInvite now y" if "y \<in> set (invites db)" "iv_token_hash y = h" for y
  proof -
    have "y = x" using that x assms(1) by (auto simp: invites_ok_def intro: distinct_map_inj)
    with x(3) show ?thesis by (auto simp: openInvite_def)
  qed
  then have "sql_row (\<lambda>i. iv_token_hash i = h \<and> openInvite now i) (invites db) = None"
    by (auto simp: sql_row_None_iff)
  then show ?thesis by (simp add: OpenInviteByTokenHash_def RedeemInvite_def redeem_body_def begin_func_def)
qed

section \<open>Concrete accounts\<close>

definition named :: "uuid \<Rightarrow> string \<Rightarrow> bool \<Rightarrow> bool \<Rightarrow> user_row" where
  "named i name adm act = \<lparr>u_id = i, u_username = name, u_email = Some (name @ ''@x''), u_password_hash = ''h'',
     u_is_admin = adm, u_is_active = act, u_display_name = name, u_locale = ''en'', u_must_change = False,
     u_created = 0\<rparr>"

definition team :: db where
  "team = (empty_db [] (org_of False 720))\<lparr>users := [named 1 ''sarah'' True True, named 2 ''omid'' False True]\<rparr>"

definition newcomer :: NewUser where
  "newcomer = \<lparr>nu_Username = ''parisa'', nu_Email = None, nu_DisplayName = ''Parisa'', nu_PasswordHash = ''h3'',
     nu_Locale = ''fa'', nu_IsAdmin = False, nu_MustChangePassword = False\<rparr>"

definition demote :: AdminUserUpdate where "demote = \<lparr>au_IsAdmin = Some False, au_IsActive = None\<rparr>"
definition deactivate :: AdminUserUpdate where "deactivate = \<lparr>au_IsAdmin = None, au_IsActive = Some False\<rparr>"
definition promote :: AdminUserUpdate where "promote = \<lparr>au_IsAdmin = Some True, au_IsActive = None\<rparr>"

definition team_link :: db where
  "team_link = snd (CreatePasswordResetToken 10 70 2 (replicate 32 CHR ''l'') 3600 team)"

definition team_invite :: db where
  "team_invite = snd (CreateInvite 10 80 1 (replicate 32 CHR ''i'') ''for parisa'' 3600 team)"

text \<open>After an UPDATE whose WHERE clause catches every row without \<open>Q\<close>, every row has it.\<close>

lemma sql_update_all:
  "(\<And>x. P x \<Longrightarrow> Q (f x)) \<Longrightarrow> (\<And>x. \<not> P x \<Longrightarrow> Q x) \<Longrightarrow> \<forall>r \<in> set (sql_update P f rows). Q r"
  by (auto simp: sql_update_def)

lemma team_inv: "account_inv (=) team" "active_admins team \<noteq> []"
  by (simp_all add: account_inv_def names_ok_def tokens_ok_def invites_ok_def team_def empty_db_def named_def active_admins_def)

lemma team_runs: "account_run (=) team team_link" "account_run (=) team team_invite"
  unfolding team_link_def team_invite_def by (blast intro: account_run.intros account_step.intros)+

lemma last_admin_refused:
  assumes admin: "\<exists>u \<in> set (users db). u_is_admin u \<and> u_is_active u"
    and only: "\<forall>u \<in> set (users db). user_checks u \<and> (u_is_admin u \<and> u_is_active u \<longrightarrow> u_id u = i)"
    and upd: "au_IsAdmin upd = Some False \<or> au_IsActive upd = Some False"
  shows "UpdateUserAdmin now i upd db = (Inl ErrLastAdmin, db)"
proof -
  let ?f = "\<lambda>u. u\<lparr>u_is_admin := coalesce (au_IsAdmin upd) (u_is_admin u), u_is_active := coalesce (au_IsActive upd) (u_is_active u)\<rparr>"
  obtain u where u: "u \<in> set (users db)" "u_id u = i" using admin only by blast
  then obtain r where r: "sql_row (\<lambda>u. u_id u = i) (users db) = Some r"
    by (cases "sql_row (\<lambda>u. u_id u = i) (users db)") (auto simp: sql_row_None_iff)
  have "user_checks (?f r)" using only sql_row_Some_iff [OF r] by (simp add: user_checks_def)
  moreover have "\<forall>v \<in> set (sql_update (\<lambda>u. u_id u = i) ?f (users db)). \<not> (u_is_admin v \<and> u_is_active v)"
  proof
    fix v assume "v \<in> set (sql_update (\<lambda>u. u_id u = i) ?f (users db))"
    then show "\<not> (u_is_admin v \<and> u_is_active v)" by (rule sql_updateE) (use only upd in \<open>auto simp: coalesce_def\<close>)
  qed
  ultimately show ?thesis using u r
    by (auto simp: UpdateUserAdmin_def begin_func_def update_admin_body_def lockAccount_def update_user_def active_admins_def filter_empty_conv)
qed

lemma update_admin_written:
  assumes "UpdateUserAdmin now i upd db = (Inr w, db')"
  shows "UserByID i db' = Inr w \<and> (\<forall>b. au_IsAdmin upd = Some b \<longrightarrow> u_is_admin w = b) \<and> (\<forall>b. au_IsActive upd = Some b \<longrightarrow> u_is_active w = b)"
proof -
  let ?f = "\<lambda>u. u\<lparr>u_is_admin := coalesce (au_IsAdmin upd) (u_is_admin u), u_is_active := coalesce (au_IsActive upd) (u_is_active u)\<rparr>"
  have body: "update_admin_body now i upd db = Inr (w, db')" using assms by (simp add: UpdateUserAdmin_def)
  obtain r where r: "sql_row (\<lambda>u. u_id u = i) (users db) = Some r" and w: "w = ?f r"
    using body by (auto simp: update_admin_body_def update_user_def split: sum.splits prod.splits option.splits if_splits)
  have "sql_row (\<lambda>u. u_id u = i) (users db') = Some w"
    unfolding update_admin_body_Inr(1) [OF body] using r w by (subst sql_row_sql_update) auto
  then show ?thesis by (auto simp: UserByID_def w coalesce_def)
qed

section \<open>Properties\<close>

text \<open>
  C6. The instance can always be administered: once there is an administrator who can sign in, every
  later state has one, whatever account transactions run and in whatever order. In each of those states an update of
  the one account that is an administrator and active, which would leave it not both, is refused as
  \<open>ErrLastAdmin\<close> and changes nothing; and an update that is answered with an account has written the
  role and the activity it was asked for.
\<close>

theorem admin_never_lost:
  assumes "account_run ceq db db'" and "\<exists>u \<in> set (users db). u_is_admin u \<and> u_is_active u"
  shows "(\<exists>u \<in> set (users db'). u_is_admin u \<and> u_is_active u) \<and>
    ((\<forall>u \<in> set (users db'). user_checks u \<and> (u_is_admin u \<and> u_is_active u \<longrightarrow> u_id u = i)) \<and>
       (au_IsAdmin upd = Some False \<or> au_IsActive upd = Some False) \<longrightarrow>
       UpdateUserAdmin now i upd db' = (Inl ErrLastAdmin, db')) \<and>
    (\<forall>w db2. UpdateUserAdmin now i upd db' = (Inr w, db2) \<longrightarrow> UserByID i db2 = Inr w \<and>
       (\<forall>b. au_IsAdmin upd = Some b \<longrightarrow> u_is_admin w = b) \<and> (\<forall>b. au_IsActive upd = Some b \<longrightarrow> u_is_active w = b))"
proof -
  have "\<exists>u \<in> set (users db'). u_is_admin u \<and> u_is_active u"
    using run_admins [OF assms(1)] assms(2) unfolding admins_iff by blast
  then show ?thesis using last_admin_refused update_admin_written by blast
qed

theorem admin_never_lost_witness:
  "UpdateUserAdmin 5 1 demote team = (Inl ErrLastAdmin, team) \<and>
   (\<exists>u \<in> set (users (snd (UpdateUserAdmin 6 1 deactivate (snd (UpdateUserAdmin 5 2 promote team))))).
      u_is_admin u \<and> u_is_active u)"
proof -
  have run: "account_run (=) team (snd (UpdateUserAdmin 6 1 deactivate (snd (UpdateUserAdmin 5 2 promote team))))"
    by (rule account_run.later [OF account_run.later [OF account_run.here account_step.admin] account_step.admin])
  have admin: "\<exists>u \<in> set (users team). u_is_admin u \<and> u_is_active u" using team_inv(2) unfolding admins_iff .
  have "\<forall>u \<in> set (users team). user_checks u \<and> (u_is_admin u \<and> u_is_active u \<longrightarrow> u_id u = 1)" by code_simp
  moreover have "au_IsAdmin demote = Some False" by (simp add: demote_def)
  ultimately show ?thesis
    using admin_never_lost [OF account_run.here admin, of 1 demote 5] admin_never_lost [OF run admin] by blast
qed

text \<open>
  C26. A password reset ends everything the old password opened. When a reset is applied, the link was
  live; the account has the new hash and owes no change, no other account changes; every session of
  the account is revoked, every pending two-step challenge of it consumed, and every reset link of it
  used. The link is then spent for good: in every later state it answers without an effect and never
  as applied.
\<close>

theorem reset_ends_everything:
  assumes "account_inv ceq db" and "symp ceq"
    and "ConsumePasswordReset now h p db = (Inr (Some uid, ResetOutcomeApplied), db1)"
    and "account_run ceq db1 db2"
  shows "(\<exists>t \<in> set (reset_tokens db). pr_token_hash t = h \<and> pr_user t = uid \<and> pr_used_at t = None \<and> now < pr_exp t) \<and>
    users db1 = map (\<lambda>u. if u_id u = uid then u\<lparr>u_password_hash := p, u_must_change := False\<rparr> else u) (users db) \<and>
    (\<forall>s \<in> set (sessions db1). s_user s = uid \<longrightarrow> s_revoked_at s \<noteq> None) \<and>
    (\<forall>c \<in> set (totp_challenges db1). tc_user c = uid \<longrightarrow> tc_consumed_at c \<noteq> None) \<and>
    (\<forall>t \<in> set (reset_tokens db1). pr_user t = uid \<longrightarrow> pr_used_at t \<noteq> None) \<and>
    (\<exists>out. ConsumePasswordReset later h q db2 = (Inr (None, out), db2) \<and> out \<noteq> ResetOutcomeApplied)"
proof -
  have body: "consume_reset_body now h p db = Inr ((Some uid, ResetOutcomeApplied), db1)"
    using assms(3) by (simp add: ConsumePasswordReset_def)
  then obtain t where t: "sql_row (\<lambda>t. pr_token_hash t = h) (reset_tokens db) = Some t" "pr_used_at t = None"
      "now < pr_exp t" "apply_reset now (pr_user t) p db = Inr ((Some uid, ResetOutcomeApplied), db1)"
    by (cases rule: consume_reset_cases) auto
  note a = apply_reset_Inr [OF t(4)] and tm = sql_row_Some_iff [OF t(1)]
  have uid: "pr_user t = uid" using a(1) by simp
  have "\<forall>s \<in> set (sessions db1). s_user s = uid \<longrightarrow> s_revoked_at s \<noteq> None"
    unfolding a(6) uid revoke_where_def by (simp, rule sql_update_all) auto
  moreover have "\<forall>c \<in> set (totp_challenges db1). tc_user c = uid \<longrightarrow> tc_consumed_at c \<noteq> None"
    unfolding a(7) uid consume_challenges_def by (simp, rule sql_update_all) auto
  moreover have used: "\<forall>t \<in> set (reset_tokens db1). pr_user t = uid \<longrightarrow> pr_used_at t \<noteq> None"
    unfolding a(3) uid by (rule sql_update_all) auto
  moreover have "link_spent h db1"
    unfolding link_spent_def a(3) using tm t(2) uid
    by (intro bexI [of _ "t\<lparr>pr_used_at := Some now\<rparr>"]) (auto intro!: sql_updateI)
  then have "link_spent h db2" using run_spent(1) [OF assms(4)] by blast
  moreover have "account_step ceq db db1" using account_step.reset [of ceq db now h p] assms(3) by simp
  then have "account_inv ceq db1" using assms(2,1) by (rule step_inv)
  then have "tokens_ok (reset_tokens db2)" using run_inv [OF assms(4,2)] by (simp add: account_inv_def)
  ultimately show ?thesis
    using a(2) tm t(2,3) uid link_spent_used [of db2 h later q] by (auto simp: sql_update_def)
qed

theorem reset_ends_everything_witness:
  "\<exists>db1. ConsumePasswordReset 20 (replicate 32 CHR ''l'') ''new'' team_link = (Inr (Some 2, ResetOutcomeApplied), db1) \<and>
     (\<exists>out. ConsumePasswordReset 21 (replicate 32 CHR ''l'') ''again'' db1 = (Inr (None, out), db1) \<and> out \<noteq> ResetOutcomeApplied)"
proof -
  have sym: "symp ((=) :: string \<Rightarrow> _)" by (simp add: symp_def)
  have inv: "account_inv (=) team_link" using run_inv [OF team_runs(1) sym team_inv(1)] .
  have "fst (ConsumePasswordReset 20 (replicate 32 CHR ''l'') ''new'' team_link) = Inr (Some 2, ResetOutcomeApplied)"
    by code_simp
  then obtain db1 where db1: "ConsumePasswordReset 20 (replicate 32 CHR ''l'') ''new'' team_link
      = (Inr (Some 2, ResetOutcomeApplied), db1)" by (metis prod.collapse)
  from reset_ends_everything [OF inv sym db1 account_run.here] db1 show ?thesis by blast
qed

text \<open>
  At most one reset link of an account is live: whatever account transactions have run since the
  table was empty, two links of one account that are both unused are the same link.
\<close>

theorem one_live_reset_link:
  assumes "account_run ceq db db'" and "reset_tokens db = []"
    and "s \<in> set (reset_tokens db')" and "t \<in> set (reset_tokens db')"
    and "pr_user s = pr_user t" and "pr_used_at s = None" and "pr_used_at t = None"
  shows "s = t"
proof -
  have "tokens_ok (reset_tokens db')"
    using assms(1,2)
    by (induction rule: account_run.induct) (auto simp: tokens_ok_def [of "[]"] dest: step_moves tokens_move_ok)
  then show ?thesis
    using assms(3-) by (auto simp: tokens_ok_def intro: distinct_map_inj [of pr_user "filter (\<lambda>t. pr_used_at t = None) (reset_tokens db')"])
qed

theorem one_live_reset_link_witness:
  "length (reset_tokens (snd (CreatePasswordResetToken 11 71 2 (replicate 32 CHR ''m'') 3600 team_link))) = 2 \<and>
   (\<forall>s \<in> set (reset_tokens (snd (CreatePasswordResetToken 11 71 2 (replicate 32 CHR ''m'') 3600 team_link))).
      pr_used_at s = None \<longrightarrow> pr_id s = 71)"
proof -
  define db where "db = snd (CreatePasswordResetToken 11 71 2 (replicate 32 CHR ''m'') 3600 team_link)"
  have run: "account_run (=) team db" unfolding db_def by (rule account_run.later [OF team_runs(1) account_step.link])
  have "length (reset_tokens db) = 2 \<and> list_all (\<lambda>t. pr_user t = 2) (reset_tokens db) \<and>
      pr_used_at (reset_tokens db ! 1) = None \<and> pr_id (reset_tokens db ! 1) = 71"
    unfolding db_def by code_simp
  then have len: "length (reset_tokens db) = 2" and all: "\<forall>t \<in> set (reset_tokens db). pr_user t = 2"
    and t: "reset_tokens db ! 1 \<in> set (reset_tokens db)" "pr_used_at (reset_tokens db ! 1) = None" "pr_id (reset_tokens db ! 1) = 71"
    by (auto simp: list_all_iff)
  have "reset_tokens team = []" by code_simp
  with one_live_reset_link [OF run] all t len show ?thesis unfolding db_def [symmetric] by metis
qed

text \<open>
  An invitation makes at most one account. A redemption that succeeds adds exactly the account it
  returns, which is the one asked for, and marks the invitation spent by it; from then on, in every
  later state, the link is answered as not found by the preview and by the redemption, which changes
  nothing. A redemption that fails changes nothing either, so a taken name does not burn the link.
\<close>

theorem invite_makes_one_account:
  assumes "account_inv ceq db" and "symp ceq"
    and "RedeemInvite ceq now newID h nu db = (Inr u, db1)" and "account_run ceq db1 db2"
  shows "u = new_user_row now newID nu \<and> users db1 = users db @ [u] \<and>
    (\<exists>i \<in> set (invites db1). iv_token_hash i = h \<and> iv_accepted_by i = Some (u_id u)) \<and>
    OpenInviteByTokenHash later h db2 = Inl ErrNotFound \<and>
    RedeemInvite ceq later otherID h other db2 = (Inl ErrNotFound, db2)"
proof -
  have body: "redeem_body ceq now newID h nu db = Inr (u, db1)" using assms(3) by (simp add: RedeemInvite_def)
  obtain i where i: "sql_row (\<lambda>i. iv_token_hash i = h \<and> openInvite now i) (invites db) = Some i"
      and u: "u = new_user_row now newID nu" and db1: "db1 = db\<lparr>users := users db @ [u], invites := sql_update (\<lambda>x. iv_id x = iv_id i)
       (\<lambda>x. x\<lparr>iv_accepted_at := Some now, iv_accepted_by := Some newID\<rparr>) (invites db)\<rparr>"
    using body by (rule redeem_body_Inr)
  note im = sql_row_Some_iff [OF i]
  let ?i = "i\<lparr>iv_accepted_at := Some now, iv_accepted_by := Some newID\<rparr>"
  have spent: "?i \<in> set (invites db1)" "iv_token_hash ?i = h"
    using im by (auto simp: db1 intro!: sql_updateI)
  then have "invite_spent h db1" unfolding invite_spent_def by (intro bexI [of _ ?i]) simp_all
  then have "invite_spent h db2" using run_spent(2) [OF assms(4)] by blast
  moreover have "account_step ceq db db1" using account_step.redeem [of ceq db now newID h nu] assms(3) by simp
  then have "account_inv ceq db1" using assms(2,1) by (rule step_inv)
  then have "invites_ok (invites db2)" using run_inv [OF assms(4,2)] by (simp add: account_inv_def)
  ultimately have "OpenInviteByTokenHash later h db2 = Inl ErrNotFound \<and>
      RedeemInvite ceq later otherID h other db2 = (Inl ErrNotFound, db2)" by (metis invite_spent_closed)
  moreover have "iv_accepted_by ?i = Some (u_id u)" by (simp add: u new_user_row_def)
  moreover have "users db1 = users db @ [u]" by (simp add: db1)
  ultimately show ?thesis using u spent by blast
qed

theorem invite_makes_one_account_witness:
  "\<exists>db1. RedeemInvite (=) 20 3 (replicate 32 CHR ''i'') newcomer team_invite = (Inr (new_user_row 20 3 newcomer), db1) \<and>
     RedeemInvite (=) 21 4 (replicate 32 CHR ''i'') newcomer db1 = (Inl ErrNotFound, db1)"
proof -
  have sym: "symp ((=) :: string \<Rightarrow> _)" by (simp add: symp_def)
  have inv: "account_inv (=) team_invite" using run_inv [OF team_runs(2) sym team_inv(1)] .
  have "fst (RedeemInvite (=) 20 3 (replicate 32 CHR ''i'') newcomer team_invite) = Inr (new_user_row 20 3 newcomer)"
    by code_simp
  then obtain db1 where db1: "RedeemInvite (=) 20 3 (replicate 32 CHR ''i'') newcomer team_invite
      = (Inr (new_user_row 20 3 newcomer), db1)" by (metis prod.collapse)
  from invite_makes_one_account [OF inv sym db1 account_run.here] db1 show ?thesis by blast
qed

text \<open>
  Why creating an account fails, and that it says which: the account is stored exactly when the
  row is well formed and no account has its identifier, its name or its address up to case; a taken
  name is reported as such before a taken address; and a failure changes nothing.
\<close>

theorem CreateUser_errors:
  "CreateUser ceq now newID nu db =
     (let r = new_user_row now newID nu in
      if \<not> user_checks r then (Inl CheckViolation, db)
      else if \<exists>u \<in> set (users db). u_id u = newID then (Inl (UniqueViolationOf ''users_pkey''), db)
      else if \<exists>u \<in> set (users db). ceq (u_username u) (nu_Username nu) then (Inl ErrUsernameTaken, db)
      else if \<exists>u \<in> set (users db). email_clash ceq (u_email u) (nu_Email nu) then (Inl ErrEmailTaken, db)
      else (Inr r, db\<lparr>users := users db @ [r]\<rparr>))"
  by (simp add: CreateUser_def begin_func_def create_user_body_def insert_user_def new_user_row_def Let_def sql_insert_def)

text \<open>
  The account list pages exactly: a client that walks \<open>ListUsers\<close> page by page from the start gets
  every account exactly once, ordered by creation time and then identifier, for every page size.
\<close>

theorem ListUsers_walk_complete:
  assumes "distinct (map u_id (users db))" and "0 < limit" and "length (users db) \<le> fuel"
  shows "let walk = keyset_walk (\<lambda>after n. ListUsers after n db) user_key (Suc fuel) None limit
         in distinct (map u_id walk) \<and> set walk = set (users db) \<and> sorted (map user_key walk)"
proof -
  have "distinct (map user_key (users db))"
    using assms(1) by (auto simp: distinct_map user_key_def inj_on_def)
  then have p: "keyset_pager (sql_order user_key (users db)) user_key (\<lambda>after n. ListUsers after n db)"
    by (rule keyset_pager_sql) (simp add: ListUsers_def)
  have "length (sql_order user_key (users db)) \<le> fuel" using assms(3) by (simp add: sql_order_def)
  from keyset_pager.walk_complete [OF p assms(2) this] show ?thesis
    using assms(1) by (auto simp: Let_def sql_order_def distinct_map)
qed

theorem ListUsers_walk_complete_witness:
  "map u_id (keyset_walk (\<lambda>after n. ListUsers after n team) user_key 3 None 1) = [1, 2]"
proof -
  have "distinct (map u_id (users team)) \<and> length (users team) \<le> 2" by code_simp
  then have "set (keyset_walk (\<lambda>after n. ListUsers after n team) user_key (Suc 2) None 1) = set (users team)"
    using ListUsers_walk_complete [of team 1 2] by (simp add: Let_def)
  moreover have "map u_id (keyset_walk (\<lambda>after n. ListUsers after n team) user_key (Suc 2) None 1) = [1, 2]" by code_simp
  ultimately show ?thesis by (simp add: eval_nat_numeral)
qed

text \<open>
  \<open>now()\<close> is the start of the transaction, not the moment it got the account lock. A request that
  started before the one it waited for finds a link created after its own clock, and the supersede
  violates the table's CHECK: the request fails instead of superseding, and the earlier link stays.
\<close>

theorem late_reset_request_fails:
  assumes "t \<in> set (reset_tokens db)" and "pr_user t = uid" and "pr_used_at t = None" and "now < pr_created t"
    and "\<exists>u \<in> set (users db). u_id u = uid"
  shows "CreatePasswordResetToken now newID uid h ttl db = (Inl CheckViolation, db)"
proof -
  have "sql_exists (\<lambda>t. (pr_user t = uid \<and> pr_used_at t = None) \<and> now < pr_created t) (reset_tokens db)"
    using assms(1-4) by auto
  moreover have "lockAccount uid db = Inr ((), db)" using assms(5) by (auto simp: lockAccount_def)
  ultimately show ?thesis
    by (simp add: CreatePasswordResetToken_def begin_func_def create_token_body_def use_tokens_def Let_def del: sql_exists_iff)
qed

theorem late_reset_request_fails_witness:
  "CreatePasswordResetToken 9 71 2 (replicate 32 CHR ''m'') 3600 team_link = (Inl CheckViolation, team_link)"
proof -
  have "length (reset_tokens team_link) = 1 \<and> pr_user (reset_tokens team_link ! 0) = 2 \<and>
      pr_used_at (reset_tokens team_link ! 0) = None \<and> 9 < pr_created (reset_tokens team_link ! 0) \<and>
      list_ex (\<lambda>u. u_id u = 2) (users team_link)" by code_simp
  then show ?thesis
    by (intro late_reset_request_fails [of "reset_tokens team_link ! 0"]) (auto simp: list_ex_iff)
qed

end
