(* ===== verification/Sign_In.thy ===== *)
theory Sign_In
  imports Account_Store Ratelimit Uservalidate
begin

text \<open>
  Signing in and staying signed in, \<^verbatim>\<open>server/internal/httpserver/auth_handlers.go\<close> and
  \<^verbatim>\<open>totp_handlers.go\<close>: the password half, the code half, refresh and logout, over the session store,
  the two-step store and the rate limiters.

  A handler is a function from the server's state to a reply and the next state; requests are
  handled one at a time. What the handlers take from elsewhere is in \<open>env\<close>: the SHA-256 of a token
  (\<open>session.HashToken\<close>), argon2id (\<open>password.Verify\<close>, \<open>password.Hash\<close>), PostgreSQL's \<open>citext\<close>
  comparison, \<open>strings.ToLower\<close>, \<open>uuid.String\<close>, and the HOTP library. Random tokens, drawn
  identifiers and clock readings are part of the request. Audit records are not modelled.
\<close>

section \<open>Server, request, reply\<close>

record env =
  HashToken :: "string \<Rightarrow> bytes"
  verify_password :: "string \<Rightarrow> string \<Rightarrow> (bool \<times> bool) option"
  hash_password :: "string \<Rightarrow> string"
  citext_eq :: "string \<Rightarrow> string \<Rightarrow> bool"
  lower_case :: "string \<Rightarrow> string"
  uuid_string :: "uuid \<Rightarrow> string"
  hotp_validate :: hotp_fun

record server =
  store :: db
  loginIPLimiter :: limiter
  loginIdentifierLimiter :: limiter
  totpIPLimiter :: limiter
  totpAccountLimiter :: limiter

record request =
  rq_ip :: string
  rq_wall :: instant
  rq_dbnow :: instant
  rq_new_id :: uuid
  rq_new_family :: uuid
  rq_challenge_id :: uuid
  rq_raw_token :: string
  rq_tokens :: session_tokens
  rq_unseen :: "uuid list"

datatype reply =
    RateLimited duration
  | InvalidRequest
  | InvalidCredentials
  | ChallengeIssued string
  | InvalidTotpCode
  | ChallengeFailed
  | RefreshFailed
  | Refreshed
  | LoggedOut
  | SignedIn user_row session
  | InternalError

definition loginRateLimit :: int where "loginRateLimit = 10"
definition loginRateWindow :: duration where "loginRateWindow = 300 * 10 ^ 9"
definition totpRateLimit :: int where "totpRateLimit = 10"
definition totpRateWindow :: duration where "totpRateWindow = 300 * 10 ^ 9"
definition maxIdentifierLen :: nat where "maxIdentifierLen = 320"
definition minLoginCodeLen :: nat where "minLoginCodeLen = 6"
definition maxLoginCodeLen :: nat where "maxLoginCodeLen = 16"

text \<open>Five minutes, in the store's microseconds.\<close>

definition ChallengeTTL :: duration where "ChallengeTTL = 300 * 10 ^ 6"

section \<open>The password half\<close>

definition UserByIdentifier :: "env \<Rightarrow> string \<Rightarrow> db \<Rightarrow> store_error + user_row" where
  "UserByIdentifier e identifier db =
     (case sql_row (\<lambda>u. citext_eq e (u_username u) identifier \<or>
                       (case u_email u of None \<Rightarrow> False | Some m \<Rightarrow> citext_eq e m identifier)) (users db) of
        None \<Rightarrow> Inl ErrNotFound | Some u \<Rightarrow> Inr u)"

definition rehashPassword :: "env \<Rightarrow> uuid \<Rightarrow> string \<Rightarrow> server \<Rightarrow> server" where
  "rehashPassword e uid plaintext st =
     st\<lparr>store := snd (UpdatePasswordHash uid (hash_password e plaintext) (store st))\<rparr>"

definition consumeLoginBudget :: "instant \<Rightarrow> string \<Rightarrow> string \<Rightarrow> server \<Rightarrow> server" where
  "consumeLoginBudget wall ipKey identifierKey st =
     st\<lparr>loginIPLimiter := Record wall ipKey (loginIPLimiter st),
        loginIdentifierLimiter := Record wall identifierKey (loginIdentifierLimiter st)\<rparr>"

text \<open>\<open>Inr None\<close>: the account is password-only. \<open>Inr (Some raw)\<close>: a challenge was stored.\<close>

definition startTotpChallenge ::
  "env \<Rightarrow> request \<Rightarrow> uuid \<Rightarrow> db \<Rightarrow> (store_error + string option) \<times> db" where
  "startTotpChallenge e rq uid db =
     (case TotpByUser uid db of
        Inl err \<Rightarrow> if err = ErrNotFound then (Inr None, db) else (Inl err, db)
      | Inr record \<Rightarrow>
          if \<not> Enabled record then (Inr None, db)
          else (case CreateTotpChallenge (rq_dbnow rq) (rq_challenge_id rq) uid
                       (HashToken e (rq_raw_token rq)) ChallengeTTL db of
                  (Inl err, db1) \<Rightarrow> (Inl err, db1)
                | (Inr _, db1) \<Rightarrow> (Inr (Some (rq_raw_token rq)), db1)))"

text \<open>The reply, when it answered the request.\<close>

definition challengeIfTwoStep ::
  "env \<Rightarrow> request \<Rightarrow> uuid \<Rightarrow> string \<Rightarrow> string \<Rightarrow> server \<Rightarrow> reply option \<times> server" where
  "challengeIfTwoStep e rq uid ipKey identifierKey st =
     (case startTotpChallenge e rq uid (store st) of
        (Inl err, db1) \<Rightarrow> (Some InternalError, st\<lparr>store := db1\<rparr>)
      | (Inr None, db1) \<Rightarrow> (None, st\<lparr>store := db1\<rparr>)
      | (Inr (Some raw), db1) \<Rightarrow>
          (Some (ChallengeIssued raw),
           consumeLoginBudget (rq_wall rq) ipKey identifierKey (st\<lparr>store := db1\<rparr>)))"

text \<open>The end of the password half, once the password is right and the account active.\<close>

definition finish_login :: "env \<Rightarrow> request \<Rightarrow> string \<Rightarrow> user_row \<Rightarrow> server \<Rightarrow> reply \<times> server" where
  "finish_login e rq identifierKey user st =
     (case challengeIfTwoStep e rq (u_id user) (rq_ip rq) identifierKey st of
        (Some r, st1) \<Rightarrow> (r, st1)
      | (None, st1) \<Rightarrow>
          (case CreateSession (rq_dbnow rq) (rq_new_id rq) (rq_new_family rq) (u_id user) (rq_tokens rq) (store st1) of
             (Inl err, db1) \<Rightarrow> (InternalError, st1\<lparr>store := db1\<rparr>)
           | (Inr sess, db1) \<Rightarrow> (SignedIn user sess, st1\<lparr>store := db1\<rparr>)))"

definition authenticate :: "env \<Rightarrow> request \<Rightarrow> string \<Rightarrow> string \<Rightarrow> string \<Rightarrow> server \<Rightarrow> reply \<times> server" where
  "authenticate e rq identifier password identifierKey st =
     (let refused = (InvalidCredentials, consumeLoginBudget (rq_wall rq) (rq_ip rq) identifierKey st)
      in case UserByIdentifier e identifier (store st) of
           Inl err \<Rightarrow> if err = ErrNotFound then refused else (InternalError, st)
         | Inr user \<Rightarrow>
             if u_password_hash user = [] then refused
             else (case verify_password e password (u_password_hash user) of
                     None \<Rightarrow> refused
                   | Some (ok, needsRehash) \<Rightarrow>
                       if \<not> ok then refused
                       else if \<not> u_is_active user then refused
                       else finish_login e rq identifierKey user
                              (if needsRehash then rehashPassword e (u_id user) password st else st)))"

text \<open>The body is \<^const>\<open>None\<close> when \<open>decodeJSON\<close> answered the request.\<close>

definition Login :: "env \<Rightarrow> request \<Rightarrow> (string \<times> string) option \<Rightarrow> server \<Rightarrow> reply \<times> server" where
  "Login e rq body st =
     (let (ipLimited, l1) = Limited (rq_wall rq) (rq_ip rq) (loginIPLimiter st)
      in if ipLimited then
           (let (wait, l2) = RetryAfter (rq_wall rq) (rq_ip rq) l1
            in (RateLimited wait, st\<lparr>loginIPLimiter := l2\<rparr>))
         else
           (let st1 = st\<lparr>loginIPLimiter := l1\<rparr>
            in case body of
                 None \<Rightarrow> (InvalidRequest, st1)
               | Some (identifier, password) \<Rightarrow>
                   if identifier = [] \<or> maxIdentifierLen < length (go_runes identifier) then (InvalidRequest, st1)
                   else if password = [] \<or> MaxPasswordLen < length (go_runes password) then (InvalidRequest, st1)
                   else
                     (let identifierKey = lower_case e identifier;
                          (idLimited, k1) = Limited (rq_wall rq) identifierKey (loginIdentifierLimiter st1)
                      in if idLimited then
                           (let (wait, k2) = RetryAfter (rq_wall rq) identifierKey k1
                            in (RateLimited wait, st1\<lparr>loginIdentifierLimiter := k2\<rparr>))
                         else authenticate e rq identifier password identifierKey
                                (st1\<lparr>loginIdentifierLimiter := k1\<rparr>))))"

section \<open>The code half\<close>

definition recordTotpFailure :: "instant \<Rightarrow> string \<Rightarrow> string \<Rightarrow> server \<Rightarrow> server" where
  "recordTotpFailure wall ipKey accountKey st =
     (let st1 = st\<lparr>totpIPLimiter := Record wall ipKey (totpIPLimiter st)\<rparr>
      in if accountKey \<noteq> [] then st1\<lparr>totpAccountLimiter := Record wall accountKey (totpAccountLimiter st1)\<rparr>
         else st1)"

text \<open>
  Which shape the typed code has: six digits go to \<^const>\<open>Verify\<close> at the wall clock, a normalizable
  recovery code to \<open>password.Verify\<close> on each stored hash, anything else to neither.
\<close>

definition login_attempt :: "env \<Rightarrow> request \<Rightarrow> bytes \<Rightarrow> string \<Rightarrow> TotpChallengeAttempt" where
  "login_attempt e rq tokenHash code =
     \<lparr>a_TokenHash = tokenHash, a_MaxAttempts = MaxChallengeAttempts,
      a_CheckCode = (if IsAuthenticatorCode code
                     then Some (verify_callback (hotp_validate e) code (rq_wall rq)) else None),
      a_MatchRecoveryCode =
        (if IsAuthenticatorCode code then None
         else case NormalizeRecoveryCode code of
                None \<Rightarrow> None
              | Some normalized \<Rightarrow>
                  Some (\<lambda>storedHash. case verify_password e normalized storedHash of
                                       Some (matched, _) \<Rightarrow> matched | None \<Rightarrow> False)),
      a_Session = rq_tokens rq\<rparr>"

text \<open>
  The call of the store and the classification of its outcome. The store names a user and a session
  with every completed outcome, so the inner \<^const>\<open>None\<close> is never taken; the outcome type is closed
  here, which leaves no \<open>default\<close> branch.
\<close>

definition evaluate_code ::
  "env \<Rightarrow> request \<Rightarrow> bytes \<Rightarrow> string \<Rightarrow> string \<Rightarrow> server \<Rightarrow> reply \<times> server" where
  "evaluate_code e rq tokenHash code accountKey st =
     (case CompleteTotpChallenge (rq_dbnow rq) (rq_new_id rq) (rq_new_family rq)
             (login_attempt e rq tokenHash code) (store st) of
        (Inl err, db1) \<Rightarrow> (InternalError, st\<lparr>store := db1\<rparr>)
      | (Inr (found, outcome), db1) \<Rightarrow>
          (let st1 = st\<lparr>store := db1\<rparr>
           in case outcome of
                TotpChallengeCompleted \<Rightarrow>
                  (case found of
                     Some (user, sess) \<Rightarrow> (SignedIn user sess, st1)
                   | None \<Rightarrow> (InternalError, st1))
              | TotpChallengeRejected \<Rightarrow>
                  (InvalidTotpCode, recordTotpFailure (rq_wall rq) (rq_ip rq) accountKey st1)
              | TotpChallengeRevoked \<Rightarrow>
                  (ChallengeFailed, recordTotpFailure (rq_wall rq) (rq_ip rq) accountKey st1)
              | TotpChallengeNone \<Rightarrow>
                  (ChallengeFailed,
                   st1\<lparr>totpIPLimiter := Record (rq_wall rq) (rq_ip rq) (totpIPLimiter st1)\<rparr>)))"

text \<open>
  From the cookie's token on. The account the token names is asked for first, so that its window is
  consulted before the code is evaluated; a token that names none leaves the account key empty.
\<close>

definition check_account ::
  "env \<Rightarrow> request \<Rightarrow> bytes \<Rightarrow> string \<Rightarrow> server \<Rightarrow> reply \<times> server" where
  "check_account e rq tokenHash code st =
     (case TotpChallengeUserByTokenHash tokenHash (store st) of
        Inl err \<Rightarrow> if err = ErrNotFound then evaluate_code e rq tokenHash code [] st else (InternalError, st)
      | Inr uid \<Rightarrow>
          (let accountKey = uuid_string e uid;
               (limited, l1) = Limited (rq_wall rq) accountKey (totpAccountLimiter st)
           in if limited then
                (let (wait, l2) = RetryAfter (rq_wall rq) accountKey l1
                 in (RateLimited wait, st\<lparr>totpAccountLimiter := l2\<rparr>))
              else evaluate_code e rq tokenHash code accountKey (st\<lparr>totpAccountLimiter := l1\<rparr>)))"

definition CompleteTotpLogin ::
  "env \<Rightarrow> request \<Rightarrow> string option \<Rightarrow> string option \<Rightarrow> server \<Rightarrow> reply \<times> server" where
  "CompleteTotpLogin e rq cookie body st =
     (let (ipLimited, l1) = Limited (rq_wall rq) (rq_ip rq) (totpIPLimiter st)
      in if ipLimited then
           (let (wait, l2) = RetryAfter (rq_wall rq) (rq_ip rq) l1
            in (RateLimited wait, st\<lparr>totpIPLimiter := l2\<rparr>))
         else
           (let st1 = st\<lparr>totpIPLimiter := l1\<rparr>
            in if cookie = None \<or> cookie = Some [] then (ChallengeFailed, st1)
               else case body of
                      None \<Rightarrow> (InvalidRequest, st1)
                    | Some code \<Rightarrow>
                        if length (go_runes code) < minLoginCodeLen \<or> maxLoginCodeLen < length (go_runes code)
                        then (InvalidRequest, st1)
                        else check_account e rq (HashToken e (the cookie)) code st1))"

section \<open>Refresh and logout\<close>

definition RefreshSession :: "env \<Rightarrow> request \<Rightarrow> string option \<Rightarrow> server \<Rightarrow> reply \<times> server" where
  "RefreshSession e rq cookie st =
     (if cookie = None \<or> cookie = Some [] then (RefreshFailed, st)
      else case RotateSession (rq_unseen rq) (rq_dbnow rq) (rq_new_id rq) (HashToken e (the cookie)) (rq_tokens rq) (store st) of
             (Inl err, db1) \<Rightarrow> (InternalError, st\<lparr>store := db1\<rparr>)
           | (Inr (_, outcome), db1) \<Rightarrow>
               (if outcome \<noteq> RotateOutcomeRotated then RefreshFailed else Refreshed, st\<lparr>store := db1\<rparr>))"

definition Logout :: "request \<Rightarrow> session \<Rightarrow> server \<Rightarrow> reply \<times> server" where
  "Logout rq prin st = (LoggedOut, st\<lparr>store := RevokeFamily (rq_unseen rq) (rq_dbnow rq) (FamilyID prin) (store st)\<rparr>)"

section \<open>What the password half does to the store\<close>

lemma TotpByUser_activated:
  assumes "totp_inv db"
  shows "totp_activated uid db \<longleftrightarrow> (\<exists>t. TotpByUser uid db = Inr t \<and> Enabled t)"
proof -
  have d: "distinct (map ut_user (user_totp db))"
    using assms by (simp add: totp_inv_def setups_ok_def)
  have "sql_row (\<lambda>x. ut_user x = uid) (user_totp db) = Some t"
    if "t \<in> set (user_totp db)" "ut_user t = uid" for t
    using sql_row_unique [OF d that(1)] that(2) by simp
  then show ?thesis
    by (force simp: totp_activated_def TotpByUser_def Enabled_def dest: sql_row_Some_iff split: option.splits)
qed

lemma startTotpChallenge_None:
  "startTotpChallenge e rq uid db = (Inr None, db') \<Longrightarrow> totp_inv db \<Longrightarrow> db' = db \<and> \<not> totp_activated uid db"
  by (auto simp: startTotpChallenge_def TotpByUser_activated split: sum.splits if_splits prod.splits)

lemma create_challenge_sessions: "sessions (snd (CreateTotpChallenge now i uid h ttl db)) = sessions db"
  by (auto simp: CreateTotpChallenge_def begin_func_def create_challenge_body_def Let_def
      simp del: sql_exists_iff split: sum.splits if_splits)

lemma startTotpChallenge_sessions: "sessions (snd (startTotpChallenge e rq uid db)) = sessions db"
  using create_challenge_sessions [of "rq_dbnow rq" "rq_challenge_id rq" uid "HashToken e (rq_raw_token rq)" ChallengeTTL db]
  by (auto simp: startTotpChallenge_def split: sum.splits prod.splits)

lemma CreateSession_result:
  "CreateSession now i f uid t db = (Inl err, db') \<Longrightarrow> db' = db"
  "CreateSession now i f uid t db = (Inr sess, db') \<Longrightarrow>
     UserID sess = uid \<and> FamilyID sess = f \<and> length (sessions db') = Suc (length (sessions db))"
  by (auto simp: CreateSession_def dest: insertSessionFamily_Inr)

lemma rehash_frame [simp]:
  "sessions (store (rehashPassword e uid p st)) = sessions (store st)"
  "user_totp (store (rehashPassword e uid p st)) = user_totp (store st)"
  "user_recovery_codes (store (rehashPassword e uid p st)) = user_recovery_codes (store st)"
  "totp_challenges (store (rehashPassword e uid p st)) = totp_challenges (store st)"
  by (simp_all add: rehashPassword_def UpdatePasswordHash_def)

lemma rehash_inv [simp]:
  "totp_inv (store (rehashPassword e uid p st)) = totp_inv (store st)"
  "totp_activated u (store (rehashPassword e uid p st)) = totp_activated u (store st)"
  by (simp_all add: totp_inv_def totp_activated_def)

lemma consumeLoginBudget_store [simp]: "store (consumeLoginBudget wall ip k st) = store st"
  by (simp add: consumeLoginBudget_def)

text \<open>
  The two ways the password half ends: a session for an account without a second factor, or no
  session at all.
\<close>

lemma finish_login_cases:
  assumes "finish_login e rq k user st = (r, st')" and "totp_inv (store st)"
  obtains (session) sess where "r = SignedIn user sess" "UserID sess = u_id user" "FamilyID sess = rq_new_family rq"
      "\<not> totp_activated (u_id user) (store st)" "length (sessions (store st')) = Suc (length (sessions (store st)))"
  | (refused) "\<And>u sess. r \<noteq> SignedIn u sess" "sessions (store st') = sessions (store st)"
proof -
  obtain ch db1 where ch: "startTotpChallenge e rq (u_id user) (store st) = (ch, db1)"
    by (cases "startTotpChallenge e rq (u_id user) (store st)")
  with startTotpChallenge_sessions [of e rq "u_id user" "store st"] have same: "sessions db1 = sessions (store st)"
    by simp
  show thesis
  proof (cases "ch = Inr None")
    case True
    note none = startTotpChallenge_None [OF ch [unfolded True] assms(2)]
    show thesis
      using assms(1) ch True none session refused
      by (auto simp: finish_login_def challengeIfTwoStep_def dest: CreateSession_result split: sum.splits prod.splits)
  next
    case False
    with assms(1) ch same refused show thesis
      by (auto simp: finish_login_def challengeIfTwoStep_def split: sum.splits option.splits)
  qed
qed

lemma authenticate_cases:
  assumes "authenticate e rq idf pw k st = (r, st')" and "totp_inv (store st)"
  obtains (session) u sess rehash where "r = SignedIn u sess" "UserByIdentifier e idf (store st) = Inr u"
      "u_password_hash u \<noteq> []" "verify_password e pw (u_password_hash u) = Some (True, rehash)" "u_is_active u"
      "UserID sess = u_id u" "FamilyID sess = rq_new_family rq" "\<not> totp_activated (u_id u) (store st)"
      "length (sessions (store st')) = Suc (length (sessions (store st)))"
  | (refused) "\<And>u sess. r \<noteq> SignedIn u sess" "sessions (store st') = sessions (store st)"
proof (cases "\<exists>u rehash. UserByIdentifier e idf (store st) = Inr u \<and> u_password_hash u \<noteq> [] \<and>
    verify_password e pw (u_password_hash u) = Some (True, rehash) \<and> u_is_active u")
  case True
  then obtain u rehash where u: "UserByIdentifier e idf (store st) = Inr u" "u_password_hash u \<noteq> []"
      "verify_password e pw (u_password_hash u) = Some (True, rehash)" "u_is_active u"
    by blast
  let ?st = "if rehash then rehashPassword e (u_id u) pw st else st"
  have fin: "finish_login e rq k u ?st = (r, st')"
    using assms(1) u by (simp add: authenticate_def)
  have "totp_inv (store ?st)" using assms(2) by simp
  from fin this show thesis
    by (cases rule: finish_login_cases) (use session [OF _ u] refused in \<open>auto split: if_splits\<close>)
next
  case False
  with assms(1) refused show thesis
    by (auto simp: authenticate_def Let_def split: sum.splits if_splits option.splits prod.splits)
qed

lemma Login_cases:
  assumes "Login e rq body st = (r, st')"
  obtains (early) "\<And>u sess. r \<noteq> SignedIn u sess" "store st' = store st"
  | (judged) idf pw st1 where "body = Some (idf, pw)" "store st1 = store st"
      "authenticate e rq idf pw (lower_case e idf) st1 = (r, st')"
      "\<not> fst (Limited (rq_wall rq) (rq_ip rq) (loginIPLimiter st))"
      "\<not> fst (Limited (rq_wall rq) (lower_case e idf) (loginIdentifierLimiter st))"
proof -
  obtain l1 l2 where lim: "Limited (rq_wall rq) (rq_ip rq) (loginIPLimiter st) = (l1, l2)" by fastforce
  show thesis
  proof (cases "l1 \<or> body = None")
    case True
    with assms lim early show thesis
      by (auto simp: Login_def Let_def split: prod.splits if_splits)
  next
    case False
    then obtain idf pw where b: "body = Some (idf, pw)" by auto
    obtain k1 k2 where k: "Limited (rq_wall rq) (lower_case e idf) (loginIdentifierLimiter st) = (k1, k2)"
      by fastforce
    let ?st1 = "st\<lparr>loginIPLimiter := l2, loginIdentifierLimiter := k2\<rparr>"
    show thesis
    proof (cases "authenticate e rq idf pw (lower_case e idf) ?st1 = (r, st') \<and> \<not> k1")
      case True
      with judged [OF b, of ?st1] k lim False show thesis by simp
    next
      case refused: False
      with assms lim b k False early show thesis
        by (auto simp: Login_def Let_def split: prod.splits if_splits)
    qed
  qed
qed

section \<open>Guesses at the second factor\<close>

text \<open>
  A guess is observed in the store: a request is a wrong guess at an account when it raises the
  attempt counter of the account's challenge. \<open>wrong_guesses\<close> logs them under the account's limiter
  key, at the wall clock.
\<close>

definition burned :: "db \<Rightarrow> db \<Rightarrow> challenge_row \<Rightarrow> bool" where
  "burned db db' c = sql_exists (\<lambda>x. tc_id x = tc_id c \<and> tc_attempts c < tc_attempts x) (totp_challenges db')"

definition wrong_guesses :: "env \<Rightarrow> instant \<Rightarrow> db \<Rightarrow> db \<Rightarrow> event_log" where
  "wrong_guesses e wall db db' =
     map (\<lambda>c. (uuid_string e (tc_user c), wall)) (filter (burned db db') (totp_challenges db))"

text \<open>
  A server's life as the account limiter sees it: it boots with a fresh store and the limiter of
  \<open>newAPIServer\<close>; sign-in codes arrive one at a time on a wall clock that does not run backwards,
  from any address, under any challenge; in between, the stores do whatever their operations
  allow. The log collects the wrong guesses.
\<close>

inductive guess_run :: "env \<Rightarrow> event_log \<Rightarrow> instant \<Rightarrow> server \<Rightarrow> bool" for e where
  boot: "fresh (store st) \<Longrightarrow> New totpRateLimit totpRateWindow t0 = Some (totpAccountLimiter st) \<Longrightarrow>
    guess_run e [] t0 st"
| code: "guess_run e h t st \<Longrightarrow> t \<le> rq_wall rq \<Longrightarrow> CompleteTotpLogin e rq cookie body st = (r, st') \<Longrightarrow>
    guess_run e (h @ wrong_guesses e (rq_wall rq) (store st) (store st')) (rq_wall rq) st'"
| other: "guess_run e h t st \<Longrightarrow> totp_trace (store st) es (store st') \<Longrightarrow>
    totpAccountLimiter st' = totpAccountLimiter st \<Longrightarrow> guess_run e h t st'"

lemma wrong_guesses_none:
  assumes "\<And>x. x \<in> set (totp_challenges db') \<Longrightarrow>
      \<exists>c \<in> set (totp_challenges db). tc_id c = tc_id x \<and> tc_attempts x = tc_attempts c"
    and "distinct (map tc_id (totp_challenges db))"
  shows "wrong_guesses e wall db db' = []"
proof -
  have "\<not> burned db db' c" if c: "c \<in> set (totp_challenges db)" for c
    using assms(1) distinct_map_inj [OF assms(2) c] by (fastforce simp: burned_def)
  then show ?thesis by (simp add: wrong_guesses_def filter_empty_conv)
qed

lemma wrong_guesses_same: "distinct (map tc_id (totp_challenges db)) \<Longrightarrow> totp_challenges db' = totp_challenges db \<Longrightarrow>
    wrong_guesses e wall db db' = []"
  by (rule wrong_guesses_none) auto

lemma filter_unique_key:
  "distinct (map k xs) \<Longrightarrow> c \<in> set xs \<Longrightarrow> (\<And>x. x \<in> set xs \<Longrightarrow> P x \<longleftrightarrow> k x = k c) \<Longrightarrow> filter P xs = [c]"
proof (induction xs)
  case (Cons x xs)
  show ?case
  proof (cases "x = c")
    case True
    then have "filter P xs = []"
      using Cons.prems by (auto simp: filter_empty_conv rev_image_eqI)
    with True Cons.prems show ?thesis by simp
  next
    case False
    then have c: "c \<in> set xs" and "k x \<noteq> k c" using Cons.prems(1,2) by (auto simp: image_iff)
    with Cons.prems Cons.IH [OF _ c] show ?thesis by simp
  qed
qed simp

lemma wrong_guesses_bump:
  assumes "totp_challenges db' = sql_update (\<lambda>x. tc_id x = tc_id c) f (totp_challenges db)"
    and "\<And>x. tc_id (f x) = tc_id x \<and> tc_attempts (f x) = tc_attempts x + 1"
    and d: "distinct (map tc_id (totp_challenges db))" and c: "c \<in> set (totp_challenges db)"
  shows "wrong_guesses e wall db db' = [(uuid_string e (tc_user c), wall)]"
proof -
  have "burned db db' x \<longleftrightarrow> tc_id x = tc_id c" if x: "x \<in> set (totp_challenges db)" for x
  proof
    assume "burned db db' x"
    then obtain y where y: "y \<in> set (sql_update (\<lambda>x. tc_id x = tc_id c) f (totp_challenges db))"
        "tc_id y = tc_id x" "tc_attempts x < tc_attempts y"
      by (auto simp: burned_def assms(1))
    from y(1) show "tc_id x = tc_id c"
    proof (cases rule: sql_updateE)
      case (changed z)
      with y(2) assms(2) show ?thesis by simp
    next
      case kept
      with distinct_map_inj [OF d x kept(1)] y show ?thesis by simp
    qed
  next
    assume "tc_id x = tc_id c"
    then have "f x \<in> set (totp_challenges db')" using x by (simp add: assms(1) sql_updateI)
    then show "burned db db' x" using assms(2) by (force simp: burned_def)
  qed
  then have "filter (burned db db') (totp_challenges db) = [c]"
    by (rule filter_unique_key [OF d c])
  then show ?thesis by (simp add: wrong_guesses_def)
qed

lemma complete_guesses:
  assumes body: "complete_body now i f att db = Inr ((so, out), db')" and inv: "totp_inv db"
  shows "out \<in> {TotpChallengeNone, TotpChallengeCompleted} \<and> wrong_guesses e wall db db' = [] \<or>
    out \<in> {TotpChallengeRejected, TotpChallengeRevoked} \<and>
      (\<exists>c \<in> set (totp_challenges db). tc_token_hash c = a_TokenHash att \<and>
         wrong_guesses e wall db db' = [(uuid_string e (tc_user c), wall)])"
proof -
  have C: "challenges_ok (totp_challenges db)" using inv by (simp add: totp_inv_def)
  then have d: "distinct (map tc_id (totp_challenges db))" by (simp add: challenges_ok_def)
  have consumed: "wrong_guesses e wall db db2 = []"
    if "totp_challenges db2 = sql_update P (\<lambda>c. c\<lparr>tc_consumed_at := Some now\<rparr>) (totp_challenges db)" for db2 P
    by (rule wrong_guesses_none [OF _ d]) (use that in \<open>auto elim!: sql_updateE\<close>)
  from body d show ?thesis
  proof (cases rule: complete_cases)
    case none
    then show ?thesis using wrong_guesses_same [OF d] by simp
  next
    case (off c)
    then show ?thesis using consumed [of db'] by (simp add: consumeChallenge_def)
  next
    case (wrong c)
    then show ?thesis using wrong_guesses_bump [OF _ _ d wrong(3), of db'] by auto
  next
    case (revoked c)
    have "wrong_guesses e wall db db' = [(uuid_string e (tc_user c), wall)]"
      using revoke_challenge_rows [OF C revoked(3)] revoked(4)
      by (intro wrong_guesses_bump [OF _ _ d revoked(3)]) (auto simp: revoked(5))
    with revoked show ?thesis by auto
  next
    case (completed c t db1 u sess)
    have "setups_ok (user_totp db) (user_recovery_codes db)" using inv by (simp add: totp_inv_def)
    then have "totp_challenges db1 = totp_challenges db"
      using accept_ok [OF completed(8)] by simp
    with insertSessionFamily_Inr [OF completed(9)] completed(2) consumed [of db'] show ?thesis
      by (simp add: consumeChallenge_def)
  qed
qed

text \<open>The limiter key the handler works under: the account's, or none when the token names none.\<close>

definition account_key :: "env \<Rightarrow> bytes \<Rightarrow> db \<Rightarrow> string" where
  "account_key e tokenHash db =
     (case TotpChallengeUserByTokenHash tokenHash db of Inl _ \<Rightarrow> [] | Inr uid \<Rightarrow> uuid_string e uid)"

lemma account_key_row:
  assumes "totp_inv db" and "c \<in> set (totp_challenges db)"
  shows "account_key e (tc_token_hash c) db = uuid_string e (tc_user c)"
proof -
  have "distinct (map tc_token_hash (totp_challenges db))"
    using assms(1) by (simp add: totp_inv_def challenges_ok_def)
  from sql_row_unique [OF this assms(2)] show ?thesis
    by (simp add: account_key_def TotpChallengeUserByTokenHash_def)
qed

text \<open>A wrong guess is recorded against its account, and nothing else is.\<close>

lemma evaluate_code_account:
  assumes ev: "evaluate_code e rq h code k st = (r, st')" and k: "k = account_key e h (store st)"
    and inv: "totp_inv (store st)" and keys: "\<And>u. uuid_string e u \<noteq> []"
  obtains (quiet) "totp_inv (store st')" "wrong_guesses e (rq_wall rq) (store st) (store st') = []"
      "totpAccountLimiter st' = totpAccountLimiter st"
  | (guess) "totp_inv (store st')" "wrong_guesses e (rq_wall rq) (store st) (store st') = [(k, rq_wall rq)]"
      "k \<noteq> []" "totpAccountLimiter st' = Record (rq_wall rq) k (totpAccountLimiter st)"
proof -
  let ?att = "login_attempt e rq h code"
  have att: "a_MaxAttempts ?att = MaxChallengeAttempts" "a_TokenHash ?att = h"
    by (simp_all add: login_attempt_def)
  have d: "distinct (map tc_id (totp_challenges (store st)))"
    using inv by (simp add: totp_inv_def challenges_ok_def)
  obtain res db1 where res: "CompleteTotpChallenge (rq_dbnow rq) (rq_new_id rq) (rq_new_family rq) ?att (store st) = (res, db1)"
    by fastforce
  have st': "st' = snd (evaluate_code e rq h code k st)" using ev by simp
  show thesis
  proof (cases res)
    case (Inl err)
    with res have "db1 = store st" by (simp add: CompleteTotpChallenge_def)
    then have "store st' = store st" "totpAccountLimiter st' = totpAccountLimiter st"
      unfolding st' by (simp_all add: evaluate_code_def res Inl)
    with inv wrong_guesses_same [OF d] quiet show thesis by simp
  next
    case (Inr p)
    obtain so out where p: "p = (so, out)" by (cases p)
    have body: "complete_body (rq_dbnow rq) (rq_new_id rq) (rq_new_family rq) ?att (store st) = Inr ((so, out), db1)"
      using res Inr p by (simp add: CompleteTotpChallenge_def)
    have ok: "totp_inv db1" using complete_ok [OF body inv att(1)] .
    have db1: "store st' = db1" unfolding st'
      by (cases out) (auto simp: evaluate_code_def res Inr p Let_def recordTotpFailure_def split: option.splits)
    have lim: "totpAccountLimiter st' = (if out \<in> {TotpChallengeRejected, TotpChallengeRevoked} \<and> k \<noteq> []
        then Record (rq_wall rq) k (totpAccountLimiter st) else totpAccountLimiter st)" unfolding st'
      by (cases out) (auto simp: evaluate_code_def res Inr p Let_def recordTotpFailure_def split: option.splits)
    from complete_guesses [OF body inv, of e "rq_wall rq"] show thesis
    proof (elim disjE conjE bexE)
      fix c assume "c \<in> set (totp_challenges (store st))" "tc_token_hash c = a_TokenHash ?att"
        and g: "wrong_guesses e (rq_wall rq) (store st) db1 = [(uuid_string e (tc_user c), rq_wall rq)]"
        and out: "out \<in> {TotpChallengeRejected, TotpChallengeRevoked}"
      then have "k = uuid_string e (tc_user c)"
        using account_key_row [OF inv, of c e] by (simp add: k att(2))
      with keys g out show thesis by (intro guess) (simp_all add: db1 lim ok)
    next
      assume "out \<in> {TotpChallengeNone, TotpChallengeCompleted}" "wrong_guesses e (rq_wall rq) (store st) db1 = []"
      then show thesis by (intro quiet) (auto simp: db1 lim ok)
    qed
  qed
qed

text \<open>
  What one request does to the account limiter: it asks it about at most one key, and the only thing
  it records is the wrong guess, on a key it was told is free. \<open>account_ok\<close> is what the store and the
  account limiter keep, \<open>h\<close> the log so far and \<open>db\<close> the store the request started from.
\<close>

definition account_ok :: "env \<Rightarrow> instant \<Rightarrow> event_log \<Rightarrow> db \<Rightarrow> server \<Rightarrow> bool" where
  "account_ok e wall h db st \<longleftrightarrow>
     (let h' = h @ wrong_guesses e wall db (store st)
      in totp_inv (store st) \<and> refines totpRateLimit totpRateWindow h' wall (totpAccountLimiter st) \<and>
         within_budget totpRateLimit totpRateWindow h')"

abbreviation account_refines :: "event_log \<Rightarrow> instant \<Rightarrow> server \<Rightarrow> bool" where
  "account_refines h t st \<equiv> refines totpRateLimit totpRateWindow h t (totpAccountLimiter st)"

abbreviation account_limited :: "event_log \<Rightarrow> instant \<Rightarrow> string \<Rightarrow> bool" where
  "account_limited h t k \<equiv> spec_limited totpRateLimit totpRateWindow h t k"

lemma account_ok_idle:
  assumes "store st = db" and "totp_inv db" and "account_refines h wall st"
    and "within_budget totpRateLimit totpRateWindow h"
  shows "account_ok e wall h db st"
proof -
  have "distinct (map tc_id (totp_challenges db))" using assms(2) by (simp add: totp_inv_def challenges_ok_def)
  from wrong_guesses_same [OF this] show ?thesis using assms by (simp add: account_ok_def)
qed

lemma evaluate_code_ok:
  assumes ev: "evaluate_code e rq hh code k st = (r, st')" and k: "k = account_key e hh (store st)"
    and inv: "totp_inv (store st)" and keys: "\<And>u. uuid_string e u \<noteq> []"
    and l: "account_refines h (rq_wall rq) st" and b: "within_budget totpRateLimit totpRateWindow h"
    and free: "k = [] \<or> \<not> account_limited h (rq_wall rq) k"
  shows "account_ok e (rq_wall rq) h (store st) st'"
  using ev k inv keys
proof (cases rule: evaluate_code_account)
  case quiet
  with l b show ?thesis by (simp add: account_ok_def)
next
  case guess
  with free have "within_budget totpRateLimit totpRateWindow (h @ [(k, rq_wall rq)])"
    by (intro within_budget_admit b) blast
  with guess Record_refines [OF l order_refl] show ?thesis by (simp add: account_ok_def)
qed

lemma check_account_ok:
  assumes ch: "check_account e rq hh code st = (r, st')"
    and inv: "totp_inv (store st)" and keys: "\<And>u. uuid_string e u \<noteq> []"
    and l: "account_refines h (rq_wall rq) st" and b: "within_budget totpRateLimit totpRateWindow h"
  shows "account_ok e (rq_wall rq) h (store st) st'"
proof (cases "TotpChallengeUserByTokenHash hh (store st)")
  case (Inl err)
  then have "account_key e hh (store st) = []" by (simp add: account_key_def)
  moreover have "err = ErrNotFound"
    using Inl by (auto simp: TotpChallengeUserByTokenHash_def split: option.splits)
  ultimately show ?thesis
    using evaluate_code_ok [of e rq hh code "[]" st r st', OF _ _ inv keys l b] ch Inl
    by (simp add: check_account_def)
next
  case (Inr uid)
  let ?k = "uuid_string e uid" and ?w = "rq_wall rq"
  have key: "?k = account_key e hh (store st)" using Inr by (simp add: account_key_def)
  obtain limited l1 where lim: "Limited ?w ?k (totpAccountLimiter st) = (limited, l1)" by fastforce
  note L = Limited_correct [OF l order_refl, of ?k, unfolded lim fst_conv snd_conv]
  show ?thesis
  proof (cases limited)
    case True
    have "st' = st\<lparr>totpAccountLimiter := snd (RetryAfter ?w ?k l1)\<rparr>"
      using ch True lim Inr by (auto simp: check_account_def Let_def split: prod.splits)
    then show ?thesis
      using inv b RetryAfter_refines [OF L(2) order_refl] by (intro account_ok_idle) simp_all
  next
    case False
    then have "evaluate_code e rq hh code ?k (st\<lparr>totpAccountLimiter := l1\<rparr>) = (r, st')"
      using ch lim Inr by (simp add: check_account_def Let_def)
    from evaluate_code_ok [OF this _ _ keys _ b] show ?thesis using key inv L False by simp
  qed
qed

lemma CompleteTotpLogin_ok:
  assumes run: "CompleteTotpLogin e rq cookie body st = (r, st')"
    and inv: "totp_inv (store st)" and keys: "\<And>u. uuid_string e u \<noteq> []"
    and l: "account_refines h t st" "t \<le> rq_wall rq" and b: "within_budget totpRateLimit totpRateWindow h"
  shows "account_ok e (rq_wall rq) h (store st) st'"
proof -
  have kept: "account_refines h (rq_wall rq) st"
    using l by (rule refines_prune) auto
  obtain limited l1 where lim: "Limited (rq_wall rq) (rq_ip rq) (totpIPLimiter st) = (limited, l1)" by fastforce
  show ?thesis
  proof (cases "limited \<or> cookie = None \<or> cookie = Some [] \<or> body = None \<or>
      (\<exists>code. body = Some code \<and> (length (go_runes code) < minLoginCodeLen \<or> maxLoginCodeLen < length (go_runes code)))")
    case True
    have "st' = snd (CompleteTotpLogin e rq cookie body st)" using run by simp
    then have "store st' = store st \<and> totpAccountLimiter st' = totpAccountLimiter st"
      using True lim by (auto simp: CompleteTotpLogin_def Let_def split: prod.splits)
    with inv kept b show ?thesis by (intro account_ok_idle) simp_all
  next
    case False
    then obtain code where "body = Some code" by auto
    then have "check_account e rq (HashToken e (the cookie)) code (st\<lparr>totpIPLimiter := l1\<rparr>) = (r, st')"
      using False run lim by (auto simp: CompleteTotpLogin_def)
    from check_account_ok [OF this _ keys _ b] show ?thesis using inv kept by simp
  qed
qed

lemma guess_run_ok:
  assumes "guess_run e h t st" and keys: "\<And>u. uuid_string e u \<noteq> []"
  shows "totp_inv (store st) \<and> account_refines h t st \<and> within_budget totpRateLimit totpRateWindow h"
  using assms(1)
proof (induction rule: guess_run.induct)
  case (boot st t0)
  then show ?case
    by (auto simp: fresh_inv New_refines totpRateLimit_def intro: within_budget_empty)
next
  case (code h t st rq cookie body r st')
  then have "account_ok e (rq_wall rq) h (store st) st'"
    by (intro CompleteTotpLogin_ok [OF code(3) _ keys]) auto
  then show ?case by (simp add: account_ok_def Let_def)
next
  case (other h t st es st')
  then show ?case by (auto intro: totp_inv_trace)
qed

section \<open>Properties\<close>

text \<open>
  The concrete server of the witnesses: the demonstration accounts with a password, empty limiters, a
  password check that compares, and an authenticator that refuses every code.
\<close>

definition demo_env :: env where
  "demo_env = \<lparr>HashToken = (\<lambda>_. demo_token), verify_password = (\<lambda>p h. Some (p = h, False)),
     hash_password = (\<lambda>p. p), citext_eq = (\<lambda>a b. a = b), lower_case = (\<lambda>s. s),
     uuid_string = (\<lambda>u. ''id''), hotp_validate = (\<lambda>_ _ _. Some False)\<rparr>"

definition demo_limiter :: limiter where
  "demo_limiter = \<lparr>limit = 10, window = 300 * 10 ^ 9, events = (\<lambda>_. None), lastSweep = 0\<rparr>"

definition demo_server :: "db \<Rightarrow> server" where
  "demo_server db = \<lparr>store = db, loginIPLimiter = demo_limiter, loginIdentifierLimiter = demo_limiter,
     totpIPLimiter = demo_limiter, totpAccountLimiter = demo_limiter\<rparr>"

definition demo_request :: request where
  "demo_request = \<lparr>rq_ip = ''ip'', rq_wall = 4, rq_dbnow = 4, rq_new_id = 10, rq_new_family = 20,
     rq_challenge_id = 60, rq_raw_token = ''raw'', rq_tokens = demo_tokens CHR ''a'' CHR ''r'', rq_unseen = []\<rparr>"

definition with_password :: "db \<Rightarrow> db" where
  "with_password db = db\<lparr>users := map (\<lambda>u. u\<lparr>u_password_hash := ''pw''\<rparr>) (users db)\<rparr>"

lemma demo_store [simp]: "store (demo_server db) = db" "totpAccountLimiter (demo_server db) = demo_limiter"
  by (simp_all add: demo_server_def)

text \<open>
  C1. The password alone never signs a two-step account in. From any state the stores can reach,
  \<open>Login\<close> mints a session only if the identifier resolves to an active account that has a password,
  the password verifies against its hash, neither rate limit holds the request back, and the account
  has no activated second factor; the session is that account's, in a new family. With every other
  reply, the challenge included, the sessions are exactly what they were.
\<close>

theorem Login_needs_second_factor:
  assumes "fresh db0" and "totp_trace db0 es (store st)" and "Login e rq body st = (r, st')"
  shows "case r of
      SignedIn u sess \<Rightarrow>
        (\<exists>identifier pw rehash. body = Some (identifier, pw) \<and>
           UserByIdentifier e identifier (store st) = Inr u \<and> u_password_hash u \<noteq> [] \<and>
           verify_password e pw (u_password_hash u) = Some (True, rehash) \<and>
           \<not> fst (Limited (rq_wall rq) (lower_case e identifier) (loginIdentifierLimiter st))) \<and>
        \<not> fst (Limited (rq_wall rq) (rq_ip rq) (loginIPLimiter st)) \<and>
        u_is_active u \<and> \<not> totp_activated (u_id u) (store st) \<and>
        UserID sess = u_id u \<and> FamilyID sess = rq_new_family rq \<and>
        length (sessions (store st')) = Suc (length (sessions (store st)))
    | _ \<Rightarrow> sessions (store st') = sessions (store st)"
  using assms(3)
proof (cases rule: Login_cases)
  case early
  then show ?thesis by (auto split: reply.splits)
next
  case (judged idf pw st1)
  have "totp_inv (store st1)" using fresh_trace_inv [OF assms(1,2)] judged(2) by simp
  with judged(3) show ?thesis
  proof (cases rule: authenticate_cases)
    case (session u sess rehash)
    with judged show ?thesis by auto
  next
    case refused
    with judged(2) show ?thesis by (auto split: reply.splits)
  qed
qed

theorem Login_needs_second_factor_witness:
  "(\<exists>u sess st'. Login demo_env demo_request (Some (''u'', ''pw'')) (demo_server (with_password demo0)) = (SignedIn u sess, st') \<and>
      u_is_active u \<and> \<not> totp_activated (u_id u) demo0 \<and> UserID sess = u_id u) \<and>
   (\<exists>st'. Login demo_env demo_request (Some (''u'', ''pw'')) (demo_server (with_password setup3)) = (ChallengeIssued ''raw'', st') \<and>
      sessions (store st') = sessions setup3)"
proof -
  let ?login = "\<lambda>db. Login demo_env demo_request (Some (''u'', ''pw'')) (demo_server (with_password db))"
  have "case fst (?login demo0) of SignedIn u sess \<Rightarrow> True | _ \<Rightarrow> False" by code_simp
  then obtain u sess st1 where l1: "?login demo0 = (SignedIn u sess, st1)"
    by (cases "?login demo0") (auto split: reply.splits)
  have f: "fresh (with_password demo0)" using demo_fresh by (simp add: fresh_def with_password_def)
  have "\<not> totp_activated (u_id u) demo0" for u :: user_row
    by (simp add: totp_activated_def demo0_def empty_db_def)
  moreover have "u_is_active u \<and> UserID sess = u_id u"
    using Login_needs_second_factor [OF f _ l1, of "[]"] by (simp add: totp_trace.start)
  moreover have "fst (?login setup3) = ChallengeIssued ''raw''" by code_simp
  then obtain st2 where l2: "?login setup3 = (ChallengeIssued ''raw'', st2)" by (cases "?login setup3") simp
  have "session_step 3 setup3 (with_password setup3)"
    by (rule session_step.account [of _ 0 UNIV]) (simp add: with_password_def revoke_where_def setup3_def sql_update_def)
  then have "totp_step 3 [] setup3 (with_password setup3)"
    by (rule totp_step.other [where P = "\<lambda>_. False"]) (simp_all add: with_password_def sql_update_def)
  note totp_trace.step [OF totp_trace.start demo_setup_steps(1)]
  note totp_trace.step [OF this demo_setup_steps(2)]
  note totp_trace.step [OF this demo_setup_steps(3)]
  note totp_trace.step [OF this \<open>totp_step 3 [] setup3 (with_password setup3)\<close>]
  then have "\<exists>es. totp_trace demo0 es (store (demo_server (with_password setup3)))" by auto
  with Login_needs_second_factor [OF demo_fresh _ l2] have "sessions (store st2) = sessions setup3"
    by (auto simp: with_password_def)
  ultimately show ?thesis using l1 l2 by blast
qed

text \<open>
  C27. Guessing the second factor is bounded per account. However many addresses and challenges an
  attacker rotates through, and whatever else the server does in between, at most \<open>totpRateLimit\<close>
  (ten) wrong codes are evaluated against one account in any \<open>totpRateWindow\<close> (five minutes, closed
  at both ends), for requests handled one at a time on a clock that does not run backwards. That
  \<open>uuid.String\<close> never returns the empty string is the hypothesis on the UUID library.
\<close>

theorem wrong_codes_bounded:
  assumes "guess_run e h t st" and "\<And>u. uuid_string e u \<noteq> []"
  shows "int (length (filter (\<lambda>x. s \<le> x \<and> x \<le> s + totpRateWindow) (times_of (uuid_string e uid) h))) \<le> totpRateLimit"
  using guess_run_ok [OF assms] by (simp add: within_budget_def)

theorem wrong_codes_bounded_witness:
  "\<exists>h t st. guess_run demo_env h t st \<and> h = [(''id'', 4)] \<and>
     int (length (filter (\<lambda>x. 0 \<le> x \<and> x \<le> 0 + totpRateWindow) (times_of (uuid_string demo_env 1) h))) \<le> totpRateLimit"
proof -
  have "guess_run demo_env [] 0 (demo_server demo0)"
    by (rule guess_run.boot) (simp_all add: demo_fresh New_def totpRateLimit_def totpRateWindow_def demo_limiter_def)
  then have g: "guess_run demo_env [] 0 (demo_server signin1)"
    by (rule guess_run.other) (use demo_setup_trace in simp_all)
  obtain r st' where l: "CompleteTotpLogin demo_env demo_request (Some ''c'') (Some ''123456'') (demo_server signin1) = (r, st')"
    by fastforce
  have "wrong_guesses demo_env 4 signin1
      (store (snd (CompleteTotpLogin demo_env demo_request (Some ''c'') (Some ''123456'') (demo_server signin1)))) = [(''id'', 4)]"
    by code_simp
  moreover have "rq_wall demo_request = 4" by (simp add: demo_request_def)
  ultimately have run: "guess_run demo_env [(''id'', 4)] 4 st'"
    using guess_run.code [OF g _ l] l by simp
  have "uuid_string demo_env u \<noteq> []" for u by (simp add: demo_env_def)
  from wrong_codes_bounded [OF run this] run show ?thesis by blast
qed

end
