(* ===== verification/Channel_Store.thy ===== *)
theory Channel_Store
  imports Schema "HOL-Library.Product_Lexorder"
begin

text \<open>
  Conversations, \<^verbatim>\<open>server/internal/storage/channels.go\<close>: named channels, direct messages, membership, and
  a channel as one caller sees it (unread and mention counts, the other half of a direct message).
  Each operation is one transaction; the lock \<open>RemoveChannelMember\<close> takes orders removals and has no
  effect on the state.

  PostgreSQL's \<open>citext\<close> comparison is the parameter \<open>ceq\<close>, its ordering the parameter \<open>collate\<close> (a key
  into a linear order). The identifier \<open>gen_random_uuid()\<close> draws and the clock are arguments.
\<close>

section \<open>Rows and what a query returns\<close>

definition ChannelKindPublic :: string where "ChannelKindPublic = ''public''"
definition ChannelKindPrivate :: string where "ChannelKindPrivate = ''private''"
definition ChannelKindDM :: string where "ChannelKindDM = ''dm''"

lemma kinds [simp]:
  "ChannelKindPublic \<noteq> ChannelKindDM" "ChannelKindPrivate \<noteq> ChannelKindDM"
  "ChannelKindDM \<noteq> ChannelKindPublic" "ChannelKindDM \<noteq> ChannelKindPrivate"
  by (simp_all add: ChannelKindPublic_def ChannelKindPrivate_def ChannelKindDM_def)

record DMPeer =
  dp_ID :: uuid
  dp_Username :: string
  dp_DisplayName :: string

record Channel =
  ch_ID :: uuid
  ch_Kind :: string
  ch_Slug :: "string option"
  ch_Topic :: string
  ch_E2EE :: bool
  ch_DMUserA :: "uuid option"
  ch_DMUserB :: "uuid option"
  ch_CreatedBy :: "uuid option"
  ch_MemberCount :: nat
  ch_UnreadCount :: nat
  ch_MentionCount :: nat
  ch_LastReadMessageID :: "uuid option"
  ch_DMPeer :: "DMPeer option"
  ch_LastMessageAt :: "instant option"
  ch_CreatedAt :: instant

record NewChannel =
  nc_Kind :: string
  nc_Slug :: string
  nc_Topic :: string
  nc_E2EE :: bool
  nc_CreatedBy :: uuid

definition members_of :: "uuid \<Rightarrow> db \<Rightarrow> member_row list" where
  "members_of ch db = filter (\<lambda>m. cm_channel m = ch) (channel_members db)"

text \<open>\<open>SELECT max(msg.created_at) \<dots>\<close>: NULL on an empty channel, and a deleted message counts.\<close>

fun latest :: "instant list \<Rightarrow> instant option" where
  "latest [] = None"
| "latest (t # ts) = (case latest ts of None \<Rightarrow> Some t | Some u \<Rightarrow> Some (max t u))"

definition last_message_at :: "uuid \<Rightarrow> db \<Rightarrow> instant option" where
  "last_message_at ch db = latest (map m_created (filter (\<lambda>m. m_channel m = ch) (messages db)))"

text \<open>\<open>unscopedChannelColumns\<close>: no caller, so the caller's columns are zero and null.\<close>

definition unscopedChannel :: "db \<Rightarrow> chan_row \<Rightarrow> Channel" where
  "unscopedChannel db c =
     \<lparr>ch_ID = c_id c, ch_Kind = c_kind c, ch_Slug = c_slug c, ch_Topic = c_topic c, ch_E2EE = c_e2ee c,
      ch_DMUserA = c_dm_a c, ch_DMUserB = c_dm_b c, ch_CreatedBy = c_created_by c,
      ch_MemberCount = length (members_of (c_id c) db), ch_UnreadCount = 0, ch_MentionCount = 0,
      ch_LastReadMessageID = None, ch_DMPeer = None, ch_LastMessageAt = last_message_at (c_id c) db,
      ch_CreatedAt = c_created c\<rparr>"

text \<open>\<open>callerJoins\<close>: the read position, the messages past it that count, and the peer.\<close>

definition read_position :: "uuid \<Rightarrow> uuid \<Rightarrow> db \<Rightarrow> read_row option" where
  "read_position ch uid db = sql_row (\<lambda>r. rp_channel r = ch \<and> rp_user r = uid) (read_positions db)"

definition unread_messages :: "uuid \<Rightarrow> uuid \<Rightarrow> db \<Rightarrow> message_row list" where
  "unread_messages ch uid db = filter (\<lambda>m. m_channel m = ch \<and>
     (case read_position ch uid db of None \<Rightarrow> True | Some r \<Rightarrow> (rp_at r, rp_message r) < (m_created m, m_id m)) \<and>
     m_deleted m = None \<and> m_author m \<noteq> uid) (messages db)"

definition mentions_user :: "uuid \<Rightarrow> db \<Rightarrow> message_row \<Rightarrow> bool" where
  "mentions_user uid db m = sql_exists (\<lambda>n. mn_message n = m_id m \<and> mn_user n = uid) (message_mentions db)"

definition peer_id :: "uuid \<Rightarrow> chan_row \<Rightarrow> uuid option" where
  "peer_id uid c = (if c_dm_a c = Some uid then c_dm_b c else if c_dm_b c = Some uid then c_dm_a c else None)"

definition dm_peer :: "uuid \<Rightarrow> db \<Rightarrow> chan_row \<Rightarrow> DMPeer option" where
  "dm_peer uid db c =
     (case peer_id uid c of
        None \<Rightarrow> None
      | Some p \<Rightarrow> map_option (\<lambda>u. \<lparr>dp_ID = u_id u, dp_Username = u_username u, dp_DisplayName = u_display_name u\<rparr>)
                   (sql_row (\<lambda>u. u_id u = p) (users db)))"

definition scopedChannel :: "uuid \<Rightarrow> db \<Rightarrow> chan_row \<Rightarrow> Channel" where
  "scopedChannel uid db c = (unscopedChannel db c)
     \<lparr>ch_UnreadCount := length (unread_messages (c_id c) uid db),
      ch_MentionCount := length (filter (mentions_user uid db) (unread_messages (c_id c) uid db)),
      ch_LastReadMessageID := map_option rp_message (read_position (c_id c) uid db),
      ch_DMPeer := dm_peer uid db c\<rparr>"

definition ChannelByID :: "uuid \<Rightarrow> db \<Rightarrow> store_error + Channel" where
  "ChannelByID i db =
     (case sql_row (\<lambda>c. c_id c = i) (channels db) of
        None \<Rightarrow> Inl ErrChannelNotFound | Some c \<Rightarrow> Inr (unscopedChannel db c))"

definition ChannelForUser :: "uuid \<Rightarrow> uuid \<Rightarrow> db \<Rightarrow> store_error + Channel" where
  "ChannelForUser i uid db =
     (case sql_row (\<lambda>c. c_id c = i) (channels db) of
        None \<Rightarrow> Inl ErrChannelNotFound | Some c \<Rightarrow> Inr (scopedChannel uid db c))"

definition channelKind :: "uuid \<Rightarrow> db \<Rightarrow> store_error + string" where
  "channelKind i db =
     (case sql_row (\<lambda>c. c_id c = i) (channels db) of
        None \<Rightarrow> Inl ErrChannelNotFound | Some c \<Rightarrow> Inr (c_kind c))"

definition IsChannelMember :: "uuid \<Rightarrow> uuid \<Rightarrow> db \<Rightarrow> bool" where
  "IsChannelMember ch uid db = sql_exists (\<lambda>m. cm_channel m = ch \<and> cm_user m = uid) (channel_members db)"

section \<open>Inserting\<close>

text \<open>
  The CHECKs of a channel row (migration 0003). \<open>slug ~ '^[a-z0-9][a-z0-9_-]*$'\<close> is an operator of
  \<open>citext\<close>, which matches without regard to case.
\<close>

definition slug_head :: "char \<Rightarrow> bool" where
  "slug_head c \<longleftrightarrow> (let n = (of_char c :: nat) in 97 \<le> n \<and> n \<le> 122 \<or> 65 \<le> n \<and> n \<le> 90 \<or> 48 \<le> n \<and> n \<le> 57)"

definition slug_ok :: "string \<Rightarrow> bool" where
  "slug_ok s \<longleftrightarrow> 2 \<le> char_length s \<and> char_length s \<le> 64 \<and>
     (case s of [] \<Rightarrow> False | c # cs \<Rightarrow>
        slug_head c \<and> list_all (\<lambda>c. slug_head c \<or> c = CHR ''_'' \<or> c = CHR ''-'') cs)"

definition channel_checks :: "chan_row \<Rightarrow> bool" where
  "channel_checks c \<longleftrightarrow>
     (c_kind c = ChannelKindPublic \<or> c_kind c = ChannelKindPrivate \<or> c_kind c = ChannelKindDM) \<and>
     (case c_slug c of None \<Rightarrow> True | Some s \<Rightarrow> slug_ok s) \<and> char_length (c_topic c) \<le> 250 \<and>
     (if c_kind c = ChannelKindDM then c_slug c = None \<and> c_topic c = [] else c_slug c \<noteq> None) \<and>
     (c_kind c = ChannelKindDM \<longleftrightarrow> c_dm_a c \<noteq> None \<and> c_dm_b c \<noteq> None) \<and>
     (case c_dm_a c of None \<Rightarrow> True | Some a \<Rightarrow> (case c_dm_b c of None \<Rightarrow> True | Some b \<Rightarrow> a < b))"

definition user_ref :: "uuid option \<Rightarrow> db \<Rightarrow> bool" where
  "user_ref r db = (case r of None \<Rightarrow> True | Some uid \<Rightarrow> sql_exists (\<lambda>u. u_id u = uid) (users db))"

definition same_slug :: "(string \<Rightarrow> string \<Rightarrow> bool) \<Rightarrow> chan_row \<Rightarrow> chan_row \<Rightarrow> bool" where
  "same_slug ceq a b = (c_kind a \<noteq> ChannelKindDM \<and> c_kind b \<noteq> ChannelKindDM \<and>
     (case c_slug a of None \<Rightarrow> False | Some x \<Rightarrow> (case c_slug b of None \<Rightarrow> False | Some y \<Rightarrow> ceq x y)))"

definition same_pair :: "chan_row \<Rightarrow> chan_row \<Rightarrow> bool" where
  "same_pair a b \<longleftrightarrow> c_kind a = ChannelKindDM \<and> c_kind b = ChannelKindDM \<and> c_dm_a a = c_dm_a b \<and> c_dm_b a = c_dm_b b"

definition insert_channel :: "(string \<Rightarrow> string \<Rightarrow> bool) \<Rightarrow> chan_row \<Rightarrow> (db, uuid) tx" where
  "insert_channel ceq c db =
     (if \<not> channel_checks c then Inl CheckViolation
      else if sql_exists (\<lambda>x. c_id x = c_id c) (channels db) then Inl (UniqueViolationOf ''channels_pkey'')
      else if sql_exists (same_slug ceq c) (channels db) then Inl (UniqueViolationOf ''channels_slug_key'')
      else if sql_exists (same_pair c) (channels db) then Inl (UniqueViolationOf ''channels_dm_pair_key'')
      else if \<not> user_ref (c_dm_a c) db then Inl (ForeignKeyViolationOf ''channels_dm_user_a_fkey'')
      else if \<not> user_ref (c_dm_b c) db then Inl (ForeignKeyViolationOf ''channels_dm_user_b_fkey'')
      else if \<not> user_ref (c_created_by c) db then Inl (ForeignKeyViolationOf ''channels_created_by_fkey'')
      else Inr (c_id c, db\<lparr>channels := sql_insert c (channels db)\<rparr>))"

fun mapChannelConflict :: "store_error \<Rightarrow> store_error" where
  "mapChannelConflict (UniqueViolationOf c) =
     (if c = ''channels_slug_key'' then ErrChannelSlugTaken else UniqueViolationOf c)"
| "mapChannelConflict (ForeignKeyViolationOf c) = ErrNotFound"
| "mapChannelConflict ForeignKeyViolation = ErrNotFound"
| "mapChannelConflict e = e"

text \<open>The INSERT into \<open>channel_members\<close>, without and with \<open>ON CONFLICT DO NOTHING\<close>.\<close>

definition insert_member :: "bool \<Rightarrow> uuid \<Rightarrow> uuid \<Rightarrow> uuid \<Rightarrow> (db, unit) tx" where
  "insert_member do_nothing ch uid addedBy db =
     (if IsChannelMember ch uid db
      then if do_nothing then Inr ((), db) else Inl (UniqueViolationOf ''channel_members_pkey'')
      else if \<not> sql_exists (\<lambda>c. c_id c = ch) (channels db) then Inl (ForeignKeyViolationOf ''channel_members_channel_id_fkey'')
      else if \<not> user_ref (Some uid) db then Inl (ForeignKeyViolationOf ''channel_members_user_id_fkey'')
      else if \<not> user_ref (Some addedBy) db then Inl (ForeignKeyViolationOf ''channel_members_added_by_fkey'')
      else Inr ((), db\<lparr>channel_members := sql_insert \<lparr>cm_channel = ch, cm_user = uid\<rparr> (channel_members db)\<rparr>))"

fun mapMembershipConflict :: "store_error \<Rightarrow> store_error" where
  "mapMembershipConflict (ForeignKeyViolationOf c) =
     (if c = ''channel_members_channel_id_fkey'' then ErrChannelNotFound else ErrNotFound)"
| "mapMembershipConflict e = e"

section \<open>Creating and opening\<close>

definition new_channel_row :: "instant \<Rightarrow> uuid \<Rightarrow> NewChannel \<Rightarrow> chan_row" where
  "new_channel_row now newID nc =
     \<lparr>c_id = newID, c_kind = nc_Kind nc, c_slug = Some (nc_Slug nc), c_topic = nc_Topic nc, c_dm_a = None,
      c_dm_b = None, c_created_by = Some (nc_CreatedBy nc), c_e2ee = nc_E2EE nc, c_created = now\<rparr>"

definition create_channel_body ::
  "(string \<Rightarrow> string \<Rightarrow> bool) \<Rightarrow> instant \<Rightarrow> uuid \<Rightarrow> NewChannel \<Rightarrow> (db, Channel) tx" where
  "create_channel_body ceq now newID nc db =
     (case insert_channel ceq (new_channel_row now newID nc) db of
        Inl e \<Rightarrow> Inl (mapChannelConflict e)
      | Inr (i, db1) \<Rightarrow>
          (case insert_member False i (nc_CreatedBy nc) (nc_CreatedBy nc) db1 of
             Inl e \<Rightarrow> Inl (mapMembershipConflict e)
           | Inr (_, db2) \<Rightarrow>
               (case ChannelForUser i (nc_CreatedBy nc) db2 of Inl e \<Rightarrow> Inl e | Inr ch \<Rightarrow> Inr (ch, db2))))"

definition CreateChannel ::
  "(string \<Rightarrow> string \<Rightarrow> bool) \<Rightarrow> instant \<Rightarrow> uuid \<Rightarrow> NewChannel \<Rightarrow> db \<Rightarrow> (store_error + Channel) \<times> db" where
  "CreateChannel ceq now newID nc db =
     (if nc_Kind nc \<noteq> ChannelKindPublic \<and> nc_Kind nc \<noteq> ChannelKindPrivate
      then (Inl (ErrOther ''kind must be public or private''), db)
      else begin_func (create_channel_body ceq now newID nc) db)"

definition dm_row :: "instant \<Rightarrow> uuid \<Rightarrow> uuid \<Rightarrow> uuid \<Rightarrow> bool \<Rightarrow> chan_row" where
  "dm_row now newID caller peer e2ee =
     \<lparr>c_id = newID, c_kind = ChannelKindDM, c_slug = None, c_topic = [], c_dm_a = Some (min caller peer),
      c_dm_b = Some (max caller peer), c_created_by = Some caller, c_e2ee = e2ee, c_created = now\<rparr>"

definition is_pair :: "uuid \<Rightarrow> uuid \<Rightarrow> chan_row \<Rightarrow> bool" where
  "is_pair a b c \<longleftrightarrow> c_kind c = ChannelKindDM \<and> c_dm_a c = Some (min a b) \<and> c_dm_b c = Some (max a b)"

text \<open>
  The INSERT with \<open>ON CONFLICT (dm_user_a, dm_user_b) WHERE kind = 'dm' DO NOTHING\<close>: a pair that has a
  channel inserts no row and is read back, without another member.
\<close>

definition open_dm_body ::
  "instant \<Rightarrow> uuid \<Rightarrow> uuid \<Rightarrow> uuid \<Rightarrow> bool \<Rightarrow> (db, Channel \<times> bool) tx" where
  "open_dm_body now newID caller peer e2ee db =
     (case sql_row (is_pair caller peer) (channels db) of
        Some c \<Rightarrow> Inr ((scopedChannel caller db c, False), db)
      | None \<Rightarrow>
          (case insert_channel (\<lambda>_ _. False) (dm_row now newID caller peer e2ee) db of
             Inl e \<Rightarrow> Inl (mapChannelConflict e)
           | Inr (i, db1) \<Rightarrow>
               (case insert_member False i caller caller db1 of
                  Inl e \<Rightarrow> Inl (mapMembershipConflict e)
                | Inr (_, db2) \<Rightarrow>
                    (case insert_member False i peer caller db2 of
                       Inl e \<Rightarrow> Inl (mapMembershipConflict e)
                     | Inr (_, db3) \<Rightarrow>
                         (case ChannelForUser i caller db3 of
                            Inl e \<Rightarrow> Inl e | Inr ch \<Rightarrow> Inr ((ch, True), db3))))))"

definition OpenDirectMessage ::
  "instant \<Rightarrow> uuid \<Rightarrow> uuid \<Rightarrow> uuid \<Rightarrow> bool \<Rightarrow> db \<Rightarrow> (store_error + Channel \<times> bool) \<times> db" where
  "OpenDirectMessage now newID callerID peerID e2ee db =
     (if callerID = peerID then (Inl ErrDMWithSelf, db)
      else begin_func (open_dm_body now newID callerID peerID e2ee) db)"

section \<open>Changing\<close>

definition update_topic_body :: "uuid \<Rightarrow> string \<Rightarrow> (db, Channel) tx" where
  "update_topic_body i topic db =
     (case channelKind i db of
        Inl e \<Rightarrow> Inl e
      | Inr kind \<Rightarrow>
          if kind = ChannelKindDM then Inl ErrDMHasNoTopic
          else if 250 < char_length topic then Inl CheckViolation
          else
            (let db1 = db\<lparr>channels := sql_update (\<lambda>c. c_id c = i) (\<lambda>c. c\<lparr>c_topic := topic\<rparr>) (channels db)\<rparr>
             in case ChannelByID i db1 of Inl e \<Rightarrow> Inl e | Inr ch \<Rightarrow> Inr (ch, db1)))"

definition UpdateChannelTopic :: "uuid \<Rightarrow> string \<Rightarrow> db \<Rightarrow> (store_error + Channel) \<times> db" where
  "UpdateChannelTopic i topic = begin_func (update_topic_body i topic)"

definition add_member_body :: "uuid \<Rightarrow> uuid \<Rightarrow> uuid \<Rightarrow> (db, unit) tx" where
  "add_member_body ch uid addedBy db =
     (case channelKind ch db of
        Inl e \<Rightarrow> Inl e
      | Inr kind \<Rightarrow>
          if kind = ChannelKindDM then Inl ErrDMMembershipFixed
          else (case insert_member True ch uid addedBy db of
                  Inl e \<Rightarrow> Inl (mapMembershipConflict e) | Inr x \<Rightarrow> Inr x))"

definition AddChannelMember :: "uuid \<Rightarrow> uuid \<Rightarrow> uuid \<Rightarrow> db \<Rightarrow> (store_error + unit) \<times> db" where
  "AddChannelMember ch uid addedBy = begin_func (add_member_body ch uid addedBy)"

definition remove_member_body :: "uuid \<Rightarrow> uuid \<Rightarrow> (db, unit) tx" where
  "remove_member_body ch uid db =
     (case channelKind ch db of
        Inl e \<Rightarrow> Inl e
      | Inr kind \<Rightarrow>
          if kind = ChannelKindDM then Inl ErrDMMembershipFixed
          else if length (members_of ch db) = 1 \<and> length (filter (\<lambda>m. cm_user m = uid) (members_of ch db)) = 1
          then Inl ErrLastMember
          else Inr ((), db\<lparr>channel_members :=
                 sql_delete (\<lambda>m. cm_channel m = ch \<and> cm_user m = uid) (channel_members db)\<rparr>))"

definition RemoveChannelMember :: "uuid \<Rightarrow> uuid \<Rightarrow> db \<Rightarrow> (store_error + unit) \<times> db" where
  "RemoveChannelMember ch uid = begin_func (remove_member_body ch uid)"

section \<open>Listing\<close>

definition channel_key :: "chan_row \<Rightarrow> instant \<times> uuid" where
  "channel_key c = (c_created c, c_id c)"

text \<open>\<open>ChannelCursor\<close>: the position a client continues from.\<close>

definition ChannelCursor :: "Channel \<Rightarrow> instant \<times> uuid" where
  "ChannelCursor ch = (ch_CreatedAt ch, ch_ID ch)"

definition channel_rows :: "uuid \<Rightarrow> (instant \<times> uuid) option \<Rightarrow> nat \<Rightarrow> db \<Rightarrow> chan_row list" where
  "channel_rows uid after limit db = take limit (sql_order channel_key
     (filter (past channel_key after) (filter (\<lambda>c. IsChannelMember (c_id c) uid db) (channels db))))"

definition ListChannelsForUser :: "uuid \<Rightarrow> (instant \<times> uuid) option \<Rightarrow> nat \<Rightarrow> db \<Rightarrow> Channel list" where
  "ListChannelsForUser uid after limit db = map (scopedChannel uid db) (channel_rows uid after limit db)"

definition member_key :: "(string \<Rightarrow> 'k::linorder) \<Rightarrow> user_row \<Rightarrow> 'k \<times> uuid" where
  "member_key collate u = (collate (u_username u), u_id u)"

definition ListChannelMembers ::
  "(string \<Rightarrow> 'k::linorder) \<Rightarrow> uuid \<Rightarrow> (string \<times> uuid) option \<Rightarrow> nat \<Rightarrow> db \<Rightarrow> user_row list" where
  "ListChannelMembers collate ch after limit db = take limit (sql_order (member_key collate)
     (filter (past (member_key collate) (map_option (\<lambda>(name, i). (collate name, i)) after))
       (filter (\<lambda>u. IsChannelMember ch (u_id u) db) (users db))))"

section \<open>What each transaction writes\<close>

lemma insert_channel_Inr:
  "insert_channel ceq c db = Inr (i, db') \<Longrightarrow>
     i = c_id c \<and> db' = db\<lparr>channels := channels db @ [c]\<rparr> \<and> channel_checks c \<and>
     (\<forall>x \<in> set (channels db). c_id x \<noteq> c_id c \<and> \<not> same_slug ceq c x \<and> \<not> same_pair c x) \<and>
     user_ref (c_dm_a c) db \<and> user_ref (c_dm_b c) db \<and> user_ref (c_created_by c) db"
  by (auto simp: insert_channel_def sql_insert_def split: if_splits)

lemma insert_member_Inr:
  "insert_member dn ch uid addedBy db = Inr (x, db') \<Longrightarrow>
     dn \<and> IsChannelMember ch uid db \<and> db' = db \<or>
     \<not> IsChannelMember ch uid db \<and> (\<exists>c \<in> set (channels db). c_id c = ch) \<and>
     db' = db\<lparr>channel_members := channel_members db @ [\<lparr>cm_channel = ch, cm_user = uid\<rparr>]\<rparr>"
  by (auto simp: insert_member_def sql_insert_def split: if_splits)

lemma create_channel_Inr:
  assumes "create_channel_body ceq now newID nc db = Inr (ch, db')"
  shows "insert_channel ceq (new_channel_row now newID nc) db =
           Inr (newID, db\<lparr>channels := channels db @ [new_channel_row now newID nc]\<rparr>)"
    and "\<not> IsChannelMember newID (nc_CreatedBy nc) db"
    and "db' = db\<lparr>channels := channels db @ [new_channel_row now newID nc],
           channel_members := channel_members db @ [\<lparr>cm_channel = newID, cm_user = nc_CreatedBy nc\<rparr>]\<rparr>"
    and "ChannelForUser newID (nc_CreatedBy nc) db' = Inr ch"
proof -
  from assms obtain i db1 where ins: "insert_channel ceq (new_channel_row now newID nc) db = Inr (i, db1)"
    and m: "insert_member False i (nc_CreatedBy nc) (nc_CreatedBy nc) db1 = Inr ((), db')"
    and v: "ChannelForUser i (nc_CreatedBy nc) db' = Inr ch"
    by (auto simp: create_channel_body_def split: sum.splits)
  note a = insert_channel_Inr [OF ins] and b = insert_member_Inr [OF m]
  have i: "i = newID" using a by (simp add: new_channel_row_def)
  show "insert_channel ceq (new_channel_row now newID nc) db =
           Inr (newID, db\<lparr>channels := channels db @ [new_channel_row now newID nc]\<rparr>)" using ins a i by simp
  show "\<not> IsChannelMember newID (nc_CreatedBy nc) db"
    and "db' = db\<lparr>channels := channels db @ [new_channel_row now newID nc],
           channel_members := channel_members db @ [\<lparr>cm_channel = newID, cm_user = nc_CreatedBy nc\<rparr>]\<rparr>"
    using a b i by (simp_all add: IsChannelMember_def del: sql_exists_iff)
  show "ChannelForUser newID (nc_CreatedBy nc) db' = Inr ch" using v i by simp
qed

lemma open_dm_cases:
  assumes "open_dm_body now newID caller peer e2ee db = Inr ((ch, created), db')"
  obtains (existing) c where "sql_row (is_pair caller peer) (channels db) = Some c" "db' = db"
      "ch = scopedChannel caller db c" "\<not> created"
  | (new) "sql_row (is_pair caller peer) (channels db) = None" "created"
      "insert_channel (\<lambda>_ _. False) (dm_row now newID caller peer e2ee) db =
           Inr (newID, db\<lparr>channels := channels db @ [dm_row now newID caller peer e2ee]\<rparr>)"
      "db' = db\<lparr>channels := channels db @ [dm_row now newID caller peer e2ee],
           channel_members := channel_members db @ [\<lparr>cm_channel = newID, cm_user = caller\<rparr>,
             \<lparr>cm_channel = newID, cm_user = peer\<rparr>]\<rparr>"
      "ChannelForUser newID caller db' = Inr ch"
proof (cases "sql_row (is_pair caller peer) (channels db)")
  case (Some c)
  then have "db' = db" "ch = scopedChannel caller db c" "\<not> created" using assms unfolding open_dm_body_def by auto
  with Some show thesis by (rule existing)
next
  case None
  with assms obtain i db1 db2 where ins: "insert_channel (\<lambda>_ _. False) (dm_row now newID caller peer e2ee) db = Inr (i, db1)"
    and m1: "insert_member False i caller caller db1 = Inr ((), db2)"
    and m2: "insert_member False i peer caller db2 = Inr ((), db')"
    and v: "ChannelForUser i caller db' = Inr ch" "created"
    by (auto simp: open_dm_body_def split: sum.splits)
  note a = insert_channel_Inr [OF ins] and b = insert_member_Inr [OF m1] and c = insert_member_Inr [OF m2]
  have i: "i = newID" using a by (simp add: dm_row_def)
  show thesis by (rule new [OF None v(2)]) (use ins a b c i v in auto)
qed

lemma update_topic_Inr:
  "update_topic_body i topic db = Inr (ch, db') \<Longrightarrow>
     db' = db\<lparr>channels := sql_update (\<lambda>c. c_id c = i) (\<lambda>c. c\<lparr>c_topic := topic\<rparr>) (channels db)\<rparr> \<and>
     char_length topic \<le> 250 \<and> (\<exists>c. sql_row (\<lambda>c. c_id c = i) (channels db) = Some c \<and> c_kind c \<noteq> ChannelKindDM)"
  by (auto simp: update_topic_body_def channelKind_def Let_def split: sum.splits if_splits option.splits)

lemma add_member_Inr:
  "add_member_body ch uid addedBy db = Inr (x, db') \<Longrightarrow>
     (\<exists>c. sql_row (\<lambda>c. c_id c = ch) (channels db) = Some c \<and> c_kind c \<noteq> ChannelKindDM) \<and>
     (IsChannelMember ch uid db \<and> db' = db \<or>
      \<not> IsChannelMember ch uid db \<and>
      db' = db\<lparr>channel_members := channel_members db @ [\<lparr>cm_channel = ch, cm_user = uid\<rparr>]\<rparr>)"
  by (auto simp: add_member_body_def channelKind_def split: sum.splits if_splits option.splits dest: insert_member_Inr)

lemma remove_member_Inr:
  "remove_member_body ch uid db = Inr (x, db') \<Longrightarrow>
     (\<exists>c. sql_row (\<lambda>c. c_id c = ch) (channels db) = Some c \<and> c_kind c \<noteq> ChannelKindDM) \<and>
     \<not> (length (members_of ch db) = 1 \<and> length (filter (\<lambda>m. cm_user m = uid) (members_of ch db)) = 1) \<and>
     db' = db\<lparr>channel_members := sql_delete (\<lambda>m. cm_channel m = ch \<and> cm_user m = uid) (channel_members db)\<rparr>"
  by (auto simp: remove_member_body_def channelKind_def split: sum.splits if_splits option.splits)

section \<open>The transactions as steps\<close>

inductive channel_step :: "(string \<Rightarrow> string \<Rightarrow> bool) \<Rightarrow> db \<Rightarrow> db \<Rightarrow> bool" for ceq where
  create: "channel_step ceq db (snd (CreateChannel ceq now i nc db))"
| open_dm: "channel_step ceq db (snd (OpenDirectMessage now i caller peer e2ee db))"
| topic: "channel_step ceq db (snd (UpdateChannelTopic i topic db))"
| add: "channel_step ceq db (snd (AddChannelMember ch uid addedBy db))"
| remove: "channel_step ceq db (snd (RemoveChannelMember ch uid db))"
| elsewhere: "channels db' = channels db \<Longrightarrow> channel_members db' = channel_members db \<Longrightarrow> channel_step ceq db db'"

inductive channel_run :: "(string \<Rightarrow> string \<Rightarrow> bool) \<Rightarrow> db \<Rightarrow> db \<Rightarrow> bool" for ceq where
  here: "channel_run ceq db db"
| later: "channel_run ceq db db1 \<Longrightarrow> channel_step ceq db1 db2 \<Longrightarrow> channel_run ceq db db2"

section \<open>The invariant\<close>

text \<open>
  Identifiers and direct-message pairs are unique, no membership is recorded twice or without its
  channel, a direct message has exactly its two participants as members, and a named channel has at
  least one.
\<close>

definition room :: "uuid \<Rightarrow> member_row list \<Rightarrow> uuid set" where
  "room i M = cm_user ` {m \<in> set M. cm_channel m = i}"

definition peopled :: "uuid set \<Rightarrow> chan_row \<Rightarrow> bool" where
  "peopled S c \<longleftrightarrow> (if c_kind c = ChannelKindDM
     then \<exists>a b. c_dm_a c = Some a \<and> c_dm_b c = Some b \<and> S = {a, b} else S \<noteq> {})"

definition rooms_ok :: "chan_row list \<Rightarrow> member_row list \<Rightarrow> bool" where
  "rooms_ok C M \<longleftrightarrow> distinct (map c_id C) \<and> distinct M \<and>
     (\<forall>a \<in> set C. \<forall>b \<in> set C. same_pair a b \<longrightarrow> a = b) \<and>
     cm_channel ` set M \<subseteq> c_id ` set C \<and>
     (\<forall>c \<in> set C. channel_checks c \<and> peopled (room (c_id c) M) c)"

definition channels_inv :: "db \<Rightarrow> bool" where
  "channels_inv db \<longleftrightarrow> rooms_ok (channels db) (channel_members db)"

lemma IsChannelMember_iff: "IsChannelMember ch u db \<longleftrightarrow> u \<in> room ch (channel_members db)"
  by (auto simp: IsChannelMember_def room_def)

lemma room_append [simp]: "room i (M @ N) = room i M \<union> room i N"
  by (auto simp: room_def)

lemma room_simps [simp]:
  "room i [] = {}" "room i (m # M) = (if cm_channel m = i then insert (cm_user m) (room i M) else room i M)"
  by (auto simp: room_def)

lemma room_delete:
  "room i (sql_delete (\<lambda>m. cm_channel m = ch \<and> cm_user m = uid) M) = (if i = ch then room i M - {uid} else room i M)"
  by (auto simp: room_def)

lemma room_empty: "i \<notin> cm_channel ` set M \<Longrightarrow> room i M = {}"
  by (auto simp: room_def)

lemma distinct_all_same: "distinct xs \<Longrightarrow> a \<in> set xs \<Longrightarrow> \<forall>x \<in> set xs. x = a \<Longrightarrow> xs = [a]"
  by (cases xs; cases "tl xs") auto

lemma room_sole:
  assumes "distinct M" and "room i M = {u}"
  shows "filter (\<lambda>m. cm_channel m = i) M = [\<lparr>cm_channel = i, cm_user = u\<rparr>]"
proof -
  let ?m = "\<lparr>cm_channel = i, cm_user = u\<rparr>"
  have all: "\<forall>m \<in> set (filter (\<lambda>m. cm_channel m = i) M). m = ?m"
  proof
    fix m assume "m \<in> set (filter (\<lambda>m. cm_channel m = i) M)"
    then have "cm_user m \<in> room i M" "cm_channel m = i" by (auto simp: room_def)
    with assms(2) show "m = ?m" by simp
  qed
  have "filter (\<lambda>m. cm_channel m = i) M \<noteq> []" using assms(2) by (auto simp: room_def filter_empty_conv)
  then have "hd (filter (\<lambda>m. cm_channel m = i) M) \<in> set (filter (\<lambda>m. cm_channel m = i) M)" by (rule hd_in_set)
  with all have "?m \<in> set (filter (\<lambda>m. cm_channel m = i) M)" by metis
  moreover have "distinct (filter (\<lambda>m. cm_channel m = i) M)" using assms(1) by simp
  ultimately show ?thesis using all by (intro distinct_all_same)
qed

lemma same_pair_sym: "same_pair a b \<Longrightarrow> same_pair b a"
  by (auto simp: same_pair_def)

lemma rooms_ok_new:
  assumes ok: "rooms_ok C M" and c: "channel_checks c" "\<forall>x \<in> set C. c_id x \<noteq> c_id c \<and> \<not> same_pair c x"
    and N: "\<forall>m \<in> set N. cm_channel m = c_id c" "distinct N" "peopled (room (c_id c) N) c"
  shows "rooms_ok (C @ [c]) (M @ N)"
proof -
  have new: "c_id c \<notin> cm_channel ` set M" using ok c(2) by (auto simp: rooms_ok_def)
  then have disj: "set M \<inter> set N = {}" using N(1) by force
  have "peopled (room (c_id x) (M @ N)) x" if "x \<in> set C" for x
  proof -
    have "room (c_id x) N = {}" using N(1) c(2) that by (intro room_empty) auto
    then show ?thesis using ok that by (simp add: rooms_ok_def)
  qed
  moreover have "peopled (room (c_id c) (M @ N)) c" using N(3) room_empty [OF new] by simp
  moreover have "\<not> same_pair x c" if "x \<in> set C" for x using c(2) that same_pair_sym by blast
  moreover have "cm_channel ` set (M @ N) \<subseteq> c_id ` set (C @ [c])" using ok N(1) by (auto simp: rooms_ok_def)
  moreover have "distinct (map c_id (C @ [c]))" using ok c(2) by (auto simp: rooms_ok_def)
  moreover have "distinct (M @ N)" using ok N(2) disj by (simp add: rooms_ok_def)
  ultimately show ?thesis using ok c by (simp add: rooms_ok_def)
qed

text \<open>A change of one named channel's members that leaves it one.\<close>

lemma rooms_ok_members:
  assumes ok: "rooms_ok C M" and c: "c \<in> set C" "c_kind c \<noteq> ChannelKindDM" and d: "distinct M'"
    and sub: "cm_channel ` set M' \<subseteq> c_id ` set C"
    and other: "\<And>i. i \<noteq> c_id c \<Longrightarrow> room i M' = room i M" and some: "room (c_id c) M' \<noteq> {}"
  shows "rooms_ok C M'"
proof -
  have "peopled (room (c_id x) M') x" if x: "x \<in> set C" for x
  proof (cases "c_id x = c_id c")
    case True
    then have "x = c" using ok x c(1) by (auto simp: rooms_ok_def intro: distinct_map_inj)
    with c(2) some show ?thesis by (simp add: peopled_def)
  qed (use ok x other in \<open>simp add: rooms_ok_def\<close>)
  with ok d sub show ?thesis by (simp add: rooms_ok_def)
qed

lemma rooms_ok_topic:
  assumes ok: "rooms_ok C M" and c: "c \<in> set C" "c_kind c \<noteq> ChannelKindDM" and "char_length t \<le> 250"
  shows "rooms_ok (sql_update (\<lambda>x. c_id x = c_id c) (\<lambda>x. x\<lparr>c_topic := t\<rparr>) C) M"
proof -
  let ?C = "sql_update (\<lambda>x. c_id x = c_id c) (\<lambda>x. x\<lparr>c_topic := t\<rparr>) C"
  have x: "channel_checks x \<and> peopled (room (c_id x) M) x" if "x \<in> set ?C" for x
    using that
  proof (cases rule: sql_updateE)
    case (changed y)
    then have "y = c" using ok c(1) by (auto simp: rooms_ok_def intro: distinct_map_inj)
    moreover have "channel_checks c \<and> peopled (room (c_id c) M) c" using ok c(1) by (simp add: rooms_ok_def)
    ultimately show ?thesis using changed(3) c(2) assms(4) by (simp add: channel_checks_def peopled_def split: option.splits)
  qed (use ok in \<open>simp add: rooms_ok_def\<close>)
  moreover have "a = b" if ab: "a \<in> set ?C" "b \<in> set ?C" "same_pair a b" for a b
  proof -
    have "z \<in> set C" if "z \<in> set ?C" "c_kind z = ChannelKindDM" for z
      using that(1)
    proof (cases rule: sql_updateE)
      case (changed y)
      then have "y = c" using ok c(1) by (auto simp: rooms_ok_def intro: distinct_map_inj)
      with changed that(2) c(2) show ?thesis by simp
    qed simp
    then show ?thesis using ab ok by (auto simp: rooms_ok_def same_pair_def)
  qed
  moreover have "map c_id ?C = map c_id C" by (simp add: map_sql_update_frame)
  then have "c_id ` set ?C = c_id ` set C" by (metis set_map)
  ultimately show ?thesis using ok unfolding rooms_ok_def by (simp add: \<open>map c_id ?C = map c_id C\<close>)
qed

lemma step_rooms:
  assumes "channel_step ceq db db'" and inv: "channels_inv db"
  shows "channels_inv db'"
proof -
  note bf = begin_func_invariant [where I = channels_inv, OF inv]
  have ok: "rooms_ok (channels db) (channel_members db)" using inv by (simp add: channels_inv_def)
  show ?thesis
    using assms(1)
  proof cases
    case (create now i nc)
    have "channels_inv d" if "create_channel_body ceq now i nc db = Inr (ch, d)" "nc_Kind nc \<noteq> ChannelKindDM" for ch d
    proof -
      note a = create_channel_Inr [OF that(1)] and b = insert_channel_Inr [OF create_channel_Inr(1) [OF that(1)]]
      show ?thesis unfolding channels_inv_def a(3)
        using rooms_ok_new [OF ok, of "new_channel_row now i nc" "[\<lparr>cm_channel = i, cm_user = nc_CreatedBy nc\<rparr>]"] b that(2)
        by (simp add: peopled_def new_channel_row_def)
    qed
    with inv show ?thesis unfolding create CreateChannel_def by (auto intro!: bf)
  next
    case (open_dm now i caller peer e2ee)
    have "channels_inv d" if body: "open_dm_body now i caller peer e2ee db = Inr ((ch, cr), d)" and ne: "caller \<noteq> peer" for ch cr d
      using body
    proof (cases rule: open_dm_cases)
      case new
      note b = insert_channel_Inr [OF new(3)]
      have "peopled {caller, peer} (dm_row now i caller peer e2ee)"
        by (auto simp: peopled_def dm_row_def min_def max_def)
      then show ?thesis unfolding channels_inv_def new(4)
        using rooms_ok_new [OF ok, of "dm_row now i caller peer e2ee"
            "[\<lparr>cm_channel = i, cm_user = caller\<rparr>, \<lparr>cm_channel = i, cm_user = peer\<rparr>]"] b ne
        by (simp add: dm_row_def)
    qed (use inv in simp)
    with inv show ?thesis unfolding open_dm OpenDirectMessage_def by (auto intro!: bf)
  next
    case (topic i t)
    show ?thesis unfolding topic UpdateChannelTopic_def
    proof (rule bf)
      fix ch d assume "update_topic_body i t db = Inr (ch, d)"
      from update_topic_Inr [OF this] obtain c where d: "d = db\<lparr>channels := sql_update (\<lambda>c. c_id c = i) (\<lambda>c. c\<lparr>c_topic := t\<rparr>) (channels db)\<rparr>"
        and c: "char_length t \<le> 250" "c \<in> set (channels db)" "c_id c = i" "c_kind c \<noteq> ChannelKindDM"
        by (auto dest: sql_row_Some_iff)
      then show "channels_inv d" using rooms_ok_topic [OF ok c(2,4,1)] by (simp add: channels_inv_def)
    qed
  next
    case (add ch uid addedBy)
    show ?thesis unfolding add AddChannelMember_def
    proof (rule bf)
      fix x d assume "add_member_body ch uid addedBy db = Inr (x, d)"
      from add_member_Inr [OF this] obtain c where c: "c \<in> set (channels db)" "c_id c = ch" "c_kind c \<noteq> ChannelKindDM"
        and d: "d = db \<or> \<not> IsChannelMember ch uid db \<and>
          d = db\<lparr>channel_members := channel_members db @ [\<lparr>cm_channel = ch, cm_user = uid\<rparr>]\<rparr>"
        by (auto dest: sql_row_Some_iff)
      from d show "channels_inv d"
      proof (elim disjE conjE)
        assume new: "\<not> IsChannelMember ch uid db" and d: "d = db\<lparr>channel_members := channel_members db @ [\<lparr>cm_channel = ch, cm_user = uid\<rparr>]\<rparr>"
        have "rooms_ok (channels db) (channel_members db @ [\<lparr>cm_channel = ch, cm_user = uid\<rparr>])"
          by (rule rooms_ok_members [OF ok c(1,3)])
             (use ok c new in \<open>auto simp: rooms_ok_def IsChannelMember_def\<close>)
        then show ?thesis by (simp add: channels_inv_def d)
      qed (use inv in simp)
    qed
  next
    case (remove ch uid)
    show ?thesis unfolding remove RemoveChannelMember_def
    proof (rule bf)
      fix x d assume "remove_member_body ch uid db = Inr (x, d)"
      from remove_member_Inr [OF this] obtain c where c: "c \<in> set (channels db)" "c_id c = ch" "c_kind c \<noteq> ChannelKindDM"
        and sole: "\<not> (length (members_of ch db) = 1 \<and> length (filter (\<lambda>m. cm_user m = uid) (members_of ch db)) = 1)"
        and d: "d = db\<lparr>channel_members := sql_delete (\<lambda>m. cm_channel m = ch \<and> cm_user m = uid) (channel_members db)\<rparr>"
        by (auto dest: sql_row_Some_iff)
      have "room ch (channel_members db) \<noteq> {uid}"
      proof
        assume "room ch (channel_members db) = {uid}"
        then have "members_of ch db = [\<lparr>cm_channel = ch, cm_user = uid\<rparr>]"
          using room_sole ok by (simp add: members_of_def rooms_ok_def)
        with sole show False by simp
      qed
      moreover have "room ch (channel_members db) \<noteq> {}" using ok c by (auto simp: rooms_ok_def peopled_def)
      ultimately have "room ch (channel_members db) - {uid} \<noteq> {}" by blast
      moreover have "distinct (channel_members d)" "cm_channel ` set (channel_members d) \<subseteq> c_id ` set (channels db)"
        using ok by (auto simp: d rooms_ok_def sql_delete_def)
      ultimately have "rooms_ok (channels db) (channel_members d)"
        by (intro rooms_ok_members [OF ok c(1,3)]) (simp_all add: d c(2) room_delete)
      then show "channels_inv d" by (simp add: channels_inv_def d)
    qed
  next
    case elsewhere
    with inv show ?thesis by (simp add: channels_inv_def)
  qed
qed

lemma run_rooms: "channel_run ceq db db' \<Longrightarrow> channels_inv db \<Longrightarrow> channels_inv db'"
  by (induction rule: channel_run.induct) (auto intro: step_rooms)

section \<open>What creation fixes\<close>

text \<open>Everything of a channel but its topic.\<close>

definition same_channel :: "chan_row \<Rightarrow> chan_row \<Rightarrow> bool" where
  "same_channel a b \<longleftrightarrow> a\<lparr>c_topic := []\<rparr> = b\<lparr>c_topic := []\<rparr>"

definition channels_kept :: "chan_row list \<Rightarrow> chan_row list \<Rightarrow> bool" where
  "channels_kept old new \<longleftrightarrow> (\<forall>a \<in> set old. \<exists>b \<in> set new. same_channel a b)"

lemma same_channel_fields:
  assumes "same_channel a b"
  shows "c_id b = c_id a" "c_kind b = c_kind a" "c_slug b = c_slug a" "c_dm_a b = c_dm_a a" "c_dm_b b = c_dm_b a"
    "c_created_by b = c_created_by a" "c_e2ee b = c_e2ee a" "c_created b = c_created a"
  using assms unfolding same_channel_def by (metis chan_row.select_convs chan_row.surjective chan_row.update_convs(4))+

lemma channels_kept_refl [simp]: "channels_kept C C"
  by (auto simp: channels_kept_def same_channel_def)

lemma channels_kept_trans: "channels_kept A B \<Longrightarrow> channels_kept B C \<Longrightarrow> channels_kept A C"
  unfolding channels_kept_def same_channel_def by metis

lemma channels_kept_append [simp]: "channels_kept C (C @ D)"
  by (auto simp: channels_kept_def same_channel_def)

lemma channels_kept_topic: "channels_kept C (sql_update P (\<lambda>c. c\<lparr>c_topic := t\<rparr>) C)"
  unfolding channels_kept_def
proof
  fix a assume "a \<in> set C"
  then show "\<exists>b \<in> set (sql_update P (\<lambda>c. c\<lparr>c_topic := t\<rparr>) C). same_channel a b"
  proof (cases "P a")
    case True
    with \<open>a \<in> set C\<close> show ?thesis
      by (intro bexI [OF _ sql_updateI [where P = P and f = "\<lambda>c. c\<lparr>c_topic := t\<rparr>"]]) (simp_all add: same_channel_def)
  next
    case False
    with \<open>a \<in> set C\<close> show ?thesis by (intro bexI [OF _ sql_updateI_other]) (simp_all add: same_channel_def)
  qed
qed

lemma step_kept:
  assumes "channel_step ceq db db'"
  shows "channels_kept (channels db) (channels db')"
proof -
  note bf = begin_func_invariant [where I = "\<lambda>d. channels_kept (channels db) (channels d)"]
  have dm: "channels_kept (channels db) (channels d)"
    if "open_dm_body now i caller peer e2ee db = Inr (x, d)" for now i caller peer e2ee x d
  proof -
    obtain ch cr where "x = (ch, cr)" by (cases x)
    with that have "open_dm_body now i caller peer e2ee db = Inr ((ch, cr), d)" by simp
    then show ?thesis by (cases rule: open_dm_cases) simp_all
  qed
  from assms show ?thesis
    by cases (auto simp: CreateChannel_def OpenDirectMessage_def UpdateChannelTopic_def AddChannelMember_def
        RemoveChannelMember_def channels_kept_topic intro!: bf
        dest!: create_channel_Inr(3) dm update_topic_Inr add_member_Inr remove_member_Inr)
qed

lemma run_kept: "channel_run ceq db db' \<Longrightarrow> channels_kept (channels db) (channels db')"
  by (induction rule: channel_run.induct) (auto intro: channels_kept_trans step_kept)

lemma opened_pair:
  assumes "open_dm_body now newID x y e2ee db = Inr ((ch, created), db1)" and ids: "distinct (map c_id (channels db1))"
  shows "\<exists>c \<in> set (channels db1). is_pair x y c \<and> c_id c = ch_ID ch \<and> c_e2ee c = ch_E2EE ch"
  using assms(1)
proof (cases rule: open_dm_cases)
  case (existing c)
  show ?thesis
    by (rule bexI [of _ c]) (use existing sql_row_Some_iff [OF existing(1)] in \<open>simp_all add: scopedChannel_def unscopedChannel_def\<close>)
next
  case new
  let ?r = "dm_row now newID x y e2ee"
  have "?r \<in> set (channels db1)" by (simp add: new(4))
  then have "sql_row (\<lambda>c. c_id c = newID) (channels db1) = Some ?r"
    using sql_row_unique [OF ids, of ?r] by (simp add: dm_row_def)
  then have "ch = scopedChannel x db1 ?r" using new(5) by (simp add: ChannelForUser_def)
  with \<open>?r \<in> set (channels db1)\<close> show ?thesis
    by (intro bexI [of _ ?r]) (simp_all add: is_pair_def dm_row_def scopedChannel_def unscopedChannel_def)
qed

lemma pair_row:
  assumes "channels_inv db" "d \<in> set (channels db)" "is_pair x y d"
  shows "sql_row (is_pair x y) (channels db) = Some d"
proof (cases "sql_row (is_pair x y) (channels db)")
  case None
  with assms(2,3) show ?thesis by (simp add: sql_row_None_iff)
next
  case (Some e)
  then have e: "e \<in> set (channels db)" "same_pair e d"
    using sql_row_Some_iff [OF Some] assms(3) by (simp_all add: is_pair_def same_pair_def)
  with assms(1,2) have "e = d" unfolding channels_inv_def rooms_ok_def by blast
  with Some show ?thesis by simp
qed

section \<open>Properties\<close>

definition people :: db where "people = empty_db [1, 2, 3] (org_of False 720)"

definition general :: NewChannel where
  "general = \<lparr>nc_Kind = ChannelKindPublic, nc_Slug = ''general'', nc_Topic = [], nc_E2EE = True, nc_CreatedBy = 1\<rparr>"

definition people1 :: db where "people1 = snd (CreateChannel (=) 1 7 general people)"
definition people2 :: db where "people2 = snd (OpenDirectMessage 2 8 2 1 True people1)"
definition people3 :: db where "people3 = snd (AddChannelMember 7 3 1 people2)"

lemma people_runs:
  "channel_run (=) people people1" "channel_run (=) people people2" "channel_run (=) people people3"
  "channel_run (=) people2 people3"
proof -
  show 1: "channel_run (=) people people1" unfolding people1_def by (rule channel_run.later [OF channel_run.here channel_step.create])
  show 2: "channel_run (=) people people2" unfolding people2_def by (rule channel_run.later [OF 1 channel_step.open_dm])
  show "channel_run (=) people people3" unfolding people3_def by (rule channel_run.later [OF 2 channel_step.add])
  show "channel_run (=) people2 people3" unfolding people3_def by (rule channel_run.later [OF channel_run.here channel_step.add])
qed

lemma people_empty: "channels people = []" "channel_members people = []"
  by (simp_all add: people_def empty_db_def)

lemma length_filter_mono: "(\<And>x. P x \<Longrightarrow> Q x) \<Longrightarrow> length (filter P xs) \<le> length (filter Q xs)"
  by (induction xs) auto

lemma empty_rooms: "channels db = [] \<Longrightarrow> channel_members db = [] \<Longrightarrow> channels_inv db"
  by (simp add: channels_inv_def rooms_ok_def)

text \<open>
  C29. No conversation is ever unreachable, and a direct message is never anybody else's. Whatever
  channel transactions have run since there were none, every named channel has a member, and the
  members of a direct message are exactly its two participants, who are two different people.
\<close>

theorem conversations_peopled:
  assumes "channels db = []" and "channel_members db = []" and "channel_run ceq db db'"
    and "c \<in> set (channels db')"
  shows "if c_kind c = ChannelKindDM
         then \<exists>a b. a < b \<and> c_dm_a c = Some a \<and> c_dm_b c = Some b \<and> (\<forall>u. IsChannelMember (c_id c) u db' \<longleftrightarrow> u = a \<or> u = b)
         else \<exists>u. IsChannelMember (c_id c) u db'"
proof -
  have "channels_inv db'" using run_rooms [OF assms(3) empty_rooms [OF assms(1,2)]] .
  with assms(4) have "channel_checks c" "peopled (room (c_id c) (channel_members db')) c"
    by (auto simp: channels_inv_def rooms_ok_def)
  then show ?thesis
    by (auto simp: peopled_def channel_checks_def IsChannelMember_iff)
qed

theorem conversations_peopled_witness:
  "fst (RemoveChannelMember 7 1 people2) = Inl ErrLastMember \<and>
   (\<exists>c \<in> set (channels people3). c_kind c = ChannelKindDM \<and> (\<forall>u. IsChannelMember (c_id c) u people3 \<longleftrightarrow> u = 1 \<or> u = 2))"
proof -
  have "(\<exists>c \<in> set (channels people3). c_kind c = ChannelKindDM \<and> c_dm_a c = Some 1 \<and> c_dm_b c = Some 2) \<and>
      fst (RemoveChannelMember 7 1 people2) = Inl ErrLastMember" by code_simp
  then obtain c where mem: "c \<in> set (channels people3)" and c: "c_kind c = ChannelKindDM" "c_dm_a c = Some 1"
      "c_dm_b c = Some 2" "fst (RemoveChannelMember 7 1 people2) = Inl ErrLastMember" by blast
  have "\<forall>u. IsChannelMember (c_id c) u people3 \<longleftrightarrow> u = 1 \<or> u = 2"
    using conversations_peopled [OF people_empty people_runs(3) mem] by (simp add: c)
  with mem c(1,4) show ?thesis by blast
qed

text \<open>
  What a conversation is, is decided when it is made. In every later state the channel is still
  there with the same kind, name, participants, creator and encryption mode: no transaction converts
  a conversation between encrypted and readable.
\<close>

theorem channel_never_converted:
  assumes "channel_run ceq db db'" and "c \<in> set (channels db)"
  shows "\<exists>c' \<in> set (channels db'). c_id c' = c_id c \<and> c_e2ee c' = c_e2ee c \<and> c_kind c' = c_kind c \<and>
    c_slug c' = c_slug c \<and> c_dm_a c' = c_dm_a c \<and> c_dm_b c' = c_dm_b c \<and>
    c_created_by c' = c_created_by c \<and> c_created c' = c_created c"
proof -
  obtain c' where "c' \<in> set (channels db')" "same_channel c c'"
    using run_kept [OF assms(1)] assms(2) unfolding channels_kept_def by blast
  with same_channel_fields [OF this(2)] show ?thesis by blast
qed

theorem channel_never_converted_witness:
  "\<exists>c' \<in> set (channels people3). c_id c' = 8 \<and> c_e2ee c'"
proof -
  have "\<exists>c \<in> set (channels people2). c_id c = 8 \<and> c_e2ee c" by code_simp
  then obtain c where c: "c \<in> set (channels people2)" "c_id c = 8" "c_e2ee c" by blast
  from channel_never_converted [OF people_runs(4) c(1)] show ?thesis unfolding c(2) using c(3) by blast
qed

text \<open>
  Opening a direct message is idempotent. Once a pair has one, either of the two opening it again,
  in every later state and whatever encryption flag is sent, gets that very conversation, is told that
  nothing was created, sees the other person as the peer, and changes nothing.
\<close>

theorem OpenDirectMessage_idempotent:
  assumes "channels_inv db" and "OpenDirectMessage now newID x y e2ee db = (Inr (ch, created), db1)"
    and "channel_run ceq db1 db2"
  shows "\<exists>d. OpenDirectMessage later otherID x y flag db2 = (Inr (scopedChannel x db2 d, False), db2) \<and>
    OpenDirectMessage later otherID y x flag db2 = (Inr (scopedChannel y db2 d, False), db2) \<and>
    c_id d = ch_ID ch \<and> c_e2ee d = ch_E2EE ch \<and> peer_id x d = Some y \<and> peer_id y d = Some x"
proof -
  have ne: "x \<noteq> y" and body: "open_dm_body now newID x y e2ee db = Inr ((ch, created), db1)"
    using assms(2) by (auto simp: OpenDirectMessage_def split: if_splits)
  have inv1: "channels_inv db1" using step_rooms [OF channel_step.open_dm assms(1)] assms(2) by (metis snd_conv)
  have inv2: "channels_inv db2" using run_rooms [OF assms(3) inv1] .
  have ids1: "distinct (map c_id (channels db1))" using inv1 by (simp add: channels_inv_def rooms_ok_def)
  obtain c where c: "c \<in> set (channels db1)" "is_pair x y c" "c_id c = ch_ID ch" "c_e2ee c = ch_E2EE ch"
    using opened_pair [OF body ids1] by blast
  obtain d where d: "d \<in> set (channels db2)" "same_channel c d"
    using run_kept [OF assms(3)] c(1) unfolding channels_kept_def by blast
  note f = same_channel_fields [OF d(2)]
  have pair: "is_pair x y d" using c(2) f by (simp add: is_pair_def)
  have swap: "is_pair y x = is_pair x y" by (intro ext) (simp add: is_pair_def min.commute max.commute)
  have row: "sql_row (is_pair x y) (channels db2) = Some d" by (rule pair_row [OF inv2 d(1) pair])
  have "peer_id x d = Some y" "peer_id y d = Some x"
    using pair ne by (auto simp: is_pair_def peer_id_def min_def max_def split: if_splits)
  moreover have "OpenDirectMessage later otherID x y flag db2 = (Inr (scopedChannel x db2 d, False), db2)"
    "OpenDirectMessage later otherID y x flag db2 = (Inr (scopedChannel y db2 d, False), db2)"
    using row ne by (simp_all add: OpenDirectMessage_def open_dm_body_def begin_func_def swap)
  moreover have "c_id d = ch_ID ch" "c_e2ee d = ch_E2EE ch" using f c(3,4) by simp_all
  ultimately show ?thesis by blast
qed

theorem OpenDirectMessage_idempotent_witness:
  "\<exists>d. OpenDirectMessage 9 10 1 2 False people3 = (Inr (scopedChannel 1 people3 d, False), people3) \<and> c_id d = 8 \<and> c_e2ee d"
proof -
  have "case OpenDirectMessage 2 8 2 1 True people1 of
          (Inr (ch, created), _) \<Rightarrow> ch_ID ch = 8 \<and> ch_E2EE ch \<and> created | _ \<Rightarrow> False" by code_simp
  then obtain ch where op: "OpenDirectMessage 2 8 2 1 True people1 = (Inr (ch, True), people2)" "ch_ID ch = 8" "ch_E2EE ch"
    unfolding people2_def by (auto split: prod.splits sum.splits)
  have "channels_inv people1" using run_rooms [OF people_runs(1) empty_rooms [OF people_empty]] .
  from OpenDirectMessage_idempotent [OF this op(1) people_runs(4), of 9 10 False] op(2,3) show ?thesis by auto
qed

lemma ChannelCursor_scoped: "ChannelCursor (scopedChannel uid db c) = channel_key c"
  by (simp add: ChannelCursor_def channel_key_def scopedChannel_def unscopedChannel_def)

lemma channel_pager:
  assumes "distinct (map c_id (channels db))"
  shows "keyset_pager (map (scopedChannel uid db) (sql_order channel_key (filter (\<lambda>c. IsChannelMember (c_id c) uid db) (channels db))))
    ChannelCursor (\<lambda>after n. ListChannelsForUser uid after n db)"
proof
  let ?rows = "filter (\<lambda>c. IsChannelMember (c_id c) uid db) (channels db)"
  have "distinct (map channel_key ?rows)" using assms by (auto simp: distinct_map channel_key_def inj_on_def)
  from sql_order_strict [OF this]
  show "sorted_wrt (\<lambda>a b. ChannelCursor a < ChannelCursor b) (map (scopedChannel uid db) (sql_order channel_key ?rows))"
    by (simp add: sorted_wrt_map ChannelCursor_scoped)
  have "past ChannelCursor after \<circ> scopedChannel uid db = past channel_key after" for after
    by (auto simp: past_def ChannelCursor_scoped split: option.splits)
  then show "ListChannelsForUser uid after n db =
      take n (filter (past ChannelCursor after) (map (scopedChannel uid db) (sql_order channel_key ?rows)))" for after n
    by (simp add: ListChannelsForUser_def channel_rows_def filter_map sql_order_filter take_map)
qed

text \<open>
  The sidebar is exact: a client that walks the pages of \<open>ListChannelsForUser\<close> gets each
  conversation it is a member of exactly once, in creation order, and no other; in each of them the
  mention badge counts a subset of the unread messages, and none of the caller's own.
\<close>

theorem ListChannelsForUser_exact:
  assumes "distinct (map c_id (channels db))" and "0 < limit" and "length (channels db) \<le> fuel"
  shows "let walk = keyset_walk (\<lambda>after n. ListChannelsForUser uid after n db) ChannelCursor (Suc fuel) None limit
    in distinct (map ch_ID walk) \<and> sorted (map ChannelCursor walk) \<and>
       ch_ID ` set walk = {i. i \<in> c_id ` set (channels db) \<and> IsChannelMember i uid db} \<and>
       (\<forall>ch \<in> set walk. ch_MentionCount ch \<le> ch_UnreadCount ch \<and>
          ch_UnreadCount ch \<le> length (filter (\<lambda>m. m_channel m = ch_ID ch \<and> m_author m \<noteq> uid) (messages db)))"
proof -
  define rows where "rows = filter (\<lambda>c. IsChannelMember (c_id c) uid db) (channels db)"
  note p = channel_pager [OF assms(1), of uid, folded rows_def]
  have "length rows \<le> fuel" using assms(3) length_filter_le [of _ "channels db"] unfolding rows_def by (rule order_trans [rotated])
  then have len: "length (map (scopedChannel uid db) (sql_order channel_key rows)) \<le> fuel" by (simp add: sql_order_def)
  have sub: "length (unread_messages i uid db) \<le> length (filter (\<lambda>m. m_channel m = i \<and> m_author m \<noteq> uid) (messages db))" for i
    unfolding unread_messages_def by (rule length_filter_mono) simp
  have id: "ch_ID \<circ> scopedChannel uid db = c_id" by (auto simp: scopedChannel_def unscopedChannel_def)
  have "map ChannelCursor (map (scopedChannel uid db) (sql_order channel_key rows)) = map channel_key (sql_order channel_key rows)"
    by (simp add: ChannelCursor_scoped)
  then have "sorted (map ChannelCursor (map (scopedChannel uid db) (sql_order channel_key rows)))"
    unfolding sql_order_def by (simp only: sorted_sort_key)
  moreover have "distinct (map ch_ID (map (scopedChannel uid db) (sql_order channel_key rows)))"
    using assms(1) by (simp add: id rows_def sql_order_def distinct_map inj_on_def)
  moreover have "ch_ID ` set (map (scopedChannel uid db) (sql_order channel_key rows)) = {i. i \<in> c_id ` set (channels db) \<and> IsChannelMember i uid db}"
    unfolding set_map image_comp id by (auto simp: rows_def)
  moreover have "\<forall>ch \<in> set (map (scopedChannel uid db) (sql_order channel_key rows)). ch_MentionCount ch \<le> ch_UnreadCount ch \<and>
      ch_UnreadCount ch \<le> length (filter (\<lambda>m. m_channel m = ch_ID ch \<and> m_author m \<noteq> uid) (messages db))"
    using sub by (auto simp: scopedChannel_def unscopedChannel_def)
  ultimately show ?thesis unfolding keyset_pager.walk_complete [OF p assms(2) len] Let_def by blast
qed

theorem ListChannelsForUser_exact_witness:
  "ch_ID ` set (keyset_walk (\<lambda>after n. ListChannelsForUser 1 after n people3) ChannelCursor 3 None 1)
     = {i. i \<in> {7, 8} \<and> IsChannelMember i 1 people3}"
proof -
  have "distinct (map c_id (channels people3)) \<and> length (channels people3) = 2 \<and> map c_id (channels people3) = [7, 8]" by code_simp
  moreover from this have "c_id ` set (channels people3) = {7, 8}" by (metis list.set(1,2) set_map)
  ultimately show ?thesis
    using ListChannelsForUser_exact [of people3 1 2 1] by (simp add: Let_def eval_nat_numeral)
qed

end
