(* ===== verification/Mentions.thy ===== *)
theory Mentions
  imports Prelude "HOL-Library.While_Combinator"
begin

text \<open>
  The mention parser, \<^verbatim>\<open>server/internal/storage/mentions.go\<close>. The loop of \<open>ParseMentions\<close> is the loop
  of the source: a position, the identifiers found so far, and the \<open>break\<close>. It is
  \<^const>\<open>while_option\<close>, so a loop that never ended would have no value.

  \<open>uuid.Parse\<close> is the parameter \<open>parse\<close>; the scan hands it 36 bytes, where it accepts the canonical
  form and nothing else. What the proofs use of that is \<open>canonical parse\<close>: an accepted text of 36 bytes has no \<open><\<close>.
\<close>

definition mentionPrefix :: string where "mentionPrefix = ''<@''"
definition mentionSuffix :: char where "mentionSuffix = CHR ''>''"
definition MentionTokenLen :: nat where "MentionTokenLen = length mentionPrefix + 36 + 1"

lemma token_len [simp]: "MentionTokenLen = 39"
  by (simp add: MentionTokenLen_def mentionPrefix_def)

text \<open>\<open>strings.Index\<close>: the first offset at which the substring starts.\<close>

fun strings_Index :: "string \<Rightarrow> string \<Rightarrow> nat option" where
  "strings_Index s sub =
     (if take (length sub) s = sub then Some 0
      else case s of [] \<Rightarrow> None | _ # t \<Rightarrow> map_option Suc (strings_Index t sub))"

declare strings_Index.simps [simp del]

definition mentionAt :: "(string \<Rightarrow> uuid option) \<Rightarrow> string \<Rightarrow> uuid option" where
  "mentionAt parse candidate =
     (if last candidate \<noteq> mentionSuffix then None
      else parse (take (length candidate - 1 - length mentionPrefix) (drop (length mentionPrefix) candidate)))"

record scan_state =
  pos :: nat
  found :: "uuid list"
  stop :: bool

definition scan_step :: "(string \<Rightarrow> uuid option) \<Rightarrow> string \<Rightarrow> scan_state \<Rightarrow> scan_state" where
  "scan_step parse content st =
     (case strings_Index (drop (pos st) content) mentionPrefix of
        None \<Rightarrow> st\<lparr>stop := True\<rparr>
      | Some offset \<Rightarrow>
          (let start = pos st + offset
           in if length content < start + MentionTokenLen then st\<lparr>stop := True\<rparr>
              else case mentionAt parse (take MentionTokenLen (drop start content)) of
                     None \<Rightarrow> st\<lparr>pos := start + length mentionPrefix\<rparr>
                   | Some i \<Rightarrow>
                       st\<lparr>pos := start + MentionTokenLen,
                          found := (if i \<in> set (found st) then found st else found st @ [i])\<rparr>))"

definition scan_loop :: "(string \<Rightarrow> uuid option) \<Rightarrow> string \<Rightarrow> scan_state option" where
  "scan_loop parse content =
     while_option (\<lambda>st. \<not> stop st \<and> pos st + MentionTokenLen \<le> length content) (scan_step parse content)
       \<lparr>pos = 0, found = [], stop = False\<rparr>"

definition ParseMentions :: "(string \<Rightarrow> uuid option) \<Rightarrow> string \<Rightarrow> uuid list" where
  "ParseMentions parse content = (case scan_loop parse content of None \<Rightarrow> [] | Some st \<Rightarrow> found st)"

record MessageMls =
  mm_Epoch :: int
  mm_Ciphertext :: bytes
  mm_Mentions :: "uuid list"

definition MentionsOf :: "(string \<Rightarrow> uuid option) \<Rightarrow> MessageMls option \<Rightarrow> string \<Rightarrow> uuid list" where
  "MentionsOf parse mls content =
     (case mls of Some e \<Rightarrow> mm_Mentions e | None \<Rightarrow> ParseMentions parse content)"

section \<open>The reference\<close>

text \<open>A token at a position, wherever the scan is; and the first occurrences of a list, in order.\<close>

definition token_at :: "(string \<Rightarrow> uuid option) \<Rightarrow> string \<Rightarrow> nat \<Rightarrow> uuid option" where
  "token_at parse s p =
     (if take 2 (drop p s) = mentionPrefix \<and> p + MentionTokenLen \<le> length s
      then mentionAt parse (take MentionTokenLen (drop p s)) else None)"

definition first_occurrences :: "'a list \<Rightarrow> 'a list" where
  "first_occurrences xs = fold (\<lambda>x acc. if x \<in> set acc then acc else acc @ [x]) xs []"

lemma first_occurrences_snoc:
  "first_occurrences (xs @ [x]) =
     (if x \<in> set (first_occurrences xs) then first_occurrences xs else first_occurrences xs @ [x])"
  by (simp add: first_occurrences_def)

lemma first_occurrences_Nil [simp]: "first_occurrences [] = []"
  by (simp add: first_occurrences_def)

lemma set_first_occurrences [simp]: "set (first_occurrences xs) = set xs"
  by (induction xs rule: rev_induct) (auto simp: first_occurrences_snoc)

lemma distinct_first_occurrences: "distinct (first_occurrences xs)"
  by (induction xs rule: rev_induct) (auto simp: first_occurrences_snoc)

definition tokens_before :: "(string \<Rightarrow> uuid option) \<Rightarrow> string \<Rightarrow> nat \<Rightarrow> uuid list" where
  "tokens_before parse s n = first_occurrences (List.map_filter (token_at parse s) [0..<n])"

definition canonical :: "(string \<Rightarrow> uuid option) \<Rightarrow> bool" where
  "canonical parse \<longleftrightarrow> (\<forall>t i. length t = 36 \<longrightarrow> parse t = Some i \<longrightarrow> CHR ''<'' \<notin> set t)"

lemma map_filter_append: "List.map_filter f (xs @ ys) = List.map_filter f xs @ List.map_filter f ys"
  by (simp add: List.map_filter_def)

text \<open>Positions without a token do not count.\<close>

lemma tokens_before_skip:
  assumes "\<And>p. i \<le> p \<Longrightarrow> p < j \<Longrightarrow> token_at parse s p = None" and "i \<le> j"
  shows "tokens_before parse s j = tokens_before parse s i"
proof -
  have "[0..<j] = [0..<i] @ [i..<j]" using assms(2) by (metis le_Suc_ex upt_add_eq_append zero_le)
  moreover have "List.map_filter (token_at parse s) [i..<j] = []"
    using assms(1) by (auto simp: List.map_filter_def filter_empty_conv)
  ultimately show ?thesis by (simp add: tokens_before_def map_filter_append)
qed

lemma tokens_before_Suc:
  "token_at parse s p = Some i \<Longrightarrow>
     tokens_before parse s (Suc p) =
       (if i \<in> set (tokens_before parse s p) then tokens_before parse s p else tokens_before parse s p @ [i])"
  by (simp add: tokens_before_def map_filter_append List.map_filter_simps first_occurrences_snoc)

section \<open>One round of the loop\<close>

lemma Index_None: "strings_Index s sub = None \<Longrightarrow> take (length sub) (drop p s) \<noteq> sub"
proof (induction s sub arbitrary: p rule: strings_Index.induct)
  case (1 s sub)
  from "1.prems" have h: "take (length sub) s \<noteq> sub" by (subst (asm) strings_Index.simps) (auto split: if_splits)
  show ?case
  proof (cases s)
    case Nil
    with h show ?thesis by simp
  next
    case (Cons c t)
    with "1.prems" h have n: "strings_Index t sub = None" by (subst (asm) strings_Index.simps) simp
    show ?thesis
    proof (cases p)
      case (Suc q)
      with "1.IH" [OF h Cons n, of q] Cons show ?thesis by simp
    qed (use h in simp)
  qed
qed

lemma Index_Some:
  "strings_Index s sub = Some off \<Longrightarrow>
     take (length sub) (drop off s) = sub \<and> (\<forall>p < off. take (length sub) (drop p s) \<noteq> sub)"
proof (induction s sub arbitrary: off rule: strings_Index.induct)
  case (1 s sub)
  show ?case
  proof (cases "take (length sub) s = sub")
    case True
    with "1.prems" have "off = 0" by (subst (asm) strings_Index.simps) simp
    with True show ?thesis by simp
  next
    case False
    with "1.prems" obtain c t o1 where t: "s = c # t" "strings_Index t sub = Some o1" "off = Suc o1"
      by (subst (asm) strings_Index.simps) (auto split: list.splits)
    from "1.IH" [OF False t(1,2)] have a: "take (length sub) (drop o1 t) = sub" "\<forall>p < o1. take (length sub) (drop p t) \<noteq> sub"
      by auto
    have "take (length sub) (drop p s) \<noteq> sub" if "p < off" for p
      using that False a(2) t by (cases p) auto
    with a(1) t show ?thesis by simp
  qed
qed

text \<open>No token starts at the \<open>@\<close> of a prefix.\<close>

lemma no_token_at_sign:
  assumes "take 2 (drop p s) = mentionPrefix"
  shows "token_at parse s (Suc p) = None"
proof -
  from assms obtain r where "drop p s = CHR ''<'' # CHR ''@'' # r"
    by (cases "drop p s"; cases "tl (drop p s)") (auto simp: mentionPrefix_def)
  then have "drop (Suc p) s = CHR ''@'' # r" by (metis drop_Suc list.sel(3) tl_drop)
  then show ?thesis by (simp add: token_at_def mentionPrefix_def numeral_2_eq_2)
qed

text \<open>No token starts inside another.\<close>

lemma no_token_inside:
  assumes can: "canonical parse" and tok: "token_at parse s p = Some i" and q: "p < q" "q < p + MentionTokenLen"
  shows "token_at parse s q = None"
proof (cases "q = Suc p")
  case True
  moreover have "take 2 (drop p s) = mentionPrefix" using tok by (auto simp: token_at_def split: if_splits)
  ultimately show ?thesis by (simp add: no_token_at_sign)
next
  case False
  define t where "t = take 39 (drop p s)"
  have len: "length t = 39" "p + 39 \<le> length s" using tok by (auto simp: token_at_def t_def split: if_splits)
  have t: "mentionAt parse t = Some i" using tok by (auto simp: token_at_def t_def split: if_splits)
  then have last: "last t = CHR ''>''" and "parse (take 36 (drop 2 t)) = Some i"
    using len by (auto simp: mentionAt_def mentionSuffix_def mentionPrefix_def numeral_2_eq_2 split: if_splits)
  moreover have "length (take 36 (drop 2 t)) = 36" using len(1) by simp
  ultimately have body: "CHR ''<'' \<notin> set (take 36 (drop 2 t))" using can unfolding canonical_def by blast
  have "s ! q = t ! (q - p)" using q len by (simp add: t_def)
  moreover have "t ! (q - p) \<noteq> CHR ''<''"
  proof (cases "q - p = 38")
    case True
    have "last t = t ! 38" using len(1) by (subst last_conv_nth) auto
    with True last show ?thesis by simp
  next
    case False
    then obtain k where k: "q - p = 2 + k" "k < 36" using q \<open>q \<noteq> Suc p\<close> by (intro that [of "q - p - 2"]) auto
    then have "t ! (q - p) = take 36 (drop 2 t) ! k" "k < length (take 36 (drop 2 t))" using len(1) by auto
    with body show ?thesis by (metis nth_mem)
  qed
  ultimately have "take 2 (drop q s) \<noteq> mentionPrefix"
    using q len by (auto simp: mentionPrefix_def take_Suc_conv_app_nth numeral_2_eq_2 Cons_nth_drop_Suc [symmetric])
  then show ?thesis by (simp add: token_at_def)
qed

text \<open>The loop invariant: everything before the position is accounted for.\<close>

definition scanned :: "(string \<Rightarrow> uuid option) \<Rightarrow> string \<Rightarrow> scan_state \<Rightarrow> bool" where
  "scanned parse s st \<longleftrightarrow> pos st \<le> length s \<and> found st = tokens_before parse s (pos st) \<and>
     (stop st \<longrightarrow> (\<forall>p. pos st \<le> p \<longrightarrow> token_at parse s p = None))"

definition scan_measure :: "string \<Rightarrow> scan_state \<Rightarrow> nat" where
  "scan_measure s st = (if stop st then 0 else Suc (length s - pos st))"

lemma no_token_before_Index:
  assumes "\<forall>q < off. take 2 (drop q (drop i s)) \<noteq> mentionPrefix" and "i \<le> p" and "p < i + off"
  shows "token_at parse s p = None"
proof -
  have "p - i < off" using assms(2,3) by simp
  then have "take 2 (drop (p - i) (drop i s)) \<noteq> mentionPrefix" using assms(1) by blast
  with assms(2) show ?thesis by (simp add: token_at_def)
qed

lemma scan_step_ok:
  assumes can: "canonical parse" and inv: "scanned parse s st" and go: "\<not> stop st" "pos st + MentionTokenLen \<le> length s"
  shows "scanned parse s (scan_step parse s st) \<and> scan_measure s (scan_step parse s st) < scan_measure s st"
proof (cases "strings_Index (drop (pos st) s) mentionPrefix")
  case None
  have "token_at parse s p = None" if "pos st \<le> p" for p
    using Index_None [OF None, of "p - pos st"] that by (simp add: token_at_def mentionPrefix_def numeral_2_eq_2)
  with None inv go show ?thesis by (simp add: scan_step_def scanned_def scan_measure_def)
next
  case (Some off)
  have two: "length mentionPrefix = 2" by (simp add: mentionPrefix_def)
  note ix = Index_Some [OF Some, unfolded two]
  let ?start = "pos st + off"
  have gap: "token_at parse s p = None" if "pos st \<le> p" "p < ?start" for p
    using no_token_before_Index [of off "pos st" s p] ix that by blast
  have at: "take 2 (drop ?start s) = mentionPrefix" using ix by (simp add: add.commute)
  have found: "found st = tokens_before parse s ?start"
    using inv tokens_before_skip [of "pos st" ?start] gap by (simp add: scanned_def)
  show ?thesis
  proof (cases "length s < ?start + MentionTokenLen")
    case True
    then have "token_at parse s p = None" if "pos st \<le> p" for p
      using gap [OF that] by (cases "p < ?start") (auto simp: token_at_def)
    with True Some inv go show ?thesis by (simp add: scan_step_def scanned_def scan_measure_def Let_def)
  next
    case False
    show ?thesis
    proof (cases "mentionAt parse (take MentionTokenLen (drop ?start s))")
      case None
      have "token_at parse s p = None" if "?start \<le> p" "p < ?start + 2" for p
      proof (cases "p = ?start")
        case True
        with None show ?thesis by (simp add: token_at_def)
      next
        case False
        with that have "p = Suc ?start" by simp
        then show ?thesis using no_token_at_sign [OF at] by simp
      qed
      then have "tokens_before parse s (?start + 2) = tokens_before parse s ?start"
        by (intro tokens_before_skip) auto
      with None Some False found go two show ?thesis
        by (simp add: scan_step_def scanned_def scan_measure_def Let_def)
    next
      case (Some i)
      have tok: "token_at parse s ?start = Some i" using Some False at by (simp add: token_at_def)
      have "tokens_before parse s (?start + MentionTokenLen) = tokens_before parse s (Suc ?start)"
        using no_token_inside [OF can tok] by (intro tokens_before_skip) auto
      with \<open>strings_Index (drop (pos st) s) mentionPrefix = Some off\<close> Some False found go tokens_before_Suc [OF tok]
      show ?thesis by (simp add: scan_step_def scanned_def scan_measure_def Let_def)
    qed
  qed
qed

section \<open>Properties\<close>

text \<open>
  C31. The mention scan always ends, on every content, however adversarial; and it finds exactly the
  mention tokens of the content: the identifiers of all well-formed tokens (an at sign and an identifier in angle brackets), at whatever
  position they stand, each once, in the order in which they first appear. Skipping past what it
  rejected never skips a token. All this as long as \<open>uuid.Parse\<close> accepts no text of 36 bytes with a \<open><\<close> in it.
\<close>

theorem ParseMentions_exact:
  assumes "canonical parse"
  shows "\<exists>st. scan_loop parse content = Some st \<and>
     ParseMentions parse content =
       first_occurrences (List.map_filter (token_at parse content) [0..<length content])"
proof -
  let ?b = "\<lambda>st. \<not> stop st \<and> pos st + MentionTokenLen \<le> length content"
  let ?init = "\<lparr>pos = 0, found = [], stop = False\<rparr>"
  have init: "scanned parse content ?init" by (simp add: scanned_def tokens_before_def List.map_filter_simps)
  have step: "scanned parse content st \<Longrightarrow> ?b st \<Longrightarrow>
      scanned parse content (scan_step parse content st) \<and>
      scan_measure content (scan_step parse content st) < scan_measure content st" for st
    using scan_step_ok [OF assms] by blast
  obtain st where st: "scan_loop parse content = Some st"
    using measure_while_option_Some [where P = "scanned parse content" and f = "scan_measure content" and b = ?b
        and c = "scan_step parse content" and s = ?init] step init
    unfolding scan_loop_def by blast
  have inv: "scanned parse content st"
  proof (rule while_option_rule [where P = "scanned parse content"])
    show "while_option ?b (scan_step parse content) ?init = Some st" using st unfolding scan_loop_def .
  qed (use step init in blast)+
  have "\<not> ?b st" using while_option_stop [OF st [unfolded scan_loop_def]] .
  then have "token_at parse content p = None" if "pos st \<le> p" for p
    using inv that by (cases "stop st") (auto simp: scanned_def token_at_def)
  then have "tokens_before parse content (length content) = tokens_before parse content (pos st)"
    using inv by (intro tokens_before_skip) (auto simp: scanned_def)
  with st inv show ?thesis by (auto simp: ParseMentions_def scanned_def tokens_before_def)
qed

definition demo_parse :: "string \<Rightarrow> uuid option" where
  "demo_parse t = (if CHR ''<'' \<in> set t then None else Some (length (takeWhile (\<lambda>c. c = CHR ''a'') t)))"

definition demo_mention :: "nat \<Rightarrow> string" where
  "demo_mention n = ''<@'' @ replicate n CHR ''a'' @ replicate (36 - n) CHR ''b'' @ ''>''"

theorem ParseMentions_exact_witness:
  "canonical demo_parse \<and>
   ParseMentions demo_parse (''<@<@'' @ demo_mention 7 @ '' '' @ demo_mention 3 @ demo_mention 7) = [7, 3] \<and>
   first_occurrences (List.map_filter (token_at demo_parse (''<@<@'' @ demo_mention 7 @ '' '' @ demo_mention 3 @ demo_mention 7))
     [0..<length (''<@<@'' @ demo_mention 7 @ '' '' @ demo_mention 3 @ demo_mention 7)]) = [7, 3]"
proof -
  have can: "canonical demo_parse" by (auto simp: canonical_def demo_parse_def split: if_splits)
  have "ParseMentions demo_parse (''<@<@'' @ demo_mention 7 @ '' '' @ demo_mention 3 @ demo_mention 7) = [7, 3]"
    by code_simp
  with can ParseMentions_exact [OF can, of "''<@<@'' @ demo_mention 7 @ '' '' @ demo_mention 3 @ demo_mention 7"]
  show ?thesis by simp
qed

end
