(* ===== verification/Message_Store.thy ===== *)
theory Message_Store
  imports Channel_Store Mentions "HOL-Library.Multiset"
begin

text \<open>
  Messages, \<^verbatim>\<open>server/internal/storage/messages.go\<close>, \<^verbatim>\<open>attachments.go\<close>, \<^verbatim>\<open>linkpreviews.go\<close> and
  \<^verbatim>\<open>readpositions.go\<close>: sending with an idempotency key, editing, soft deletion, pages of history, files,
  preview cards and read positions.

  \<open>CreateMessage\<close> is several statements: between a failed insert and the lookup that follows it, other
  transactions may run. They are the argument \<open>mid\<close>, what the rest of the system does to the database
  before the lookup of the attempt. Everything else is one transaction.
\<close>

section \<open>What the queries return\<close>

record MessageAuthor =
  ma_ID :: uuid
  ma_Username :: string
  ma_DisplayName :: string

record Attachment =
  a_ID :: uuid
  a_ChannelID :: uuid
  a_UploaderID :: uuid
  a_MessageID :: "uuid option"
  a_Filename :: string
  a_ContentType :: string
  a_SizeBytes :: int
  a_Dims :: "(int \<times> int) option"
  a_HasThumbnail :: bool
  a_CreatedAt :: instant

record LinkPreview =
  l_MessageID :: uuid
  l_URL :: string
  l_Title :: string
  l_Description :: string
  l_ImageBlobID :: uuid
  l_FetchedAt :: instant

record Message =
  ms_ID :: uuid
  ms_ChannelID :: uuid
  ms_Author :: MessageAuthor
  ms_ClientMsgID :: uuid
  ms_Content :: string
  ms_CreatedAt :: instant
  ms_EditedAt :: "instant option"
  ms_DeletedAt :: "instant option"
  ms_Attachments :: "Attachment list"
  ms_Preview :: "LinkPreview option"
  ms_Mls :: "MessageMls option"

record NewMessage =
  nm_ChannelID :: uuid
  nm_AuthorID :: uuid
  nm_ClientMsgID :: uuid
  nm_Content :: string
  nm_AttachmentIDs :: "uuid list"
  nm_Mls :: "MessageMls option"

text \<open>\<open>scanMessage\<close> of a row joined with its author; a read never fills the declared mentions.\<close>

definition scanMessage :: "db \<Rightarrow> message_row \<Rightarrow> Message option" where
  "scanMessage db m =
     map_option (\<lambda>u. \<lparr>ms_ID = m_id m, ms_ChannelID = m_channel m,
       ms_Author = \<lparr>ma_ID = u_id u, ma_Username = u_username u, ma_DisplayName = u_display_name u\<rparr>,
       ms_ClientMsgID = m_client m, ms_Content = m_content m, ms_CreatedAt = m_created m,
       ms_EditedAt = m_edited m, ms_DeletedAt = m_deleted m, ms_Attachments = [], ms_Preview = None,
       ms_Mls = map_option (\<lambda>(e, c). \<lparr>mm_Epoch = e, mm_Ciphertext = c, mm_Mentions = []\<rparr>) (m_mls m)\<rparr>)
     (sql_row (\<lambda>u. u_id u = m_author m) (users db))"

definition scanAttachment :: "attachment_row \<Rightarrow> Attachment" where
  "scanAttachment a = \<lparr>a_ID = at_id a, a_ChannelID = at_channel a, a_UploaderID = at_uploader a,
     a_MessageID = at_message a, a_Filename = at_filename a, a_ContentType = at_content_type a,
     a_SizeBytes = at_size a, a_Dims = at_dims a, a_HasThumbnail = at_thumbnail a, a_CreatedAt = at_created a\<rparr>"

fun mapMissingReference :: "store_error \<Rightarrow> store_error" where
  "mapMissingReference ForeignKeyViolation = ErrNotFound"
| "mapMissingReference (ForeignKeyViolationOf c) = ErrNotFound"
| "mapMissingReference e = e"

section \<open>Files\<close>

record NewAttachment =
  na_ID :: uuid
  na_ChannelID :: uuid
  na_UploaderID :: uuid
  na_Filename :: string
  na_ContentType :: string
  na_SizeBytes :: int
  na_Width :: "int option"
  na_Height :: "int option"
  na_HasThumbnail :: bool

text \<open>
  The INSERT with its constraints (migrations 0007 and 0020). The two dimensions are NULL together or
  not at all, so the row holds them as one optional pair.
\<close>

definition create_attachment_body :: "instant \<Rightarrow> NewAttachment \<Rightarrow> (db, Attachment) tx" where
  "create_attachment_body now na db =
     (let row = \<lparr>at_id = na_ID na, at_channel = na_ChannelID na, at_uploader = na_UploaderID na, at_message = None,
            at_position = None, at_filename = na_Filename na, at_content_type = na_ContentType na,
            at_size = na_SizeBytes na,
            at_dims = (case na_Width na of None \<Rightarrow> None | Some w \<Rightarrow>
                        (case na_Height na of None \<Rightarrow> None | Some h \<Rightarrow> Some (w, h))),
            at_thumbnail = na_HasThumbnail na, at_created = now\<rparr>
      in if char_length (na_Filename na) < 1 \<or> 255 < char_length (na_Filename na)
          \<or> char_length (na_ContentType na) < 1 \<or> 255 < char_length (na_ContentType na) \<or> na_SizeBytes na < 0
          \<or> (case na_Width na of None \<Rightarrow> False | Some w \<Rightarrow> w \<le> 0)
          \<or> (case na_Height na of None \<Rightarrow> False | Some h \<Rightarrow> h \<le> 0)
          \<or> (na_Width na = None) \<noteq> (na_Height na = None)
         then Inl CheckViolation
         else if sql_exists (\<lambda>a. at_id a = na_ID na) (attachments db) then Inl (UniqueViolationOf ''attachments_pkey'')
         else if \<not> sql_exists (\<lambda>c. c_id c = na_ChannelID na) (channels db)
         then Inl (mapMissingReference (ForeignKeyViolationOf ''attachments_channel_id_fkey''))
         else if \<not> sql_exists (\<lambda>u. u_id u = na_UploaderID na) (users db)
         then Inl (mapMissingReference (ForeignKeyViolationOf ''attachments_uploader_id_fkey''))
         else Inr (scanAttachment row, db\<lparr>attachments := sql_insert row (attachments db)\<rparr>))"

definition CreateAttachment :: "instant \<Rightarrow> NewAttachment \<Rightarrow> db \<Rightarrow> (store_error + Attachment) \<times> db" where
  "CreateAttachment now na = begin_func (create_attachment_body now na)"

definition AttachmentByID :: "uuid \<Rightarrow> db \<Rightarrow> store_error + Attachment" where
  "AttachmentByID i db =
     (case sql_row (\<lambda>a. at_id a = i) (attachments db) of None \<Rightarrow> Inl ErrNotFound | Some a \<Rightarrow> Inr (scanAttachment a))"

text \<open>
  \<open>AttachmentsByMessages\<close>: the rows of a page arrive ordered by message and then by position, and the Go
  map groups them by message; so a message's entry is its rows in position order. A row with a message
  has a position (\<open>attachments_position_shape\<close>).
\<close>

definition card_position :: "attachment_row \<Rightarrow> int" where
  "card_position a = (case at_position a of None \<Rightarrow> 0 | Some p \<Rightarrow> p)"

definition AttachmentsByMessages :: "uuid list \<Rightarrow> db \<Rightarrow> uuid \<Rightarrow> Attachment list" where
  "AttachmentsByMessages messageIDs db msgID =
     (if msgID \<in> set messageIDs
      then map scanAttachment (sql_order card_position (filter (\<lambda>a. at_message a = Some msgID) (attachments db)))
      else [])"

definition SweepOrphanAttachments :: "instant \<Rightarrow> duration \<Rightarrow> db \<Rightarrow> uuid list \<times> db" where
  "SweepOrphanAttachments wall age db =
     (let P = (\<lambda>a. at_message a = None \<and> at_created a < wall - age)
      in (map at_id (filter P (attachments db)), db\<lparr>attachments := sql_delete P (attachments db)\<rparr>))"

section \<open>Preview cards\<close>

text \<open>\<open>nullableText\<close> and \<open>nullableUUID\<close>: empty is NULL. \<open>uuid.Nil\<close> is zero.\<close>

definition nullableText :: "string \<Rightarrow> string option" where
  "nullableText s = (if s = [] then None else Some s)"

definition nullableUUID :: "uuid \<Rightarrow> uuid option" where
  "nullableUUID i = (if i = 0 then None else Some i)"

definition save_preview_body :: "instant \<Rightarrow> LinkPreview \<Rightarrow> (db, unit) tx" where
  "save_preview_body now p db =
     (let row = \<lparr>lp_message = l_MessageID p, lp_url = l_URL p, lp_title = nullableText (l_Title p),
            lp_description = nullableText (l_Description p), lp_image = nullableUUID (l_ImageBlobID p), lp_fetched = now\<rparr>
      in if char_length (l_URL p) < 1 \<or> 2048 < char_length (l_URL p)
          \<or> l_Title p \<noteq> [] \<and> (char_length (l_Title p) < 1 \<or> 200 < char_length (l_Title p))
          \<or> l_Description p \<noteq> [] \<and> (char_length (l_Description p) < 1 \<or> 500 < char_length (l_Description p))
         then Inl CheckViolation
         else if sql_exists (\<lambda>r. lp_message r = l_MessageID p) (link_previews db)
         then Inr ((), db\<lparr>link_previews := sql_update (\<lambda>r. lp_message r = l_MessageID p) (\<lambda>_. row) (link_previews db)\<rparr>)
         else if \<not> sql_exists (\<lambda>m. m_id m = l_MessageID p) (messages db) then Inl (mapMissingReference ForeignKeyViolation)
         else Inr ((), db\<lparr>link_previews := sql_insert row (link_previews db)\<rparr>))"

definition SaveLinkPreview :: "instant \<Rightarrow> LinkPreview \<Rightarrow> db \<Rightarrow> (store_error + unit) \<times> db" where
  "SaveLinkPreview now p = begin_func (save_preview_body now p)"

definition DeleteLinkPreview :: "uuid \<Rightarrow> db \<Rightarrow> bool \<times> db" where
  "DeleteLinkPreview msgID db =
     (sql_exists (\<lambda>r. lp_message r = msgID) (link_previews db),
      db\<lparr>link_previews := sql_delete (\<lambda>r. lp_message r = msgID) (link_previews db)\<rparr>)"

definition scan_preview :: "preview_row \<Rightarrow> LinkPreview" where
  "scan_preview r = \<lparr>l_MessageID = lp_message r, l_URL = lp_url r,
     l_Title = (case lp_title r of None \<Rightarrow> [] | Some t \<Rightarrow> t),
     l_Description = (case lp_description r of None \<Rightarrow> [] | Some t \<Rightarrow> t),
     l_ImageBlobID = (case lp_image r of None \<Rightarrow> 0 | Some i \<Rightarrow> i), l_FetchedAt = lp_fetched r\<rparr>"

definition LinkPreviewsByMessage :: "uuid list \<Rightarrow> db \<Rightarrow> uuid \<Rightarrow> LinkPreview option" where
  "LinkPreviewsByMessage messageIDs db msgID =
     (if msgID \<in> set messageIDs then map_option scan_preview (sql_row (\<lambda>r. lp_message r = msgID) (link_previews db))
      else None)"

definition LinkPreviewImageExists :: "uuid \<Rightarrow> db \<Rightarrow> bool" where
  "LinkPreviewImageExists blobID db = sql_exists (\<lambda>r. lp_image r = Some blobID) (link_previews db)"

definition loadAttachments :: "db \<Rightarrow> Message list \<Rightarrow> Message list" where
  "loadAttachments db msgs =
     map (\<lambda>m. m\<lparr>ms_Attachments := AttachmentsByMessages (map ms_ID msgs) db (ms_ID m)\<rparr>) msgs"

definition loadMessageCards :: "db \<Rightarrow> Message list \<Rightarrow> Message list" where
  "loadMessageCards db msgs =
     (let ids = map ms_ID msgs
      in map (\<lambda>m. case LinkPreviewsByMessage ids db (ms_ID m) of None \<Rightarrow> m | Some p \<Rightarrow> m\<lparr>ms_Preview := Some p\<rparr>)
           (loadAttachments db msgs))"

section \<open>Sending\<close>

definition mls_columns :: "MessageMls option \<Rightarrow> (int \<times> bytes) option" where
  "mls_columns mls = map_option (\<lambda>e. (mm_Epoch e, mm_Ciphertext e)) mls"

text \<open>\<open>messages_content_shape\<close> and \<open>messages_deleted_by_shape\<close> (migrations 0003 and 0007).\<close>

definition message_checks :: "message_row \<Rightarrow> bool" where
  "message_checks m \<longleftrightarrow> (if m_deleted m = None then char_length (m_content m) \<le> 4000 else m_content m = []) \<and>
     (m_deleted_by m = None \<or> m_deleted m \<noteq> None)"

definition new_message_row :: "instant \<Rightarrow> uuid \<Rightarrow> NewMessage \<Rightarrow> message_row" where
  "new_message_row now newID nm =
     \<lparr>m_id = newID, m_channel = nm_ChannelID nm, m_author = nm_AuthorID nm, m_client = nm_ClientMsgID nm,
      m_content = nm_Content nm, m_created = now, m_edited = None, m_deleted = None, m_deleted_by = None,
      m_mls = mls_columns (nm_Mls nm)\<rparr>"

definition same_key :: "NewMessage \<Rightarrow> message_row \<Rightarrow> bool" where
  "same_key nm m \<longleftrightarrow> m_channel m = nm_ChannelID nm \<and> m_author m = nm_AuthorID nm \<and> m_client m = nm_ClientMsgID nm"

text \<open>The \<open>mentioned\<close> half of the statement: the members of the channel among the mentioned.\<close>

definition mention_rows :: "uuid \<Rightarrow> uuid \<Rightarrow> uuid list \<Rightarrow> db \<Rightarrow> mention_row list" where
  "mention_rows msgID ch mentioned db =
     map (\<lambda>m. \<lparr>mn_message = msgID, mn_user = cm_user m\<rparr>)
       (filter (\<lambda>m. cm_channel m = ch \<and> cm_user m \<in> set mentioned) (channel_members db))"

definition insert_message :: "instant \<Rightarrow> uuid \<Rightarrow> NewMessage \<Rightarrow> uuid list \<Rightarrow> (db, Message) tx" where
  "insert_message now newID nm mentioned db =
     (let row = new_message_row now newID nm
      in if \<not> message_checks row then Inl CheckViolation
         else if sql_exists (same_key nm) (messages db) then Inl ErrNotFound
         else if sql_exists (\<lambda>m. m_id m = newID) (messages db) then Inl (UniqueViolationOf ''messages_pkey'')
         else if \<not> sql_exists (\<lambda>c. c_id c = nm_ChannelID nm) (channels db) then Inl (ForeignKeyViolationOf ''messages_channel_id_fkey'')
         else if \<not> sql_exists (\<lambda>u. u_id u = nm_AuthorID nm) (users db) then Inl (ForeignKeyViolationOf ''messages_author_id_fkey'')
         else (case scanMessage db row of
                 None \<Rightarrow> Inl ErrNotFound
               | Some msg \<Rightarrow> Inr (msg, db\<lparr>messages := sql_insert row (messages db),
                   message_mentions := message_mentions db @ mention_rows newID (nm_ChannelID nm) mentioned db\<rparr>)))"

text \<open>\<open>slices.Index\<close> of an identifier, and \<open>array_position\<close> less one.\<close>

fun index_of :: "'a \<Rightarrow> 'a list \<Rightarrow> nat" where
  "index_of x [] = 0"
| "index_of x (y # ys) = (if x = y then 0 else Suc (index_of x ys))"

definition claimable :: "NewMessage \<Rightarrow> attachment_row \<Rightarrow> bool" where
  "claimable nm a \<longleftrightarrow> at_id a \<in> set (nm_AttachmentIDs nm) \<and> at_channel a = nm_ChannelID nm \<and>
     at_uploader a = nm_AuthorID nm \<and> at_message a = None"

definition claim_row :: "uuid \<Rightarrow> NewMessage \<Rightarrow> attachment_row \<Rightarrow> attachment_row" where
  "claim_row msgID nm a =
     a\<lparr>at_message := Some msgID, at_position := Some (int (index_of (at_id a) (nm_AttachmentIDs nm)))\<rparr>"

definition claimAttachments :: "uuid \<Rightarrow> NewMessage \<Rightarrow> (db, Attachment list) tx" where
  "claimAttachments msgID nm db =
     (let claimed = map (scanAttachment \<circ> claim_row msgID nm) (filter (claimable nm) (attachments db))
      in if length claimed \<noteq> length (nm_AttachmentIDs nm) then Inl ErrAttachmentNotFound
         else Inr (sort_key (\<lambda>a. index_of (a_ID a) (nm_AttachmentIDs nm)) claimed,
                   db\<lparr>attachments := sql_update (claimable nm) (claim_row msgID nm) (attachments db)\<rparr>))"

definition insertMessage :: "instant \<Rightarrow> uuid \<Rightarrow> NewMessage \<Rightarrow> uuid list \<Rightarrow> (db, Message) tx" where
  "insertMessage now newID nm mentioned db =
     (case insert_message now newID nm mentioned db of
        Inl e \<Rightarrow> Inl e
      | Inr (msg, db1) \<Rightarrow>
          if nm_AttachmentIDs nm = [] then Inr (msg, db1)
          else (case claimAttachments (ms_ID msg) nm db1 of
                  Inl e \<Rightarrow> Inl e
                | Inr (files, db2) \<Rightarrow> Inr (msg\<lparr>ms_Attachments := files\<rparr>, db2)))"

definition messageByKey :: "NewMessage \<Rightarrow> db \<Rightarrow> store_error + Message" where
  "messageByKey nm db =
     (case sql_row (same_key nm) (messages db) of
        None \<Rightarrow> Inl ErrNotFound
      | Some m \<Rightarrow>
          (case scanMessage db m of None \<Rightarrow> Inl ErrNotFound | Some msg \<Rightarrow> Inr (hd (loadMessageCards db [msg]))))"

definition sendAttempts :: nat where "sendAttempts = 3"

fun send_loop ::
  "nat \<Rightarrow> (nat \<Rightarrow> db \<Rightarrow> db) \<Rightarrow> (nat \<Rightarrow> instant) \<Rightarrow> (nat \<Rightarrow> uuid) \<Rightarrow> NewMessage \<Rightarrow> uuid list \<Rightarrow> db \<Rightarrow>
   (store_error + Message \<times> bool) \<times> db" where
  "send_loop 0 mid clock ids nm mentioned db = (Inl (ErrOther ''idempotency key still contended''), db)"
| "send_loop (Suc n) mid clock ids nm mentioned db =
     (case begin_func (insertMessage (clock n) (ids n) nm mentioned) db of
        (Inr msg, db1) \<Rightarrow> (Inr (msg, True), db1)
      | (Inl e, db1) \<Rightarrow>
          if e \<noteq> ErrNotFound then (Inl (mapMissingReference e), db1)
          else
            (let db2 = mid n db1
             in case messageByKey nm db2 of
                  Inr existing \<Rightarrow> (Inr (existing, False), db2)
                | Inl e2 \<Rightarrow> if e2 \<noteq> ErrNotFound then (Inl e2, db2)
                            else send_loop n mid clock ids nm mentioned db2))"

definition CreateMessage ::
  "(string \<Rightarrow> uuid option) \<Rightarrow> (nat \<Rightarrow> db \<Rightarrow> db) \<Rightarrow> (nat \<Rightarrow> instant) \<Rightarrow> (nat \<Rightarrow> uuid) \<Rightarrow> NewMessage \<Rightarrow> db \<Rightarrow>
   (store_error + Message \<times> bool) \<times> db" where
  "CreateMessage parse mid clock ids nm db =
     (if nm_Content nm = [] \<and> nm_AttachmentIDs nm = [] \<and> nm_Mls nm = None then (Inl ErrEmptyMessage, db)
      else send_loop sendAttempts mid clock ids nm (MentionsOf parse (nm_Mls nm) (nm_Content nm)) db)"

section \<open>Reading one, editing, deleting\<close>

definition MessageByID :: "uuid \<Rightarrow> uuid \<Rightarrow> db \<Rightarrow> store_error + Message" where
  "MessageByID ch msgID db =
     (case sql_row (\<lambda>m. m_channel m = ch \<and> m_id m = msgID) (messages db) of
        None \<Rightarrow> Inl ErrNotFound
      | Some m \<Rightarrow> (case scanMessage db m of None \<Rightarrow> Inl ErrNotFound | Some msg \<Rightarrow> Inr msg))"

definition editable :: "uuid \<Rightarrow> uuid \<Rightarrow> message_row \<Rightarrow> bool" where
  "editable ch msgID m \<longleftrightarrow> m_channel m = ch \<and> m_id m = msgID \<and> m_deleted m = None"

text \<open>
  The three writes of \<open>updateMessageQuery\<close> are one statement, and its parts read the snapshot it began
  with. The \<open>UPDATE\<close> waits for the row of the message and goes on with its newest version, but a statement
  that had to wait behind another edit still looks for mentions and members in that first snapshot. A
  snapshot is what can differ of it from the state the statement writes to: the mentions of the message
  it does not hold because they were committed while it waited, and the members of the channel it shows.
  Its \<open>DELETE\<close> drops the rows the snapshot holds that name nobody the edit mentions; its \<open>INSERT\<close> adds the
  mentioned members of the snapshot, where no row stands in the way. \<open>snapshot_now\<close> is the snapshot of a
  statement nothing overtook.
\<close>

record edit_snapshot =
  es_missed :: "uuid list"
  es_members :: "uuid list"

definition snapshot_now :: "uuid \<Rightarrow> db \<Rightarrow> edit_snapshot" where
  "snapshot_now ch db = \<lparr>es_missed = [], es_members = map cm_user (filter (\<lambda>m. cm_channel m = ch) (channel_members db))\<rparr>"

definition edit_mentions :: "edit_snapshot \<Rightarrow> uuid \<Rightarrow> uuid list \<Rightarrow> db \<Rightarrow> mention_row list" where
  "edit_mentions snap msgID mentioned db =
     sql_delete (\<lambda>r. mn_message r = msgID \<and> mn_user r \<notin> set mentioned \<and> mn_user r \<notin> set (es_missed snap)) (message_mentions db) @
     filter (\<lambda>r. r \<notin> set (message_mentions db))
       (map (\<lambda>u. \<lparr>mn_message = msgID, mn_user = u\<rparr>) (filter (\<lambda>u. u \<in> set mentioned) (es_members snap)))"

definition update_message_body ::
  "(string \<Rightarrow> uuid option) \<Rightarrow> edit_snapshot \<Rightarrow> instant \<Rightarrow> uuid \<Rightarrow> uuid \<Rightarrow> string \<Rightarrow> MessageMls option \<Rightarrow> (db, Message) tx" where
  "update_message_body parse snap now ch msgID content mls db =
     (case sql_row (editable ch msgID) (messages db) of
        None \<Rightarrow> Inl ErrNotFound
      | Some m \<Rightarrow>
          if 4000 < char_length content then Inl CheckViolation
          else
            (let f = (\<lambda>m. m\<lparr>m_content := content, m_mls := mls_columns mls, m_edited := Some now\<rparr>);
                 db1 = db\<lparr>messages := sql_update (editable ch msgID) f (messages db),
                          message_mentions := edit_mentions snap msgID (MentionsOf parse mls content) db\<rparr>
             in case scanMessage db1 (f m) of
                  None \<Rightarrow> Inl ErrNotFound
                | Some msg \<Rightarrow> Inr (hd (loadMessageCards db1 [msg]), db1)))"

definition UpdateMessageContent ::
  "(string \<Rightarrow> uuid option) \<Rightarrow> edit_snapshot \<Rightarrow> instant \<Rightarrow> uuid \<Rightarrow> uuid \<Rightarrow> string \<Rightarrow> MessageMls option \<Rightarrow> db \<Rightarrow> (store_error + Message) \<times> db" where
  "UpdateMessageContent parse snap now ch msgID content mls = begin_func (update_message_body parse snap now ch msgID content mls)"

definition erase :: "instant \<Rightarrow> uuid \<Rightarrow> message_row \<Rightarrow> message_row" where
  "erase now deletedBy m = m\<lparr>m_content := [], m_mls := None, m_deleted := Some now, m_deleted_by := Some deletedBy\<rparr>"

definition soft_delete_body :: "instant \<Rightarrow> uuid \<Rightarrow> uuid \<Rightarrow> uuid \<Rightarrow> (db, Message) tx" where
  "soft_delete_body now ch msgID deletedBy db =
     (case sql_row (editable ch msgID) (messages db) of
        None \<Rightarrow> Inl ErrNotFound
      | Some m \<Rightarrow>
          if \<not> user_ref (Some deletedBy) db then Inl (ForeignKeyViolationOf ''messages_deleted_by_fkey'')
          else (case scanMessage db (erase now deletedBy m) of
                  None \<Rightarrow> Inl ErrNotFound
                | Some msg \<Rightarrow> Inr (msg, db\<lparr>messages := sql_update (editable ch msgID) (erase now deletedBy) (messages db)\<rparr>)))"

definition SoftDeleteMessage :: "instant \<Rightarrow> uuid \<Rightarrow> uuid \<Rightarrow> uuid \<Rightarrow> db \<Rightarrow> (store_error + Message) \<times> db" where
  "SoftDeleteMessage now ch msgID deletedBy = begin_func (soft_delete_body now ch msgID deletedBy)"

section \<open>Pages of history\<close>

type_synonym cursor = "instant \<times> uuid"

record ListMessagesParams =
  lm_ChannelID :: uuid
  lm_Before :: "cursor option"
  lm_After :: "cursor option"
  lm_Around :: "cursor option"
  lm_Limit :: nat

record MessagePage =
  pg_Messages :: "Message list"
  pg_HasBefore :: bool
  pg_HasAfter :: bool

definition message_key :: "message_row \<Rightarrow> cursor" where
  "message_key m = (m_created m, m_id m)"

definition MessageCursor :: "Message \<Rightarrow> cursor" where
  "MessageCursor m = (ms_CreatedAt m, ms_ID m)"

text \<open>\<open>messagePageSelect\<close>: the rows of the channel whose author the join finds.\<close>

definition page_select :: "uuid \<Rightarrow> db \<Rightarrow> message_row list" where
  "page_select ch db = filter (\<lambda>m. m_channel m = ch \<and> sql_exists (\<lambda>u. u_id u = m_author m) (users db)) (messages db)"

text \<open>The four page queries. \<open>ORDER BY \<dots> DESC\<close> on a key that identifies the row is the reversed order.\<close>

definition queryMessages :: "db \<Rightarrow> message_row list \<Rightarrow> Message list" where
  "queryMessages db rows = List.map_filter (scanMessage db) rows"

definition newestMessagesQuery :: "uuid \<Rightarrow> nat \<Rightarrow> db \<Rightarrow> Message list" where
  "newestMessagesQuery ch n db = queryMessages db (take n (rev (sql_order message_key (page_select ch db))))"

definition messagesBeforeQuery :: "uuid \<Rightarrow> cursor \<Rightarrow> nat \<Rightarrow> db \<Rightarrow> Message list" where
  "messagesBeforeQuery ch c n db =
     queryMessages db (take n (rev (sql_order message_key (filter (\<lambda>m. message_key m < c) (page_select ch db)))))"

definition messagesAfterQuery :: "uuid \<Rightarrow> cursor \<Rightarrow> nat \<Rightarrow> db \<Rightarrow> Message list" where
  "messagesAfterQuery ch c n db =
     queryMessages db (take n (sql_order message_key (filter (\<lambda>m. c < message_key m) (page_select ch db))))"

definition messagesFromQuery :: "uuid \<Rightarrow> cursor \<Rightarrow> nat \<Rightarrow> db \<Rightarrow> Message list" where
  "messagesFromQuery ch c n db =
     queryMessages db (take n (sql_order message_key (filter (\<lambda>m. c \<le> message_key m) (page_select ch db))))"

definition olderMessageExists :: "uuid \<Rightarrow> Message \<Rightarrow> db \<Rightarrow> bool" where
  "olderMessageExists ch anchor db = sql_exists (\<lambda>m. m_channel m = ch \<and> message_key m < MessageCursor anchor) (messages db)"

definition newerMessageExists :: "uuid \<Rightarrow> Message \<Rightarrow> db \<Rightarrow> bool" where
  "newerMessageExists ch anchor db = sql_exists (\<lambda>m. m_channel m = ch \<and> MessageCursor anchor < message_key m) (messages db)"

fun boolCount :: "bool list \<Rightarrow> nat" where
  "boolCount [] = 0"
| "boolCount (b # bs) = (if b then 1 else 0) + boolCount bs"

definition messagePageQuery :: "ListMessagesParams \<Rightarrow> db \<Rightarrow> Message list" where
  "messagePageQuery params db =
     (let probeLimit = lm_Limit params + 1
      in case lm_Before params of
           Some c \<Rightarrow> messagesBeforeQuery (lm_ChannelID params) c probeLimit db
         | None \<Rightarrow>
             (case lm_After params of
                Some c \<Rightarrow> messagesAfterQuery (lm_ChannelID params) c probeLimit db
              | None \<Rightarrow> newestMessagesQuery (lm_ChannelID params) probeLimit db))"

text \<open>The row past the limit says that there is more, and is not part of the page.\<close>

definition cut_page :: "nat \<Rightarrow> 'a list \<Rightarrow> 'a list" where
  "cut_page limit rows = (if limit < length rows then take limit rows else rows)"

definition aroundPage :: "ListMessagesParams \<Rightarrow> cursor \<Rightarrow> db \<Rightarrow> MessagePage" where
  "aroundPage params anchor db =
     (let olderShare = lm_Limit params div 2;
          newerShare = lm_Limit params - 1 - olderShare;
          older0 = messagesBeforeQuery (lm_ChannelID params) anchor (olderShare + 1) db;
          hasBefore = olderShare < length older0;
          older = rev (cut_page olderShare older0);
          newer0 = messagesFromQuery (lm_ChannelID params) anchor (newerShare + 2) db;
          hasAfter = newerShare + 1 < length newer0;
          newer = cut_page (newerShare + 1) newer0;
          msgs = older @ newer
      in if msgs = [] then \<lparr>pg_Messages = [], pg_HasBefore = False, pg_HasAfter = False\<rparr>
         else \<lparr>pg_Messages = loadMessageCards db msgs, pg_HasBefore = hasBefore, pg_HasAfter = hasAfter\<rparr>)"

definition ListMessages :: "ListMessagesParams \<Rightarrow> db \<Rightarrow> store_error + MessagePage" where
  "ListMessages params db =
     (if 1 < boolCount [lm_Before params \<noteq> None, lm_After params \<noteq> None, lm_Around params \<noteq> None]
      then Inl (ErrOther ''before, after and around are mutually exclusive'')
      else case lm_Around params of
             Some anchor \<Rightarrow> Inr (aroundPage params anchor db)
           | None \<Rightarrow>
               (let rows = messagePageQuery params db;
                    more = lm_Limit params < length rows;
                    cut = cut_page (lm_Limit params) rows;
                    msgs = (if lm_After params = None then rev cut else cut);
                    hasBefore = (lm_After params = None \<and> more);
                    hasAfter = (lm_After params \<noteq> None \<and> more)
                in if msgs = [] then Inr \<lparr>pg_Messages = [], pg_HasBefore = hasBefore, pg_HasAfter = hasAfter\<rparr>
                   else Inr \<lparr>pg_Messages = loadMessageCards db msgs,
                     pg_HasBefore = (if lm_Before params = None \<and> lm_After params \<noteq> None
                                     then olderMessageExists (lm_ChannelID params) (hd msgs) db else hasBefore),
                     pg_HasAfter = (if lm_Before params \<noteq> None
                                    then newerMessageExists (lm_ChannelID params) (last msgs) db else hasAfter)\<rparr>))"

section \<open>Read positions\<close>

definition set_read_body :: "uuid \<Rightarrow> uuid \<Rightarrow> uuid \<Rightarrow> (db, unit) tx" where
  "set_read_body ch uid msgID db =
     (case sql_row (\<lambda>m. m_id m = msgID \<and> m_channel m = ch) (messages db) of
        None \<Rightarrow> Inl ErrNotFound
      | Some anchor \<Rightarrow>
          (let P = (\<lambda>r. rp_channel r = ch \<and> rp_user r = uid)
           in if sql_exists P (read_positions db)
              then Inr ((), db\<lparr>read_positions :=
                     sql_update (\<lambda>r. P r \<and> (rp_at r, rp_message r) < message_key anchor)
                       (\<lambda>r. r\<lparr>rp_message := m_id anchor, rp_at := m_created anchor\<rparr>) (read_positions db)\<rparr>)
              else if \<not> user_ref (Some uid) db then Inl (mapMissingReference ForeignKeyViolation)
              else Inr ((), db\<lparr>read_positions := sql_insert
                     \<lparr>rp_channel = ch, rp_user = uid, rp_message = m_id anchor, rp_at = m_created anchor\<rparr>
                     (read_positions db)\<rparr>)))"

definition SetReadPosition :: "uuid \<Rightarrow> uuid \<Rightarrow> uuid \<Rightarrow> db \<Rightarrow> (store_error + unit) \<times> db" where
  "SetReadPosition ch uid msgID = begin_func (set_read_body ch uid msgID)"

section \<open>What each transaction writes\<close>

lemma insert_message_Inr:
  assumes "insert_message now i nm mentioned db = Inr (msg, db')"
  shows "message_checks (new_message_row now i nm)" and "\<forall>m \<in> set (messages db). \<not> same_key nm m \<and> m_id m \<noteq> i"
    and "db' = db\<lparr>messages := messages db @ [new_message_row now i nm],
           message_mentions := message_mentions db @ mention_rows i (nm_ChannelID nm) mentioned db\<rparr>"
    and "ms_ID msg = i" and "\<exists>u \<in> set (users db). u_id u = nm_AuthorID nm"
    and "scanMessage db (new_message_row now i nm) = Some msg"
  using assms
  by (auto simp: insert_message_def Let_def sql_insert_def scanMessage_def new_message_row_def
      split: if_splits option.splits)

lemma claimAttachments_Inr:
  "claimAttachments msgID nm db = Inr (files, db') \<Longrightarrow>
     db' = db\<lparr>attachments := sql_update (claimable nm) (claim_row msgID nm) (attachments db)\<rparr> \<and>
     length (filter (claimable nm) (attachments db)) = length (nm_AttachmentIDs nm) \<and>
     files = sort_key (\<lambda>a. index_of (a_ID a) (nm_AttachmentIDs nm))
       (map (scanAttachment \<circ> claim_row msgID nm) (filter (claimable nm) (attachments db)))"
  by (auto simp: claimAttachments_def Let_def split: if_splits)

lemma insertMessage_Inr:
  assumes "insertMessage now i nm mentioned db = Inr (msg, db')"
  shows "message_checks (new_message_row now i nm)" and "\<forall>m \<in> set (messages db). \<not> same_key nm m \<and> m_id m \<noteq> i"
    and "messages db' = messages db @ [new_message_row now i nm]"
    and "message_mentions db' = message_mentions db @ mention_rows i (nm_ChannelID nm) mentioned db"
    and "attachments db' = sql_update (claimable nm) (claim_row i nm) (attachments db)"
    and "length (filter (claimable nm) (attachments db)) = length (nm_AttachmentIDs nm)"
    and "read_positions db' = read_positions db" and "users db' = users db" and "channel_members db' = channel_members db"
    and "ms_ID msg = i" and "channels db' = channels db"
    and "map a_ID (ms_Attachments msg) = map a_ID (sort_key (\<lambda>a. index_of (a_ID a) (nm_AttachmentIDs nm))
       (map (scanAttachment \<circ> claim_row i nm) (filter (claimable nm) (attachments db))))"
proof -
  obtain msg0 db1 where ins: "insert_message now i nm mentioned db = Inr (msg0, db1)"
    and rest: "(if nm_AttachmentIDs nm = [] then Inr (msg0, db1) else
         (case claimAttachments (ms_ID msg0) nm db1 of Inl e \<Rightarrow> Inl e
          | Inr (files, db2) \<Rightarrow> Inr (msg0\<lparr>ms_Attachments := files\<rparr>, db2))) = Inr (msg, db')"
    using assms by (auto simp: insertMessage_def split: sum.splits)
  note a = insert_message_Inr [OF ins]
  have none: "nm_AttachmentIDs nm = [] \<Longrightarrow> filter (claimable nm) rows = [] \<and> sql_update (claimable nm) f rows = rows" for rows f
    by (induction rows) (auto simp: claimable_def sql_update_def)
  have empty: "ms_Attachments msg0 = []" using a(6) by (auto simp: scanMessage_def)
  show "message_checks (new_message_row now i nm)" "\<forall>m \<in> set (messages db). \<not> same_key nm m \<and> m_id m \<noteq> i"
    by (rule a(1), rule a(2))
  show "messages db' = messages db @ [new_message_row now i nm]"
    "message_mentions db' = message_mentions db @ mention_rows i (nm_ChannelID nm) mentioned db"
    "attachments db' = sql_update (claimable nm) (claim_row i nm) (attachments db)"
    "length (filter (claimable nm) (attachments db)) = length (nm_AttachmentIDs nm)"
    "read_positions db' = read_positions db" "users db' = users db" "channel_members db' = channel_members db"
    "ms_ID msg = i" "channels db' = channels db"
    "map a_ID (ms_Attachments msg) = map a_ID (sort_key (\<lambda>a. index_of (a_ID a) (nm_AttachmentIDs nm))
       (map (scanAttachment \<circ> claim_row i nm) (filter (claimable nm) (attachments db))))"
    using rest a(3,4) none empty
    by (cases "nm_AttachmentIDs nm = []"; force dest!: claimAttachments_Inr split: sum.splits prod.splits)+
qed

lemma update_message_Inr:
  "update_message_body parse snap now ch i content mls db = Inr (msg, db') \<Longrightarrow>
     db' = db\<lparr>messages := sql_update (editable ch i)
                (\<lambda>m. m\<lparr>m_content := content, m_mls := mls_columns mls, m_edited := Some now\<rparr>) (messages db),
              message_mentions := edit_mentions snap i (MentionsOf parse mls content) db\<rparr> \<and>
     char_length content \<le> 4000 \<and> (\<exists>m \<in> set (messages db). editable ch i m)"
  by (auto simp: update_message_body_def Let_def dest!: sql_row_Some_iff split: option.splits if_splits)

lemma soft_delete_Inr:
  "soft_delete_body now ch i who db = Inr (msg, db') \<Longrightarrow>
     db' = db\<lparr>messages := sql_update (editable ch i) (erase now who) (messages db)\<rparr> \<and>
     (\<exists>m \<in> set (messages db). editable ch i m)"
  by (auto simp: soft_delete_body_def dest!: sql_row_Some_iff split: option.splits if_splits)

lemma set_read_Inr:
  assumes "set_read_body ch uid i db = Inr (x, db')"
  obtains (moved) anchor where "anchor \<in> set (messages db)" "m_id anchor = i" "m_channel anchor = ch"
      "db' = db\<lparr>read_positions := sql_update (\<lambda>r. (rp_channel r = ch \<and> rp_user r = uid) \<and> (rp_at r, rp_message r) < message_key anchor)
           (\<lambda>r. r\<lparr>rp_message := m_id anchor, rp_at := m_created anchor\<rparr>) (read_positions db)\<rparr>"
      "\<exists>r \<in> set (read_positions db). rp_channel r = ch \<and> rp_user r = uid"
  | (first) anchor where "anchor \<in> set (messages db)" "m_id anchor = i" "m_channel anchor = ch"
      "\<forall>r \<in> set (read_positions db). \<not> (rp_channel r = ch \<and> rp_user r = uid)"
      "db' = db\<lparr>read_positions := read_positions db @
         [\<lparr>rp_channel = ch, rp_user = uid, rp_message = m_id anchor, rp_at = m_created anchor\<rparr>]\<rparr>"
proof -
  obtain anchor where an: "sql_row (\<lambda>m. m_id m = i \<and> m_channel m = ch) (messages db) = Some anchor"
    using assms by (auto simp: set_read_body_def split: option.splits)
  note am = sql_row_Some_iff [OF an]
  show thesis
  proof (cases "sql_exists (\<lambda>r. rp_channel r = ch \<and> rp_user r = uid) (read_positions db)")
    case True
    with assms an am show thesis
      by (intro moved [of anchor]) (auto simp: set_read_body_def Let_def simp del: sql_exists_iff, simp)
  next
    case False
    with assms an am show thesis
      by (intro first [of anchor])
         (auto simp: set_read_body_def Let_def sql_insert_def user_ref_def split: if_splits)
  qed
qed

section \<open>The transactions as steps\<close>

text \<open>
  \<open>CreateMessage\<close> writes in the transaction of one attempt, \<open>insertMessage\<close>; everything else it does is
  reading.
\<close>

inductive message_step :: "(string \<Rightarrow> uuid option) \<Rightarrow> db \<Rightarrow> db \<Rightarrow> bool" for parse where
  send: "message_step parse db (snd (begin_func
    (insertMessage now i nm (MentionsOf parse (nm_Mls nm) (nm_Content nm))) db))"
| edit: "message_step parse db (snd (UpdateMessageContent parse snap now ch i content mls db))"
| delete: "message_step parse db (snd (SoftDeleteMessage now ch i who db))"
| read: "message_step parse db (snd (SetReadPosition ch uid i db))"
| upload: "message_step parse db (snd (CreateAttachment now na db))"
| sweep: "message_step parse db (snd (SweepOrphanAttachments wall age db))"
| elsewhere: "messages db' = messages db \<Longrightarrow> message_mentions db' = message_mentions db \<Longrightarrow>
    read_positions db' = read_positions db \<Longrightarrow> attachments db' = attachments db \<Longrightarrow> message_step parse db db'"

inductive message_run :: "(string \<Rightarrow> uuid option) \<Rightarrow> db \<Rightarrow> db \<Rightarrow> bool" for parse where
  here: "message_run parse db db"
| later: "message_run parse db db1 \<Longrightarrow> message_step parse db1 db2 \<Longrightarrow> message_run parse db db2"

lemma message_run_trans: "message_run parse b c \<Longrightarrow> message_run parse a b \<Longrightarrow> message_run parse a c"
  by (induction rule: message_run.induct) (auto intro: message_run.intros)

section \<open>The messages of a run\<close>

definition send_key :: "message_row \<Rightarrow> uuid \<times> uuid \<times> uuid" where
  "send_key m = (m_channel m, m_author m, m_client m)"

lemma same_key_iff: "same_key nm m \<longleftrightarrow> send_key m = (nm_ChannelID nm, nm_AuthorID nm, nm_ClientMsgID nm)"
  by (simp add: same_key_def send_key_def)

text \<open>What no statement ever changes of a message: where it is, whose it is, its key and its time.\<close>

definition keeps_place :: "(message_row \<Rightarrow> message_row) \<Rightarrow> bool" where
  "keeps_place f \<longleftrightarrow> (\<forall>m. m_id (f m) = m_id m \<and> m_channel (f m) = m_channel m \<and> m_author (f m) = m_author m \<and>
     m_client (f m) = m_client m \<and> m_created (f m) = m_created m)"

definition message_ok :: "message_row \<Rightarrow> bool" where
  "message_ok m \<longleftrightarrow> message_checks m \<and> (m_deleted m \<noteq> None \<longrightarrow> m_mls m = None)"

inductive messages_move :: "db \<Rightarrow> db \<Rightarrow> bool" where
  same: "messages db' = messages db \<Longrightarrow> messages_move db db'"
| sent: "messages db' = messages db @ [r] \<Longrightarrow> message_ok r \<Longrightarrow>
    \<forall>m \<in> set (messages db). m_id m \<noteq> m_id r \<and> send_key m \<noteq> send_key r \<Longrightarrow> messages_move db db'"
| changed: "messages db' = sql_update (editable ch i) f (messages db) \<Longrightarrow> keeps_place f \<Longrightarrow>
    (\<And>m. editable ch i m \<Longrightarrow> message_ok m \<Longrightarrow> message_ok (f m)) \<Longrightarrow> messages_move db db'"

lemma step_messages:
  assumes "message_step parse db db'"
  shows "messages_move db db'"
proof -
  note bf = begin_func_invariant [where I = "messages_move db"] and refl = messages_move.same [OF refl]
  from assms show ?thesis
  proof cases
    case (send now i nm)
    show ?thesis unfolding send
    proof (rule bf [OF refl])
      fix msg d assume "insertMessage now i nm (MentionsOf parse (nm_Mls nm) (nm_Content nm)) db = Inr (msg, d)"
      note a = insertMessage_Inr [OF this]
      from a(3) show "messages_move db d"
        by (rule messages_move.sent)
           (use a(1,2) in \<open>auto simp: message_ok_def new_message_row_def same_key_iff send_key_def\<close>)
    qed
  next
    case (edit snap now ch i content mls)
    show ?thesis unfolding edit UpdateMessageContent_def
    proof (rule bf [OF refl])
      fix msg d assume "update_message_body parse snap now ch i content mls db = Inr (msg, d)"
      note a = update_message_Inr [OF this]
      then have "messages d = sql_update (editable ch i)
          (\<lambda>m. m\<lparr>m_content := content, m_mls := mls_columns mls, m_edited := Some now\<rparr>) (messages db)" by simp
      then show "messages_move db d"
        by (rule messages_move.changed)
           (use a in \<open>simp_all add: keeps_place_def message_ok_def message_checks_def editable_def\<close>)
    qed
  next
    case (delete now ch i who)
    show ?thesis unfolding delete SoftDeleteMessage_def
    proof (rule bf [OF refl])
      fix msg d assume "soft_delete_body now ch i who db = Inr (msg, d)"
      then have "messages d = sql_update (editable ch i) (erase now who) (messages db)" by (auto dest: soft_delete_Inr)
      then show "messages_move db d"
        by (rule messages_move.changed) (simp_all add: keeps_place_def erase_def message_ok_def message_checks_def)
    qed
  next
    case (read ch uid i)
    show ?thesis unfolding read SetReadPosition_def
      by (rule bf [OF refl], erule set_read_Inr) (auto intro: messages_move.same)
  next
    case (upload now na)
    show ?thesis unfolding upload CreateAttachment_def
      by (rule bf [OF refl])
         (auto simp: create_attachment_body_def Let_def simp del: sql_exists_iff split: if_splits intro!: messages_move.same)
  next
    case (sweep wall age)
    then show ?thesis by (auto simp: SweepOrphanAttachments_def Let_def intro: messages_move.same)
  next
    case elsewhere
    then show ?thesis by (auto intro: messages_move.same)
  qed
qed

definition messages_ok :: "message_row list \<Rightarrow> bool" where
  "messages_ok rows \<longleftrightarrow> distinct (map m_id rows) \<and> distinct (map send_key rows) \<and> (\<forall>m \<in> set rows. message_ok m)"

text \<open>How a message can change: not at all once it is deleted.\<close>

definition message_succ :: "message_row \<Rightarrow> message_row \<Rightarrow> bool" where
  "message_succ a b \<longleftrightarrow> m_id b = m_id a \<and> send_key b = send_key a \<and> m_created b = m_created a \<and> (m_deleted a \<noteq> None \<longrightarrow> b = a)"

definition messages_kept :: "message_row list \<Rightarrow> message_row list \<Rightarrow> bool" where
  "messages_kept old new \<longleftrightarrow> (\<forall>a \<in> set old. \<exists>b \<in> set new. message_succ a b)"

lemma messages_kept_refl: "messages_kept rows rows"
  by (auto simp: messages_kept_def message_succ_def)

lemma messages_kept_trans: "messages_kept a b \<Longrightarrow> messages_kept b c \<Longrightarrow> messages_kept a c"
proof -
  have "message_succ x z" if "message_succ x y" "message_succ y z" for x y z
    using that by (auto simp: message_succ_def)
  then show "messages_kept a b \<Longrightarrow> messages_kept b c \<Longrightarrow> messages_kept a c" unfolding messages_kept_def by meson
qed

lemma messages_move_ok:
  assumes "messages_move db db'" and "messages_ok (messages db)"
  shows "messages_ok (messages db') \<and> messages_kept (messages db) (messages db')"
  using assms
proof (induction rule: messages_move.induct)
  case (same db' db)
  then show ?case by (simp add: messages_kept_refl)
next
  case (sent db' db r)
  have "messages_kept (messages db) (messages db @ [r])" by (auto simp: messages_kept_def message_succ_def)
  with sent show ?case by (auto simp: messages_ok_def)
next
  case (changed db' ch i f db)
  have "message_ok m" if "m \<in> set (messages db')" for m
    using that unfolding changed.hyps(1)
    by (cases rule: sql_updateE) (use changed in \<open>auto simp: messages_ok_def\<close>)
  moreover have "messages_kept (messages db) (messages db')"
    unfolding messages_kept_def changed.hyps(1)
  proof
    fix a assume a: "a \<in> set (messages db)"
    show "\<exists>b \<in> set (sql_update (editable ch i) f (messages db)). message_succ a b"
    proof (cases "editable ch i a")
      case True
      then have "message_succ a (f a)" using changed.hyps(2) by (simp add: message_succ_def keeps_place_def send_key_def editable_def)
      with sql_updateI [of a _ "editable ch i" f, OF a True] show ?thesis by blast
    next
      case False
      have "message_succ a a" by (simp add: message_succ_def)
      with sql_updateI_other [of a _ "editable ch i" f, OF a False] show ?thesis by blast
    qed
  qed
  moreover have "map m_id (messages db') = map m_id (messages db)" "map send_key (messages db') = map send_key (messages db)"
    unfolding changed.hyps(1) using changed.hyps(2) by (simp_all add: map_sql_update_frame keeps_place_def send_key_def)
  ultimately show ?case using changed.prems by (simp add: messages_ok_def)
qed

lemma run_messages:
  assumes "message_run parse db db'" and "messages_ok (messages db)"
  shows "messages_ok (messages db') \<and> messages_kept (messages db) (messages db')"
  using assms
proof (induction rule: message_run.induct)
  case (later db db1 db2)
  then show ?case using messages_move_ok [OF step_messages [OF later.hyps(2)]] messages_kept_trans by blast
qed (simp add: messages_kept_refl)

lemma key_row:
  assumes "messages_ok (messages db)" and "m \<in> set (messages db)" and "same_key nm m"
  shows "sql_row (same_key nm) (messages db) = Some m"
proof -
  have "same_key nm = (\<lambda>x. send_key x = send_key m)" using assms(3) by (auto simp: same_key_iff)
  then show ?thesis using assms(1,2) sql_row_unique [of send_key "messages db" m] by (simp add: messages_ok_def)
qed

section \<open>Sending\<close>

lemma send_loop_stored:
  assumes "send_loop n mid clock ids nm mentioned db = (Inr (msg, True), db')"
    and "\<And>k d. message_run parse d (mid k d)"
  shows "\<exists>k d. message_run parse db d \<and> insertMessage (clock k) (ids k) nm mentioned d = Inr (msg, db')"
  using assms(1)
proof (induction n arbitrary: db)
  case (Suc n)
  show ?case
  proof (cases "insertMessage (clock n) (ids n) nm mentioned db")
    case (Inr x)
    with Suc.prems show ?thesis by (cases x) (auto simp: begin_func_def intro: message_run.here)
  next
    case (Inl e)
    with Suc.prems have "send_loop n mid clock ids nm mentioned (mid n db) = (Inr (msg, True), db')"
      by (auto simp: begin_func_def Let_def split: if_splits sum.splits)
    from Suc.IH [OF this] message_run_trans [OF _ assms(2)] show ?thesis by blast
  qed
qed simp

lemma messageByKey_found:
  assumes "messages_ok (messages db)" and "m \<in> set (messages db)" and "same_key nm m"
    and "\<exists>u \<in> set (users db). u_id u = m_author m"
  shows "\<exists>msg. messageByKey nm db = Inr msg \<and> ms_ID msg = m_id m \<and> ms_Content msg = m_content m \<and> ms_DeletedAt msg = m_deleted m"
proof -
  obtain msg where msg: "scanMessage db m = Some msg" "ms_ID msg = m_id m" "ms_Content msg = m_content m" "ms_DeletedAt msg = m_deleted m"
    using assms(4) by (cases "sql_row (\<lambda>u. u_id u = m_author m) (users db)") (auto simp: scanMessage_def sql_row_None_iff)
  then show ?thesis
    using key_row [OF assms(1-3)]
    by (auto simp: messageByKey_def loadMessageCards_def loadAttachments_def Let_def split: option.splits)
qed

lemma CreateMessage_stored:
  assumes "CreateMessage parse mid clock ids nm db = (Inr (msg, True), db')" and "\<forall>k d. message_run parse d (mid k d)"
  shows "\<exists>now i d. message_run parse db d \<and>
     insertMessage now i nm (MentionsOf parse (nm_Mls nm) (nm_Content nm)) d = Inr (msg, db') \<and> message_step parse d db'"
proof -
  have "send_loop sendAttempts mid clock ids nm (MentionsOf parse (nm_Mls nm) (nm_Content nm)) db = (Inr (msg, True), db')"
    using assms(1) by (auto simp: CreateMessage_def split: if_splits)
  then obtain k d where d: "message_run parse db d"
      "insertMessage (clock k) (ids k) nm (MentionsOf parse (nm_Mls nm) (nm_Content nm)) d = Inr (msg, db')"
    using send_loop_stored [where parse = parse] assms(2) by metis
  moreover have "message_step parse d db'"
    using message_step.send [of parse d "clock k" "ids k" nm] d(2) by (simp add: begin_func_def)
  ultimately show ?thesis by blast
qed

subsection \<open>Mentions\<close>

definition mentions_ref :: "db \<Rightarrow> bool" where
  "mentions_ref db \<longleftrightarrow> mn_message ` set (message_mentions db) \<subseteq> m_id ` set (messages db)"

lemma mention_rows_set:
  "r \<in> set (mention_rows i ch mentioned db) \<longleftrightarrow>
     mn_message r = i \<and> mn_user r \<in> set mentioned \<and> IsChannelMember ch (mn_user r) db"
  by (auto simp: mention_rows_def IsChannelMember_def image_iff intro!: mention_row.equality)

lemma m_ids_update: "keeps_place f \<Longrightarrow> m_id ` set (sql_update P f rows) = m_id ` set rows"
  using map_sql_update_frame [of P m_id f rows] by (metis keeps_place_def set_map)

lemma step_mentions:
  assumes "message_step parse db db'" and ref: "mentions_ref db"
  shows "mentions_ref db'"
proof -
  note bf = begin_func_invariant [where I = mentions_ref, OF ref]
  from assms(1) show ?thesis
  proof cases
    case (send now i nm)
    show ?thesis unfolding send
    proof (rule bf)
      fix msg d assume "insertMessage now i nm (MentionsOf parse (nm_Mls nm) (nm_Content nm)) db = Inr (msg, d)"
      note a = insertMessage_Inr(3,4) [OF this]
      show "mentions_ref d"
        using ref unfolding mentions_ref_def a by (auto simp: mention_rows_set new_message_row_def)
    qed
  next
    case (edit snap now ch i content mls)
    show ?thesis unfolding edit UpdateMessageContent_def
    proof (rule bf)
      fix msg d assume "update_message_body parse snap now ch i content mls db = Inr (msg, d)"
      note a = update_message_Inr [OF this]
      have "m_id ` set (messages d) = m_id ` set (messages db)"
        using a m_ids_update [of "\<lambda>m. m\<lparr>m_content := content, m_mls := mls_columns mls, m_edited := Some now\<rparr>"]
        by (simp add: keeps_place_def)
      moreover have "i \<in> m_id ` set (messages db)" using a by (auto simp: editable_def)
      ultimately show "mentions_ref d"
        using ref a by (auto simp: mentions_ref_def edit_mentions_def)
    qed
  next
    case (delete now ch i who)
    show ?thesis unfolding delete SoftDeleteMessage_def
    proof (rule bf)
      fix msg d assume "soft_delete_body now ch i who db = Inr (msg, d)"
      note a = soft_delete_Inr [OF this]
      have "m_id ` set (messages d) = m_id ` set (messages db)"
        using a m_ids_update [of "erase now who"] by (simp add: keeps_place_def erase_def)
      then show "mentions_ref d" using ref a by (auto simp: mentions_ref_def)
    qed
  next
    case (read ch uid i)
    show ?thesis unfolding read SetReadPosition_def
      by (rule bf, erule set_read_Inr) (use ref in \<open>simp_all add: mentions_ref_def\<close>)
  next
    case (upload now na)
    show ?thesis unfolding upload CreateAttachment_def
      by (rule bf)
         (use ref in \<open>auto simp: create_attachment_body_def mentions_ref_def Let_def simp del: sql_exists_iff split: if_splits\<close>)
  next
    case (sweep wall age)
    with ref show ?thesis by (simp add: SweepOrphanAttachments_def Let_def mentions_ref_def)
  next
    case elsewhere
    with ref show ?thesis by (simp add: mentions_ref_def)
  qed
qed

lemma run_mentions: "message_run parse db db' \<Longrightarrow> mentions_ref db \<Longrightarrow> mentions_ref db'"
  by (induction rule: message_run.induct) (auto intro: step_mentions)

lemma insertMessage_mentions:
  assumes "insertMessage now i nm mentioned db = Inr (msg, db')" and "mentions_ref db"
  shows "{u. \<lparr>mn_message = i, mn_user = u\<rparr> \<in> set (message_mentions db')} =
         {u. u \<in> set mentioned \<and> IsChannelMember (nm_ChannelID nm) u db'}"
proof -
  note a = insertMessage_Inr [OF assms(1)]
  have "\<lparr>mn_message = i, mn_user = u\<rparr> \<notin> set (message_mentions db)" for u
    using assms(2) a(2) by (force simp: mentions_ref_def)
  moreover have "IsChannelMember ch u db' = IsChannelMember ch u db" for ch u by (simp add: IsChannelMember_def a(9))
  ultimately show ?thesis by (auto simp: a(4) mention_rows_set)
qed

text \<open>
  What an edit leaves of the mentions: whoever it names, if they were mentioned before or the snapshot
  shows them as members, and, of those it does not name, whoever the snapshot did not hold.
\<close>

lemma update_message_mentions:
  assumes "update_message_body parse snap now ch i content mls db = Inr (msg, db')"
  shows "\<lparr>mn_message = i, mn_user = u\<rparr> \<in> set (message_mentions db') \<longleftrightarrow>
     (if u \<in> set (MentionsOf parse mls content)
      then u \<in> set (es_members snap) \<or> \<lparr>mn_message = i, mn_user = u\<rparr> \<in> set (message_mentions db)
      else u \<in> set (es_missed snap) \<and> \<lparr>mn_message = i, mn_user = u\<rparr> \<in> set (message_mentions db))"
  using update_message_Inr [OF assms] by (auto simp: edit_mentions_def)

lemma snapshot_now_members: "u \<in> set (es_members (snapshot_now ch db)) \<longleftrightarrow> IsChannelMember ch u db"
  by (auto simp: snapshot_now_def IsChannelMember_def)

lemma snapshot_now_missed [simp]: "es_missed (snapshot_now ch db) = []"
  by (simp add: snapshot_now_def)

section \<open>Files of a run\<close>

definition claims_kept :: "attachment_row list \<Rightarrow> attachment_row list \<Rightarrow> bool" where
  "claims_kept old new \<longleftrightarrow> (\<forall>a \<in> set old. at_message a \<noteq> None \<longrightarrow> a \<in> set new)"

lemma claims_kept_refl [simp]: "claims_kept rows rows" "claims_kept rows (rows @ extra)"
  by (auto simp: claims_kept_def)

lemma claims_kept_claim: "claims_kept rows (sql_update (claimable nm) f rows)"
  unfolding claims_kept_def by (auto intro!: sql_updateI_other simp: claimable_def)

lemma step_claims:
  assumes "message_step parse db db'"
  shows "claims_kept (attachments db) (attachments db')"
proof -
  note bf = begin_func_invariant [where I = "\<lambda>d. claims_kept (attachments db) (attachments d)"]
  from assms show ?thesis
  proof cases
    case (send now i nm)
    show ?thesis unfolding send by (rule bf) (auto simp: claims_kept_claim dest: insertMessage_Inr(5))
  next
    case (edit snap now ch i content mls)
    show ?thesis unfolding edit UpdateMessageContent_def by (rule bf) (auto dest: update_message_Inr)
  next
    case (delete now ch i who)
    show ?thesis unfolding delete SoftDeleteMessage_def by (rule bf) (auto dest: soft_delete_Inr)
  next
    case (read ch uid i)
    show ?thesis unfolding read SetReadPosition_def by (rule bf) (simp, erule set_read_Inr, simp_all)
  next
    case (upload now na)
    show ?thesis unfolding upload CreateAttachment_def
      by (rule bf) (auto simp: create_attachment_body_def Let_def sql_insert_def simp del: sql_exists_iff split: if_splits)
  next
    case (sweep wall age)
    then show ?thesis by (auto simp: SweepOrphanAttachments_def Let_def claims_kept_def)
  qed simp
qed

lemma run_claims: "message_run parse db db' \<Longrightarrow> claims_kept (attachments db) (attachments db')"
proof (induction rule: message_run.induct)
  case (later db db1 db2)
  then show ?case using step_claims [OF later.hyps(2)] unfolding claims_kept_def by blast
qed simp

lemma index_of_nth: "distinct xs \<Longrightarrow> n < length xs \<Longrightarrow> index_of (xs ! n) xs = n"
  by (induction xs arbitrary: n) (auto simp: nth_Cons' split: if_splits)

lemma indexed_unique:
  assumes "distinct xs" and "distinct ys" and "set ys = set xs" and "sorted (map (\<lambda>y. index_of y xs) ys)"
  shows "ys = xs"
proof (rule map_sorted_distinct_set_unique [where f = "\<lambda>y. index_of y xs"])
  show "inj_on (\<lambda>y. index_of y xs) (set ys \<union> set xs)"
  proof (rule inj_onI)
    fix a b assume ab: "a \<in> set ys \<union> set xs" "b \<in> set ys \<union> set xs" "index_of a xs = index_of b xs"
    then obtain m n where "m < length xs" "xs ! m = a" "n < length xs" "xs ! n = b"
      using assms(3) by (auto simp: in_set_conv_nth)
    with ab(3) index_of_nth [OF assms(1)] show "a = b" by metis
  qed
  have "map (\<lambda>y. index_of y xs) xs = [0..<length xs]"
    by (rule nth_equalityI) (simp_all add: index_of_nth [OF assms(1)])
  then show "sorted (map (\<lambda>y. index_of y xs) xs)" by simp
  show "distinct (map (\<lambda>y. index_of y xs) xs)" using \<open>map (\<lambda>y. index_of y xs) xs = [0..<length xs]\<close> by simp
  show "sorted (map (\<lambda>y. index_of y xs) ys)" by (rule assms(4))
  show "distinct (map (\<lambda>y. index_of y xs) ys)"
    using \<open>inj_on (\<lambda>y. index_of y xs) (set ys \<union> set xs)\<close> assms(2) by (simp add: distinct_map inj_on_Un)
  show "set ys = set xs" by (rule assms(3))
qed

text \<open>
  The count is a complete check: with as many claimable rows as identifiers asked for, the claimed
  files are exactly the listed ones, without repetition, and the sort puts them in the listed order.
\<close>

lemma claimed_listed:
  assumes ids: "distinct (map at_id rows)"
    and count: "length (filter (claimable nm) rows) = length (nm_AttachmentIDs nm)"
  shows "distinct (map at_id (filter (claimable nm) rows))" and "distinct (nm_AttachmentIDs nm)"
    and "at_id ` set (filter (claimable nm) rows) = set (nm_AttachmentIDs nm)"
proof -
  let ?L = "nm_AttachmentIDs nm" and ?C = "map at_id (filter (claimable nm) rows)"
  show d: "distinct ?C" using ids by (simp add: distinct_map_filter)
  have sub: "set ?C \<subseteq> set ?L" by (auto simp: claimable_def)
  have "card (set ?C) = length ?L" using distinct_card [OF d] count by simp
  then have "card (set ?L) \<le> card (set ?C)" by (simp add: card_length)
  then have "set ?C = set ?L" using sub by (simp add: card_seteq)
  then show "at_id ` set (filter (claimable nm) rows) = set ?L" by simp
  show "distinct ?L" using \<open>card (set ?C) = length ?L\<close> \<open>set ?C = set ?L\<close> by (simp add: card_distinct)
qed

lemma claimed_order:
  assumes "distinct (map at_id rows)" and "length (filter (claimable nm) rows) = length (nm_AttachmentIDs nm)"
    and "map g xs = map at_id (filter (claimable nm) rows)"
    and "sorted (map (\<lambda>x. index_of (g x) (nm_AttachmentIDs nm)) ys)" and "mset ys = mset xs"
  shows "map g ys = nm_AttachmentIDs nm"
proof -
  note c = claimed_listed [OF assms(1,2)]
  have m: "mset (map g ys) = mset (map at_id (filter (claimable nm) rows))" using assms(3,5) by (metis mset_map)
  have "distinct (map g ys)" using m c(1) by (metis mset_eq_imp_distinct_iff)
  moreover have "set (map g ys) = set (nm_AttachmentIDs nm)" using m c(3) by (metis list.set_map mset_eq_setD)
  ultimately show ?thesis using assms(4) by (intro indexed_unique c(2)) (simp_all add: comp_def)
qed

lemma claimed_exactly:
  assumes "distinct (map at_id rows)" and "length (filter (claimable nm) rows) = length (nm_AttachmentIDs nm)"
  shows "map a_ID (sort_key (\<lambda>a. index_of (a_ID a) (nm_AttachmentIDs nm))
           (map (scanAttachment \<circ> claim_row i nm) (filter (claimable nm) rows))) = nm_AttachmentIDs nm"
  by (rule claimed_order [OF assms, where xs = "map (scanAttachment \<circ> claim_row i nm) (filter (claimable nm) rows)"])
     (simp_all add: scanAttachment_def claim_row_def)

end
