(* ===== verification/Message_Safety.thy ===== *)
theory Message_Safety
  imports Message_Store
begin

text \<open>
  What the message store promises over whole runs: a message is stored once, mentions say exactly who
  is named, deletion is final, a file belongs to one message, a read position never moves back.
\<close>

section \<open>Properties\<close>

definition chat :: db where "chat = people3"

definition hello :: "string \<Rightarrow> NewMessage" where
  "hello text = \<lparr>nm_ChannelID = 7, nm_AuthorID = 1, nm_ClientMsgID = 99, nm_Content = text, nm_AttachmentIDs = [], nm_Mls = None\<rparr>"

definition quiet :: "nat \<Rightarrow> db \<Rightarrow> db" where "quiet n db = db"

definition chat1 :: db where
  "chat1 = snd (CreateMessage demo_parse quiet (\<lambda>_. 50) (\<lambda>_. 100) (hello (''hi '' @ demo_mention 3 @ demo_mention 2)) chat)"

lemma chat_empty: "messages chat = []" "message_mentions chat = []" "attachments chat = []" "read_positions chat = []"
  by code_simp+

lemma chat_ok: "messages_ok (messages chat)" "mentions_ref chat"
  by (simp_all add: messages_ok_def mentions_ref_def chat_empty)

lemma quiet_runs: "\<forall>k d. message_run parse d (quiet k d)"
  by (simp add: quiet_def message_run.here)

lemma resend_refused:
  assumes "s \<in> set (messages db)" "same_key nm s" "char_length (nm_Content nm) \<le> 4000"
  shows "insertMessage now i nm mn db = Inl ErrNotFound"
proof -
  have "message_checks (new_message_row now i nm)" using assms(3) by (simp add: message_checks_def new_message_row_def)
  moreover have "sql_exists (same_key nm) (messages db)" using assms(1,2) by auto
  ultimately show ?thesis by (simp add: insertMessage_def insert_message_def Let_def del: sql_exists_iff)
qed

lemma key_alone:
  assumes ok: "messages_ok (messages db)" and t: "t \<in> set (messages db)" "same_key nm t"
  shows "filter (same_key nm) (messages db) = [t]"
proof (rule distinct_all_same)
  show "distinct (filter (same_key nm) (messages db))" using ok by (simp add: messages_ok_def distinct_map)
  show "t \<in> set (filter (same_key nm) (messages db))" using t by simp
  show "\<forall>x \<in> set (filter (same_key nm) (messages db)). x = t"
  proof
    fix x assume x: "x \<in> set (filter (same_key nm) (messages db))"
    have "distinct (map send_key (messages db))" using ok by (simp add: messages_ok_def)
    moreover have "send_key x = send_key t" using x t(2) by (simp add: same_key_iff)
    ultimately show "x = t" using distinct_map_inj [of send_key _ x t] x t(1) by simp
  qed
qed

text \<open>
  C3. A message is stored exactly once, however often it is sent. Once a send has stored it, every later
  send under the same idempotency key, in every later state, with whatever text and whatever other
  transactions run beside it, stores nothing and answers with that message; the channel holds exactly
  one message with the key.
\<close>

theorem message_stored_once:
  assumes "messages_ok (messages db)" and "\<forall>k d. message_run parse d (mid k d)"
    and "CreateMessage parse mid clock ids nm db = (Inr (msg, True), db1)" and "message_run parse db1 db2"
    and "nm_ChannelID again = nm_ChannelID nm" and "nm_AuthorID again = nm_AuthorID nm" and "nm_ClientMsgID again = nm_ClientMsgID nm"
    and "nm_Content again \<noteq> [] \<or> nm_AttachmentIDs again \<noteq> [] \<or> nm_Mls again \<noteq> None" and "char_length (nm_Content again) \<le> 4000"
    and "message_run parse db2 (beside 2 db2)" and "\<exists>u \<in> set (users (beside 2 db2)). u_id u = nm_AuthorID nm"
  shows "\<exists>m. CreateMessage parse beside clock2 ids2 again db2 = (Inr (m, False), beside 2 db2) \<and> ms_ID m = ms_ID msg \<and>
     length (filter (same_key nm) (messages (beside 2 db2))) = 1"
proof -
  obtain now i d where d: "message_run parse db d"
      "insertMessage now i nm (MentionsOf parse (nm_Mls nm) (nm_Content nm)) d = Inr (msg, db1)" "message_step parse d db1"
    using CreateMessage_stored [OF assms(3,2)] by blast
  note a = insertMessage_Inr [OF d(2)]
  let ?r = "new_message_row now i nm" and ?db3 = "beside 2 db2"
  have "messages_ok (messages d)" using run_messages [OF d(1) assms(1)] by simp
  then have ok1: "messages_ok (messages db1)" using messages_move_ok [OF step_messages [OF d(3)]] by simp
  have r: "?r \<in> set (messages db1)" "m_id ?r = ms_ID msg" "same_key nm ?r"
    using a by (simp_all add: new_message_row_def same_key_def)
  note run2 = run_messages [OF assms(4) ok1] and run3 = run_messages [OF assms(10)]
  obtain s where s: "s \<in> set (messages db2)" "message_succ ?r s" using run2 r(1) unfolding messages_kept_def by blast
  obtain t where t: "t \<in> set (messages ?db3)" "message_succ s t" using run3 run2 s(1) unfolding messages_kept_def by blast
  have key: "same_key again = same_key nm" using assms(5-7) by (auto simp: same_key_def)
  have keys: "same_key nm s" "same_key nm t" "m_id t = ms_ID msg" "m_author t = nm_AuthorID nm"
    using s(2) t(2) r(2,3) by (simp_all add: message_succ_def same_key_iff send_key_def)
  have ok3: "messages_ok (messages ?db3)" using run3 run2 by simp
  have ins: "insertMessage n j again mn db2 = Inl ErrNotFound" for n j mn
    using resend_refused [OF s(1) _ assms(9)] keys(1) key by simp
  obtain m where m: "messageByKey again ?db3 = Inr m" "ms_ID m = m_id t"
    using messageByKey_found [OF ok3 t(1), of again] keys key assms(11) by auto
  have "send_loop (Suc 2) beside clock2 ids2 again mn db2 = (Inr (m, False), ?db3)" for mn
    by (subst send_loop.simps(2)) (simp add: begin_func_def ins m(1))
  then have "CreateMessage parse beside clock2 ids2 again db2 = (Inr (m, False), ?db3)"
    using assms(8) by (auto simp: CreateMessage_def sendAttempts_def numeral_3_eq_3 numeral_2_eq_2 simp del: send_loop.simps)
  moreover have "filter (same_key nm) (messages ?db3) = [t]" by (rule key_alone [OF ok3 t(1) keys(2)])
  ultimately show ?thesis using m(2) keys(3) by simp
qed

theorem message_stored_once_witness:
  "\<exists>m. CreateMessage demo_parse quiet (\<lambda>_. 60) (\<lambda>_. 101) (hello ''other text'') chat1 = (Inr (m, False), chat1) \<and> ms_ID m = 100"
proof -
  have "case CreateMessage demo_parse quiet (\<lambda>_. 50) (\<lambda>_. 100) (hello (''hi '' @ demo_mention 3 @ demo_mention 2)) chat of
      (Inr (m, new), _) \<Rightarrow> ms_ID m = 100 \<and> new | _ \<Rightarrow> False" by code_simp
  then obtain msg where sent: "CreateMessage demo_parse quiet (\<lambda>_. 50) (\<lambda>_. 100) (hello (''hi '' @ demo_mention 3 @ demo_mention 2)) chat
      = (Inr (msg, True), chat1)" "ms_ID msg = 100"
    unfolding chat1_def by (auto split: prod.splits sum.splits)
  have q: "quiet 2 chat1 = chat1" by (simp add: quiet_def)
  have u: "\<exists>u \<in> set (users (quiet 2 chat1)). u_id u = nm_AuthorID (hello (''hi '' @ demo_mention 3 @ demo_mention 2))" by code_simp
  have len: "char_length (nm_Content (hello ''other text'')) \<le> 4000" by code_simp
  have run: "message_run demo_parse chat1 (quiet 2 chat1)" unfolding q by (rule message_run.here)
  obtain m where "CreateMessage demo_parse quiet (\<lambda>_. 60) (\<lambda>_. 101) (hello ''other text'') chat1 = (Inr (m, False), quiet 2 chat1)"
      "ms_ID m = ms_ID msg"
    using message_stored_once [where parse = demo_parse and db = chat and ?db1.0 = chat1 and ?db2.0 = chat1 and beside = quiet
        and again = "hello ''other text''" and ?clock2.0 = "\<lambda>_. 60" and ?ids2.0 = "\<lambda>_. 101",
        OF chat_ok(1) quiet_runs sent(1) message_run.here _ _ _ _ len run u]
    by (auto simp: hello_def)
  then show ?thesis using sent(2) q by auto
qed


text \<open>
  C30. The mentions of a message follow its text. A send that is stored leaves one mention for every named
  member of the channel and for nobody else. In every later state, whatever other edits, deletions and
  changes of membership came between, an edit whose statement nothing overtook leaves exactly the people
  the new text names who are members of the channel then or were mentioned before: it drops everyone no
  longer named, adds the newly named members, and keeps somebody still named who has left. An edit that
  waited behind another one, and so reads an older snapshot, leaves the same but for the mentions that
  snapshot did not hold, which it does not drop, and the members it shows, which are the ones it adds.
\<close>

theorem mentions_exact:
  assumes "mentions_ref db" and "\<forall>k d. message_run parse d (mid k d)"
    and "CreateMessage parse mid clock ids nm db = (Inr (msg, True), db1)"
    and "message_run parse db1 db2"
    and "UpdateMessageContent parse snap now (nm_ChannelID nm) (ms_ID msg) content mls db2 = (Inr edited, db3)"
  shows "{u. \<lparr>mn_message = ms_ID msg, mn_user = u\<rparr> \<in> set (message_mentions db1)} =
         {u. u \<in> set (MentionsOf parse (nm_Mls nm) (nm_Content nm)) \<and> IsChannelMember (nm_ChannelID nm) u db1} \<and>
     (snap = snapshot_now (nm_ChannelID nm) db2 \<longrightarrow>
       {u. \<lparr>mn_message = ms_ID msg, mn_user = u\<rparr> \<in> set (message_mentions db3)} =
       {u. u \<in> set (MentionsOf parse mls content) \<and>
           (IsChannelMember (nm_ChannelID nm) u db3 \<or> \<lparr>mn_message = ms_ID msg, mn_user = u\<rparr> \<in> set (message_mentions db2))}) \<and>
     {u. \<lparr>mn_message = ms_ID msg, mn_user = u\<rparr> \<in> set (message_mentions db3)} =
       {u. u \<in> set (MentionsOf parse mls content) \<and>
           (u \<in> set (es_members snap) \<or> \<lparr>mn_message = ms_ID msg, mn_user = u\<rparr> \<in> set (message_mentions db2))} \<union>
       {u. u \<notin> set (MentionsOf parse mls content) \<and>
           u \<in> set (es_missed snap) \<and> \<lparr>mn_message = ms_ID msg, mn_user = u\<rparr> \<in> set (message_mentions db2)}"
proof -
  obtain t i d where d: "message_run parse db d"
      "insertMessage t i nm (MentionsOf parse (nm_Mls nm) (nm_Content nm)) d = Inr (msg, db1)"
    using CreateMessage_stored [OF assms(3,2)] by blast
  have i: "ms_ID msg = i" by (rule insertMessage_Inr(10) [OF d(2)])
  have sent: "{u. \<lparr>mn_message = ms_ID msg, mn_user = u\<rparr> \<in> set (message_mentions db1)} =
      {u. u \<in> set (MentionsOf parse (nm_Mls nm) (nm_Content nm)) \<and> IsChannelMember (nm_ChannelID nm) u db1}"
    using insertMessage_mentions [OF d(2) run_mentions [OF d(1) assms(1)]] i by simp
  have e: "update_message_body parse snap now (nm_ChannelID nm) (ms_ID msg) content mls db2 = Inr (edited, db3)"
    using assms(5) by (simp add: UpdateMessageContent_def)
  have m: "IsChannelMember (nm_ChannelID nm) u db3 = IsChannelMember (nm_ChannelID nm) u db2" for u
    using update_message_Inr [OF e] by (simp add: IsChannelMember_def)
  show ?thesis
    using sent by (auto simp: update_message_mentions [OF e] m snapshot_now_members split: if_splits)
qed

text \<open>
  The comment on \<open>updateMessageQuery\<close> says the rows can never disagree with the message they came from. Two
  edits that overlap make them disagree: the later one keeps every mention the earlier one committed
  while it waited, whoever its own text names.
\<close>

theorem racing_edit_leaves_mention:
  assumes "UpdateMessageContent parse snap now ch i content mls db = (Inr edited, db')"
    and "\<lparr>mn_message = i, mn_user = u\<rparr> \<in> set (message_mentions db)" and "u \<in> set (es_missed snap)"
  shows "\<lparr>mn_message = i, mn_user = u\<rparr> \<in> set (message_mentions db')"
proof -
  have e: "update_message_body parse snap now ch i content mls db = Inr (edited, db')"
    using assms(1) by (simp add: UpdateMessageContent_def)
  show ?thesis using assms(2,3) by (simp add: update_message_mentions [OF e])
qed

lemma chat1_sent: "\<exists>msg. CreateMessage demo_parse quiet (\<lambda>_. 50) (\<lambda>_. 100) (hello (''hi '' @ demo_mention 3 @ demo_mention 2)) chat
      = (Inr (msg, True), chat1) \<and> ms_ID msg = 100"
proof -
  have "case CreateMessage demo_parse quiet (\<lambda>_. 50) (\<lambda>_. 100) (hello (''hi '' @ demo_mention 3 @ demo_mention 2)) chat of
      (Inr (m, new), _) \<Rightarrow> ms_ID m = 100 \<and> new | _ \<Rightarrow> False" by code_simp
  then show ?thesis unfolding chat1_def by (auto split: prod.splits sum.splits)
qed

text \<open>Person 3, mentioned by the message, leaves the channel; then its author edits it and still names them.\<close>

definition chat_left :: db where
  "chat_left = chat1\<lparr>channel_members := filter (\<lambda>m. cm_user m \<noteq> 3) (channel_members chat1)\<rparr>"

definition chat2 :: db where
  "chat2 = snd (UpdateMessageContent demo_parse (snapshot_now 7 chat_left) 70 7 100
     (''now '' @ demo_mention 2 @ demo_mention 3) None chat_left)"

theorem mentions_exact_witness:
  "{u. \<lparr>mn_message = 100, mn_user = u\<rparr> \<in> set (message_mentions chat2)} = {3}"
proof -
  obtain msg where sent: "CreateMessage demo_parse quiet (\<lambda>_. 50) (\<lambda>_. 100) (hello (''hi '' @ demo_mention 3 @ demo_mention 2)) chat
      = (Inr (msg, True), chat1)" "ms_ID msg = 100" using chat1_sent by blast
  have left: "message_run demo_parse chat1 chat_left"
    by (rule message_run.later [OF message_run.here message_step.elsewhere]) (simp_all add: chat_left_def)
  have "case UpdateMessageContent demo_parse (snapshot_now 7 chat_left) 70 7 100 (''now '' @ demo_mention 2 @ demo_mention 3) None chat_left of
      (Inr _, _) \<Rightarrow> True | _ \<Rightarrow> False"
    by code_simp
  then obtain e where e: "UpdateMessageContent demo_parse (snapshot_now 7 chat_left) 70 7 100
      (''now '' @ demo_mention 2 @ demo_mention 3) None chat_left = (Inr e, chat2)"
    unfolding chat2_def by (auto split: prod.splits sum.splits)
  have "{u. \<lparr>mn_message = 100, mn_user = u\<rparr> \<in> set (message_mentions chat2)} =
      {u. u \<in> set (MentionsOf demo_parse None (''now '' @ demo_mention 2 @ demo_mention 3)) \<and>
        (IsChannelMember 7 u chat2 \<or> \<lparr>mn_message = 100, mn_user = u\<rparr> \<in> set (message_mentions chat_left))}"
    using mentions_exact [OF chat_ok(2) quiet_runs sent(1) left, of "snapshot_now 7 chat_left" 70
        "''now '' @ demo_mention 2 @ demo_mention 3" None e chat2] e sent(2)
    by (simp add: hello_def)
  moreover have "MentionsOf demo_parse None (''now '' @ demo_mention 2 @ demo_mention 3) = [2, 3]" by code_simp
  moreover have "\<not> IsChannelMember 7 2 chat2" "\<not> IsChannelMember 7 3 chat2" by code_simp+
  moreover have "set (message_mentions chat_left) = {\<lparr>mn_message = 100, mn_user = 3\<rparr>}" by code_simp
  ultimately show ?thesis by auto
qed

text \<open>
  C34. A deletion is final. Once a message has been deleted, in every later state it is still there with
  nothing left in it, marked with who deleted it and when, and neither an edit nor another deletion of
  it does anything but answer that there is no such message.
\<close>

theorem deletion_final:
  assumes "messages_ok (messages db)" and "SoftDeleteMessage now ch i who db = (Inr msg, db1)" and "message_run parse db1 db2"
  shows "(\<exists>m \<in> set (messages db2). m_id m = i \<and> m_content m = [] \<and> m_mls m = None \<and>
            m_deleted m = Some now \<and> m_deleted_by m = Some who) \<and>
     UpdateMessageContent parse snap now' ch' i content mls db2 = (Inl ErrNotFound, db2) \<and>
     SoftDeleteMessage now' ch' i who' db2 = (Inl ErrNotFound, db2)"
proof -
  have body: "soft_delete_body now ch i who db = Inr (msg, db1)" using assms(2) by (simp add: SoftDeleteMessage_def)
  obtain m where m: "m \<in> set (messages db)" "editable ch i m" using soft_delete_Inr [OF body] by blast
  let ?e = "erase now who m"
  have "messages_move db db1"
    using step_messages [OF message_step.delete [of parse db now ch i who]] assms(2) by simp
  then have ok1: "messages_ok (messages db1)" using messages_move_ok assms(1) by blast
  have e: "?e \<in> set (messages db1)" using soft_delete_Inr [OF body] sql_updateI [OF m(1), of "editable ch i"] m(2) by simp
  have ok2: "messages_ok (messages db2)" and "messages_kept (messages db1) (messages db2)"
    using run_messages [OF assms(3) ok1] by auto
  then obtain b where "b \<in> set (messages db2)" "message_succ ?e b" using e unfolding messages_kept_def by blast
  moreover from this have "b = ?e" by (simp add: message_succ_def erase_def)
  ultimately have e2: "?e \<in> set (messages db2)" by simp
  have id: "m_id ?e = i" using m(2) by (simp add: erase_def editable_def)
  have "sql_row (editable ch' i) (messages db2) = None"
  proof -
    have "\<not> editable ch' i x" if "x \<in> set (messages db2)" for x
    proof
      assume x: "editable ch' i x"
      then have "x = ?e" using ok2 that e2 id distinct_map_inj [of m_id "messages db2" x ?e] by (simp add: messages_ok_def editable_def)
      with x show False by (simp add: editable_def erase_def)
    qed
    then show ?thesis by (simp add: sql_row_None_iff)
  qed
  then have "UpdateMessageContent parse snap now' ch' i content mls db2 = (Inl ErrNotFound, db2)"
      "SoftDeleteMessage now' ch' i who' db2 = (Inl ErrNotFound, db2)"
    by (simp_all add: UpdateMessageContent_def update_message_body_def SoftDeleteMessage_def soft_delete_body_def)
  moreover have "\<exists>m \<in> set (messages db2). m_id m = i \<and> m_content m = [] \<and> m_mls m = None \<and>
            m_deleted m = Some now \<and> m_deleted_by m = Some who"
    using e2 id by (intro bexI [of _ ?e]) (simp_all add: erase_def)
  ultimately show ?thesis by blast
qed

definition chat3 :: db where "chat3 = snd (SoftDeleteMessage 80 7 100 2 chat1)"

theorem deletion_final_witness:
  "UpdateMessageContent demo_parse (snapshot_now 7 chat3) 90 7 100 ''again'' None chat3 = (Inl ErrNotFound, chat3)"
proof -
  have "case SoftDeleteMessage 80 7 100 2 chat1 of (Inr _, _) \<Rightarrow> True | _ \<Rightarrow> False" by code_simp
  then obtain m where m: "SoftDeleteMessage 80 7 100 2 chat1 = (Inr m, chat3)"
    unfolding chat3_def by (auto split: prod.splits sum.splits)
  have "messages_ok (messages chat1)" by code_simp
  from deletion_final [OF this m message_run.here] show ?thesis by blast
qed

section \<open>Files\<close>













definition upload :: "uuid \<Rightarrow> NewAttachment" where
  "upload i = \<lparr>na_ID = i, na_ChannelID = 7, na_UploaderID = 1, na_Filename = ''f'', na_ContentType = ''text'', na_SizeBytes = 1,
     na_Width = None, na_Height = None, na_HasThumbnail = False\<rparr>"





section \<open>Read positions\<close>

definition read_keys :: "db \<Rightarrow> (uuid \<times> uuid) list" where
  "read_keys db = map (\<lambda>r. (rp_channel r, rp_user r)) (read_positions db)"

definition reads_kept :: "db \<Rightarrow> db \<Rightarrow> bool" where
  "reads_kept db db' \<longleftrightarrow> (distinct (read_keys db) \<longrightarrow> distinct (read_keys db')) \<and>
     (\<forall>r \<in> set (read_positions db). \<exists>s \<in> set (read_positions db').
        rp_channel s = rp_channel r \<and> rp_user s = rp_user r \<and> (rp_at r, rp_message r) \<le> (rp_at s, rp_message s))"

lemma reads_kept_frame: "read_positions db' = read_positions db \<Longrightarrow> reads_kept db db'"
  by (auto simp: reads_kept_def read_keys_def)

lemma reads_kept_trans:
  assumes "reads_kept a b" and "reads_kept b c"
  shows "reads_kept a c"
  unfolding reads_kept_def
proof (intro conjI ballI)
  show "distinct (read_keys a) \<longrightarrow> distinct (read_keys c)" using assms by (simp add: reads_kept_def)
  fix r assume "r \<in> set (read_positions a)"
  then obtain s where s: "s \<in> set (read_positions b)" "rp_channel s = rp_channel r" "rp_user s = rp_user r"
      "(rp_at r, rp_message r) \<le> (rp_at s, rp_message s)" using assms(1) unfolding reads_kept_def by blast
  then obtain t where t: "t \<in> set (read_positions c)" "rp_channel t = rp_channel s" "rp_user t = rp_user s"
      "(rp_at s, rp_message s) \<le> (rp_at t, rp_message t)" using assms(2) unfolding reads_kept_def by blast
  have "(rp_at r, rp_message r) \<le> (rp_at t, rp_message t)" by (rule order_trans [OF s(4) t(4)])
  with s t show "\<exists>s \<in> set (read_positions c). rp_channel s = rp_channel r \<and> rp_user s = rp_user r \<and>
      (rp_at r, rp_message r) \<le> (rp_at s, rp_message s)" by auto
qed

lemma set_read_moves:
  assumes "set_read_body ch uid i db = Inr (x, db')"
  shows "reads_kept db db'" and "\<exists>anchor \<in> set (messages db). m_id anchor = i \<and> m_channel anchor = ch \<and>
     (\<exists>s \<in> set (read_positions db'). rp_channel s = ch \<and> rp_user s = uid \<and> message_key anchor \<le> (rp_at s, rp_message s))"
proof -
  let ?P = "\<lambda>r anchor. (rp_channel r = ch \<and> rp_user r = uid) \<and> (rp_at r, rp_message r) < message_key anchor"
  let ?f = "\<lambda>anchor r. r\<lparr>rp_message := m_id anchor, rp_at := m_created anchor\<rparr>"
  have "reads_kept db db' \<and> (\<exists>anchor \<in> set (messages db). m_id anchor = i \<and> m_channel anchor = ch \<and>
     (\<exists>s \<in> set (read_positions db'). rp_channel s = ch \<and> rp_user s = uid \<and> message_key anchor \<le> (rp_at s, rp_message s)))"
    using assms
  proof (cases rule: set_read_Inr)
    case (moved anchor)
    have each: "\<exists>s \<in> set (read_positions db'). rp_channel s = rp_channel r \<and> rp_user s = rp_user r \<and>
        (rp_at r, rp_message r) \<le> (rp_at s, rp_message s) \<and>
        (rp_channel r = ch \<and> rp_user r = uid \<longrightarrow> message_key anchor \<le> (rp_at s, rp_message s))"
      if r: "r \<in> set (read_positions db)" for r
    proof (cases "?P r anchor")
      case True
      then have "?f anchor r \<in> set (read_positions db')"
        using sql_updateI [OF r, of "\<lambda>r. ?P r anchor" "?f anchor"] unfolding moved(4) by simp
      moreover have "(rp_at (?f anchor r), rp_message (?f anchor r)) = message_key anchor"
          "rp_channel (?f anchor r) = rp_channel r" "rp_user (?f anchor r) = rp_user r" by (simp_all add: message_key_def)
      ultimately show ?thesis using True by (metis less_imp_le order_refl)
    next
      case False
      then have "r \<in> set (read_positions db')"
        using sql_updateI_other [OF r, of "\<lambda>r. ?P r anchor" "?f anchor"] unfolding moved(4) by simp
      with False show ?thesis by (intro bexI [of _ r]) (auto simp only: not_less order_refl)
    qed
    have "read_keys db' = read_keys db" unfolding read_keys_def moved(4)
      by simp (rule map_sql_update_frame, simp)
    with each have "reads_kept db db'" unfolding reads_kept_def by metis
    moreover obtain r where "r \<in> set (read_positions db)" "rp_channel r = ch" "rp_user r = uid" using moved(5) by blast
    with each [of r] have "\<exists>s \<in> set (read_positions db'). rp_channel s = ch \<and> rp_user s = uid \<and>
        message_key anchor \<le> (rp_at s, rp_message s)" by blast
    ultimately show ?thesis using moved(1-3) by blast
  next
    case (first anchor)
    have "reads_kept db db'" using first(4) unfolding reads_kept_def read_keys_def first(5) by force
    with first(1-3) show ?thesis unfolding first(5) by (auto simp: message_key_def)
  qed
  then show "reads_kept db db'" "\<exists>anchor \<in> set (messages db). m_id anchor = i \<and> m_channel anchor = ch \<and>
     (\<exists>s \<in> set (read_positions db'). rp_channel s = ch \<and> rp_user s = uid \<and> message_key anchor \<le> (rp_at s, rp_message s))"
    by blast+
qed

lemma step_reads:
  assumes "message_step parse db db'"
  shows "reads_kept db db'"
proof -
  note bf = begin_func_invariant [where I = "reads_kept db", OF reads_kept_frame [OF refl]]
  from assms show ?thesis
  proof cases
    case (send now i nm)
    show ?thesis unfolding send by (rule bf) (auto intro: reads_kept_frame dest: insertMessage_Inr(7))
  next
    case (edit snap now ch i content mls)
    show ?thesis unfolding edit UpdateMessageContent_def by (rule bf) (auto intro: reads_kept_frame dest!: update_message_Inr)
  next
    case (delete now ch i who)
    show ?thesis unfolding delete SoftDeleteMessage_def by (rule bf) (auto intro: reads_kept_frame dest!: soft_delete_Inr)
  next
    case (read ch uid i)
    show ?thesis unfolding read SetReadPosition_def by (rule bf) (erule set_read_moves(1))
  next
    case (upload now na)
    show ?thesis unfolding upload CreateAttachment_def
      by (rule bf) (auto simp: create_attachment_body_def Let_def simp del: sql_exists_iff intro!: reads_kept_frame split: if_splits)
  next
    case (sweep wall age)
    show ?thesis unfolding sweep by (rule reads_kept_frame) (simp add: SweepOrphanAttachments_def Let_def)
  next
    case elsewhere
    then show ?thesis by (intro reads_kept_frame)
  qed
qed

lemma run_reads: "message_run parse db db' \<Longrightarrow> reads_kept db db'"
  by (induction rule: message_run.induct) (auto intro: reads_kept_frame reads_kept_trans step_reads)

lemma read_position_row:
  assumes "distinct (read_keys db)" and "s \<in> set (read_positions db)"
  shows "read_position (rp_channel s) (rp_user s) db = Some s"
  using assms sql_row_unique [of "\<lambda>r. (rp_channel r, rp_user r)" "read_positions db" s]
  by (simp add: read_position_def read_keys_def)

text \<open>
  What was read stays read. Once a reader's position in a channel has been set to a message, then in
  every later state, whatever positions other devices report in whatever order, the reader has one
  position there, it is at or after that message, and the messages counted unread in the channel are
  all after it.
\<close>

theorem read_stays_read:
  assumes "distinct (read_keys db)" and "SetReadPosition ch uid i db = (Inr (), db1)" and "message_run parse db1 db2"
  shows "\<exists>anchor \<in> set (messages db). m_id anchor = i \<and> m_channel anchor = ch \<and>
     (\<exists>s. read_position ch uid db2 = Some s \<and> message_key anchor \<le> (rp_at s, rp_message s)) \<and>
     (\<forall>m \<in> set (unread_messages ch uid db2). message_key anchor < message_key m)"
proof -
  have body: "set_read_body ch uid i db = Inr ((), db1)" using assms(2) by (simp add: SetReadPosition_def)
  obtain anchor s where a: "anchor \<in> set (messages db)" "m_id anchor = i" "m_channel anchor = ch"
      "s \<in> set (read_positions db1)" "rp_channel s = ch" "rp_user s = uid" "message_key anchor \<le> (rp_at s, rp_message s)"
    using set_read_moves(2) [OF body] by blast
  have kept: "reads_kept db1 db2" by (rule run_reads [OF assms(3)])
  have d2: "distinct (read_keys db2)" using set_read_moves(1) [OF body] kept assms(1) by (simp add: reads_kept_def)
  obtain t where t: "t \<in> set (read_positions db2)" "rp_channel t = ch" "rp_user t = uid"
      "(rp_at s, rp_message s) \<le> (rp_at t, rp_message t)" using kept a(4-6) unfolding reads_kept_def by metis
  have pos: "read_position ch uid db2 = Some t" using read_position_row [OF d2 t(1)] t(2,3) by simp
  have le: "message_key anchor \<le> (rp_at t, rp_message t)" by (rule order_trans [OF a(7) t(4)])
  have "message_key anchor < message_key m" if "m \<in> set (unread_messages ch uid db2)" for m
  proof -
    have "(rp_at t, rp_message t) < message_key m"
      using that pos by (simp add: unread_messages_def message_key_def)
    with le show ?thesis by (rule le_less_trans)
  qed
  with a(1-3) pos le show ?thesis by blast
qed


definition chat_read :: db where
  "chat_read = snd (SetReadPosition 7 3 100 chat1)"

theorem read_stays_read_witness:
  "\<exists>s. read_position 7 3 (snd (SetReadPosition 7 3 100 chat_read)) = Some s \<and> (50, 100) \<le> (rp_at s, rp_message s)"
proof -
  have "case SetReadPosition 7 3 100 chat1 of (Inr _, _) \<Rightarrow> True | _ \<Rightarrow> False" by code_simp
  then have r: "SetReadPosition 7 3 100 chat1 = (Inr (), chat_read)"
    unfolding chat_read_def by (auto split: prod.splits sum.splits)
  have d: "distinct (read_keys chat1)" by code_simp
  have run: "message_run demo_parse chat_read (snd (SetReadPosition 7 3 100 chat_read))"
    by (rule message_run.later [OF message_run.here message_step.read])
  have only: "\<forall>m \<in> set (messages chat1). m_id m = 100 \<longrightarrow> message_key m = (50, 100)" by code_simp
  from read_stays_read [OF d r run] only show ?thesis by metis
qed

end
