(* ===== verification/Message_History.thy ===== *)
theory Message_History
  imports Message_Safety
begin

text \<open>
  Pages of a channel's history: what the four page queries of \<^verbatim>\<open>server/internal/storage/messages.go\<close>
  return over the one ordered history, so that a client that follows the pages reads every message
  exactly once, in order, and a page around a message shows it with its neighbours.
\<close>

section \<open>Pages\<close>

text \<open>The whole history of a channel, oldest first, as the page queries see it.\<close>

definition history :: "uuid \<Rightarrow> db \<Rightarrow> message_row list" where
  "history ch db = sql_order message_key (page_select ch db)"

lemma message_keys_distinct: "distinct (map m_id rows) \<Longrightarrow> distinct (map message_key (filter P rows))"
  by (auto simp: distinct_map message_key_def inj_on_def)

lemma history_sorted: "distinct (map m_id (messages db)) \<Longrightarrow> sorted_wrt (\<lambda>a b. message_key a < message_key b) (history ch db)"
  unfolding history_def page_select_def by (intro sql_order_strict message_keys_distinct)

lemma scan_total: "m \<in> set (page_select ch db) \<Longrightarrow> \<exists>msg. scanMessage db m = Some msg \<and> ms_ID msg = m_id m \<and> MessageCursor msg = message_key m"
  by (cases "sql_row (\<lambda>u. u_id u = m_author m) (users db)")
     (auto simp: scanMessage_def page_select_def sql_row_None_iff MessageCursor_def message_key_def)

definition view :: "db \<Rightarrow> message_row \<Rightarrow> Message" where
  "view db m = the (scanMessage db m)"

lemma queryMessages_view: "set rows \<subseteq> set (page_select ch db) \<Longrightarrow> queryMessages db rows = map (view db) rows"
proof (induction rows)
  case (Cons m rows)
  with scan_total [of m ch db] show ?case by (auto simp: queryMessages_def view_def List.map_filter_simps)
qed (simp add: queryMessages_def List.map_filter_simps)

lemma view_key: "m \<in> set (history ch db) \<Longrightarrow> MessageCursor (view db m) = message_key m \<and> ms_ID (view db m) = m_id m"
  using scan_total [of m ch db] by (auto simp: history_def view_def)

lemma cards_frame:
  "map ms_ID (loadMessageCards db msgs) = map ms_ID msgs" "map MessageCursor (loadMessageCards db msgs) = map MessageCursor msgs"
  "length (loadMessageCards db msgs) = length msgs" "(loadMessageCards db msgs = []) = (msgs = [])"
  by (auto simp: loadMessageCards_def loadAttachments_def Let_def MessageCursor_def split: option.splits)

lemma history_subset: "set (filter P (history ch db)) \<subseteq> set (page_select ch db)"
  by (auto simp: history_def)

lemma page_queries:
  "newestMessagesQuery ch n db = map (view db) (take n (rev (history ch db)))"
  "messagesBeforeQuery ch c n db = map (view db) (take n (rev (filter (\<lambda>m. message_key m < c) (history ch db))))"
  "messagesAfterQuery ch c n db = map (view db) (take n (filter (\<lambda>m. c < message_key m) (history ch db)))"
  "messagesFromQuery ch c n db = map (view db) (take n (filter (\<lambda>m. c \<le> message_key m) (history ch db)))"
proof -
  have sub: "set (take n rows) \<subseteq> set (page_select ch db)" if "set rows \<subseteq> set (page_select ch db)" for rows
    using that set_take_subset [of n rows] by blast
  note f = sql_order_filter [of message_key _ "page_select ch db", folded history_def]
  show "newestMessagesQuery ch n db = map (view db) (take n (rev (history ch db)))"
    unfolding newestMessagesQuery_def history_def [symmetric]
    by (rule queryMessages_view [OF sub]) (auto simp: history_def)
  show "messagesBeforeQuery ch c n db = map (view db) (take n (rev (filter (\<lambda>m. message_key m < c) (history ch db))))"
    unfolding messagesBeforeQuery_def f by (rule queryMessages_view [OF sub]) (use history_subset in \<open>auto simp: history_def\<close>)
  show "messagesAfterQuery ch c n db = map (view db) (take n (filter (\<lambda>m. c < message_key m) (history ch db)))"
    unfolding messagesAfterQuery_def f by (rule queryMessages_view [OF sub], rule history_subset)
  show "messagesFromQuery ch c n db = map (view db) (take n (filter (\<lambda>m. c \<le> message_key m) (history ch db)))"
    unfolding messagesFromQuery_def f by (rule queryMessages_view [OF sub], rule history_subset)
qed

text \<open>The last \<open>n\<close> of a list, as the backwards queries and the cut at the limit leave it.\<close>

definition lastn :: "nat \<Rightarrow> 'a list \<Rightarrow> 'a list" where
  "lastn n xs = rev (take n (rev xs))"

lemma lastn_drop: "lastn n xs = drop (length xs - n) xs"
  by (simp add: lastn_def take_rev)

lemma cut_page_probe: "cut_page n (take (Suc n) xs) = take n xs"
  by (auto simp: cut_page_def min_def)

lemma cut_page_map: "cut_page n (map f xs) = map f (cut_page n xs)"
  by (simp add: cut_page_def take_map)

definition rows_before :: "uuid \<Rightarrow> cursor option \<Rightarrow> db \<Rightarrow> message_row list" where
  "rows_before ch before db = (case before of None \<Rightarrow> history ch db
     | Some c \<Rightarrow> filter (\<lambda>m. message_key m < c) (history ch db))"

lemma ListMessages_back:
  assumes "lm_After params = None" and "lm_Around params = None"
  shows "\<exists>pg. ListMessages params db = Inr pg \<and>
    (let rows = rows_before (lm_ChannelID params) (lm_Before params) db
     in map ms_ID (pg_Messages pg) = map m_id (lastn (lm_Limit params) rows) \<and>
        map MessageCursor (pg_Messages pg) = map message_key (lastn (lm_Limit params) rows) \<and>
        pg_HasBefore pg = (lm_Limit params < length rows))"
proof -
  define rows where "rows = rows_before (lm_ChannelID params) (lm_Before params) db"
  let ?n = "lm_Limit params"
  have q: "messagePageQuery params db = map (view db) (take (Suc ?n) (rev rows))"
    using assms(1) by (auto simp: messagePageQuery_def page_queries rows_def rows_before_def Let_def split: option.splits)
  have more: "?n < length (messagePageQuery params db) \<longleftrightarrow> ?n < length rows" by (simp add: q)
  have cut: "cut_page ?n (messagePageQuery params db) = map (view db) (take ?n (rev rows))"
    unfolding q cut_page_map cut_page_probe ..
  have sub: "m \<in> set (history (lm_ChannelID params) db)" if "m \<in> set (lastn ?n rows)" for m
    using that set_take_subset [of ?n "rev rows"] by (auto simp: lastn_def rows_def rows_before_def split: option.splits)
  then have vk: "map ms_ID (map (view db) (lastn ?n rows)) = map m_id (lastn ?n rows)"
      "map MessageCursor (map (view db) (lastn ?n rows)) = map message_key (lastn ?n rows)"
    using view_key by auto
  have "ListMessages params db = Inr (let msgs = map (view db) (lastn ?n rows) in
      if msgs = [] then \<lparr>pg_Messages = [], pg_HasBefore = (?n < length rows), pg_HasAfter = False\<rparr>
      else \<lparr>pg_Messages = loadMessageCards db msgs, pg_HasBefore = (?n < length rows),
            pg_HasAfter = (lm_Before params \<noteq> None \<and> newerMessageExists (lm_ChannelID params) (last msgs) db)\<rparr>)"
    using assms unfolding ListMessages_def Let_def more cut by (auto simp: rev_map lastn_def)
  then show ?thesis
    unfolding Let_def rows_def [symmetric] using vk by (auto simp: cards_frame)
qed

text \<open>
  A client that opens a channel and scrolls up: it fetches the newest page, then the page before its
  oldest message, until a page says that nothing is before it.
\<close>

fun scrollback :: "nat \<Rightarrow> uuid \<Rightarrow> nat \<Rightarrow> cursor option \<Rightarrow> db \<Rightarrow> Message list" where
  "scrollback 0 ch limit before db = []"
| "scrollback (Suc fuel) ch limit before db =
     (case ListMessages \<lparr>lm_ChannelID = ch, lm_Before = before, lm_After = None, lm_Around = None, lm_Limit = limit\<rparr> db of
        Inl e \<Rightarrow> []
      | Inr pg \<Rightarrow>
          (if pg_HasBefore pg
           then scrollback fuel ch limit (Some (MessageCursor (hd (pg_Messages pg)))) db @ pg_Messages pg
           else pg_Messages pg))"

lemma filter_below_sorted:
  assumes "sorted_wrt (\<lambda>a b. message_key a < message_key b) (xs @ ys)" and "ys \<noteq> []"
  shows "filter (\<lambda>m. message_key m < message_key (hd ys)) (xs @ ys) = xs"
proof -
  have cross: "\<forall>a \<in> set xs. \<forall>b \<in> set ys. message_key a < message_key b" and ys: "sorted_wrt (\<lambda>a b. message_key a < message_key b) ys"
    using assms(1) by (auto simp: sorted_wrt_append)
  have "filter (\<lambda>m. message_key m < message_key (hd ys)) xs = xs" using cross assms(2) by (simp add: filter_id_conv)
  moreover have "filter (\<lambda>m. message_key m < message_key (hd ys)) ys = []"
    using ys assms(2) by (cases ys) (auto simp: filter_empty_conv dest: less_imp_not_less)
  ultimately show ?thesis by simp
qed

lemma scrollback_prefix:
  assumes "distinct (map m_id (messages db))" and "0 < limit" and "history ch db = pre @ suf"
    and "rows_before ch before db = pre"
    and "length pre \<le> fuel"
  shows "map ms_ID (scrollback (Suc fuel) ch limit before db) = map m_id pre"
  using assms(3-)
proof (induction fuel arbitrary: pre suf before rule: less_induct)
  case (less fuel)
  let ?p = "\<lparr>lm_ChannelID = ch, lm_Before = before, lm_After = None, lm_Around = None, lm_Limit = limit\<rparr>"
  obtain pg where pg: "ListMessages ?p db = Inr pg" "map ms_ID (pg_Messages pg) = map m_id (lastn limit pre)"
      "map MessageCursor (pg_Messages pg) = map message_key (lastn limit pre)" "pg_HasBefore pg = (limit < length pre)"
    using ListMessages_back [of ?p db] less.prems(2) by (auto simp: Let_def)
  show ?case
  proof (cases "limit < length pre")
    case False
    with pg show ?thesis by (simp add: lastn_def)
  next
    case True
    let ?rest = "take (length pre - limit) pre" and ?page = "lastn limit pre"
    have split: "pre = ?rest @ ?page" by (simp add: lastn_drop)
    have ne: "?page \<noteq> []" using True assms(2) by (simp add: lastn_drop)
    then have pm: "pg_Messages pg \<noteq> []" using pg(2) by auto
    have "MessageCursor (hd (pg_Messages pg)) = message_key (hd ?page)"
      using pg(3) ne pm by (metis hd_map)
    moreover have hist: "history ch db = ?rest @ (?page @ suf)" using less.prems(1) split by (metis append_assoc)
    moreover have "filter (\<lambda>m. message_key m < message_key (hd (?page @ suf))) (?rest @ (?page @ suf)) = ?rest"
      using history_sorted [OF assms(1), of ch] ne unfolding hist by (intro filter_below_sorted) simp_all
    moreover have "hd (?page @ suf) = hd ?page" using ne by simp
    ultimately have rest: "rows_before ch (Some (MessageCursor (hd (pg_Messages pg)))) db = ?rest"
      by (simp only: rows_before_def option.case)
    obtain k where k: "fuel = Suc k" using True less.prems(3) assms(2) by (cases fuel) auto
    have "map ms_ID (scrollback (Suc k) ch limit (Some (MessageCursor (hd (pg_Messages pg)))) db) = map m_id ?rest"
      by (rule less.IH [OF _ hist rest]) (use k less.prems(3) assms(2) True in auto)
    moreover have "scrollback (Suc fuel) ch limit before db =
        scrollback fuel ch limit (Some (MessageCursor (hd (pg_Messages pg)))) db @ pg_Messages pg"
      using pg(1,4) True by (subst scrollback.simps(2)) simp
    ultimately have "map ms_ID (scrollback (Suc fuel) ch limit before db) = map m_id (?rest @ ?page)"
      using pg(2) unfolding k by (simp del: scrollback.simps)
    then show ?thesis using split by simp
  qed
qed

section \<open>Properties\<close>

text \<open>
  C25. Scrolling back reads everything once. A client that fetches the newest page of a channel and then
  the page before the oldest message it has, until a page says that nothing is before it, ends up with
  every message of the channel exactly once, in the order of time and identifier, whatever the page
  size.
\<close>

theorem scrollback_complete:
  assumes "distinct (map m_id (messages db))" and "0 < limit" and "length (history ch db) \<le> fuel"
  shows "map ms_ID (scrollback (Suc fuel) ch limit None db) = map m_id (history ch db) \<and>
     sorted_wrt (\<lambda>a b. message_key a < message_key b) (history ch db) \<and>
     set (history ch db) = {m \<in> set (messages db). m_channel m = ch \<and> (\<exists>u \<in> set (users db). u_id u = m_author m)}"
proof (intro conjI)
  show "map ms_ID (scrollback (Suc fuel) ch limit None db) = map m_id (history ch db)"
    by (rule scrollback_prefix [OF assms(1,2), of ch "history ch db" "[]"]) (simp_all add: rows_before_def assms(3))
  show "sorted_wrt (\<lambda>a b. message_key a < message_key b) (history ch db)" by (rule history_sorted [OF assms(1)])
  show "set (history ch db) = {m \<in> set (messages db). m_channel m = ch \<and> (\<exists>u \<in> set (users db). u_id u = m_author m)}"
    by (auto simp: history_def page_select_def)
qed

definition chat_long :: db where
  "chat_long = snd (CreateMessage demo_parse quiet (\<lambda>_. 50) (\<lambda>_. 102) ((hello ''c'')\<lparr>nm_ClientMsgID := 1\<rparr>)
     (snd (CreateMessage demo_parse quiet (\<lambda>_. 60) (\<lambda>_. 101) ((hello ''b'')\<lparr>nm_ClientMsgID := 2\<rparr>) chat1)))"

theorem scrollback_complete_witness:
  "map ms_ID (scrollback 4 7 2 None chat_long) = [100, 102, 101]"
proof -
  have d: "distinct (map m_id (messages chat_long))" by code_simp
  have h: "map m_id (history 7 chat_long) = [100, 102, 101]" by code_simp
  then have "length (history 7 chat_long) = 3" by (metis length_map list.size(3,4) One_nat_def add_Suc_right add.right_neutral numeral_3_eq_3 add_0)
  then show ?thesis using scrollback_complete [OF d, of 2 7 3] h by simp
qed

text \<open>
  A page around a message shows it in its place. The page has the asked-for message at its middle:
  before it the \<open>limit div 2\<close> messages closest before it, from it on the closest after it, at most
  \<open>limit\<close> in all, with no gap and in order; the two flags say exactly whether the history goes on past
  each end of the page.
\<close>

theorem around_page_exact:
  assumes "distinct (map m_id (messages db))" and "0 < limit" and "history ch db = older @ m # newer"
  shows "\<exists>pg. ListMessages \<lparr>lm_ChannelID = ch, lm_Before = None, lm_After = None, lm_Around = Some (message_key m), lm_Limit = limit\<rparr> db = Inr pg \<and>
     map ms_ID (pg_Messages pg) = map m_id (lastn (limit div 2) older @ m # take (limit - limit div 2 - 1) newer) \<and>
     length (pg_Messages pg) \<le> limit \<and>
     pg_HasBefore pg = (limit div 2 < length older) \<and> pg_HasAfter pg = (limit - limit div 2 - 1 < length newer)"
proof -
  let ?p = "\<lparr>lm_ChannelID = ch, lm_Before = None, lm_After = None, lm_Around = Some (message_key m), lm_Limit = limit\<rparr>"
  let ?k = "limit - limit div 2 - 1"
  have k: "limit - 1 - limit div 2 = ?k" "Suc ?k = limit - limit div 2" using assms(2) by simp_all
  have sorted: "sorted_wrt (\<lambda>a b. message_key a < message_key b) (older @ m # newer)"
    using history_sorted [OF assms(1), of ch] unfolding assms(3) .
  have below: "filter (\<lambda>x. message_key x < message_key m) (history ch db) = older"
    using filter_below_sorted [OF sorted] unfolding assms(3) by simp
  have above: "filter (\<lambda>x. message_key m \<le> message_key x) (history ch db) = m # newer"
  proof -
    have "filter (\<lambda>x. message_key m \<le> message_key x) older = []"
      using sorted by (auto simp: sorted_wrt_append filter_empty_conv not_le)
    moreover have "filter (\<lambda>x. message_key m \<le> message_key x) newer = newer"
      using sorted by (auto simp: sorted_wrt_append filter_id_conv intro: less_imp_le)
    ultimately show ?thesis unfolding assms(3) by simp
  qed
  define msgs where "msgs = map (view db) (lastn (limit div 2) older @ take (Suc ?k) (m # newer))"
  have q: "messagesBeforeQuery ch (message_key m) (limit div 2 + 1) db = map (view db) (take (Suc (limit div 2)) (rev older))"
      "messagesFromQuery ch (message_key m) (?k + 2) db = map (view db) (take (Suc (Suc ?k)) (m # newer))"
    unfolding page_queries below above by simp_all
  have page: "aroundPage ?p (message_key m) db = \<lparr>pg_Messages = loadMessageCards db msgs,
      pg_HasBefore = (limit div 2 < length older), pg_HasAfter = (?k < length newer)\<rparr>"
  proof -
    have "rev (cut_page (limit div 2) (map (view db) (take (Suc (limit div 2)) (rev older)))) = map (view db) (lastn (limit div 2) older)"
      unfolding cut_page_map cut_page_probe by (simp add: lastn_def rev_map)
    moreover have "cut_page (?k + 1) (map (view db) (take (Suc (Suc ?k)) (m # newer))) = map (view db) (take (Suc ?k) (m # newer))"
      unfolding cut_page_map using cut_page_probe [of "Suc ?k" "m # newer"] by simp
    ultimately show ?thesis
      unfolding aroundPage_def Let_def ListMessagesParams.simps k(1) q msgs_def by simp
  qed
  have "map ms_ID msgs = map m_id (lastn (limit div 2) older @ m # take ?k newer)"
  proof -
    have "x \<in> set (history ch db)" if "x \<in> set (lastn (limit div 2) older @ take (Suc ?k) (m # newer))" for x
      using that unfolding assms(3) by (auto simp: lastn_drop dest: in_set_dropD in_set_takeD)
    then show ?thesis unfolding msgs_def using view_key by auto
  qed
  moreover have "length msgs \<le> limit" using k(2) assms(2) by (simp add: msgs_def lastn_drop) linarith
  moreover have "ListMessages ?p db = Inr (aroundPage ?p (message_key m) db)" by (simp add: ListMessages_def)
  ultimately show ?thesis by (auto simp: page cards_frame)
qed

theorem around_page_exact_witness:
  "\<exists>pg. ListMessages \<lparr>lm_ChannelID = 7, lm_Before = None, lm_After = None, lm_Around = Some (50, 102), lm_Limit = 2\<rparr> chat_long = Inr pg \<and>
     map ms_ID (pg_Messages pg) = [100, 102] \<and> \<not> pg_HasBefore pg \<and> pg_HasAfter pg"
proof -
  have d: "distinct (map m_id (messages chat_long))" by code_simp
  have h: "map message_key (history 7 chat_long) = [(50, 100), (50, 102), (60, 101)]" by code_simp
  then obtain a m b where abc: "history 7 chat_long = [a] @ m # [b]" "message_key a = (50, 100)" "message_key m = (50, 102)"
    by auto
  then have "m_id a = 100" "m_id m = 102" by (simp_all add: message_key_def)
  with around_page_exact [OF d _ abc(1), of 2] abc(3) show ?thesis by (fastforce simp: lastn_def)
qed

end
