(* ===== verification/Go_Encoding.thy ===== *)
theory Go_Encoding
  imports Go_Text
begin

text \<open>
  Three encodings of Go's standard library that signed and chained values go through:
  \<open>strconv.FormatInt\<close> and \<open>strconv.ParseInt\<close> in base ten at 64 bits, \<open>binary.BigEndian.PutUint64\<close>, and
  \<open>base64.RawURLEncoding\<close>. Each comes with its round trip.
\<close>

section \<open>Decimal integers\<close>

definition FormatInt :: "int \<Rightarrow> string" where
  "FormatInt n = (if n < 0 then CHR ''-'' # itoa (nat (- n)) else itoa (nat n))"

definition is_digit :: "char \<Rightarrow> bool" where
  "is_digit c \<longleftrightarrow> 48 \<le> byte_of c \<and> byte_of c \<le> 57"

definition ParseUint :: "string \<Rightarrow> nat option" where
  "ParseUint s = (if s = [] \<or> \<not> list_all is_digit s \<or> 2 ^ 64 \<le> atoi s then None else Some (atoi s))"

definition ParseInt :: "string \<Rightarrow> int option" where
  "ParseInt s =
     (case s of
        [] \<Rightarrow> None
      | c # r \<Rightarrow>
          (let neg = (c = CHR ''-''); digits = (if c = CHR ''-'' \<or> c = CHR ''+'' then r else s)
           in case ParseUint digits of
                None \<Rightarrow> None
              | Some un \<Rightarrow>
                  if \<not> neg \<and> 2 ^ 63 \<le> un \<or> neg \<and> 2 ^ 63 < un then None
                  else Some (if neg then - int un else int un)))"

lemma digits_itoa: "list_all is_digit (itoa n)"
  using itoa_digits by (auto simp: list_all_iff is_digit_def)

lemma itoa_hd: "itoa n = c # r \<Longrightarrow> c \<noteq> CHR ''-'' \<and> c \<noteq> CHR ''+'' \<and> c \<noteq> CHR 0x0A"
  using itoa_digits [of c n] by (auto simp: byte_of_def)

lemma FormatInt_inj: "FormatInt m = FormatInt n \<Longrightarrow> m = n"
proof -
  assume eq: "FormatInt m = FormatInt n"
  obtain c r d q where "itoa (nat m) = c # r" "itoa (nat n) = d # q" using itoa_nonempty by (metis neq_Nil_conv)
  with eq itoa_hd itoa_inj show "m = n"
    by (auto simp: FormatInt_def split: if_splits) (metis eq_nat_nat_iff itoa_inj neg_equal_iff_equal neg_0_le_iff_le linorder_not_le order_less_imp_le, metis eq_nat_nat_iff itoa_inj linorder_not_le)
qed

lemma FormatInt_no_newline: "CHR 0x0A \<notin> set (FormatInt n)"
  using itoa_digits [of "CHR 0x0A"] by (auto simp: FormatInt_def byte_of_def)

lemma ParseInt_FormatInt:
  assumes "- (2 ^ 63) \<le> n" and "n < 2 ^ 63"
  shows "ParseInt (FormatInt n) = Some n"
proof (cases "n < 0")
  case True
  then have "nat (- n) \<le> 2 ^ 63" using assms(1) by simp
  then have "ParseUint (itoa (nat (- n))) = Some (nat (- n))"
    by (simp add: ParseUint_def itoa_nonempty digits_itoa atoi_itoa del: atoi.simps)
  with True assms(1) show ?thesis by (simp add: ParseInt_def FormatInt_def Let_def)
next
  case False
  then have lt: "nat n < 2 ^ 63" using assms(2) by simp
  then have p: "ParseUint (itoa (nat n)) = Some (nat n)"
    by (simp add: ParseUint_def itoa_nonempty digits_itoa atoi_itoa del: atoi.simps)
  obtain c r where c: "itoa (nat n) = c # r" using itoa_nonempty by (metis neq_Nil_conv)
  with False p lt itoa_hd [OF c] show ?thesis by (simp add: ParseInt_def FormatInt_def Let_def)
qed

section \<open>Big-endian lengths\<close>

fun be_bytes :: "nat \<Rightarrow> nat \<Rightarrow> bytes" where
  "be_bytes 0 v = []"
| "be_bytes (Suc k) v = be_bytes k (v div 256) @ [char_of (v mod 256)]"

text \<open>\<open>PutUint64\<close> of \<open>uint64(v)\<close>: eight bytes, the most significant first.\<close>

definition PutUint64 :: "nat \<Rightarrow> bytes" where
  "PutUint64 v = be_bytes 8 v"

lemma length_be_bytes [simp]: "length (be_bytes k v) = k"
  by (induction k arbitrary: v) auto

lemma glue: "q < k \<Longrightarrow> (p * k + q) div k = (p::nat) \<and> (p * k + q) mod k = q"
  by simp

lemma be_bytes_mod: "be_bytes k v = be_bytes k w \<longleftrightarrow> v mod 256 ^ k = w mod 256 ^ k"
proof (induction k arbitrary: v w)
  case (Suc k)
  have split: "x mod 256 ^ Suc k = 256 * (x div 256 mod 256 ^ k) + x mod 256" for x :: nat
    by (simp add: mod_mult2_eq)
  have chr: "(char_of (v mod 256) = (char_of (w mod 256) :: char)) = (v mod 256 = w mod 256)"
    by (metis mod_mod_trivial of_char_of)
  have lt: "v mod 256 < 256" "w mod 256 < 256" by simp_all
  have "(256 * a + v mod 256 = 256 * b + w mod 256) = (a = b \<and> v mod 256 = w mod 256)" for a b
    using glue [OF lt(1), of a] glue [OF lt(2), of b] by (metis mult.commute)
  then show ?case unfolding be_bytes.simps split using Suc.IH chr by simp
qed simp

lemma PutUint64_inj: "v < 2 ^ 64 \<Longrightarrow> w < 2 ^ 64 \<Longrightarrow> PutUint64 v = PutUint64 w \<Longrightarrow> v = w"
  unfolding PutUint64_def be_bytes_mod by simp

section \<open>Base 64\<close>

definition base64url_alphabet :: string where
  "base64url_alphabet = ''ABCDEFGHIJKLMNOPQRSTUVWXYZabcdefghijklmnopqrstuvwxyz0123456789-_''"

definition b64_symbol :: "nat \<Rightarrow> char" where
  "b64_symbol v = base64url_alphabet ! v"

definition b64_value :: "char \<Rightarrow> nat option" where
  "b64_value c = (let i = length (takeWhile (\<lambda>d. d \<noteq> c) base64url_alphabet) in if i < 64 then Some i else None)"

fun b64_encode :: "nat list \<Rightarrow> nat list" where
  "b64_encode [] = []"
| "b64_encode [a] = [a div 4, a mod 4 * 16]"
| "b64_encode [a, b] = [a div 4, a mod 4 * 16 + b div 16, b mod 16 * 4]"
| "b64_encode (a # b # c # r) = [a div 4, a mod 4 * 16 + b div 16, b mod 16 * 4 + c div 64, c mod 64] @ b64_encode r"

fun b64_decode :: "nat list \<Rightarrow> nat list option" where
  "b64_decode [] = Some []"
| "b64_decode [w] = None"
| "b64_decode [w, x] = Some [w * 4 + x div 16]"
| "b64_decode [w, x, y] = Some [w * 4 + x div 16, x mod 16 * 16 + y div 4]"
| "b64_decode (w # x # y # z # r) =
     map_option ((@) [w * 4 + x div 16, x mod 16 * 16 + y div 4, y mod 4 * 64 + z]) (b64_decode r)"

definition base64_EncodeToString :: "bytes \<Rightarrow> string" where
  "base64_EncodeToString s = map b64_symbol (b64_encode (map byte_of s))"

text \<open>
  \<open>DecodeString\<close> skips carriage returns and line feeds, refuses every other foreign symbol (padding
  too) and a lone last symbol, and drops the spare bits of the last one.
\<close>

fun all_some :: "'a option list \<Rightarrow> 'a list option" where
  "all_some [] = Some []"
| "all_some (x # xs) = (case x of None \<Rightarrow> None | Some a \<Rightarrow> map_option ((#) a) (all_some xs))"

definition base64_DecodeString :: "string \<Rightarrow> bytes option" where
  "base64_DecodeString s =
     (case all_some (map b64_value (filter (\<lambda>c. c \<noteq> CHR 0x0A \<and> c \<noteq> CHR 0x0D) s)) of
        None \<Rightarrow> None
      | Some vs \<Rightarrow> map_option (map char_of) (b64_decode vs))"

lemma b64_symbols: "v < 64 \<Longrightarrow> b64_value (b64_symbol v) = Some v \<and> b64_symbol v \<noteq> CHR 0x0A \<and> b64_symbol v \<noteq> CHR 0x0D"
proof -
  have "list_all (\<lambda>v. b64_value (b64_symbol v) = Some v \<and> b64_symbol v \<noteq> CHR 0x0A \<and> b64_symbol v \<noteq> CHR 0x0D) [0..<64]" by code_simp
  then show "v < 64 \<Longrightarrow> b64_value (b64_symbol v) = Some v \<and> b64_symbol v \<noteq> CHR 0x0A \<and> b64_symbol v \<noteq> CHR 0x0D"
    by (simp add: list_all_iff)
qed

lemma b64_encode_range: "list_all (\<lambda>b. b < 256) bs \<Longrightarrow> list_all (\<lambda>v. v < 64) (b64_encode bs)"
proof (induction bs rule: b64_encode.induct)
  case (3 a b)
  then have "a mod 4 * 16 + b div 16 < 64" "a div 4 < 64" "b mod 16 * 4 < 64" by simp_all (linarith, presburger+)
  then show ?case by simp
next
  case (4 a b c r)
  then have "a mod 4 * 16 + b div 16 < 64" "a div 4 < 64" "b mod 16 * 4 + c div 64 < 64" by simp_all linarith+
  with 4 show ?case by simp
qed simp_all

lemma b64_pieces:
  assumes "b < 256" and "c < 256"
  shows "a div 4 * 4 + (a mod 4 * 16 + b div 16) div 16 = a"
    and "(a mod 4 * 16 + b div 16) mod 16 * 16 + (b mod 16 * 4 + c div 64) div 4 = b"
    and "(b mod 16 * 4 + c div 64) mod 4 * 64 + c mod 64 = (c::nat)"
    and "(a mod 4 * 16 + b div 16) mod 16 * 16 + b mod 16 * 4 div 4 = b"
proof -
  have b: "b div 16 < 16" and c: "c div 64 < 4" using assms by simp_all
  note g = glue [OF b, of "a mod 4"] glue [OF c, of "b mod 16"]
  show "a div 4 * 4 + (a mod 4 * 16 + b div 16) div 16 = a" using g by simp
  show "(a mod 4 * 16 + b div 16) mod 16 * 16 + (b mod 16 * 4 + c div 64) div 4 = b" using g by simp
  show "(b mod 16 * 4 + c div 64) mod 4 * 64 + c mod 64 = c" using g by simp
  show "(a mod 4 * 16 + b div 16) mod 16 * 16 + b mod 16 * 4 div 4 = b" using g by simp
qed

lemma b64_decode_encode: "list_all (\<lambda>b. b < 256) bs \<Longrightarrow> b64_decode (b64_encode bs) = Some bs"
proof (induction bs rule: b64_encode.induct)
  case (4 a b c r)
  then have "b < 256" "c < 256" by simp_all
  note p = b64_pieces(1,2) [OF this, of a] b64_pieces(3) [OF this]
  have "b64_decode (b64_encode (a # b # c # r)) = map_option ((@) [a, b, c]) (b64_decode (b64_encode r))"
    by (simp only: b64_encode.simps append.simps b64_decode.simps p)
  with 4 show ?case by simp
next
  case (3 a b)
  then have "b < 256" by simp
  then show ?case using b64_pieces(1,4) [of b b a] by (simp only: b64_encode.simps b64_decode.simps)
qed simp_all

lemma all_some_map: "\<forall>x \<in> set xs. f x = Some (g x) \<Longrightarrow> all_some (map f xs) = Some (map g xs)"
  by (induction xs) auto

lemma base64_roundtrip: "base64_DecodeString (base64_EncodeToString s) = Some s"
proof -
  have range: "list_all (\<lambda>b. b < 256) (map byte_of s)" by (simp add: list_all_iff byte_of_def)
  let ?vs = "b64_encode (map byte_of s)"
  have vs: "\<forall>v \<in> set ?vs. v < 64" using b64_encode_range [OF range] by (simp add: list_all_iff)
  then have "filter (\<lambda>c. c \<noteq> CHR 0x0A \<and> c \<noteq> CHR 0x0D) (map b64_symbol ?vs) = map b64_symbol ?vs"
    using b64_symbols by (auto simp: filter_id_conv)
  moreover have "all_some (map b64_value (map b64_symbol ?vs)) = Some ?vs"
    using all_some_map [of ?vs "b64_value \<circ> b64_symbol" "\<lambda>v. v"] vs b64_symbols by simp
  moreover have "map char_of (map byte_of s) = s" by (simp add: byte_of_def map_idI comp_def)
  ultimately show ?thesis
    by (simp add: base64_DecodeString_def base64_EncodeToString_def b64_decode_encode [OF range] del: map_map)
qed

end
