(* ===== verification/Audit_Log.thy ===== *)
theory Audit_Log
  imports Schema Go_Encoding "HOL-Library.Product_Lexorder" "HOL-Library.Multiset"
begin

text \<open>
  The tamper-evident log of administrative actions: \<^verbatim>\<open>server/internal/audit/audit.go\<close> (sealing an entry
  with a keyed hash over its fields and the hash before it, checking a page),
  \<^verbatim>\<open>server/internal/storage/audit.go\<close> (appending under the chain's lock, reading pages) and the checks of
  the handler in \<^verbatim>\<open>server/internal/httpserver/audit_handlers.go\<close>.

  What is not the server's own code is a parameter. \<open>chain_lib\<close> has HMAC-SHA256, the text of a uuid,
  \<open>encoding/json\<close> decoding and encoding again, and the text of an unmapped address; \<open>db_codec\<close> has what
  the jsonb and inet columns give back for what was written. No property of the hash is assumed: where a
  theorem needs that it has no collisions, it names the collision instead.
\<close>

section \<open>Data\<close>

record AuditActor =
  aa_ID :: uuid
  aa_Username :: string
  aa_DisplayName :: string

record AuditEntry =
  e_Seq :: int
  e_ID :: uuid
  e_Action :: string
  e_ActorID :: "uuid option"
  e_TargetID :: "uuid option"
  e_TargetLabel :: "string option"
  e_Detail :: "bytes option"
  e_IP :: "string option"
  e_OccurredAt :: instant
  e_PrevHash :: bytes
  e_EntryHash :: bytes
  e_Actor :: "AuditActor option"

record chain_lib =
  hmac_sha256 :: "bytes \<Rightarrow> bytes \<Rightarrow> bytes"
  uuid_String :: "uuid \<Rightarrow> string"
  json_recode :: "bytes \<Rightarrow> bytes option"
  addr_text :: "string \<Rightarrow> string"

record db_codec =
  jsonb_text :: "bytes \<Rightarrow> bytes option"
  inet_text :: "string \<Rightarrow> string"

section \<open>Sealing\<close>

text \<open>\<open>New\<close>: a key shorter than \<open>minKeyLen\<close> bytes is refused.\<close>

definition minKeyLen :: nat where "minKeyLen = 32"

definition NewChain :: "bytes \<Rightarrow> bytes option" where
  "NewChain key = (if length key < minKeyLen then None else Some key)"

text \<open>What \<open>field\<close> writes into the hash: a presence byte, the length in eight bytes, the value.\<close>

definition field :: "bool \<Rightarrow> bytes \<Rightarrow> bytes" where
  "field present b = char_of (of_bool present :: nat) # PutUint64 (length b) @ b"

definition optField :: "bytes option \<Rightarrow> bytes" where
  "optField v = (case v of None \<Rightarrow> field False [] | Some b \<Rightarrow> field True b)"

definition uuidField :: "chain_lib \<Rightarrow> uuid option \<Rightarrow> bytes" where
  "uuidField lib i = (case i of None \<Rightarrow> field False [] | Some u \<Rightarrow> field True (uuid_String lib u))"

definition canonicalJSON :: "chain_lib \<Rightarrow> bytes \<Rightarrow> bytes" where
  "canonicalJSON lib raw =
     (if raw = [] then raw else case json_recode lib raw of None \<Rightarrow> raw | Some out \<Rightarrow> out)"

definition seal_input :: "chain_lib \<Rightarrow> AuditEntry \<Rightarrow> bytes" where
  "seal_input lib e =
     e_PrevHash e @
     field True (uuid_String lib (e_ID e)) @
     field True (e_Action e) @
     uuidField lib (e_ActorID e) @
     uuidField lib (e_TargetID e) @
     optField (e_TargetLabel e) @
     field (e_Detail e \<noteq> None) (canonicalJSON lib (case e_Detail e of None \<Rightarrow> [] | Some d \<Rightarrow> d)) @
     optField (map_option (addr_text lib) (e_IP e)) @
     field True (FormatInt (e_OccurredAt e))"

definition Seal :: "chain_lib \<Rightarrow> bytes \<Rightarrow> AuditEntry \<Rightarrow> bytes" where
  "Seal lib key e = hmac_sha256 lib key (seal_input lib e)"

section \<open>Checking\<close>

datatype BreakError = Mismatch int uuid | Unlinked int uuid int

definition bySeq :: "AuditEntry list \<Rightarrow> AuditEntry list" where
  "bySeq entries = sort_key e_Seq entries"

fun verifyEach :: "(AuditEntry \<Rightarrow> bytes) \<Rightarrow> AuditEntry list \<Rightarrow> BreakError option" where
  "verifyEach seal [] = None"
| "verifyEach seal (e # es) = (if e_EntryHash e \<noteq> seal e then Some (Mismatch (e_Seq e) (e_ID e)) else verifyEach seal es)"

fun verifyLinks :: "AuditEntry list \<Rightarrow> BreakError option" where
  "verifyLinks (a # b # es) =
     (if e_PrevHash b \<noteq> e_EntryHash a then Some (Unlinked (e_Seq b) (e_ID b) (e_Seq a)) else verifyLinks (b # es))"
| "verifyLinks es = None"

definition Verify :: "(AuditEntry \<Rightarrow> bytes) \<Rightarrow> AuditEntry list \<Rightarrow> BreakError option" where
  "Verify seal entries = verifyEach seal (bySeq entries)"

definition VerifyRange :: "(AuditEntry \<Rightarrow> bytes) \<Rightarrow> AuditEntry list \<Rightarrow> BreakError option" where
  "VerifyRange seal entries =
     (let ordered = bySeq entries
      in case verifyEach seal ordered of Some b \<Rightarrow> Some b | None \<Rightarrow> verifyLinks ordered)"

section \<open>Appending\<close>

definition auditHashLen :: nat where "auditHashLen = 32"

text \<open>The zero \<open>time.Time\<close>, in microseconds: the first of January of year one.\<close>

definition zero_time :: instant where "zero_time = - 62135596800000000"

definition chain_head :: "db \<Rightarrow> audit_row option" where
  "chain_head db = (case rev (sql_order ae_seq (audit_entries db)) of [] \<Rightarrow> None | r # _ \<Rightarrow> Some r)"

text \<open>The INSERT of a sealed entry, with the constraints of the table (migration 0009).\<close>

definition insert_audit :: "db_codec \<Rightarrow> AuditEntry \<Rightarrow> (db, AuditEntry) tx" where
  "insert_audit codec e db =
     (case (case e_Detail e of None \<Rightarrow> Some None | Some d \<Rightarrow> map_option Some (jsonb_text codec d)) of
        None \<Rightarrow> Inl (ErrOther ''invalid input syntax for type json'')
      | Some detail \<Rightarrow>
          if char_length (e_Action e) < 1 \<or> 64 < char_length (e_Action e)
            \<or> length (e_PrevHash e) \<noteq> auditHashLen \<or> length (e_EntryHash e) \<noteq> auditHashLen then Inl CheckViolation
          else if sql_exists (\<lambda>r. ae_id r = e_ID e \<or> ae_hash r = e_EntryHash e) (audit_entries db) then Inl UniqueViolation
          else if \<not> (case e_ActorID e of None \<Rightarrow> True | Some u \<Rightarrow> sql_exists (\<lambda>r. u_id r = u) (users db))
          then Inl ForeignKeyViolation
          else Inr (e, db\<lparr>audit_entries := sql_insert
            \<lparr>ae_seq = e_Seq e, ae_id = e_ID e, ae_action = e_Action e, ae_actor = e_ActorID e, ae_target = e_TargetID e,
             ae_label = e_TargetLabel e, ae_detail = detail, ae_ip = map_option (inet_text codec) (e_IP e),
             ae_occurred = e_OccurredAt e, ae_prev = e_PrevHash e, ae_hash = e_EntryHash e\<rparr> (audit_entries db)\<rparr>))"

definition chain_tail :: "db \<Rightarrow> bytes \<times> instant" where
  "chain_tail db = (case chain_head db of
      None \<Rightarrow> (replicate auditHashLen (char_of (0::nat)), zero_time)
    | Some r \<Rightarrow> (ae_hash r, ae_occurred r))"

text \<open>
  The log's clock only moves forward: \<open>now\<close>, the wall clock in nanoseconds, cut to microseconds, or
  the time of the entry before if that is not earlier.
\<close>

definition log_clock :: "int \<Rightarrow> instant \<Rightarrow> instant" where
  "log_clock now tailAt = (let at = now div 1000 in if \<not> tailAt < at then tailAt else at)"

definition seal_entry :: "(AuditEntry \<Rightarrow> bytes) \<Rightarrow> int \<Rightarrow> AuditEntry \<Rightarrow> AuditEntry" where
  "seal_entry seal seq e = e\<lparr>e_EntryHash := seal e, e_Seq := seq\<rparr>"

text \<open>
  The transaction holds the chain's advisory lock from its first statement on, so it reads the head the
  append before it committed. \<open>seq\<close> is what the identity column draws.
\<close>

definition append_body :: "db_codec \<Rightarrow> (AuditEntry \<Rightarrow> bytes) \<Rightarrow> int \<Rightarrow> int \<Rightarrow> AuditEntry \<Rightarrow> (db, AuditEntry) tx" where
  "append_body codec seal now seq e db =
     insert_audit codec
       (seal_entry seal seq (e\<lparr>e_PrevHash := fst (chain_tail db), e_OccurredAt := log_clock now (snd (chain_tail db))\<rparr>)) db"

definition AppendAuditEntry ::
  "db_codec \<Rightarrow> (AuditEntry \<Rightarrow> bytes) \<Rightarrow> int \<Rightarrow> int \<Rightarrow> AuditEntry \<Rightarrow> db \<Rightarrow> (store_error + AuditEntry) \<times> db" where
  "AppendAuditEntry codec seal now seq e = begin_func (append_body codec seal now seq e)"

text \<open>\<open>Recorder.Record\<close>: a failed append is logged and changes nothing for the caller.\<close>

record audit_record =
  r_Action :: string
  r_ActorID :: "uuid option"
  r_TargetID :: "uuid option"
  r_TargetLabel :: string
  r_Detail :: "bytes option"
  r_IP :: "string option"

definition record_entry :: "uuid \<Rightarrow> audit_record \<Rightarrow> AuditEntry" where
  "record_entry newID rec =
     \<lparr>e_Seq = 0, e_ID = newID, e_Action = r_Action rec, e_ActorID = r_ActorID rec, e_TargetID = r_TargetID rec,
      e_TargetLabel = (if r_TargetLabel rec \<noteq> [] then Some (r_TargetLabel rec) else None), e_Detail = r_Detail rec,
      e_IP = r_IP rec, e_OccurredAt = zero_time, e_PrevHash = [], e_EntryHash = [], e_Actor = None\<rparr>"

definition RecordAction :: "chain_lib \<Rightarrow> db_codec \<Rightarrow> bytes \<Rightarrow> int \<Rightarrow> int \<Rightarrow> uuid \<Rightarrow> audit_record \<Rightarrow> db \<Rightarrow> db" where
  "RecordAction lib codec key now seq newID rec db =
     snd (AppendAuditEntry codec (Seal lib key) now seq (record_entry newID rec) db)"

section \<open>Reading\<close>

definition scanAuditEntry :: "db \<Rightarrow> audit_row \<Rightarrow> AuditEntry" where
  "scanAuditEntry db r =
     \<lparr>e_Seq = ae_seq r, e_ID = ae_id r, e_Action = ae_action r, e_ActorID = ae_actor r, e_TargetID = ae_target r,
      e_TargetLabel = ae_label r, e_Detail = ae_detail r, e_IP = ae_ip r, e_OccurredAt = ae_occurred r,
      e_PrevHash = ae_prev r, e_EntryHash = ae_hash r,
      e_Actor = (case ae_actor r of None \<Rightarrow> None
        | Some i \<Rightarrow> map_option (\<lambda>u. \<lparr>aa_ID = u_id u, aa_Username = u_username u, aa_DisplayName = u_display_name u\<rparr>)
                      (sql_row (\<lambda>u. u_id u = i) (users db)))\<rparr>"

record ListAuditParams =
  la_Action :: string
  la_ActorID :: "uuid option"
  la_Before :: "(instant \<times> int) option"
  la_Limit :: nat

definition audit_key :: "audit_row \<Rightarrow> instant \<times> int" where
  "audit_key r = (ae_occurred r, ae_seq r)"

definition audit_filter :: "ListAuditParams \<Rightarrow> audit_row \<Rightarrow> bool" where
  "audit_filter params r \<longleftrightarrow> (la_Action params = [] \<or> ae_action r = la_Action params) \<and>
     (la_ActorID params = None \<or> ae_actor r = la_ActorID params) \<and>
     (case la_Before params of None \<Rightarrow> True | Some c \<Rightarrow> audit_key r < c)"

definition audit_page_rows :: "ListAuditParams \<Rightarrow> db \<Rightarrow> audit_row list" where
  "audit_page_rows params db =
     take (la_Limit params) (rev (sql_order audit_key (filter (audit_filter params) (audit_entries db))))"

definition ListAuditEntries :: "ListAuditParams \<Rightarrow> db \<Rightarrow> AuditEntry list" where
  "ListAuditEntries params db = map (scanAuditEntry db) (audit_page_rows params db)"

definition verifyAudit :: "(AuditEntry \<Rightarrow> bytes) \<Rightarrow> AuditEntry list \<Rightarrow> ListAuditParams \<Rightarrow> BreakError option" where
  "verifyAudit seal entries params =
     (if la_Action params \<noteq> [] \<or> la_ActorID params \<noteq> None then Verify seal entries else VerifyRange seal entries)"

text \<open>The handler's page: one row more than asked for is read and checked, and not returned.\<close>

record AuditPage =
  ap_ChainValid :: bool
  ap_Entries :: "AuditEntry list"
  ap_Next :: "(instant \<times> int) option"

definition audit_page :: "(AuditEntry \<Rightarrow> bytes) \<Rightarrow> ListAuditParams \<Rightarrow> db \<Rightarrow> AuditPage" where
  "audit_page seal params db =
     (let limit = la_Limit params;
          params1 = params\<lparr>la_Limit := limit + 1\<rparr>;
          entries = ListAuditEntries params1 db;
          valid = (verifyAudit seal entries params1 = None)
      in if limit < length entries
         then \<lparr>ap_ChainValid = valid, ap_Entries = take limit entries,
               ap_Next = (let l = last (take limit entries) in Some (e_OccurredAt l, e_Seq l))\<rparr>
         else \<lparr>ap_ChainValid = valid, ap_Entries = entries, ap_Next = None\<rparr>)"

section \<open>The framing\<close>

lemma field_inj:
  assumes "field p a @ x = field q b @ y" and "length a < 2 ^ 64" and "length b < 2 ^ 64"
  shows "p = q \<and> a = b \<and> x = y"
proof -
  have c: "(char_of (of_bool p :: nat) :: char) = char_of (of_bool q :: nat)"
    and r: "PutUint64 (length a) @ a @ x = PutUint64 (length b) @ b @ y" using assms(1) by (simp_all add: field_def)
  have "(of_char (char_of (of_bool p :: nat) :: char) :: nat) = of_char (char_of (of_bool q :: nat) :: char)" using c by simp
  then have "p = q" by (cases p; cases q) simp_all
  moreover from r have "PutUint64 (length a) = PutUint64 (length b)" "a @ x = b @ y" by (simp_all add: PutUint64_def)
  moreover from this PutUint64_inj [OF assms(2,3)] have "length a = length b" by simp
  ultimately show ?thesis by simp
qed

text \<open>The values the hash covers.\<close>

definition sealed :: "chain_lib \<Rightarrow> AuditEntry \<Rightarrow>
  bytes \<times> uuid \<times> string \<times> uuid option \<times> uuid option \<times> string option \<times> (bool \<times> bytes) \<times> string option \<times> instant" where
  "sealed lib e = (e_PrevHash e, e_ID e, e_Action e, e_ActorID e, e_TargetID e, e_TargetLabel e,
     (e_Detail e \<noteq> None, canonicalJSON lib (case e_Detail e of None \<Rightarrow> [] | Some d \<Rightarrow> d)),
     map_option (addr_text lib) (e_IP e), e_OccurredAt e)"

text \<open>The frames of the input, in order; an absent value is an empty frame marked absent.\<close>

definition frame :: "bytes option \<Rightarrow> bool \<times> bytes" where
  "frame v = (case v of None \<Rightarrow> (False, []) | Some b \<Rightarrow> (True, b))"

definition frames :: "chain_lib \<Rightarrow> AuditEntry \<Rightarrow> (bool \<times> bytes) list" where
  "frames lib e = [(True, uuid_String lib (e_ID e)), (True, e_Action e), frame (map_option (uuid_String lib) (e_ActorID e)),
     frame (map_option (uuid_String lib) (e_TargetID e)), frame (e_TargetLabel e),
     (e_Detail e \<noteq> None, canonicalJSON lib (case e_Detail e of None \<Rightarrow> [] | Some d \<Rightarrow> d)),
     frame (map_option (addr_text lib) (e_IP e)), (True, FormatInt (e_OccurredAt e))]"

text \<open>
  What the schema and the machine guarantee of an entry that was read: a hash before it of the width the
  column checks, and values no longer than memory.
\<close>

definition entry_wf :: "chain_lib \<Rightarrow> AuditEntry \<Rightarrow> bool" where
  "entry_wf lib e \<longleftrightarrow> length (e_PrevHash e) = auditHashLen \<and> list_all (\<lambda>(p, b). length b < 2 ^ 64) (frames lib e)"

lemma frame_inj [simp]: "frame v = frame w \<longleftrightarrow> v = w"
  by (cases v; cases w) (simp_all add: frame_def)

lemma seal_input_frames: "seal_input lib e = e_PrevHash e @ concat (map (\<lambda>(p, b). field p b) (frames lib e))"
  by (simp add: seal_input_def frames_def frame_def optField_def uuidField_def split: option.splits)

lemma frames_unique:
  assumes "concat (map (\<lambda>(p, b). field p b) xs) = concat (map (\<lambda>(p, b). field p b) ys)" and "length xs = length ys"
    and "list_all (\<lambda>(p, b). length b < 2 ^ 64) xs" and "list_all (\<lambda>(p, b). length b < 2 ^ 64) ys"
  shows "xs = ys"
  using assms(2,1,3,4)
proof (induction xs ys rule: list_induct2)
  case (Cons x xs y ys)
  obtain p a q b where xy: "x = (p, a)" "y = (q, b)" by (cases x; cases y)
  have "field p a @ concat (map (\<lambda>(p, b). field p b) xs) = field q b @ concat (map (\<lambda>(p, b). field p b) ys)"
    using Cons.prems(1) by (simp add: xy)
  from field_inj [OF this] Cons.prems xy have "p = q \<and> a = b"
      "concat (map (\<lambda>(p, b). field p b) xs) = concat (map (\<lambda>(p, b). field p b) ys)" by simp_all
  with Cons xy show ?case by simp
qed simp

lemma seal_input_inj:
  assumes "seal_input lib a = seal_input lib b" and "entry_wf lib a" and "entry_wf lib b" and inj: "inj (uuid_String lib)"
  shows "sealed lib a = sealed lib b"
proof -
  have prev: "e_PrevHash a = e_PrevHash b"
    and "concat (map (\<lambda>(p, b). field p b) (frames lib a)) = concat (map (\<lambda>(p, b). field p b) (frames lib b))"
    using assms(1-3) unfolding seal_input_frames by (simp_all add: entry_wf_def)
  from frames_unique [OF this(2)] assms(2,3) have eq: "frames lib a = frames lib b" by (simp add: entry_wf_def frames_def)
  have opt: "map_option (uuid_String lib) v = map_option (uuid_String lib) w \<longleftrightarrow> v = w" for v w
    using inj by (cases v; cases w) (simp_all add: inj_eq)
  from eq show ?thesis
    using FormatInt_inj [of "e_OccurredAt a" "e_OccurredAt b"] prev
    by (simp add: frames_def sealed_def opt inj_eq [OF inj])
qed

section \<open>Logs as the chain writes them\<close>

definition good_row :: "(AuditEntry \<Rightarrow> bytes) \<Rightarrow> audit_row \<Rightarrow> bool" where
  "good_row seal r \<longleftrightarrow> (\<forall>db. ae_hash r = seal (scanAuditEntry db r))"

definition row_links :: "audit_row list \<Rightarrow> bool" where
  "row_links rows \<longleftrightarrow> successively (\<lambda>a b. ae_prev b = ae_hash a) rows"

definition row_before :: "audit_row \<Rightarrow> audit_row \<Rightarrow> bool" where
  "row_before a b \<longleftrightarrow> ae_seq a < ae_seq b \<and> ae_occurred a \<le> ae_occurred b"

definition log_ok :: "(AuditEntry \<Rightarrow> bytes) \<Rightarrow> audit_row list \<Rightarrow> bool" where
  "log_ok seal rows \<longleftrightarrow> sorted_wrt row_before rows \<and> list_all (good_row seal) rows \<and> row_links rows"

text \<open>
  The entry reads back with the hash it was sealed with: what the columns return for the detail and the
  address has the canonical form of what was written. The column of the address keeps no zone, so this is not so of
  an address like \<^verbatim>\<open>fe80::1%eth0\<close>; \<open>inet_keeps\<close> says that it returns every address without one.
\<close>

definition reads_back :: "chain_lib \<Rightarrow> db_codec \<Rightarrow> AuditEntry \<Rightarrow> bool" where
  "reads_back lib codec e \<longleftrightarrow>
     (case e_Detail e of None \<Rightarrow> True
      | Some d \<Rightarrow> (case jsonb_text codec d of None \<Rightarrow> True | Some t \<Rightarrow> canonicalJSON lib t = canonicalJSON lib d)) \<and>
     (case e_IP e of None \<Rightarrow> True | Some a \<Rightarrow> addr_text lib (inet_text codec a) = addr_text lib a)"

definition zoneless :: "string \<Rightarrow> bool" where
  "zoneless a \<longleftrightarrow> CHR ''%'' \<notin> set a"

definition inet_keeps :: "chain_lib \<Rightarrow> db_codec \<Rightarrow> bool" where
  "inet_keeps lib codec \<longleftrightarrow> (\<forall>a. zoneless a \<longrightarrow> addr_text lib (inet_text codec a) = addr_text lib a)"

text \<open>A detail the jsonb column gives back with the keys and values it had, numbers in the digits they were written with.\<close>

definition detail_keeps :: "chain_lib \<Rightarrow> db_codec \<Rightarrow> bytes \<Rightarrow> bool" where
  "detail_keeps lib codec d \<longleftrightarrow> (case jsonb_text codec d of None \<Rightarrow> True | Some t \<Rightarrow> canonicalJSON lib t = canonicalJSON lib d)"

text \<open>
  The interface to the store: \<open>AppendAuditEntry\<close> is handed the sealing function, and calls it before the
  row has its number. What it relies on is that the seal reads neither the number, nor the hash that is
  being computed, nor the joined actor.
\<close>

locale sealing =
  fixes seal :: "AuditEntry \<Rightarrow> bytes"
  assumes seal_ignores: "seal (e\<lparr>e_Seq := n, e_EntryHash := h, e_Actor := who\<rparr>) = seal e"
begin

lemma verifyEach_good: "list_all (good_row seal) rows \<Longrightarrow> verifyEach seal (map (scanAuditEntry db) rows) = None"
  by (induction rows) (simp_all add: good_row_def scanAuditEntry_def)

lemma seal_scan:
  assumes "r = \<lparr>ae_seq = n, ae_id = e_ID e, ae_action = e_Action e, ae_actor = e_ActorID e, ae_target = e_TargetID e,
                ae_label = e_TargetLabel e, ae_detail = e_Detail e, ae_ip = e_IP e,
                ae_occurred = e_OccurredAt e, ae_prev = e_PrevHash e, ae_hash = h\<rparr>"
  shows "seal (scanAuditEntry db r) = seal e"
proof -
  have "scanAuditEntry db r = e\<lparr>e_Seq := n, e_EntryHash := h, e_Actor := e_Actor (scanAuditEntry db r)\<rparr>"
    unfolding assms by (intro AuditEntry.equality) (simp_all add: scanAuditEntry_def)
  then show ?thesis by (metis seal_ignores)
qed

end

interpretation chain: sealing "Seal lib key" for lib key
  by unfold_locales (simp add: Seal_def seal_input_def)

lemma Seal_reads_back:
  assumes "reads_back lib codec e" and "case e_Detail e of None \<Rightarrow> detail = None | Some d \<Rightarrow> detail = jsonb_text codec d \<and> detail \<noteq> None"
  shows "Seal lib key (e\<lparr>e_Detail := detail, e_IP := map_option (inet_text codec) (e_IP e)\<rparr>) = Seal lib key e"
proof -
  have "map_option (addr_text lib) (map_option (inet_text codec) (e_IP e)) = map_option (addr_text lib) (e_IP e)"
    using assms(1) by (cases "e_IP e") (simp_all add: reads_back_def)
  moreover have "(detail \<noteq> None) = (e_Detail e \<noteq> None)"
    using assms(2) by (cases "e_Detail e") auto
  moreover have "canonicalJSON lib (case detail of None \<Rightarrow> [] | Some d \<Rightarrow> d) = canonicalJSON lib (case e_Detail e of None \<Rightarrow> [] | Some d \<Rightarrow> d)"
    using assms by (cases "e_Detail e"; cases detail) (auto simp: reads_back_def)
  ultimately show ?thesis unfolding Seal_def seal_input_frames frames_def by simp
qed

lemma before_seq: "sorted_wrt row_before rows \<Longrightarrow> sorted_wrt (\<lambda>a b. ae_seq a < ae_seq b) rows"
  by (erule sorted_wrt_mono_rel [rotated]) (simp add: row_before_def)

lemma before_key: "sorted_wrt row_before rows \<Longrightarrow> sorted_wrt (\<lambda>a b. audit_key a < audit_key b) rows"
  by (erule sorted_wrt_mono_rel [rotated]) (auto simp: row_before_def audit_key_def)

lemma sort_strict:
  assumes "sorted_wrt (\<lambda>a b. k a < (k b :: 'k::linorder)) xs" and "mset ys = mset xs"
  shows "sort_key k ys = xs"
proof (rule sort_key_inj_key_eq [OF assms(2)])
  have "sorted_wrt (<) (map k xs)" using assms(1) by (simp add: sorted_wrt_map)
  then have "sorted (map k xs)" "distinct (map k xs)" by (simp_all add: strict_sorted_iff)
  then show "sorted (map k xs)" "inj_on k (set ys)" using assms(2) by (auto simp: distinct_map dest: mset_eq_setD)
qed

lemma chain_head_last:
  assumes "sorted_wrt row_before (audit_entries db)"
  shows "chain_head db = (if audit_entries db = [] then None else Some (last (audit_entries db)))"
proof -
  have "sql_order ae_seq (audit_entries db) = audit_entries db"
    unfolding sql_order_def by (rule sort_strict [OF before_seq [OF assms] refl])
  then show ?thesis by (cases "audit_entries db" rule: rev_cases) (simp_all add: chain_head_def)
qed

lemma append_row:
  assumes "append_body codec seal now seq e db = Inr (e2, db')"
  obtains prev at detail where
    "(prev, at) = (case chain_head db of None \<Rightarrow> (replicate auditHashLen (char_of (0::nat)), max zero_time (now div 1000))
       | Some r \<Rightarrow> (ae_hash r, max (ae_occurred r) (now div 1000)))"
    "case e_Detail e of None \<Rightarrow> detail = None | Some d \<Rightarrow> detail = jsonb_text codec d \<and> detail \<noteq> None"
    "audit_entries db' = audit_entries db @
       [\<lparr>ae_seq = seq, ae_id = e_ID e, ae_action = e_Action e, ae_actor = e_ActorID e, ae_target = e_TargetID e,
         ae_label = e_TargetLabel e, ae_detail = detail, ae_ip = map_option (inet_text codec) (e_IP e),
         ae_occurred = at, ae_prev = prev, ae_hash = seal (e\<lparr>e_PrevHash := prev, e_OccurredAt := at\<rparr>)\<rparr>]"
proof -
  let ?prev = "fst (chain_tail db)" and ?at = "log_clock now (snd (chain_tail db))"
  obtain detail where d: "(case e_Detail e of None \<Rightarrow> Some None | Some d \<Rightarrow> map_option Some (jsonb_text codec d)) = Some detail"
    using assms by (auto simp: append_body_def insert_audit_def seal_entry_def split: option.splits)
  show thesis
  proof (rule that [of ?prev ?at detail])
    show "(?prev, ?at) = (case chain_head db of None \<Rightarrow> (replicate auditHashLen (char_of (0::nat)), max zero_time (now div 1000))
       | Some r \<Rightarrow> (ae_hash r, max (ae_occurred r) (now div 1000)))"
      by (auto simp: chain_tail_def log_clock_def Let_def max_def split: option.splits)
    show "case e_Detail e of None \<Rightarrow> detail = None | Some d \<Rightarrow> detail = jsonb_text codec d \<and> detail \<noteq> None"
      using d by (auto split: option.splits)
    show "audit_entries db' = audit_entries db @
       [\<lparr>ae_seq = seq, ae_id = e_ID e, ae_action = e_Action e, ae_actor = e_ActorID e, ae_target = e_TargetID e,
         ae_label = e_TargetLabel e, ae_detail = detail, ae_ip = map_option (inet_text codec) (e_IP e),
         ae_occurred = ?at, ae_prev = ?prev, ae_hash = seal (e\<lparr>e_PrevHash := ?prev, e_OccurredAt := ?at\<rparr>)\<rparr>]"
      using assms d unfolding append_body_def insert_audit_def seal_entry_def
      by (auto simp: sql_insert_def simp del: sql_exists_iff split: if_splits)
  qed
qed

lemma append_keeps_log:
  assumes ok: "log_ok (Seal lib key) (audit_entries db)" and app: "append_body codec (Seal lib key) now seq e db = Inr (e2, db')"
    and fresh: "\<forall>r \<in> set (audit_entries db). ae_seq r < seq" and rb: "reads_back lib codec e"
  shows "log_ok (Seal lib key) (audit_entries db')"
proof -
  obtain prev at detail where p: "(prev, at) = (case chain_head db of
         None \<Rightarrow> (replicate auditHashLen (char_of (0::nat)), max zero_time (now div 1000))
       | Some r \<Rightarrow> (ae_hash r, max (ae_occurred r) (now div 1000)))"
    and d: "case e_Detail e of None \<Rightarrow> detail = None | Some d \<Rightarrow> detail = jsonb_text codec d \<and> detail \<noteq> None"
    and rows: "audit_entries db' = audit_entries db @
       [\<lparr>ae_seq = seq, ae_id = e_ID e, ae_action = e_Action e, ae_actor = e_ActorID e, ae_target = e_TargetID e,
         ae_label = e_TargetLabel e, ae_detail = detail, ae_ip = map_option (inet_text codec) (e_IP e),
         ae_occurred = at, ae_prev = prev, ae_hash = Seal lib key (e\<lparr>e_PrevHash := prev, e_OccurredAt := at\<rparr>)\<rparr>]"
      (is "_ = _ @ [?r]")
    using app by (rule append_row)
  let ?rows = "audit_entries db" and ?e1 = "e\<lparr>e_PrevHash := prev, e_OccurredAt := at\<rparr>"
  have sorted: "sorted_wrt row_before ?rows" using ok by (simp add: log_ok_def)
  note head = chain_head_last [OF sorted]
  have rb1: "reads_back lib codec ?e1" using rb by (simp add: reads_back_def)
  have "good_row (Seal lib key) ?r"
    unfolding good_row_def
    using Seal_reads_back [OF rb1, of detail key] d
      chain.seal_scan [of ?r seq "?e1\<lparr>e_Detail := detail, e_IP := map_option (inet_text codec) (e_IP ?e1)\<rparr>" _ lib key]
    by simp
  moreover have "row_links (?rows @ [?r])"
    using ok p head by (auto simp: log_ok_def row_links_def successively_append_iff split: if_splits)
  moreover have "row_before a ?r" if "a \<in> set ?rows" for a
  proof -
    have "ae_occurred a \<le> ae_occurred (last ?rows)"
      using sorted that by (cases ?rows rule: rev_cases) (auto simp: sorted_wrt_append row_before_def)
    moreover have "ae_occurred (last ?rows) \<le> at" using p head that by (auto split: if_splits)
    ultimately show ?thesis using fresh that by (auto simp: row_before_def)
  qed
  ultimately show ?thesis using ok by (simp add: rows log_ok_def sorted_wrt_append)
qed

text \<open>
  A run of the server, with the actions it recorded; the identity column draws increasing numbers, and nothing else
  writes the table.
\<close>

inductive audit_run :: "chain_lib \<Rightarrow> db_codec \<Rightarrow> bytes \<Rightarrow> db \<Rightarrow> audit_record list \<Rightarrow> db \<Rightarrow> bool" for lib codec key db where
  here: "audit_run lib codec key db [] db"
| recorded: "audit_run lib codec key db recs db1 \<Longrightarrow> \<forall>r \<in> set (audit_entries db1). ae_seq r < seq \<Longrightarrow>
    audit_run lib codec key db (recs @ [rec]) (RecordAction lib codec key now seq i rec db1)"
| elsewhere: "audit_run lib codec key db recs db1 \<Longrightarrow> audit_entries db2 = audit_entries db1 \<Longrightarrow> audit_run lib codec key db recs db2"

lemma run_log:
  assumes "audit_run lib codec key db0 recs db" and "log_ok (Seal lib key) (audit_entries db0)"
    and "\<forall>rec \<in> set recs. \<forall>i. reads_back lib codec (record_entry i rec)"
  shows "log_ok (Seal lib key) (audit_entries db)"
  using assms
proof (induction rule: audit_run.induct)
  case (recorded recs db1 seq rec now i)
  have ok: "log_ok (Seal lib key) (audit_entries db1)" and rb: "reads_back lib codec (record_entry i rec)"
    using recorded by auto
  show ?case unfolding RecordAction_def AppendAuditEntry_def
    by (rule begin_func_invariant [where I = "\<lambda>d. log_ok (Seal lib key) (audit_entries d)"])
       (use ok rb recorded.hyps(2) append_keeps_log in auto)
qed auto

section \<open>Pages of a log\<close>

lemma prefix_filter: "sorted_wrt (\<lambda>a b. P b \<longrightarrow> P a) xs \<Longrightarrow> \<exists>ys. xs = filter P xs @ ys"
proof (induction xs)
  case (Cons x xs)
  show ?case
  proof (cases "P x")
    case True
    with Cons show ?thesis by auto
  next
    case False
    with Cons.prems have "filter P (x # xs) = []" by (auto simp: filter_empty_conv)
    then show ?thesis by simp
  qed
qed simp

lemma page_rows_eq:
  assumes "sorted_wrt row_before (audit_entries db)"
  shows "audit_page_rows params db = take (la_Limit params) (rev (filter (audit_filter params) (audit_entries db)))"
proof -
  have "sql_order audit_key (filter (audit_filter params) (audit_entries db)) = filter (audit_filter params) (audit_entries db)"
    unfolding sql_order_def using before_key [OF assms] by (intro sort_strict refl sorted_wrt_filter)
  then show ?thesis by (simp add: audit_page_rows_def)
qed

lemma bySeq_page:
  assumes "sorted_wrt row_before rows"
  shows "bySeq (map (scanAuditEntry db) (take n (rev rows))) = map (scanAuditEntry db) (drop (length rows - n) rows)"
  unfolding bySeq_def
proof (rule sort_strict)
  have "sorted_wrt row_before (drop (length rows - n) rows)" using assms by (rule sorted_wrt_drop)
  then show "sorted_wrt (\<lambda>a b. e_Seq a < e_Seq b) (map (scanAuditEntry db) (drop (length rows - n) rows))"
    by (auto simp: sorted_wrt_map scanAuditEntry_def row_before_def elim: sorted_wrt_mono_rel [rotated])
  show "mset (map (scanAuditEntry db) (take n (rev rows))) = mset (map (scanAuditEntry db) (drop (length rows - n) rows))"
    by (simp add: take_rev)
qed

lemma verifyLinks_iff: "verifyLinks es = None \<longleftrightarrow> successively (\<lambda>a b. e_PrevHash b = e_EntryHash a) es"
  by (induction es rule: verifyLinks.induct) auto

lemma verifyEach_iff: "verifyEach seal es = None \<longleftrightarrow> (\<forall>e \<in> set es. e_EntryHash e = seal e)"
  by (induction es) auto

lemma page_valid:
  assumes "log_ok (Seal lib key) (audit_entries db)"
  shows "verifyAudit (Seal lib key) (ListAuditEntries params db) params = None"
proof -
  let ?rows = "audit_entries db" and ?n = "la_Limit params"
  let ?fs = "filter (audit_filter params) ?rows"
  let ?page = "drop (length ?fs - ?n) ?fs"
  have sorted: "sorted_wrt row_before ?rows" using assms by (simp add: log_ok_def)
  have page: "bySeq (ListAuditEntries params db) = map (scanAuditEntry db) ?page"
    unfolding ListAuditEntries_def page_rows_eq [OF sorted] by (rule bySeq_page [OF sorted_wrt_filter [OF sorted]])
  have "list_all (good_row (Seal lib key)) ?page"
    using assms by (auto simp: log_ok_def list_all_iff dest!: in_set_dropD)
  then have each: "verifyEach (Seal lib key) (map (scanAuditEntry db) ?page) = None" by (rule chain.verifyEach_good)
  have links: "verifyLinks (map (scanAuditEntry db) ?page) = None" if "la_Action params = []" "la_ActorID params = None"
  proof -
    have "sorted_wrt (\<lambda>a b. audit_filter params b \<longrightarrow> audit_filter params a) ?rows"
      using that before_key [OF sorted]
      by (auto simp: audit_filter_def elim!: sorted_wrt_mono_rel [rotated] split: option.splits intro: less_trans)
    then obtain ys where "?rows = ?fs @ ys" using prefix_filter by blast
    then have "?rows = take (length ?fs - ?n) ?fs @ ?page @ ys" by (metis append_assoc append_take_drop_id)
    moreover have "row_links ?rows" using assms by (simp add: log_ok_def)
    ultimately have "row_links ?page" unfolding row_links_def by (metis successively_append_iff)
    then show ?thesis by (simp add: verifyLinks_iff row_links_def successively_map scanAuditEntry_def)
  qed
  show ?thesis using each links by (auto simp: verifyAudit_def Verify_def VerifyRange_def Let_def page)
qed

section \<open>What an accepted range proves\<close>

text \<open>Two of the given entries whose different contents have the same keyed hash.\<close>

definition mac_collision :: "chain_lib \<Rightarrow> bytes \<Rightarrow> AuditEntry list \<Rightarrow> AuditEntry list \<Rightarrow> bool" where
  "mac_collision lib key xs ys \<longleftrightarrow>
     (\<exists>x \<in> set xs. \<exists>y \<in> set ys. seal_input lib x \<noteq> seal_input lib y \<and>
        hmac_sha256 lib key (seal_input lib x) = hmac_sha256 lib key (seal_input lib y))"

definition accepted :: "(AuditEntry \<Rightarrow> bytes) \<Rightarrow> AuditEntry list \<Rightarrow> bool" where
  "accepted seal es \<longleftrightarrow> (\<forall>e \<in> set es. e_EntryHash e = seal e) \<and> successively (\<lambda>a b. e_PrevHash b = e_EntryHash a) es"

lemma VerifyRange_accepted: "VerifyRange seal es = None \<longleftrightarrow> accepted seal (bySeq es)"
  by (auto simp: VerifyRange_def Let_def accepted_def verifyEach_iff [symmetric] verifyLinks_iff [symmetric] split: option.splits)

lemma accepted_snoc:
  "accepted seal (xs @ [x]) \<longleftrightarrow> accepted seal xs \<and> e_EntryHash x = seal x \<and> (xs = [] \<or> e_PrevHash x = e_EntryHash (last xs))"
  by (auto simp: accepted_def successively_append_iff)

lemma accepted_drop: "accepted seal xs \<Longrightarrow> accepted seal (drop n xs)"
  unfolding accepted_def by (metis append_take_drop_id in_set_dropD successively_append_iff)

lemma accepted_agree:
  assumes "inj (uuid_String lib)" and "length xs = length ys" and "accepted (Seal lib key) xs" and "accepted (Seal lib key) ys"
    and "\<forall>e \<in> set xs \<union> set ys. entry_wf lib e" and "xs \<noteq> [] \<longrightarrow> e_EntryHash (last xs) = e_EntryHash (last ys)"
    and "\<not> mac_collision lib key xs ys"
  shows "map (sealed lib) xs = map (sealed lib) ys"
  using assms(2-)
proof (induction xs arbitrary: ys rule: rev_induct)
  case (snoc x xs)
  then obtain ys' y where ys: "ys = ys' @ [y]" by (cases ys rule: rev_cases) auto
  have "e_EntryHash x = Seal lib key x" "e_EntryHash y = Seal lib key y" "e_EntryHash x = e_EntryHash y"
    using snoc.prems(2,3,5) by (simp_all add: accepted_snoc ys)
  then have "hmac_sha256 lib key (seal_input lib x) = hmac_sha256 lib key (seal_input lib y)" by (simp add: Seal_def)
  then have "seal_input lib x = seal_input lib y" using snoc.prems(6) by (auto simp: mac_collision_def ys)
  moreover have "entry_wf lib x" "entry_wf lib y" using snoc.prems(4) by (simp_all add: ys)
  ultimately have same: "sealed lib x = sealed lib y" using assms(1) by (rule seal_input_inj)
  then have prev: "e_PrevHash x = e_PrevHash y" by (simp add: sealed_def)
  have "map (sealed lib) xs = map (sealed lib) ys'"
  proof (rule snoc.IH)
    show "length xs = length ys'" using snoc.prems(1) ys by simp
    then show "xs \<noteq> [] \<longrightarrow> e_EntryHash (last xs) = e_EntryHash (last ys')"
      using snoc.prems(2,3) prev by (auto simp: accepted_snoc ys)
    show "accepted (Seal lib key) xs" "accepted (Seal lib key) ys'" using snoc.prems(2,3) by (simp_all add: accepted_snoc ys)
    show "\<forall>e \<in> set xs \<union> set ys'. entry_wf lib e" using snoc.prems(4) by (simp add: ys)
    show "\<not> mac_collision lib key xs ys'" using snoc.prems(6) by (auto simp: mac_collision_def ys)
  qed
  with same show ?case by (simp add: ys)
qed simp

lemma set_bySeq [simp]: "set (bySeq es) = set es" "length (bySeq es) = length es"
  by (simp_all add: bySeq_def)

section \<open>Properties\<close>

definition demo_lib :: chain_lib where
  "demo_lib = \<lparr>hmac_sha256 = (\<lambda>k m. rev (take 32 (rev m))), uuid_String = itoa, json_recode = Some, addr_text = (\<lambda>a. a)\<rparr>"

definition demo_codec :: db_codec where
  "demo_codec = \<lparr>jsonb_text = Some, inet_text = (\<lambda>a. a)\<rparr>"

definition demo_key :: bytes where "demo_key = replicate 32 CHR ''k''"

definition demo_record :: "string \<Rightarrow> audit_record" where
  "demo_record act = \<lparr>r_Action = act, r_ActorID = Some 1, r_TargetID = Some 2, r_TargetLabel = ''omid'', r_Detail = Some ''{}'', r_IP = Some ''1.2.3.4''\<rparr>"

definition log0 :: db where "log0 = empty_db [1, 2] (org_of False 720)"
definition log1 :: db where "log1 = RecordAction demo_lib demo_codec demo_key 5000 1 10 (demo_record ''invite.created'') log0"
definition log2 :: db where "log2 = RecordAction demo_lib demo_codec demo_key 9000 2 11 (demo_record ''user.deactivated'') log1"

lemma log2_run: "audit_run demo_lib demo_codec demo_key log0 [demo_record ''invite.created'', demo_record ''user.deactivated''] log2"
proof -
  have "audit_run demo_lib demo_codec demo_key log0 ([] @ [demo_record ''invite.created'']) log1" unfolding log1_def
    by (rule audit_run.recorded [OF audit_run.here]) (simp add: log0_def empty_db_def)
  moreover have "\<forall>r \<in> set (audit_entries log1). ae_seq r < 2" by code_simp
  ultimately have "audit_run demo_lib demo_codec demo_key log0 (([] @ [demo_record ''invite.created'']) @ [demo_record ''user.deactivated'']) log2"
    unfolding log2_def by (rule audit_run.recorded)
  then show ?thesis by simp
qed

text \<open>
  C33. An untouched log raises no alarm. However actions were recorded, in whatever order the
  clock stood, every page the server shows of a log that only the server wrote, filtered or not, from
  any cursor and of any size, reports its chain as valid, and is in the reverse order of the
  chain; provided that the recorded addresses carry no zone, which the column would drop, that the column returns
  addresses without one, and that the recorded details come back from the jsonb column with their canonical form.
\<close>

theorem audit_page_always_valid:
  assumes "audit_run lib codec key db0 recs db" and "audit_entries db0 = []" and "inet_keeps lib codec"
    and "\<forall>rec \<in> set recs. (\<forall>a. r_IP rec = Some a \<longrightarrow> zoneless a) \<and> (\<forall>d. r_Detail rec = Some d \<longrightarrow> detail_keeps lib codec d)"
  shows "ap_ChainValid (audit_page (Seal lib key) params db) \<and>
     sorted_wrt (\<lambda>a b. e_Seq b < e_Seq a) (ap_Entries (audit_page (Seal lib key) params db))"
proof -
  have ok: "log_ok (Seal lib key) (audit_entries db)"
  proof (rule run_log [OF assms(1)])
    show "log_ok (Seal lib key) (audit_entries db0)" using assms(2) by (simp add: log_ok_def row_links_def)
    show "\<forall>rec \<in> set recs. \<forall>i. reads_back lib codec (record_entry i rec)"
      using assms(3,4) by (auto simp: reads_back_def record_entry_def inet_keeps_def detail_keeps_def split: option.split)
  qed
  have valid: "verifyAudit (Seal lib key) (ListAuditEntries p db) p = None" for p by (rule page_valid [OF ok])
  have sorted: "sorted_wrt row_before (audit_entries db)" using ok by (simp add: log_ok_def)
  have desc: "sorted_wrt (\<lambda>a b. e_Seq b < e_Seq a) (ListAuditEntries p db)" for p
  proof -
    have "sorted_wrt (\<lambda>a b. row_before b a) (audit_page_rows p db)"
      unfolding page_rows_eq [OF sorted] by (intro sorted_wrt_take) (simp add: sorted_wrt_rev sorted_wrt_filter [OF sorted])
    then show ?thesis
      by (auto simp: ListAuditEntries_def sorted_wrt_map scanAuditEntry_def row_before_def elim: sorted_wrt_mono_rel [rotated])
  qed
  show ?thesis using valid [of "params\<lparr>la_Limit := la_Limit params + 1\<rparr>"] desc [of "params\<lparr>la_Limit := la_Limit params + 1\<rparr>"]
    by (auto simp: audit_page_def Let_def intro: sorted_wrt_take)
qed

theorem audit_page_always_valid_witness:
  "ap_ChainValid (audit_page (Seal demo_lib demo_key) \<lparr>la_Action = [], la_ActorID = None, la_Before = None, la_Limit = 1\<rparr> log2)"
proof -
  have "audit_entries log0 = []" by (simp add: log0_def empty_db_def)
  moreover have "inet_keeps demo_lib demo_codec" by (simp add: inet_keeps_def demo_codec_def)
  moreover have "\<forall>rec \<in> set [demo_record ''invite.created'', demo_record ''user.deactivated''].
      (\<forall>a. r_IP rec = Some a \<longrightarrow> zoneless a) \<and> (\<forall>d. r_Detail rec = Some d \<longrightarrow> detail_keeps demo_lib demo_codec d)"
    by (simp add: demo_record_def zoneless_def detail_keeps_def demo_codec_def)
  ultimately show ?thesis using audit_page_always_valid [OF log2_run] by blast
qed

text \<open>
  An untouched log can raise one. A client on a link-local address has a zone in it; the seal hashes the zone and the
  column drops it, so the entry no longer matches its hash.
\<close>

definition zone_lib :: chain_lib where
  "zone_lib = demo_lib\<lparr>hmac_sha256 := (\<lambda>k m. rev (take 32 (drop 9 (rev m))))\<rparr>"

definition zone_codec :: db_codec where
  "zone_codec = demo_codec\<lparr>inet_text := takeWhile (\<lambda>c. c \<noteq> CHR ''%'')\<rparr>"

theorem zoned_address_raises_alarm:
  "\<not> ap_ChainValid (audit_page (Seal zone_lib demo_key) \<lparr>la_Action = [], la_ActorID = None, la_Before = None, la_Limit = 1\<rparr>
     (RecordAction zone_lib zone_codec demo_key 5000 1 10 ((demo_record ''invite.created'')\<lparr>r_IP := Some ''fe80::1%eth0''\<rparr>) log0))"
  by code_simp

text \<open>
  C7. A tamper shows. Take any run of entries the check accepts, and any run that ends in an entry with
  the same recorded hash and is accepted too and at least as long, such as the log as it was written.
  Then the two agree, entry by entry from the newest back, on everything the log records: who did what
  to what, from where, when, with what detail, after which entry; or else two different contents among
  them have the same keyed hash, which is a forgery of HMAC-SHA256.
\<close>

theorem tamper_shows:
  assumes "VerifyRange (Seal lib key) shown = None" and "VerifyRange (Seal lib key) written = None" and "shown \<noteq> []"
    and "length shown \<le> length written" and "e_EntryHash (last (bySeq shown)) = e_EntryHash (last (bySeq written))"
    and "\<forall>e \<in> set shown \<union> set written. entry_wf lib e" and "inj (uuid_String lib)"
  shows "map (sealed lib) (bySeq shown) = map (sealed lib) (drop (length written - length shown) (bySeq written)) \<or>
     mac_collision lib key shown written"
proof (rule disjCI)
  assume no: "\<not> mac_collision lib key shown written"
  let ?w = "drop (length written - length shown) (bySeq written)"
  have sub: "set ?w \<subseteq> set written" using set_drop_subset [of _ "bySeq written"] by simp
  show "map (sealed lib) (bySeq shown) = map (sealed lib) ?w"
  proof (rule accepted_agree [OF assms(7)])
    show "length (bySeq shown) = length ?w" using assms(4) by simp
    show "accepted (Seal lib key) (bySeq shown)" "accepted (Seal lib key) ?w"
      using assms(1,2) by (simp_all add: VerifyRange_accepted accepted_drop)
    show "\<forall>e \<in> set (bySeq shown) \<union> set ?w. entry_wf lib e" using assms(6) sub by auto
    have "0 < length shown" using assms(3) by simp
    then have "length written - length shown < length (bySeq written)" using assms(4) by (simp only: set_bySeq)
    then show "bySeq shown \<noteq> [] \<longrightarrow> e_EntryHash (last (bySeq shown)) = e_EntryHash (last ?w)" using assms(5) by (simp add: last_drop)
    show "\<not> mac_collision lib key (bySeq shown) ?w" using no sub by (auto simp: mac_collision_def)
  qed
qed

definition demo_e1 :: AuditEntry where
  "demo_e1 = seal_entry (Seal demo_lib demo_key) 1 ((record_entry 10 (demo_record ''invite.created''))
     \<lparr>e_PrevHash := replicate auditHashLen CHR ''0'', e_OccurredAt := 5\<rparr>)"
definition demo_e2 :: AuditEntry where
  "demo_e2 = seal_entry (Seal demo_lib demo_key) 2 ((record_entry 11 (demo_record ''user.deactivated''))
     \<lparr>e_PrevHash := e_EntryHash demo_e1, e_OccurredAt := 9\<rparr>)"
definition demo_shown :: AuditEntry where "demo_shown = demo_e2\<lparr>e_Seq := 7\<rparr>"

lemma demo_sealed: "e_EntryHash demo_e1 = Seal demo_lib demo_key demo_e1" "e_EntryHash demo_e2 = Seal demo_lib demo_key demo_e2"
    "e_EntryHash demo_shown = Seal demo_lib demo_key demo_shown" "e_PrevHash demo_e2 = e_EntryHash demo_e1"
    "e_EntryHash demo_shown = e_EntryHash demo_e2" "bySeq [demo_e2, demo_e1] = [demo_e1, demo_e2]" "bySeq [demo_shown] = [demo_shown]"
  by (simp_all add: demo_e1_def demo_e2_def demo_shown_def seal_entry_def Seal_def seal_input_def bySeq_def)

lemma demo_small: "length (e_PrevHash e) = auditHashLen \<and> list_all (\<lambda>(p, b). length b \<le> 40) (frames demo_lib e) \<Longrightarrow> entry_wf demo_lib e"
  unfolding entry_wf_def list_all_iff by fastforce

theorem tamper_shows_witness:
  "map (sealed demo_lib) [demo_shown] = map (sealed demo_lib) [demo_e2] \<or> mac_collision demo_lib demo_key [demo_shown] [demo_e2, demo_e1]"
proof -
  have v: "VerifyRange (Seal demo_lib demo_key) [demo_shown] = None" "VerifyRange (Seal demo_lib demo_key) [demo_e2, demo_e1] = None"
    unfolding VerifyRange_accepted demo_sealed(6,7) by (simp_all add: accepted_def demo_sealed)
  have "entry_wf demo_lib demo_e1" by (rule demo_small) code_simp
  moreover have e2: "entry_wf demo_lib demo_e2" by (rule demo_small) code_simp
  moreover have "entry_wf demo_lib demo_shown" using e2 by (simp add: entry_wf_def frames_def demo_shown_def)
  ultimately have wf: "\<forall>e \<in> set [demo_shown] \<union> set [demo_e2, demo_e1]. entry_wf demo_lib e" by simp
  have "inj (uuid_String demo_lib)" by (auto simp: demo_lib_def inj_def intro: itoa_inj)
  moreover have "e_EntryHash (last (bySeq [demo_shown])) = e_EntryHash (last (bySeq [demo_e2, demo_e1]))"
    by (simp only: demo_sealed(5-7) last.simps simp_thms list.distinct if_False if_True)
  ultimately show ?thesis using tamper_shows [OF v _ _ _ wf] by (simp add: demo_sealed(6,7))
qed

end
