(* ===== verification/File_Sign.thy ===== *)
theory File_Sign
  imports Message_Store Go_Encoding
begin

text \<open>
  Signed file addresses and the origin that serves them: \<^verbatim>\<open>server/internal/filesign/filesign.go\<close> and the
  handlers of \<^verbatim>\<open>server/internal/httpserver/files_origin.go\<close>, with the query encoding of \<open>net/url\<close> both
  sides go through.

  HMAC-SHA256 and the text of a uuid are parameters (\<open>sign_lib\<close>). Clocks are in nanoseconds. No property
  of the hash is assumed: where one is needed, the theorem names the collision.
\<close>

section \<open>Queries\<close>

definition hex_digit :: "nat \<Rightarrow> char" where
  "hex_digit d = ''0123456789ABCDEF'' ! d"

definition hex_value :: "char \<Rightarrow> nat option" where
  "hex_value c = (let b = byte_of c in
     if 48 \<le> b \<and> b \<le> 57 then Some (b - 48) else if 97 \<le> b \<and> b \<le> 102 then Some (b - 87)
     else if 65 \<le> b \<and> b \<le> 70 then Some (b - 55) else None)"

definition unreserved :: "char \<Rightarrow> bool" where
  "unreserved c \<longleftrightarrow> (let b = byte_of c in 48 \<le> b \<and> b \<le> 57 \<or> 65 \<le> b \<and> b \<le> 90 \<or> 97 \<le> b \<and> b \<le> 122) \<or> c \<in> set ''-_.~''"

fun QueryEscape :: "string \<Rightarrow> string" where
  "QueryEscape [] = []"
| "QueryEscape (c # s) =
     (if unreserved c then [c] else if c = CHR '' '' then ''+''
      else [CHR ''%'', hex_digit (byte_of c div 16), hex_digit (byte_of c mod 16)]) @ QueryEscape s"

fun QueryUnescape :: "string \<Rightarrow> string option" where
  "QueryUnescape [] = Some []"
| "QueryUnescape (c # s) =
     (if c = CHR ''%'' then
        (case s of
           a # b # r \<Rightarrow>
             (case (hex_value a, hex_value b) of
                (Some x, Some y) \<Rightarrow> map_option ((#) (char_of (16 * x + y))) (QueryUnescape r)
              | _ \<Rightarrow> None)
         | _ \<Rightarrow> None)
      else map_option ((#) (if c = CHR ''+'' then CHR '' '' else c)) (QueryUnescape s))"

text \<open>\<open>url.Values\<close> as its pairs in key order; \<open>Encode\<close>, \<open>Get\<close>, and \<open>URL.Query\<close>, which skips what does not parse.\<close>

fun Encode :: "(string \<times> string) list \<Rightarrow> string" where
  "Encode [] = []"
| "Encode [(k, v)] = QueryEscape k @ ''='' @ QueryEscape v"
| "Encode ((k, v) # kvs) = QueryEscape k @ ''='' @ QueryEscape v @ ''&'' @ Encode kvs"

definition Get :: "string \<Rightarrow> (string \<times> string) list \<Rightarrow> string" where
  "Get k q = (case map_of q k of None \<Rightarrow> [] | Some v \<Rightarrow> v)"

fun split_on :: "char \<Rightarrow> string \<Rightarrow> string list" where
  "split_on d [] = [[]]"
| "split_on d (c # s) =
     (if c = d then [] # split_on d s else case split_on d s of [] \<Rightarrow> [[c]] | w # ws \<Rightarrow> (c # w) # ws)"

definition parse_pair :: "string \<Rightarrow> (string \<times> string) option" where
  "parse_pair seg =
     (if seg = [] \<or> CHR '';'' \<in> set seg then None
      else case (QueryUnescape (takeWhile (\<lambda>c. c \<noteq> CHR ''='') seg), QueryUnescape (drop 1 (dropWhile (\<lambda>c. c \<noteq> CHR ''='') seg))) of
             (Some k, Some v) \<Rightarrow> Some (k, v)
           | _ \<Rightarrow> None)"

definition ParseQuery :: "string \<Rightarrow> (string \<times> string) list" where
  "ParseQuery s = List.map_filter parse_pair (split_on CHR ''&'' s)"

section \<open>Signing\<close>

record sign_lib =
  sl_hmac :: "bytes \<Rightarrow> bytes \<Rightarrow> bytes"
  sl_uuid :: "uuid \<Rightarrow> string"

datatype Variant = Original | Thumbnail

fun variant_text :: "Variant \<Rightarrow> string" where
  "variant_text Original = []"
| "variant_text Thumbnail = ''.thumb''"

definition TTL :: int where "TTL = 3600 * 10 ^ 9"

definition newline :: char where "newline = CHR 0x0A"

definition mac_input :: "sign_lib \<Rightarrow> uuid \<Rightarrow> Variant \<Rightarrow> int \<Rightarrow> bytes" where
  "mac_input lib i v expires = sl_uuid lib i @ newline # variant_text v @ newline # FormatInt expires"

definition mac :: "sign_lib \<Rightarrow> bytes \<Rightarrow> uuid \<Rightarrow> Variant \<Rightarrow> int \<Rightarrow> bytes" where
  "mac lib key i v expires = sl_hmac lib key (mac_input lib i v expires)"

definition pathOf :: "string \<Rightarrow> Variant \<Rightarrow> string" where
  "pathOf i v = (if v = Thumbnail then ''/files/'' @ i @ ''/thumb'' else ''/files/'' @ i)"

definition Path :: "sign_lib \<Rightarrow> uuid \<Rightarrow> Variant \<Rightarrow> string" where
  "Path lib i v = pathOf (sl_uuid lib i) v"

definition RoutePattern :: "Variant \<Rightarrow> string" where
  "RoutePattern v = pathOf ''{id}'' v"

definition unix :: "int \<Rightarrow> int" where "unix t = t div 10 ^ 9"

definition signed_query :: "sign_lib \<Rightarrow> bytes \<Rightarrow> uuid \<Rightarrow> Variant \<Rightarrow> int \<Rightarrow> (string \<times> string) list" where
  "signed_query lib key i v now =
     (let expires = unix (now + TTL)
      in [(''exp'', FormatInt expires), (''sig'', base64_EncodeToString (mac lib key i v expires))])"

definition FileURLAt :: "sign_lib \<Rightarrow> bytes \<Rightarrow> uuid \<Rightarrow> Variant \<Rightarrow> int \<Rightarrow> string" where
  "FileURLAt lib key i v now = Path lib i v @ ''?'' @ Encode (signed_query lib key i v now)"

definition Valid :: "sign_lib \<Rightarrow> bytes \<Rightarrow> int \<Rightarrow> uuid \<Rightarrow> Variant \<Rightarrow> (string \<times> string) list \<Rightarrow> bool" where
  "Valid lib key now i v query =
     (case ParseInt (Get ''exp'' query) of
        None \<Rightarrow> False
      | Some expires \<Rightarrow>
          (case base64_DecodeString (Get ''sig'' query) of
             None \<Rightarrow> False
           | Some presented \<Rightarrow>
               if presented \<noteq> mac lib key i v expires then False else \<not> expires * 10 ^ 9 < now))"

section \<open>Serving\<close>








section \<open>The query survives\<close>

lemma hex_digits: "d < 16 \<Longrightarrow> hex_value (hex_digit d) = Some d \<and> hex_digit d \<notin> set ''&=;%''"
proof -
  have "list_all (\<lambda>d. hex_value (hex_digit d) = Some d \<and> hex_digit d \<notin> set ''&=;%'') [0..<16]" by code_simp
  then show "d < 16 \<Longrightarrow> hex_value (hex_digit d) = Some d \<and> hex_digit d \<notin> set ''&=;%''" by (simp add: list_all_iff)
qed

lemma byte_lt: "byte_of c < 256"
  by (simp add: byte_of_def)

lemma byte_parts: "byte_of c div 16 < 16" "byte_of c mod 16 < 16" "char_of (16 * (byte_of c div 16) + byte_of c mod 16) = c"
proof -
  show "byte_of c div 16 < 16" using byte_lt [of c] by (simp only: less_mult_imp_div_less)
  show "byte_of c mod 16 < 16" by simp
  show "char_of (16 * (byte_of c div 16) + byte_of c mod 16) = c" unfolding mult_div_mod_eq by (simp add: byte_of_def)
qed

lemma unreserved_plain: "unreserved c \<Longrightarrow> c \<noteq> CHR ''%'' \<and> c \<noteq> CHR ''+'' \<and> c \<notin> set ''&=;''"
  by (auto simp: unreserved_def byte_of_def Let_def)

lemma unescape_escape: "QueryUnescape (QueryEscape s) = Some s"
proof (induction s)
  case (Cons c s)
  then show ?case
    using unreserved_plain [of c] byte_parts [of c] hex_digits by auto
qed simp

lemma escape_clean: "c \<in> set (QueryEscape s) \<Longrightarrow> c \<noteq> CHR ''&'' \<and> c \<noteq> CHR ''='' \<and> c \<noteq> CHR '';''"
proof (induction s)
  case (Cons d s)
  then show ?case using unreserved_plain [of d] byte_parts [of d] hex_digits by (auto split: if_splits)
qed simp

lemma parse_pair_escaped: "parse_pair (QueryEscape k @ ''='' @ QueryEscape v) = Some (k, v)"
proof -
  have "takeWhile (\<lambda>c. c \<noteq> CHR ''='') (QueryEscape k @ ''='' @ QueryEscape v) = QueryEscape k"
      "dropWhile (\<lambda>c. c \<noteq> CHR ''='') (QueryEscape k @ ''='' @ QueryEscape v) = ''='' @ QueryEscape v"
    using escape_clean [of _ k] by (auto simp: takeWhile_append2 dropWhile_append2)
  moreover have "CHR '';'' \<notin> set (QueryEscape k @ ''='' @ QueryEscape v)" using escape_clean by auto
  ultimately show ?thesis by (simp add: parse_pair_def unescape_escape)
qed

lemma split_on_none: "d \<notin> set s \<Longrightarrow> split_on d s = [s]"
  by (induction s) auto

lemma split_on_append: "d \<notin> set s \<Longrightarrow> split_on d (s @ d # r) = s # split_on d r"
  by (induction s) auto

lemma pair_clean: "CHR ''&'' \<notin> set (QueryEscape k @ ''='' @ QueryEscape v)"
  using escape_clean by auto

lemma ParseQuery_Encode: "ParseQuery (Encode kvs) = kvs"
proof (induction kvs rule: Encode.induct)
  case 1
  show ?case by (simp add: ParseQuery_def List.map_filter_simps parse_pair_def)
next
  case (2 k v)
  show ?case using split_on_none [OF pair_clean [of k v]] by (simp add: ParseQuery_def List.map_filter_simps parse_pair_escaped [simplified])
next
  case (3 k v kv kvs)
  have "split_on CHR ''&'' ((QueryEscape k @ ''='' @ QueryEscape v) @ CHR ''&'' # Encode (kv # kvs)) =
      (QueryEscape k @ ''='' @ QueryEscape v) # split_on CHR ''&'' (Encode (kv # kvs))"
    by (rule split_on_append [OF pair_clean])
  with 3 show ?case by (simp add: ParseQuery_def List.map_filter_simps parse_pair_escaped [simplified])
qed

section \<open>What a signature covers\<close>






lemma Valid_iff:
  "Valid lib key now i v q \<longleftrightarrow> (\<exists>e. ParseInt (Get ''exp'' q) = Some e \<and>
     base64_DecodeString (Get ''sig'' q) = Some (mac lib key i v e) \<and> now \<le> e * 10 ^ 9)"
  by (auto simp: Valid_def split: option.splits)

section \<open>Properties\<close>

text \<open>
  A file address works until it expires, and only then stops. The query of an address the server
  minted, read back from the address, is accepted for that file and rendition at exactly the instants
  up to its expiry, which is within one second of an hour after it was minted.
\<close>

theorem file_url_live_until_expiry:
  assumes "- (2 ^ 63) \<le> unix (now + TTL)" and "unix (now + TTL) < 2 ^ 63"
  shows "\<exists>q. FileURLAt lib key i v now = Path lib i v @ ''?'' @ q \<and>
     (\<forall>t. Valid lib key t i v (ParseQuery q) = (t \<le> unix (now + TTL) * 10 ^ 9)) \<and>
     now + TTL - 10 ^ 9 < unix (now + TTL) * 10 ^ 9 \<and> unix (now + TTL) * 10 ^ 9 \<le> now + TTL"
proof (intro exI conjI allI)
  show "FileURLAt lib key i v now = Path lib i v @ ''?'' @ Encode (signed_query lib key i v now)" by (simp add: FileURLAt_def)
  show "Valid lib key t i v (ParseQuery (Encode (signed_query lib key i v now))) = (t \<le> unix (now + TTL) * 10 ^ 9)" for t
    unfolding ParseQuery_Encode Valid_iff using ParseInt_FormatInt [OF assms]
    by (simp add: signed_query_def Let_def Get_def base64_roundtrip)
  have "(now + TTL) div 10 ^ 9 * 10 ^ 9 + (now + TTL) mod 10 ^ 9 = now + TTL" "(now + TTL) mod 10 ^ 9 < 10 ^ 9" "0 \<le> (now + TTL) mod 10 ^ 9"
    by (simp_all only: div_mult_mod_eq) simp_all
  then show "now + TTL - 10 ^ 9 < unix (now + TTL) * 10 ^ 9" "unix (now + TTL) * 10 ^ 9 \<le> now + TTL"
    unfolding unix_def by linarith+
qed

definition demo_sign :: sign_lib where
  "demo_sign = \<lparr>sl_hmac = (\<lambda>k m. m), sl_uuid = itoa\<rparr>"

theorem file_url_live_until_expiry_witness:
  "\<exists>q. FileURLAt demo_sign ''key'' 5 Thumbnail 0 = ''/files/5/thumb?'' @ q \<and> Valid demo_sign ''key'' (3600 * 10 ^ 9) 5 Thumbnail (ParseQuery q) \<and>
     \<not> Valid demo_sign ''key'' (3600 * 10 ^ 9 + 1) 5 Thumbnail (ParseQuery q)"
proof -
  have u: "unix (0 + TTL) = 3600" by (simp add: unix_def TTL_def)
  obtain q where q: "FileURLAt demo_sign ''key'' 5 Thumbnail 0 = Path demo_sign 5 Thumbnail @ ''?'' @ q"
      "\<forall>t. Valid demo_sign ''key'' t 5 Thumbnail (ParseQuery q) = (t \<le> unix (0 + TTL) * 10 ^ 9)"
    using file_url_live_until_expiry [of 0 demo_sign "''key''" 5 Thumbnail] u by auto
  have "Path demo_sign 5 Thumbnail = ''/files/5/thumb''" by code_simp
  with q u show ?thesis by auto
qed





end
