(* ===== verification/Replay.thy ===== *)
theory Replay
  imports Prelude "HOL-Library.Word"
begin

text \<open>
  The replay buffer of the WebSocket gateway, \<^verbatim>\<open>server/internal/wsgateway/replay.go\<close>: one channel's
  sequence counter, a 64-bit word as in the code, and its bounded window of recent events.
\<close>

section \<open>The buffer\<close>

record 'f replayEntry =
  re_seq :: "64 word"
  re_at :: instant
  re_frame :: 'f

record 'f replayBuffer =
  rb_lastSeq :: "64 word"
  rb_entries :: "'f replayEntry list"

definition replayMaxEvents :: nat where "replayMaxEvents = 256"

text \<open>Five minutes, in nanoseconds.\<close>

definition replayMaxAge :: duration where "replayMaxAge = 300 * 10 ^ 9"

definition emptyBuffer :: "'f replayBuffer" where
  "emptyBuffer = \<lparr>rb_lastSeq = 0, rb_entries = []\<rparr>"

definition nextSeq :: "'f replayBuffer \<Rightarrow> 64 word \<times> 'f replayBuffer" where
  "nextSeq b = (rb_lastSeq b + 1, b\<lparr>rb_lastSeq := rb_lastSeq b + 1\<rparr>)"

definition buffer_store :: "64 word \<Rightarrow> 'f \<Rightarrow> instant \<Rightarrow> 'f replayBuffer \<Rightarrow> 'f replayBuffer" where
  "buffer_store seq frame at b =
     (let entries = rb_entries b @ [\<lparr>re_seq = seq, re_at = at, re_frame = frame\<rparr>]
      in b\<lparr>rb_entries := if replayMaxEvents < length entries then drop (length entries - replayMaxEvents) entries else entries\<rparr>)"

definition canResume :: "64 word \<Rightarrow> 'f replayBuffer \<Rightarrow> bool" where
  "canResume seq b =
     (if rb_lastSeq b < seq then False
      else if seq = rb_lastSeq b then True
      else case rb_entries b of [] \<Rightarrow> False | e # _ \<Rightarrow> re_seq e \<le> seq + 1)"

definition buffer_after :: "64 word \<Rightarrow> 'f replayBuffer \<Rightarrow> 'f list" where
  "buffer_after seq b = map re_frame (filter (\<lambda>e. seq < re_seq e) (rb_entries b))"

definition prune :: "instant \<Rightarrow> 'f replayBuffer \<Rightarrow> 'f replayBuffer" where
  "prune cutoff b = b\<lparr>rb_entries := dropWhile (\<lambda>e. re_at e < cutoff) (rb_entries b)\<rparr>"

section \<open>What happened on the channel\<close>

text \<open>
  The life of a buffer: an event published with its frame, an event whose frame could not be encoded
  (it takes its number and is not stored), and the sweep's pruning. The history is the list of all events
  so far; the event at position \<open>i\<close> has number \<open>i + 1\<close>.
\<close>

datatype 'f buffer_op = Publish 'f instant | Unencoded | Prune instant

fun buffer_step :: "'f replayBuffer \<Rightarrow> 'f buffer_op \<Rightarrow> 'f replayBuffer" where
  "buffer_step b (Publish f at) = (let (seq, b1) = nextSeq b in buffer_store seq f at b1)"
| "buffer_step b Unencoded = snd (nextSeq b)"
| "buffer_step b (Prune cutoff) = prune cutoff b"

definition buffer_run :: "'f buffer_op list \<Rightarrow> 'f replayBuffer" where
  "buffer_run ops = foldl buffer_step emptyBuffer ops"

fun op_event :: "'f buffer_op \<Rightarrow> ('f \<times> instant) option list" where
  "op_event (Publish f at) = [Some (f, at)]"
| "op_event Unencoded = [None]"
| "op_event (Prune cutoff) = []"

definition happened :: "'f buffer_op list \<Rightarrow> ('f \<times> instant) option list" where
  "happened ops = concat (map op_event ops)"

text \<open>The encoded events with their numbers.\<close>

fun numbered :: "nat \<Rightarrow> ('f \<times> instant) option list \<Rightarrow> (nat \<times> 'f \<times> instant) list" where
  "numbered n [] = []"
| "numbered n (None # h) = numbered (Suc n) h"
| "numbered n (Some (f, at) # h) = (Suc n, f, at) # numbered (Suc n) h"

lemma numbered_append: "numbered n (h @ k) = numbered n h @ numbered (n + length h) k"
  by (induction n h rule: numbered.induct) auto

lemma numbered_range: "x \<in> set (numbered n h) \<Longrightarrow> n < fst x \<and> fst x \<le> n + length h"
  by (induction n h rule: numbered.induct) auto

lemma numbered_sorted: "sorted_wrt (\<lambda>x y. fst x < fst y) (numbered n h)"
  by (induction n h rule: numbered.induct) (auto dest: numbered_range)

definition frames_of :: "('f \<times> instant) option list \<Rightarrow> 'f list" where
  "frames_of h = map fst (List.map_filter (\<lambda>x. x) h)"

lemma numbered_frames: "map (\<lambda>(i, f, at). f) (numbered n h) = frames_of h"
  by (induction n h rule: numbered.induct) (simp_all add: frames_of_def List.map_filter_simps)

lemma numbered_later: "filter (\<lambda>x. n < fst x) (numbered 0 (h @ k)) = numbered n k" if "length h = n"
proof -
  have "filter (\<lambda>x. n < fst x) (numbered 0 h) = []" using numbered_range [of _ 0 h] that by (fastforce simp: filter_empty_conv)
  moreover have "filter (\<lambda>x. n < fst x) (numbered n k) = numbered n k" using numbered_range [of _ n k] by (auto simp: filter_id_conv)
  ultimately show ?thesis using that by (simp add: numbered_append)
qed

definition entry_view :: "'f replayEntry \<Rightarrow> nat \<times> 'f \<times> instant" where
  "entry_view e = (unat (re_seq e), re_frame e, re_at e)"

text \<open>The buffer holds the last of the encoded events, each with its own number.\<close>

definition buffer_ok :: "('f \<times> instant) option list \<Rightarrow> 'f replayBuffer \<Rightarrow> bool" where
  "buffer_ok h b \<longleftrightarrow> unat (rb_lastSeq b) = length h \<and>
     (\<exists>k. map entry_view (rb_entries b) = drop k (numbered 0 h))"

lemma seq_bound: "unat (w :: 64 word) < 2 ^ 64"
  using unsigned_less [of w] by simp

lemma next_unat: "unat (w :: 64 word) = n \<Longrightarrow> Suc n < 2 ^ 64 \<Longrightarrow> unat (w + 1) = Suc n"
  by (simp add: unat_word_ariths)

lemma buffer_ok_publish:
  assumes "buffer_ok h b" and "Suc (length h) < 2 ^ 64"
  shows "buffer_ok (h @ [Some (f, at)]) (buffer_step b (Publish f at))"
proof -
  obtain k where k: "map entry_view (rb_entries b) = drop k (numbered 0 h)" using assms(1) by (auto simp: buffer_ok_def)
  have last: "unat (rb_lastSeq b + 1) = Suc (length h)" using assms by (intro next_unat) (simp_all add: buffer_ok_def)
  let ?es = "rb_entries b @ [\<lparr>re_seq = rb_lastSeq b + 1, re_at = at, re_frame = f\<rparr>]"
  have num: "numbered 0 (h @ [Some (f, at)]) = numbered 0 h @ [(Suc (length h), f, at)]" by (simp add: numbered_append)
  let ?k = "min k (length (numbered 0 h))"
  have "map entry_view ?es = drop ?k (numbered 0 (h @ [Some (f, at)]))"
    using k last by (simp add: num entry_view_def min_def)
  then have "map entry_view (drop m ?es) = drop (m + ?k) (numbered 0 (h @ [Some (f, at)]))" for m
    unfolding drop_map [symmetric] by simp
  moreover have "rb_entries (buffer_step b (Publish f at)) = drop (length ?es - replayMaxEvents) ?es"
    by (simp add: nextSeq_def buffer_store_def Let_def)
  ultimately have "\<exists>k. map entry_view (rb_entries (buffer_step b (Publish f at))) = drop k (numbered 0 (h @ [Some (f, at)]))"
    by metis
  then show ?thesis using last by (simp add: buffer_ok_def nextSeq_def buffer_store_def Let_def)
qed

lemma buffer_ok_step:
  assumes "buffer_ok h b" and "length (h @ op_event x) < 2 ^ 64"
  shows "buffer_ok (h @ op_event x) (buffer_step b x)"
proof (cases x)
  case (Publish f at)
  with assms buffer_ok_publish show ?thesis by auto
next
  case Unencoded
  then have "unat (rb_lastSeq b + 1) = Suc (length h)" using assms by (intro next_unat) (simp_all add: buffer_ok_def)
  with Unencoded assms(1) show ?thesis by (simp add: buffer_ok_def nextSeq_def numbered_append)
next
  case (Prune cutoff)
  obtain k where k: "map entry_view (rb_entries b) = drop k (numbered 0 h)" using assms(1) by (auto simp: buffer_ok_def)
  have "dropWhile P xs = drop (length (takeWhile P xs)) xs" for P and xs :: "'a replayEntry list"
    by (metis append_eq_conv_conj takeWhile_dropWhile_id)
  then have "map entry_view (dropWhile P (rb_entries b)) = drop (length (takeWhile P (rb_entries b)) + k) (numbered 0 h)" for P
    using k by (metis drop_drop drop_map)
  with Prune assms(1) show ?thesis by (auto simp: buffer_ok_def prune_def)
qed

lemma buffer_ok_run: "length (happened ops) < 2 ^ 64 \<Longrightarrow> buffer_ok (happened ops) (buffer_run ops)"
proof (induction ops rule: rev_induct)
  case Nil
  show ?case by (simp add: buffer_ok_def buffer_run_def happened_def emptyBuffer_def)
next
  case (snoc x ops)
  then have "buffer_ok (happened ops @ op_event x) (buffer_step (buffer_run ops) x)"
    by (intro buffer_ok_step) (simp_all add: happened_def)
  then show ?case by (simp add: buffer_run_def happened_def)
qed

section \<open>Replaying\<close>

lemma after_exact:
  assumes ok: "buffer_ok h b" and res: "canResume seq b"
  shows "unat seq \<le> length h \<and> buffer_after seq b = frames_of (drop (unat seq) h)"
proof -
  let ?n = "unat seq"
  obtain k where k: "map entry_view (rb_entries b) = drop k (numbered 0 h)" and last: "unat (rb_lastSeq b) = length h"
    using ok by (auto simp: buffer_ok_def)
  have le: "?n \<le> length h" using res last by (auto simp: canResume_def word_less_nat_alt split: if_splits)
  have all: "filter (\<lambda>x. ?n < fst x) (numbered 0 h) = numbered ?n (drop ?n h)"
    using numbered_later [of "take ?n h" ?n "drop ?n h"] le by simp
  have front: "filter (\<lambda>x. ?n < fst x) (take k (numbered 0 h)) = []"
  proof (cases "?n = length h")
    case True
    then show ?thesis using numbered_range [of _ 0 h] by (fastforce simp: filter_empty_conv dest: in_set_takeD)
  next
    case False
    then have "seq \<noteq> rb_lastSeq b" using last by auto
    then obtain e es where e: "rb_entries b = e # es" "re_seq e \<le> seq + 1"
      using res by (auto simp: canResume_def split: if_splits list.splits)
    have "unat (seq + 1) = Suc ?n" using le False last seq_bound [of "rb_lastSeq b"] by (intro next_unat) simp_all
    with e(2) have hd: "unat (re_seq e) \<le> Suc ?n" by (simp add: word_le_nat_alt)
    have "numbered 0 h = take k (numbered 0 h) @ entry_view e # map entry_view es" using k e(1) by (metis append_take_drop_id list.map(2))
    then have "\<forall>x \<in> set (take k (numbered 0 h)). fst x < fst (entry_view e)"
      using numbered_sorted [of 0 h] by (metis list.set_intros(1) sorted_wrt_append)
    with hd show ?thesis by (fastforce simp: filter_empty_conv entry_view_def)
  qed
  have "filter (\<lambda>x. ?n < fst x) (numbered 0 h) =
      filter (\<lambda>x. ?n < fst x) (take k (numbered 0 h)) @ filter (\<lambda>x. ?n < fst x) (map entry_view (rb_entries b))"
    unfolding k filter_append [symmetric] append_take_drop_id ..
  then have "filter (\<lambda>x. ?n < fst x) (map entry_view (rb_entries b)) = numbered ?n (drop ?n h)" using all front by simp
  moreover have "buffer_after seq b = map (\<lambda>(i, f, at). f) (filter (\<lambda>x. ?n < fst x) (map entry_view (rb_entries b)))"
    by (simp add: buffer_after_def filter_map comp_def entry_view_def word_less_nat_alt)
  ultimately show ?thesis using le by (simp add: numbered_frames)
qed

section \<open>What stays in the window\<close>

definition retains :: "nat \<Rightarrow> ('f \<times> instant) option list \<Rightarrow> 'f replayBuffer \<Rightarrow> bool" where
  "retains n h b \<longleftrightarrow> filter (\<lambda>x. n < fst x) (map entry_view (rb_entries b)) = filter (\<lambda>x. n < fst x) (numbered 0 h)"

lemma upward_split: "sorted_wrt (\<lambda>x y. P x \<longrightarrow> P y) xs \<Longrightarrow> xs = filter (\<lambda>x. \<not> P x) xs @ filter P xs"
proof (induction xs)
  case (Cons x xs)
  show ?case
  proof (cases "P x")
    case True
    with Cons.prems have "\<forall>y \<in> set xs. P y" by auto
    with True show ?thesis by (auto simp: filter_empty_conv filter_id_conv)
  next
    case False
    with Cons show ?thesis by simp
  qed
qed simp

lemma filter_drop_upward:
  assumes "sorted_wrt (\<lambda>x y. P x \<longrightarrow> P y) xs" and "length (filter P xs) \<le> n"
  shows "filter P (drop (length xs - n) xs) = filter P xs"
proof -
  let ?a = "filter (\<lambda>x. \<not> P x) xs" and ?b = "filter P xs"
  have xs: "xs = ?a @ ?b" by (rule upward_split [OF assms(1)])
  then have "length xs = length ?a + length ?b" by (metis length_append)
  then have "length xs - n \<le> length ?a" using assms(2) by simp
  then have "drop (length xs - n) xs = drop (length xs - n) ?a @ ?b" by (subst (2) xs) simp
  then have "filter P (drop (length xs - n) xs) = filter P (drop (length xs - n) ?a) @ filter P ?b" by simp
  moreover have "filter P (drop (length xs - n) ?a) = []" by (auto simp: filter_empty_conv dest: in_set_dropD)
  ultimately show ?thesis by simp
qed

lemma length_numbered: "length (numbered n h) \<le> length h"
  by (induction n h rule: numbered.induct) auto

lemma missed_count: "length (filter (\<lambda>x. n < fst x) (numbered 0 h)) \<le> length h - n"
proof (cases "n \<le> length h")
  case True
  then have "filter (\<lambda>x. n < fst x) (numbered 0 h) = numbered n (drop n h)" using numbered_later [of "take n h" n "drop n h"] by simp
  then show ?thesis using length_numbered [of n "drop n h"] by simp
next
  case False
  then have "filter (\<lambda>x. n < fst x) (numbered 0 h) = []" using numbered_range [of _ 0 h] by (fastforce simp: filter_empty_conv)
  then show ?thesis by (simp only: list.size)
qed

lemma numbered_mem: "(i, f, at) \<in> set (numbered n h) \<Longrightarrow> Some (f, at) \<in> set h"
  by (induction n h rule: numbered.induct) auto

lemma numbered_missed:
  assumes "(i, f, at) \<in> set (numbered 0 h)" and "n < i"
  shows "Some (f, at) \<in> set (drop n h)"
proof -
  have "i \<le> length h" using numbered_range [OF assms(1)] by simp
  then have "filter (\<lambda>x. n < fst x) (numbered 0 h) = numbered n (drop n h)"
    using assms(2) numbered_later [of "take n h" n "drop n h"] by simp
  then have "(i, f, at) \<in> set (numbered n (drop n h))" using assms by (metis (mono_tags, lifting) filter_set fst_conv mem_Collect_eq set_filter)
  then show ?thesis by (rule numbered_mem)
qed

lemma entries_sorted:
  assumes "buffer_ok h b"
  shows "sorted_wrt (\<lambda>x y. fst x < fst y) (map entry_view (rb_entries b))"
  using assms numbered_sorted [of 0 h] by (auto simp: buffer_ok_def intro: sorted_wrt_drop)

lemma retains_publish:
  assumes ok: "buffer_ok h b" and "Suc (length h) < 2 ^ 64" and "retains n h b" and "Suc (length h) - n \<le> replayMaxEvents"
  shows "retains n (h @ [Some (f, at)]) (buffer_step b (Publish f at))"
proof -
  let ?P = "\<lambda>x :: nat \<times> 'a \<times> instant. n < fst x"
  let ?h = "h @ [Some (f, at)]" and ?es = "rb_entries b @ [\<lparr>re_seq = rb_lastSeq b + 1, re_at = at, re_frame = f\<rparr>]"
  have seq: "unat (rb_lastSeq b + 1) = Suc (length h)" using assms by (intro next_unat) (simp_all add: buffer_ok_def)
  have num: "numbered 0 ?h = numbered 0 h @ [(Suc (length h), f, at)]" by (simp add: numbered_append)
  have views: "map entry_view ?es = map entry_view (rb_entries b) @ [(Suc (length h), f, at)]" using seq by (simp add: entry_view_def)
  have all: "filter ?P (map entry_view ?es) = filter ?P (numbered 0 ?h)" using assms(3) unfolding views num by (simp add: retains_def)
  have "map entry_view (rb_entries b) @ [(Suc (length h), f, at)] = drop k (numbered 0 ?h)"
    if "map entry_view (rb_entries b) = drop k (numbered 0 h)" "k \<le> length (numbered 0 h)" for k using that num by simp
  moreover obtain k where "map entry_view (rb_entries b) = drop k (numbered 0 h)" "k \<le> length (numbered 0 h)"
  proof -
    obtain k where "map entry_view (rb_entries b) = drop k (numbered 0 h)" using ok by (auto simp: buffer_ok_def)
    then have "map entry_view (rb_entries b) = drop (min k (length (numbered 0 h))) (numbered 0 h)" by (simp add: min_def)
    then show thesis by (intro that [of "min k (length (numbered 0 h))"]) simp_all
  qed
  ultimately have "sorted_wrt (\<lambda>x y. fst x < fst y) (map entry_view ?es)"
    unfolding views using numbered_sorted [of 0 ?h] by (metis sorted_wrt_drop)
  then have up: "sorted_wrt (\<lambda>x y. ?P x \<longrightarrow> ?P y) (map entry_view ?es)" by (rule sorted_wrt_mono_rel [rotated]) auto
  have "length (filter ?P (map entry_view ?es)) \<le> replayMaxEvents"
    unfolding all using missed_count [of n ?h] assms(4) by simp
  from filter_drop_upward [OF up this] all
  have "filter ?P (map entry_view (drop (length ?es - replayMaxEvents) ?es)) = filter ?P (numbered 0 ?h)"
    by (simp only: drop_map [symmetric] length_map)
  moreover have "rb_entries (buffer_step b (Publish f at)) = drop (length ?es - replayMaxEvents) ?es"
    by (simp add: nextSeq_def buffer_store_def Let_def)
  ultimately show ?thesis by (simp only: retains_def)
qed

lemma retains_prune:
  assumes ok: "buffer_ok h b" and "retains n h b" and "\<forall>f at. Some (f, at) \<in> set (drop n h) \<longrightarrow> cutoff \<le> at"
  shows "retains n h (prune cutoff b)"
proof -
  let ?Q = "\<lambda>e. re_at e < cutoff" and ?es = "rb_entries b"
  have "\<not> n < fst (entry_view e)" if e: "e \<in> set (takeWhile ?Q ?es)" for e
  proof
    assume n: "n < fst (entry_view e)"
    have "e \<in> set ?es" "re_at e < cutoff" using e by (auto dest: set_takeWhileD)
    moreover from this have "entry_view e \<in> set (numbered 0 h)"
      using ok unfolding buffer_ok_def by (metis image_eqI in_set_dropD list.set_map)
    ultimately show False using assms(3) numbered_missed [of "fst (entry_view e)" "re_frame e" "re_at e" h n] n
      by (metis entry_view_def fst_conv not_less)
  qed
  then have "filter (\<lambda>x. n < fst x) (map entry_view (takeWhile ?Q ?es)) = []" by (auto simp: filter_empty_conv)
  moreover have "map entry_view ?es = map entry_view (takeWhile ?Q ?es) @ map entry_view (dropWhile ?Q ?es)"
    by (metis map_append takeWhile_dropWhile_id)
  ultimately show ?thesis using assms(2) by (simp add: retains_def prune_def)
qed

lemma retains_run:
  assumes "length (happened ops) < 2 ^ 64" and "length (happened ops) - n \<le> replayMaxEvents"
    and "\<forall>c f at. Prune c \<in> set ops \<longrightarrow> Some (f, at) \<in> set (drop n (happened ops)) \<longrightarrow> c \<le> at"
    and "\<exists>ys. ops = xs @ ys"
  shows "retains n (happened xs) (buffer_run xs)"
  using assms(4)
proof (induction xs rule: rev_induct)
  case Nil
  show ?case by (simp add: retains_def buffer_run_def happened_def emptyBuffer_def)
next
  case (snoc x xs)
  then obtain ys where ys: "ops = xs @ x # ys" by auto
  have all: "happened ops = happened xs @ op_event x @ happened ys" by (simp add: ys happened_def)
  have small: "length (happened xs) < 2 ^ 64" "length (happened (xs @ [x])) < 2 ^ 64"
    using assms(1) unfolding all by (simp_all add: happened_def)
  note ok = buffer_ok_run [OF small(1)]
  have IH: "retains n (happened xs) (buffer_run xs)" using snoc.IH ys by auto
  have step: "buffer_run (xs @ [x]) = buffer_step (buffer_run xs) x" "happened (xs @ [x]) = happened xs @ op_event x"
    by (simp_all add: buffer_run_def happened_def)
  show ?case
  proof (cases x)
    case (Publish f at)
    have "Suc (length (happened xs)) - n \<le> replayMaxEvents" using assms(2) by (simp add: all Publish)
    moreover have "Suc (length (happened xs)) < 2 ^ 64" using small(2) by (simp add: happened_def Publish)
    ultimately show ?thesis using retains_publish [OF ok _ IH] unfolding step unfolding Publish by simp
  next
    case Unencoded
    then show ?thesis using IH unfolding step by (simp add: retains_def nextSeq_def numbered_append)
  next
    case (Prune c)
    have "set (drop n (happened xs)) \<subseteq> set (drop n (happened ops))" by (auto simp: all)
    then show ?thesis using retains_prune [OF ok IH, of c] assms(3) unfolding step by (auto simp: Prune ys)
  qed
qed

text \<open>
  C8. A resumed client misses nothing and sees nothing twice. Whatever was published on a channel and
  whatever the sweep dropped, if the buffer agrees to resume a client that has seen the first \<open>n\<close> events,
  the frames it replays are exactly the frames of the events after those, in order; and it never agrees
  to resume from a number it has not given out.
\<close>

theorem resume_replays_exactly:
  assumes "length (happened ops) < 2 ^ 64" and "canResume seq (buffer_run ops)"
  shows "unat seq \<le> length (happened ops) \<and> buffer_after seq (buffer_run ops) = frames_of (drop (unat seq) (happened ops))"
  using after_exact [OF buffer_ok_run [OF assms(1)] assms(2)] .

theorem resume_replays_exactly_witness:
  "buffer_after 1 (buffer_run [Publish ''a'' 1, Publish ''b'' 2, Prune 2, Publish ''c'' 3]) = [''b'', ''c'']"
proof -
  let ?ops = "[Publish ''a'' 1, Publish ''b'' 2, Prune 2, Publish ''c'' 3]"
  have "length (happened ?ops) < 2 ^ 64" by (simp add: happened_def)
  moreover have "canResume 1 (buffer_run ?ops)"
    by (simp add: buffer_run_def emptyBuffer_def nextSeq_def buffer_store_def prune_def canResume_def Let_def replayMaxEvents_def)
  ultimately show ?thesis using resume_replays_exactly [of ?ops 1] by (simp add: happened_def frames_of_def List.map_filter_simps)
qed

text \<open>
  A client that is not far behind is always resumed. A client that has seen the first \<open>n\<close> events and is
  missing at most 256, all of them encoded and none old enough for any sweep that ran, is resumed.
\<close>

theorem short_absence_resumes:
  assumes "length (happened ops) < 2 ^ 64" and "unat seq \<le> length (happened ops)"
    and "length (happened ops) - unat seq \<le> replayMaxEvents" and "None \<notin> set (drop (unat seq) (happened ops))"
    and "\<forall>c f at. Prune c \<in> set ops \<longrightarrow> Some (f, at) \<in> set (drop (unat seq) (happened ops)) \<longrightarrow> c \<le> at"
  shows "canResume seq (buffer_run ops)"
proof -
  let ?n = "unat seq"
  have kept: "retains ?n (happened ops) (buffer_run ops)" using retains_run [OF assms(1,3,5), of ops] by simp
  let ?b = "buffer_run ops" and ?h = "happened ops"
  have ok: "buffer_ok ?h ?b" by (rule buffer_ok_run [OF assms(1)])
  have last: "unat (rb_lastSeq ?b) = length ?h" using ok by (simp add: buffer_ok_def)
  show ?thesis
  proof (cases "?n = length ?h")
    case True
    then have "seq = rb_lastSeq ?b" using last by (metis word_unat_eq_iff)
    then show ?thesis by (simp add: canResume_def)
  next
    case False
    then have lt: "?n < length ?h" using assms(2) by simp
    then obtain f at r where d: "drop ?n ?h = Some (f, at) # r"
      using assms(4) by (cases "drop ?n ?h"; cases "hd (drop ?n ?h)") auto
    have "numbered 0 ?h = numbered 0 (take ?n ?h) @ numbered ?n (drop ?n ?h)"
      using numbered_append [of 0 "take ?n ?h" "drop ?n ?h"] lt by simp
    then have "(Suc ?n, f, at) \<in> set (filter (\<lambda>x. ?n < fst x) (numbered 0 ?h))" by (simp add: d)
    then have mem: "(Suc ?n, f, at) \<in> set (map entry_view (rb_entries ?b))"
      using kept unfolding retains_def by (metis filter_is_subset subsetD)
    then obtain e es where e: "rb_entries ?b = e # es" by (cases "rb_entries ?b") auto
    have "fst (entry_view e) \<le> Suc ?n" using mem entries_sorted [OF ok] by (auto simp: e entry_view_def)
    moreover have "unat (seq + 1) = Suc ?n" using lt last seq_bound [of "rb_lastSeq ?b"] by (intro next_unat) simp_all
    ultimately have "re_seq e \<le> seq + 1" by (simp add: word_le_nat_alt entry_view_def)
    moreover have "seq < rb_lastSeq ?b" using lt last by (simp add: word_less_nat_alt)
    ultimately show ?thesis by (auto simp: canResume_def e)
  qed
qed

theorem short_absence_resumes_witness: "canResume 1 (buffer_run [Publish ''a'' 1, Publish ''b'' 2, Prune 2, Publish ''c'' 3])"
proof -
  let ?ops = "[Publish ''a'' 1, Publish ''b'' 2, Prune 2, Publish ''c'' 3]"
  have h: "happened ?ops = [Some (''a'', 1), Some (''b'', 2), Some (''c'', 3)]" by (simp add: happened_def)
  show ?thesis by (rule short_absence_resumes) (simp_all add: h replayMaxEvents_def)
qed

end
