(* ===== verification/Gateway.thy ===== *)
theory Gateway
  imports Replay Message_Store Session_Store Ratelimit Authz "HOL-Library.AList"
begin

text \<open>
  The WebSocket gateway: \<^verbatim>\<open>server/internal/wsgateway/dispatch.go\<close> (events, audiences, delivery),
  \<^verbatim>\<open>wsgateway.go\<close> (registration with replay, the sweeps), \<^verbatim>\<open>conn.go\<close> (handshake, client frames, queues) and
  \<^verbatim>\<open>frame.go\<close>.

  The state is what the gateway's lock guards and what each socket owns. A frame is the value that is
  encoded, and \<open>encodes\<close> says whether \<open>json.Marshal\<close> accepts it. The store is asked while other
  transactions run: the \<open>k\<close>-th query of an operation is answered by \<open>qs k\<close>, an error or the database it
  saw. A socket's \<open>so_wire\<close> is what has been written to the client. The counter of dropped events, which
  nothing reads, is left out.
\<close>

section \<open>Frames and events\<close>

record participant =
  cp_JoinedAt :: instant
  cp_ScreenSharing :: bool
  cp_User :: MessageAuthor

datatype payload =
    MessageData Message | ChannelData Channel | MemberData uuid MessageAuthor | ChanData uuid
  | ReadPositionData uuid uuid instant | TypingData uuid | PresenceData uuid string
  | CallStartedData uuid uuid "participant list" | CallUpdatedData uuid "participant list"
  | MlsCommitData int | MlsWelcomeData | ErrorData string string | EmptyData
  | HelloOKData uuid uuid "(uuid \<times> 64 word) list" "uuid list"

record outFrame =
  of_Type :: string
  of_ID :: string
  of_Chan :: "uuid option"
  of_Seq :: "64 word option"
  of_TS :: instant
  of_Data :: payload

record event =
  ev_typ :: string
  ev_channelID :: uuid
  ev_payload :: payload
  ev_ordered :: bool
  ev_subscribed :: bool
  ev_toUsers :: "uuid list option"
  ev_verifyMembers :: bool
  ev_dropSubsUser :: uuid
  ev_excludeUser :: uuid
  ev_dmFanout :: bool
  ev_subject :: uuid
  ev_state :: string

text \<open>A Go composite literal names some fields; the others are zero (\<open>uuid.Nil\<close> is 0).\<close>

definition zero_event :: event where
  "zero_event = \<lparr>ev_typ = [], ev_channelID = 0, ev_payload = EmptyData, ev_ordered = False, ev_subscribed = False,
     ev_toUsers = None, ev_verifyMembers = False, ev_dropSubsUser = 0, ev_excludeUser = 0, ev_dmFanout = False,
     ev_subject = 0, ev_state = []\<rparr>"

definition MessageCreated :: "uuid \<Rightarrow> Message \<Rightarrow> event" where
  "MessageCreated ch m = zero_event\<lparr>ev_typ := ''message_created'', ev_channelID := ch, ev_ordered := True, ev_payload := MessageData m\<rparr>"

definition MessageUpdated :: "uuid \<Rightarrow> Message \<Rightarrow> event" where
  "MessageUpdated ch m = zero_event\<lparr>ev_typ := ''message_updated'', ev_channelID := ch, ev_ordered := True, ev_payload := MessageData m\<rparr>"

definition MessageDeleted :: "uuid \<Rightarrow> Message \<Rightarrow> event" where
  "MessageDeleted ch m = zero_event\<lparr>ev_typ := ''message_deleted'', ev_channelID := ch, ev_ordered := True, ev_payload := MessageData m\<rparr>"

definition ChannelCreated :: "uuid list \<Rightarrow> Channel \<Rightarrow> event" where
  "ChannelCreated us ch = zero_event\<lparr>ev_typ := ''channel_created'', ev_channelID := ch_ID ch, ev_toUsers := Some us,
     ev_verifyMembers := True, ev_payload := ChannelData ch\<rparr>"

definition ChannelUpdated :: "uuid \<Rightarrow> Channel \<Rightarrow> event" where
  "ChannelUpdated i ch = zero_event\<lparr>ev_typ := ''channel_updated'', ev_channelID := i, ev_ordered := True, ev_payload := ChannelData ch\<rparr>"

definition MemberAdded :: "uuid \<Rightarrow> MessageAuthor \<Rightarrow> event" where
  "MemberAdded ch u = zero_event\<lparr>ev_typ := ''member_added'', ev_channelID := ch, ev_ordered := True, ev_payload := MemberData ch u\<rparr>"

definition MemberRemoved :: "uuid \<Rightarrow> MessageAuthor \<Rightarrow> event" where
  "MemberRemoved ch u = zero_event\<lparr>ev_typ := ''member_removed'', ev_channelID := ch, ev_ordered := True,
     ev_dropSubsUser := ma_ID u, ev_payload := MemberData ch u\<rparr>"

definition ChannelRemoved :: "uuid \<Rightarrow> uuid \<Rightarrow> event" where
  "ChannelRemoved uid ch = zero_event\<lparr>ev_typ := ''channel_removed'', ev_channelID := ch, ev_toUsers := Some [uid],
     ev_dropSubsUser := uid, ev_payload := ChanData ch\<rparr>"

definition ReadPosition :: "uuid \<Rightarrow> uuid \<Rightarrow> uuid \<Rightarrow> instant \<Rightarrow> event" where
  "ReadPosition uid ch msgID readAt = zero_event\<lparr>ev_typ := ''read_position'', ev_channelID := ch, ev_toUsers := Some [uid],
     ev_payload := ReadPositionData ch msgID readAt\<rparr>"

definition CallStarted :: "uuid \<Rightarrow> uuid \<Rightarrow> participant list \<Rightarrow> event" where
  "CallStarted ch startedBy ps = zero_event\<lparr>ev_typ := ''call_started'', ev_channelID := ch, ev_payload := CallStartedData ch startedBy ps\<rparr>"

definition CallUpdated :: "uuid \<Rightarrow> participant list \<Rightarrow> event" where
  "CallUpdated ch ps = zero_event\<lparr>ev_typ := ''call_updated'', ev_channelID := ch, ev_payload := CallUpdatedData ch ps\<rparr>"

definition CallEnded :: "uuid \<Rightarrow> event" where
  "CallEnded ch = zero_event\<lparr>ev_typ := ''call_ended'', ev_channelID := ch, ev_payload := ChanData ch\<rparr>"

definition MlsCommit :: "uuid \<Rightarrow> int \<Rightarrow> event" where
  "MlsCommit ch epoch = zero_event\<lparr>ev_typ := ''mls_commit'', ev_channelID := ch, ev_payload := MlsCommitData epoch\<rparr>"

definition MlsWelcome :: "uuid \<Rightarrow> event" where
  "MlsWelcome uid = zero_event\<lparr>ev_typ := ''mls_welcome'', ev_toUsers := Some [uid], ev_payload := MlsWelcomeData\<rparr>"

section \<open>State\<close>

record socket =
  so_user :: uuid
  so_admin :: bool
  so_family :: uuid
  so_out :: "outFrame list"
  so_wire :: "outFrame list"
  so_subs :: "uuid list"
  so_resync :: "uuid list"
  so_close :: "(nat \<times> string) option"
  so_reg :: bool
  so_frames :: limiter

record presenceState =
  ps_state :: string
  ps_goneAt :: "instant option"

text \<open>
  \<open>live\<close> is the list of sockets with their identities; \<open>sockets\<close>, the index by user, is the registered ones
  among them.
\<close>

record gateway =
  gw_live :: "(nat \<times> socket) list"
  gw_channels :: "uuid \<Rightarrow> outFrame replayBuffer option"
  gw_presence :: "(uuid \<times> presenceState) list"
  gw_events :: "event list"
  gw_closing :: bool

definition new_gateway :: gateway where
  "new_gateway = \<lparr>gw_live = [], gw_channels = (\<lambda>_. None), gw_presence = [], gw_events = [], gw_closing = False\<rparr>"

definition outboundBuffer :: nat where "outboundBuffer = 256"
definition eventQueue :: nat where "eventQueue = 1024"
definition memberPage :: nat where "memberPage = 200"
definition channelPage :: nat where "channelPage = 200"
definition maxAudiencePages :: nat where "maxAudiencePages = 50"
definition maxResumeChannels :: nat where "maxResumeChannels = 64"

definition on_socket :: "(socket \<Rightarrow> bool) \<Rightarrow> (socket \<Rightarrow> socket) \<Rightarrow> (nat \<times> socket) list \<Rightarrow> (nat \<times> socket) list" where
  "on_socket P f ss = map (\<lambda>(i, s). (i, if P s then f s else s)) ss"

definition at_socket :: "nat \<Rightarrow> (socket \<Rightarrow> socket) \<Rightarrow> (nat \<times> socket) list \<Rightarrow> (nat \<times> socket) list" where
  "at_socket sid f ss = map (\<lambda>(i, s). (i, if i = sid then f s else s)) ss"

definition socketsFor :: "uuid \<Rightarrow> gateway \<Rightarrow> (nat \<times> socket) list" where
  "socketsFor uid g = filter (\<lambda>(i, s). so_reg s \<and> so_user s = uid) (gw_live g)"

section \<open>One socket\<close>

definition encodeOrLog :: "(outFrame \<Rightarrow> bool) \<Rightarrow> outFrame \<Rightarrow> outFrame option" where
  "encodeOrLog encodes f = (if encodes f then Some f else None)"

definition has_room :: "socket \<Rightarrow> bool" where
  "has_room s \<longleftrightarrow> length (so_out s) < outboundBuffer"

text \<open>\<open>queue\<close> drops a reply when the queue is full; \<open>deliver\<close> drops an event and owes the channel a resync.\<close>

definition queue :: "outFrame option \<Rightarrow> socket \<Rightarrow> socket" where
  "queue frame s = (case frame of None \<Rightarrow> s | Some f \<Rightarrow> if has_room s then s\<lparr>so_out := so_out s @ [f]\<rparr> else s)"

definition socket_deliver :: "uuid \<Rightarrow> outFrame \<Rightarrow> socket \<Rightarrow> socket" where
  "socket_deliver ch f s =
     (if has_room s then s\<lparr>so_out := so_out s @ [f]\<rparr> else s\<lparr>so_resync := List.insert ch (so_resync s)\<rparr>)"

definition subscribed :: "uuid \<Rightarrow> socket \<Rightarrow> bool" where
  "subscribed ch s \<longleftrightarrow> ch \<in> set (so_subs s)"

definition unsubscribe :: "uuid \<Rightarrow> socket \<Rightarrow> socket" where
  "unsubscribe ch s = s\<lparr>so_subs := removeAll ch (so_subs s)\<rparr>"

text \<open>The first caller names the close code.\<close>

definition shutdown :: "nat \<Rightarrow> string \<Rightarrow> socket \<Rightarrow> socket" where
  "shutdown code reason s = (if so_close s = None then s\<lparr>so_close := Some (code, reason)\<rparr> else s)"

definition flushResync :: "(outFrame \<Rightarrow> bool) \<Rightarrow> instant \<Rightarrow> socket \<Rightarrow> socket" where
  "flushResync encodes now s =
     s\<lparr>so_wire := so_wire s @ List.map_filter (\<lambda>ch. encodeOrLog encodes
         \<lparr>of_Type = ''resync'', of_ID = [], of_Chan = Some ch, of_Seq = None, of_TS = now, of_Data = ChanData ch\<rparr>) (so_resync s),
       so_resync := []\<rparr>"

text \<open>One turn of the write pump: the resyncs owed, then the oldest frame.\<close>

definition pump :: "(outFrame \<Rightarrow> bool) \<Rightarrow> instant \<Rightarrow> socket \<Rightarrow> socket" where
  "pump encodes now s =
     (let s1 = flushResync encodes now s
      in case so_out s1 of [] \<Rightarrow> s1 | f # r \<Rightarrow> s1\<lparr>so_wire := so_wire s1 @ [f], so_out := r\<rparr>)"

section \<open>Dispatch\<close>

definition enqueue :: "event \<Rightarrow> gateway \<Rightarrow> gateway" where
  "enqueue ev g =
     (if length (gw_events g) < eventQueue then g\<lparr>gw_events := gw_events g @ [ev]\<rparr> else g)"

definition announcePresence :: "uuid \<Rightarrow> string \<Rightarrow> gateway \<Rightarrow> gateway" where
  "announcePresence uid state =
     enqueue (zero_event\<lparr>ev_typ := ''presence'', ev_dmFanout := True, ev_subject := uid, ev_state := state\<rparr>)"

definition send_user :: "event \<Rightarrow> outFrame \<Rightarrow> uuid \<Rightarrow> gateway \<Rightarrow> gateway" where
  "send_user ev frame uid g =
     (if uid = ev_excludeUser ev \<and> ev_excludeUser ev \<noteq> 0 then g
      else
        g\<lparr>gw_live := on_socket
             (\<lambda>s. so_reg s \<and> so_user s = uid \<and> \<not> (ev_subscribed ev \<and> \<not> subscribed (ev_channelID ev) s))
             (socket_deliver (ev_channelID ev) frame) (gw_live g)\<rparr>)"

definition sendLocked :: "event \<Rightarrow> outFrame \<Rightarrow> uuid list \<Rightarrow> gateway \<Rightarrow> gateway" where
  "sendLocked ev frame recipients g = fold (send_user ev frame) recipients g"

definition publish :: "(outFrame \<Rightarrow> bool) \<Rightarrow> instant \<Rightarrow> event \<Rightarrow> uuid list \<Rightarrow> gateway \<Rightarrow> gateway" where
  "publish encodes now ev recipients g =
     (let out = \<lparr>of_Type = ev_typ ev, of_ID = [], of_Chan = (if ev_channelID ev \<noteq> 0 then Some (ev_channelID ev) else None),
                 of_Seq = None, of_TS = now, of_Data = ev_payload ev\<rparr>
      in if \<not> ev_ordered ev then
           (case encodeOrLog encodes out of None \<Rightarrow> g | Some frame \<Rightarrow> sendLocked ev frame recipients g)
         else
           (let buf = (case gw_channels g (ev_channelID ev) of None \<Rightarrow> emptyBuffer | Some b \<Rightarrow> b);
                (seq, buf1) = nextSeq buf
            in case encodeOrLog encodes (out\<lparr>of_Seq := Some seq\<rparr>) of
                 None \<Rightarrow> g\<lparr>gw_channels := (gw_channels g)(ev_channelID ev := Some buf1)\<rparr>
               | Some frame \<Rightarrow>
                   sendLocked ev frame recipients
                     (g\<lparr>gw_channels := (gw_channels g)(ev_channelID ev := Some (buffer_store seq frame now buf1))\<rparr>)))"

definition canceled :: store_error where "canceled = ErrOther ''context canceled''"

text \<open>The pages of a membership, at most \<open>maxAudiencePages\<close> of them; page \<open>k\<close> is read from \<open>qs k\<close>.\<close>

fun member_pages ::
  "(string \<Rightarrow> 'k::linorder) \<Rightarrow> (nat \<Rightarrow> store_error + db) \<Rightarrow> uuid \<Rightarrow> nat \<Rightarrow> nat \<Rightarrow> (string \<times> uuid) option \<Rightarrow> store_error + uuid list" where
  "member_pages collate qs ch 0 k cursor = Inr []"
| "member_pages collate qs ch (Suc n) k cursor =
     (case qs k of
        Inl e \<Rightarrow> Inl e
      | Inr db \<Rightarrow>
          (let page = ListChannelMembers collate ch cursor memberPage db
           in if length page < memberPage then Inr (map u_id page)
              else (case member_pages collate qs ch n (Suc k) (Some (u_username (last page), u_id (last page))) of
                      Inl e \<Rightarrow> Inl e | Inr rest \<Rightarrow> Inr (map u_id page @ rest))))"

definition channelMembers :: "(string \<Rightarrow> 'k::linorder) \<Rightarrow> (nat \<Rightarrow> store_error + db) \<Rightarrow> uuid \<Rightarrow> store_error + uuid list" where
  "channelMembers collate qs ch = member_pages collate qs ch maxAudiencePages 0 None"

fun verified :: "(nat \<Rightarrow> store_error + db) \<Rightarrow> uuid \<Rightarrow> nat \<Rightarrow> uuid list \<Rightarrow> store_error + uuid list" where
  "verified qs ch k [] = Inr []"
| "verified qs ch k (u # us) =
     (case qs k of
        Inl e \<Rightarrow> Inl e
      | Inr db \<Rightarrow>
          (case verified qs ch (Suc k) us of
             Inl e \<Rightarrow> Inl e
           | Inr rest \<Rightarrow> Inr (if IsChannelMember ch u db then u # rest else rest)))"

definition audience :: "(string \<Rightarrow> 'k::linorder) \<Rightarrow> (nat \<Rightarrow> store_error + db) \<Rightarrow> event \<Rightarrow> store_error + uuid list" where
  "audience collate qs ev =
     (case ev_toUsers ev of
        None \<Rightarrow> channelMembers collate qs (ev_channelID ev)
      | Some us \<Rightarrow> if \<not> ev_verifyMembers ev then Inr us else verified qs (ev_channelID ev) 0 us)"

definition dmPeer :: "Channel \<Rightarrow> uuid \<Rightarrow> uuid" where
  "dmPeer ch uid =
     (if ch_Kind ch \<noteq> ChannelKindDM then 0
      else case (ch_DMUserA ch, ch_DMUserB ch) of
             (Some a, Some b) \<Rightarrow> if uid = a then b else if uid = b then a else 0
           | _ \<Rightarrow> 0)"

fun dm_pages :: "(nat \<Rightarrow> store_error + db) \<Rightarrow> uuid \<Rightarrow> nat \<Rightarrow> nat \<Rightarrow> (instant \<times> uuid) option \<Rightarrow> store_error + Channel list" where
  "dm_pages qs uid 0 k cursor = Inr []"
| "dm_pages qs uid (Suc n) k cursor =
     (case qs k of
        Inl e \<Rightarrow> Inl e
      | Inr db \<Rightarrow>
          (let page = ListChannelsForUser uid cursor channelPage db;
               dms = filter (\<lambda>ch. ch_Kind ch = ChannelKindDM) page
           in if length page < channelPage then Inr dms
              else (case dm_pages qs uid n (Suc k) (Some (ChannelCursor (last page))) of
                      Inl e \<Rightarrow> Inl e | Inr rest \<Rightarrow> Inr (dms @ rest))))"

definition dmChannelsFor :: "(nat \<Rightarrow> store_error + db) \<Rightarrow> uuid \<Rightarrow> store_error + Channel list" where
  "dmChannelsFor qs uid = dm_pages qs uid maxAudiencePages 0 None"

definition connected :: "gateway \<Rightarrow> uuid list" where
  "connected g = remdups (map (\<lambda>(i, s). so_user s) (filter (\<lambda>(i, s). so_reg s) (gw_live g)))"

definition presence_event :: "uuid \<Rightarrow> string \<Rightarrow> uuid \<Rightarrow> event" where
  "presence_event a st c = zero_event\<lparr>ev_typ := ''presence'', ev_channelID := c, ev_payload := PresenceData a st\<rparr>"

definition deliverPresence :: "(outFrame \<Rightarrow> bool) \<Rightarrow> (nat \<Rightarrow> store_error + db) \<Rightarrow> instant \<Rightarrow> event \<Rightarrow> gateway \<Rightarrow> gateway" where
  "deliverPresence encodes qs now ev g =
     (if connected g = [] \<or> connected g = [ev_subject ev] then g
      else case dmChannelsFor qs (ev_subject ev) of
             Inl e \<Rightarrow> g
           | Inr chs \<Rightarrow>
               fold (\<lambda>ch g. let peer = dmPeer ch (ev_subject ev) in
                  if peer = 0 then g
                  else publish encodes now (presence_event (ev_subject ev) (ev_state ev) (ch_ID ch)) [peer] g) chs g)"

definition dropSubscriptions :: "uuid \<Rightarrow> uuid \<Rightarrow> gateway \<Rightarrow> gateway" where
  "dropSubscriptions uid ch g = g\<lparr>gw_live := on_socket (\<lambda>s. so_reg s \<and> so_user s = uid) (unsubscribe ch) (gw_live g)\<rparr>"

text \<open>
  Who gets an event is settled before the lock is taken: nobody when nobody is connected, nobody when the
  audience of an ordered event cannot be read (it still takes its number), and an unordered event is
  given up then.
\<close>

definition recipients_for :: "(string \<Rightarrow> 'k::linorder) \<Rightarrow> (nat \<Rightarrow> store_error + db) \<Rightarrow> event \<Rightarrow> gateway \<Rightarrow> uuid list option" where
  "recipients_for collate qs ev g =
     (if connected g = [] then Some []
      else case audience collate qs ev of
             Inl e \<Rightarrow> if e = canceled \<or> \<not> ev_ordered ev then None else Some []
           | Inr recipients \<Rightarrow> Some recipients)"

definition before_delivery :: "event \<Rightarrow> gateway \<Rightarrow> gateway" where
  "before_delivery ev g = (if ev_dropSubsUser ev \<noteq> 0 then dropSubscriptions (ev_dropSubsUser ev) (ev_channelID ev) g else g)"

definition deliver ::
  "(outFrame \<Rightarrow> bool) \<Rightarrow> (string \<Rightarrow> 'k::linorder) \<Rightarrow> (nat \<Rightarrow> store_error + db) \<Rightarrow> instant \<Rightarrow> event \<Rightarrow> gateway \<Rightarrow> gateway" where
  "deliver encodes collate qs now ev g0 =
     (let g = before_delivery ev g0
      in if ev_dmFanout ev then deliverPresence encodes qs now ev g
         else case recipients_for collate qs ev g of
                None \<Rightarrow> g
              | Some recipients \<Rightarrow> publish encodes now ev recipients g)"

definition dispatch ::
  "(outFrame \<Rightarrow> bool) \<Rightarrow> (string \<Rightarrow> 'k::linorder) \<Rightarrow> (nat \<Rightarrow> store_error + db) \<Rightarrow> instant \<Rightarrow> gateway \<Rightarrow> gateway" where
  "dispatch encodes collate qs now g =
     (case gw_events g of [] \<Rightarrow> g | ev # evs \<Rightarrow> deliver encodes collate qs now ev (g\<lparr>gw_events := evs\<rparr>))"

section \<open>Joining and leaving\<close>

text \<open>
  \<open>track\<close> admits a socket unless the gateway is closing. Its frame budget is \<open>ratelimit.New\<close> with 120
  frames in a minute, in nanoseconds.
\<close>

definition frameRateLimit :: int where "frameRateLimit = 120"
definition frameRateWindow :: duration where "frameRateWindow = 60 * 10 ^ 9"

definition track :: "nat \<Rightarrow> uuid \<Rightarrow> bool \<Rightarrow> uuid \<Rightarrow> instant \<Rightarrow> gateway \<Rightarrow> gateway" where
  "track sid uid admin family now g =
     (if gw_closing g then g
      else case New frameRateLimit frameRateWindow now of
             None \<Rightarrow> g
           | Some budget \<Rightarrow> g\<lparr>gw_live := gw_live g @ [(sid, \<lparr>so_user = uid, so_admin = admin, so_family = family, so_out = [],
               so_wire = [], so_subs = [], so_resync = [], so_close = None, so_reg = False, so_frames = budget\<rparr>)]\<rparr>)"

definition resumable :: "gateway \<Rightarrow> uuid \<times> 64 word \<Rightarrow> bool" where
  "resumable g req = (case gw_channels g (fst req) of None \<Rightarrow> False | Some b \<Rightarrow> canResume (snd req) b)"

definition replay_of :: "gateway \<Rightarrow> uuid \<times> 64 word \<Rightarrow> outFrame list" where
  "replay_of g req = (case gw_channels g (fst req) of None \<Rightarrow> [] | Some b \<Rightarrow> buffer_after (snd req) b)"

definition deliver_all :: "uuid \<Rightarrow> outFrame list \<Rightarrow> socket \<Rightarrow> socket" where
  "deliver_all ch frames s = fold (socket_deliver ch) frames s"

definition hello_ok :: "uuid \<Rightarrow> uuid \<Rightarrow> string \<Rightarrow> instant \<Rightarrow> (uuid \<times> 64 word) list \<Rightarrow> uuid list \<Rightarrow> outFrame" where
  "hello_ok uid family corr now resumed resync =
     \<lparr>of_Type = ''hello_ok'', of_ID = corr, of_Chan = None, of_Seq = None, of_TS = now,
      of_Data = HelloOKData uid family resumed resync\<rparr>"

text \<open>
  Under one hold of the lock: which candidates the buffers can satisfy, \<open>hello_ok\<close>, the replay it
  promises, and the registration.
\<close>

definition registerAndReplay ::
  "(outFrame \<Rightarrow> bool) \<Rightarrow> instant \<Rightarrow> string \<Rightarrow> nat \<Rightarrow> socket \<Rightarrow> (uuid \<times> 64 word) list \<Rightarrow> uuid list \<Rightarrow> gateway \<Rightarrow> bool \<times> gateway" where
  "registerAndReplay encodes now corr sid s candidates extraResync g =
     (let resumed = filter (resumable g) candidates;
          resync = extraResync @ map fst (filter (\<lambda>r. \<not> resumable g r) candidates);
          s1 = queue (encodeOrLog encodes (hello_ok (so_user s) (so_family s) corr now resumed resync)) s;
          s2 = fold (\<lambda>req. deliver_all (fst req) (replay_of g req)) resumed s1;
          wasOffline = (socketsFor (so_user s) g = []);
          presence = (if wasOffline then AList.update (so_user s) \<lparr>ps_state = ''online'', ps_goneAt = None\<rparr> (gw_presence g)
                      else AList.map_entry (so_user s) (\<lambda>p. p\<lparr>ps_goneAt := None\<rparr>) (gw_presence g))
      in (wasOffline, g\<lparr>gw_live := at_socket sid (\<lambda>_. s2\<lparr>so_reg := True\<rparr>) (gw_live g), gw_presence := presence\<rparr>))"

text \<open>The end of \<open>run\<close>: \<open>deregister\<close>, then \<open>untrack\<close>.\<close>

definition deregister :: "instant \<Rightarrow> nat \<Rightarrow> gateway \<Rightarrow> gateway" where
  "deregister now sid g =
     (case map_of (gw_live g) sid of
        None \<Rightarrow> g
      | Some s \<Rightarrow>
          if socketsFor (so_user s) g = [] then g
          else
            (let g1 = g\<lparr>gw_live := at_socket sid (\<lambda>s. s\<lparr>so_reg := False\<rparr>) (gw_live g)\<rparr>
             in if socketsFor (so_user s) g1 \<noteq> [] then g1
                else g1\<lparr>gw_presence := AList.map_entry (so_user s) (\<lambda>p. p\<lparr>ps_goneAt := Some now\<rparr>) (gw_presence g1)\<rparr>))"

definition untrack :: "nat \<Rightarrow> gateway \<Rightarrow> gateway" where
  "untrack sid g = g\<lparr>gw_live := filter (\<lambda>(i, s). i \<noteq> sid) (gw_live g)\<rparr>"

definition Close :: "gateway \<Rightarrow> gateway" where
  "Close g = g\<lparr>gw_closing := True, gw_live := on_socket (\<lambda>_. True) (shutdown 1001 ''server shutting down'') (gw_live g)\<rparr>"

section \<open>The sweep\<close>

text \<open>
  \<open>closeRevoked\<close> judges the sockets of its snapshot against the families read afterwards, user by user:
  \<open>fams\<close> is what \<open>ListSessionFamilies\<close> answered, or nothing when the query failed.
\<close>

definition closeRevoked :: "(uuid \<Rightarrow> uuid list option) \<Rightarrow> gateway \<Rightarrow> gateway" where
  "closeRevoked fams g =
     g\<lparr>gw_live := on_socket (\<lambda>s. so_reg s \<and> (case fams (so_user s) of None \<Rightarrow> False | Some live \<Rightarrow> so_family s \<notin> set live))
         (shutdown 4401 ''session revoked'') (gw_live g)\<rparr>"

definition expired :: "instant \<Rightarrow> duration \<Rightarrow> presenceState \<Rightarrow> bool" where
  "expired now grace p = (case ps_goneAt p of None \<Rightarrow> False | Some t \<Rightarrow> \<not> now - t < grace)"

definition expirePresence :: "instant \<Rightarrow> duration \<Rightarrow> gateway \<Rightarrow> gateway" where
  "expirePresence now grace g =
     (let gone = map fst (filter (\<lambda>(u, p). expired now grace p) (gw_presence g))
      in fold (\<lambda>u. announcePresence u ''offline'') gone
           (g\<lparr>gw_presence := filter (\<lambda>(u, p). \<not> expired now grace p) (gw_presence g)\<rparr>))"

definition pruneReplay :: "instant \<Rightarrow> gateway \<Rightarrow> gateway" where
  "pruneReplay now g = g\<lparr>gw_channels := (\<lambda>ch. map_option (prune (now - replayMaxAge)) (gw_channels g ch))\<rparr>"

definition reportPresence :: "uuid \<Rightarrow> string \<Rightarrow> gateway \<Rightarrow> gateway" where
  "reportPresence uid state g =
     (let p = map_of (gw_presence g) uid;
          changed = (case p of None \<Rightarrow> True | Some q \<Rightarrow> ps_state q \<noteq> state);
          g1 = g\<lparr>gw_presence := (case p of None \<Rightarrow> AList.update uid \<lparr>ps_state = state, ps_goneAt = None\<rparr> (gw_presence g)
                                   | Some q \<Rightarrow> AList.map_entry uid (\<lambda>q. q\<lparr>ps_state := state\<rparr>) (gw_presence g))\<rparr>
      in if changed then announcePresence uid state g1 else g1)"

section \<open>Client frames\<close>

record inFrame =
  if_Type :: string
  if_ID :: string
  if_Chan :: "uuid option"
  if_TS :: "instant option"
  if_Data :: bytes

definition channelScoped :: "string \<Rightarrow> bool" where
  "channelScoped t \<longleftrightarrow> t = ''subscribe'' \<or> t = ''unsubscribe'' \<or> t = ''typing''"

definition maxCorrelationID :: nat where "maxCorrelationID = 64"

fun trimJSONSpace :: "bytes \<Rightarrow> bytes" where
  "trimJSONSpace [] = []"
| "trimJSONSpace (c # r) = (if c \<in> set [CHR '' '', CHR 0x09, CHR 0x0D, CHR 0x0A] then trimJSONSpace r else c # r)"

definition isJSONObject :: "bytes \<Rightarrow> bool" where
  "isJSONObject raw = (case trimJSONSpace raw of [] \<Rightarrow> False | c # _ \<Rightarrow> c = CHR ''{'')"

text \<open>\<open>unmarshal\<close> is \<open>json.Unmarshal\<close> into an \<open>inFrame\<close>; \<open>None\<close> is a malformed frame, which closes the socket.\<close>

definition parseFrame :: "(bytes \<Rightarrow> inFrame option) \<Rightarrow> bytes \<Rightarrow> inFrame option" where
  "parseFrame unmarshal raw =
     (case unmarshal raw of
        None \<Rightarrow> None
      | Some f \<Rightarrow>
          if if_Type f = [] \<or> if_TS f = None \<or> maxCorrelationID < length (if_ID f) \<or> \<not> isJSONObject (if_Data f)
            \<or> channelScoped (if_Type f) \<and> if_Chan f = None then None
          else Some f)"

text \<open>\<open>canRead\<close>: two queries, then the authorization rules.\<close>

definition canRead :: "(nat \<Rightarrow> store_error + db) \<Rightarrow> nat \<Rightarrow> uuid \<Rightarrow> bool \<Rightarrow> uuid \<Rightarrow> store_error + bool" where
  "canRead qs k uid admin ch =
     (case qs k of
        Inl e \<Rightarrow> Inl e
      | Inr db \<Rightarrow>
          (case ChannelForUser ch uid db of
             Inl e \<Rightarrow> if e = ErrChannelNotFound then Inr False else Inl e
           | Inr c \<Rightarrow>
               (case qs (Suc k) of
                  Inl e \<Rightarrow> Inl e
                | Inr db2 \<Rightarrow>
                    Inr (Can (Some \<lparr>au_id = uid, IsAdmin = admin\<rparr>) ChannelRead
                      (ChannelRes (NewChannel \<lparr>ch_id = ch_ID c, ch_created_by = ch_CreatedBy c\<rparr> uid (IsChannelMember ch uid db2)))))))"

text \<open>\<open>resolveResume\<close>: duplicates are skipped, and only the first 64 channels are looked at.\<close>

fun resolve_loop ::
  "(nat \<Rightarrow> store_error + db) \<Rightarrow> uuid \<Rightarrow> bool \<Rightarrow> nat \<Rightarrow> uuid list \<Rightarrow> (uuid \<times> 64 word) list \<Rightarrow> (uuid \<times> 64 word) list \<times> uuid list" where
  "resolve_loop qs uid admin k seen [] = ([], [])"
| "resolve_loop qs uid admin k seen ((ch, seq) # reqs) =
     (if ch \<in> set seen then resolve_loop qs uid admin k seen reqs
      else
        (let (cs, rs) = resolve_loop qs uid admin (k + 2) (ch # seen) reqs
         in if maxResumeChannels < Suc (length seen) then (cs, ch # rs)
            else case canRead qs k uid admin ch of
                   Inr True \<Rightarrow> ((ch, seq) # cs, rs)
                 | _ \<Rightarrow> (cs, ch # rs)))"

definition resolveResume :: "(nat \<Rightarrow> store_error + db) \<Rightarrow> uuid \<Rightarrow> bool \<Rightarrow> (uuid \<times> 64 word) list \<Rightarrow> (uuid \<times> 64 word) list \<times> uuid list" where
  "resolveResume qs uid admin reqs = resolve_loop qs uid admin 0 [] reqs"

definition protocolVersion :: int where "protocolVersion = 1"

text \<open>\<open>handleHello\<close>: \<open>hello\<close> decodes the payload into the version and the resume list.\<close>

definition handleHello ::
  "(outFrame \<Rightarrow> bool) \<Rightarrow> (bytes \<Rightarrow> (int \<times> (uuid \<times> 64 word) list) option) \<Rightarrow> (nat \<Rightarrow> store_error + db) \<Rightarrow> instant \<Rightarrow> nat \<Rightarrow> socket \<Rightarrow>
   inFrame \<Rightarrow> gateway \<Rightarrow> gateway" where
  "handleHello encodes hello qs now sid s f g =
     (case hello (if_Data f) of
        None \<Rightarrow> g\<lparr>gw_live := at_socket sid (shutdown 4400 ''malformed hello'') (gw_live g)\<rparr>
      | Some (version, reqs) \<Rightarrow>
          if version \<noteq> protocolVersion
          then g\<lparr>gw_live := at_socket sid (shutdown 4400 ''unsupported_protocol_version'') (gw_live g)\<rparr>
          else
            (let (candidates, refused) = resolveResume qs (so_user s) (so_admin s) reqs;
                 (wasOffline, g1) = registerAndReplay encodes now (if_ID f) sid s candidates refused g
             in if wasOffline then announcePresence (so_user s) ''online'' g1 else g1))"

definition sendError :: "(outFrame \<Rightarrow> bool) \<Rightarrow> instant \<Rightarrow> inFrame \<Rightarrow> string \<Rightarrow> string \<Rightarrow> socket \<Rightarrow> socket" where
  "sendError encodes now f code msg =
     queue (encodeOrLog encodes \<lparr>of_Type = ''error'', of_ID = if_ID f, of_Chan = if_Chan f, of_Seq = None, of_TS = now,
       of_Data = ErrorData code msg\<rparr>)"

definition reply :: "(outFrame \<Rightarrow> bool) \<Rightarrow> instant \<Rightarrow> inFrame \<Rightarrow> string \<Rightarrow> uuid option \<Rightarrow> socket \<Rightarrow> socket" where
  "reply encodes now f typ ch =
     queue (encodeOrLog encodes \<lparr>of_Type = typ, of_ID = if_ID f, of_Chan = ch, of_Seq = None, of_TS = now, of_Data = EmptyData\<rparr>)"

text \<open>
  \<open>rateLimited\<close> and \<open>requireMember\<close>: whether the frame may go on, and the socket with the answer it was
  sent otherwise. A channel-scoped frame has its channel (\<open>parseFrame\<close>).
\<close>

definition rateLimited :: "(outFrame \<Rightarrow> bool) \<Rightarrow> instant \<Rightarrow> inFrame \<Rightarrow> socket \<Rightarrow> bool \<times> socket" where
  "rateLimited encodes now f s =
     (let (lim, b) = Limited now (if_Type f) (so_frames s)
      in if lim then (True, sendError encodes now f ''rate_limited'' ''too many frames, slow down'' (s\<lparr>so_frames := b\<rparr>))
         else (False, s\<lparr>so_frames := Ratelimit.Record now (if_Type f) b\<rparr>))"

definition requireMember ::
  "(outFrame \<Rightarrow> bool) \<Rightarrow> (nat \<Rightarrow> store_error + db) \<Rightarrow> instant \<Rightarrow> inFrame \<Rightarrow> uuid \<Rightarrow> socket \<Rightarrow> bool \<times> socket" where
  "requireMember encodes qs now f ch s =
     (case canRead qs 0 (so_user s) (so_admin s) ch of
        Inl e \<Rightarrow> (False, sendError encodes now f ''internal_error'' ''could not check channel membership'' s)
      | Inr allowed \<Rightarrow>
          if \<not> allowed then (False, sendError encodes now f ''channel_not_found'' ''no such channel'' s) else (True, s))"

definition handleSubscribe ::
  "(outFrame \<Rightarrow> bool) \<Rightarrow> (nat \<Rightarrow> store_error + db) \<Rightarrow> instant \<Rightarrow> inFrame \<Rightarrow> uuid \<Rightarrow> socket \<Rightarrow> socket" where
  "handleSubscribe encodes qs now f ch s0 =
     (let (lim, s) = rateLimited encodes now f s0
      in if lim then s
         else (let (ok, s1) = requireMember encodes qs now f ch s
               in if \<not> ok then s1
                  else reply encodes now f ''subscribed'' (Some ch) (s1\<lparr>so_subs := List.insert ch (so_subs s1)\<rparr>)))"

definition handleUnsubscribe ::
  "(outFrame \<Rightarrow> bool) \<Rightarrow> (nat \<Rightarrow> store_error + db) \<Rightarrow> instant \<Rightarrow> inFrame \<Rightarrow> uuid \<Rightarrow> socket \<Rightarrow> socket" where
  "handleUnsubscribe encodes qs now f ch s =
     (let (ok, s1) = requireMember encodes qs now f ch s
      in if \<not> ok then s1 else reply encodes now f ''unsubscribed'' (Some ch) (unsubscribe ch s1))"

definition typing_event :: "uuid \<Rightarrow> uuid \<Rightarrow> event" where
  "typing_event uid ch = zero_event\<lparr>ev_typ := ''typing'', ev_channelID := ch, ev_subscribed := True, ev_excludeUser := uid,
     ev_payload := TypingData uid\<rparr>"

definition handleTyping ::
  "(outFrame \<Rightarrow> bool) \<Rightarrow> (nat \<Rightarrow> store_error + db) \<Rightarrow> instant \<Rightarrow> inFrame \<Rightarrow> uuid \<Rightarrow> socket \<Rightarrow> socket \<times> event option" where
  "handleTyping encodes qs now f ch s0 =
     (let (lim, s) = rateLimited encodes now f s0
      in if lim then (s, None)
         else (let (ok, s1) = requireMember encodes qs now f ch s
               in (s1, if ok then Some (typing_event (so_user s1) ch) else None)))"

text \<open>\<open>handleFrame\<close> after the handshake; \<open>stateOf\<close> decodes a presence payload. Unknown types are ignored.\<close>

definition handleFrame ::
  "(outFrame \<Rightarrow> bool) \<Rightarrow> (bytes \<Rightarrow> string option) \<Rightarrow> (nat \<Rightarrow> store_error + db) \<Rightarrow> instant \<Rightarrow> nat \<Rightarrow> socket \<Rightarrow> inFrame \<Rightarrow> gateway \<Rightarrow> gateway" where
  "handleFrame encodes stateOf qs now sid s f g =
     (let put = (\<lambda>s1. g\<lparr>gw_live := at_socket sid (\<lambda>_. s1) (gw_live g)\<rparr>)
      in case if_Chan f of
           Some ch \<Rightarrow>
             if if_Type f = ''subscribe'' then put (handleSubscribe encodes qs now f ch s)
             else if if_Type f = ''unsubscribe'' then put (handleUnsubscribe encodes qs now f ch s)
             else if if_Type f = ''typing'' then
               (let (s1, ev) = handleTyping encodes qs now f ch s
                in case ev of None \<Rightarrow> put s1 | Some e \<Rightarrow> enqueue e (put s1))
             else if if_Type f = ''presence'' then
               (case stateOf (if_Data f) of
                  None \<Rightarrow> g
                | Some st \<Rightarrow> if st = ''online'' \<or> st = ''away'' then reportPresence (so_user s) st g else g)
             else if if_Type f = ''ping'' then put (reply encodes now f ''pong'' None s)
             else g
         | None \<Rightarrow>
             if if_Type f = ''presence'' then
               (case stateOf (if_Data f) of
                  None \<Rightarrow> g
                | Some st \<Rightarrow> if st = ''online'' \<or> st = ''away'' then reportPresence (so_user s) st g else g)
             else if if_Type f = ''ping'' then put (reply encodes now f ''pong'' None s)
             else g)"

text \<open>
  One turn of \<open>readLoop\<close>. A malformed frame, a first frame that is not \<open>hello\<close> and a second \<open>hello\<close> close
  the socket; the registered sockets are the greeted ones.
\<close>

definition read_turn ::
  "(outFrame \<Rightarrow> bool) \<Rightarrow> (bytes \<Rightarrow> inFrame option) \<Rightarrow> (bytes \<Rightarrow> (int \<times> (uuid \<times> 64 word) list) option) \<Rightarrow> (bytes \<Rightarrow> string option) \<Rightarrow>
   (nat \<Rightarrow> store_error + db) \<Rightarrow> instant \<Rightarrow> nat \<Rightarrow> bytes \<Rightarrow> gateway \<Rightarrow> gateway" where
  "read_turn encodes unmarshal hello stateOf qs now sid raw g =
     (case map_of (gw_live g) sid of
        None \<Rightarrow> g
      | Some s \<Rightarrow>
          (case parseFrame unmarshal raw of
             None \<Rightarrow> g\<lparr>gw_live := at_socket sid (shutdown 4400 ''malformed frame'') (gw_live g)\<rparr>
           | Some f \<Rightarrow>
               if \<not> so_reg s then
                 (if if_Type f \<noteq> ''hello''
                  then g\<lparr>gw_live := at_socket sid (shutdown 4400 ''first frame must be hello'') (gw_live g)\<rparr>
                  else handleHello encodes hello qs now sid s f g)
               else if if_Type f = ''hello''
               then g\<lparr>gw_live := at_socket sid (shutdown 4400 ''hello already negotiated'') (gw_live g)\<rparr>
               else handleFrame encodes stateOf qs now sid s f g))"

end
