(* ===== verification/Gateway_Safety.thy ===== *)
theory Gateway_Safety
  imports Gateway
begin

text \<open>
  What the gateway promises its clients: an event reaches only the people entitled to it, a resumed
  client gets every event of its channel in order or is told to backfill, and a revoked session is closed.
  The dispatcher settles the recipients of an event before it takes the lock under which it is numbered
  and sent, so \<open>gateway_step\<close> has these as two steps with anything between them.
\<close>

section \<open>Sockets under maps\<close>

lemma map_of_on_socket:
  "map_of (on_socket P f ss) sid = map_option (\<lambda>s. if P s then f s else s) (map_of ss sid)"
  by (induction ss) (auto simp: on_socket_def)

lemma map_of_at_socket:
  "map_of (at_socket i f ss) sid = map_option (\<lambda>s. if sid = i then f s else s) (map_of ss sid)"
  by (induction ss) (auto simp: at_socket_def)

lemma map_of_drop_socket: "map_of (filter (\<lambda>(j, s). j \<noteq> i) ss) sid = (if sid = i then None else map_of ss sid)"
  by (induction ss) auto

lemmas socket_maps = map_of_on_socket map_of_at_socket map_of_drop_socket

text \<open>What one frame sent to a list of recipients does to one socket.\<close>

definition listens :: "event \<Rightarrow> socket \<Rightarrow> bool" where
  "listens ev s \<longleftrightarrow> so_reg s \<and> \<not> (so_user s = ev_excludeUser ev \<and> ev_excludeUser ev \<noteq> 0) \<and>
     (ev_subscribed ev \<longrightarrow> subscribed (ev_channelID ev) s)"

definition hear :: "event \<Rightarrow> outFrame \<Rightarrow> uuid list \<Rightarrow> socket \<Rightarrow> socket" where
  "hear ev f us s = (if listens ev s then (socket_deliver (ev_channelID ev) f ^^ count_list us (so_user s)) s else s)"

lemma socket_deliver_frame [simp]:
  "so_user (socket_deliver c f s) = so_user s" "so_reg (socket_deliver c f s) = so_reg s"
  "so_subs (socket_deliver c f s) = so_subs s" "so_wire (socket_deliver c f s) = so_wire s"
  "listens ev (socket_deliver c f s) = listens ev s"
  by (simp_all add: socket_deliver_def listens_def subscribed_def)

lemma socket_deliver_cases:
  "so_out (socket_deliver c f s) = so_out s @ [f] \<and> so_resync (socket_deliver c f s) = so_resync s \<or>
   so_out (socket_deliver c f s) = so_out s \<and> set (so_resync (socket_deliver c f s)) = insert c (set (so_resync s))"
  by (simp add: socket_deliver_def)

definition sent :: "uuid \<Rightarrow> outFrame \<Rightarrow> nat \<Rightarrow> socket \<Rightarrow> socket \<Rightarrow> bool" where
  "sent c f n s t \<longleftrightarrow> so_user t = so_user s \<and> so_reg t = so_reg s \<and> so_wire t = so_wire s \<and>
     (\<exists>k \<le> n. so_out t = so_out s @ replicate k f \<and>
        set (so_resync t) = (if k < n then insert c (set (so_resync s)) else set (so_resync s)))"

lemma sent_Suc: "sent c f n s t \<Longrightarrow> sent c f (Suc n) s (socket_deliver c f t)"
proof -
  assume sent: "sent c f n s t"
  then obtain k where k: "k \<le> n" "so_out t = so_out s @ replicate k f"
    "set (so_resync t) = (if k < n then insert c (set (so_resync s)) else set (so_resync s))"
    by (auto simp: sent_def)
  from socket_deliver_cases [of c f t] show ?thesis
  proof
    assume t: "so_out (socket_deliver c f t) = so_out t @ [f] \<and> so_resync (socket_deliver c f t) = so_resync t"
    have "so_out (socket_deliver c f t) = so_out s @ replicate (Suc k) f" using t k(2) by (simp add: replicate_append_same)
    then show ?thesis using t k sent unfolding sent_def by (auto intro!: exI [of _ "Suc k"])
  next
    assume "so_out (socket_deliver c f t) = so_out t \<and> set (so_resync (socket_deliver c f t)) = insert c (set (so_resync t))"
    then show ?thesis using k sent unfolding sent_def by (auto intro!: exI [of _ k])
  qed
qed

lemma sent_funpow: "sent c f n s ((socket_deliver c f ^^ n) s)"
proof (induction n)
  case 0
  show ?case by (simp add: sent_def)
next
  case (Suc n)
  then show ?case by (simp add: sent_Suc)
qed

lemma live_send_user:
  "gw_live (send_user ev f u g) = map (\<lambda>(i, s). (i, if listens ev s \<and> so_user s = u then socket_deliver (ev_channelID ev) f s else s)) (gw_live g)"
  by (auto simp: send_user_def on_socket_def listens_def intro!: map_idI [symmetric])

lemma hear_Cons:
  "hear ev f (u # us) s = hear ev f us (if listens ev s \<and> so_user s = u then socket_deliver (ev_channelID ev) f s else s)"
  by (simp add: hear_def funpow_Suc_right del: funpow.simps)

lemma live_sendLocked: "gw_live (sendLocked ev f us g) = map (\<lambda>(i, s). (i, hear ev f us s)) (gw_live g)"
proof (induction us arbitrary: g)
  case Nil
  show ?case by (auto simp: sendLocked_def hear_def intro!: map_idI [symmetric])
next
  case (Cons u us)
  have "gw_live (sendLocked ev f (u # us) g) = map (\<lambda>(i, s). (i, hear ev f us s)) (gw_live (send_user ev f u g))"
    using Cons by (simp add: sendLocked_def)
  then show ?case by (simp add: live_send_user hear_Cons case_prod_unfold)
qed

lemma sendLocked_frame [simp]:
  "gw_channels (sendLocked ev f us g) = gw_channels g" "gw_events (sendLocked ev f us g) = gw_events g"
  "gw_presence (sendLocked ev f us g) = gw_presence g"
proof -
  have "gw_channels (sendLocked ev f us g) = gw_channels g \<and> gw_events (sendLocked ev f us g) = gw_events g \<and>
    gw_presence (sendLocked ev f us g) = gw_presence g"
    unfolding sendLocked_def by (induction us arbitrary: g) (auto simp: send_user_def)
  then show "gw_channels (sendLocked ev f us g) = gw_channels g" "gw_events (sendLocked ev f us g) = gw_events g"
    "gw_presence (sendLocked ev f us g) = gw_presence g" by simp_all
qed

lemma map_of_map_sockets: "map_of (map (\<lambda>(i, s). (i, F s)) ss) sid = map_option F (map_of ss sid)"
  by (induction ss) auto

text \<open>\<open>publish\<close>: the frame, its number and its place in the buffer, and the sockets that hear it.\<close>

definition event_frame :: "instant \<Rightarrow> event \<Rightarrow> 64 word option \<Rightarrow> outFrame" where
  "event_frame now ev seq = \<lparr>of_Type = ev_typ ev, of_ID = [], of_Chan = (if ev_channelID ev \<noteq> 0 then Some (ev_channelID ev) else None),
     of_Seq = seq, of_TS = now, of_Data = ev_payload ev\<rparr>"

definition channel_buffer :: "gateway \<Rightarrow> uuid \<Rightarrow> outFrame replayBuffer" where
  "channel_buffer g c = (case gw_channels g c of None \<Rightarrow> emptyBuffer | Some b \<Rightarrow> b)"

lemma publish_unordered:
  assumes "\<not> ev_ordered ev"
  shows "publish encodes now ev us g =
    (if encodes (event_frame now ev None) then sendLocked ev (event_frame now ev None) us g else g)"
  using assms by (simp add: publish_def encodeOrLog_def event_frame_def)

lemma publish_ordered:
  assumes "ev_ordered ev" "\<forall>f. encodes f"
  shows "publish encodes now ev us g =
    (let f = event_frame now ev (Some (rb_lastSeq (channel_buffer g (ev_channelID ev)) + 1))
     in sendLocked ev f us (g\<lparr>gw_channels := (gw_channels g)(ev_channelID ev \<mapsto>
          buffer_step (channel_buffer g (ev_channelID ev)) (Publish f now))\<rparr>))"
  using assms by (simp add: publish_def encodeOrLog_def event_frame_def channel_buffer_def nextSeq_def Let_def)

lemma publish_live:
  "\<exists>f. of_Data f = ev_payload ev \<and> of_Type f = ev_typ ev \<and>
     (gw_live (publish encodes now ev us g) = gw_live g \<or>
      gw_live (publish encodes now ev us g) = map (\<lambda>(i, s). (i, hear ev f us s)) (gw_live g))"
proof (cases "ev_ordered ev")
  case True
  define f where "f = event_frame now ev (Some (rb_lastSeq (channel_buffer g (ev_channelID ev)) + 1))"
  have "gw_live (publish encodes now ev us g) = (if encodes f then map (\<lambda>(i, s). (i, hear ev f us s)) (gw_live g) else gw_live g)"
    using True
    by (simp add: publish_def encodeOrLog_def f_def event_frame_def channel_buffer_def nextSeq_def Let_def live_sendLocked)
  then show ?thesis by (intro exI [of _ f]) (simp add: f_def event_frame_def split: if_splits)
next
  case False
  then show ?thesis
    by (intro exI [of _ "event_frame now ev None"]) (simp add: publish_unordered live_sendLocked event_frame_def)
qed

lemma hear_sent: "sent (ev_channelID ev) f (if listens ev s then count_list us (so_user s) else 0) s (hear ev f us s)"
  using sent_funpow by (simp add: hear_def sent_def)

lemma hear_same: "so_user s \<notin> set us \<or> \<not> listens ev s \<Longrightarrow> hear ev f us s = s"
  by (auto simp: hear_def count_list_0_iff)

section \<open>Who is entitled to an event\<close>

text \<open>
  The store is read while other transactions run, so entitlement is what a database the delivery read
  says: membership of the event's channel, being named, or being the other half of a direct message of
  the person whose presence changed.
\<close>

definition member_seen :: "(nat \<Rightarrow> store_error + db) \<Rightarrow> uuid \<Rightarrow> uuid \<Rightarrow> bool" where
  "member_seen qs c u \<longleftrightarrow> (\<exists>k db. qs k = Inr db \<and> IsChannelMember c u db)"

definition dm_seen :: "(nat \<Rightarrow> store_error + db) \<Rightarrow> uuid \<Rightarrow> uuid \<Rightarrow> bool" where
  "dm_seen qs a b \<longleftrightarrow> (\<exists>k db. \<exists>c. qs k = Inr db \<and> c \<in> set (channels db) \<and> c_kind c = ChannelKindDM \<and>
     IsChannelMember (c_id c) a db \<and> {c_dm_a c, c_dm_b c} = {Some a, Some b})"

definition entitled :: "(nat \<Rightarrow> store_error + db) \<Rightarrow> event \<Rightarrow> uuid \<Rightarrow> bool" where
  "entitled qs ev u \<longleftrightarrow>
     (if ev_dmFanout ev then dm_seen qs (ev_subject ev) u
      else case ev_toUsers ev of
             None \<Rightarrow> member_seen qs (ev_channelID ev) u
           | Some us \<Rightarrow> u \<in> set us \<and> (ev_verifyMembers ev \<longrightarrow> member_seen qs (ev_channelID ev) u))"

lemma member_seenI: "qs k = Inr db \<Longrightarrow> IsChannelMember c u db \<Longrightarrow> member_seen qs c u"
  unfolding member_seen_def by (rule exI [of _ k], rule exI [of _ db]) simp

lemma member_page_seen: "qs k = Inr db \<Longrightarrow> u \<in> set (ListChannelMembers collate c cursor n db) \<Longrightarrow> member_seen qs c (u_id u)"
  by (rule member_seenI [of qs k db]) (auto simp: ListChannelMembers_def dest!: in_set_takeD)

lemma member_pages_seen: "member_pages collate qs c n k cursor = Inr us \<Longrightarrow> u \<in> set us \<Longrightarrow> member_seen qs c u"
proof (induction collate qs c n k cursor arbitrary: us rule: member_pages.induct)
  case (1 collate qs c k cursor)
  then show ?case by simp
next
  case (2 collate qs c n k cursor)
  then obtain db where db: "qs k = Inr db" by (auto split: sum.splits)
  define page where "page = ListChannelMembers collate c cursor memberPage db"
  show ?case
  proof (cases "length page < memberPage")
    case True
    then show ?thesis using 2(2,3) member_page_seen [of qs k db] by (auto simp: db page_def)
  next
    case False
    then obtain rest where rest: "member_pages collate qs c n (Suc k) (Some (u_username (last page), u_id (last page))) = Inr rest"
      "us = map u_id page @ rest" using 2(2) by (auto simp: db page_def Let_def split: sum.splits)
    then show ?thesis using 2(1) [OF db page_def False] 2(3) member_page_seen [of qs k db] by (auto simp: db page_def)
  qed
qed

lemma verified_seen: "verified qs c k us = Inr vs \<Longrightarrow> u \<in> set vs \<Longrightarrow> u \<in> set us \<and> member_seen qs c u"
proof (induction us arbitrary: k vs)
  case Nil
  then show ?case by simp
next
  case (Cons v us)
  then obtain db rest where db: "qs k = Inr db" and rest: "verified qs c (Suc k) us = Inr rest"
    and vs: "vs = (if IsChannelMember c v db then v # rest else rest)" by (auto split: sum.splits)
  then show ?case using Cons.IH [OF rest] Cons.prems(2) member_seenI [of qs k db] by (auto split: if_splits)
qed

lemma recipients_entitled:
  assumes "recipients_for collate qs ev g = Some us" "u \<in> set us" "\<not> ev_dmFanout ev"
  shows "entitled qs ev u"
proof -
  have "audience collate qs ev = Inr us" using assms(1,2)
    by (auto simp: recipients_for_def split: if_splits sum.splits)
  then show ?thesis using assms(2,3)
    by (auto simp: audience_def entitled_def channelMembers_def dest: member_pages_seen verified_seen split: option.splits if_splits)
qed

lemma dm_pages_seen:
  "dm_pages qs a n k cursor = Inr chs \<Longrightarrow> ch \<in> set chs \<Longrightarrow>
     \<exists>k db. \<exists>c. qs k = Inr db \<and> c \<in> set (channels db) \<and> IsChannelMember (c_id c) a db \<and> ch = scopedChannel a db c \<and>
       c_kind c = ChannelKindDM"
proof (induction n arbitrary: k cursor chs)
  case 0
  then show ?case by simp
next
  case (Suc n)
  then obtain db where db: "qs k = Inr db" by (auto split: sum.splits)
  define page where "page = ListChannelsForUser a cursor channelPage db"
  have here: "ch \<in> set page \<Longrightarrow> ch_Kind ch = ChannelKindDM \<Longrightarrow> ?case"
    by (rule exI [of _ k], rule exI [of _ db])
       (auto simp: db page_def ListChannelsForUser_def channel_rows_def scopedChannel_def unscopedChannel_def dest!: in_set_takeD)
  show ?case
  proof (cases "length page < channelPage")
    case True
    then show ?thesis using Suc.prems here by (auto simp: db page_def)
  next
    case False
    then obtain rest where "dm_pages qs a n (Suc k) (Some (ChannelCursor (last page))) = Inr rest"
      "chs = filter (\<lambda>ch. ch_Kind ch = ChannelKindDM) page @ rest"
      using Suc.prems by (auto simp: db page_def Let_def split: sum.splits)
    then show ?thesis using Suc.IH Suc.prems(2) here by auto
  qed
qed

lemma dmPeer_seen:
  assumes "dmChannelsFor qs a = Inr chs" "ch \<in> set chs" "dmPeer ch a \<noteq> 0"
  shows "dm_seen qs a (dmPeer ch a)"
proof -
  obtain k db c where c: "qs k = Inr db" "c \<in> set (channels db)" "IsChannelMember (c_id c) a db" "ch = scopedChannel a db c"
    "c_kind c = ChannelKindDM" using dm_pages_seen assms(1,2) unfolding dmChannelsFor_def by blast
  have "{c_dm_a c, c_dm_b c} = {Some a, Some (dmPeer ch a)}" using assms(3) c(4)
    by (auto simp: dmPeer_def scopedChannel_def unscopedChannel_def split: option.splits if_splits)
  then show ?thesis unfolding dm_seen_def using c by (intro exI [of _ k] exI [of _ db] exI [of _ c]) simp
qed

text \<open>
  \<open>grows\<close>: what one delivery may do to a socket. Its queue grows by frames with the event's payload.
\<close>

definition grows :: "payload \<Rightarrow> socket \<Rightarrow> socket \<Rightarrow> bool" where
  "grows p s t \<longleftrightarrow> so_user t = so_user s \<and> so_reg t = so_reg s \<and> so_wire t = so_wire s \<and>
     (\<exists>fs. so_out t = so_out s @ fs \<and> (\<forall>f \<in> set fs. of_Data f = p))"

lemma grows_refl [simp]: "grows p s s" by (simp add: grows_def)

lemma grows_trans: "grows p s t \<Longrightarrow> grows p t u \<Longrightarrow> grows p s u"
  unfolding grows_def by fastforce

lemma publish_grows:
  assumes "map_of (gw_live g) sid = Some s"
  shows "\<exists>t. map_of (gw_live (publish encodes now ev us g)) sid = Some t \<and> grows (ev_payload ev) s t \<and>
     (so_user s \<in> set us \<and> listens ev s \<or> t = s)"
proof -
  obtain f where f: "of_Data f = ev_payload ev"
    "gw_live (publish encodes now ev us g) = gw_live g \<or> gw_live (publish encodes now ev us g) = map (\<lambda>(i, s). (i, hear ev f us s)) (gw_live g)"
    using publish_live by blast
  have "sent (ev_channelID ev) f (if listens ev s then count_list us (so_user s) else 0) s (hear ev f us s)" by (rule hear_sent)
  then have "grows (ev_payload ev) s (hear ev f us s)" using f(1) by (auto simp: sent_def grows_def)
  moreover have "so_user s \<in> set us \<and> listens ev s \<or> hear ev f us s = s" using hear_same by blast
  ultimately show ?thesis using f(2) assms by (auto simp: map_of_map_sockets)
qed

lemma presence_grows:
  assumes "map_of (gw_live g) sid = Some s" "\<forall>ch \<in> set chs. dmPeer ch a \<noteq> 0 \<longrightarrow> dm_seen qs a (dmPeer ch a)"
  shows "\<exists>t. map_of (gw_live (fold (\<lambda>ch g. let peer = dmPeer ch a in if peer = 0 then g
             else publish encodes now (presence_event a st (ch_ID ch)) [peer] g) chs g)) sid = Some t \<and>
     grows (PresenceData a st) s t \<and> (so_reg s \<and> dm_seen qs a (so_user s) \<or> t = s)"
  using assms
proof (induction chs arbitrary: g s)
  case Nil
  then show ?case by simp
next
  case (Cons ch chs)
  show ?case
  proof (cases "dmPeer ch a = 0")
    case True
    then show ?thesis using Cons by simp
  next
    case False
    obtain t where t: "map_of (gw_live (publish encodes now (presence_event a st (ch_ID ch)) [dmPeer ch a] g)) sid = Some t"
      "grows (PresenceData a st) s t" "so_user s = dmPeer ch a \<and> listens (presence_event a st (ch_ID ch)) s \<or> t = s"
      using publish_grows [OF Cons.prems(1), of encodes now "presence_event a st (ch_ID ch)" "[dmPeer ch a]"]
      by (auto simp: presence_event_def)
    have "so_reg s \<and> dm_seen qs a (so_user s) \<or> t = s" using t(3) Cons.prems(2) False by (auto simp: listens_def)
    moreover obtain t2 where "map_of (gw_live (fold (\<lambda>ch g. let peer = dmPeer ch a in if peer = 0 then g
             else publish encodes now (presence_event a st (ch_ID ch)) [peer] g) chs
        (publish encodes now (presence_event a st (ch_ID ch)) [dmPeer ch a] g))) sid = Some t2"
      "grows (PresenceData a st) t t2" "so_reg t \<and> dm_seen qs a (so_user t) \<or> t2 = t" using Cons.IH [OF t(1)] Cons.prems(2) by auto
    ultimately show ?thesis using False t(2) grows_trans [of _ s t t2] by (auto simp: Let_def grows_def)
  qed
qed

lemma deliverPresence_grows:
  assumes "map_of (gw_live g) sid = Some s"
  shows "\<exists>t. map_of (gw_live (deliverPresence encodes qs now ev g)) sid = Some t \<and>
     grows (PresenceData (ev_subject ev) (ev_state ev)) s t \<and> (so_reg s \<and> dm_seen qs (ev_subject ev) (so_user s) \<or> t = s)"
proof (cases "connected g = [] \<or> connected g = [ev_subject ev]")
  case True
  then show ?thesis using assms by (auto simp: deliverPresence_def)
next
  case False
  show ?thesis
  proof (cases "dmChannelsFor qs (ev_subject ev)")
    case (Inl e)
    then show ?thesis using assms False by (simp add: deliverPresence_def)
  next
    case (Inr chs)
    then have "\<forall>ch \<in> set chs. dmPeer ch (ev_subject ev) \<noteq> 0 \<longrightarrow> dm_seen qs (ev_subject ev) (dmPeer ch (ev_subject ev))"
      using dmPeer_seen by blast
    from presence_grows [OF assms this, of encodes now "ev_state ev"] show ?thesis
      using Inr False by (simp add: deliverPresence_def)
  qed
qed

section \<open>Steps that leave the ordered events of a channel alone\<close>

text \<open>
  The stream of a channel at a socket: the numbered frames of the channel, written or queued, in order. A
  channel is owed a backfill when a resync is due or has been written.
\<close>

definition numbered_on :: "uuid \<Rightarrow> outFrame \<Rightarrow> bool" where
  "numbered_on c f \<longleftrightarrow> of_Chan f = Some c \<and> of_Seq f \<noteq> None"

definition stream :: "uuid \<Rightarrow> socket \<Rightarrow> outFrame list" where
  "stream c s = filter (numbered_on c) (so_wire s @ so_out s)"

definition told :: "uuid \<Rightarrow> socket \<Rightarrow> bool" where
  "told c s \<longleftrightarrow> c \<in> set (so_resync s) \<or> (\<exists>f \<in> set (so_wire s). of_Type f = ''resync'' \<and> of_Chan f = Some c)"

definition calm :: "uuid \<Rightarrow> socket \<Rightarrow> socket \<Rightarrow> bool" where
  "calm c s t \<longleftrightarrow> so_user t = so_user s \<and> so_reg t = so_reg s \<and> stream c t = stream c s \<and> (told c s \<longrightarrow> told c t)"

lemma calm_refl [simp]: "calm c s s" by (simp add: calm_def)

lemma calm_trans: "calm c s t \<Longrightarrow> calm c t u \<Longrightarrow> calm c s u" by (simp add: calm_def)

lemma calm_fields:
  "calm c s (s\<lparr>so_subs := x\<rparr>)" "calm c s (s\<lparr>so_frames := b\<rparr>)" "calm c s (s\<lparr>so_close := k\<rparr>)"
  by (simp_all add: calm_def stream_def told_def)

lemma calm_shutdown [simp]: "calm c s (shutdown code reason s)" by (simp add: shutdown_def calm_fields)

lemma calm_unsubscribe [simp]: "calm c s (unsubscribe ch s)" by (simp add: unsubscribe_def calm_fields)

lemma calm_queue: "of_Seq f = None \<Longrightarrow> calm c s (queue (encodeOrLog encodes f) s)"
  by (simp add: queue_def encodeOrLog_def calm_def stream_def told_def numbered_on_def)

lemma calm_sent:
  assumes "sent ch f n s t" "\<not> numbered_on c f"
  shows "calm c s t"
  using assms by (auto simp: sent_def calm_def stream_def told_def split: if_splits)

lemma calm_pump:
  assumes "\<forall>f. encodes f"
  shows "calm c s (pump encodes now s)"
proof -
  let ?r = "map (\<lambda>ch. \<lparr>of_Type = ''resync'', of_ID = [], of_Chan = Some ch, of_Seq = None, of_TS = now, of_Data = ChanData ch\<rparr>) (so_resync s)"
  have flush: "flushResync encodes now s = s\<lparr>so_wire := so_wire s @ ?r, so_resync := []\<rparr>"
    using assms by (simp add: flushResync_def encodeOrLog_def List.map_filter_def comp_def)
  have "filter (numbered_on c) ?r = []" by (simp add: numbered_on_def filter_empty_conv)
  then have calm: "calm c s (flushResync encodes now s)"
    by (auto simp: flush calm_def stream_def told_def bex_Un)
  show ?thesis
  proof (cases "so_out s")
    case Nil
    then show ?thesis using calm by (simp add: pump_def Let_def flush)
  next
    case (Cons f r)
    then have "calm c (flushResync encodes now s) (pump encodes now s)"
      by (auto simp: pump_def Let_def flush calm_def stream_def told_def)
    then show ?thesis using calm calm_trans by blast
  qed
qed

text \<open>The client's frames: replies carry no number, and nothing else of the socket's stream changes.\<close>

lemma calm_replies:
  "calm c s (sendError encodes now f code msg s)" "calm c s (Gateway.reply encodes now f typ ch s)"
  by (simp_all add: sendError_def Gateway.reply_def calm_queue)

lemma calm_rateLimited: "calm c s (snd (rateLimited encodes now f s))"
  using calm_trans [OF calm_fields(2) calm_replies(1)] by (auto simp: rateLimited_def calm_fields split: prod.splits)

lemma calm_requireMember: "calm c s (snd (requireMember encodes qs now f ch s))"
  by (auto simp: requireMember_def calm_replies split: sum.splits)

lemma calm_handleSubscribe: "calm c s (handleSubscribe encodes qs now f ch s)"
proof -
  obtain l s1 where l: "rateLimited encodes now f s = (l, s1)" by (cases "rateLimited encodes now f s")
  obtain ok s2 where m: "requireMember encodes qs now f ch s1 = (ok, s2)" by (cases "requireMember encodes qs now f ch s1")
  have 1: "calm c s s1" using calm_rateLimited [of c s encodes now f] by (simp add: l)
  have 2: "calm c s s2" using calm_trans [OF 1 calm_requireMember [of c s1 encodes qs now f ch]] by (simp add: m)
  have "calm c s (Gateway.reply encodes now f ''subscribed'' (Some ch) (s2\<lparr>so_subs := List.insert ch (so_subs s2)\<rparr>))"
    by (rule calm_trans [OF 2 calm_trans [OF calm_fields(1) calm_replies(2)]])
  then show ?thesis using 1 2 by (simp add: handleSubscribe_def l m)
qed

lemma calm_handleUnsubscribe: "calm c s (handleUnsubscribe encodes qs now f ch s)"
proof -
  obtain ok s1 where m: "requireMember encodes qs now f ch s = (ok, s1)" by (cases "requireMember encodes qs now f ch s")
  have 1: "calm c s s1" using calm_requireMember [of c s encodes qs now f ch] by (simp add: m)
  have "calm c s (Gateway.reply encodes now f ''unsubscribed'' (Some ch) (unsubscribe ch s1))"
    by (rule calm_trans [OF 1 calm_trans [OF calm_unsubscribe calm_replies(2)]])
  then show ?thesis using 1 by (simp add: handleUnsubscribe_def m)
qed

lemma calm_handleTyping: "calm c s (fst (handleTyping encodes qs now f ch s))"
proof -
  obtain l s1 where l: "rateLimited encodes now f s = (l, s1)" by (cases "rateLimited encodes now f s")
  have 1: "calm c s s1" using calm_rateLimited [of c s encodes now f] by (simp add: l)
  show ?thesis using 1 calm_trans [OF 1 calm_requireMember [of c s1 encodes qs now f ch]]
    by (simp add: handleTyping_def l case_prod_unfold Let_def)
qed

section \<open>Steps\<close>

text \<open>
  The events the HTTP handlers announce. Every row has an identifier other than \<open>uuid.Nil\<close>.
\<close>

inductive realtime :: "event \<Rightarrow> bool" where
  "ch \<noteq> 0 \<Longrightarrow> realtime (MessageCreated ch m)"
| "ch \<noteq> 0 \<Longrightarrow> realtime (MessageUpdated ch m)"
| "ch \<noteq> 0 \<Longrightarrow> realtime (MessageDeleted ch m)"
| "realtime (ChannelCreated us c)"
| "ch \<noteq> 0 \<Longrightarrow> realtime (ChannelUpdated ch c)"
| "ch \<noteq> 0 \<Longrightarrow> realtime (MemberAdded ch u)"
| "ch \<noteq> 0 \<Longrightarrow> realtime (MemberRemoved ch u)"
| "realtime (ChannelRemoved uid ch)"
| "realtime (ReadPosition uid ch msg at)"
| "realtime (CallStarted ch uid ps)"
| "realtime (CallUpdated ch ps)"
| "realtime (CallEnded ch)"
| "realtime (Gateway.MlsCommit ch epoch)"
| "realtime (Gateway.MlsWelcome uid)"

definition event_wf :: "event \<Rightarrow> bool" where
  "event_wf ev \<longleftrightarrow> (ev_ordered ev \<longrightarrow> \<not> ev_subscribed ev \<and> ev_excludeUser ev = 0 \<and> ev_toUsers ev = None \<and> \<not> ev_dmFanout ev)"

lemma realtime_wf: "realtime ev \<Longrightarrow> event_wf ev"
  by (induction rule: realtime.induct)
     (simp_all add: event_wf_def zero_event_def MessageCreated_def MessageUpdated_def MessageDeleted_def ChannelCreated_def
        ChannelUpdated_def MemberAdded_def MemberRemoved_def ChannelRemoved_def ReadPosition_def CallStarted_def CallUpdated_def
        CallEnded_def Gateway.MlsCommit_def Gateway.MlsWelcome_def)

text \<open>The codecs, and the collation of user names, which the gateway takes from its libraries and the store.\<close>

record 'k gateway_lib =
  gl_encodes :: "outFrame \<Rightarrow> bool"
  gl_collate :: "string \<Rightarrow> 'k"
  gl_unmarshal :: "bytes \<Rightarrow> inFrame option"
  gl_hello :: "bytes \<Rightarrow> (int \<times> (uuid \<times> 64 word) list) option"
  gl_stateOf :: "bytes \<Rightarrow> string option"

text \<open>The dispatcher's local state: the event it is delivering, with the recipients it settled on.\<close>

type_synonym flight = "(event \<times> uuid list) option"

inductive gateway_step :: "'k::linorder gateway_lib \<Rightarrow> flight \<times> gateway \<Rightarrow> flight \<times> gateway \<Rightarrow> bool" for lib where
  announce: "realtime ev \<Longrightarrow> gateway_step lib (fl, g) (fl, enqueue ev g)"
| take_event: "gw_events g = ev # evs \<Longrightarrow> \<not> ev_dmFanout ev \<Longrightarrow> g1 = before_delivery ev (g\<lparr>gw_events := evs\<rparr>) \<Longrightarrow>
     gateway_step lib (None, g) (map_option (Pair ev) (recipients_for (gl_collate lib) qs ev g1), g1)"
| send: "gateway_step lib (Some (ev, us), g) (None, publish (gl_encodes lib) now ev us g)"
| presence: "gw_events g = ev # evs \<Longrightarrow> ev_dmFanout ev \<Longrightarrow>
     gateway_step lib (None, g) (None, deliverPresence (gl_encodes lib) qs now ev (before_delivery ev (g\<lparr>gw_events := evs\<rparr>)))"
| join: "map_of (gw_live g) sid = None \<Longrightarrow> gateway_step lib (fl, g) (fl, track sid uid admin family now g)"
| read_frame: "gateway_step lib (fl, g) (fl, read_turn (gl_encodes lib) (gl_unmarshal lib) (gl_hello lib) (gl_stateOf lib) qs now sid raw g)"
| write_frame: "gateway_step lib (fl, g) (fl, g\<lparr>gw_live := at_socket sid (pump (gl_encodes lib) now) (gw_live g)\<rparr>)"
| leave: "gateway_step lib (fl, g) (fl, untrack sid (deregister now sid g))"
| revoke: "gateway_step lib (fl, g) (fl, closeRevoked fams g)"
| expire: "gateway_step lib (fl, g) (fl, expirePresence now grace g)"
| sweep: "gateway_step lib (fl, g) (fl, pruneReplay now g)"
| stop: "gateway_step lib (fl, g) (fl, Close g)"

text \<open>A run, with the number of its steps.\<close>

inductive gateway_run :: "'k::linorder gateway_lib \<Rightarrow> nat \<Rightarrow> flight \<times> gateway \<Rightarrow> flight \<times> gateway \<Rightarrow> bool" for lib where
  gateway_refl: "gateway_run lib 0 x x"
| gateway_more: "gateway_run lib n x y \<Longrightarrow> gateway_step lib y z \<Longrightarrow> gateway_run lib (Suc n) x z"

text \<open>
  Under a calm step every socket that is still there was there before, with the same stream of channel
  \<open>c\<close>, and the channel's buffer is the same.
\<close>

definition calmly :: "uuid \<Rightarrow> gateway \<Rightarrow> gateway \<Rightarrow> bool" where
  "calmly c g h \<longleftrightarrow> channel_buffer h c = channel_buffer g c \<and>
     (\<forall>sid t. map_of (gw_live h) sid = Some t \<longrightarrow> (\<exists>s. map_of (gw_live g) sid = Some s \<and> calm c s t))"

lemma calmly_same: "gw_live h = gw_live g \<Longrightarrow> gw_channels h = gw_channels g \<Longrightarrow> calmly c g h"
  by (simp add: calmly_def channel_buffer_def)

lemma calmly_trans: "calmly c g h \<Longrightarrow> calmly c h k \<Longrightarrow> calmly c g k"
  unfolding calmly_def using calm_trans by (metis (no_types, lifting))

lemma calmly_on: "\<forall>s. P s \<longrightarrow> calm c s (f s) \<Longrightarrow> calmly c g (g\<lparr>gw_live := on_socket P f (gw_live g)\<rparr>)"
  by (auto simp: calmly_def channel_buffer_def socket_maps)

lemma calmly_at:
  "\<forall>s. map_of (gw_live g) sid = Some s \<longrightarrow> calm c s (f s) \<Longrightarrow> calmly c g (g\<lparr>gw_live := at_socket sid f (gw_live g)\<rparr>)"
  by (auto simp: calmly_def channel_buffer_def socket_maps)

lemma enqueue_frame [simp]: "gw_live (enqueue ev g) = gw_live g" "gw_channels (enqueue ev g) = gw_channels g"
  by (simp_all add: enqueue_def)

lemma calmly_enqueue: "calmly c g (enqueue ev h) = calmly c g h"
  by (simp add: calmly_def channel_buffer_def)

lemma calmly_before: "calmly c g (before_delivery ev g)"
  by (simp add: before_delivery_def dropSubscriptions_def calmly_on calmly_same)

lemma calmly_hear:
  assumes "gw_live h = map (\<lambda>(i, s). (i, hear ev f us s)) (gw_live g)" "\<not> numbered_on c f" "channel_buffer h c = channel_buffer g c"
  shows "calmly c g h"
  using assms calm_sent [OF hear_sent] by (auto simp: calmly_def map_of_map_sockets)

lemma calmly_publish:
  assumes "\<forall>f. encodes f" "\<not> (ev_ordered ev \<and> ev_channelID ev = c)" "c \<noteq> 0"
  shows "calmly c g (publish encodes now ev us g)"
proof (cases "ev_ordered ev")
  case True
  define f where "f = event_frame now ev (Some (rb_lastSeq (channel_buffer g (ev_channelID ev)) + 1))"
  have "publish encodes now ev us g = sendLocked ev f us (g\<lparr>gw_channels := (gw_channels g)(ev_channelID ev \<mapsto>
      buffer_step (channel_buffer g (ev_channelID ev)) (Publish f now))\<rparr>)"
    using True assms(1) by (simp add: publish_ordered Let_def f_def)
  moreover have "\<not> numbered_on c f" using True assms(2) by (simp add: f_def numbered_on_def event_frame_def)
  ultimately show ?thesis using True assms(2)
    by (intro calmly_hear [of _ ev f us]) (simp_all add: live_sendLocked channel_buffer_def)
next
  case False
  then show ?thesis using assms(1)
    by (intro calmly_hear [of _ ev "event_frame now ev None" us])
       (auto simp: publish_unordered live_sendLocked numbered_on_def event_frame_def channel_buffer_def)
qed

lemma calmly_deliverPresence:
  assumes "\<forall>f. encodes f" "c \<noteq> 0"
  shows "calmly c g (deliverPresence encodes qs now ev g)"
proof -
  have "calmly c g (fold (\<lambda>ch g. let peer = dmPeer ch a in if peer = 0 then g
             else publish encodes now (presence_event a st (ch_ID ch)) [peer] g) chs g)" for a st chs
  proof (induction chs arbitrary: g)
    case Nil
    then show ?case by (simp add: calmly_same)
  next
    case (Cons ch chs)
    have "calmly c g (publish encodes now (presence_event a st (ch_ID ch)) [dmPeer ch a] g)"
      by (rule calmly_publish [OF assms(1) _ assms(2)]) (simp add: presence_event_def zero_event_def)
    then show ?case using Cons by (simp add: Let_def calmly_trans)
  qed
  then show ?thesis by (simp add: deliverPresence_def calmly_same split: sum.splits)
qed

lemma calmly_handleFrame:
  assumes "map_of (gw_live g) sid = Some s"
  shows "calmly c g (handleFrame encodes stateOf qs now sid s f g)"
proof -
  have put: "calm c s t \<Longrightarrow> calmly c g (g\<lparr>gw_live := at_socket sid (\<lambda>_. t) (gw_live g)\<rparr>)" for t
    using assms by (intro calmly_at) simp
  have report: "calmly c g (reportPresence u st g)" for u st
    by (simp add: reportPresence_def announcePresence_def Let_def calmly_enqueue calmly_same)
  show ?thesis
    using put [OF calm_handleSubscribe] put [OF calm_handleUnsubscribe] put [OF calm_handleTyping] put [OF calm_replies(2)] report
      calmly_same [of g g c]
    by (simp add: handleFrame_def Let_def case_prod_unfold calmly_enqueue split: option.split)
qed

text \<open>A turn of the read loop is calm, or it is the hello of a socket that was not registered.\<close>

lemma read_turn_cases:
  assumes "c \<noteq> 0"
  obtains "calmly c g (read_turn encodes unmarshal hello stateOf qs now sid raw g)"
  | s f version reqs where "map_of (gw_live g) sid = Some s" "\<not> so_reg s" "parseFrame unmarshal raw = Some f"
      "hello (if_Data f) = Some (version, reqs)"
      "gw_live (read_turn encodes unmarshal hello stateOf qs now sid raw g) = gw_live (snd (registerAndReplay encodes now (if_ID f) sid s
          (fst (resolveResume qs (so_user s) (so_admin s) reqs)) (snd (resolveResume qs (so_user s) (so_admin s) reqs)) g))"
      "gw_channels (read_turn encodes unmarshal hello stateOf qs now sid raw g) = gw_channels g"
proof (cases "map_of (gw_live g) sid")
  case None
  then show ?thesis by (intro that(1)) (simp add: read_turn_def calmly_same)
next
  case (Some s)
  have shut: "calmly c g (g\<lparr>gw_live := at_socket sid (shutdown code reason) (gw_live g)\<rparr>)" for code reason
    by (intro calmly_at) simp
  show ?thesis
  proof (cases "parseFrame unmarshal raw")
    case None
    then show ?thesis using Some shut by (intro that(1)) (simp add: read_turn_def)
  next
    case f: (Some f)
    show ?thesis
    proof (cases "\<not> so_reg s \<and> if_Type f = ''hello'' \<and> (\<exists>reqs. hello (if_Data f) = Some (protocolVersion, reqs))")
      case True
      then obtain reqs where reqs: "hello (if_Data f) = Some (protocolVersion, reqs)" by blast
      have "read_turn encodes unmarshal hello stateOf qs now sid raw g = handleHello encodes hello qs now sid s f g"
        using Some f True by (simp add: read_turn_def)
      then show ?thesis using True Some f reqs
        by (intro that(2) [OF Some _ f reqs])
           (auto simp: handleHello_def case_prod_unfold Let_def announcePresence_def registerAndReplay_def)
    next
      case False
      then show ?thesis using Some f shut calmly_handleFrame [OF Some]
        by (intro that(1)) (auto simp: read_turn_def handleHello_def split: option.split)
    qed
  qed
qed

lemma step_kinds:
  assumes "gateway_step lib (fl, g) (fl', g')" "\<forall>f. gl_encodes lib f" "c \<noteq> 0"
  obtains (calm) "calmly c g g'"
  | (publish) ev us now where "fl = Some (ev, us)" "ev_ordered ev" "ev_channelID ev = c" "g' = publish (gl_encodes lib) now ev us g"
  | (join) sid t where "gw_live g' = gw_live g @ [(sid, t)]" "gw_channels g' = gw_channels g" "\<not> so_reg t" "stream c t = []"
  | (prune) x where "gw_live g' = gw_live g" "channel_buffer g' c = prune x (channel_buffer g c)"
  | (hello) now sid s corr cands extra where "map_of (gw_live g) sid = Some s" "\<not> so_reg s" "gw_channels g' = gw_channels g"
      "gw_live g' = gw_live (snd (registerAndReplay (gl_encodes lib) now corr sid s cands extra g))"
  using assms(1)
proof (cases rule: gateway_step.cases)
  case (announce ev)
  then show ?thesis by (intro calm) (simp add: calmly_enqueue calmly_same)
next
  case (take_event ev evs qs)
  have "calmly c g (g\<lparr>gw_events := evs\<rparr>)" by (simp add: calmly_same)
  then show ?thesis using take_event calmly_before calmly_trans by (intro calm) blast
next
  case (send ev us now)
  then show ?thesis using publish calm calmly_publish [OF assms(2) _ assms(3)] by blast
next
  case (presence ev evs qs now)
  have "calmly c g (g\<lparr>gw_events := evs\<rparr>)" by (simp add: calmly_same)
  then show ?thesis using presence calmly_before calmly_trans calmly_deliverPresence [OF assms(2,3)] by (intro calm) blast
next
  case j: (join sid uid admin family now)
  show ?thesis
  proof (cases "gw_closing g \<or> New frameRateLimit frameRateWindow now = None")
    case True
    then show ?thesis using j by (intro calm) (auto simp: track_def calmly_same)
  next
    case False
    then show ?thesis using j by (auto simp: track_def stream_def intro!: join)
  qed
next
  case (read_frame qs now sid raw)
  then show ?thesis
    using read_turn_cases [OF assms(3), of g "gl_encodes lib" "gl_unmarshal lib" "gl_hello lib" "gl_stateOf lib" qs now sid raw] calm hello
    by metis
next
  case (write_frame sid now)
  then show ?thesis using calm_pump [OF assms(2)] by (intro calm) (simp add: calmly_at)
next
  case (leave sid now)
  then show ?thesis
    by (intro calm) (auto simp: untrack_def deregister_def calmly_def channel_buffer_def socket_maps Let_def split: option.splits if_splits)
next
  case (revoke fams)
  then show ?thesis by (intro calm) (simp add: closeRevoked_def calmly_on)
next
  case (expire now grace)
  have "gw_live (fold (\<lambda>u. announcePresence u ''offline'') us h) = gw_live h \<and> gw_channels (fold (\<lambda>u. announcePresence u ''offline'') us h) = gw_channels h" for us h
    by (induction us arbitrary: h) (simp_all add: announcePresence_def)
  then show ?thesis using expire by (intro calm calmly_same) (simp_all add: expirePresence_def Let_def)
next
  case (sweep now)
  then show ?thesis
    by (intro prune [of "now - replayMaxAge"])
       (auto simp: pruneReplay_def channel_buffer_def prune_def emptyBuffer_def split: option.splits)
next
  case stop
  then show ?thesis by (intro calm) (auto simp: Close_def calmly_def channel_buffer_def socket_maps)
qed

section \<open>Invariants\<close>

definition events_wf :: "flight \<Rightarrow> gateway \<Rightarrow> bool" where
  "events_wf fl g \<longleftrightarrow> (\<forall>ev \<in> set (gw_events g). event_wf ev) \<and> (\<forall>ev us. fl = Some (ev, us) \<longrightarrow> event_wf ev)"

lemma events_wf_enqueue [simp]: "event_wf ev \<Longrightarrow> events_wf fl g \<Longrightarrow> events_wf fl (enqueue ev g)"
  by (auto simp: events_wf_def enqueue_def)

lemma events_wf_live [simp]: "events_wf fl (g\<lparr>gw_live := x\<rparr>) = events_wf fl g" "events_wf fl (g\<lparr>gw_presence := p\<rparr>) = events_wf fl g"
  "events_wf fl (g\<lparr>gw_channels := h\<rparr>) = events_wf fl g" "events_wf fl (g\<lparr>gw_closing := b\<rparr>) = events_wf fl g"
  by (simp_all add: events_wf_def)

lemma events_wf_sendLocked [simp]: "events_wf fl (sendLocked ev f us g) = events_wf fl g"
  by (simp add: events_wf_def)

lemma gw_events_publish [simp]: "gw_events (publish encodes now ev us g) = gw_events g"
  by (simp add: publish_def Let_def case_prod_unfold split: option.split)

lemma events_wf_publish [simp]: "events_wf fl (publish encodes now ev us g) = events_wf fl g"
  by (simp add: publish_def Let_def case_prod_unfold split: option.split)

lemma events_wf_announce [simp]: "events_wf fl g \<Longrightarrow> events_wf fl (announcePresence u st g)"
  by (simp add: announcePresence_def event_wf_def zero_event_def)

lemma events_wf_fold: "(\<And>x g. events_wf fl g \<Longrightarrow> events_wf fl (F x g)) \<Longrightarrow> events_wf fl g \<Longrightarrow> events_wf fl (fold F xs g)"
  by (induction xs arbitrary: g) simp_all

lemma events_wf_before [simp]: "events_wf fl (before_delivery ev g) = events_wf fl g"
  by (simp add: before_delivery_def dropSubscriptions_def)

lemma events_wf_presence [simp]: "events_wf fl g \<Longrightarrow> events_wf fl (deliverPresence encodes qs now ev g)"
  by (auto simp: deliverPresence_def Let_def intro!: events_wf_fold split: sum.split)

lemma events_wf_expire [simp]: "events_wf fl g \<Longrightarrow> events_wf fl (expirePresence now grace g)"
  by (simp add: expirePresence_def Let_def events_wf_fold)

lemma typing_wf: "event_wf (typing_event u ch)"
  by (simp add: typing_event_def event_wf_def zero_event_def)

lemma events_wf_handleFrame: "events_wf fl g \<Longrightarrow> events_wf fl (handleFrame encodes stateOf qs now sid s f g)"
  by (auto simp: handleFrame_def reportPresence_def handleTyping_def Let_def case_prod_unfold typing_wf split: option.split)

lemma events_wf_read: "events_wf fl g \<Longrightarrow> events_wf fl (read_turn encodes unmarshal hello stateOf qs now sid raw g)"
  by (auto simp: read_turn_def handleHello_def registerAndReplay_def Let_def case_prod_unfold events_wf_handleFrame split: option.split)

lemma step_events_wf: "gateway_step lib (fl, g) (fl', g') \<Longrightarrow> events_wf fl g \<Longrightarrow> events_wf fl' g'"
proof (induction "(fl, g)" "(fl', g')" rule: gateway_step.induct)
  case (take_event ev evs qs)
  then show ?case by (cases "recipients_for (gl_collate lib) qs ev g'") (auto simp: events_wf_def before_delivery_def dropSubscriptions_def)
next
  case (presence ev evs qs now)
  then have "events_wf None (g\<lparr>gw_events := evs\<rparr>)" by (simp add: events_wf_def)
  then show ?case using presence events_wf_presence [of None "before_delivery ev (g\<lparr>gw_events := evs\<rparr>)"] by auto
next
  case (send ev us now)
  then show ?case by (auto simp: events_wf_def)
qed (auto simp: realtime_wf track_def events_wf_read untrack_def deregister_def closeRevoked_def pruneReplay_def Close_def Let_def
       split: option.split)

lemma publish_loud:
  assumes "\<forall>f. encodes f" "ev_ordered ev" "ev_channelID ev = c" "c \<noteq> 0"
    and "f = event_frame now ev (Some (rb_lastSeq (channel_buffer g c) + 1))"
  shows "channel_buffer (publish encodes now ev us g) c = buffer_step (channel_buffer g c) (Publish f now)"
    and "map_of (gw_live (publish encodes now ev us g)) sid = map_option (hear ev f us) (map_of (gw_live g) sid)"
    and "of_Chan f = Some c" "of_Seq f = Some (rb_lastSeq (channel_buffer g c) + 1)"
proof -
  have "publish encodes now ev us g = sendLocked ev f us (g\<lparr>gw_channels := (gw_channels g)(c \<mapsto>
      buffer_step (channel_buffer g c) (Publish f now))\<rparr>)"
    using assms by (simp add: publish_ordered Let_def)
  then show "channel_buffer (publish encodes now ev us g) c = buffer_step (channel_buffer g c) (Publish f now)"
    "map_of (gw_live (publish encodes now ev us g)) sid = map_option (hear ev f us) (map_of (gw_live g) sid)"
    by (simp_all add: channel_buffer_def live_sendLocked map_of_map_sockets)
  show "of_Chan f = Some c" "of_Seq f = Some (rb_lastSeq (channel_buffer g c) + 1)" using assms by (simp_all add: event_frame_def)
qed

text \<open>
  The history of a channel: its buffer is the buffer of some history of at most \<open>n\<close> events, each a frame of
  the channel that carries its own number.
\<close>

definition own_frames :: "uuid \<Rightarrow> (outFrame \<times> instant) option list \<Rightarrow> bool" where
  "own_frames c h \<longleftrightarrow> (\<forall>i < length h. \<exists>f at. h ! i = Some (f, at) \<and> of_Chan f = Some c \<and> of_Seq f = Some (word_of_nat (Suc i)))"

definition channel_ok :: "uuid \<Rightarrow> nat \<Rightarrow> gateway \<Rightarrow> bool" where
  "channel_ok c n g \<longleftrightarrow> (\<exists>h. buffer_ok h (channel_buffer g c) \<and> length h \<le> n \<and> own_frames c h)"

definition newcomers_ok :: "uuid \<Rightarrow> gateway \<Rightarrow> bool" where
  "newcomers_ok c g \<longleftrightarrow> (\<forall>sid s. map_of (gw_live g) sid = Some s \<longrightarrow> \<not> so_reg s \<longrightarrow> stream c s = [])"

lemma own_frames_snoc:
  "own_frames c h \<Longrightarrow> of_Chan f = Some c \<Longrightarrow> of_Seq f = Some (word_of_nat (Suc (length h))) \<Longrightarrow> own_frames c (h @ [Some (f, at)])"
  by (auto simp: own_frames_def nth_append less_Suc_eq)

lemma buffer_next: "buffer_ok h b \<Longrightarrow> rb_lastSeq b + 1 = word_of_nat (Suc (length h))"
proof -
  assume "buffer_ok h b"
  then have "word_of_nat (unat (rb_lastSeq b)) = (word_of_nat (length h) :: 64 word)" by (simp add: buffer_ok_def)
  then show ?thesis by simp
qed

lemma step_channel_ok:
  assumes step: "gateway_step lib (fl, g) (fl', g')" and lib: "\<forall>f. gl_encodes lib f" "c \<noteq> 0"
    and ok: "channel_ok c n g" and n: "Suc n < 2 ^ 64"
  shows "channel_ok c (Suc n) g'"
proof -
  obtain h where h: "buffer_ok h (channel_buffer g c)" "length h \<le> n" "own_frames c h" using ok by (auto simp: channel_ok_def)
  have same: ?thesis if "channel_buffer g' c = channel_buffer g c" using that h by (auto simp: channel_ok_def)
  show ?thesis using step lib
  proof (cases rule: step_kinds)
    case calm
    then show ?thesis using same by (simp add: calmly_def)
  next
    case (publish ev us now)
    define f where "f = event_frame now ev (Some (rb_lastSeq (channel_buffer g c) + 1))"
    note loud = publish_loud [OF lib(1) publish(2,3) lib(2) f_def]
    have "buffer_ok (h @ [Some (f, now)]) (channel_buffer g' c)"
      using buffer_ok_publish [OF h(1)] h(2) n loud(1) publish(4) by simp
    moreover have "own_frames c (h @ [Some (f, now)])" using own_frames_snoc [OF h(3)] loud(3,4) buffer_next [OF h(1)] by simp
    ultimately show ?thesis using h(2) unfolding channel_ok_def by (intro exI [of _ "h @ [Some (f, now)]"]) simp
  next
    case (join sid t)
    then show ?thesis using same by (simp add: channel_buffer_def)
  next
    case (prune x)
    have "buffer_ok (h @ op_event (Prune x)) (buffer_step (channel_buffer g c) (Prune x))"
      using h n by (intro buffer_ok_step) auto
    then have "buffer_ok h (channel_buffer g' c)" using prune by simp
    then show ?thesis using h le_SucI unfolding channel_ok_def by (intro exI [of _ h]) simp
  next
    case (hello now sid s corr cands extra)
    then show ?thesis using same by (simp add: channel_buffer_def)
  qed
qed

lemma hear_frame: "so_user (hear ev f us s) = so_user s" "so_reg (hear ev f us s) = so_reg s"
  using hear_sent [of ev f s us] by (simp_all add: sent_def)

lemma registered_live:
  "gw_live (snd (registerAndReplay encodes now corr sid s cands extra g)) =
     at_socket sid (\<lambda>_. (fold (\<lambda>req. deliver_all (fst req) (replay_of g req)) (filter (resumable g) cands)
       (queue (encodeOrLog encodes (hello_ok (so_user s) (so_family s) corr now (filter (resumable g) cands)
          (extra @ map fst (filter (\<lambda>r. \<not> resumable g r) cands)))) s))\<lparr>so_reg := True\<rparr>) (gw_live g)"
  by (simp add: registerAndReplay_def Let_def)

lemma step_newcomers:
  assumes step: "gateway_step lib (fl, g) (fl', g')" and lib: "\<forall>f. gl_encodes lib f" "c \<noteq> 0" and ok: "newcomers_ok c g"
  shows "newcomers_ok c g'"
  unfolding newcomers_ok_def
proof (intro allI impI)
  fix sid t
  assume t: "map_of (gw_live g') sid = Some t" "\<not> so_reg t"
  show "stream c t = []" using step lib
  proof (cases rule: step_kinds)
    case calm
    then show ?thesis using t ok by (fastforce simp: calmly_def calm_def newcomers_ok_def)
  next
    case (publish ev us now)
    define f where "f = event_frame now ev (Some (rb_lastSeq (channel_buffer g c) + 1))"
    obtain s where s: "map_of (gw_live g) sid = Some s" "t = hear ev f us s"
      using t(1) publish_loud(2) [OF lib(1) publish(2,3) lib(2) f_def] publish(4) by auto
    then have "\<not> so_reg s" "t = s" using t(2) hear_frame hear_same [of s us ev f] by (auto simp: listens_def)
    then show ?thesis using ok s(1) by (simp add: newcomers_ok_def)
  next
    case (join i u)
    then show ?thesis using t ok by (auto simp: newcomers_ok_def map_add_Some_iff split: if_splits)
  next
    case (prune x)
    then show ?thesis using t ok by (simp add: newcomers_ok_def)
  next
    case (hello now i s corr cands extra)
    then show ?thesis using t ok by (auto simp: registered_live socket_maps newcomers_ok_def split: if_splits)
  qed
qed

definition gateway_ok :: "nat \<Rightarrow> flight \<times> gateway \<Rightarrow> bool" where
  "gateway_ok n x \<longleftrightarrow> events_wf (fst x) (snd x) \<and> (\<forall>c. c \<noteq> 0 \<longrightarrow> channel_ok c n (snd x) \<and> newcomers_ok c (snd x))"

lemma gateway_ok_step:
  assumes "gateway_step lib x y" "\<forall>f. gl_encodes lib f" "gateway_ok n x" "Suc n < 2 ^ 64"
  shows "gateway_ok (Suc n) y"
proof -
  obtain fl g fl' g' where xy: "x = (fl, g)" "y = (fl', g')" by (cases x, cases y)
  show ?thesis using assms step_events_wf [of lib fl g fl' g'] step_channel_ok [of lib fl g fl' g'] step_newcomers [of lib fl g fl' g']
    unfolding xy gateway_ok_def fst_conv snd_conv by blast
qed

lemma new_gateway_ok: "gateway_ok 0 (None, new_gateway)"
proof -
  have "buffer_ok [] (channel_buffer new_gateway c) \<and> length [] \<le> (0::nat) \<and> own_frames c []" for c
    by (simp add: new_gateway_def channel_buffer_def buffer_ok_def emptyBuffer_def own_frames_def)
  then show ?thesis unfolding gateway_ok_def channel_ok_def
    by (auto simp: events_wf_def newcomers_ok_def new_gateway_def)
qed

lemma gateway_ok_run:
  assumes "gateway_run lib n (None, new_gateway) x" "\<forall>f. gl_encodes lib f" "n < 2 ^ 64"
  shows "gateway_ok n x"
  using assms
proof (induction n "(None :: flight, new_gateway)" x rule: gateway_run.induct)
  case gateway_refl
  show ?case by (rule new_gateway_ok)
next
  case (gateway_more n y z)
  then show ?case using gateway_ok_step [of lib y z n] by simp
qed

section \<open>A resumed client\<close>

definition numbers :: "uuid \<Rightarrow> socket \<Rightarrow> nat list" where
  "numbers c s = map (\<lambda>f. unat (the (of_Seq f))) (stream c s)"

text \<open>
  A socket keeps up with a channel from number \<open>q\<close> when it has been told to backfill, or its stream is the
  events after \<open>q\<close>, all of them, in order.
\<close>

definition keeps_up :: "uuid \<Rightarrow> nat \<Rightarrow> gateway \<Rightarrow> socket \<Rightarrow> bool" where
  "keeps_up c q g s \<longleftrightarrow> told c s \<or>
     sorted (numbers c s) \<and> set (numbers c s) = {q<..unat (rb_lastSeq (channel_buffer g c))}"

lemma deliver_all_effect:
  "\<forall>f \<in> set fs. numbered_on c f \<Longrightarrow> so_user (deliver_all c fs s) = so_user s \<and> so_reg (deliver_all c fs s) = so_reg s \<and>
     (told c s \<longrightarrow> told c (deliver_all c fs s)) \<and> (told c (deliver_all c fs s) \<or> stream c (deliver_all c fs s) = stream c s @ fs)"
proof (induction fs arbitrary: s)
  case Nil
  show ?case by (simp add: deliver_all_def)
next
  case (Cons f fs)
  have "told c (socket_deliver c f s) \<or> stream c (socket_deliver c f s) = stream c s @ [f]"
    using Cons.prems by (auto simp: socket_deliver_def stream_def told_def)
  moreover have "told c s \<longrightarrow> told c (socket_deliver c f s)" by (auto simp: socket_deliver_def told_def)
  ultimately show ?case using Cons.IH [of "socket_deliver c f s"] Cons.prems by (auto simp: deliver_all_def)
qed

lemma deliver_all_calm: "\<forall>f \<in> set fs. \<not> numbered_on c f \<Longrightarrow> calm c s (deliver_all ch fs s)"
proof (induction fs arbitrary: s)
  case Nil
  show ?case by (simp add: deliver_all_def)
next
  case (Cons f fs)
  have "calm c s (socket_deliver ch f s)" using calm_sent [OF sent_funpow [of ch f 1 s]] Cons.prems by simp
  then show ?case using Cons by (simp add: deliver_all_def) (metis calm_trans)
qed

lemma frames_own:
  assumes "own_frames c h" "length h < 2 ^ 64"
  shows "map (\<lambda>f. unat (the (of_Seq f))) (frames_of (drop q h)) = [Suc q..<Suc (length h)] \<and> (\<forall>f \<in> set (frames_of (drop q h)). numbered_on c f)"
proof (cases "q \<le> length h")
  case False
  then show ?thesis by (simp add: frames_of_def List.map_filter_def)
next
  case True
  define d where "d = length h - q"
  have "map (\<lambda>f. unat (the (of_Seq f))) (frames_of (drop (length h - d) h)) = [Suc (length h - d)..<Suc (length h)] \<and>
    (\<forall>f \<in> set (frames_of (drop (length h - d) h)). numbered_on c f)" if "d \<le> length h" for d using that
  proof (induction d)
    case 0
    then show ?case by (simp add: frames_of_def List.map_filter_def)
  next
    case (Suc d)
    define i where "i = length h - Suc d"
    have i: "i < length h" "Suc i = length h - d" using Suc.prems by (auto simp: i_def)
    obtain f at where f: "h ! i = Some (f, at)" "of_Chan f = Some c" "of_Seq f = Some (word_of_nat (Suc i))"
      using assms(1) i(1) unfolding own_frames_def by blast
    have "unat (word_of_nat (Suc i) :: 64 word) = Suc i" using i(1) assms(2)
      by (simp add: unsigned_of_nat take_bit_nat_eq_self del: of_nat_Suc)
    moreover have "drop i h = Some (f, at) # drop (Suc i) h" using i(1) f(1) by (simp add: Cons_nth_drop_Suc [symmetric])
    moreover have "[Suc i..<Suc (length h)] = Suc i # [Suc (Suc i)..<Suc (length h)]" using i(1) by (simp add: upt_conv_Cons)
    ultimately show ?case using Suc f i unfolding i_def [symmetric] i(2) [symmetric]
      by (simp add: frames_of_def List.map_filter_def numbered_on_def)
  qed
  from this [of d] show ?thesis using True by (simp add: d_def)
qed

lemma replay_frames:
  assumes "gateway_ok n (fl, g)" "n < 2 ^ 64" "resumable g (c, q)" "c \<noteq> 0"
  shows "map (\<lambda>f. unat (the (of_Seq f))) (replay_of g (c, q)) = [Suc (unat q)..<Suc (unat (rb_lastSeq (channel_buffer g c)))]"
    and "\<forall>f \<in> set (replay_of g (c, q)). numbered_on c f"
    and "unat q \<le> unat (rb_lastSeq (channel_buffer g c))"
proof -
  obtain h where h: "buffer_ok h (channel_buffer g c)" "length h \<le> n" "own_frames c h"
    using assms(1,4) by (auto simp: gateway_ok_def channel_ok_def)
  have "canResume q (channel_buffer g c)" "replay_of g (c, q) = buffer_after q (channel_buffer g c)"
    using assms(3) by (auto simp: resumable_def replay_of_def channel_buffer_def split: option.splits)
  then have a: "unat q \<le> length h" "replay_of g (c, q) = frames_of (drop (unat q) h)" using after_exact [OF h(1)] by auto
  have l: "unat (rb_lastSeq (channel_buffer g c)) = length h" using h(1) by (simp add: buffer_ok_def)
  show "map (\<lambda>f. unat (the (of_Seq f))) (replay_of g (c, q)) = [Suc (unat q)..<Suc (unat (rb_lastSeq (channel_buffer g c)))]"
    "\<forall>f \<in> set (replay_of g (c, q)). numbered_on c f"
    using frames_own [OF h(3), of "unat q"] h(2) assms(2) a(2) l by simp_all
  show "unat q \<le> unat (rb_lastSeq (channel_buffer g c))" using a(1) l by simp
qed

lemma replay_calm:
  assumes "gateway_ok n (fl, g)" "n < 2 ^ 64" "\<forall>r \<in> set rs. resumable g r \<and> fst r \<noteq> 0 \<and> fst r \<noteq> c"
  shows "calm c s (fold (\<lambda>req. deliver_all (fst req) (replay_of g req)) rs s)"
  using assms(3)
proof (induction rs arbitrary: s)
  case Nil
  show ?case by simp
next
  case (Cons r rs)
  have "\<forall>f \<in> set (replay_of g r). numbered_on (fst r) f"
    using replay_frames(2) [OF assms(1,2), of "fst r" "snd r"] Cons.prems by simp
  then have "\<forall>f \<in> set (replay_of g r). \<not> numbered_on c f" using Cons.prems by (auto simp: numbered_on_def)
  then have "calm c s (deliver_all (fst r) (replay_of g r) s)" by (rule deliver_all_calm)
  then show ?case using Cons by (simp add: calm_trans)
qed

lemma registered_keeps_up:
  assumes ok: "gateway_ok n (fl, g)" "n < 2 ^ 64"
    and s: "map_of (gw_live g) sid = Some s" "\<not> so_reg s"
    and cands: "distinct (map fst cands)" "0 \<notin> fst ` set cands" "(c, q) \<in> set cands" "resumable g (c, q)"
  shows "\<exists>t. map_of (gw_live (snd (registerAndReplay encodes now corr sid s cands extra g))) sid = Some t \<and> so_user t = so_user s \<and>
     so_reg t \<and> keeps_up c (unat q) (snd (registerAndReplay encodes now corr sid s cands extra g)) t"
proof -
  define g1 where "g1 = snd (registerAndReplay encodes now corr sid s cands extra g)"
  define F where "F = (\<lambda>req. deliver_all (fst req) (replay_of g req))"
  define s1 where "s1 = queue (encodeOrLog encodes (hello_ok (so_user s) (so_family s) corr now (filter (resumable g) cands)
          (extra @ map fst (filter (\<lambda>r. \<not> resumable g r) cands)))) s"
  define t where "t = (fold F (filter (resumable g) cands) s1)\<lparr>so_reg := True\<rparr>"
  have c: "c \<noteq> 0" using cands(2,3) by force
  obtain xs ys where split: "filter (resumable g) cands = xs @ (c, q) # ys"
    using cands(3,4) split_list [of "(c, q)" "filter (resumable g) cands"] by auto
  have "distinct (map fst (filter (resumable g) cands))" using cands(1) by (simp add: distinct_map_filter)
  then have out: "c \<notin> fst ` set xs" "c \<notin> fst ` set ys" by (auto simp: split)
  have in_cands: "\<forall>r \<in> set (xs @ ys). resumable g r \<and> fst r \<noteq> 0"
  proof
    fix r assume "r \<in> set (xs @ ys)"
    then have "r \<in> set (filter (resumable g) cands)" by (auto simp: split)
    then show "resumable g r \<and> fst r \<noteq> 0" using cands(2) by force
  qed
  have "calm c s s1" by (simp add: s1_def calm_queue hello_ok_def)
  moreover have calm_x: "calm c s1 (fold F xs s1)" unfolding F_def
    using in_cands out(1) by (intro replay_calm [OF ok]) force
  ultimately have x: "calm c s (fold F xs s1)" using calm_trans by blast
  have y: "calm c u (fold F ys u)" for u unfolding F_def
    using in_cands out(2) by (intro replay_calm [OF ok]) force
  have empty: "stream c s = []" using ok(1) c s by (simp add: gateway_ok_def newcomers_ok_def)
  let ?u = "deliver_all c (replay_of g (c, q)) (fold F xs s1)"
  note replay = replay_frames [OF ok cands(4) c]
  note eff = deliver_all_effect [OF replay(2), of "fold F xs s1"]
  have t_u: "t = (fold F ys ?u)\<lparr>so_reg := True\<rparr>" by (simp add: t_def split F_def)
  have buf: "channel_buffer g1 c = channel_buffer g c"
    by (simp add: g1_def registerAndReplay_def Let_def channel_buffer_def)
  have "told c t \<or> stream c t = replay_of g (c, q)"
    using eff x y [of ?u] empty by (auto simp: t_u calm_def stream_def told_def)
  then have "told c t \<or> numbers c t = [Suc (unat q)..<Suc (unat (rb_lastSeq (channel_buffer g c)))]"
    using replay(1) by (auto simp: numbers_def simp del: upt_Suc)
  then have up: "keeps_up c (unat q) g1 t" unfolding keeps_up_def buf by (auto simp del: upt_Suc)
  have "map_of (gw_live g1) sid = Some t" using s(1) by (simp add: g1_def registered_live socket_maps t_def F_def s1_def)
  moreover have "so_user t = so_user s" "so_reg t" using eff x y [of ?u] by (simp_all add: t_u calm_def)
  ultimately show ?thesis using up unfolding g1_def by blast
qed

text \<open>
  A run in which the client stays connected, and whoever is settled on as the recipients of an event of the
  channel includes the client's user.
\<close>

inductive listening_run :: "'k::linorder gateway_lib \<Rightarrow> uuid \<Rightarrow> uuid \<Rightarrow> nat \<Rightarrow> nat \<Rightarrow> flight \<times> gateway \<Rightarrow> flight \<times> gateway \<Rightarrow> bool"
  for lib c u sid where
  listening_refl: "listening_run lib c u sid 0 x x"
| listening_more: "listening_run lib c u sid n x (fl, g) \<Longrightarrow> gateway_step lib (fl, g) (fl', g') \<Longrightarrow>
     (\<forall>ev us. fl = Some (ev, us) \<and> ev_ordered ev \<and> ev_channelID ev = c \<longrightarrow> u \<in> set us) \<Longrightarrow>
     map_of (gw_live g') sid \<noteq> None \<Longrightarrow> listening_run lib c u sid (Suc n) x (fl', g')"

lemma hear_keeps_up:
  assumes up: "keeps_up c q g s" "q \<le> unat (rb_lastSeq (channel_buffer g c))" and s: "so_reg s" "so_user s \<in> set us"
    and ev: "event_wf ev" "ev_ordered ev" "ev_channelID ev = c"
    and f: "of_Chan f = Some c" "of_Seq f = Some (rb_lastSeq (channel_buffer g c) + 1)"
    and next_seq: "unat (rb_lastSeq (channel_buffer g c) + 1) = Suc (unat (rb_lastSeq (channel_buffer g c)))"
    and buf: "rb_lastSeq (channel_buffer g' c) = rb_lastSeq (channel_buffer g c) + 1"
  shows "keeps_up c q g' (hear ev f us s)"
proof -
  let ?l = "unat (rb_lastSeq (channel_buffer g c))" and ?t = "hear ev f us s" and ?n = "count_list us (so_user s)"
  have "listens ev s" using ev(1,2) s(1) by (simp add: listens_def event_wf_def)
  then have "sent c f ?n s ?t" using hear_sent [of ev f s us] ev(3) by simp
  then obtain k where k: "so_wire ?t = so_wire s" "k \<le> ?n" "so_out ?t = so_out s @ replicate k f"
    "set (so_resync ?t) = (if k < ?n then insert c (set (so_resync s)) else set (so_resync s))" by (auto simp: sent_def)
  have n: "0 < ?n" using s(2) count_list_0_iff [of us "so_user s"] by (cases ?n) auto
  have told: "told c s \<or> k < ?n \<Longrightarrow> told c ?t" using k by (auto simp: told_def split: if_splits)
  have nums: "numbers c ?t = numbers c s @ replicate k (Suc ?l)"
    using k(1,3) f next_seq by (simp add: numbers_def stream_def numbered_on_def)
  show ?thesis
  proof (cases "told c s \<or> k < ?n")
    case True
    then show ?thesis using told by (simp add: keeps_up_def)
  next
    case False
    then have "0 < k" "sorted (numbers c s)" "set (numbers c s) = {q<..?l}" using up(1) k(2) n by (auto simp: keeps_up_def)
    then have "sorted (numbers c ?t) \<and> set (numbers c ?t) = {q<..Suc ?l}"
      using up(2) by (auto simp: nums sorted_append sorted_replicate)
    then show ?thesis unfolding keeps_up_def buf next_seq by blast
  qed
qed

lemma step_keeps_up:
  assumes step: "gateway_step lib (fl, g) (fl', g')" and lib: "\<forall>f. gl_encodes lib f" "c \<noteq> 0"
    and ok: "gateway_ok n (fl, g)" "Suc n < 2 ^ 64"
    and s: "map_of (gw_live g) sid = Some s" "so_reg s" "keeps_up c q g s" "q \<le> unat (rb_lastSeq (channel_buffer g c))"
    and aud: "\<forall>ev us. fl = Some (ev, us) \<and> ev_ordered ev \<and> ev_channelID ev = c \<longrightarrow> so_user s \<in> set us"
    and still: "map_of (gw_live g') sid \<noteq> None"
  shows "\<exists>t. map_of (gw_live g') sid = Some t \<and> so_reg t \<and> so_user t = so_user s \<and> keeps_up c q g' t \<and>
     q \<le> unat (rb_lastSeq (channel_buffer g' c))"
proof -
  obtain t where t: "map_of (gw_live g') sid = Some t" using still by blast
  have same: ?thesis if "calm c s t" "rb_lastSeq (channel_buffer g' c) = rb_lastSeq (channel_buffer g c)"
    using that s t by (auto simp: calm_def keeps_up_def numbers_def)
  show ?thesis using step lib
  proof (cases rule: step_kinds)
    case calm
    then show ?thesis using same s(1) t by (fastforce simp: calmly_def)
  next
    case (publish ev us now)
    define f where "f = event_frame now ev (Some (rb_lastSeq (channel_buffer g c) + 1))"
    note loud = publish_loud [OF lib(1) publish(2,3) lib(2) f_def]
    obtain h where h: "buffer_ok h (channel_buffer g c)" "length h \<le> n" using ok(1) lib(2) by (auto simp: gateway_ok_def channel_ok_def)
    have next_seq: "unat (rb_lastSeq (channel_buffer g c) + 1) = Suc (unat (rb_lastSeq (channel_buffer g c)))"
      using next_unat [of "rb_lastSeq (channel_buffer g c)"] h ok(2) by (auto simp: buffer_ok_def)
    have buf: "rb_lastSeq (channel_buffer g' c) = rb_lastSeq (channel_buffer g c) + 1"
      unfolding publish(4) loud(1) by (simp add: nextSeq_def buffer_store_def Let_def)
    have wf: "event_wf ev" using ok(1) publish(1) by (simp add: gateway_ok_def events_wf_def)
    have "t = hear ev f us s" using t s(1) loud(2) publish(4) by simp
    then show ?thesis using t hear_keeps_up [OF s(3,4,2) _ wf publish(2,3) loud(3,4) next_seq buf] aud publish(1-3) s(2,4) hear_frame buf next_seq
      by auto
  next
    case (join i u)
    then have "t = s" using t s(1) by (simp add: map_add_Some_iff)
    then show ?thesis using same join by (simp add: channel_buffer_def)
  next
    case (prune x)
    then show ?thesis using same t s(1) by (simp add: prune_def)
  next
    case (hello now i u corr cands extra)
    then have "t = s" using t s(1,2) by (auto simp: registered_live socket_maps split: if_splits)
    then show ?thesis using same hello by (simp add: channel_buffer_def)
  qed
qed

lemma listening_keeps_up:
  assumes "listening_run lib c u sid m (fl, g) y" "\<forall>f. gl_encodes lib f" "c \<noteq> 0" "gateway_ok n (fl, g)" "n + m < 2 ^ 64"
    and "\<exists>s. map_of (gw_live g) sid = Some s \<and> so_reg s \<and> so_user s = u \<and> keeps_up c q g s"
    and "q \<le> unat (rb_lastSeq (channel_buffer g c))"
  shows "gateway_ok (n + m) y \<and> (\<exists>t. map_of (gw_live (snd y)) sid = Some t \<and> so_reg t \<and> so_user t = u \<and> keeps_up c q (snd y) t) \<and>
     q \<le> unat (rb_lastSeq (channel_buffer (snd y) c))"
  using assms
proof (induction m "(fl, g)" y rule: listening_run.induct)
  case listening_refl
  then show ?case by simp
next
  case (listening_more m fl1 g1 fl2 g2)
  then obtain s where s: "map_of (gw_live g1) sid = Some s" "so_reg s" "so_user s = u" "keeps_up c q g1 s"
    and ok: "gateway_ok (n + m) (fl1, g1)" and q: "q \<le> unat (rb_lastSeq (channel_buffer g1 c))" by auto
  have small: "Suc (n + m) < 2 ^ 64" using listening_more.prems(4) by simp
  have "gateway_ok (Suc (n + m)) (fl2, g2)"
    using gateway_ok_step [OF listening_more.hyps(3) listening_more.prems(1) ok small] .
  moreover have "\<exists>t. map_of (gw_live g2) sid = Some t \<and> so_reg t \<and> so_user t = so_user s \<and> keeps_up c q g2 t \<and>
     q \<le> unat (rb_lastSeq (channel_buffer g2 c))"
    by (rule step_keeps_up [OF listening_more.hyps(3) listening_more.prems(1,2) ok small s(1,2,4) q])
       (use listening_more.hyps(4,5) s(3) in auto)
  ultimately show ?case using s(3) by auto
qed

section \<open>Resuming is for members\<close>

lemma canRead_seen: "canRead qs k u admin c = Inr True \<Longrightarrow> member_seen qs c u \<and> (\<exists>k db. qs k = Inr db \<and> (\<exists>r \<in> set (channels db). c_id r = c))"
proof -
  assume can: "canRead qs k u admin c = Inr True"
  then obtain db ch db2 where q: "qs k = Inr db" "ChannelForUser c u db = Inr ch" "qs (Suc k) = Inr db2" and "IsChannelMember c u db2"
    by (auto simp: canRead_def Can_def canChannel_def NewChannel_def split: sum.splits if_splits)
  then have "member_seen qs c u" by (intro member_seenI [of qs "Suc k"])
  moreover have "\<exists>r \<in> set (channels db). c_id r = c" using q(2)
    by (auto simp: ChannelForUser_def dest: sql_row_Some_iff split: option.splits)
  ultimately show ?thesis using q(1) by blast
qed

lemma resolve_seen:
  "r \<in> set (fst (resolve_loop qs u admin k seen reqs)) \<Longrightarrow> \<exists>k. canRead qs k u admin (fst r) = Inr True"
proof (induction qs u admin k seen reqs rule: resolve_loop.induct)
  case (1 qs u admin k seen)
  then show ?case by simp
next
  case (2 qs u admin k seen c seq reqs)
  then show ?case
    by (auto simp: case_prod_unfold Let_def split: if_splits sum.splits bool.splits)
qed

lemma replay_out:
  "set (so_out (fold (\<lambda>req. deliver_all (fst req) (replay_of g req)) rs s)) \<subseteq> set (so_out s) \<union> (\<Union>r \<in> set rs. set (replay_of g r))"
proof (induction rs arbitrary: s)
  case Nil
  show ?case by simp
next
  case (Cons r rs)
  have "set (so_out (deliver_all c fs s)) \<subseteq> set (so_out s) \<union> set fs" for c fs and s :: socket
  proof (induction fs arbitrary: s)
    case Nil
    show ?case by (simp add: deliver_all_def)
  next
    case (Cons f fs)
    have "set (so_out (socket_deliver c f s)) \<subseteq> insert f (set (so_out s))" by (auto simp: socket_deliver_def)
    then show ?case using Cons [of "socket_deliver c f s"] by (auto simp: deliver_all_def)
  qed
  then show ?case using Cons [of "deliver_all (fst r) (replay_of g r) s"] by fastforce
qed

lemma greeted_out:
  assumes "hello (if_Data f) = Some (protocolVersion, reqs)" "map_of (gw_live g) sid = Some s"
    and "map_of (gw_live (handleHello encodes hello qs now sid s f g)) sid = Some t"
  shows "\<exists>s1. set (so_out s1) \<subseteq> set (so_out s) \<union> {y. of_Seq y = None} \<and>
     so_out t = so_out (fold (\<lambda>req. deliver_all (fst req) (replay_of g req))
       (filter (resumable g) (fst (resolveResume qs (so_user s) (so_admin s) reqs))) s1)"
proof -
  define cands where "cands = fst (resolveResume qs (so_user s) (so_admin s) reqs)"
  define s1 where "s1 = queue (encodeOrLog encodes (hello_ok (so_user s) (so_family s) (if_ID f) now (filter (resumable g) cands)
    (snd (resolveResume qs (so_user s) (so_admin s) reqs) @ map fst (filter (\<lambda>r. \<not> resumable g r) cands)))) s"
  have "set (so_out s1) \<subseteq> set (so_out s) \<union> {y. of_Seq y = None}"
    by (auto simp: s1_def queue_def encodeOrLog_def hello_ok_def)
  moreover have "so_out t = so_out (fold (\<lambda>req. deliver_all (fst req) (replay_of g req)) (filter (resumable g) cands) s1)"
    using assms by (auto simp: handleHello_def case_prod_unfold Let_def announcePresence_def registered_live socket_maps cands_def s1_def
      split: if_splits)
  ultimately show ?thesis unfolding cands_def by blast
qed

section \<open>An instance\<close>

definition demo_gl :: "nat gateway_lib" where
  "demo_gl = \<lparr>gl_encodes = (\<lambda>_. True), gl_collate = length,
     gl_unmarshal = (\<lambda>raw. Some \<lparr>if_Type = ''hello'', if_ID = [], if_Chan = None, if_TS = Some 0, if_Data = raw\<rparr>),
     gl_hello = (\<lambda>raw. Some (1, [(5, word_of_nat (length raw - 1))])), gl_stateOf = (\<lambda>_. None)\<rparr>"

text \<open>User 7 is a member of channel 5.\<close>

definition room5 :: db where
  "room5 = (empty_db [7] (org_of False 720))
     \<lparr>channels := [\<lparr>c_id = 5, c_kind = ChannelKindPublic, c_slug = Some ''five'', c_topic = [], c_dm_a = None, c_dm_b = None,
        c_created_by = Some 7, c_e2ee = False, c_created = 0\<rparr>],
      channel_members := [\<lparr>cm_channel = 5, cm_user = 7\<rparr>]\<rparr>"

definition demo_ev :: event where
  "demo_ev = MemberAdded 5 \<lparr>ma_ID = 7, ma_Username = ''u'', ma_DisplayName = ''u''\<rparr>"

definition demo_socket :: socket where
  "demo_socket = \<lparr>so_user = 7, so_admin = False, so_family = 3, so_out = [], so_wire = [], so_subs = [], so_resync = [],
     so_close = None, so_reg = False, so_frames = the (New frameRateLimit frameRateWindow 20)\<rparr>"

text \<open>One event while nobody is connected; then user 7 connects, and a second event follows.\<close>

definition gw1 :: gateway where "gw1 = enqueue demo_ev new_gateway"
definition gw2 :: gateway where "gw2 = gw1\<lparr>gw_events := []\<rparr>"
definition gw3 :: gateway where "gw3 = publish (\<lambda>_. True) 10 demo_ev [] gw2"
definition gw4 :: gateway where "gw4 = track 1 7 False 3 20 gw3"
definition gw5 :: gateway where "gw5 = snd (registerAndReplay (\<lambda>_. True) 30 [] 1 demo_socket [(5, 0)] [] gw4)"
definition gw6 :: gateway where "gw6 = enqueue demo_ev gw5"
definition gw7 :: gateway where "gw7 = gw6\<lparr>gw_events := []\<rparr>"
definition gw8 :: gateway where "gw8 = publish (\<lambda>_. True) 40 demo_ev [7] gw7"

lemma demo_ev_realtime: "realtime demo_ev"
  unfolding demo_ev_def by (simp add: realtime.intros)

lemma demo_ev_fields: "\<not> ev_dmFanout demo_ev" "ev_dropSubsUser demo_ev = 0" "ev_ordered demo_ev" "ev_channelID demo_ev = 5"
  by (simp_all add: demo_ev_def MemberAdded_def zero_event_def)

lemma demo_publish:
  assumes "gw_events g = [demo_ev]" "recipients_for length qs demo_ev (g\<lparr>gw_events := []\<rparr>) = Some us"
  shows "gateway_step demo_gl (None, g) (Some (demo_ev, us), g\<lparr>gw_events := []\<rparr>)"
    and "gateway_step demo_gl (Some (demo_ev, us), h) (None, publish (\<lambda>_. True) now demo_ev us h)"
proof -
  have "gateway_step demo_gl (None, g) (map_option (Pair demo_ev) (recipients_for (gl_collate demo_gl) qs demo_ev (g\<lparr>gw_events := []\<rparr>)), g\<lparr>gw_events := []\<rparr>)"
    by (rule take_event) (simp_all add: assms demo_ev_fields before_delivery_def)
  then show "gateway_step demo_gl (None, g) (Some (demo_ev, us), g\<lparr>gw_events := []\<rparr>)" using assms(2) by (simp add: demo_gl_def)
  show "gateway_step demo_gl (Some (demo_ev, us), h) (None, publish (\<lambda>_. True) now demo_ev us h)"
    using gateway_step.send [of demo_gl demo_ev us h now] by (simp add: demo_gl_def)
qed

lemma gw3_frame: "gw_live gw3 = []" "\<not> gw_closing gw3" "gw_events gw3 = []"
  by (simp_all add: gw3_def gw2_def gw1_def publish_def new_gateway_def enqueue_def sendLocked_def encodeOrLog_def Let_def nextSeq_def)

lemma gw_run: "gateway_run demo_gl 4 (None, new_gateway) (None, gw4)"
proof -
  have 1: "gateway_step demo_gl (None, new_gateway) (None, gw1)" unfolding gw1_def by (rule announce [OF demo_ev_realtime])
  have q: "gw_events gw1 = [demo_ev]" by (simp add: gw1_def enqueue_def new_gateway_def eventQueue_def)
  have r: "recipients_for length (\<lambda>_. Inr room5) demo_ev (gw1\<lparr>gw_events := []\<rparr>) = Some []"
    by (simp add: recipients_for_def connected_def gw1_def enqueue_def new_gateway_def)
  have 4: "gateway_step demo_gl (None, gw3) (None, gw4)" unfolding gw4_def
    by (rule join) (simp add: gw3_frame)
  have "gateway_run demo_gl (Suc (Suc (Suc (Suc 0)))) (None, new_gateway) (None, gw4)"
    by (rule gateway_more gateway_refl 1 4 demo_publish [OF q r, folded gw2_def] demo_publish(2) [OF q r, of gw2 10, folded gw3_def])+
  then show ?thesis by (simp add: numeral_eq_Suc)
qed

lemma gw4_live: "gw_live gw4 = [(1, demo_socket)]"
  by (simp add: gw4_def track_def gw3_frame demo_socket_def New_def frameRateLimit_def frameRateWindow_def)

lemma gw4_resumable: "resumable gw4 (5, 0)"
  by code_simp

lemma gw7_recipients: "recipients_for length (\<lambda>_. Inr room5) demo_ev gw7 = Some [7]"
  by code_simp

definition seven :: "gateway \<Rightarrow> socket" where "seven g = the (map_of (gw_live g) 1)"

definition demo_hello :: inFrame where
  "demo_hello = \<lparr>if_Type = ''hello'', if_ID = [], if_Chan = None, if_TS = Some 0, if_Data = ''{''\<rparr>"

definition gw_greeted :: gateway where
  "gw_greeted = handleHello (gl_encodes demo_gl) (gl_hello demo_gl) (\<lambda>_. Inr room5) 30 1 demo_socket demo_hello gw4"

lemma present: "\<not> Option.is_none (map_of (gw_live g) 1) \<Longrightarrow> map_of (gw_live g) 1 = Some (seven g)"
  by (simp add: seven_def Option.is_none_def)

lemma gw7_seven: "map_of (gw_live gw7) 1 = Some (seven gw7)" by (rule present) code_simp
lemma gw8_seven: "map_of (gw_live gw8) 1 = Some (seven gw8)" by (rule present) code_simp
lemma greeted_seven: "map_of (gw_live gw_greeted) 1 = Some (seven gw_greeted)" by (rule present) code_simp

lemma gw_listening: "listening_run demo_gl 5 7 1 3 (None, gw5) (None, gw8)"
proof -
  have q: "gw_events gw6 = [demo_ev]"
    by (simp add: gw6_def gw5_def registerAndReplay_def Let_def enqueue_def gw4_def track_def gw3_frame eventQueue_def split: option.split)
  have there: "map_of (gw_live gw6) 1 \<noteq> None" "map_of (gw_live gw7) 1 \<noteq> None" "map_of (gw_live gw8) 1 \<noteq> None"
    using gw7_seven gw8_seven by (auto simp: gw7_def)
  have 1: "gateway_step demo_gl (None, gw5) (None, gw6)" unfolding gw6_def by (rule announce [OF demo_ev_realtime])
  note 2 = demo_publish [OF q gw7_recipients [unfolded gw7_def], folded gw7_def]
  have "listening_run demo_gl 5 7 1 (Suc 0) (None, gw5) (None, gw6)"
    by (rule listening_more [OF listening_refl 1]) (use there in simp_all)
  then have "listening_run demo_gl 5 7 1 (Suc (Suc 0)) (None, gw5) (Some (demo_ev, [7]), gw7)"
    by (rule listening_more [OF _ 2(1)]) (use there in simp_all)
  then have "listening_run demo_gl 5 7 1 (Suc (Suc (Suc 0))) (None, gw5) (None, gw8)"
    by (rule listening_more [OF _ 2(2) [of gw7 40, folded gw8_def]]) (use there in simp_all)
  then show ?thesis by (simp add: numeral_eq_Suc)
qed

section \<open>Properties\<close>

text \<open>
  C10. An event reaches only the people it is for. Whoever the recipients of an event are settled to be, and
  whatever state the gateway is in when it is sent: a socket whose queue or resync list the delivery
  changes is a registered socket of somebody entitled to the event in a database the delivery read (a
  member of the channel, the named person, and for a presence change the other half of a direct message),
  who is not the excluded user and has subscribed where the event asks for it, and what it gets is the
  event.
\<close>

theorem only_members_hear:
  assumes "map_of (gw_live g) sid = Some s" "map_of (gw_live h) sid = Some t" "so_out t \<noteq> so_out s \<or> so_resync t \<noteq> so_resync s"
    and "\<not> ev_dmFanout ev \<and> (\<exists>us. recipients_for collate qs ev before = Some us \<and> h = publish encodes now ev us g) \<or>
         ev_dmFanout ev \<and> h = deliverPresence encodes qs now ev g"
  shows "so_reg s \<and> entitled qs ev (so_user s) \<and>
     (\<not> ev_dmFanout ev \<longrightarrow> listens ev s) \<and>
     grows (if ev_dmFanout ev then PresenceData (ev_subject ev) (ev_state ev) else ev_payload ev) s t"
  using assms(4)
proof (elim disjE conjE exE)
  fix us
  assume us: "\<not> ev_dmFanout ev" "recipients_for collate qs ev before = Some us" "h = publish encodes now ev us g"
  have "grows (ev_payload ev) s t" "so_user s \<in> set us" "listens ev s"
    using publish_grows [OF assms(1), of encodes now ev us] assms(2,3) us(3) by auto
  then show ?thesis using us recipients_entitled [OF us(2) _ us(1)] by (simp add: listens_def)
next
  assume h: "ev_dmFanout ev" "h = deliverPresence encodes qs now ev g"
  then show ?thesis using deliverPresence_grows [OF assms(1), of encodes qs now ev] assms(2,3) by (auto simp: entitled_def)
qed

theorem only_members_hear_witness:
  "so_out (seven gw8) \<noteq> so_out (seven gw7) \<and> so_reg (seven gw7) \<and> entitled (\<lambda>_. Inr room5) demo_ev (so_user (seven gw7)) \<and>
   listens demo_ev (seven gw7) \<and> grows (ev_payload demo_ev) (seven gw7) (seven gw8)"
proof -
  have "length (so_out (seven gw8)) \<noteq> length (so_out (seven gw7))" by code_simp
  then have "so_out (seven gw8) \<noteq> so_out (seven gw7)" by metis
  then show ?thesis
    using only_members_hear [OF gw7_seven gw8_seven, of demo_ev length "\<lambda>_. Inr room5" gw7 "\<lambda>_. True" 40] gw7_recipients
    by (simp add: demo_ev_fields gw8_def)
qed

text \<open>
  C11. Resuming is not a way around membership. In every state the gateway can reach, whatever a client asks
  to resume in its hello: every numbered event of a channel that the answer queues for it belongs to a
  channel its user is a member of, in a database read while the hello was handled.
\<close>

theorem replay_members_only:
  assumes "gateway_run lib n (None, new_gateway) (fl, g)" "\<forall>f. gl_encodes lib f" "n < 2 ^ 64"
    and "map_of (gw_live g) sid = Some s" "\<not> so_reg s"
    and "\<forall>k db. qs k = Inr db \<longrightarrow> (\<forall>r \<in> set (channels db). c_id r \<noteq> 0)"
    and "map_of (gw_live (handleHello (gl_encodes lib) (gl_hello lib) qs now sid s f g)) sid = Some t"
    and "x \<in> set (so_out t)" "of_Chan x = Some c" "of_Seq x \<noteq> None"
  shows "x \<in> set (so_out s) \<or> member_seen qs c (so_user s)"
proof (cases "\<exists>reqs. gl_hello lib (if_Data f) = Some (protocolVersion, reqs)")
  case False
  then have "so_out t = so_out s" using assms(4,7)
    by (auto simp: handleHello_def socket_maps shutdown_def split: option.splits if_splits)
  then show ?thesis using assms(8) by simp
next
  case True
  then obtain reqs where reqs: "gl_hello lib (if_Data f) = Some (protocolVersion, reqs)" by blast
  have ok: "gateway_ok n (fl, g)" by (rule gateway_ok_run [OF assms(1-3)])
  define cands where "cands = fst (resolveResume qs (so_user s) (so_admin s) reqs)"
  obtain s1 where s1: "set (so_out s1) \<subseteq> set (so_out s) \<union> {y. of_Seq y = None}"
    and t: "so_out t = so_out (fold (\<lambda>req. deliver_all (fst req) (replay_of g req)) (filter (resumable g) cands) s1)"
    using greeted_out [OF reqs assms(4,7)] unfolding cands_def by blast
  show ?thesis
  proof (cases "x \<in> set (so_out s1)")
    case True
    then show ?thesis using s1 assms(10) by auto
  next
    case False
    then obtain r where r: "r \<in> set cands" "resumable g r" "x \<in> set (replay_of g r)"
      using assms(8) replay_out [of g "filter (resumable g) cands" s1] by (auto simp: t)
    obtain k where "canRead qs k (so_user s) (so_admin s) (fst r) = Inr True"
      using r(1) resolve_seen unfolding cands_def resolveResume_def by blast
    note seen = canRead_seen [OF this]
    then have "fst r \<noteq> 0" using assms(6) by metis
    then have "numbered_on (fst r) x" using replay_frames(2) [OF ok assms(3), of "fst r" "snd r"] r(2,3) by simp
    then show ?thesis using seen assms(9) by (simp add: numbered_on_def)
  qed
qed

theorem replay_members_only_witness:
  "of_Chan (last (so_out (seven gw_greeted))) = Some 5 \<and> member_seen (\<lambda>_. Inr room5) 5 7"
proof -
  have last: "of_Chan (last (so_out (seven gw_greeted))) = Some 5" "of_Seq (last (so_out (seven gw_greeted))) \<noteq> None"
    "length (so_out (seven gw_greeted)) = 2" by code_simp+
  then have "last (so_out (seven gw_greeted)) \<in> set (so_out (seven gw_greeted))" by (intro last_in_set) auto
  moreover have "\<forall>r \<in> set (channels room5). c_id r \<noteq> 0" by (simp add: room5_def)
  ultimately have "last (so_out (seven gw_greeted)) \<in> set (so_out demo_socket) \<or> member_seen (\<lambda>_. Inr room5) 5 (so_user demo_socket)"
    using replay_members_only [OF gw_run, of 1 demo_socket "\<lambda>_. Inr room5" 30 demo_hello "seven gw_greeted"] greeted_seven last gw4_live
    by (simp add: gw_greeted_def demo_gl_def demo_socket_def)
  then show ?thesis using last by (simp add: demo_socket_def)
qed

text \<open>
  C9. A resumed client misses nothing. Take any state the gateway can reach and a client whose hello resumes
  channel \<open>c\<close> from number \<open>q\<close>. As long as the client is connected and its user is among the recipients the
  dispatcher settles on for the channel's events, whatever else happens in between, in any order: the
  numbered events of the channel on its wire and in its queue are exactly those after \<open>q\<close> up to the newest,
  in order, or the client has been told, or is about to be told, to backfill the channel.
\<close>

theorem resume_then_live:
  assumes "gateway_run lib n (None, new_gateway) (fl, g)" "\<forall>f. gl_encodes lib f"
    and "map_of (gw_live g) sid = Some s" "\<not> so_reg s"
    and "distinct (map fst cands)" "0 \<notin> fst ` set cands" "(c, q) \<in> set cands" "resumable g (c, q)"
    and "listening_run lib c (so_user s) sid m (fl, snd (registerAndReplay (gl_encodes lib) now corr sid s cands extra g)) (fl', h)"
    and "n + m < 2 ^ 64"
  shows "\<exists>t. map_of (gw_live h) sid = Some t \<and>
     (told c t \<or> sorted (numbers c t) \<and> set (numbers c t) = {unat q<..unat (rb_lastSeq (channel_buffer h c))})"
proof -
  let ?g1 = "snd (registerAndReplay (gl_encodes lib) now corr sid s cands extra g)"
  have n: "n < 2 ^ 64" and c: "c \<noteq> 0" using assms(6,7,10) by force+
  have ok: "gateway_ok n (fl, g)" by (rule gateway_ok_run [OF assms(1,2) n])
  have start: "\<exists>t. map_of (gw_live ?g1) sid = Some t \<and> so_reg t \<and> so_user t = so_user s \<and> keeps_up c (unat q) ?g1 t"
    using registered_keeps_up [OF ok n assms(3-8)] by blast
  have buf: "channel_buffer ?g1 k = channel_buffer g k" for k by (simp add: registerAndReplay_def Let_def channel_buffer_def)
  have "newcomers_ok k ?g1" if "newcomers_ok k g" for k
    using that by (auto simp: newcomers_ok_def registered_live socket_maps split: if_splits)
  then have ok1: "gateway_ok n (fl, ?g1)" using ok buf
    by (simp add: gateway_ok_def channel_ok_def registerAndReplay_def Let_def)
  have le: "unat q \<le> unat (rb_lastSeq (channel_buffer ?g1 c))" using replay_frames(3) [OF ok n assms(8) c] buf by simp
  show ?thesis using listening_keeps_up [OF assms(9,2) c ok1 assms(10) start le] by (auto simp: keeps_up_def)
qed

theorem resume_then_live_witness:
  "\<exists>t. map_of (gw_live gw8) 1 = Some t \<and>
     (told 5 t \<or> sorted (numbers 5 t) \<and> set (numbers 5 t) = {0<..unat (rb_lastSeq (channel_buffer gw8 5))})"
  using resume_then_live [OF gw_run, of 1 demo_socket "[(5, 0)]" 5 0 3 30 "[]" "[]" None gw8] gw_listening gw4_live gw4_resumable
  by (simp add: demo_gl_def demo_socket_def gw5_def)

text \<open>
  A second event is taken by the dispatcher while nobody is connected, so it is settled to go to nobody; user
  7 connects and resumes before it is numbered and sent.
\<close>

definition late1 :: gateway where "late1 = enqueue demo_ev gw3"
definition late2 :: gateway where "late2 = late1\<lparr>gw_events := []\<rparr>"
definition late3 :: gateway where "late3 = track 1 7 False 3 20 late2"
definition late4 :: gateway where
  "late4 = read_turn (gl_encodes demo_gl) (gl_unmarshal demo_gl) (gl_hello demo_gl) (gl_stateOf demo_gl) (\<lambda>_. Inr room5) 30 1 ''{}'' late3"
definition late5 :: gateway where "late5 = publish (\<lambda>_. True) 40 demo_ev [] late4"

lemma late_run: "gateway_run demo_gl 8 (None, new_gateway) (None, late5)"
proof -
  have 1: "gateway_step demo_gl (None, new_gateway) (None, gw1)" unfolding gw1_def by (rule announce [OF demo_ev_realtime])
  have q: "gw_events gw1 = [demo_ev]" "gw_events late1 = [demo_ev]"
    by (simp_all add: gw1_def late1_def enqueue_def new_gateway_def eventQueue_def gw3_frame)
  have r: "recipients_for length (\<lambda>_. Inr room5) demo_ev (gw1\<lparr>gw_events := []\<rparr>) = Some []"
    "recipients_for length (\<lambda>_. Inr room5) demo_ev (late1\<lparr>gw_events := []\<rparr>) = Some []"
    by (simp_all add: recipients_for_def connected_def gw1_def late1_def enqueue_def new_gateway_def gw3_frame)
  have 4: "gateway_step demo_gl (None, gw3) (None, late1)" unfolding late1_def by (rule announce [OF demo_ev_realtime])
  have 6: "gateway_step demo_gl (Some (demo_ev, []), late2) (Some (demo_ev, []), late3)" unfolding late3_def
    by (rule join) (simp add: late2_def late1_def gw3_frame)
  have 7: "gateway_step demo_gl (Some (demo_ev, []), late3) (Some (demo_ev, []), late4)" unfolding late4_def by (rule read_frame)
  have "gateway_run demo_gl (Suc (Suc (Suc (Suc (Suc (Suc (Suc (Suc 0)))))))) (None, new_gateway) (None, late5)"
    by (rule gateway_more gateway_refl 1 4 6 7 demo_publish(1) [OF q(1) r(1), folded gw2_def]
      demo_publish(2) [OF q(1) r(1), of gw2 10, folded gw3_def] demo_publish(1) [OF q(2) r(2), folded late2_def]
      demo_publish(2) [OF q(2) r(2), of late4 40, folded late5_def])+
  then show ?thesis by (simp add: numeral_eq_Suc)
qed

text \<open>
  An event can fall between the replay and the live stream. There is a run after which a member's client
  is connected, its hello was answered with the channel resumed from number 1, the channel's newest event
  has number 2, and the client has neither got that event nor been told to backfill: the dispatcher had
  settled the recipients before the client registered, and numbered and sent the event afterwards.
\<close>

theorem event_falls_through:
  "gateway_run demo_gl 8 (None, new_gateway) (None, late5) \<and>
   map_of (gw_live late5) 1 = Some (seven late5) \<and> so_reg (seven late5) \<and> IsChannelMember 5 (so_user (seven late5)) room5 \<and>
   of_Data (hd (so_out (seven late5))) = HelloOKData 7 3 [(5, 1)] [] \<and> rb_lastSeq (channel_buffer late5 5) = 2 \<and>
   stream 5 (seven late5) = [] \<and> \<not> told 5 (seven late5)"
proof (intro conjI)
  show "gateway_run demo_gl 8 (None, new_gateway) (None, late5)" by (rule late_run)
  show "map_of (gw_live late5) 1 = Some (seven late5)" by (rule present) code_simp
  show "so_reg (seven late5)" "IsChannelMember 5 (so_user (seven late5)) room5" by code_simp+
  show "rb_lastSeq (channel_buffer late5 5) = 2" by code_simp
  show "\<not> told 5 (seven late5)" by code_simp
  have "length (stream 5 (seven late5)) = 0" by code_simp
  then show "stream 5 (seven late5) = []" by simp
  have "(case of_Data (hd (so_out (seven late5))) of HelloOKData u f rs xs \<Rightarrow> u = 7 \<and> f = 3 \<and> rs = [(5, 1)] \<and> xs = [] | _ \<Rightarrow> False)"
    by code_simp
  then show "of_Data (hd (so_out (seven late5))) = HelloOKData 7 3 [(5, 1)] []" by (simp split: payload.splits)
qed


end
