(* ===== verification/Web.thy ===== *)
theory Web
  imports Gateway Account_Store Go_Encoding
begin

text \<open>
  What the HTTP handlers of \<^verbatim>\<open>server/internal/httpserver\<close> share: answers and early returns (\<^verbatim>\<open>errors.go\<close>), the
  text rules (\<^verbatim>\<open>text.go\<close>), page limits and cursors (\<^verbatim>\<open>channel_handlers.go\<close>), and the way a handler reaches the
  store while other requests run.

  A handler is a function on the \<open>site\<close>: the database, the number of store calls made so far, and what the
  handler set off (realtime events, ejections from calls, preview jobs). A value \<open>Inl r\<close> is an answer already
  written. Before the \<open>k\<close>-th store call the rest of the system acts on the database as \<open>ce_mid k\<close> says, and
  the call is answered, or fails before it took effect (\<open>Down\<close>), or takes effect and its answer is lost
  (\<open>Lost\<close>). The body of a request is what \<open>decodeJSON\<close> decoded; \<open>None\<close> is a body it refused.
\<close>

section \<open>Printing limits\<close>

text \<open>Decimal printing on binary numbers, so that the limits in the answers evaluate quickly.\<close>

function dec :: "int \<Rightarrow> string" where
  "dec n = (if n < 10 then [digit_char (nat n)] else dec (n div 10) @ [digit_char (nat (n mod 10))])"
  by pat_completeness auto
termination
  by (relation "measure nat") auto

declare dec.simps [simp del]

lemma dec_itoa: "0 \<le> n \<Longrightarrow> dec n = itoa (nat n)"
proof (induction n rule: dec.induct)
  case (1 n)
  show ?case
  proof (cases "n < 10")
    case True
    then have "nat n < 10" by simp
    with True show ?thesis by (simp add: dec.simps [of n] itoa.simps [of "nat n"])
  next
    case False
    then have "dec (n div 10) = itoa (nat n div 10)" using 1 by (simp add: nat_div_distrib)
    with False show ?thesis by (simp add: dec.simps [of n] itoa.simps [of "nat n"] nat_mod_distrib)
  qed
qed

lemma FormatInt_code [code]: "FormatInt n = (if n < 0 then CHR ''-'' # dec (- n) else dec n)"
  by (simp add: FormatInt_def dec_itoa)

section \<open>Answers\<close>

datatype 'b response = Json nat 'b | NoContent | Error nat string string

definition internalError :: "'b response" where
  "internalError = Error 500 ''internal_error'' ''internal server error''"

definition invalid :: "string \<Rightarrow> 'b response" where
  "invalid message = Error 400 ''invalid_request'' message"

definition malformed :: "'b response" where "malformed = invalid ''malformed request body''"

definition writeChannelNotFound :: "'b response" where
  "writeChannelNotFound = Error 404 ''channel_not_found'' ''no such channel''"

section \<open>The site and its environment\<close>

record site =
  si_db :: db
  si_calls :: nat
  si_sent :: "event list"
  si_ejected :: "(uuid \<times> uuid) list"
  si_enriched :: "(uuid \<times> Message) list"

datatype outage = Up | Down | Lost

text \<open>
  \<open>ce_clock\<close> and \<open>ce_ids\<close> are \<open>now()\<close> and \<open>gen_random_uuid()\<close> of the \<open>k\<close>-th call, \<open>ce_snapshot\<close> what the
  statement of an edit sees when the \<open>k\<close>-th call is one; a send makes several attempts
  inside one call, which the three \<open>ce_send\<close> fields describe. \<open>ce_citext\<close> is PostgreSQL's comparison,
  \<open>ce_parse\<close> and \<open>ce_String\<close> are \<open>uuid.Parse\<close> and \<open>String\<close>, \<open>ce_format\<close> and \<open>ce_parseTime\<close> are \<open>time.Format\<close> and
  \<open>time.Parse\<close> with \<open>RFC3339Nano\<close>, \<open>ce_signer\<close> is the server's file signer.
\<close>

record conv_env =
  ce_mid :: "nat \<Rightarrow> db \<Rightarrow> db"
  ce_outage :: "nat \<Rightarrow> outage"
  ce_clock :: "nat \<Rightarrow> instant"
  ce_ids :: "nat \<Rightarrow> uuid"
  ce_snapshot :: "nat \<Rightarrow> edit_snapshot"
  ce_send_mid :: "nat \<Rightarrow> nat \<Rightarrow> db \<Rightarrow> db"
  ce_send_clock :: "nat \<Rightarrow> nat \<Rightarrow> instant"
  ce_send_ids :: "nat \<Rightarrow> nat \<Rightarrow> uuid"
  ce_citext :: "string \<Rightarrow> string \<Rightarrow> bool"
  ce_parse :: "string \<Rightarrow> uuid option"
  ce_String :: "uuid \<Rightarrow> string"
  ce_format :: "instant \<Rightarrow> string"
  ce_parseTime :: "string \<Rightarrow> instant option"
  ce_wall :: instant
  ce_signer :: "(uuid \<Rightarrow> bool \<Rightarrow> string \<times> string option) option"
  ce_store :: bool
  ce_previews :: bool

type_synonym ('b, 'a) web = "site \<Rightarrow> ('b response + 'a) \<times> site"

definition give :: "'a \<Rightarrow> ('b, 'a) web" where
  "give a st = (Inr a, st)"

definition stop :: "'b response \<Rightarrow> ('b, 'a) web" where
  "stop r st = (Inl r, st)"

definition and_then :: "('b, 'a) web \<Rightarrow> ('a \<Rightarrow> ('b, 'c) web) \<Rightarrow> ('b, 'c) web" where
  "and_then m f st = (case m st of (Inl r, st1) \<Rightarrow> (Inl r, st1) | (Inr a, st1) \<Rightarrow> f a st1)"

text \<open>A check that answers, or yields a value.\<close>

definition checked :: "'b response + 'a \<Rightarrow> ('b, 'a) web" where
  "checked x st = (x, st)"

definition require :: "bool \<Rightarrow> 'b response \<Rightarrow> ('b, unit) web" where
  "require c r st = (if c then Inr () else Inl r, st)"

definition decodeJSON :: "'r option \<Rightarrow> ('b, 'r) web" where
  "decodeJSON body = (case body of None \<Rightarrow> stop malformed | Some r \<Rightarrow> give r)"

definition unavailable :: store_error where "unavailable = ErrOther ''connection lost''"

definition call :: "conv_env \<Rightarrow> (nat \<Rightarrow> db \<Rightarrow> (store_error + 'a) \<times> db) \<Rightarrow> ('b, store_error + 'a) web" where
  "call env f st =
     (let k = si_calls st; db = ce_mid env k (si_db st); (r, db1) = f k db
      in case ce_outage env k of
           Up \<Rightarrow> (Inr r, st\<lparr>si_db := db1, si_calls := Suc k\<rparr>)
         | Down \<Rightarrow> (Inr (Inl unavailable), st\<lparr>si_db := db, si_calls := Suc k\<rparr>)
         | Lost \<Rightarrow> (Inr (Inl unavailable), st\<lparr>si_db := db1, si_calls := Suc k\<rparr>))"

lemma call_eq:
  "call env f st =
     (let k = si_calls st; db = ce_mid env k (si_db st)
      in case ce_outage env k of
           Up \<Rightarrow> (Inr (fst (f k db)), st\<lparr>si_db := snd (f k db), si_calls := Suc k\<rparr>)
         | Down \<Rightarrow> (Inr (Inl unavailable), st\<lparr>si_db := db, si_calls := Suc k\<rparr>)
         | Lost \<Rightarrow> (Inr (Inl unavailable), st\<lparr>si_db := snd (f k db), si_calls := Suc k\<rparr>))"
  by (simp add: call_def Let_def case_prod_unfold)

definition ask :: "conv_env \<Rightarrow> (db \<Rightarrow> store_error + 'a) \<Rightarrow> ('b, store_error + 'a) web" where
  "ask env f = call env (\<lambda>k db. (f db, db))"

text \<open>The error of a store call, answered by the handler's own table; what it does not name is a 500.\<close>

definition or_answer :: "(store_error \<Rightarrow> 'b response option) \<Rightarrow> store_error + 'a \<Rightarrow> ('b, 'a) web" where
  "or_answer table r =
     (case r of
        Inr a \<Rightarrow> give a
      | Inl e \<Rightarrow> stop (case table e of Some answer \<Rightarrow> answer | None \<Rightarrow> internalError))"

definition tell :: "event \<Rightarrow> ('b, unit) web" where
  "tell ev st = (Inr (), st\<lparr>si_sent := si_sent st @ [ev]\<rparr>)"

definition eject :: "uuid \<Rightarrow> uuid \<Rightarrow> ('b, unit) web" where
  "eject ch uid st = (Inr (), st\<lparr>si_ejected := si_ejected st @ [(ch, uid)]\<rparr>)"

definition enrichPreview :: "conv_env \<Rightarrow> uuid \<Rightarrow> Message \<Rightarrow> ('b, unit) web" where
  "enrichPreview env ch m st =
     (Inr (), if ce_previews env then st\<lparr>si_enriched := si_enriched st @ [(ch, m)]\<rparr> else st)"

text \<open>What the client is answered, and the site the request leaves.\<close>

definition run :: "('b, 'b response) web \<Rightarrow> site \<Rightarrow> 'b response \<times> site" where
  "run m st = (case m st of (Inl r, st1) \<Rightarrow> (r, st1) | (Inr r, st1) \<Rightarrow> (r, st1))"

definition principalFrom :: "user_row option \<Rightarrow> ('b, user_row) web" where
  "principalFrom prin = (case prin of None \<Rightarrow> stop internalError | Some u \<Rightarrow> give u)"

definition requireStore :: "conv_env \<Rightarrow> ('b, unit) web" where
  "requireStore env = require (ce_store env) internalError"

section \<open>Text\<close>

text \<open>\<open>utf8.ValidString\<close>: decoding a byte outside ASCII without a byte after it is how an invalid one shows.\<close>

function valid_bytes :: "nat list \<Rightarrow> bool" where
  "valid_bytes [] = True"
| "valid_bytes (b # s) = (let (r, w) = decode_rune b s in (b < 0x80 \<or> w \<noteq> 0) \<and> valid_bytes (drop w s))"
  by pat_completeness auto
termination
  by (relation "measure length") auto

definition ValidString :: "string \<Rightarrow> bool" where
  "ValidString s = valid_bytes (map byte_of s)"

definition RuneCountInString :: "string \<Rightarrow> int" where
  "RuneCountInString s = int (length (go_runes s))"

definition hasControlRunes :: "string \<Rightarrow> bool" where
  "hasControlRunes s =
     list_ex (\<lambda>r. if r = 9 \<or> r = 10 \<or> r = 13 then False else r < 0x20 \<or> r = 0x7F) (go_runes s)"

definition storableText :: "string \<Rightarrow> bool" where
  "storableText s \<longleftrightarrow> ValidString s \<and> \<not> hasControlRunes s"

definition storableLine :: "string \<Rightarrow> bool" where
  "storableLine s \<longleftrightarrow> ValidString s \<and> \<not> list_ex (\<lambda>r. r < 0x20 \<or> r = 0x7F) (go_runes s)"

section \<open>Limits and cursors\<close>

definition defaultListLimit :: int where "defaultListLimit = 50"
definition maxListLimit :: int where "maxListLimit = 100"
definition maxChannelPageLimit :: int where "maxChannelPageLimit = 200"

definition pageLimit :: "int option \<Rightarrow> int \<Rightarrow> int \<Rightarrow> 'b response + nat" where
  "pageLimit requested def maxLimit =
     (case requested of
        None \<Rightarrow> Inr (nat def)
      | Some n \<Rightarrow> if n < 1 \<or> maxLimit < n then Inl (invalid (''limit must be between 1 and '' @ FormatInt maxLimit))
                  else Inr (nat n))"

definition writeInvalidCursor :: "'b response" where
  "writeInvalidCursor = invalid ''invalid pagination cursor''"

definition encodeCursor :: "conv_env \<Rightarrow> string \<Rightarrow> uuid \<Rightarrow> string" where
  "encodeCursor env key i = base64_EncodeToString (key @ ''|'' @ ce_String env i)"

text \<open>\<open>strings.Cut\<close>: around the first separator, when there is one.\<close>

definition Cut :: "char \<Rightarrow> string \<Rightarrow> (string \<times> string) option" where
  "Cut sep s = (case dropWhile (\<lambda>c. c \<noteq> sep) s of [] \<Rightarrow> None | _ # rest \<Rightarrow> Some (takeWhile (\<lambda>c. c \<noteq> sep) s, rest))"

definition decodeCursor :: "conv_env \<Rightarrow> string \<Rightarrow> (string \<times> uuid) option" where
  "decodeCursor env encoded =
     (case base64_DecodeString encoded of
        None \<Rightarrow> None
      | Some raw \<Rightarrow>
          (case Cut (CHR ''|'') raw of
             None \<Rightarrow> None
           | Some (key, idPart) \<Rightarrow> (case ce_parse env idPart of None \<Rightarrow> None | Some i \<Rightarrow> Some (key, i))))"

definition encodeTimeCursor :: "conv_env \<Rightarrow> instant \<Rightarrow> uuid \<Rightarrow> string" where
  "encodeTimeCursor env t i = encodeCursor env (ce_format env t) i"

definition decodeTimeCursor :: "conv_env \<Rightarrow> string \<Rightarrow> (instant \<times> uuid) option" where
  "decodeTimeCursor env encoded =
     (case decodeCursor env encoded of
        None \<Rightarrow> None
      | Some (key, i) \<Rightarrow> (case ce_parseTime env key of None \<Rightarrow> None | Some at \<Rightarrow> Some (at, i)))"

definition channelCursor :: "conv_env \<Rightarrow> string option \<Rightarrow> 'b response + (instant \<times> uuid) option" where
  "channelCursor env encoded =
     (case encoded of
        None \<Rightarrow> Inr None
      | Some s \<Rightarrow> (case decodeTimeCursor env s of None \<Rightarrow> Inl writeInvalidCursor | Some c \<Rightarrow> Inr (Some c)))"

section \<open>Padded base 64\<close>

text \<open>
  \<open>base64.StdEncoding\<close>: the last two symbols of the alphabet are plus and slash, and the text is padded to
  groups of four. \<open>DecodeString\<close> skips line breaks; padding stands at the end of the last group only.
\<close>

definition std_char :: "char \<Rightarrow> char" where
  "std_char c = (if c = CHR ''-'' then CHR ''+'' else if c = CHR ''_'' then CHR ''/'' else c)"

definition url_char :: "char \<Rightarrow> char option" where
  "url_char c = (if c = CHR ''-'' \<or> c = CHR ''_'' then None else if c = CHR ''+'' then Some (CHR ''-'')
     else if c = CHR ''/'' then Some (CHR ''_'') else Some c)"

definition std_EncodeToString :: "bytes \<Rightarrow> string" where
  "std_EncodeToString s =
     (let t = map std_char (base64_EncodeToString s) in t @ replicate ((4 - length t mod 4) mod 4) (CHR ''=''))"

definition std_DecodeString :: "string \<Rightarrow> bytes option" where
  "std_DecodeString s =
     (let t = filter (\<lambda>c. c \<noteq> CHR 0x0A \<and> c \<noteq> CHR 0x0D) s;
          d = takeWhile (\<lambda>c. c \<noteq> CHR ''='') t; p = dropWhile (\<lambda>c. c \<noteq> CHR ''='') t
      in if p = [] \<and> length d mod 4 = 0 \<or> p = ''='' \<and> length d mod 4 = 3 \<or> p = ''=='' \<and> length d mod 4 = 2
         then (case all_some (map url_char d) of None \<Rightarrow> None | Some u \<Rightarrow> base64_DecodeString u)
         else None)"

definition decodeBlob :: "string \<Rightarrow> string \<Rightarrow> int \<Rightarrow> 'b response + bytes" where
  "decodeBlob encoded field maxLen =
     (if encoded = [] \<or> maxLen < int (length encoded)
      then Inl (invalid (field @ '' must be 1 to '' @ FormatInt maxLen @ '' base64 characters''))
      else case std_DecodeString encoded of
             None \<Rightarrow> Inl (invalid (field @ '' must be base64''))
           | Some blob \<Rightarrow> Inr blob)"

end
