(* ===== verification/Conversations.thy ===== *)
theory Conversations
  imports Web
begin

text \<open>
  The conversation handlers: \<^verbatim>\<open>server/internal/httpserver/channel_handlers.go\<close>, \<^verbatim>\<open>message_handlers.go\<close> and the
  anti-downgrade boundary \<^verbatim>\<open>e2ee.go\<close>, with \<^verbatim>\<open>api/serialize.go\<close>. A method of \<open>apiServer\<close> keeps its name after the
  prefix \<open>api_\<close>. Each asks \<open>Can\<close> for its decision and makes the store calls of the source, in their order.
\<close>

section \<open>Requests and answers\<close>

record CreateChannelRequest =
  ccr_Slug :: string
  ccr_Kind :: string
  ccr_Topic :: "string option"
  ccr_E2ee :: "bool option"

record OpenDirectMessageRequest =
  odr_UserId :: uuid
  odr_E2ee :: "bool option"

record MlsMessageEnvelope =
  me_Epoch :: int
  me_Ciphertext :: string
  me_Mentions :: "uuid list option"

record SendMessageRequest =
  smr_ClientMsgId :: uuid
  smr_Content :: string
  smr_AttachmentIds :: "uuid list option"
  smr_Mls :: "MlsMessageEnvelope option"

record EditMessageRequest =
  emr_Content :: string
  emr_Mls :: "MlsMessageEnvelope option"

record page_params =
  pp_Before :: "string option"
  pp_After :: "string option"
  pp_Around :: "string option"
  pp_Limit :: "int option"

record APIUserSummary =
  us_Id :: uuid
  us_Username :: string
  us_DisplayName :: string

record APIChannel =
  ac_Id :: uuid
  ac_Kind :: string
  ac_E2ee :: bool
  ac_Slug :: "string option"
  ac_Topic :: string
  ac_MemberCount :: nat
  ac_UnreadCount :: nat
  ac_MentionCount :: nat
  ac_LastReadMessageId :: "uuid option"
  ac_LastMessageAt :: "instant option"
  ac_CreatedBy :: "uuid option"
  ac_CreatedAt :: instant
  ac_DmPeer :: "APIUserSummary option"

record APIAttachment =
  aa_Id :: uuid
  aa_Filename :: string
  aa_ContentType :: string
  aa_SizeBytes :: int
  aa_Dims :: "(int \<times> int) option"
  aa_Url :: string
  aa_ThumbnailUrl :: "string option"

record APILinkPreview =
  al_Url :: string
  al_Title :: "string option"
  al_Description :: "string option"
  al_ImageUrl :: "string option"

record APIMessage =
  am_Id :: uuid
  am_ChannelId :: uuid
  am_Author :: APIUserSummary
  am_ClientMsgId :: uuid
  am_Content :: string
  am_CreatedAt :: instant
  am_EditedAt :: "instant option"
  am_DeletedAt :: "instant option"
  am_Attachments :: "APIAttachment list"
  am_LinkPreview :: "APILinkPreview option"
  am_Mls :: "MlsMessageEnvelope option"

datatype conv_body =
    ChannelBody APIChannel
  | ChannelPageBody "APIChannel list" "string option"
  | MemberPageBody "APIUserSummary list" "string option"
  | MessageBody APIMessage
  | MessagePageBody "APIMessage list" "string option" "string option"

section \<open>Serialization\<close>

definition apiUserSummary :: "user_row \<Rightarrow> APIUserSummary" where
  "apiUserSummary u = \<lparr>us_Id = u_id u, us_Username = u_username u, us_DisplayName = u_display_name u\<rparr>"

definition apiChannel :: "Channel \<Rightarrow> APIChannel" where
  "apiChannel ch =
     \<lparr>ac_Id = ch_ID ch, ac_Kind = ch_Kind ch, ac_E2ee = ch_E2EE ch, ac_Slug = ch_Slug ch, ac_Topic = ch_Topic ch,
      ac_MemberCount = ch_MemberCount ch, ac_UnreadCount = ch_UnreadCount ch, ac_MentionCount = ch_MentionCount ch,
      ac_LastReadMessageId = ch_LastReadMessageID ch, ac_LastMessageAt = ch_LastMessageAt ch,
      ac_CreatedBy = ch_CreatedBy ch, ac_CreatedAt = ch_CreatedAt ch,
      ac_DmPeer = map_option (\<lambda>p. \<lparr>us_Id = dp_ID p, us_Username = dp_Username p, us_DisplayName = dp_DisplayName p\<rparr>)
                    (ch_DMPeer ch)\<rparr>"

definition AttachmentOf :: "(uuid \<Rightarrow> bool \<Rightarrow> string \<times> string option) option \<Rightarrow> Attachment \<Rightarrow> APIAttachment" where
  "AttachmentOf signer a =
     (let (url, thumb) = (case signer of None \<Rightarrow> ([], None) | Some sign \<Rightarrow> sign (a_ID a) (a_HasThumbnail a))
      in \<lparr>aa_Id = a_ID a, aa_Filename = a_Filename a, aa_ContentType = a_ContentType a, aa_SizeBytes = a_SizeBytes a,
          aa_Dims = a_Dims a, aa_Url = url, aa_ThumbnailUrl = thumb\<rparr>)"

definition LinkPreviewOf ::
  "(uuid \<Rightarrow> bool \<Rightarrow> string \<times> string option) option \<Rightarrow> LinkPreview option \<Rightarrow> APILinkPreview option" where
  "LinkPreviewOf signer preview =
     map_option (\<lambda>p. \<lparr>al_Url = l_URL p, al_Title = nullableText (l_Title p), al_Description = nullableText (l_Description p),
       al_ImageUrl = (if l_ImageBlobID p = 0 then None
                      else map_option (\<lambda>sign. fst (sign (l_ImageBlobID p) False)) signer)\<rparr>) preview"

definition MlsEnvelopeOf :: "MessageMls option \<Rightarrow> MlsMessageEnvelope option" where
  "MlsEnvelopeOf mls =
     map_option (\<lambda>e. \<lparr>me_Epoch = mm_Epoch e, me_Ciphertext = std_EncodeToString (mm_Ciphertext e), me_Mentions = None\<rparr>) mls"

definition MessageOf :: "(uuid \<Rightarrow> bool \<Rightarrow> string \<times> string option) option \<Rightarrow> Message \<Rightarrow> APIMessage" where
  "MessageOf signer m =
     \<lparr>am_Id = ms_ID m, am_ChannelId = ms_ChannelID m,
      am_Author = \<lparr>us_Id = ma_ID (ms_Author m), us_Username = ma_Username (ms_Author m),
                   us_DisplayName = ma_DisplayName (ms_Author m)\<rparr>,
      am_ClientMsgId = ms_ClientMsgID m, am_Content = ms_Content m, am_CreatedAt = ms_CreatedAt m,
      am_EditedAt = ms_EditedAt m, am_DeletedAt = ms_DeletedAt m,
      am_Attachments = map (AttachmentOf signer) (ms_Attachments m), am_LinkPreview = LinkPreviewOf signer (ms_Preview m),
      am_Mls = MlsEnvelopeOf (ms_Mls m)\<rparr>"

definition apiMessage :: "conv_env \<Rightarrow> Message \<Rightarrow> APIMessage" where
  "apiMessage env m = MessageOf (ce_signer env) m"

definition apiMessagePage :: "conv_env \<Rightarrow> MessagePage \<Rightarrow> conv_body" where
  "apiMessagePage env page =
     (let msgs = pg_Messages page; out = map (apiMessage env) msgs
      in if msgs = [] then MessagePageBody out None None
         else MessagePageBody out
           (if pg_HasBefore page then Some (encodeTimeCursor env (ms_CreatedAt (hd msgs)) (ms_ID (hd msgs))) else None)
           (if pg_HasAfter page then Some (encodeTimeCursor env (ms_CreatedAt (last msgs)) (ms_ID (last msgs))) else None))"

section \<open>The caller and the conversation\<close>

record channelScope =
  sc_prin :: user_row
  sc_channel :: Channel
  sc_member :: bool

definition resolveChannel :: "conv_env \<Rightarrow> user_row option \<Rightarrow> uuid \<Rightarrow> ('b, channelScope) web" where
  "resolveChannel env prin channelID =
     and_then (principalFrom prin) (\<lambda>u.
     and_then (requireStore env) (\<lambda>_.
     and_then (ask env (ChannelForUser channelID (u_id u))) (\<lambda>r.
     and_then (or_answer (\<lambda>e. if e = ErrChannelNotFound then Some writeChannelNotFound else None) r) (\<lambda>ch.
     and_then (ask env (\<lambda>db. Inr (IsChannelMember channelID (u_id u) db))) (\<lambda>q.
     and_then (or_answer (\<lambda>_. None) q) (\<lambda>member.
     give \<lparr>sc_prin = u, sc_channel = ch, sc_member = member\<rparr>))))))"

text \<open>The user and the channel as the authorization rules see them.\<close>

definition caller :: "user_row \<Rightarrow> authz_user option" where
  "caller u = Some \<lparr>au_id = u_id u, IsAdmin = u_is_admin u\<rparr>"

definition sc_resource :: "channelScope \<Rightarrow> channel_res" where
  "sc_resource sc =
     Authz.NewChannel \<lparr>ch_id = ch_ID (sc_channel sc), ch_created_by = ch_CreatedBy (sc_channel sc)\<rparr> (u_id (sc_prin sc)) (sc_member sc)"

definition deny :: "channelScope \<Rightarrow> 'b response" where
  "deny sc = (if \<not> sc_member sc then writeChannelNotFound else Error 403 ''forbidden'' ''not allowed'')"

definition allowed :: "channelScope \<Rightarrow> action \<Rightarrow> ('b, unit) web" where
  "allowed sc act = require (Can (caller (sc_prin sc)) act (ChannelRes (sc_resource sc))) (deny sc)"

definition resolveMessage :: "conv_env \<Rightarrow> channelScope \<Rightarrow> uuid \<Rightarrow> ('b, Message) web" where
  "resolveMessage env sc messageID =
     and_then (require (sc_member sc) (deny sc)) (\<lambda>_.
     and_then (ask env (MessageByID (ch_ID (sc_channel sc)) messageID)) (\<lambda>r.
     or_answer (\<lambda>e. if e = ErrNotFound then Some writeChannelNotFound else None) r))"

definition messageResource :: "channelScope \<Rightarrow> Message \<Rightarrow> message_res" where
  "messageResource sc msg = \<lparr>msg_channel = sc_resource sc, Author = (ma_ID (ms_Author msg) = u_id (sc_prin sc))\<rparr>"

definition denyMessage :: "channelScope \<Rightarrow> string \<Rightarrow> string \<Rightarrow> 'b response" where
  "denyMessage sc code message = (if \<not> sc_member sc then deny sc else Error 403 code message)"

section \<open>Encryption at birth and at the boundary\<close>

definition EncryptionMode :: "db \<Rightarrow> store_error + string" where
  "EncryptionMode db = Inr (encryption_mode (org_settings db))"

definition EncryptionModeCompliance :: string where "EncryptionModeCompliance = ''compliance''"

definition e2eeAtBirth :: "conv_env \<Rightarrow> bool option \<Rightarrow> ('b, bool) web" where
  "e2eeAtBirth env asserted =
     and_then (ask env EncryptionMode) (\<lambda>r.
     and_then (or_answer (\<lambda>_. None) r) (\<lambda>mode.
       let encrypted = (mode \<noteq> EncryptionModeCompliance)
       in if asserted = None \<or> asserted = Some encrypted then give encrypted
          else if encrypted
          then stop (Error 400 ''e2ee_required_by_org'' ''this organisation creates only end-to-end encrypted conversations'')
          else stop (Error 400 ''e2ee_forbidden_by_org'' ''this organisation creates only conversations it can retain and export'')))"

definition maxDeclaredMentions :: int where "maxDeclaredMentions = 50"
definition maxCiphertextB64 :: int where "maxCiphertextB64 = 45000"

definition declaredMentions :: "uuid list option \<Rightarrow> 'b response + uuid list" where
  "declaredMentions declared =
     (case declared of
        None \<Rightarrow> Inr []
      | Some ids \<Rightarrow>
          if maxDeclaredMentions < int (length ids)
          then Inl (invalid (''mls.mentions must name at most '' @ FormatInt maxDeclaredMentions @ '' members''))
          else Inr ids)"

definition e2eeBody :: "bool \<Rightarrow> string \<Rightarrow> MlsMessageEnvelope option \<Rightarrow> 'b response + MessageMls option" where
  "e2eeBody e2ee content mls =
     (if \<not> e2ee then
        (if mls \<noteq> None then Inl (Error 400 ''e2ee_not_enabled'' ''this channel is not end-to-end encrypted'')
         else Inr None)
      else
        (case mls of
           None \<Rightarrow> Inl (Error 400 ''e2ee_required'' ''this channel is end-to-end encrypted; mls is required'')
         | Some e \<Rightarrow>
             if content \<noteq> [] then Inl (Error 400 ''e2ee_required'' ''this channel is end-to-end encrypted; content must be empty'')
             else if me_Epoch e < 0 then Inl (invalid ''mls.epoch must not be negative'')
             else (case decodeBlob (me_Ciphertext e) ''mls.ciphertext'' maxCiphertextB64 of
                     Inl r \<Rightarrow> Inl r
                   | Inr ciphertext \<Rightarrow>
                       (case declaredMentions (me_Mentions e) of
                          Inl r \<Rightarrow> Inl r
                        | Inr mentions \<Rightarrow>
                            Inr (Some \<lparr>mm_Epoch = me_Epoch e, mm_Ciphertext = ciphertext, mm_Mentions = mentions\<rparr>)))))"

section \<open>Channels\<close>

definition maxTopicLen :: int where "maxTopicLen = 250"
definition minSlugLen :: int where "minSlugLen = 2"
definition maxSlugLen :: int where "maxSlugLen = 64"

text \<open>\<open>^[a-z0-9][a-z0-9_-]*$\<close>.\<close>

definition slug_first :: "char \<Rightarrow> bool" where
  "slug_first c \<longleftrightarrow> 97 \<le> byte_of c \<and> byte_of c \<le> 122 \<or> 48 \<le> byte_of c \<and> byte_of c \<le> 57"

definition slugPattern :: "string \<Rightarrow> bool" where
  "slugPattern s = (case s of [] \<Rightarrow> False | c # cs \<Rightarrow>
     slug_first c \<and> list_all (\<lambda>c. slug_first c \<or> c = CHR ''_'' \<or> c = CHR ''-'') cs)"

definition topic_refusal :: "string \<Rightarrow> 'b response option" where
  "topic_refusal topic =
     (if \<not> storableText topic then Some (invalid ''topic must be text that can be stored and returned unchanged'')
      else if maxTopicLen < RuneCountInString topic
      then Some (invalid (''topic must be at most '' @ FormatInt maxTopicLen @ '' characters''))
      else None)"

definition validateCreateChannel :: "CreateChannelRequest \<Rightarrow> uuid \<Rightarrow> 'b response + Channel_Store.NewChannel" where
  "validateCreateChannel req creator =
     (let n = RuneCountInString (ccr_Slug req)
      in if n < minSlugLen \<or> maxSlugLen < n
         then Inl (invalid (''slug must be '' @ FormatInt minSlugLen @ '' to '' @ FormatInt maxSlugLen @ '' characters''))
         else if \<not> slugPattern (ccr_Slug req)
         then Inl (invalid ''slug may contain lowercase letters, digits, '_' and '-', and must start with a letter or digit'')
         else if ccr_Kind req \<noteq> ChannelKindPublic \<and> ccr_Kind req \<noteq> ChannelKindPrivate
         then Inl (invalid ''kind must be one of: public, private'')
         else
           (let nc = \<lparr>nc_Kind = ccr_Kind req, nc_Slug = ccr_Slug req, nc_Topic = [], nc_E2EE = False, nc_CreatedBy = creator\<rparr>
            in case ccr_Topic req of
                 None \<Rightarrow> Inr nc
               | Some topic \<Rightarrow> (case topic_refusal topic of Some r \<Rightarrow> Inl r | None \<Rightarrow> Inr (nc\<lparr>nc_Topic := topic\<rparr>))))"

definition api_ListChannels :: "conv_env \<Rightarrow> user_row option \<Rightarrow> int option \<Rightarrow> string option \<Rightarrow> (conv_body, conv_body response) web" where
  "api_ListChannels env prin lim cursor =
     and_then (principalFrom prin) (\<lambda>u.
     and_then (requireStore env) (\<lambda>_.
     and_then (checked (pageLimit lim maxChannelPageLimit maxChannelPageLimit)) (\<lambda>limit.
     and_then (checked (channelCursor env cursor)) (\<lambda>after.
     and_then (ask env (\<lambda>db. Inr (ListChannelsForUser (u_id u) after (limit + 1) db))) (\<lambda>r.
     and_then (or_answer (\<lambda>_. None) r) (\<lambda>rows.
       let page = (if limit < length rows then take limit rows else rows);
           next = (if limit < length rows
                   then Some (encodeTimeCursor env (ch_CreatedAt (last page)) (ch_ID (last page))) else None)
       in give (Json 200 (ChannelPageBody (map apiChannel page) next))))))))"

definition api_CreateChannel :: "conv_env \<Rightarrow> user_row option \<Rightarrow> CreateChannelRequest option \<Rightarrow> (conv_body, conv_body response) web" where
  "api_CreateChannel env prin body =
     and_then (principalFrom prin) (\<lambda>u.
     and_then (requireStore env) (\<lambda>_.
     and_then (decodeJSON body) (\<lambda>req.
     and_then (checked (validateCreateChannel req (u_id u))) (\<lambda>nc.
     and_then (e2eeAtBirth env (ccr_E2ee req)) (\<lambda>e2ee.
     and_then (call env (\<lambda>k. CreateChannel (ce_citext env) (ce_clock env k) (ce_ids env k) (nc\<lparr>nc_E2EE := e2ee\<rparr>))) (\<lambda>r.
     and_then (or_answer (\<lambda>e. if e = ErrChannelSlugTaken
        then Some (Error 409 ''channel_slug_taken'' ''channel name is already taken'') else None) r) (\<lambda>ch.
     and_then (tell (ChannelCreated [u_id u] ch)) (\<lambda>_.
     give (Json 201 (ChannelBody (apiChannel ch)))))))))))"

definition announceInvitation :: "conv_env \<Rightarrow> uuid \<Rightarrow> uuid \<Rightarrow> ('b, unit) web" where
  "announceInvitation env channelID userID =
     and_then (ask env (ChannelForUser channelID userID)) (\<lambda>r.
       case r of Inl _ \<Rightarrow> give () | Inr ch \<Rightarrow> tell (ChannelCreated [userID] ch))"

definition api_OpenDirectMessage :: "conv_env \<Rightarrow> user_row option \<Rightarrow> OpenDirectMessageRequest option \<Rightarrow> (conv_body, conv_body response) web" where
  "api_OpenDirectMessage env prin body =
     and_then (principalFrom prin) (\<lambda>u.
     and_then (requireStore env) (\<lambda>_.
     and_then (decodeJSON body) (\<lambda>req.
     and_then (require (odr_UserId req \<noteq> 0) (invalid ''user_id is required'')) (\<lambda>_.
     and_then (e2eeAtBirth env (odr_E2ee req)) (\<lambda>e2ee.
     and_then (call env (\<lambda>k. OpenDirectMessage (ce_clock env k) (ce_ids env k) (u_id u) (odr_UserId req) e2ee)) (\<lambda>r.
     and_then (or_answer (\<lambda>e. if e = ErrDMWithSelf then Some (invalid ''a direct message needs two different users'')
        else if e = ErrNotFound then Some (Error 404 ''user_not_found'' ''no such user'') else None) r) (\<lambda>(ch, created).
     and_then (if created
        then and_then (tell (ChannelCreated [u_id u] ch)) (\<lambda>_. announceInvitation env (ch_ID ch) (odr_UserId req))
        else give ()) (\<lambda>_.
     give (Json (if created then 201 else 200) (ChannelBody (apiChannel ch)))))))))))"

definition api_GetChannel :: "conv_env \<Rightarrow> user_row option \<Rightarrow> uuid \<Rightarrow> (conv_body, conv_body response) web" where
  "api_GetChannel env prin channelID =
     and_then (resolveChannel env prin channelID) (\<lambda>sc.
     and_then (allowed sc ChannelRead) (\<lambda>_.
     give (Json 200 (ChannelBody (apiChannel (sc_channel sc))))))"

definition api_UpdateChannel :: "conv_env \<Rightarrow> user_row option \<Rightarrow> uuid \<Rightarrow> string option \<Rightarrow> (conv_body, conv_body response) web" where
  "api_UpdateChannel env prin channelID body =
     and_then (resolveChannel env prin channelID) (\<lambda>sc.
     and_then (allowed sc ChannelUpdate) (\<lambda>_.
     and_then (decodeJSON body) (\<lambda>topic.
     and_then (case topic_refusal topic of Some r \<Rightarrow> stop r | None \<Rightarrow> give ()) (\<lambda>_.
     and_then (call env (\<lambda>k. UpdateChannelTopic channelID topic)) (\<lambda>r.
     and_then (or_answer (\<lambda>e. if e = ErrDMHasNoTopic then Some (invalid ''a direct message has no topic'')
        else if e = ErrChannelNotFound then Some writeChannelNotFound else None) r) (\<lambda>updated.
     and_then (tell (ChannelUpdated channelID updated)) (\<lambda>_.
     and_then (ask env (ChannelForUser channelID (u_id (sc_prin sc)))) (\<lambda>q.
     and_then (or_answer (\<lambda>_. None) q) (\<lambda>ch.
     give (Json 200 (ChannelBody (apiChannel ch))))))))))))"

definition member_cursor :: "conv_env \<Rightarrow> string option \<Rightarrow> 'b response + (string \<times> uuid) option" where
  "member_cursor env cursor =
     (case cursor of
        None \<Rightarrow> Inr None
      | Some s \<Rightarrow> (case decodeCursor env s of None \<Rightarrow> Inl writeInvalidCursor | Some c \<Rightarrow> Inr (Some c)))"

definition api_ListChannelMembers ::
  "(string \<Rightarrow> 'k::linorder) \<Rightarrow> conv_env \<Rightarrow> user_row option \<Rightarrow> uuid \<Rightarrow> int option \<Rightarrow> string option \<Rightarrow> (conv_body, conv_body response) web" where
  "api_ListChannelMembers collate env prin channelID lim cursor =
     and_then (resolveChannel env prin channelID) (\<lambda>sc.
     and_then (allowed sc ChannelRead) (\<lambda>_.
     and_then (checked (pageLimit lim defaultListLimit maxListLimit)) (\<lambda>limit.
     and_then (checked (member_cursor env cursor)) (\<lambda>after.
     and_then (ask env (\<lambda>db. Inr (ListChannelMembers collate channelID after (limit + 1) db))) (\<lambda>r.
     and_then (or_answer (\<lambda>_. None) r) (\<lambda>rows.
       let page = (if limit < length rows then take limit rows else rows);
           next = (if limit < length rows
                   then Some (encodeCursor env (u_username (last page)) (u_id (last page))) else None)
       in give (Json 200 (MemberPageBody (map apiUserSummary page) next))))))))"

definition namedMember :: "conv_env \<Rightarrow> uuid \<Rightarrow> ('b, user_row option) web" where
  "namedMember env userID =
     and_then (ask env (UserByID userID)) (\<lambda>r. give (case r of Inl _ \<Rightarrow> None | Inr u \<Rightarrow> Some u))"

definition user_summary :: "user_row \<Rightarrow> MessageAuthor" where
  "user_summary u = \<lparr>ma_ID = u_id u, ma_Username = u_username u, ma_DisplayName = u_display_name u\<rparr>"

definition dm_fixed :: "'b response" where
  "dm_fixed = Error 400 ''dm_membership_fixed'' ''a direct message's membership is fixed at two''"

definition api_AddChannelMember :: "conv_env \<Rightarrow> user_row option \<Rightarrow> uuid \<Rightarrow> uuid option \<Rightarrow> (conv_body, conv_body response) web" where
  "api_AddChannelMember env prin channelID body =
     and_then (resolveChannel env prin channelID) (\<lambda>sc.
     and_then (allowed sc ChannelMemberAdd) (\<lambda>_.
     and_then (decodeJSON body) (\<lambda>userID.
     and_then (require (userID \<noteq> 0) (invalid ''user_id is required'')) (\<lambda>_.
     and_then (call env (\<lambda>k. AddChannelMember channelID userID (u_id (sc_prin sc)))) (\<lambda>r.
     and_then (or_answer (\<lambda>e. if e = ErrDMMembershipFixed then Some dm_fixed
        else if e = ErrChannelNotFound then Some writeChannelNotFound
        else if e = ErrNotFound then Some (Error 404 ''user_not_found'' ''no such user'') else None) r) (\<lambda>_.
     and_then (announceInvitation env channelID userID) (\<lambda>_.
     and_then (namedMember env userID) (\<lambda>named.
     and_then (case named of None \<Rightarrow> give () | Some u \<Rightarrow> tell (MemberAdded channelID (user_summary u))) (\<lambda>_.
     give NoContent)))))))))"

definition api_RemoveChannelMember :: "conv_env \<Rightarrow> user_row option \<Rightarrow> uuid \<Rightarrow> uuid \<Rightarrow> (conv_body, conv_body response) web" where
  "api_RemoveChannelMember env prin channelID userID =
     and_then (resolveChannel env prin channelID) (\<lambda>sc.
     and_then (require (sc_member sc) (deny sc)) (\<lambda>_.
     and_then (require (ch_Kind (sc_channel sc) \<noteq> ChannelKindDM) dm_fixed) (\<lambda>_.
     and_then (allowed sc (if userID = u_id (sc_prin sc) then ChannelRead else ChannelMemberRemove)) (\<lambda>_.
     and_then (call env (\<lambda>k. RemoveChannelMember channelID userID)) (\<lambda>r.
     and_then (or_answer (\<lambda>e. if e = ErrDMMembershipFixed then Some dm_fixed
        else if e = ErrLastMember then Some (Error 400 ''last_member'' ''a channel cannot be left with no members'')
        else if e = ErrChannelNotFound then Some writeChannelNotFound else None) r) (\<lambda>_.
     and_then (namedMember env userID) (\<lambda>named.
     and_then (case named of None \<Rightarrow> give () | Some u \<Rightarrow> tell (MemberRemoved channelID (user_summary u))) (\<lambda>_.
     and_then (tell (ChannelRemoved userID channelID)) (\<lambda>_.
     and_then (eject channelID userID) (\<lambda>_.
     give NoContent))))))))))"

section \<open>Messages\<close>

definition maxContentLen :: int where "maxContentLen = 4000"
definition maxAttachmentsPerMessage :: int where "maxAttachmentsPerMessage = 10"

definition messageCursor :: "conv_env \<Rightarrow> string option \<Rightarrow> 'b response + cursor option" where
  "messageCursor env encoded =
     (case encoded of
        None \<Rightarrow> Inr None
      | Some s \<Rightarrow> (case decodeTimeCursor env s of None \<Rightarrow> Inl writeInvalidCursor | Some c \<Rightarrow> Inr (Some c)))"

definition api_messagePageQuery :: "conv_env \<Rightarrow> uuid \<Rightarrow> nat \<Rightarrow> page_params \<Rightarrow> 'b response + ListMessagesParams" where
  "api_messagePageQuery env channelID n params =
     (if 1 < length (filter (\<lambda>c. c \<noteq> None) [pp_Before params, pp_After params, pp_Around params])
      then Inl (invalid ''before, after and around are mutually exclusive'')
      else case messageCursor env (pp_Before params) of
             Inl r \<Rightarrow> Inl r
           | Inr before \<Rightarrow>
               (case messageCursor env (pp_After params) of
                  Inl r \<Rightarrow> Inl r
                | Inr after \<Rightarrow>
                    (case messageCursor env (pp_Around params) of
                       Inl r \<Rightarrow> Inl r
                     | Inr around \<Rightarrow> Inr \<lparr>lm_ChannelID = channelID, lm_Before = before, lm_After = after,
                         lm_Around = around, lm_Limit = n\<rparr>)))"

definition api_ListMessages :: "conv_env \<Rightarrow> user_row option \<Rightarrow> uuid \<Rightarrow> page_params \<Rightarrow> (conv_body, conv_body response) web" where
  "api_ListMessages env prin channelID params =
     and_then (resolveChannel env prin channelID) (\<lambda>sc.
     and_then (allowed sc ChannelRead) (\<lambda>_.
     and_then (checked (pageLimit (pp_Limit params) defaultListLimit maxListLimit)) (\<lambda>limit.
     and_then (checked (api_messagePageQuery env channelID limit params)) (\<lambda>query.
     and_then (ask env (ListMessages query)) (\<lambda>r.
     and_then (or_answer (\<lambda>_. None) r) (\<lambda>page.
     give (Json 200 (apiMessagePage env page))))))))"

text \<open>Some identifier is nil or has been seen.\<close>

fun repeats :: "uuid list \<Rightarrow> uuid list \<Rightarrow> bool" where
  "repeats seen [] = False"
| "repeats seen (i # ids) = (if i = 0 \<or> i \<in> set seen then True else repeats (i # seen) ids)"

definition sendAttachmentIDs :: "uuid list option \<Rightarrow> 'b response + uuid list" where
  "sendAttachmentIDs requested =
     (case requested of
        None \<Rightarrow> Inr []
      | Some ids \<Rightarrow>
          if maxAttachmentsPerMessage < int (length ids)
          then Inl (invalid (''a message may carry at most '' @ FormatInt maxAttachmentsPerMessage @ '' attachments''))
          else if repeats [] ids then Inl (invalid ''attachment_ids must be distinct attachment ids'')
          else Inr ids)"

definition storable_content :: "string \<Rightarrow> ('b, unit) web" where
  "storable_content content =
     require (storableText content) (invalid ''content must be text that can be stored and returned unchanged'')"

definition api_SendMessage :: "conv_env \<Rightarrow> user_row option \<Rightarrow> uuid \<Rightarrow> SendMessageRequest option \<Rightarrow> (conv_body, conv_body response) web" where
  "api_SendMessage env prin channelID body =
     and_then (resolveChannel env prin channelID) (\<lambda>sc.
     and_then (allowed sc MessageSend) (\<lambda>_.
     and_then (decodeJSON body) (\<lambda>req.
     and_then (require (smr_ClientMsgId req \<noteq> 0) (invalid ''client_msg_id is required'')) (\<lambda>_.
     and_then (storable_content (smr_Content req)) (\<lambda>_.
     and_then (require (RuneCountInString (smr_Content req) \<le> maxContentLen)
        (invalid (''content must be at most '' @ FormatInt maxContentLen @ '' characters''))) (\<lambda>_.
     and_then (checked (sendAttachmentIDs (smr_AttachmentIds req))) (\<lambda>attachmentIDs.
     and_then (checked (e2eeBody (ch_E2EE (sc_channel sc)) (smr_Content req) (smr_Mls req))) (\<lambda>mls.
     and_then (call env (\<lambda>k. CreateMessage (ce_parse env) (ce_send_mid env k) (ce_send_clock env k) (ce_send_ids env k)
        \<lparr>nm_ChannelID = channelID, nm_AuthorID = u_id (sc_prin sc), nm_ClientMsgID = smr_ClientMsgId req,
         nm_Content = smr_Content req, nm_AttachmentIDs = attachmentIDs, nm_Mls = mls\<rparr>)) (\<lambda>r.
     and_then (or_answer (\<lambda>e. if e = ErrEmptyMessage then Some (invalid ''a message must carry text or at least one attachment'')
        else if e = ErrAttachmentNotFound
        then Some (Error 404 ''attachment_not_found'' ''one of the attachments is not available to attach'')
        else if e = ErrNotFound then Some writeChannelNotFound else None) r) (\<lambda>(msg, created).
     if \<not> created then give (Json 200 (MessageBody (apiMessage env msg)))
     else
       and_then (tell (MessageCreated channelID msg)) (\<lambda>_.
       and_then (if mls = None then enrichPreview env channelID msg else give ()) (\<lambda>_.
       give (Json 201 (MessageBody (apiMessage env msg)))))))))))))))"

definition writeMessageDeleted :: "'b response" where
  "writeMessageDeleted = Error 409 ''message_deleted'' ''this message has been deleted''"

definition api_EditMessage :: "conv_env \<Rightarrow> user_row option \<Rightarrow> uuid \<Rightarrow> uuid \<Rightarrow> EditMessageRequest option \<Rightarrow> (conv_body, conv_body response) web" where
  "api_EditMessage env prin channelID messageID body =
     and_then (resolveChannel env prin channelID) (\<lambda>sc.
     and_then (resolveMessage env sc messageID) (\<lambda>msg.
     and_then (require (Can (caller (sc_prin sc)) MessageEdit (MessageRes (messageResource sc msg)))
        (denyMessage sc ''not_message_author'' ''only a message's author may edit it'')) (\<lambda>_.
     and_then (require (ms_DeletedAt msg = None) writeMessageDeleted) (\<lambda>_.
     and_then (decodeJSON body) (\<lambda>req.
     and_then (storable_content (emr_Content req)) (\<lambda>_.
     and_then (checked (e2eeBody (ch_E2EE (sc_channel sc)) (emr_Content req) (emr_Mls req))) (\<lambda>mls.
     and_then (require (mls \<noteq> None \<or> 1 \<le> RuneCountInString (emr_Content req) \<and> RuneCountInString (emr_Content req) \<le> maxContentLen)
        (invalid (''content must be 1 to '' @ FormatInt maxContentLen @ '' characters''))) (\<lambda>_.
     and_then (call env (\<lambda>k. UpdateMessageContent (ce_parse env) (ce_snapshot env k) (ce_clock env k) channelID messageID (emr_Content req) mls)) (\<lambda>r.
     and_then (or_answer (\<lambda>e. if e = ErrNotFound then Some writeMessageDeleted else None) r) (\<lambda>edited.
     and_then (tell (MessageUpdated channelID edited)) (\<lambda>_.
     and_then (if mls = None then enrichPreview env channelID edited else give ()) (\<lambda>_.
     give (Json 200 (MessageBody (apiMessage env edited)))))))))))))))"

definition api_DeleteMessage :: "conv_env \<Rightarrow> user_row option \<Rightarrow> uuid \<Rightarrow> uuid \<Rightarrow> (conv_body, conv_body response) web" where
  "api_DeleteMessage env prin channelID messageID =
     and_then (resolveChannel env prin channelID) (\<lambda>sc.
     and_then (resolveMessage env sc messageID) (\<lambda>msg.
     and_then (require (Can (caller (sc_prin sc)) MessageDelete (MessageRes (messageResource sc msg)))
        (denyMessage sc ''not_message_author_or_admin''
           ''only a message's author, or an admin who is a member of this channel, may delete it'')) (\<lambda>_.
     and_then (require (ms_DeletedAt msg = None) NoContent) (\<lambda>_.
     and_then (call env (\<lambda>k. SoftDeleteMessage (ce_clock env k) channelID messageID (u_id (sc_prin sc)))) (\<lambda>r.
     and_then (or_answer (\<lambda>e. if e = ErrNotFound then Some NoContent else None) r) (\<lambda>deleted.
     and_then (tell (MessageDeleted channelID deleted)) (\<lambda>_.
     give NoContent)))))))"

definition api_SetReadPosition :: "conv_env \<Rightarrow> user_row option \<Rightarrow> uuid \<Rightarrow> uuid option \<Rightarrow> (conv_body, conv_body response) web" where
  "api_SetReadPosition env prin channelID body =
     and_then (resolveChannel env prin channelID) (\<lambda>sc.
     and_then (allowed sc ReadPositionSet) (\<lambda>_.
     and_then (decodeJSON body) (\<lambda>messageID.
     and_then (require (messageID \<noteq> 0) (invalid ''message_id is required'')) (\<lambda>_.
     and_then (call env (\<lambda>k. SetReadPosition channelID (u_id (sc_prin sc)) messageID)) (\<lambda>r.
     and_then (or_answer (\<lambda>e. if e = ErrNotFound then Some (invalid ''message_id must name a message in this channel'') else None) r) (\<lambda>_.
     and_then (tell (ReadPosition (u_id (sc_prin sc)) channelID messageID (ce_wall env))) (\<lambda>_.
     give NoContent)))))))"

section \<open>One request\<close>

text \<open>The requests about one conversation, and those about the caller's own list.\<close>

datatype channel_request =
    GetChannel
  | UpdateChannel "string option"
  | ListMembers "int option" "string option"
  | AddMember "uuid option"
  | RemoveMember uuid
  | ListHistory page_params
  | Send "SendMessageRequest option"
  | Edit uuid "EditMessageRequest option"
  | Delete uuid
  | SetRead "uuid option"

datatype conv_request =
    ListMine "int option" "string option"
  | Create "CreateChannelRequest option"
  | OpenDM "OpenDirectMessageRequest option"
  | OnChannel uuid channel_request

fun channel_handler ::
  "(string \<Rightarrow> 'k::linorder) \<Rightarrow> conv_env \<Rightarrow> user_row option \<Rightarrow> uuid \<Rightarrow> channel_request \<Rightarrow> (conv_body, conv_body response) web" where
  "channel_handler collate env prin ch GetChannel = api_GetChannel env prin ch"
| "channel_handler collate env prin ch (UpdateChannel body) = api_UpdateChannel env prin ch body"
| "channel_handler collate env prin ch (ListMembers lim cursor) = api_ListChannelMembers collate env prin ch lim cursor"
| "channel_handler collate env prin ch (AddMember body) = api_AddChannelMember env prin ch body"
| "channel_handler collate env prin ch (RemoveMember uid) = api_RemoveChannelMember env prin ch uid"
| "channel_handler collate env prin ch (ListHistory params) = api_ListMessages env prin ch params"
| "channel_handler collate env prin ch (Send body) = api_SendMessage env prin ch body"
| "channel_handler collate env prin ch (Edit msg body) = api_EditMessage env prin ch msg body"
| "channel_handler collate env prin ch (Delete msg) = api_DeleteMessage env prin ch msg"
| "channel_handler collate env prin ch (SetRead body) = api_SetReadPosition env prin ch body"

fun handler :: "(string \<Rightarrow> 'k::linorder) \<Rightarrow> conv_env \<Rightarrow> user_row option \<Rightarrow> conv_request \<Rightarrow> (conv_body, conv_body response) web" where
  "handler collate env prin (ListMine lim cursor) = api_ListChannels env prin lim cursor"
| "handler collate env prin (Create body) = api_CreateChannel env prin body"
| "handler collate env prin (OpenDM body) = api_OpenDirectMessage env prin body"
| "handler collate env prin (OnChannel ch rq) = channel_handler collate env prin ch rq"

definition serve :: "(string \<Rightarrow> 'k::linorder) \<Rightarrow> conv_env \<Rightarrow> user_row option \<Rightarrow> conv_request \<Rightarrow> site \<Rightarrow> conv_body response \<times> site" where
  "serve collate env prin rq = run (handler collate env prin rq)"

end
