(* ===== verification/Conversation_Safety.thy ===== *)
theory Conversation_Safety
  imports Conversations
begin

text \<open>
  What the conversation handlers guarantee, whatever runs between their store calls and whichever of those
  calls fails: an encrypted conversation holds no readable text and a readable one no ciphertext, a stranger
  learns nothing and changes nothing, and a conversation is born in the organisation's mode.
\<close>

section \<open>Reasoning about handlers\<close>

text \<open>
  \<open>J\<close> is kept by a handler when it holds of the database it leaves. What runs in between keeps it by
  assumption (\<open>stable\<close>); the rules follow the structure of a handler and hand its continuation what the
  step before has established.
\<close>

named_theorems keeps_rules

definition keeps :: "(db \<Rightarrow> bool) \<Rightarrow> ('b, 'a) web \<Rightarrow> bool" where
  "keeps J m \<longleftrightarrow> (\<forall>st. J (si_db st) \<longrightarrow> J (si_db (snd (m st))))"

definition stable :: "conv_env \<Rightarrow> (db \<Rightarrow> bool) \<Rightarrow> bool" where
  "stable env J \<longleftrightarrow> (\<forall>k db. J db \<longrightarrow> J (ce_mid env k db)) \<and> (\<forall>k n db. J db \<longrightarrow> J (ce_send_mid env k n db))"

lemma keeps_give [keeps_rules]: "keeps J (give a)"
  by (simp add: keeps_def give_def)

lemma keeps_stop [keeps_rules]: "keeps J (stop r)"
  by (simp add: keeps_def stop_def)

lemma keeps_tell [keeps_rules]: "keeps J (tell ev)"
  by (simp add: keeps_def tell_def)

lemma keeps_eject [keeps_rules]: "keeps J (eject ch uid)"
  by (simp add: keeps_def eject_def)

lemma keeps_enrich [keeps_rules]: "keeps J (enrichPreview env ch m)"
  by (simp add: keeps_def enrichPreview_def)

lemma keeps_require [keeps_rules]: "keeps J (require c r)"
  by (simp add: keeps_def require_def)

lemma keeps_allowed [keeps_rules]: "keeps J (allowed sc act)"
  by (simp add: allowed_def keeps_require)

lemma keeps_storable [keeps_rules]: "keeps J (storable_content s)"
  by (simp add: storable_content_def keeps_require)

lemma keeps_or_answer [keeps_rules]: "keeps J (or_answer t r)"
  by (cases r) (simp_all add: or_answer_def keeps_give keeps_stop)

lemma keeps_principal [keeps_rules]: "keeps J (principalFrom prin)"
  by (cases prin) (simp_all add: principalFrom_def keeps_give keeps_stop)

lemma keeps_requireStore [keeps_rules]: "keeps J (requireStore env)"
  by (simp add: requireStore_def keeps_require)

lemma keeps_decode [keeps_rules]: "keeps J (decodeJSON body)"
  by (cases body) (simp_all add: decodeJSON_def keeps_give keeps_stop)

lemma keeps_and_then: "keeps J m \<Longrightarrow> (\<And>a. keeps J (f a)) \<Longrightarrow> keeps J (and_then m f)"
  unfolding keeps_def and_then_def by (auto split: prod.splits sum.splits)

lemma keeps_checked: "(\<And>a. x = Inr a \<Longrightarrow> keeps J (f a)) \<Longrightarrow> keeps J (and_then (checked x) f)"
  unfolding keeps_def and_then_def checked_def by (auto split: sum.splits)

lemma keeps_if [keeps_rules]: "(c \<Longrightarrow> keeps J m) \<Longrightarrow> (\<not> c \<Longrightarrow> keeps J m') \<Longrightarrow> keeps J (if c then m else m')"
  by simp

lemma keeps_option [keeps_rules]: "keeps J m \<Longrightarrow> (\<And>a. keeps J (f a)) \<Longrightarrow> keeps J (case x of None \<Rightarrow> m | Some a \<Rightarrow> f a)"
  by (cases x) simp_all

lemma keeps_sum [keeps_rules]: "(\<And>e. keeps J (g e)) \<Longrightarrow> (\<And>a. keeps J (f a)) \<Longrightarrow> keeps J (case x of Inl e \<Rightarrow> g e | Inr a \<Rightarrow> f a)"
  by (cases x) simp_all

lemma keeps_pair [keeps_rules]: "(\<And>a b. keeps J (f a b)) \<Longrightarrow> keeps J (case x of (a, b) \<Rightarrow> f a b)"
  by (cases x) simp

lemma keeps_call:
  "stable env J \<Longrightarrow> (\<And>k db. J db \<Longrightarrow> J (snd (f k db))) \<Longrightarrow> keeps J (call env f)"
  unfolding keeps_def call_eq stable_def Let_def by (auto split: outage.split)

lemma keeps_ask [keeps_rules]: "stable env J \<Longrightarrow> keeps J (ask env f)"
  unfolding ask_def by (rule keeps_call) simp_all

lemma keeps_announce [keeps_rules]: "stable env J \<Longrightarrow> keeps J (announceInvitation env ch uid)"
  unfolding announceInvitation_def by (intro keeps_and_then keeps_rules)

lemma keeps_named [keeps_rules]: "stable env J \<Longrightarrow> keeps J (namedMember env uid)"
  unfolding namedMember_def by (intro keeps_and_then keeps_rules)

lemma keeps_birth [keeps_rules]: "stable env J \<Longrightarrow> keeps J (e2eeAtBirth env asserted)"
  unfolding e2eeAtBirth_def Let_def by (intro keeps_and_then keeps_rules)

lemma keeps_resolveMessage [keeps_rules]: "stable env J \<Longrightarrow> keeps J (resolveMessage env sc i)"
  unfolding resolveMessage_def by (intro keeps_and_then keeps_rules)

text \<open>A resolved conversation is in the store, with the mode the handler saw.\<close>

definition scoped :: "uuid \<Rightarrow> channelScope \<Rightarrow> db \<Rightarrow> bool" where
  "scoped ch sc db \<longleftrightarrow> (\<exists>c \<in> set (channels db). c_id c = ch \<and> c_e2ee c = ch_E2EE (sc_channel sc))"

lemma ChannelForUser_Inr:
  "ChannelForUser i uid db = Inr ch \<Longrightarrow>
     ch_ID ch = i \<and> (\<exists>c \<in> set (channels db). c_id c = i \<and> c_e2ee c = ch_E2EE ch \<and> ch = scopedChannel uid db c)"
  by (auto simp: ChannelForUser_def scopedChannel_def unscopedChannel_def dest!: sql_row_Some_iff split: option.splits)

lemma keeps_resolve:
  assumes "stable env J" and "\<And>c. stable env (\<lambda>db. J db \<and> scoped ch c db)"
    and "\<And>sc. keeps (\<lambda>db. J db \<and> scoped ch sc db) (f sc)"
  shows "keeps J (and_then (resolveChannel env prin ch) f)"
proof -
  note [simp] = and_then_def principalFrom_def requireStore_def require_def ask_def call_eq or_answer_def give_def stop_def Let_def
  have "J (si_db (snd (and_then (resolveChannel env (Some u) ch) f st)))" if "J (si_db st)" for st u
  proof -
    let ?k = "si_calls st"
    let ?d1 = "ce_mid env ?k (si_db st)" let ?d2 = "ce_mid env (Suc ?k) ?d1"
    have J: "J ?d1" "J ?d2" using assms(1) that by (simp_all add: stable_def)
    show ?thesis
    proof (cases "ChannelForUser ch (u_id u) ?d1")
      case (Inl e)
      then show ?thesis using J that by (simp add: resolveChannel_def split: outage.split)
    next
      case (Inr c)
      let ?sc = "\<lparr>sc_prin = u, sc_channel = c, sc_member = IsChannelMember ch (u_id u) ?d2\<rparr>"
      have "scoped ch ?sc ?d1" using ChannelForUser_Inr [OF Inr] by (auto simp: scoped_def)
      then have "J ?d2 \<and> scoped ch ?sc ?d2" using assms(2) [of ?sc] J by (auto simp: stable_def)
      then have "J (si_db (snd (f ?sc (st\<lparr>si_db := ?d2, si_calls := Suc (Suc ?k)\<rparr>))))"
        using assms(3) [of ?sc] by (simp add: keeps_def)
      then show ?thesis using J that Inr by (auto simp: resolveChannel_def split: outage.split)
    qed
  qed
  then show ?thesis by (cases prin) (simp_all add: keeps_def resolveChannel_def)
qed

section \<open>The anti-downgrade boundary\<close>

text \<open>
  What a message of a conversation may hold: nothing readable and a ciphertext (until it is deleted) where the
  conversation is encrypted, no ciphertext where it is not.
\<close>

definition body_ok :: "chan_row \<Rightarrow> message_row \<Rightarrow> bool" where
  "body_ok c m \<longleftrightarrow> (if c_e2ee c then m_content m = [] \<and> (m_mls m \<noteq> None \<or> m_deleted m \<noteq> None) else m_mls m = None)"

definition sealed_ok :: "db \<Rightarrow> bool" where
  "sealed_ok db \<longleftrightarrow> distinct (map c_id (channels db)) \<and>
     (\<forall>m \<in> set (messages db). \<exists>c \<in> set (channels db). c_id c = m_channel m \<and> body_ok c m)"

definition modes_kept :: "db \<Rightarrow> db \<Rightarrow> bool" where
  "modes_kept db db' \<longleftrightarrow>
     (\<forall>c \<in> set (channels db). \<exists>c' \<in> set (channels db'). c_id c' = c_id c \<and> c_e2ee c' = c_e2ee c)"

text \<open>What a change to the store may do: keep the rule, and keep every conversation in its mode.\<close>

definition tame :: "(db \<Rightarrow> db) \<Rightarrow> bool" where
  "tame f \<longleftrightarrow> (\<forall>db. sealed_ok db \<longrightarrow> sealed_ok (f db) \<and> modes_kept db (f db))"

lemma modes_kept_refl [simp]: "modes_kept db db"
  by (auto simp: modes_kept_def)

lemma modes_kept_trans: "modes_kept a b \<Longrightarrow> modes_kept b c \<Longrightarrow> modes_kept a c"
  unfolding modes_kept_def by metis

lemma scoped_kept: "scoped ch sc db \<Longrightarrow> modes_kept db db' \<Longrightarrow> scoped ch sc db'"
  unfolding scoped_def modes_kept_def by metis

text \<open>The invariant of the proof: the rule holds and the modes are those at the start.\<close>

definition safe_from :: "db \<Rightarrow> db \<Rightarrow> bool" where
  "safe_from db0 db \<longleftrightarrow> sealed_ok db \<and> modes_kept db0 db"

lemma safe_tame: "tame f \<Longrightarrow> safe_from db0 db \<Longrightarrow> safe_from db0 (f db)"
  unfolding safe_from_def tame_def by (blast intro: modes_kept_trans)

definition tame_env :: "conv_env \<Rightarrow> bool" where
  "tame_env env \<longleftrightarrow> (\<forall>k. tame (ce_mid env k)) \<and> (\<forall>k n. tame (ce_send_mid env k n))"

lemma stable_safe: "tame_env env \<Longrightarrow> stable env (safe_from db0)"
  by (auto simp: stable_def tame_env_def intro: safe_tame)

lemma scoped_tame: "tame f \<Longrightarrow> safe_from db0 db \<Longrightarrow> scoped ch sc db \<Longrightarrow> scoped ch sc (f db)"
  unfolding safe_from_def tame_def by (blast intro: scoped_kept)

lemma stable_scoped: "tame_env env \<Longrightarrow> stable env (\<lambda>db. safe_from db0 db \<and> scoped ch sc db)"
  by (auto simp: stable_def tame_env_def intro: safe_tame scoped_tame [where ?db0.0 = db0])

lemma tame_begin: "(\<And>a db db'. f db = Inr (a, db') \<Longrightarrow> sealed_ok db \<Longrightarrow> sealed_ok db' \<and> modes_kept db db') \<Longrightarrow>
    tame (\<lambda>db. snd (begin_func f db))"
  unfolding tame_def begin_func_def by (auto split: sum.splits)

lemma sealed_ok_cong: "channels db' = channels db \<Longrightarrow> messages db' = messages db \<Longrightarrow> sealed_ok db' = sealed_ok db"
  by (simp add: sealed_ok_def)

lemma modes_kept_cong: "channels db' = channels db \<Longrightarrow> modes_kept db db'"
  by (auto simp: modes_kept_def)

lemma sealed_append_channel:
  assumes "sealed_ok db" and "\<forall>x \<in> set (channels db). c_id x \<noteq> c_id c"
    and "channels db' = channels db @ [c]" and "messages db' = messages db"
  shows "sealed_ok db' \<and> modes_kept db db'"
proof
  have "distinct (map c_id (channels db'))" using assms(1-3) by (auto simp: sealed_ok_def)
  moreover have "\<exists>x \<in> set (channels db'). c_id x = m_channel m \<and> body_ok x m" if "m \<in> set (messages db')" for m
    using assms(1,3,4) that unfolding sealed_ok_def by auto
  ultimately show "sealed_ok db'" by (simp add: sealed_ok_def)
  show "modes_kept db db'" using assms(3) by (auto simp: modes_kept_def)
qed

lemma tame_create: "tame (\<lambda>db. snd (CreateChannel ceq now i nc db))"
proof -
  have "tame (\<lambda>db. snd (begin_func (create_channel_body ceq now i nc) db))"
  proof (rule tame_begin)
    fix ch db db' assume c: "create_channel_body ceq now i nc db = Inr (ch, db')" and ok: "sealed_ok db"
    note facts = create_channel_Inr [OF c]
    show "sealed_ok db' \<and> modes_kept db db'"
      using insert_channel_Inr [OF facts(1)] ok facts(3) by (intro sealed_append_channel) auto
  qed
  then show ?thesis by (simp add: CreateChannel_def tame_def)
qed

lemma tame_open_dm: "tame (\<lambda>db. snd (OpenDirectMessage now i a b e2ee db))"
proof -
  have "tame (\<lambda>db. snd (begin_func (open_dm_body now i a b e2ee) db))"
  proof (rule tame_begin)
    fix r db db' assume c: "open_dm_body now i a b e2ee db = Inr (r, db')" and ok: "sealed_ok db"
    obtain ch created where r: "r = (ch, created)" by (cases r)
    from c [unfolded r] show "sealed_ok db' \<and> modes_kept db db'"
    proof (cases rule: open_dm_cases)
      case new
      show ?thesis using insert_channel_Inr [OF new(3)] ok new(4) by (intro sealed_append_channel) auto
    qed (use ok in simp)
  qed
  then show ?thesis by (simp add: OpenDirectMessage_def tame_def)
qed

lemma topic_ids [simp]: "map c_id (sql_update P (\<lambda>c. c\<lparr>c_topic := t\<rparr>) cs) = map c_id cs"
  by (simp add: sql_update_def comp_def)

lemma body_topic: "body_ok (c\<lparr>c_topic := t\<rparr>) m = body_ok c m"
  by (simp add: body_ok_def)

lemma tame_topic: "tame (\<lambda>db. snd (UpdateChannelTopic i topic db))"
  unfolding UpdateChannelTopic_def
proof (rule tame_begin)
  fix ch db db' assume c: "update_topic_body i topic db = Inr (ch, db')" and ok: "sealed_ok db"
  let ?f = "\<lambda>c. if c_id c = i then c\<lparr>c_topic := topic\<rparr> else c"
  have db': "channels db' = map ?f (channels db)" "messages db' = messages db"
    using update_topic_Inr [OF c] by (simp_all add: sql_update_def)
  have f: "c_id (?f c) = c_id c" "c_e2ee (?f c) = c_e2ee c" for c by simp_all
  have ids: "map c_id (channels db') = map c_id (channels db)" by (simp add: db'(1))
  have "\<exists>c \<in> set (channels db'). c_id c = m_channel m \<and> body_ok c m" if m: "m \<in> set (messages db)" for m
  proof -
    obtain c where "c \<in> set (channels db)" "c_id c = m_channel m" "body_ok c m" using ok m by (auto simp: sealed_ok_def)
    then show ?thesis by (intro bexI [of _ "?f c"]) (simp_all add: db' body_topic)
  qed
  then have "sealed_ok db'" using ok unfolding sealed_ok_def ids db'(2) by simp
  moreover have "modes_kept db db'"
    unfolding modes_kept_def
  proof
    fix c assume "c \<in> set (channels db)"
    then show "\<exists>c' \<in> set (channels db'). c_id c' = c_id c \<and> c_e2ee c' = c_e2ee c"
      using f by (intro bexI [of _ "?f c"]) (simp_all add: db')
  qed
  ultimately show "sealed_ok db' \<and> modes_kept db db'" ..
qed

lemma tame_begin_cong:
  assumes "\<And>a db db'. f db = Inr (a, db') \<Longrightarrow> channels db' = channels db \<and> messages db' = messages db"
  shows "tame (\<lambda>db. snd (begin_func f db))"
  by (rule tame_begin) (metis assms sealed_ok_cong modes_kept_cong)

lemma tame_add: "tame (\<lambda>db. snd (AddChannelMember ch uid who db))"
  unfolding AddChannelMember_def by (rule tame_begin_cong) (auto dest: add_member_Inr)

lemma tame_remove: "tame (\<lambda>db. snd (RemoveChannelMember ch uid db))"
  unfolding RemoveChannelMember_def by (rule tame_begin_cong) (auto dest: remove_member_Inr)

lemma tame_read: "tame (\<lambda>db. snd (SetReadPosition ch uid msg db))"
  unfolding SetReadPosition_def by (rule tame_begin_cong) (auto simp: set_read_body_def Let_def split: option.splits if_splits)

lemma sealed_update:
  assumes "sealed_ok db" and "channels db' = channels db" and "messages db' = sql_update P f (messages db)"
    and "\<And>m c. m \<in> set (messages db) \<Longrightarrow> P m \<Longrightarrow> c \<in> set (channels db) \<Longrightarrow> c_id c = m_channel m \<Longrightarrow> body_ok c m \<Longrightarrow>
           m_channel (f m) = m_channel m \<and> body_ok c (f m)"
  shows "sealed_ok db' \<and> modes_kept db db'"
proof
  have "\<exists>c \<in> set (channels db). c_id c = m_channel m' \<and> body_ok c m'" if m': "m' \<in> set (messages db')" for m'
  proof -
    obtain m where m: "m \<in> set (messages db)" "m' = (if P m then f m else m)"
      using m' assms(3) by (auto simp: sql_update_def)
    obtain c where "c \<in> set (channels db)" "c_id c = m_channel m" "body_ok c m" using assms(1) m(1) by (auto simp: sealed_ok_def)
    then show ?thesis using assms(4) [OF m(1)] m(2) by auto
  qed
  then show "sealed_ok db'" using assms(1,2) by (simp add: sealed_ok_def)
  show "modes_kept db db'" using assms(2) by (rule modes_kept_cong)
qed

lemma tame_delete: "tame (\<lambda>db. snd (SoftDeleteMessage now ch i who db))"
  unfolding SoftDeleteMessage_def
proof (rule tame_begin)
  fix msg db db' assume "soft_delete_body now ch i who db = Inr (msg, db')" and ok: "sealed_ok db"
  then have "db' = db\<lparr>messages := sql_update (editable ch i) (erase now who) (messages db)\<rparr>" by (auto dest: soft_delete_Inr)
  then show "sealed_ok db' \<and> modes_kept db db'"
    by (intro sealed_update [OF ok, where P = "editable ch i" and f = "erase now who"]) (simp_all add: erase_def body_ok_def split: if_splits)
qed

text \<open>What the boundary lets through fits the mode it was given.\<close>

lemma e2eeBody_fits:
  "e2eeBody e2ee content mls = Inr body \<Longrightarrow> (if e2ee then content = [] \<and> body \<noteq> None else body = None)"
  by (auto simp: e2eeBody_def split: if_splits option.splits sum.splits)

lemma sealed_channel: "sealed_ok db \<Longrightarrow> c \<in> set (channels db) \<Longrightarrow> d \<in> set (channels db) \<Longrightarrow> c_id c = c_id d \<Longrightarrow> c = d"
  unfolding sealed_ok_def by (metis distinct_map inj_onD)

lemma safe_begin:
  assumes "safe_from db0 db \<and> scoped ch sc db"
    and "\<And>a db'. f db = Inr (a, db') \<Longrightarrow> sealed_ok db \<Longrightarrow> sealed_ok db' \<and> modes_kept db db'"
  shows "safe_from db0 (snd (begin_func f db)) \<and> scoped ch sc (snd (begin_func f db))"
proof (cases "f db")
  case (Inr r)
  obtain a db' where r: "r = (a, db')" by (cases r)
  have "sealed_ok db' \<and> modes_kept db db'" using assms Inr r by (simp add: safe_from_def)
  then show ?thesis using assms(1) Inr r scoped_kept modes_kept_trans by (auto simp: begin_func_def safe_from_def)
qed (use assms(1) in \<open>simp add: begin_func_def\<close>)

lemma safe_edit:
  assumes "safe_from db0 db \<and> scoped ch sc db" and body: "e2eeBody (ch_E2EE (sc_channel sc)) content mls = (Inr body :: 'b response + _)"
  shows "let db' = snd (UpdateMessageContent parse snap now ch i content body db) in safe_from db0 db' \<and> scoped ch sc db'"
  unfolding UpdateMessageContent_def Let_def using assms(1)
proof (rule safe_begin)
  fix msg db' assume "update_message_body parse snap now ch i content body db = Inr (msg, db')" and ok: "sealed_ok db"
  then have db': "channels db' = channels db" "messages db' = sql_update (editable ch i)
      (\<lambda>m. m\<lparr>m_content := content, m_mls := mls_columns body, m_edited := Some now\<rparr>) (messages db)"
    by (auto dest: update_message_Inr)
  obtain c where c: "c \<in> set (channels db)" "c_id c = ch" "c_e2ee c = ch_E2EE (sc_channel sc)"
    using assms(1) by (auto simp: scoped_def)
  show "sealed_ok db' \<and> modes_kept db db'"
  proof (rule sealed_update [OF ok db'])
    fix m d assume "editable ch i m" "d \<in> set (channels db)" "c_id d = m_channel m"
    moreover from this have "d = c" using sealed_channel [OF ok _ c(1)] c(2) by (simp add: editable_def)
    ultimately show "m_channel (m\<lparr>m_content := content, m_mls := mls_columns body, m_edited := Some now\<rparr>) = m_channel m \<and>
        body_ok d (m\<lparr>m_content := content, m_mls := mls_columns body, m_edited := Some now\<rparr>)"
      using e2eeBody_fits [OF body] c(3) by (auto simp: body_ok_def mls_columns_def split: if_splits)
  qed
qed

lemma safe_insert:
  assumes "safe_from db0 db \<and> scoped (nm_ChannelID nm) sc db"
    and body: "e2eeBody (ch_E2EE (sc_channel sc)) (nm_Content nm) mls = (Inr (nm_Mls nm) :: 'b response + _)"
  shows "let db' = snd (begin_func (insertMessage now i nm mentioned) db) in safe_from db0 db' \<and> scoped (nm_ChannelID nm) sc db'"
  unfolding Let_def using assms(1)
proof (rule safe_begin)
  fix msg db' assume ins: "insertMessage now i nm mentioned db = Inr (msg, db')" and ok: "sealed_ok db"
  obtain c where c: "c \<in> set (channels db)" "c_id c = nm_ChannelID nm" "c_e2ee c = ch_E2EE (sc_channel sc)"
    using assms(1) by (auto simp: scoped_def)
  have "body_ok c (new_message_row now i nm)"
    using e2eeBody_fits [OF body] c(3) by (auto simp: body_ok_def new_message_row_def mls_columns_def split: if_splits)
  then have "\<exists>c \<in> set (channels db). c_id c = m_channel (new_message_row now i nm) \<and> body_ok c (new_message_row now i nm)"
    using c by (intro bexI [of _ c]) (simp_all add: new_message_row_def)
  then show "sealed_ok db' \<and> modes_kept db db'"
    using ok insertMessage_Inr(3,11) [OF ins] by (auto simp: sealed_ok_def modes_kept_cong)
qed

lemma safe_loop:
  assumes "\<And>j db. safe_from db0 db \<and> scoped (nm_ChannelID nm) sc db \<Longrightarrow>
        safe_from db0 (mid j db) \<and> scoped (nm_ChannelID nm) sc (mid j db)"
    and body: "e2eeBody (ch_E2EE (sc_channel sc)) (nm_Content nm) mls = (Inr (nm_Mls nm) :: 'b response + _)"
  shows "safe_from db0 db \<and> scoped (nm_ChannelID nm) sc db \<Longrightarrow>
    let db' = snd (send_loop n mid clock ids nm mentioned db) in safe_from db0 db' \<and> scoped (nm_ChannelID nm) sc db'"
proof (induction n arbitrary: db)
  case (Suc n)
  obtain r db1 where f: "begin_func (insertMessage (clock n) (ids n) nm mentioned) db = (r, db1)" by fastforce
  have db1: "safe_from db0 db1 \<and> scoped (nm_ChannelID nm) sc db1"
    using safe_insert [OF Suc.prems body, of "clock n" "ids n" mentioned] f by simp
  show ?case using f db1 assms(1) [OF db1] Suc.IH [OF assms(1) [OF db1]]
    by (auto simp: Let_def split: sum.split)
qed simp

lemma safe_send:
  assumes "tame_env env" and "safe_from db0 db \<and> scoped (nm_ChannelID nm) sc db"
    and "e2eeBody (ch_E2EE (sc_channel sc)) (nm_Content nm) mls = (Inr (nm_Mls nm) :: 'b response + _)"
  shows "let db' = snd (CreateMessage parse (ce_send_mid env k) clock ids nm db)
    in safe_from db0 db' \<and> scoped (nm_ChannelID nm) sc db'"
proof -
  have mid: "safe_from db0 d \<and> scoped (nm_ChannelID nm) sc d \<Longrightarrow>
      safe_from db0 (ce_send_mid env k j d) \<and> scoped (nm_ChannelID nm) sc (ce_send_mid env k j d)" for j d
    using stable_scoped [OF assms(1)] unfolding stable_def by blast
  show ?thesis using safe_loop [OF mid assms(3,2)] assms(2) by (simp add: CreateMessage_def)
qed

lemmas handlers = api_ListChannels_def api_CreateChannel_def api_OpenDirectMessage_def api_GetChannel_def api_UpdateChannel_def
  api_ListChannelMembers_def api_AddChannelMember_def api_RemoveChannelMember_def api_ListMessages_def api_SendMessage_def
  api_EditMessage_def api_DeleteMessage_def api_SetReadPosition_def

lemma keeps_tame_call: "tame_env env \<Longrightarrow> (\<And>k. tame (\<lambda>db. snd (g k db))) \<Longrightarrow>
    keeps (\<lambda>db. safe_from db0 db \<and> scoped ch sc db) (call env g)"
  by (rule keeps_call) (auto intro: stable_scoped safe_tame scoped_tame [where ?db0.0 = db0])

lemma keeps_tame_birth: "tame_env env \<Longrightarrow> (\<And>k. tame (\<lambda>db. snd (g k db))) \<Longrightarrow> keeps (safe_from db0) (call env g)"
  by (rule keeps_call) (auto intro: stable_safe safe_tame)

lemma keeps_resolve_safe:
  "tame_env env \<Longrightarrow> (\<And>sc. keeps (\<lambda>db. safe_from db0 db \<and> scoped ch sc db) (f sc)) \<Longrightarrow>
     keeps (safe_from db0) (and_then (resolveChannel env prin ch) f)"
  by (rule keeps_resolve) (auto intro: stable_safe stable_scoped)

lemma keeps_send:
  assumes "tame_env env" and "e2eeBody (ch_E2EE (sc_channel sc)) content mls = (Inr body :: 'c response + _)"
  shows "keeps (\<lambda>db. safe_from db0 db \<and> scoped ch sc db) (call env (\<lambda>k. CreateMessage parse (ce_send_mid env k) (clock k) (ids k)
    \<lparr>nm_ChannelID = ch, nm_AuthorID = uid, nm_ClientMsgID = client, nm_Content = content, nm_AttachmentIDs = files, nm_Mls = body\<rparr>))"
  using safe_send [OF assms(1), where nm = "\<lparr>nm_ChannelID = ch, nm_AuthorID = uid, nm_ClientMsgID = client,
    nm_Content = content, nm_AttachmentIDs = files, nm_Mls = body\<rparr>" and 'b = 'c] assms(2)
  by (intro keeps_call stable_scoped [OF assms(1)]) (simp add: Let_def)

lemma keeps_edit:
  assumes "tame_env env" and "e2eeBody (ch_E2EE (sc_channel sc)) content mls = (Inr body :: 'c response + _)"
  shows "keeps (\<lambda>db. safe_from db0 db \<and> scoped ch sc db) (call env (\<lambda>k. UpdateMessageContent parse (snap k) (clock k) ch i content body))"
  by (rule keeps_call [OF stable_scoped [OF assms(1)]]) (rule safe_edit [OF _ assms(2), unfolded Let_def])

lemma run_site [simp]: "snd (run m st) = snd (m st)"
  by (simp add: run_def split: prod.split sum.split)

text \<open>The sequencing rules, the most specific first.\<close>

lemmas keeps_seq = keeps_checked keeps_resolve_safe keeps_and_then

lemmas tame_store = tame_create tame_open_dm tame_topic tame_add tame_remove tame_delete tame_read

lemma handler_safe:
  assumes env: "tame_env env"
  shows "keeps (safe_from db0) (handler collate env prin rq)"
proof -
  note rules = keeps_seq keeps_send [OF env] keeps_edit [OF env] keeps_tame_call [OF env] keeps_tame_birth [OF env]
    tame_store stable_safe [OF env] stable_scoped [OF env] env keeps_rules
  show ?thesis
  proof (cases rq)
    case (OnChannel ch q)
    show ?thesis unfolding OnChannel handler.simps
      by (cases q; simp only: channel_handler.simps handlers Let_def; (intro rules; assumption?))
  qed (simp only: handler.simps handlers Let_def; intro rules)+
qed

text \<open>
  C12. The anti-downgrade boundary. Whatever runs between the store calls of a request and whichever of them
  fails or loses its answer, as long as what runs in between keeps the rule too: no request, of any kind, by
  anybody, leaves readable text or a message without ciphertext in an encrypted conversation, or a ciphertext in
  a readable one, or changes the mode of a conversation.
\<close>

theorem anti_downgrade:
  assumes "\<forall>k. tame (ce_mid env k)" and "\<forall>k n. tame (ce_send_mid env k n)"
  shows "tame (\<lambda>db. si_db (snd (serve collate env prin rq (st\<lparr>si_db := db\<rparr>))))"
  unfolding tame_def
proof (intro allI impI)
  fix db assume ok: "sealed_ok db"
  have "keeps (safe_from db) (handler collate env prin rq)" using assms by (intro handler_safe) (simp add: tame_env_def)
  moreover have "safe_from db db" using ok by (simp add: safe_from_def)
  ultimately have "safe_from db (si_db (snd (handler collate env prin rq (st\<lparr>si_db := db\<rparr>))))" by (simp add: keeps_def)
  then show "sealed_ok (si_db (snd (serve collate env prin rq (st\<lparr>si_db := db\<rparr>)))) \<and>
      modes_kept db (si_db (snd (serve collate env prin rq (st\<lparr>si_db := db\<rparr>))))"
    by (simp add: serve_def safe_from_def)
qed

section \<open>An instance\<close>

definition demo_channel :: "uuid \<Rightarrow> string \<Rightarrow> bool \<Rightarrow> instant \<Rightarrow> chan_row" where
  "demo_channel i slug e2ee at = \<lparr>c_id = i, c_kind = ChannelKindPrivate, c_slug = Some slug, c_topic = [], c_dm_a = None, c_dm_b = None,
     c_created_by = Some 1, c_e2ee = e2ee, c_created = at\<rparr>"

definition demo_office :: db where
  "demo_office = (empty_db [1, 2, 3] (org_of False 720))\<lparr>
     channels := [demo_channel 5 ''ops'' True 50, demo_channel 6 ''lobby'' False 60],
     channel_members := [\<lparr>cm_channel = 5, cm_user = 1\<rparr>, \<lparr>cm_channel = 5, cm_user = 2\<rparr>, \<lparr>cm_channel = 6, cm_user = 1\<rparr>]\<rparr>"

definition demo_site :: site where
  "demo_site = \<lparr>si_db = demo_office, si_calls = 0, si_sent = [], si_ejected = [], si_enriched = []\<rparr>"

definition quiet_env :: conv_env where
  "quiet_env = \<lparr>ce_mid = \<lambda>_ db. db, ce_outage = \<lambda>_. Up, ce_clock = \<lambda>k. 100 + int k, ce_ids = \<lambda>k. 10 + k, ce_snapshot = \<lambda>_. \<lparr>es_missed = [], es_members = [1, 2]\<rparr>,
     ce_send_mid = \<lambda>_ _ db. db, ce_send_clock = \<lambda>k _. 100 + int k, ce_send_ids = \<lambda>k n. 20 + n,
     ce_citext = (=), ce_parse = \<lambda>s. if list_all is_digit s then Some (atoi s) else None, ce_String = itoa,
     ce_format = FormatInt, ce_parseTime = ParseInt, ce_wall = 100, ce_signer = None, ce_store = True, ce_previews = True\<rparr>"

definition demo_user :: "uuid \<Rightarrow> user_row" where
  "demo_user i = \<lparr>u_id = i, u_username = ''u'', u_email = None, u_password_hash = [], u_is_admin = (i = 3), u_is_active = True,
     u_display_name = ''u'', u_locale = ''en'', u_must_change = False, u_created = 0\<rparr>"

definition secret_send :: channel_request where
  "secret_send = Send (Some \<lparr>smr_ClientMsgId = 9, smr_Content = [], smr_AttachmentIds = None,
     smr_Mls = Some \<lparr>me_Epoch = 0, me_Ciphertext = ''YQ=='', me_Mentions = Some [2]\<rparr>\<rparr>)"

definition clear_send :: channel_request where
  "clear_send = Send (Some \<lparr>smr_ClientMsgId = 8, smr_Content = ''hello'', smr_AttachmentIds = None, smr_Mls = None\<rparr>)"

text \<open>While one member writes to the encrypted conversation, another sets a topic before every store call.\<close>

definition retopic :: "nat \<Rightarrow> db \<Rightarrow> db" where
  "retopic k db = snd (UpdateChannelTopic 5 ''q'' db)"

definition busy_env :: conv_env where
  "busy_env = quiet_env\<lparr>ce_mid := retopic\<rparr>"

theorem anti_downgrade_witness:
  "let db' = si_db (snd (serve size busy_env (Some (demo_user 2)) (OnChannel 5 secret_send) (demo_site\<lparr>si_db := demo_office\<rparr>)))
   in sealed_ok db' \<and> modes_kept demo_office db' \<and> map (\<lambda>m. (m_channel m, m_content m, m_mls m)) (messages db') =
     [(5, [], Some (0, ''a''))]"
proof -
  have "tame (retopic k)" for k unfolding retopic_def by (rule tame_topic)
  then have "tame (\<lambda>db. si_db (snd (serve size busy_env (Some (demo_user 2)) (OnChannel 5 secret_send) (demo_site\<lparr>si_db := db\<rparr>))))"
    by (intro anti_downgrade allI) (simp_all add: busy_env_def quiet_env_def tame_def)
  moreover have "sealed_ok demo_office" by code_simp
  moreover have "map (\<lambda>m. (m_channel m, m_content m, m_mls m)) (messages (si_db (snd (serve size busy_env (Some (demo_user 2))
      (OnChannel 5 secret_send) (demo_site\<lparr>si_db := demo_office\<rparr>))))) = [(5, [], Some (0, ''a''))]"
    by code_simp
  ultimately show ?thesis unfolding tame_def by auto
qed

section \<open>Strangers\<close>

text \<open>The database the handler's first two reads see.\<close>

definition first_read :: "conv_env \<Rightarrow> site \<Rightarrow> db" where
  "first_read env st = ce_mid env (si_calls st) (si_db st)"

definition second_read :: "conv_env \<Rightarrow> site \<Rightarrow> db" where
  "second_read env st = ce_mid env (Suc (si_calls st)) (first_read env st)"

definition reached :: "conv_env \<Rightarrow> site \<Rightarrow> bool" where
  "reached env st \<longleftrightarrow> ce_store env \<and> ce_outage env (si_calls st) = Up \<and> ce_outage env (Suc (si_calls st)) = Up"

lemmas web_defs = and_then_def principalFrom_def requireStore_def require_def ask_def call_eq or_answer_def give_def stop_def Let_def

lemma resolve_cases:
  assumes "resolveChannel env (Some u) ch st = (r, st1)"
  obtains (answered) x where "r = Inl x" "x = writeChannelNotFound \<or> x = internalError \<and> \<not> reached env st"
      "\<exists>db \<in> {si_db st, first_read env st, second_read env st}. \<exists>n. st1 = st\<lparr>si_db := db, si_calls := n\<rparr>"
  | (resolved) c where "ChannelForUser ch (u_id u) (first_read env st) = Inr c" "reached env st"
      "r = Inr \<lparr>sc_prin = u, sc_channel = c, sc_member = IsChannelMember ch (u_id u) (second_read env st)\<rparr>"
      "st1 = st\<lparr>si_db := second_read env st, si_calls := Suc (Suc (si_calls st))\<rparr>"
proof (cases "ce_store env \<and> ce_outage env (si_calls st) = Up")
  case False
  have "\<exists>n. st = st\<lparr>si_calls := n\<rparr>" by (rule exI [of _ "si_calls st"]) simp
  with False show ?thesis using assms
    by (intro answered) (auto simp: resolveChannel_def web_defs reached_def first_read_def unavailable_def split: if_splits outage.splits)
next
  case up: True
  show ?thesis
  proof (cases "ChannelForUser ch (u_id u) (first_read env st)")
    case (Inl e)
    then have "e = ErrChannelNotFound" by (auto simp: ChannelForUser_def split: option.splits)
    then show ?thesis using assms up Inl by (intro answered) (auto simp: resolveChannel_def web_defs first_read_def)
  next
    case (Inr c)
    show ?thesis
    proof (cases "ce_outage env (Suc (si_calls st)) = Up")
      case True
      then show ?thesis using assms up Inr
        by (intro resolved) (auto simp: resolveChannel_def web_defs reached_def first_read_def second_read_def)
    next
      case False
      then show ?thesis using assms up Inr
        by (intro answered) (auto simp: resolveChannel_def web_defs reached_def first_read_def second_read_def split: outage.splits)
    qed
  qed
qed

lemma stranger_refused: "\<not> sc_member sc \<Longrightarrow> allowed sc act s = (Inl writeChannelNotFound, s)"
  by (simp add: allowed_def require_def deny_def Can_def canChannel_def caller_def sc_resource_def Authz.NewChannel_def)

lemma stranger_message: "\<not> sc_member sc \<Longrightarrow> resolveMessage env sc i s = (Inl writeChannelNotFound, s)"
  by (simp add: resolveMessage_def and_then_def require_def deny_def)

text \<open>A handler that resolves the conversation first, and then refuses who is not a member of it.\<close>

lemma stranger_run:
  fixes f :: "channelScope \<Rightarrow> ('b, 'b response) web"
  assumes "\<not> IsChannelMember ch (u_id u) (second_read env st)" and "\<And>sc s. \<not> sc_member sc \<Longrightarrow> f sc s = (Inl writeChannelNotFound, s)"
    and "run (and_then (resolveChannel env (Some u) ch) f) st = (r, st')"
  shows "(r = writeChannelNotFound \<or> r = internalError \<and> \<not> reached env st) \<and>
    (\<exists>db \<in> {si_db st, first_read env st, second_read env st}. \<exists>n. st' = st\<lparr>si_db := db, si_calls := n\<rparr>)"
proof -
  obtain x :: "'b response + channelScope" and st1 where x: "resolveChannel env (Some u) ch st = (x, st1)" by fastforce
  from x show ?thesis
  proof (cases rule: resolve_cases)
    case (answered y)
    then show ?thesis using assms(3) x by (auto simp: run_def and_then_def)
  next
    case (resolved c)
    then show ?thesis using assms x by (auto simp: run_def and_then_def)
  qed
qed

text \<open>
  C13. A stranger learns nothing. Somebody who is not a member of a conversation when the handler asks (an
  administrator included) is answered, on every request about it, exactly what a request about a conversation
  that does not exist is answered, \<open>404 channel_not_found\<close>, or the internal error of a store that could not be
  reached; nothing is announced, nobody is ejected, no preview is fetched, and the store is as the others left it.
\<close>

theorem stranger_learns_nothing:
  assumes "\<not> IsChannelMember ch (u_id u) (second_read env st)" and "serve collate env (Some u) (OnChannel ch q) st = (r, st')"
  shows "(r = writeChannelNotFound \<or> r = internalError \<and> \<not> reached env st) \<and>
    (\<exists>db \<in> {si_db st, first_read env st, second_read env st}. \<exists>n. st' = st\<lparr>si_db := db, si_calls := n\<rparr>)"
proof -
  have "\<exists>f. channel_handler collate env (Some u) ch q = and_then (resolveChannel env (Some u) ch) f \<and>
      (\<forall>sc s. \<not> sc_member sc \<longrightarrow> f sc s = (Inl writeChannelNotFound, s))"
    by (cases q; simp only: channel_handler.simps handlers; rule exI; intro conjI; (rule refl)?;
       simp add: and_then_def stranger_refused stranger_message require_def deny_def)
  then obtain f where f: "channel_handler collate env (Some u) ch q = and_then (resolveChannel env (Some u) ch) f"
      "\<And>sc s. \<not> sc_member sc \<Longrightarrow> f sc s = (Inl writeChannelNotFound, s)" by blast
  show ?thesis by (rule stranger_run [OF assms(1) f(2)]) (use assms(2) f(1) in \<open>simp_all add: serve_def\<close>)
qed

theorem stranger_learns_nothing_witness:
  "fst (serve size quiet_env (Some (demo_user 3)) (OnChannel 5 secret_send) demo_site) = writeChannelNotFound
   \<and> fst (serve size quiet_env (Some (demo_user 3)) (OnChannel 99 secret_send) demo_site) = writeChannelNotFound
   \<and> si_sent (snd (serve size quiet_env (Some (demo_user 3)) (OnChannel 5 secret_send) demo_site)) = []"
proof -
  have no: "\<not> IsChannelMember ch (u_id (demo_user 3)) (second_read quiet_env demo_site)" if "ch = 5 \<or> ch = 99" for ch
    using that by (auto simp: IsChannelMember_def sql_exists_def second_read_def first_read_def quiet_env_def demo_site_def demo_office_def demo_user_def)
  have ok: "reached quiet_env demo_site" by (simp add: reached_def quiet_env_def)
  obtain r st' where 5: "serve size quiet_env (Some (demo_user 3)) (OnChannel 5 secret_send) demo_site = (r, st')" by fastforce
  obtain r2 st2 where 99: "serve size quiet_env (Some (demo_user 3)) (OnChannel 99 secret_send) demo_site = (r2, st2)" by fastforce
  show ?thesis using stranger_learns_nothing [OF no 5] stranger_learns_nothing [OF no 99] 5 99 ok by (auto simp: demo_site_def)
qed

section \<open>Encryption at birth\<close>

lemma e2eeAtBirth_Inr:
  assumes "e2eeAtBirth env asserted st = (Inr e2ee, st1)"
  shows "e2ee = (encryption_mode (org_settings (first_read env st)) \<noteq> ''compliance'')" "asserted = None \<or> asserted = Some e2ee"
  using assms
  by (auto simp: e2eeAtBirth_def web_defs EncryptionMode_def EncryptionModeCompliance_def first_read_def split: outage.splits if_splits)

lemma CreateChannel_mode:
  assumes "CreateChannel ceq now i nc db = (Inr ch, db')"
  shows "ch_E2EE ch = nc_E2EE nc \<and> (\<exists>c \<in> set (channels db'). c_id c = ch_ID ch \<and> c_e2ee c = ch_E2EE ch)"
proof -
  have c: "create_channel_body ceq now i nc db = Inr (ch, db')"
    using assms by (auto simp: CreateChannel_def begin_func_def split: if_splits sum.splits)
  note facts = create_channel_Inr [OF c]
  obtain c where "c \<in> set (channels db')" "c_id c = ch_ID ch" "c_e2ee c = ch_E2EE ch" "ch_ID ch = i"
    using ChannelForUser_Inr [OF facts(4)] by auto
  moreover have "c = new_channel_row now i nc"
    using insert_channel_Inr [OF facts(1)] calculation facts(3) by (auto simp: new_channel_row_def)
  then have "c_e2ee c = nc_E2EE nc" by (simp add: new_channel_row_def)
  ultimately show ?thesis by (intro conjI bexI [of _ c]) simp_all
qed

lemma OpenDM_mode:
  assumes "OpenDirectMessage now i a b e2ee db = (Inr (ch, True), db')"
  shows "ch_E2EE ch = e2ee \<and> (\<exists>c \<in> set (channels db'). c_id c = ch_ID ch \<and> c_e2ee c = ch_E2EE ch)"
proof -
  have c: "open_dm_body now i a b e2ee db = Inr ((ch, True), db')"
    using assms by (auto simp: OpenDirectMessage_def begin_func_def split: if_splits sum.splits)
  from c show ?thesis
  proof (cases rule: open_dm_cases)
    case new
    obtain c where "c \<in> set (channels db')" "c_id c = ch_ID ch" "c_e2ee c = ch_E2EE ch" "ch_ID ch = i"
      using ChannelForUser_Inr [OF new(5)] by auto
    moreover have "c = dm_row now i a b e2ee"
      using insert_channel_Inr [OF new(3)] calculation new(4) by (auto simp: dm_row_def)
    then have "c_e2ee c = e2ee" by (simp add: dm_row_def)
    ultimately show ?thesis by (intro conjI bexI [of _ c]) simp_all
  qed simp
qed

text \<open>A step that stops a request answers an error: no page, channel or message.\<close>

definition plain :: "('b, 'a) web \<Rightarrow> bool" where
  "plain m \<longleftrightarrow> (\<forall>st r st'. m st = (Inl r, st') \<longrightarrow> (\<forall>n b. r \<noteq> Json n b))"

lemma plain_steps:
  "plain (give a)" "plain (tell ev)" "plain (call env g)" "plain (ask env h)"
  "\<forall>n b. r \<noteq> Json n b \<Longrightarrow> plain (stop r)" "\<forall>n b. r \<noteq> Json n b \<Longrightarrow> plain (require c r)"
  "\<forall>e r n b. t e = Some r \<longrightarrow> r \<noteq> Json n b \<Longrightarrow> plain (or_answer t x)"
  "plain (principalFrom prin)" "plain (requireStore env)" "plain (decodeJSON body)"
  by (auto simp: plain_def web_defs tell_def decodeJSON_def internalError_def malformed_def invalid_def
      split: outage.splits option.splits sum.splits)

lemma plain_and_then: "plain m \<Longrightarrow> (\<And>a. plain (f a)) \<Longrightarrow> plain (and_then m f)"
  unfolding plain_def and_then_def by (auto split: prod.splits sum.splits)

lemma plain_birth: "plain (e2eeAtBirth env asserted)"
  unfolding e2eeAtBirth_def Let_def by (auto intro!: plain_and_then plain_steps)

lemma plain_validate: "plain (checked (validateCreateChannel req i))"
  by (auto simp: plain_def checked_def validateCreateChannel_def topic_refusal_def Let_def invalid_def split: if_splits option.splits)

lemma plain_announce: "plain (announceInvitation env ch uid)"
  unfolding announceInvitation_def by (auto intro!: plain_and_then plain_steps split: sum.split)

lemma plain_create: "plain (api_CreateChannel env prin body)"
  unfolding api_CreateChannel_def by (intro plain_and_then plain_steps plain_birth plain_validate) auto

lemma plain_open: "plain (api_OpenDirectMessage env prin body)"
  unfolding api_OpenDirectMessage_def
  by (auto intro!: plain_and_then plain_steps plain_birth plain_announce simp: invalid_def split: if_splits)

lemma run_plain: "plain m \<Longrightarrow> run m st = (Json n b, st') \<Longrightarrow> m st = (Inr (Json n b), st')"
  by (auto simp: run_def plain_def split: prod.splits sum.splits)

text \<open>What a step's answer leaves the rest with.\<close>

lemma and_then_Inr: "and_then m f st = (Inr b, st') \<Longrightarrow> \<exists>a st1. m st = (Inr a, st1) \<and> f a st1 = (Inr b, st')"
  by (auto simp: and_then_def split: prod.splits sum.splits)

lemma or_answer_Inr: "or_answer t r st = (Inr a, st1) \<Longrightarrow> r = Inr a \<and> st1 = st"
  by (auto simp: or_answer_def give_def stop_def split: sum.splits)

lemma call_Inr:
  "call env g st = (Inr (Inr a), st1) \<Longrightarrow> g (si_calls st) (first_read env st) = (Inr a, si_db st1) \<and> si_sent st1 = si_sent st"
  by (auto simp: call_eq Let_def first_read_def split: outage.splits) (metis prod.collapse)

lemma and_then_free:
  "and_then (principalFrom (Some u)) f st = f u st"
  "and_then (requireStore env) g st = (if ce_store env then g () st else (Inl internalError, st))"
  "and_then (decodeJSON (Some req)) h st = h req st"
  "and_then (checked x) k st = (case x of Inl r \<Rightarrow> (Inl r, st) | Inr a \<Rightarrow> k a st)"
  "and_then (require c r) l st = (if c then l () st else (Inl r, st))"
  by (simp_all add: and_then_def principalFrom_def requireStore_def decodeJSON_def checked_def require_def give_def)

text \<open>A store call that succeeded, and the rest of the handler after it.\<close>

lemma and_then_call:
  fixes f :: "'a \<Rightarrow> ('b, 'c) web"
  assumes "and_then (call env g) (\<lambda>r. and_then (or_answer t r) f) st = (Inr b, st')"
  shows "\<exists>a st1. g (si_calls st) (first_read env st) = (Inr a, si_db st1) \<and> f a st1 = (Inr b, st')"
proof -
  obtain r st1 where r: "call env g st = (Inr r :: 'b response + _, st1)" "and_then (or_answer t r) f st1 = (Inr b, st')"
    using and_then_Inr [OF assms] by blast
  obtain a st2 where a: "or_answer t r st1 = (Inr a :: 'b response + _, st2)" "f a st2 = (Inr b, st')" using and_then_Inr [OF r(2)] by blast
  have "r = Inr a" "st2 = st1" using or_answer_Inr [OF a(1)] by auto
  then show ?thesis using call_Inr [of env g st a st1] r(1) a(2) by auto
qed

lemma seq_call:
  assumes "and_then m (\<lambda>x. and_then (call env (g x)) (\<lambda>r. and_then (or_answer t r) (f x))) st = (Inr b, st')"
  shows "\<exists>x st1 a st2. m st = (Inr x, st1) \<and> g x (si_calls st1) (first_read env st1) = (Inr a, si_db st2) \<and> f x a st2 = (Inr b, st')"
proof -
  obtain x st1 where m: "m st = (Inr x, st1)" "and_then (call env (g x)) (\<lambda>r. and_then (or_answer t r) (f x)) st1 = (Inr b, st')"
    using and_then_Inr [OF assms] by blast
  show ?thesis using m(1) and_then_call [OF m(2)] by blast
qed

lemma announce_kept:
  assumes "\<forall>k db. modes_kept db (ce_mid env k db)" and "announceInvitation env ch uid st = (x, st')"
  shows "modes_kept (si_db st) (si_db st')"
  using assms by (auto simp: announceInvitation_def ask_def call_eq and_then_def give_def tell_def Let_def split: outage.splits sum.splits)

lemma tell_give: "and_then (tell ev) (\<lambda>_. give x) st = (Inr y, st') \<Longrightarrow> y = x \<and> si_db st' = si_db st"
  by (auto simp: and_then_def tell_def give_def)

lemma create_born:
  assumes "api_CreateChannel env (Some u) (Some req) st = (Inr (Json n (ChannelBody c)), st')"
  shows "\<exists>ch st1. e2eeAtBirth env (ccr_E2ee req) st = (Inr (ch_E2EE ch) :: conv_body response + bool, st1) \<and> c = apiChannel ch \<and>
    (\<exists>row \<in> set (channels (si_db st')). c_id row = ch_ID ch \<and> c_e2ee row = ch_E2EE ch)"
proof -
  have "ce_store env" using assms by (simp add: api_CreateChannel_def and_then_free split: if_splits)
  then obtain nc where nc: "validateCreateChannel req (u_id u) = (Inr nc :: conv_body response + _)"
    using assms by (cases "validateCreateChannel req (u_id u) :: conv_body response + _") (simp_all add: api_CreateChannel_def and_then_free)
  note rest = assms [unfolded api_CreateChannel_def and_then_free nc sum.case if_P [OF \<open>ce_store env\<close>]]
  obtain e2ee st1 ch st2 where b: "e2eeAtBirth env (ccr_E2ee req) st = (Inr e2ee :: conv_body response + bool, st1)"
    and c: "CreateChannel (ce_citext env) (ce_clock env (si_calls st1)) (ce_ids env (si_calls st1)) (nc\<lparr>nc_E2EE := e2ee\<rparr>) (first_read env st1) = (Inr ch, si_db st2)"
    and f: "and_then (tell (ChannelCreated [u_id u] ch) :: (conv_body, unit) web) (\<lambda>_. give (Json 201 (ChannelBody (apiChannel ch)))) st2
      = (Inr (Json n (ChannelBody c)), st')"
    using seq_call [OF rest] by blast
  have "c = apiChannel ch" "si_db st' = si_db st2" using tell_give [OF f] by simp_all
  with b show ?thesis using CreateChannel_mode [OF c] by auto
qed

lemma open_born:
  assumes "api_OpenDirectMessage env (Some u) (Some req) st = (Inr (Json 201 (ChannelBody c)), st')"
    and "\<forall>k db. modes_kept db (ce_mid env k db)"
  shows "\<exists>ch st1. e2eeAtBirth env (odr_E2ee req) st = (Inr (ch_E2EE ch) :: conv_body response + bool, st1) \<and> c = apiChannel ch \<and>
    (\<exists>row \<in> set (channels (si_db st')). c_id row = ch_ID ch \<and> c_e2ee row = ch_E2EE ch)"
proof -
  have ok: "ce_store env" "odr_UserId req \<noteq> 0" using assms(1) by (simp_all add: api_OpenDirectMessage_def and_then_free split: if_splits)
  note rest = assms(1) [unfolded api_OpenDirectMessage_def and_then_free if_P [OF ok(1)] if_P [OF ok(2)]]
  obtain e2ee st1 p st2 where b: "e2eeAtBirth env (odr_E2ee req) st = (Inr e2ee :: conv_body response + bool, st1)"
    and c: "OpenDirectMessage (ce_clock env (si_calls st1)) (ce_ids env (si_calls st1)) (u_id u) (odr_UserId req) e2ee (first_read env st1) = (Inr p, si_db st2)"
    and f: "(case p of (ch, created) \<Rightarrow> and_then (if created
        then and_then (tell (ChannelCreated [u_id u] ch) :: (conv_body, unit) web) (\<lambda>_. announceInvitation env (ch_ID ch) (odr_UserId req))
        else give ()) (\<lambda>_. give (Json (if created then 201 else 200) (ChannelBody (apiChannel ch))))) st2 = (Inr (Json 201 (ChannelBody c)), st')"
    using seq_call [OF rest] by blast
  obtain ch created where p: "p = (ch, created)" by (cases p)
  have cr: "created" using f by (auto simp: p and_then_def give_def split: if_splits)
  let ?told = "st2\<lparr>si_sent := si_sent st2 @ [ChannelCreated [u_id u] ch]\<rparr>"
  have r: "c = apiChannel ch" and inv: "announceInvitation env (ch_ID ch) (odr_UserId req) ?told = (Inr () :: conv_body response + unit, st')"
    using f by (auto simp: p cr and_then_def tell_def give_def split: prod.splits sum.splits)
  have kept: "modes_kept (si_db st2) (si_db st')" using announce_kept [OF assms(2) inv] by simp
  note mode = OpenDM_mode [OF c [unfolded p eqTrueI [OF cr]]]
  then obtain row where "row \<in> set (channels (si_db st2))" "c_id row = ch_ID ch" "c_e2ee row = ch_E2EE ch" by blast
  with kept have "\<exists>row \<in> set (channels (si_db st')). c_id row = ch_ID ch \<and> c_e2ee row = ch_E2EE ch"
    unfolding modes_kept_def by fastforce
  with b r mode show ?thesis by auto
qed

text \<open>
  A conversation is born in the organisation's mode. When a request to create a channel or to open a direct
  message is answered with a new conversation, it is encrypted exactly if the organisation's mode, as the
  request read it, is not \<open>compliance\<close>; a client that said which of the two it wants got what it said; and the
  store holds the conversation in that mode when the request ends, whatever runs in between, as long as that
  converts no conversation. (A client that asks for the opposite is refused.)
\<close>

theorem born_in_mode:
  assumes "serve collate env (Some u) rq st = (Json 201 (ChannelBody c), st')" and "\<forall>k db. modes_kept db (ce_mid env k db)"
    and "rq = Create (Some req) \<and> asserted = ccr_E2ee req \<or> rq = OpenDM (Some dreq) \<and> asserted = odr_E2ee dreq"
  shows "ac_E2ee c = (encryption_mode (org_settings (first_read env st)) \<noteq> ''compliance'')
    \<and> (asserted = None \<or> asserted = Some (ac_E2ee c))
    \<and> (\<exists>row \<in> set (channels (si_db st')). c_id row = ac_Id c \<and> c_e2ee row = ac_E2ee c)"
proof -
  have "\<exists>ch st1. e2eeAtBirth env asserted st = (Inr (ch_E2EE ch) :: conv_body response + bool, st1) \<and> c = apiChannel ch \<and>
    (\<exists>row \<in> set (channels (si_db st')). c_id row = ch_ID ch \<and> c_e2ee row = ch_E2EE ch)"
    using assms(3)
  proof
    assume rq: "rq = Create (Some req) \<and> asserted = ccr_E2ee req"
    then have "run (api_CreateChannel env (Some u) (Some req)) st = (Json 201 (ChannelBody c), st')" using assms(1) by (simp add: serve_def)
    from create_born [OF run_plain [OF plain_create this]] rq show ?thesis by simp
  next
    assume rq: "rq = OpenDM (Some dreq) \<and> asserted = odr_E2ee dreq"
    then have "run (api_OpenDirectMessage env (Some u) (Some dreq)) st = (Json 201 (ChannelBody c), st')" using assms(1) by (simp add: serve_def)
    from open_born [OF run_plain [OF plain_open this] assms(2)] rq show ?thesis by simp
  qed
  then obtain ch st1 where b: "e2eeAtBirth env asserted st = (Inr (ch_E2EE ch) :: conv_body response + bool, st1)"
    and c: "c = apiChannel ch" and row: "\<exists>row \<in> set (channels (si_db st')). c_id row = ch_ID ch \<and> c_e2ee row = ch_E2EE ch"
    by blast
  show ?thesis using e2eeAtBirth_Inr [OF b] row unfolding c by (simp add: apiChannel_def)
qed

theorem born_in_mode_witness:
  "case serve size quiet_env (Some (demo_user 1)) (OpenDM (Some \<lparr>odr_UserId = 3, odr_E2ee = None\<rparr>)) demo_site of
     (Json n (ChannelBody c), st') \<Rightarrow> n = 201 \<and> ac_E2ee c \<and> (\<exists>row \<in> set (channels (si_db st')). c_id row = ac_Id c \<and> c_e2ee row)
   | _ \<Rightarrow> False"
proof -
  let ?s = "serve size quiet_env (Some (demo_user 1)) (OpenDM (Some \<lparr>odr_UserId = 3, odr_E2ee = None\<rparr>)) demo_site"
  have "case ?s of (Json n (ChannelBody c), st') \<Rightarrow> n = 201 | _ \<Rightarrow> False" by code_simp
  then obtain c st' where s: "?s = (Json 201 (ChannelBody c), st')"
    by (auto split: prod.splits response.splits conv_body.splits)
  have "encryption_mode (org_settings (first_read quiet_env demo_site)) \<noteq> ''compliance''" by code_simp
  moreover have "\<forall>k db. modes_kept db (ce_mid quiet_env k db)" by (simp add: quiet_env_def)
  ultimately show ?thesis
    using born_in_mode [OF s, of undefined None "\<lparr>odr_UserId = 3, odr_E2ee = None\<rparr>"] s by auto
qed

end
