(* ===== verification/Conversation_Pages.thy ===== *)
theory Conversation_Pages
  imports Conversation_Safety Message_History
begin

text \<open>
  Two more guarantees of the conversation handlers, each for a store at rest between the calls of a request:
  nobody's words are changed but the caller's own, and a client that follows the opaque cursors reads its
  whole list.
\<close>

section \<open>A store at rest\<close>

definition quiet :: "conv_env \<Rightarrow> bool" where
  "quiet env \<longleftrightarrow> (\<forall>k db. ce_mid env k db = db) \<and> (\<forall>k n db. ce_send_mid env k n db = db)"

text \<open>
  \<open>from_rest db P m\<close>: run on the database \<open>db\<close>, the step leaves one that satisfies \<open>P\<close>. The rules hand the
  continuation what the step found in \<open>db\<close>.
\<close>

definition from_rest :: "db \<Rightarrow> (db \<Rightarrow> bool) \<Rightarrow> ('b, 'a) web \<Rightarrow> bool" where
  "from_rest db P m \<longleftrightarrow> (\<forall>st :: site. si_db st = db \<longrightarrow> P (si_db (snd (m st))))"

named_theorems rest_rules

lemma stable_quiet: "quiet env \<Longrightarrow> stable env P"
  by (simp add: quiet_def stable_def)

lemma rest_keeps: "P db \<Longrightarrow> keeps P m \<Longrightarrow> from_rest db P m"
  by (simp add: from_rest_def keeps_def)

lemma rest_require [rest_rules]: "P db \<Longrightarrow> (c \<Longrightarrow> from_rest db P (f ())) \<Longrightarrow> from_rest db P (and_then (require c r) f)"
  by (simp add: from_rest_def and_then_def require_def)

lemma rest_checked [rest_rules]: "P db \<Longrightarrow> (\<And>a. x = Inr a \<Longrightarrow> from_rest db P (f a)) \<Longrightarrow> from_rest db P (and_then (checked x) f)"
  by (cases x) (simp_all add: from_rest_def and_then_def checked_def)

lemma rest_principal [rest_rules]: "from_rest db P (f u) \<Longrightarrow> from_rest db P (and_then (principalFrom (Some u)) f)"
  by (simp add: from_rest_def and_then_def principalFrom_def give_def)

lemma rest_store [rest_rules]: "P db \<Longrightarrow> from_rest db P (f ()) \<Longrightarrow> from_rest db P (and_then (requireStore env) f)"
  unfolding requireStore_def by (rule rest_require)

lemma rest_decode [rest_rules]: "P db \<Longrightarrow> (\<And>r. body = Some r \<Longrightarrow> from_rest db P (f r)) \<Longrightarrow> from_rest db P (and_then (decodeJSON body) f)"
  by (cases body) (simp_all add: from_rest_def and_then_def decodeJSON_def give_def stop_def)

lemma rest_storable [rest_rules]: "P db \<Longrightarrow> from_rest db P (f ()) \<Longrightarrow> from_rest db P (and_then (storable_content s) f)"
  unfolding storable_content_def by (rule rest_require)

lemma rest_answer [rest_rules]: "P db \<Longrightarrow> (\<And>a. r = Inr a \<Longrightarrow> from_rest db P (f a)) \<Longrightarrow> from_rest db P (and_then (or_answer t r) f)"
  by (cases r) (simp_all add: from_rest_def and_then_def or_answer_def give_def stop_def)

lemma rest_ask [rest_rules]:
  "quiet env \<Longrightarrow> P db \<Longrightarrow> (\<And>r. r = h db \<or> r = Inl unavailable \<Longrightarrow> from_rest db P (f r)) \<Longrightarrow> from_rest db P (and_then (ask env h) f)"
  by (simp add: from_rest_def and_then_def ask_def call_eq quiet_def Let_def split: outage.split)

lemma rest_call:
  "quiet env \<Longrightarrow> P db \<Longrightarrow> (\<And>k. P (snd (g k db))) \<Longrightarrow> (\<And>r. keeps P (f r)) \<Longrightarrow> from_rest db P (and_then (call env g) f)"
  by (simp add: from_rest_def keeps_def and_then_def call_eq quiet_def Let_def split: outage.split)

lemma rest_allowed [rest_rules]:
  "P db \<Longrightarrow> (sc_member sc \<Longrightarrow> from_rest db P (f ())) \<Longrightarrow> from_rest db P (and_then (allowed sc act) f)"
  unfolding allowed_def
  by (rule rest_require) (auto dest!: choke.channel_needs_member simp: sc_resource_def Authz.NewChannel_def)

lemma rest_resolve [rest_rules]:
  fixes f :: "channelScope \<Rightarrow> ('b, 'c) web"
  assumes "quiet env" and "P db"
    and "\<And>sc. sc_prin sc = u \<Longrightarrow> ch_ID (sc_channel sc) = ch \<Longrightarrow> sc_member sc = IsChannelMember ch (u_id u) db \<Longrightarrow>
      scoped ch sc db \<Longrightarrow> from_rest db P (f sc)"
  shows "from_rest db P (and_then (resolveChannel env (Some u) ch) f)"
  unfolding from_rest_def
proof (intro allI impI)
  fix st :: site assume st: "si_db st = db"
  have reads: "first_read env st = db" "second_read env st = db" using assms(1) st by (simp_all add: first_read_def second_read_def quiet_def)
  obtain x :: "'b response + channelScope" and st1 where x: "resolveChannel env (Some u) ch st = (x, st1)" by fastforce
  then show "P (si_db (snd (and_then (resolveChannel env (Some u) ch) f st)))"
  proof (cases rule: resolve_cases)
    case (answered y)
    then show ?thesis using x assms(2) st reads by (auto simp: and_then_def)
  next
    case (resolved c)
    have "from_rest db P (f \<lparr>sc_prin = u, sc_channel = c, sc_member = IsChannelMember ch (u_id u) db\<rparr>)"
      using ChannelForUser_Inr [OF resolved(1)] reads by (intro assms(3)) (auto simp: scoped_def)
    then show ?thesis using x resolved(3,4) reads by (simp add: and_then_def from_rest_def)
  qed
qed

lemma rest_message [rest_rules]:
  assumes "quiet env" and "P db"
    and "\<And>msg. sc_member sc \<Longrightarrow> MessageByID (ch_ID (sc_channel sc)) i db = Inr msg \<Longrightarrow> from_rest db P (f msg)"
  shows "from_rest db P (and_then (resolveMessage env sc i) f)"
proof -
  have "from_rest db P (and_then (require (sc_member sc) (deny sc)) (\<lambda>_.
     and_then (ask env (MessageByID (ch_ID (sc_channel sc)) i)) (\<lambda>r.
     and_then (or_answer (\<lambda>e. if e = ErrNotFound then Some writeChannelNotFound else None) r) f)))"
    using assms by (intro rest_rules) auto
  moreover have "and_then (resolveMessage env sc i) f = and_then (require (sc_member sc) (deny sc)) (\<lambda>_.
     and_then (ask env (MessageByID (ch_ID (sc_channel sc)) i)) (\<lambda>r.
     and_then (or_answer (\<lambda>e. if e = ErrNotFound then Some writeChannelNotFound else None) r) f))"
    by (simp add: fun_eq_iff resolveMessage_def and_then_def split: prod.split sum.split)
  ultimately show ?thesis by simp
qed

section \<open>Own words only\<close>

text \<open>
  What a request by \<open>uid\<close> may make of a message: nothing, or another version of the caller's own, or, where the
  caller is an administrator and a member of its conversation, its deletion.
\<close>

definition may_become :: "uuid \<Rightarrow> bool \<Rightarrow> db \<Rightarrow> message_row \<Rightarrow> message_row \<Rightarrow> bool" where
  "may_become uid admin db m m' \<longleftrightarrow> m' = m \<or> m_author m = uid \<and> m_author m' = uid \<or>
     admin \<and> IsChannelMember (m_channel m) uid db \<and> (\<exists>t. m' = erase t uid m)"

definition own_only :: "uuid \<Rightarrow> bool \<Rightarrow> db \<Rightarrow> db \<Rightarrow> bool" where
  "own_only uid admin db db' \<longleftrightarrow> (\<exists>old new. messages db' = old @ new \<and> list_all2 (may_become uid admin db) (messages db) old \<and>
     (\<forall>m \<in> set new. m_author m = uid \<and> IsChannelMember (m_channel m) uid db))"

lemma own_refl: "messages db' = messages db \<Longrightarrow> own_only uid admin db db'"
  unfolding own_only_def by (intro exI [of _ "messages db"] exI [of _ "[]"]) (auto simp: may_become_def intro: list_all2_refl)

lemma own_append: "messages db' = messages db @ [row] \<Longrightarrow> m_author row = uid \<Longrightarrow> IsChannelMember (m_channel row) uid db \<Longrightarrow> own_only uid admin db db'"
  unfolding own_only_def by (intro exI [of _ "messages db"] exI [of _ "[row]"]) (auto simp: may_become_def intro: list_all2_refl)

lemma own_update:
  assumes "messages db' = sql_update P f (messages db)" and "\<And>m. m \<in> set (messages db) \<Longrightarrow> P m \<Longrightarrow> may_become uid admin db m (f m)"
  shows "own_only uid admin db db'"
  unfolding own_only_def
proof (intro exI conjI)
  show "messages db' = sql_update P f (messages db) @ []" using assms(1) by simp
  show "list_all2 (may_become uid admin db) (messages db) (sql_update P f (messages db))"
    using assms(2) by (auto simp: sql_update_def list_all2_map2 list_all2_same) (simp add: may_become_def)
qed simp

lemma own_begin: "(\<And>a db'. f db = Inr (a, db') \<Longrightarrow> own_only uid admin db db') \<Longrightarrow> own_only uid admin db (snd (begin_func f db))"
  by (cases "f db") (auto simp: begin_func_def own_refl)

lemma own_create: "own_only uid admin db (snd (CreateChannel ceq now i nc db))"
proof (cases "nc_Kind nc \<noteq> ChannelKindPublic \<and> nc_Kind nc \<noteq> ChannelKindPrivate")
  case False
  have "own_only uid admin db (snd (begin_func (create_channel_body ceq now i nc) db))"
    by (rule own_begin) (auto dest!: create_channel_Inr(3) intro: own_refl)
  with False show ?thesis by (auto simp: CreateChannel_def)
qed (auto simp: CreateChannel_def own_refl)

lemma own_open: "own_only uid admin db (snd (OpenDirectMessage now i a b e2ee db))"
proof -
  have "own_only uid admin db (snd (begin_func (open_dm_body now i a b e2ee) db))"
  proof (rule own_begin)
    fix r db' assume o: "open_dm_body now i a b e2ee db = Inr (r, db')"
    obtain ch created where r: "r = (ch, created)" by (cases r)
    from o [unfolded r] show "own_only uid admin db db'" by (cases rule: open_dm_cases) (auto intro: own_refl)
  qed
  then show ?thesis by (simp add: OpenDirectMessage_def own_refl)
qed

lemma own_channel_ops:
  "own_only uid admin db (snd (UpdateChannelTopic i topic db))"
  "own_only uid admin db (snd (AddChannelMember ch who by_whom db))"
  "own_only uid admin db (snd (RemoveChannelMember ch who db))"
  "own_only uid admin db (snd (SetReadPosition ch who msg db))"
  unfolding UpdateChannelTopic_def AddChannelMember_def RemoveChannelMember_def SetReadPosition_def
  by (rule own_begin, force dest: update_topic_Inr add_member_Inr remove_member_Inr intro: own_refl
      simp: set_read_body_def Let_def split: option.splits if_splits)+

lemma own_send:
  assumes "\<And>k n d. mid n d = d" and "IsChannelMember (nm_ChannelID nm) (nm_AuthorID nm) db"
  shows "own_only (nm_AuthorID nm) admin db (snd (CreateMessage parse mid clock ids nm db))"
proof -
  have "own_only (nm_AuthorID nm) admin db (snd (send_loop n mid clock ids nm mentioned db))" for n mentioned
  proof (induction n)
    case (Suc n)
    obtain r db1 where f: "begin_func (insertMessage (clock n) (ids n) nm mentioned) db = (r, db1)" by fastforce
    show ?case
    proof (cases r)
      case (Inl e)
      then have "db1 = db" using f by (auto simp: begin_func_def split: sum.splits)
      then show ?thesis using Suc.IH f [unfolded Inl] by (auto simp del: begin_func_Inl simp: assms(1) own_refl split: sum.split)
    next
      case (Inr msg)
      then have "messages db1 = messages db @ [new_message_row (clock n) (ids n) nm]" using f insertMessage_Inr(3) by fastforce
      then have "own_only (nm_AuthorID nm) admin db db1" by (rule own_append) (simp_all add: new_message_row_def assms(2))
      then show ?thesis using f [unfolded Inr] by (simp del: begin_func_Inr)
    qed
  qed (simp add: own_refl)
  then show ?thesis by (simp add: CreateMessage_def own_refl)
qed

text \<open>The message a handler found is the only one its write touches.\<close>

lemma MessageByID_only:
  assumes "distinct (map m_id (messages db))" and "MessageByID ch i db = Inr msg" and "m \<in> set (messages db)" and "editable ch i m"
  shows "ma_ID (ms_Author msg) = m_author m \<and> m_channel m = ch"
proof -
  obtain m0 where m0: "sql_row (\<lambda>m. m_channel m = ch \<and> m_id m = i) (messages db) = Some m0" "scanMessage db m0 = Some msg"
    using assms(2) by (auto simp: MessageByID_def split: option.splits)
  then have "m0 \<in> set (messages db)" "m_id m0 = i" by (auto dest!: sql_row_Some_iff)
  then have "m0 = m" using assms(1,3,4) by (auto simp: distinct_map inj_on_def editable_def)
  then show ?thesis using m0(2) assms(4) by (auto simp: scanMessage_def editable_def dest!: sql_row_Some_iff)
qed

lemma own_edit:
  assumes "distinct (map m_id (messages db))" and "MessageByID ch i db = Inr msg" and "ma_ID (ms_Author msg) = uid"
  shows "own_only uid admin db (snd (UpdateMessageContent parse snap now ch i content mls db))"
  unfolding UpdateMessageContent_def
proof (rule own_begin)
  fix a db' assume "update_message_body parse snap now ch i content mls db = Inr (a, db')"
  then have "messages db' = sql_update (editable ch i) (\<lambda>m. m\<lparr>m_content := content, m_mls := mls_columns mls, m_edited := Some now\<rparr>) (messages db)"
    by (auto simp: update_message_body_def Let_def split: option.splits if_splits)
  then show "own_only uid admin db db'"
    by (rule own_update) (use MessageByID_only [OF assms(1,2)] assms(3) in \<open>auto simp: may_become_def\<close>)
qed

lemma own_delete:
  assumes "distinct (map m_id (messages db))" and "MessageByID ch i db = Inr msg"
    and "ma_ID (ms_Author msg) = uid \<or> admin \<and> IsChannelMember ch uid db"
  shows "own_only uid admin db (snd (SoftDeleteMessage now ch i uid db))"
  unfolding SoftDeleteMessage_def
proof (rule own_begin)
  fix a db' assume "soft_delete_body now ch i uid db = Inr (a, db')"
  then have "messages db' = sql_update (editable ch i) (erase now uid) (messages db)"
    by (auto simp: soft_delete_body_def split: option.splits if_splits)
  then show "own_only uid admin db db'"
    by (rule own_update) (use MessageByID_only [OF assms(1,2)] assms(3) in \<open>auto simp: may_become_def erase_def\<close>)
qed

lemma rest_give [rest_rules]: "P db \<Longrightarrow> from_rest db P (give a)"
  by (simp add: from_rest_def give_def)

lemma rest_birth [rest_rules]:
  fixes f :: "bool \<Rightarrow> ('b, 'c) web"
  assumes "quiet env" and "P db" and "\<And>a. from_rest db P (f a)"
  shows "from_rest db P (and_then (e2eeAtBirth env asserted) f)"
proof -
  have "keeps ((=) db) (e2eeAtBirth env asserted :: ('b, bool) web)" using stable_quiet [OF assms(1)] by (rule keeps_birth)
  then have still: "si_db (snd ((e2eeAtBirth env asserted :: ('b, bool) web) st)) = db" if "si_db st = db" for st :: site using that by (simp add: keeps_def)
  show ?thesis
    unfolding from_rest_def
  proof (intro allI impI)
    fix st :: site assume "si_db st = db"
    then have "si_db (snd ((e2eeAtBirth env asserted :: ('b, bool) web) st)) = db" by (rule still)
    then show "P (si_db (snd (and_then (e2eeAtBirth env asserted) f st)))"
      using assms(2,3) by (auto simp: from_rest_def and_then_def split: prod.split sum.split)
  qed
qed

lemma rest_refusal [rest_rules]: "P db \<Longrightarrow> from_rest db P (f ()) \<Longrightarrow> from_rest db P (and_then (case x of None \<Rightarrow> give () | Some r \<Rightarrow> stop r) f)"
  by (cases x) (simp_all add: from_rest_def and_then_def give_def stop_def)

text \<open>What follows the write of a handler only reads, and tells.\<close>

lemma own_rest_of_handler:
  assumes "quiet env"
  shows "keeps P (and_then (or_answer t r) (\<lambda>ch. and_then (tell (ev ch)) (\<lambda>_. give (x ch))))"
    "keeps P (announceInvitation env ch uid)" "keeps P (namedMember env uid)"
  using stable_quiet [OF assms] by (intro keeps_and_then keeps_rules; assumption)+

lemma own_lists:
  assumes "quiet env"
  shows "from_rest db (own_only uid admin db) (api_ListChannels env (Some u) lim cursor)"
    "from_rest db (own_only uid admin db) (api_CreateChannel env (Some u) body)"
    "from_rest db (own_only uid admin db) (api_OpenDirectMessage env (Some u) dbody)"
  unfolding api_ListChannels_def api_CreateChannel_def api_OpenDirectMessage_def Let_def
  by (intro rest_rules rest_call own_create own_open keeps_and_then keeps_rules own_rest_of_handler stable_quiet assms own_refl refl)+

lemma own_about_channel:
  assumes "quiet env"
  shows "from_rest db (own_only (u_id u) admin db) (api_GetChannel env (Some u) ch)"
    "from_rest db (own_only (u_id u) admin db) (api_UpdateChannel env (Some u) ch topic)"
    "from_rest db (own_only (u_id u) admin db) (api_ListChannelMembers collate env (Some u) ch lim cursor)"
    "from_rest db (own_only (u_id u) admin db) (api_AddChannelMember env (Some u) ch who)"
    "from_rest db (own_only (u_id u) admin db) (api_RemoveChannelMember env (Some u) ch target)"
    "from_rest db (own_only (u_id u) admin db) (api_ListMessages env (Some u) ch params)"
    "from_rest db (own_only (u_id u) admin db) (api_SetReadPosition env (Some u) ch msg)"
  unfolding api_GetChannel_def api_UpdateChannel_def api_ListChannelMembers_def api_AddChannelMember_def
    api_RemoveChannelMember_def api_ListMessages_def api_SetReadPosition_def Let_def
  by (intro rest_rules rest_call own_channel_ops keeps_and_then keeps_rules own_rest_of_handler stable_quiet assms own_refl refl)+

lemma own_words:
  assumes "quiet env" and "distinct (map m_id (messages db))"
  shows "from_rest db (own_only (u_id u) (u_is_admin u) db) (api_SendMessage env (Some u) ch send)"
    "from_rest db (own_only (u_id u) (u_is_admin u) db) (api_EditMessage env (Some u) ch i edit)"
    "from_rest db (own_only (u_id u) (u_is_admin u) db) (api_DeleteMessage env (Some u) ch i)"
proof -
  have send: "own_only (u_id u) (u_is_admin u) db (snd (CreateMessage (ce_parse env) (ce_send_mid env k) (ce_send_clock env k) (ce_send_ids env k)
      \<lparr>nm_ChannelID = ch, nm_AuthorID = u_id (sc_prin sc), nm_ClientMsgID = key, nm_Content = content, nm_AttachmentIDs = atts, nm_Mls = mls\<rparr> db))"
    if "sc_prin sc = u" "sc_member sc = IsChannelMember ch (u_id u) db" "sc_member sc" for sc k key content atts mls
    using own_send [of "ce_send_mid env k" "\<lparr>nm_ChannelID = ch, nm_AuthorID = u_id u, nm_ClientMsgID = key, nm_Content = content,
      nm_AttachmentIDs = atts, nm_Mls = mls\<rparr>" db] that assms(1) by (simp add: quiet_def)
  have edit: "ma_ID (ms_Author msg) = u_id (sc_prin sc)"
    if "Can (caller (sc_prin sc)) MessageEdit (MessageRes (messageResource sc msg))" for sc msg
    using that by (auto simp: caller_def can_defs messageResource_def split: if_splits)
  have delete: "ma_ID (ms_Author msg) = u_id (sc_prin sc) \<or> u_is_admin (sc_prin sc)"
    if "Can (caller (sc_prin sc)) MessageDelete (MessageRes (messageResource sc msg))" for sc msg
    using that by (auto simp: caller_def can_defs messageResource_def split: if_splits)
  note finish = keeps_and_then keeps_rules stable_quiet [OF assms(1)] own_refl [OF refl]
  show "from_rest db (own_only (u_id u) (u_is_admin u) db) (api_SendMessage env (Some u) ch send)"
    unfolding api_SendMessage_def by (intro rest_rules rest_call assms(1) finish send)
  show "from_rest db (own_only (u_id u) (u_is_admin u) db) (api_EditMessage env (Some u) ch i edit)"
    unfolding api_EditMessage_def
    by (intro rest_rules rest_call assms(1) finish) (auto intro: own_edit [OF assms(2)] edit)
  show "from_rest db (own_only (u_id u) (u_is_admin u) db) (api_DeleteMessage env (Some u) ch i)"
    unfolding api_DeleteMessage_def
    by (intro rest_rules rest_call assms(1) finish) (auto intro!: own_delete [OF assms(2)] dest: delete)
qed

text \<open>
  C14. Own words only. On a store whose message identifiers are distinct, with nothing else running, whatever a
  signed-in user requests of the conversation handlers, every message of the store stays as it is, unless it
  is the user's own, or the user is an administrator and a member of its conversation and the message is
  deleted in their name; and every new message is the user's own, in a conversation the user is a member of.
\<close>

theorem own_words_only:
  assumes "quiet env" and "distinct (map m_id (messages (si_db st)))"
  shows "own_only (u_id u) (u_is_admin u) (si_db st) (si_db (snd (serve collate env (Some u) rq st)))"
proof -
  have "from_rest (si_db st) (own_only (u_id u) (u_is_admin u) (si_db st)) (handler collate env (Some u) rq)"
  proof (cases rq)
    case (OnChannel ch crq)
    then show ?thesis using own_about_channel [OF assms(1)] own_words [OF assms] by (cases crq) simp_all
  qed (use own_lists [OF assms(1)] in simp_all)
  then show ?thesis by (auto simp: from_rest_def serve_def run_def split: prod.split sum.split)
qed

text \<open>An administrator who is a member deletes another's message; one who is not, or another member, does not.\<close>

definition talked :: site where
  "talked = snd (serve size quiet_env (Some (demo_user 1)) (OnChannel 6 clear_send)
     (demo_site\<lparr>si_db := demo_office\<lparr>channel_members := \<lparr>cm_channel = 6, cm_user = 2\<rparr> # \<lparr>cm_channel = 6, cm_user = 3\<rparr> #
        channel_members demo_office\<rparr>\<rparr>))"

theorem own_words_only_witness:
  "let after = (\<lambda>uid. si_db (snd (serve size quiet_env (Some (demo_user uid)) (OnChannel 6 (Delete 22)) talked)))
   in own_only 2 False (si_db talked) (after 2) \<and> map m_content (messages (after 2)) = [''hello''] \<and>
      own_only 3 True (si_db talked) (after 3) \<and> map (\<lambda>m. (m_content m, m_deleted_by m)) (messages (after 3)) = [([], Some 3)]"
proof -
  have q: "quiet quiet_env" by (simp add: quiet_def quiet_env_def)
  have d: "distinct (map m_id (messages (si_db talked)))" by code_simp
  have "map m_content (messages (si_db (snd (serve size quiet_env (Some (demo_user 2)) (OnChannel 6 (Delete 22)) talked)))) = [''hello'']"
    by code_simp
  moreover have "map (\<lambda>m. (m_content m, m_deleted_by m))
      (messages (si_db (snd (serve size quiet_env (Some (demo_user 3)) (OnChannel 6 (Delete 22)) talked)))) = [([], Some 3)]"
    by code_simp
  ultimately show ?thesis
    using own_words_only [OF q d, of "demo_user 2" size] own_words_only [OF q d, of "demo_user 3" size]
    by (simp add: Let_def demo_user_def)
qed

section \<open>The whole sidebar\<close>

text \<open>
  What the cursors rely on of the identifiers and timestamps they carry: each prints to a text that parses
  back, and a timestamp has no separator in it.
\<close>

definition codec_ok :: "conv_env \<Rightarrow> instant set \<Rightarrow> bool" where
  "codec_ok env T \<longleftrightarrow> (\<forall>i. ce_parse env (ce_String env i) = Some i) \<and>
     (\<forall>t \<in> T. ce_parseTime env (ce_format env t) = Some t \<and> CHR ''|'' \<notin> set (ce_format env t))"

lemma Cut_append: "sep \<notin> set key \<Longrightarrow> Cut sep (key @ sep # rest) = Some (key, rest)"
  by (induction key) (auto simp: Cut_def split: list.splits)

lemma cursor_roundtrip:
  assumes "codec_ok env T" and "t \<in> T"
  shows "channelCursor env (Some (encodeTimeCursor env t i)) = Inr (Some (t, i))"
  using assms
  by (simp add: codec_ok_def channelCursor_def decodeTimeCursor_def encodeTimeCursor_def decodeCursor_def encodeCursor_def
      base64_roundtrip Cut_append)

text \<open>A client reads its conversations: a page, and while there is a next cursor, the page after it.\<close>

fun sidebar :: "nat \<Rightarrow> conv_env \<Rightarrow> user_row \<Rightarrow> int option \<Rightarrow> string option \<Rightarrow> site \<Rightarrow> APIChannel list" where
  "sidebar 0 env u lim cursor st = []"
| "sidebar (Suc fuel) env u lim cursor st =
     (case run (api_ListChannels env (Some u) lim cursor) st of
        (Json n (ChannelPageBody cs next), st1) \<Rightarrow>
          cs @ (case next of None \<Rightarrow> [] | Some c \<Rightarrow> sidebar fuel env u lim (Some c) st1)
      | _ \<Rightarrow> [])"

definition answering :: "conv_env \<Rightarrow> bool" where
  "answering env \<longleftrightarrow> ce_store env \<and> (\<forall>k. ce_outage env k = Up)"

lemma one_page:
  assumes "quiet env" and "answering env" and "channelCursor env cursor = (Inr after :: conv_body response + _)"
    and "pageLimit lim maxChannelPageLimit maxChannelPageLimit = (Inr n :: conv_body response + nat)"
  shows "run (api_ListChannels env (Some u) lim cursor) st =
    (let rows = ListChannelsForUser (u_id u) after (Suc n) (si_db st); page = take n rows
     in Json 200 (ChannelPageBody (map apiChannel page)
          (if n < length rows then Some (encodeTimeCursor env (ch_CreatedAt (last page)) (ch_ID (last page))) else None)),
     st\<lparr>si_calls := Suc (si_calls st)\<rparr>)"
  using assms
  by (simp add: run_def api_ListChannels_def web_defs checked_def answering_def quiet_def)

lemma listed_created: "ch \<in> set (ListChannelsForUser uid after n db) \<Longrightarrow> ch_CreatedAt ch \<in> c_created ` set (channels db)"
  by (auto simp: ListChannelsForUser_def channel_rows_def scopedChannel_def unscopedChannel_def dest!: in_set_takeD)

lemma sidebar_probe:
  assumes "quiet env" and "answering env" and "codec_ok env (c_created ` set (channels (si_db st)))"
    and "pageLimit lim maxChannelPageLimit maxChannelPageLimit = (Inr n :: conv_body response + nat)" and "0 < n"
    and "channelCursor env cursor = (Inr after :: conv_body response + _)"
  shows "sidebar fuel env u lim cursor st =
    map apiChannel (probe_walk (\<lambda>after n. ListChannelsForUser (u_id u) after n (si_db st)) ChannelCursor fuel after n)"
  using assms(3,6)
proof (induction fuel arbitrary: cursor after st)
  case (Suc fuel)
  let ?rows = "ListChannelsForUser (u_id u) after (Suc n) (si_db st)"
  let ?edge = "last (take n ?rows)"
  have more: "sidebar fuel env u lim (Some (encodeTimeCursor env (ch_CreatedAt ?edge) (ch_ID ?edge))) (st\<lparr>si_calls := Suc (si_calls st)\<rparr>) =
      map apiChannel (probe_walk (\<lambda>after n. ListChannelsForUser (u_id u) after n (si_db st)) ChannelCursor fuel (Some (ChannelCursor ?edge)) n)"
    if "n < length ?rows"
  proof -
    have "take n ?rows \<noteq> []" using that assms(5) by auto
    then have "?edge \<in> set ?rows" by (metis last_in_set in_set_takeD)
    from listed_created [OF this] have "channelCursor env (Some (encodeTimeCursor env (ch_CreatedAt ?edge) (ch_ID ?edge)))
        = (Inr (Some (ChannelCursor ?edge)) :: conv_body response + _)"
      unfolding ChannelCursor_def by (rule cursor_roundtrip [OF Suc.prems(1)])
    then show ?thesis using Suc.IH [of "st\<lparr>si_calls := Suc (si_calls st)\<rparr>"] Suc.prems(1) by simp
  qed
  show ?case using one_page [OF assms(1,2) Suc.prems(2) assms(4), of u st] more by (simp add: Let_def)
qed simp

text \<open>
  C15. The whole sidebar. With nothing else running and the store answering, a client that asks for its
  conversations page by page, in pages of any size the server accepts, following the opaque cursors it is
  handed, reads every conversation it is a member of exactly once, in the order of their creation, and no
  other; one request more than there are conversations is always enough.
\<close>

theorem sidebar_complete:
  assumes "quiet env" and "answering env" and "codec_ok env (c_created ` set (channels (si_db st)))"
    and "distinct (map c_id (channels (si_db st)))"
    and "lim = None \<or> lim = Some k \<and> 1 \<le> k \<and> k \<le> 200" and "length (channels (si_db st)) \<le> fuel"
  shows "let seen = sidebar (Suc fuel) env u lim None st
    in distinct (map ac_Id seen) \<and> sorted (map (\<lambda>c. (ac_CreatedAt c, ac_Id c)) seen) \<and>
       set (map ac_Id seen) = {i. i \<in> c_id ` set (channels (si_db st)) \<and> IsChannelMember i (u_id u) (si_db st)}"
proof -
  let ?db = "si_db st" let ?mine = "filter (\<lambda>c. IsChannelMember (c_id c) (u_id u) ?db) (channels ?db)"
  let ?rows = "map (scopedChannel (u_id u) ?db) (sql_order channel_key ?mine)"
  obtain n where n: "pageLimit lim maxChannelPageLimit maxChannelPageLimit = (Inr n :: conv_body response + nat)" "0 < n"
    using assms(5) by (auto simp: pageLimit_def maxChannelPageLimit_def)
  have len: "length ?rows \<le> fuel" using order_trans [OF length_filter_le assms(6)] by (simp add: sql_order_def)
  have "sidebar (Suc fuel) env u lim None st = map apiChannel ?rows"
    using keyset_pager.probe_complete [OF channel_pager [OF assms(4)] n(2) len]
      sidebar_probe [OF assms(1-3) n, of None None "Suc fuel" u] by (simp add: channelCursor_def del: sidebar.simps probe_walk.simps)
  moreover have "map ac_Id (map apiChannel ?rows) = map c_id (sql_order channel_key ?mine)"
    "map (\<lambda>c. (ac_CreatedAt c, ac_Id c)) (map apiChannel ?rows) = map channel_key (sql_order channel_key ?mine)"
    by (simp_all add: apiChannel_def scopedChannel_def unscopedChannel_def channel_key_def)
  moreover have "distinct (map c_id (sql_order channel_key ?mine))" using assms(4) by (simp add: sql_order_def distinct_map inj_on_def)
  moreover have "sorted (map channel_key (sql_order channel_key ?mine))" unfolding sql_order_def by (rule sorted_sort_key)
  moreover have "set (map c_id (sql_order channel_key ?mine)) = {i. i \<in> c_id ` set (channels ?db) \<and> IsChannelMember i (u_id u) ?db}"
    by (auto simp: sql_order_def)
  ultimately show ?thesis by (simp only: Let_def)
qed

text \<open>Two conversations in pages of one.\<close>

lemma quiet_codec: "codec_ok quiet_env {-1000..1000}"
proof -
  have "CHR ''|'' \<notin> set (FormatInt t)" for t
    using itoa_digits [of "CHR ''|''"] by (auto simp: FormatInt_def byte_of_def)
  then show ?thesis by (auto simp: codec_ok_def quiet_env_def digits_itoa ParseInt_FormatInt atoi_itoa simp del: atoi.simps)
qed

theorem sidebar_complete_witness:
  "set (map ac_Id (sidebar 3 quiet_env (demo_user 1) (Some 1) None demo_site)) = {5, 6}
   \<and> distinct (map ac_Id (sidebar 3 quiet_env (demo_user 1) (Some 1) None demo_site))"
proof -
  have "codec_ok quiet_env (c_created ` set (channels (si_db demo_site)))"
    using quiet_codec by (auto simp: codec_ok_def demo_site_def demo_office_def demo_channel_def)
  moreover have "quiet quiet_env" "answering quiet_env" by (simp_all add: quiet_def answering_def quiet_env_def)
  moreover have "{i. i \<in> c_id ` set (channels (si_db demo_site)) \<and> IsChannelMember i (u_id (demo_user 1)) (si_db demo_site)} = {5, 6}"
    "distinct (map c_id (channels (si_db demo_site)))" "length (channels (si_db demo_site)) \<le> 2"
    by (auto simp: demo_site_def demo_office_def demo_channel_def demo_user_def IsChannelMember_def sql_exists_def)
  ultimately show ?thesis
    using sidebar_complete [of quiet_env demo_site "Some 1" 1 2 "demo_user 1"]
    by (simp add: Let_def numeral_3_eq_3 del: sidebar.simps)
qed

end
