(* ===== verification/Mls_Handlers.thy ===== *)
theory Mls_Handlers
  imports Conversation_Safety Mls_Store
begin

text \<open>
  The handlers of the encryption transport, \<^verbatim>\<open>server/internal/httpserver/mls_handlers.go\<close> and
  \<^verbatim>\<open>mls_backup_handlers.go\<close>, over the store of \<open>Mls_Store\<close> and the rules of \<open>Web\<close> and \<open>Conversations\<close>. A method of
  \<open>apiServer\<close> keeps its name after the prefix \<open>api_\<close>. Every payload is a base64 text that the handler decodes
  and bounds; none is looked into.
\<close>

section \<open>Requests and answers\<close>

record WireWelcomeDelivery =
  xd_DeviceIds :: "uuid list"
  xd_Welcome :: string

record SubmitMlsCommitRequest =
  scr_Epoch :: int
  scr_Message :: string
  scr_Welcomes :: "WireWelcomeDelivery list option"

record PutMlsBackupRequest =
  pbr_Counter :: int
  pbr_Envelope :: string

record WireDevice =
  xv_Id :: uuid
  xv_SignaturePublicKey :: string
  xv_CreatedAt :: instant

record WireGroup =
  xg_GroupId :: string
  xg_Epoch :: int
  xg_CreatedAt :: instant

record WireClaim =
  xc_DeviceId :: uuid
  xc_KeyPackage :: string

record WireMember =
  xm_UserId :: uuid
  xm_SignaturePublicKeys :: "string list"

record WireCommit =
  xk_Epoch :: int
  xk_Message :: string
  xk_CreatedAt :: instant

record WireWelcome =
  xw_Id :: uuid
  xw_ChannelId :: uuid
  xw_GroupId :: string
  xw_DeviceId :: uuid
  xw_Welcome :: string
  xw_CreatedAt :: instant

record WireBackup =
  xb_Envelope :: string
  xb_Counter :: int
  xb_UpdatedAt :: instant

text \<open>\<open>NoBody\<close> is a status line alone: \<open>w.WriteHeader(http.StatusCreated)\<close>.\<close>

datatype mls_body =
    DeviceBody WireDevice
  | PoolBody nat
  | GroupBody WireGroup
  | ClaimsBody "WireClaim list" "uuid list"
  | RosterBody "WireMember list" "string option"
  | CommitsBody "WireCommit list"
  | WelcomesBody "WireWelcome list"
  | BackupBody WireBackup
  | NoBody

text \<open>
  What the store draws beside the single identifier of \<open>ce_ids\<close>: those of a batch of key packages and of the
  Welcomes of a commit, and the key packages other transactions hold locked while a claim runs.
\<close>

record mls_env =
  mv_env :: conv_env
  mv_package_ids :: "nat \<Rightarrow> nat \<Rightarrow> uuid"
  mv_welcome_ids :: "nat \<Rightarrow> nat \<Rightarrow> nat \<Rightarrow> uuid"
  mv_locked :: "nat \<Rightarrow> uuid \<Rightarrow> bool"

section \<open>Bounds\<close>

definition maxSignatureKeyB64 :: int where "maxSignatureKeyB64 = 200"
definition maxKeyPackageB64 :: int where "maxKeyPackageB64 = 8192"
definition maxKeyPackages :: int where "maxKeyPackages = 50"
definition maxGroupIDB64 :: int where "maxGroupIDB64 = 96"
definition maxCommitB64 :: int where "maxCommitB64 = 350000"
definition maxWelcomeB64 :: int where "maxWelcomeB64 = 350000"
definition maxWelcomesPerCommit :: int where "maxWelcomesPerCommit = 8"
definition maxDevicesPerWelcome :: int where "maxDevicesPerWelcome = 200"
definition maxCommitPageLimit :: int where "maxCommitPageLimit = 50"
definition maxMemberDevicePageLimit :: int where "maxMemberDevicePageLimit = 200"
definition maxBackupEnvelopeB64 :: int where "maxBackupEnvelopeB64 = 700000"

section \<open>Scopes and refusals\<close>

definition selfScope :: "conv_env \<Rightarrow> user_row option \<Rightarrow> ('b, user_row) web" where
  "selfScope env prin =
     and_then (principalFrom prin) (\<lambda>u.
     and_then (requireStore env) (\<lambda>_.
     give u))"

definition channelMlsScope :: "conv_env \<Rightarrow> user_row option \<Rightarrow> uuid \<Rightarrow> action \<Rightarrow> ('b, channelScope) web" where
  "channelMlsScope env prin channelID act =
     and_then (resolveChannel env prin channelID) (\<lambda>sc.
     and_then (allowed sc act) (\<lambda>_.
     give sc))"

definition writeMlsGroupNotFound :: "'b response" where
  "writeMlsGroupNotFound = Error 404 ''mls_group_not_found'' ''this channel has no MLS group''"

definition writeE2EENotEnabled :: "'b response" where
  "writeE2EENotEnabled = Error 400 ''e2ee_not_enabled'' ''this channel is not end-to-end encrypted''"

definition device_not_found :: "'b response" where
  "device_not_found = Error 404 ''mls_device_not_found'' ''no such device''"

definition apiMlsGroup :: "group_row \<Rightarrow> WireGroup" where
  "apiMlsGroup g = \<lparr>xg_GroupId = std_EncodeToString (mg_group_id g), xg_Epoch = mg_epoch g, xg_CreatedAt = mg_created g\<rparr>"

section \<open>Devices and key packages\<close>

definition api_RegisterMlsDevice :: "mls_env \<Rightarrow> user_row option \<Rightarrow> string option \<Rightarrow> (mls_body, mls_body response) web" where
  "api_RegisterMlsDevice me prin body =
     (let env = mv_env me in
     and_then (selfScope env prin) (\<lambda>u.
     and_then (decodeJSON body) (\<lambda>encoded.
     and_then (checked (decodeBlob encoded ''signature_public_key'' maxSignatureKeyB64)) (\<lambda>key.
     and_then (call env (\<lambda>k. RegisterMlsDevice (ce_clock env k) (ce_ids env k) (u_id u) key)) (\<lambda>r.
     and_then (or_answer (\<lambda>_. None) r) (\<lambda>(device, created).
     give (Json (if created then 201 else 200) (DeviceBody
       \<lparr>xv_Id = md_id device, xv_SignaturePublicKey = std_EncodeToString (md_key device), xv_CreatedAt = md_created device\<rparr>))))))))"

text \<open>The loop over the packages of a batch stops at the first that is refused.\<close>

fun decode_packages :: "string list \<Rightarrow> 'b response + bytes list" where
  "decode_packages [] = Inr []"
| "decode_packages (encoded # rest) =
     (case decodeBlob encoded ''key_packages'' maxKeyPackageB64 of
        Inl r \<Rightarrow> Inl r
      | Inr blob \<Rightarrow> (case decode_packages rest of Inl r \<Rightarrow> Inl r | Inr blobs \<Rightarrow> Inr (blob # blobs)))"

definition api_ReplaceMlsKeyPackages ::
  "mls_env \<Rightarrow> user_row option \<Rightarrow> uuid \<Rightarrow> string list option \<Rightarrow> (mls_body, mls_body response) web" where
  "api_ReplaceMlsKeyPackages me prin deviceID body =
     (let env = mv_env me in
     and_then (selfScope env prin) (\<lambda>u.
     and_then (decodeJSON body) (\<lambda>encoded.
     and_then (require (1 \<le> length encoded \<and> int (length encoded) \<le> maxKeyPackages)
        (invalid (''key_packages must hold 1 to '' @ FormatInt maxKeyPackages @ '' packages''))) (\<lambda>_.
     and_then (checked (decode_packages encoded)) (\<lambda>packages.
     and_then (call env (\<lambda>k. ReplaceMlsKeyPackages (ce_clock env k) (mv_package_ids me k) (u_id u) deviceID packages)) (\<lambda>r.
     and_then (or_answer (\<lambda>e. if e = ErrMlsDeviceNotFound then Some device_not_found else None) r) (\<lambda>count.
     give (Json 200 (PoolBody count)))))))))"

definition api_DeregisterMlsDevice :: "mls_env \<Rightarrow> user_row option \<Rightarrow> uuid \<Rightarrow> (mls_body, mls_body response) web" where
  "api_DeregisterMlsDevice me prin deviceID =
     (let env = mv_env me in
     and_then (selfScope env prin) (\<lambda>u.
     and_then (call env (\<lambda>k. DeregisterMlsDevice (u_id u) deviceID)) (\<lambda>r.
     and_then (or_answer (\<lambda>e. if e = ErrMlsDeviceNotFound then Some device_not_found else None) r) (\<lambda>_.
     give NoContent))))"

section \<open>Groups\<close>

definition api_GetMlsGroup :: "mls_env \<Rightarrow> user_row option \<Rightarrow> uuid \<Rightarrow> (mls_body, mls_body response) web" where
  "api_GetMlsGroup me prin channelID =
     (let env = mv_env me in
     and_then (channelMlsScope env prin channelID MlsRead) (\<lambda>sc.
     and_then (ask env (MlsGroupByChannel channelID)) (\<lambda>r.
     and_then (or_answer (\<lambda>e. if e = ErrMlsGroupNotFound then Some writeMlsGroupNotFound else None) r) (\<lambda>group.
     give (Json 200 (GroupBody (apiMlsGroup group)))))))"

definition api_CreateMlsGroup :: "mls_env \<Rightarrow> user_row option \<Rightarrow> uuid \<Rightarrow> string option \<Rightarrow> (mls_body, mls_body response) web" where
  "api_CreateMlsGroup me prin channelID body =
     (let env = mv_env me in
     and_then (channelMlsScope env prin channelID MlsWrite) (\<lambda>sc.
     and_then (require (ch_E2EE (sc_channel sc)) writeE2EENotEnabled) (\<lambda>_.
     and_then (decodeJSON body) (\<lambda>encoded.
     and_then (checked (decodeBlob encoded ''group_id'' maxGroupIDB64)) (\<lambda>groupID.
     and_then (call env (\<lambda>k. CreateMlsGroup (ce_clock env k) channelID groupID)) (\<lambda>r.
     and_then (or_answer (\<lambda>e. if e = ErrMlsGroupExists
          then Some (Error 409 ''mls_group_exists'' ''this channel already has an MLS group'')
        else if e = ErrChannelNotFound then Some writeChannelNotFound else None) r) (\<lambda>group.
     give (Json 201 (GroupBody (apiMlsGroup group))))))))))"

definition api_ClaimMlsKeyPackages :: "mls_env \<Rightarrow> user_row option \<Rightarrow> uuid \<Rightarrow> uuid option \<Rightarrow> (mls_body, mls_body response) web" where
  "api_ClaimMlsKeyPackages me prin channelID body =
     (let env = mv_env me in
     and_then (channelMlsScope env prin channelID MlsWrite) (\<lambda>sc.
     and_then (require (ch_E2EE (sc_channel sc)) writeE2EENotEnabled) (\<lambda>_.
     and_then (decodeJSON body) (\<lambda>target.
     and_then (require (target \<noteq> 0) (invalid ''user_id is required'')) (\<lambda>_.
     and_then (call env (\<lambda>k. ClaimMlsKeyPackages (mv_locked me k) channelID target)) (\<lambda>r.
     and_then (or_answer (\<lambda>e. if e = ErrNotFound
          then Some (Error 404 ''member_not_found'' ''no such member of this channel'') else None) r) (\<lambda>(claims, missing).
     give (Json 200 (ClaimsBody
       (map (\<lambda>c. \<lparr>xc_DeviceId = kc_DeviceID c, xc_KeyPackage = std_EncodeToString (kc_KeyPackage c)\<rparr>) claims) missing)))))))))"

text \<open>The roster's position is the user alone, so the key half of its cursor is empty.\<close>

definition memberDeviceCursor :: "conv_env \<Rightarrow> string option \<Rightarrow> 'b response + uuid option" where
  "memberDeviceCursor env encoded =
     (case encoded of
        None \<Rightarrow> Inr None
      | Some s \<Rightarrow> (case decodeCursor env s of None \<Rightarrow> Inl writeInvalidCursor | Some (_, i) \<Rightarrow> Inr (Some i)))"

definition wire_member :: "MlsMemberDevice \<Rightarrow> WireMember" where
  "wire_member m = \<lparr>xm_UserId = mm_UserID m, xm_SignaturePublicKeys = map std_EncodeToString (mm_Keys m)\<rparr>"

definition api_ListMlsMemberDevices ::
  "mls_env \<Rightarrow> user_row option \<Rightarrow> uuid \<Rightarrow> int option \<Rightarrow> string option \<Rightarrow> (mls_body, mls_body response) web" where
  "api_ListMlsMemberDevices me prin channelID lim cursor =
     (let env = mv_env me in
     and_then (channelMlsScope env prin channelID MlsRead) (\<lambda>sc.
     and_then (require (ch_E2EE (sc_channel sc)) writeE2EENotEnabled) (\<lambda>_.
     and_then (checked (pageLimit lim maxMemberDevicePageLimit maxMemberDevicePageLimit)) (\<lambda>limit.
     and_then (checked (memberDeviceCursor env cursor)) (\<lambda>after.
     and_then (ask env (\<lambda>db. Inr (ListMlsMemberDevices db channelID after (limit + 1)))) (\<lambda>r.
     and_then (or_answer (\<lambda>_. None) r) (\<lambda>members.
       let page = (if limit < length members then take limit members else members);
           next = (if limit < length members then Some (encodeCursor env [] (mm_UserID (last page))) else None)
       in give (Json 200 (RosterBody (map wire_member page) next)))))))))"

section \<open>Commits and Welcomes\<close>

definition wire_commit :: "MlsCommit \<Rightarrow> WireCommit" where
  "wire_commit c = \<lparr>xk_Epoch = c_Epoch c, xk_Message = std_EncodeToString (c_Message c), xk_CreatedAt = c_CreatedAt c\<rparr>"

definition api_ListMlsCommits ::
  "mls_env \<Rightarrow> user_row option \<Rightarrow> uuid \<Rightarrow> int \<Rightarrow> int option \<Rightarrow> (mls_body, mls_body response) web" where
  "api_ListMlsCommits me prin channelID afterEpoch lim =
     (let env = mv_env me in
     and_then (channelMlsScope env prin channelID MlsRead) (\<lambda>sc.
     and_then (require (0 \<le> afterEpoch) (invalid ''after_epoch must not be negative'')) (\<lambda>_.
     and_then (checked (pageLimit lim maxCommitPageLimit maxCommitPageLimit)) (\<lambda>limit.
     and_then (ask env (\<lambda>db. Inr (ListMlsCommits db channelID afterEpoch limit))) (\<lambda>r.
     and_then (or_answer (\<lambda>_. None) r) (\<lambda>commits.
     give (Json 200 (CommitsBody (map wire_commit commits)))))))))"

text \<open>
  Shape rules of the Welcomes of a commit. \<open>seen\<close> is kept across the whole request: two Welcomes that name one
  device are refused.
\<close>

fun commit_welcomes_loop :: "uuid list \<Rightarrow> WireWelcomeDelivery list \<Rightarrow> 'b response + MlsWelcomeDelivery list" where
  "commit_welcomes_loop seen [] = Inr []"
| "commit_welcomes_loop seen (d # ds) =
     (if xd_DeviceIds d = [] \<or> maxDevicesPerWelcome < int (length (xd_DeviceIds d))
      then Inl (invalid (''each welcome must name 1 to '' @ FormatInt maxDevicesPerWelcome @ '' device ids''))
      else if repeats seen (xd_DeviceIds d) then Inl (invalid ''welcomes must name distinct device ids'')
      else case decodeBlob (xd_Welcome d) ''welcomes[].welcome'' maxWelcomeB64 of
             Inl r \<Rightarrow> Inl r
           | Inr blob \<Rightarrow>
               (case commit_welcomes_loop (xd_DeviceIds d @ seen) ds of
                  Inl r \<Rightarrow> Inl r
                | Inr out \<Rightarrow> Inr (\<lparr>wd_DeviceIDs = xd_DeviceIds d, wd_Welcome = blob\<rparr> # out)))"

definition commitWelcomes :: "SubmitMlsCommitRequest \<Rightarrow> 'b response + MlsWelcomeDelivery list" where
  "commitWelcomes req =
     (case scr_Welcomes req of
        None \<Rightarrow> Inr []
      | Some deliveries \<Rightarrow>
          if maxWelcomesPerCommit < int (length deliveries)
          then Inl (invalid (''a commit may carry at most '' @ FormatInt maxWelcomesPerCommit @ '' welcomes''))
          else commit_welcomes_loop [] deliveries)"

primrec tell_all :: "event list \<Rightarrow> ('b, unit) web" where
  "tell_all [] = give ()"
| "tell_all (ev # evs) = and_then (tell ev) (\<lambda>_. tell_all evs)"

definition api_SubmitMlsCommit ::
  "mls_env \<Rightarrow> user_row option \<Rightarrow> uuid \<Rightarrow> SubmitMlsCommitRequest option \<Rightarrow> (mls_body, mls_body response) web" where
  "api_SubmitMlsCommit me prin channelID body =
     (let env = mv_env me in
     and_then (channelMlsScope env prin channelID MlsWrite) (\<lambda>sc.
     and_then (decodeJSON body) (\<lambda>req.
     and_then (require (0 \<le> scr_Epoch req) (invalid ''epoch must not be negative'')) (\<lambda>_.
     and_then (checked (decodeBlob (scr_Message req) ''message'' maxCommitB64)) (\<lambda>message.
     and_then (checked (commitWelcomes req)) (\<lambda>welcomes.
     and_then (call env (\<lambda>k. SubmitMlsCommit (ce_clock env k) (mv_welcome_ids me k)
        \<lparr>nc_ChannelID = channelID, nc_Epoch = scr_Epoch req, nc_Message = message, nc_Welcomes = welcomes\<rparr>)) (\<lambda>r.
     and_then (or_answer (\<lambda>e.
          if e = ErrMlsEpochConflict then Some (Error 409 ''mls_epoch_conflict'' ''the named epoch is no longer current'')
        else if e = ErrMlsGroupNotFound then Some writeMlsGroupNotFound
        else if e = ErrMlsDeviceNotFound then Some (invalid ''every welcome must name a registered device'')
        else if e = ErrMlsWelcomeOutsider then Some (invalid ''every welcome must name a device of a channel member'')
        else None) r) (\<lambda>outcome.
     and_then (tell (Gateway.MlsCommit channelID (co_Epoch outcome))) (\<lambda>_.
     and_then (tell_all (map Gateway.MlsWelcome (co_WelcomeUserIDs outcome))) (\<lambda>_.
     give (Json 201 NoBody)))))))))))"

definition api_ListMlsWelcomes :: "mls_env \<Rightarrow> user_row option \<Rightarrow> (mls_body, mls_body response) web" where
  "api_ListMlsWelcomes me prin =
     (let env = mv_env me in
     and_then (selfScope env prin) (\<lambda>u.
     and_then (ask env (\<lambda>db. Inr (ListMlsWelcomes (u_id u) db))) (\<lambda>r.
     and_then (or_answer (\<lambda>_. None) r) (\<lambda>welcomes.
     give (Json 200 (WelcomesBody (map (\<lambda>w. \<lparr>xw_Id = w_ID w, xw_ChannelId = w_ChannelID w,
       xw_GroupId = std_EncodeToString (w_GroupID w), xw_DeviceId = w_DeviceID w,
       xw_Welcome = std_EncodeToString (w_Welcome w), xw_CreatedAt = w_CreatedAt w\<rparr>) welcomes)))))))"

definition api_AcknowledgeMlsWelcome :: "mls_env \<Rightarrow> user_row option \<Rightarrow> uuid \<Rightarrow> (mls_body, mls_body response) web" where
  "api_AcknowledgeMlsWelcome me prin welcomeID =
     (let env = mv_env me in
     and_then (selfScope env prin) (\<lambda>u.
     and_then (call env (\<lambda>k db. (Inr (), DeleteMlsWelcome (u_id u) welcomeID db))) (\<lambda>r.
     and_then (or_answer (\<lambda>_. None) r) (\<lambda>_ :: unit.
     give NoContent))))"

section \<open>The sealed backup\<close>

definition api_PutMlsBackup :: "mls_env \<Rightarrow> user_row option \<Rightarrow> PutMlsBackupRequest option \<Rightarrow> (mls_body, mls_body response) web" where
  "api_PutMlsBackup me prin body =
     (let env = mv_env me in
     and_then (selfScope env prin) (\<lambda>u.
     and_then (decodeJSON body) (\<lambda>req.
     and_then (require (1 \<le> pbr_Counter req) (invalid ''counter must be at least 1'')) (\<lambda>_.
     and_then (checked (decodeBlob (pbr_Envelope req) ''envelope'' maxBackupEnvelopeB64)) (\<lambda>envelope.
     and_then (call env (\<lambda>k. PutMlsBackup (ce_clock env k) (u_id u) envelope (pbr_Counter req))) (\<lambda>r.
     and_then (or_answer (\<lambda>e. if e = ErrMlsBackupStale
          then Some (Error 409 ''mls_backup_stale'' ''a newer backup is already stored for this account'') else None) r) (\<lambda>_.
     give NoContent)))))))"

definition api_GetMlsBackup :: "mls_env \<Rightarrow> user_row option \<Rightarrow> (mls_body, mls_body response) web" where
  "api_GetMlsBackup me prin =
     (let env = mv_env me in
     and_then (selfScope env prin) (\<lambda>u.
     and_then (ask env (MlsBackupByUser (u_id u))) (\<lambda>r.
     and_then (or_answer (\<lambda>e. if e = ErrMlsBackupNotFound
          then Some (Error 404 ''mls_backup_not_found'' ''this account has no stored backup'') else None) r) (\<lambda>(envelope, counter, updated).
     give (Json 200 (BackupBody \<lparr>xb_Envelope = std_EncodeToString envelope, xb_Counter = counter, xb_UpdatedAt = updated\<rparr>))))))"

definition api_DeleteMlsBackup :: "mls_env \<Rightarrow> user_row option \<Rightarrow> (mls_body, mls_body response) web" where
  "api_DeleteMlsBackup me prin =
     (let env = mv_env me in
     and_then (selfScope env prin) (\<lambda>u.
     and_then (call env (\<lambda>k db. (Inr (), DeleteMlsBackup (u_id u) db))) (\<lambda>r.
     and_then (or_answer (\<lambda>_. None) r) (\<lambda>_ :: unit.
     give NoContent))))"

section \<open>One request\<close>

datatype self_mls_request =
    RegisterDevice "string option"
  | ReplacePackages uuid "string list option"
  | DeregisterDevice uuid
  | ReadWelcomes
  | AckWelcome uuid
  | PutBackup "PutMlsBackupRequest option"
  | GetBackup
  | DropBackup

datatype group_request =
    ReadGroup
  | CreateGroup "string option"
  | ClaimPackages "uuid option"
  | ReadRoster "int option" "string option"
  | ReadCommits int "int option"
  | SubmitCommit "SubmitMlsCommitRequest option"

fun self_mls_handler :: "mls_env \<Rightarrow> user_row option \<Rightarrow> self_mls_request \<Rightarrow> (mls_body, mls_body response) web" where
  "self_mls_handler me prin (RegisterDevice body) = api_RegisterMlsDevice me prin body"
| "self_mls_handler me prin (ReplacePackages dev body) = api_ReplaceMlsKeyPackages me prin dev body"
| "self_mls_handler me prin (DeregisterDevice dev) = api_DeregisterMlsDevice me prin dev"
| "self_mls_handler me prin ReadWelcomes = api_ListMlsWelcomes me prin"
| "self_mls_handler me prin (AckWelcome i) = api_AcknowledgeMlsWelcome me prin i"
| "self_mls_handler me prin (PutBackup body) = api_PutMlsBackup me prin body"
| "self_mls_handler me prin GetBackup = api_GetMlsBackup me prin"
| "self_mls_handler me prin DropBackup = api_DeleteMlsBackup me prin"

fun group_handler :: "mls_env \<Rightarrow> user_row option \<Rightarrow> uuid \<Rightarrow> group_request \<Rightarrow> (mls_body, mls_body response) web" where
  "group_handler me prin ch ReadGroup = api_GetMlsGroup me prin ch"
| "group_handler me prin ch (CreateGroup body) = api_CreateMlsGroup me prin ch body"
| "group_handler me prin ch (ClaimPackages body) = api_ClaimMlsKeyPackages me prin ch body"
| "group_handler me prin ch (ReadRoster lim cursor) = api_ListMlsMemberDevices me prin ch lim cursor"
| "group_handler me prin ch (ReadCommits after lim) = api_ListMlsCommits me prin ch after lim"
| "group_handler me prin ch (SubmitCommit body) = api_SubmitMlsCommit me prin ch body"

end
