(* ===== verification/Mls_Traffic.thy ===== *)
theory Mls_Traffic
  imports Mls_Handlers Conversation_Pages
begin

text \<open>
  What the handlers of the encryption transport guarantee: a group exists on an encrypted conversation only, a
  conversation that is not encrypted costs nobody a key package, a stranger learns nothing, a request about the
  caller's own devices touches nobody else's, and a commit comes back to the other members as it was sent.
\<close>

section \<open>Payloads round trip\<close>

lemma b64_symbol_std:
  assumes "v < 64"
  shows "url_char (std_char (b64_symbol v)) = Some (b64_symbol v)"
    "std_char (b64_symbol v) \<noteq> CHR ''=''" "std_char (b64_symbol v) \<noteq> CHR 0x0A" "std_char (b64_symbol v) \<noteq> CHR 0x0D"
proof -
  have "list_all (\<lambda>v. url_char (std_char (b64_symbol v)) = Some (b64_symbol v) \<and> std_char (b64_symbol v) \<noteq> CHR ''='' \<and>
      std_char (b64_symbol v) \<noteq> CHR 0x0A \<and> std_char (b64_symbol v) \<noteq> CHR 0x0D) [0..<64]" by code_simp
  with assms show "url_char (std_char (b64_symbol v)) = Some (b64_symbol v)"
    "std_char (b64_symbol v) \<noteq> CHR ''=''" "std_char (b64_symbol v) \<noteq> CHR 0x0A" "std_char (b64_symbol v) \<noteq> CHR 0x0D"
    by (simp_all add: list_all_iff)
qed

lemma b64_encode_length: "length (b64_encode bs) mod 4 \<noteq> 1"
  by (induction bs rule: b64_encode.induct) simp_all

lemma std_roundtrip: "std_DecodeString (std_EncodeToString s) = Some s"
proof -
  let ?vs = "b64_encode (map byte_of s)" let ?t = "map std_char (base64_EncodeToString s)"
  let ?pad = "replicate ((4 - length ?t mod 4) mod 4) (CHR ''='')"
  have vs: "\<forall>v \<in> set ?vs. v < 64"
    using b64_encode_range [of "map byte_of s"] by (simp add: list_all_iff byte_of_def)
  have t: "?t = map (std_char \<circ> b64_symbol) ?vs" by (simp add: base64_EncodeToString_def)
  have clean: "\<forall>c \<in> set ?t. c \<noteq> CHR ''='' \<and> c \<noteq> CHR 0x0A \<and> c \<noteq> CHR 0x0D" using vs b64_symbol_std(2-4) by (auto simp: t)
  have "filter (\<lambda>c. c \<noteq> CHR 0x0A \<and> c \<noteq> CHR 0x0D) (?t @ ?pad) = ?t @ ?pad" using clean by (auto simp: filter_id_conv)
  moreover have "takeWhile (\<lambda>c. c \<noteq> CHR ''='') (?t @ ?pad) = ?t" "dropWhile (\<lambda>c. c \<noteq> CHR ''='') (?t @ ?pad) = ?pad"
    using clean by (simp_all add: takeWhile_append dropWhile_append)
  moreover have "all_some (map url_char ?t) = Some (base64_EncodeToString s)"
    using all_some_map [of "base64_EncodeToString s" "url_char \<circ> std_char" "\<lambda>c. c"] vs b64_symbol_std(1)
    by (auto simp: base64_EncodeToString_def comp_assoc)
  moreover have "?pad = [] \<and> length ?t mod 4 = 0 \<or> ?pad = ''='' \<and> length ?t mod 4 = 3 \<or> ?pad = ''=='' \<and> length ?t mod 4 = 2"
  proof -
    have "length ?t mod 4 \<noteq> 1" using b64_encode_length [of "map byte_of s"] by (simp add: t)
    then have "length ?t mod 4 = 0 \<or> length ?t mod 4 = 2 \<or> length ?t mod 4 = 3" by linarith
    then show ?thesis by (auto simp: numeral_2_eq_2)
  qed
  ultimately show ?thesis
    unfolding std_DecodeString_def std_EncodeToString_def Let_def using base64_roundtrip [of s] by (simp del: length_map)
qed

section \<open>Scopes\<close>

lemma scope_then:
  "and_then (channelMlsScope env prin ch act) f = and_then (resolveChannel env prin ch) (\<lambda>sc. and_then (allowed sc act) (\<lambda>_. f sc))"
  by (auto simp: fun_eq_iff channelMlsScope_def and_then_def give_def split: prod.split sum.split)

lemma self_then:
  "and_then (selfScope env prin) f = and_then (principalFrom prin) (\<lambda>u. and_then (requireStore env) (\<lambda>_. f u))"
  by (auto simp: fun_eq_iff selfScope_def and_then_def give_def split: prod.split sum.split)

lemmas self_handlers = api_RegisterMlsDevice_def api_ReplaceMlsKeyPackages_def api_DeregisterMlsDevice_def
  api_ListMlsWelcomes_def api_AcknowledgeMlsWelcome_def api_PutMlsBackup_def api_GetMlsBackup_def api_DeleteMlsBackup_def

lemmas group_handlers = api_GetMlsGroup_def api_CreateMlsGroup_def api_ClaimMlsKeyPackages_def
  api_ListMlsMemberDevices_def api_ListMlsCommits_def api_SubmitMlsCommit_def

lemma keeps_tell_all [keeps_rules]: "keeps J (tell_all evs)"
  by (induction evs) (simp_all add: keeps_give keeps_and_then keeps_tell)

lemma keeps_guard: "(c \<Longrightarrow> keeps J (f ())) \<Longrightarrow> keeps J (and_then (require c r) f)"
  by (cases c) (simp_all add: keeps_def and_then_def require_def)

section \<open>Groups live on encrypted conversations\<close>

definition groups_sealed :: "db \<Rightarrow> bool" where
  "groups_sealed db \<longleftrightarrow> (\<forall>g \<in> set (mls_groups db). \<exists>c \<in> set (channels db). c_id c = mg_channel g \<and> c_e2ee c)"

text \<open>What a change to the store may do: keep both rules, and keep every conversation in its mode.\<close>

definition mls_sound :: "(db \<Rightarrow> db) \<Rightarrow> bool" where
  "mls_sound f \<longleftrightarrow> (\<forall>db. mls_inv db \<and> groups_sealed db \<longrightarrow> mls_inv (f db) \<and> groups_sealed (f db) \<and> modes_kept db (f db))"

definition sound_from :: "db \<Rightarrow> db \<Rightarrow> bool" where
  "sound_from db0 db \<longleftrightarrow> mls_inv db \<and> groups_sealed db \<and> modes_kept db0 db"

lemma sound_step: "mls_sound f \<Longrightarrow> sound_from db0 db \<Longrightarrow> sound_from db0 (f db)"
  unfolding sound_from_def mls_sound_def by (blast intro: modes_kept_trans)

lemma sound_scoped: "mls_sound f \<Longrightarrow> sound_from db0 db \<Longrightarrow> scoped ch sc db \<Longrightarrow> scoped ch sc (f db)"
  unfolding sound_from_def mls_sound_def by (blast intro: scoped_kept)

definition sound_env :: "conv_env \<Rightarrow> bool" where
  "sound_env env \<longleftrightarrow> (\<forall>k. mls_sound (ce_mid env k)) \<and> (\<forall>k n. mls_sound (ce_send_mid env k n))"

lemma stable_sound: "sound_env env \<Longrightarrow> stable env (sound_from db0)"
  by (auto simp: stable_def sound_env_def intro: sound_step)

lemma stable_sound_scoped: "sound_env env \<Longrightarrow> stable env (\<lambda>db. sound_from db0 db \<and> scoped ch sc db)"
  by (auto simp: stable_def sound_env_def intro: sound_step sound_scoped [where ?db0.0 = db0])

lemma sealed_groups_cong:
  "channels db' = channels db \<Longrightarrow> mg_channel ` set (mls_groups db') \<subseteq> mg_channel ` set (mls_groups db) \<Longrightarrow> groups_sealed db \<Longrightarrow> groups_sealed db'"
  unfolding groups_sealed_def by (metis (no_types, lifting) image_iff subset_iff)

lemma sound_frame:
  assumes "\<And>db. mls_inv db \<Longrightarrow> mls_inv (f db)" and "\<And>db. channels (f db) = channels db"
    and "\<And>db. mls_inv db \<Longrightarrow> mg_channel ` set (mls_groups (f db)) \<subseteq> mg_channel ` set (mls_groups db)"
  shows "mls_sound f"
  unfolding mls_sound_def using assms by (blast intro: sealed_groups_cong modes_kept_cong)

lemma claim_loop_frame:
  "claim_loop locked ids cs ms db = (a, b, db') \<Longrightarrow> \<exists>K. db' = db\<lparr>mls_key_packages := K\<rparr>"
proof (induction ids arbitrary: cs ms db)
  case Nil
  then show ?case by (auto intro: exI [of _ "mls_key_packages db"])
next
  case (Cons i ids)
  obtain x db1 where c: "claim_key_package locked i db = (x, db1)" by fastforce
  have db1: "\<exists>K. db1 = db\<lparr>mls_key_packages := K\<rparr>"
    using c by (auto simp: claim_key_package_def intro: exI [of _ "mls_key_packages db"] split: list.splits)
  obtain cs' ms' where "claim_loop locked ids cs' ms' db1 = (a, b, db')"
    using Cons.prems c by (cases x) auto
  from Cons.IH [OF this] db1 show ?case by auto
qed

lemma claim_frame: "\<exists>K. snd (ClaimMlsKeyPackages locked ch target db) = db\<lparr>mls_key_packages := K\<rparr>"
proof (cases "claim_body locked ch target db")
  case (Inl e)
  then show ?thesis by (auto simp: ClaimMlsKeyPackages_def begin_func_def intro: exI [of _ "mls_key_packages db"])
next
  case (Inr r)
  then show ?thesis
    by (auto simp: ClaimMlsKeyPackages_def begin_func_def claim_body_def dest: claim_loop_frame split: if_splits prod.splits)
qed

lemma submit_frame:
  assumes "mls_inv db"
  shows "channels (snd (SubmitMlsCommit now ids nc db)) = channels db
    \<and> mg_channel ` set (mls_groups (snd (SubmitMlsCommit now ids nc db))) \<subseteq> mg_channel ` set (mls_groups db)"
proof (cases "submit_body now ids nc db")
  case (Inr r)
  obtain out db' where r: "r = (out, db')" by (cases r)
  have "distinct (map mw_id (mls_welcomes db))" using assms by (simp add: mls_inv_def devices_ok_def)
  from submit_effect [OF Inr [unfolded r] this]
  have "channels db' = channels db" "mls_groups db' = sql_update (\<lambda>g. mg_channel g = nc_ChannelID nc \<and> mg_epoch g = nc_Epoch nc)
      (\<lambda>g. g\<lparr>mg_epoch := mg_epoch g + 1\<rparr>) (mls_groups db)" by auto
  moreover have "mg_channel ` set (sql_update P (\<lambda>g. g\<lparr>mg_epoch := mg_epoch g + 1\<rparr>) G) \<subseteq> mg_channel ` set G" for P G
    by (auto simp: sql_update_def)
  ultimately show ?thesis using Inr r by (simp add: SubmitMlsCommit_def begin_func_def)
qed (simp add: SubmitMlsCommit_def begin_func_def)

lemma mls_inv_backups: "mls_inv (db\<lparr>mls_backups := B\<rparr>) = mls_inv db"
  by (simp add: mls_inv_def)

lemma sound_ops:
  "mls_sound (\<lambda>db. snd (RegisterMlsDevice now i uid key db))"
  "mls_sound (\<lambda>db. snd (ReplaceMlsKeyPackages now pids uid dev packages db))"
  "mls_sound (\<lambda>db. snd (DeregisterMlsDevice uid dev db))"
  "mls_sound (\<lambda>db. snd (ClaimMlsKeyPackages locked ch target db))"
  "mls_sound (\<lambda>db. snd (Inr (), DeleteMlsWelcome uid w db))"
  "mls_sound (\<lambda>db. snd (Inr (), DeleteMlsBackup uid db))"
proof -
  show "mls_sound (\<lambda>db. snd (RegisterMlsDevice now i uid key db))"
    by (intro sound_frame mls_inv_step [OF mls_step.register])
      (auto simp: RegisterMlsDevice_def insert_device_def Let_def split: option.split)
  show "mls_sound (\<lambda>db. snd (ReplaceMlsKeyPackages now pids uid dev packages db))"
    by (intro sound_frame mls_inv_step [OF mls_step.replace])
      (auto simp: ReplaceMlsKeyPackages_def begin_func_def replace_packages_body_def Let_def)
  show "mls_sound (\<lambda>db. snd (DeregisterMlsDevice uid dev db))"
    by (intro sound_frame mls_inv_step [OF mls_step.deregister]) (auto simp: DeregisterMlsDevice_def Let_def)
  have c: "channels (snd (ClaimMlsKeyPackages locked ch target db)) = channels db"
    "mls_groups (snd (ClaimMlsKeyPackages locked ch target db)) = mls_groups db" for db
    using claim_frame [of locked ch target db] by auto
  show "mls_sound (\<lambda>db. snd (ClaimMlsKeyPackages locked ch target db))"
    by (intro sound_frame mls_inv_step [OF mls_step.claim]) (simp_all add: c)
  show "mls_sound (\<lambda>db. snd (Inr (), DeleteMlsWelcome uid w db))"
    unfolding snd_conv by (intro sound_frame mls_inv_step [OF mls_step.acknowledge]) (simp_all add: DeleteMlsWelcome_def)
  show "mls_sound (\<lambda>db. snd (Inr (), DeleteMlsBackup uid db))"
    by (rule sound_frame) (simp_all add: DeleteMlsBackup_def mls_inv_backups)
qed

lemma sound_ops_more:
  "mls_sound (\<lambda>db. snd (PutMlsBackup now uid envelope counter db))"
  "mls_sound (\<lambda>db. snd (SubmitMlsCommit now wids nc db))"
proof -
  show "mls_sound (\<lambda>db. snd (PutMlsBackup now uid envelope counter db))"
    by (rule sound_frame) (auto simp: PutMlsBackup_def put_backup_def Let_def mls_inv_backups)
  show "mls_sound (\<lambda>db. snd (SubmitMlsCommit now wids nc db))"
    unfolding mls_sound_def
  proof (intro allI impI)
    fix db assume ok: "mls_inv db \<and> groups_sealed db"
    have f: "channels (snd (SubmitMlsCommit now wids nc db)) = channels db"
      "mg_channel ` set (mls_groups (snd (SubmitMlsCommit now wids nc db))) \<subseteq> mg_channel ` set (mls_groups db)"
      using submit_frame ok by auto
    show "mls_inv (snd (SubmitMlsCommit now wids nc db)) \<and> groups_sealed (snd (SubmitMlsCommit now wids nc db)) \<and>
        modes_kept db (snd (SubmitMlsCommit now wids nc db))"
      using ok mls_inv_step [OF mls_step.submit] sealed_groups_cong [OF f] modes_kept_cong [OF f(1)] by blast
  qed
qed

text \<open>A group is created where the handler saw an encrypted conversation, and there one is.\<close>

lemma sound_create:
  assumes "sound_from db0 db \<and> scoped ch sc db" and "ch_E2EE (sc_channel sc)"
  shows "sound_from db0 (snd (CreateMlsGroup now ch gid db)) \<and> scoped ch sc (snd (CreateMlsGroup now ch gid db))"
proof -
  let ?db' = "snd (CreateMlsGroup now ch gid db)"
  have ch: "channels ?db' = channels db" and g: "set (mls_groups ?db') \<subseteq> insert \<lparr>mg_channel = ch, mg_group_id = gid, mg_epoch = 0, mg_created = now\<rparr> (set (mls_groups db))"
    by (auto simp: CreateMlsGroup_def insert_group_def Let_def)
  have "mls_inv ?db'" using assms(1) mls_inv_step [OF mls_step.create] by (auto simp: sound_from_def)
  moreover have "groups_sealed ?db'"
    unfolding groups_sealed_def ch
  proof
    fix x assume "x \<in> set (mls_groups ?db')"
    then consider "x \<in> set (mls_groups db)" | "mg_channel x = ch" using g by auto
    then show "\<exists>c \<in> set (channels db). c_id c = mg_channel x \<and> c_e2ee c"
      using assms by cases (auto simp: sound_from_def groups_sealed_def scoped_def)
  qed
  ultimately show ?thesis
    using assms(1) modes_kept_trans [OF _ modes_kept_cong [OF ch]] scoped_kept [OF _ modes_kept_cong [OF ch]] by (auto simp: sound_from_def)
qed

lemma keeps_sound_call: "sound_env env \<Longrightarrow> (\<And>k. mls_sound (\<lambda>db. snd (g k db))) \<Longrightarrow>
    keeps (\<lambda>db. sound_from db0 db \<and> scoped ch sc db) (call env g)"
  by (rule keeps_call) (auto intro: stable_sound_scoped sound_step sound_scoped [where ?db0.0 = db0])

lemma keeps_sound_self: "sound_env env \<Longrightarrow> (\<And>k. mls_sound (\<lambda>db. snd (g k db))) \<Longrightarrow> keeps (sound_from db0) (call env g)"
  by (rule keeps_call) (auto intro: stable_sound sound_step)

lemma keeps_sound_resolve:
  "sound_env env \<Longrightarrow> (\<And>sc. keeps (\<lambda>db. sound_from db0 db \<and> scoped ch sc db) (f sc)) \<Longrightarrow>
     keeps (sound_from db0) (and_then (resolveChannel env prin ch) f)"
  by (rule keeps_resolve) (auto intro: stable_sound stable_sound_scoped)

lemma keeps_create:
  "sound_env env \<Longrightarrow> ch_E2EE (sc_channel sc) \<Longrightarrow>
     keeps (\<lambda>db. sound_from db0 db \<and> scoped ch sc db) (call env (\<lambda>k. CreateMlsGroup (ce_clock env k) ch gid))"
  by (rule keeps_call, erule stable_sound_scoped, rule sound_create)

lemma mls_handlers_sound:
  assumes env: "sound_env (mv_env me)"
  shows "keeps (sound_from db0) (self_mls_handler me prin sq)" "keeps (sound_from db0) (group_handler me prin ch gq)"
proof -
  note rules = keeps_guard keeps_checked keeps_sound_resolve [OF env] keeps_and_then keeps_create [OF env]
    keeps_sound_call [OF env] keeps_sound_self [OF env]
    sound_ops sound_ops_more stable_sound [OF env] stable_sound_scoped [OF env] keeps_rules
  show "keeps (sound_from db0) (self_mls_handler me prin sq)"
    by (cases sq; simp only: self_mls_handler.simps self_handlers self_then Let_def; intro rules)
  show "keeps (sound_from db0) (group_handler me prin ch gq)"
    by (cases gq; simp only: group_handler.simps group_handlers scope_then Let_def; (intro rules; assumption?))
qed

text \<open>
  C16. Groups live on encrypted conversations. Whatever runs between the store calls of a request and whichever
  of them fails, as long as what runs in between keeps the two rules and every conversation's mode: no request of
  the encryption transport, by anybody, leaves an MLS group on a conversation that is not encrypted, breaks the
  commit logs, the device directory or the pending Welcomes (\<open>mls_inv\<close>), or changes a conversation's mode.
\<close>

theorem groups_on_encrypted_only:
  assumes "\<forall>k. mls_sound (ce_mid (mv_env me) k)" and "\<forall>k n. mls_sound (ce_send_mid (mv_env me) k n)"
  shows "mls_sound (\<lambda>db. si_db (snd (run (self_mls_handler me prin sq) (st\<lparr>si_db := db\<rparr>))))
    \<and> mls_sound (\<lambda>db. si_db (snd (run (group_handler me prin ch gq) (st\<lparr>si_db := db\<rparr>))))"
proof -
  have env: "sound_env (mv_env me)" using assms by (simp add: sound_env_def)
  have "mls_sound (\<lambda>db. si_db (snd (run m (st\<lparr>si_db := db\<rparr>))))" if "\<And>db0. keeps (sound_from db0) m" for m :: "(mls_body, mls_body response) web"
    unfolding mls_sound_def
  proof (intro allI impI)
    fix db assume "mls_inv db \<and> groups_sealed db"
    then have "sound_from db db" by (simp add: sound_from_def)
    with that [of db] have "sound_from db (si_db (snd (run m (st\<lparr>si_db := db\<rparr>))))" by (simp add: keeps_def)
    then show "mls_inv (si_db (snd (run m (st\<lparr>si_db := db\<rparr>)))) \<and> groups_sealed (si_db (snd (run m (st\<lparr>si_db := db\<rparr>)))) \<and>
        modes_kept db (si_db (snd (run m (st\<lparr>si_db := db\<rparr>))))" by (simp add: sound_from_def)
  qed
  then show ?thesis using mls_handlers_sound [OF env] by blast
qed

text \<open>While one member creates the group, another registers a device before every store call.\<close>

definition mls_site :: site where
  "mls_site = \<lparr>si_db = mls0, si_calls = 0, si_sent = [], si_ejected = [], si_enriched = []\<rparr>"

definition calm_mls :: mls_env where
  "calm_mls = \<lparr>mv_env = quiet_env, mv_package_ids = \<lambda>k i. 30 + i, mv_welcome_ids = \<lambda>k j i. 40 + i, mv_locked = \<lambda>_ _. False\<rparr>"

definition arriving :: "nat \<Rightarrow> db \<Rightarrow> db" where
  "arriving k db = snd (RegisterMlsDevice 1 12 2 ''k2'' db)"

definition busy_mls :: mls_env where
  "busy_mls = calm_mls\<lparr>mv_env := quiet_env\<lparr>ce_mid := arriving\<rparr>\<rparr>"

theorem groups_on_encrypted_only_witness:
  "let db' = si_db (snd (run (group_handler busy_mls (Some (demo_user 1)) 7 (CreateGroup (Some ''YQ==''))) (mls_site\<lparr>si_db := mls0\<rparr>)))
   in mls_inv db' \<and> groups_sealed db' \<and> map (\<lambda>g. (mg_channel g, mg_group_id g)) (mls_groups db') = [(7, ''a'')]
      \<and> map md_id (mls_devices db') = [12]"
proof -
  have "mls_sound (arriving k)" for k unfolding arriving_def by (rule sound_ops)
  then have "mls_sound (ce_mid (mv_env busy_mls) k)" "mls_sound (ce_send_mid (mv_env busy_mls) k n)" for k n
    by (simp_all add: busy_mls_def calm_mls_def quiet_env_def mls_sound_def)
  then have "mls_sound (\<lambda>db. si_db (snd (run (group_handler busy_mls (Some (demo_user 1)) 7 (CreateGroup (Some ''YQ=='')))
      (mls_site\<lparr>si_db := db\<rparr>))))"
    using groups_on_encrypted_only [of busy_mls "Some (demo_user 1)" ReadWelcomes mls_site] by blast
  moreover have "mls_inv mls0" using mls_fresh_run [OF mls_demo_fresh mls_run.here] .
  moreover have "groups_sealed mls0" by code_simp
  moreover have "map (\<lambda>g. (mg_channel g, mg_group_id g)) (mls_groups (si_db (snd (run (group_handler busy_mls (Some (demo_user 1)) 7
      (CreateGroup (Some ''YQ==''))) (mls_site\<lparr>si_db := mls0\<rparr>))))) = [(7, ''a'')]" by code_simp
  moreover have "map md_id (mls_devices (si_db (snd (run (group_handler busy_mls (Some (demo_user 1)) 7
      (CreateGroup (Some ''YQ==''))) (mls_site\<lparr>si_db := mls0\<rparr>))))) = [12]" by code_simp
  ultimately show ?thesis unfolding mls_sound_def Let_def by blast
qed

section \<open>Strangers\<close>

text \<open>
  A stranger learns nothing of a conversation's encryption. Somebody who is not a member of a conversation when
  the handler asks is answered, on every request about its group, its roster, its commits or its members' key
  packages, exactly what a request about a conversation that does not exist is answered; nothing is announced, and
  the store is as the others left it, so no key package is spent.
\<close>

theorem mls_stranger_learns_nothing:
  assumes "\<not> IsChannelMember ch (u_id u) (second_read (mv_env me) st)" and "run (group_handler me (Some u) ch q) st = (r, st')"
  shows "(r = writeChannelNotFound \<or> r = internalError \<and> \<not> reached (mv_env me) st) \<and>
    (\<exists>db \<in> {si_db st, first_read (mv_env me) st, second_read (mv_env me) st}. \<exists>n. st' = st\<lparr>si_db := db, si_calls := n\<rparr>)"
proof -
  have "\<exists>f. group_handler me (Some u) ch q = and_then (resolveChannel (mv_env me) (Some u) ch) f \<and>
      (\<forall>sc s. \<not> sc_member sc \<longrightarrow> f sc s = (Inl writeChannelNotFound, s))"
    by (cases q; simp only: group_handler.simps group_handlers Let_def scope_then; rule exI; intro conjI; (rule refl)?;
        simp add: and_then_def stranger_refused)
  then obtain f where f: "group_handler me (Some u) ch q = and_then (resolveChannel (mv_env me) (Some u) ch) f"
      "\<And>sc s. \<not> sc_member sc \<Longrightarrow> f sc s = (Inl writeChannelNotFound, s)" by blast
  show ?thesis by (rule stranger_run [OF assms(1) f(2)]) (use assms(2) f(1) in simp_all)
qed

theorem mls_stranger_learns_nothing_witness:
  "fst (run (group_handler calm_mls (Some (demo_user 3)) 7 (ClaimPackages (Some 2))) mls_site) = writeChannelNotFound"
proof -
  have no: "\<not> IsChannelMember 7 (u_id (demo_user 3)) (second_read (mv_env calm_mls) mls_site)"
    by (auto simp: IsChannelMember_def sql_exists_def second_read_def first_read_def calm_mls_def quiet_env_def mls_site_def mls0_def demo_user_def)
  have ok: "reached (mv_env calm_mls) mls_site" by (simp add: reached_def calm_mls_def quiet_env_def)
  obtain r st' where s: "run (group_handler calm_mls (Some (demo_user 3)) 7 (ClaimPackages (Some 2))) mls_site = (r, st')" by fastforce
  show ?thesis using mls_stranger_learns_nothing [OF no s] s ok by simp
qed

section \<open>A conversation that is not encrypted costs nobody a key package\<close>

lemma rest_self [rest_rules]:
  "P db \<Longrightarrow> from_rest db P (f u) \<Longrightarrow> from_rest db P (and_then (selfScope env (Some u)) f)"
  unfolding self_then by (intro rest_rules)

lemma submit_without_group:
  assumes "\<forall>g \<in> set (mls_groups db). mg_channel g \<noteq> nc_ChannelID nc"
  shows "snd (SubmitMlsCommit now ids nc db) = db"
proof -
  have "advance_epoch (nc_ChannelID nc) (nc_Epoch nc) db = Inr (None, db)" using assms by (auto simp: advance_epoch_def Let_def)
  then show ?thesis by (simp add: SubmitMlsCommit_def begin_func_def submit_body_def)
qed

lemma scoped_plain: "scoped ch sc db \<Longrightarrow> \<forall>c \<in> set (channels db). c_id c = ch \<longrightarrow> \<not> c_e2ee c \<Longrightarrow> \<not> ch_E2EE (sc_channel sc)"
  by (auto simp: scoped_def)

text \<open>
  A conversation that is not encrypted is inert. With nothing else running, on a store where groups live on
  encrypted conversations only, no request of the encryption transport about a conversation that is not
  encrypted changes anything, whoever makes it: nobody's single-use key packages can be drained through it, and
  no group, commit or Welcome comes to be there.
\<close>

theorem plain_conversation_inert:
  assumes "quiet (mv_env me)" and "groups_sealed (si_db st)"
    and "\<forall>c \<in> set (channels (si_db st)). c_id c = ch \<longrightarrow> \<not> c_e2ee c"
  shows "si_db (snd (run (group_handler me (Some u) ch q) st)) = si_db st"
proof -
  let ?db = "si_db st"
  have no_group: "\<forall>g \<in> set (mls_groups ?db). mg_channel g \<noteq> ch"
    using assms(2,3) unfolding groups_sealed_def by blast
  have guard: "from_rest ?db ((=) ?db) (and_then (require (ch_E2EE (sc_channel sc)) r) f)" if "scoped ch sc ?db" for sc r and f :: "unit \<Rightarrow> ('b, 'c) web"
    using scoped_plain [OF that assms(3)] by (simp add: from_rest_def and_then_def require_def)
  note finish = keeps_and_then keeps_rules stable_quiet [OF assms(1)] refl
  have "from_rest ?db ((=) ?db) (group_handler me (Some u) ch q)"
  proof (cases q)
    case (SubmitCommit body)
    show ?thesis
      unfolding SubmitCommit group_handler.simps group_handlers Let_def scope_then
      by (intro rest_rules rest_call assms(1) finish) (simp_all add: submit_without_group no_group)
  qed (simp only: group_handler.simps group_handlers Let_def scope_then; intro guard rest_rules rest_call assms(1) finish; assumption)+
  then show ?thesis by (simp add: from_rest_def)
qed

theorem plain_conversation_inert_witness:
  "si_db (snd (run (group_handler calm_mls (Some (demo_user 1)) 6 (ClaimPackages (Some 1)))
     (demo_site\<lparr>si_db := demo_office\<lparr>mls_key_packages := mls_packages\<rparr>\<rparr>))) = demo_office\<lparr>mls_key_packages := mls_packages\<rparr>"
proof -
  have "quiet (mv_env calm_mls)" by (simp add: calm_mls_def quiet_def quiet_env_def)
  moreover have "groups_sealed (demo_office\<lparr>mls_key_packages := mls_packages\<rparr>)" by code_simp
  ultimately show ?thesis
    using plain_conversation_inert [of calm_mls "demo_site\<lparr>si_db := demo_office\<lparr>mls_key_packages := mls_packages\<rparr>\<rparr>" 6 "demo_user 1" "ClaimPackages (Some 1)"]
    by (simp add: demo_office_def Conversation_Safety.demo_channel_def)
qed

section \<open>Everybody's own devices\<close>

definition foreign :: "uuid \<Rightarrow> db \<Rightarrow> uuid \<Rightarrow> bool" where
  "foreign uid db dev \<longleftrightarrow> (\<exists>d \<in> set (mls_devices db). md_id d = dev \<and> md_user d \<noteq> uid)"

text \<open>
  \<open>db'\<close> is \<open>db\<close>, but for the devices of \<open>uid\<close>, the key packages and Welcomes of those devices, and the backup of
  \<open>uid\<close>.
\<close>

definition own_material :: "uuid \<Rightarrow> db \<Rightarrow> db \<Rightarrow> bool" where
  "own_material uid db db' \<longleftrightarrow>
     db' = db\<lparr>mls_devices := mls_devices db', mls_key_packages := mls_key_packages db', mls_welcomes := mls_welcomes db',
              mls_backups := mls_backups db'\<rparr> \<and>
     filter (\<lambda>d. md_user d \<noteq> uid) (mls_devices db') = filter (\<lambda>d. md_user d \<noteq> uid) (mls_devices db) \<and>
     filter (\<lambda>k. foreign uid db (kp_device k)) (mls_key_packages db') = filter (\<lambda>k. foreign uid db (kp_device k)) (mls_key_packages db) \<and>
     filter (\<lambda>w. foreign uid db (mw_device w)) (mls_welcomes db') = filter (\<lambda>w. foreign uid db (mw_device w)) (mls_welcomes db) \<and>
     filter (\<lambda>b. mb_user b \<noteq> uid) (mls_backups db') = filter (\<lambda>b. mb_user b \<noteq> uid) (mls_backups db)"

lemma own_material_refl: "own_material uid db db"
  by (simp add: own_material_def)

lemma filter_own_delete: "(\<And>x. x \<in> set xs \<Longrightarrow> P x \<Longrightarrow> \<not> Q x) \<Longrightarrow> filter P (sql_delete Q xs) = filter P xs"
  by (auto simp: sql_delete_def intro!: filter_cong)

lemma not_foreign: "distinct (map md_id (mls_devices db)) \<Longrightarrow> d \<in> set (mls_devices db) \<Longrightarrow> md_user d = uid \<Longrightarrow> \<not> foreign uid db (md_id d)"
  unfolding foreign_def by (metis distinct_map inj_onD)

lemma own_register: "own_material uid db (snd (RegisterMlsDevice now i uid key db))"
  by (auto simp: RegisterMlsDevice_def insert_device_def own_material_def sql_insert_def Let_def split: option.split)

lemma own_replace:
  assumes "distinct (map md_id (mls_devices db))"
  shows "own_material uid db (snd (ReplaceMlsKeyPackages now ids uid dev packages db))"
proof (cases "sql_exists (\<lambda>d. md_id d = dev \<and> md_user d = uid) (mls_devices db)")
  case True
  then have mine: "\<not> foreign uid db dev" using not_foreign [OF assms] by auto
  then have "filter (\<lambda>k. foreign uid db (kp_device k)) (key_package_rows now ids dev packages) = []"
    by (auto simp: key_package_rows_def filter_empty_conv)
  moreover have "filter (\<lambda>k. foreign uid db (kp_device k)) (sql_delete (\<lambda>k. kp_device k = dev) (mls_key_packages db)) =
      filter (\<lambda>k. foreign uid db (kp_device k)) (mls_key_packages db)"
    using mine by (intro filter_own_delete) auto
  ultimately show ?thesis
    by (auto simp: ReplaceMlsKeyPackages_def begin_func_def replace_packages_body_def own_material_def Let_def)
qed (simp add: ReplaceMlsKeyPackages_def begin_func_def replace_packages_body_def own_material_refl)

lemma own_deregister:
  assumes "distinct (map md_id (mls_devices db))"
  shows "own_material uid db (snd (DeregisterMlsDevice uid dev db))"
proof (cases "sql_exists (\<lambda>d. md_id d = dev \<and> md_user d = uid) (mls_devices db)")
  case True
  then have "\<not> foreign uid db dev" using not_foreign [OF assms] by auto
  then show ?thesis
    using True by (auto simp: DeregisterMlsDevice_def own_material_def Let_def intro!: filter_own_delete)
qed (simp add: DeregisterMlsDevice_def own_material_refl)

lemma own_acknowledge:
  assumes "distinct (map md_id (mls_devices db))"
  shows "own_material uid db (DeleteMlsWelcome uid w db)"
  by (auto simp: DeleteMlsWelcome_def own_material_def intro!: filter_own_delete) (metis not_foreign [OF assms])

lemma own_backup:
  "own_material uid db (snd (PutMlsBackup now uid envelope counter db))" "own_material uid db (DeleteMlsBackup uid db)"
proof -
  have "filter (\<lambda>b. mb_user b \<noteq> uid) (sql_update (\<lambda>b. mb_user b = uid \<and> mb_counter b < counter)
      (\<lambda>b. \<lparr>mb_user = uid, mb_envelope = envelope, mb_counter = counter, mb_updated = now\<rparr>) B) = filter (\<lambda>b. mb_user b \<noteq> uid) B" for B
    by (induction B) (simp_all add: sql_update_def)
  then show "own_material uid db (snd (PutMlsBackup now uid envelope counter db))"
    by (auto simp: PutMlsBackup_def put_backup_def own_material_def sql_insert_def Let_def)
  show "own_material uid db (DeleteMlsBackup uid db)"
    by (simp add: DeleteMlsBackup_def own_material_def sql_delete_def)
qed

text \<open>
  C17. Everybody's own devices. With nothing else running, on a store whose device identifiers are distinct, the
  requests a user makes about their own devices, key packages, Welcomes and backup leave everybody else's as they
  are, whatever device or Welcome they name: every other user's devices, the key packages and waiting Welcomes of
  those devices, and every other user's backup, and the rest of the store.
\<close>

theorem own_devices_only:
  assumes "quiet (mv_env me)" and "distinct (map md_id (mls_devices (si_db st)))"
  shows "own_material (u_id u) (si_db st) (si_db (snd (run (self_mls_handler me (Some u) q) st)))"
proof -
  let ?db = "si_db st"
  note ops = own_register own_replace [OF assms(2)] own_deregister [OF assms(2)] own_acknowledge [OF assms(2)] own_backup
  have "from_rest ?db (own_material (u_id u) ?db) (self_mls_handler me (Some u) q)"
    by (cases q; simp only: self_mls_handler.simps self_handlers Let_def;
        intro rest_rules rest_call keeps_and_then keeps_rules stable_quiet assms(1) own_material_refl; (simp add: ops rest_give own_material_refl split: prod.split)?)
  then show ?thesis by (simp add: from_rest_def)
qed

theorem own_devices_only_witness:
  "let after = (\<lambda>uid. si_db (snd (run (self_mls_handler calm_mls (Some (demo_user uid)) (DeregisterDevice 12)) (mls_site\<lparr>si_db := mls2\<rparr>))))
   in own_material 1 mls2 (after 1) \<and> own_material 2 mls2 (after 2) \<and> map kp_id (mls_key_packages (after 1)) = [30, 31] \<and>
      mls_key_packages (after 2) = []"
proof -
  have q: "quiet (mv_env calm_mls)" by (simp add: calm_mls_def quiet_def quiet_env_def)
  have d: "distinct (map md_id (mls_devices (si_db (mls_site\<lparr>si_db := mls2\<rparr>))))" by code_simp
  have "map kp_id (mls_key_packages (si_db (snd (run (self_mls_handler calm_mls (Some (demo_user 1)) (DeregisterDevice 12))
      (mls_site\<lparr>si_db := mls2\<rparr>))))) = [30, 31]" by code_simp
  moreover have "map kp_id (mls_key_packages (si_db (snd (run (self_mls_handler calm_mls (Some (demo_user 2)) (DeregisterDevice 12))
      (mls_site\<lparr>si_db := mls2\<rparr>))))) = []" by code_simp
  ultimately show ?thesis
    using own_devices_only [OF q d, of "demo_user 1" "DeregisterDevice 12"] own_devices_only [OF q d, of "demo_user 2" "DeregisterDevice 12"]
    by (simp add: Let_def demo_user_def del: self_mls_handler.simps)
qed

section \<open>A commit comes back as it was sent\<close>

lemma plain_checked: "\<forall>r n b. x = Inl r \<longrightarrow> r \<noteq> Json n b \<Longrightarrow> plain (checked x)"
  by (auto simp: plain_def checked_def)

lemma plain_allowed: "plain (allowed sc act)"
  unfolding allowed_def by (rule plain_steps) (simp add: deny_def writeChannelNotFound_def)

lemma plain_resolve: "plain (resolveChannel env prin ch)"
  unfolding resolveChannel_def by (intro plain_and_then plain_steps) (auto simp: writeChannelNotFound_def)

lemma decodeBlob_plain: "decodeBlob s field n \<noteq> Inl (Json k b)"
  by (auto simp: decodeBlob_def invalid_def split: option.split)

lemma welcomes_plain: "commit_welcomes_loop seen ds \<noteq> Inl (Json k b)"
proof (induction ds arbitrary: seen)
  case (Cons d ds)
  then show ?case using decodeBlob_plain [where 'a = 'a, of "xd_Welcome d"] by (auto simp: invalid_def split: sum.split)
qed simp

lemma plain_tell_all: "plain (tell_all evs)"
  by (induction evs) (simp_all add: plain_steps plain_and_then)

lemma plain_submit: "plain (api_SubmitMlsCommit me prin ch body)"
  unfolding api_SubmitMlsCommit_def Let_def scope_then
  by (intro plain_and_then plain_resolve plain_allowed plain_tell_all plain_steps plain_checked)
    (auto simp: invalid_def decodeBlob_plain commitWelcomes_def welcomes_plain writeMlsGroupNotFound_def split: option.splits if_splits)

lemma tell_all_frame: "tell_all evs st = (Inr (), st\<lparr>si_sent := si_sent st @ evs\<rparr>)"
  by (induction evs arbitrary: st) (simp_all add: give_def and_then_def tell_def)

lemma resolve_rest:
  assumes "quiet env" and "resolveChannel env (Some u) ch st = (Inr sc, st1)"
  shows "si_db st1 = si_db st \<and> si_sent st1 = si_sent st"
  using assms(2)
proof (cases rule: resolve_cases)
  case (resolved c)
  then show ?thesis using assms(1) by (simp add: first_read_def second_read_def quiet_def)
qed simp

text \<open>A request that went through, step by step.\<close>

named_theorems went_elims

lemma went_resolve [went_elims]:
  fixes f :: "channelScope \<Rightarrow> ('b, 'c) web"
  shows "and_then (resolveChannel env prin ch) f st = (Inr x, st') \<Longrightarrow>
     (\<And>sc st1. resolveChannel env prin ch st = (Inr sc :: 'b response + channelScope, st1) \<Longrightarrow> f sc st1 = (Inr x, st') \<Longrightarrow> R) \<Longrightarrow> R"
  by (auto dest: and_then_Inr)

lemma went_allowed [went_elims]:
  "and_then (allowed sc act) f st = (Inr x, st') \<Longrightarrow>
     (Can (caller (sc_prin sc)) act (ChannelRes (sc_resource sc)) \<Longrightarrow> f () st = (Inr x, st') \<Longrightarrow> R) \<Longrightarrow> R"
  by (simp add: allowed_def and_then_free split: if_splits)

lemma went_require [went_elims]: "and_then (require c r) f st = (Inr x, st') \<Longrightarrow> (c \<Longrightarrow> f () st = (Inr x, st') \<Longrightarrow> R) \<Longrightarrow> R"
  by (simp add: and_then_free split: if_splits)

lemma went_checked [went_elims]: "and_then (checked y) f st = (Inr x, st') \<Longrightarrow> (\<And>a. y = Inr a \<Longrightarrow> f a st = (Inr x, st') \<Longrightarrow> R) \<Longrightarrow> R"
  by (cases y) (simp_all add: and_then_free)

lemma went_decode [went_elims]: "and_then (decodeJSON y) f st = (Inr x, st') \<Longrightarrow> (\<And>a. y = Some a \<Longrightarrow> f a st = (Inr x, st') \<Longrightarrow> R) \<Longrightarrow> R"
  by (cases y) (simp_all add: and_then_def decodeJSON_def give_def stop_def)

lemma went_call [went_elims]:
  fixes f :: "'a \<Rightarrow> ('b, 'c) web"
  assumes "and_then (call env g) (\<lambda>r. and_then (or_answer t r) f) st = (Inr x, st')"
    and "\<And>a st1. g (si_calls st) (first_read env st) = (Inr a, si_db st1) \<Longrightarrow> si_sent st1 = si_sent st \<Longrightarrow> f a st1 = (Inr x, st') \<Longrightarrow> R"
  shows R
proof -
  obtain r st1 where r: "call env g st = (Inr r :: 'b response + _, st1)" "and_then (or_answer t r) f st1 = (Inr x, st')"
    using and_then_Inr [OF assms(1)] by blast
  obtain a st2 where a: "or_answer t r st1 = (Inr a :: 'b response + _, st2)" "f a st2 = (Inr x, st')" using and_then_Inr [OF r(2)] by blast
  have "r = Inr a" "st2 = st1" using or_answer_Inr [OF a(1)] by auto
  then show R using call_Inr [of env g st a st1] r(1) a(2) assms(2) by auto
qed

lemma went_told [went_elims]:
  "and_then (tell ev) (\<lambda>_. and_then (tell_all evs) (\<lambda>_. give y)) st = (Inr x, st') \<Longrightarrow>
     (x = y \<Longrightarrow> st' = st\<lparr>si_sent := si_sent st @ ev # evs\<rparr> \<Longrightarrow> R) \<Longrightarrow> R"
  by (simp add: and_then_def tell_def tell_all_frame give_def)

text \<open>What an accepted submission was, and did.\<close>

lemma submit_accepted:
  assumes q: "quiet (mv_env me)" and "run (api_SubmitMlsCommit me (Some u) ch body) st = (Json 201 NoBody, st')"
  shows "\<exists>req message welcomes k out. body = Some req \<and> 0 \<le> scr_Epoch req \<and> std_DecodeString (scr_Message req) = Some message \<and>
    SubmitMlsCommit (ce_clock (mv_env me) k) (mv_welcome_ids me k)
       \<lparr>nc_ChannelID = ch, nc_Epoch = scr_Epoch req, nc_Message = message, nc_Welcomes = welcomes\<rparr> (si_db st) = (Inr out, si_db st') \<and>
    si_sent st' = si_sent st @ Gateway.MlsCommit ch (co_Epoch out) # map Gateway.MlsWelcome (co_WelcomeUserIDs out)"
  using run_plain [OF plain_submit assms(2)] unfolding api_SubmitMlsCommit_def Let_def scope_then
proof (elim went_elims)
  fix sc :: channelScope and st1 st2 req message welcomes out
  assume r: "resolveChannel (mv_env me) (Some u) ch st = (Inr sc :: mls_body response + _, st1)" and req: "body = Some req" "0 \<le> scr_Epoch req"
    and m: "decodeBlob (scr_Message req) ''message'' maxCommitB64 = (Inr message :: mls_body response + _)"
    and s: "SubmitMlsCommit (ce_clock (mv_env me) (si_calls st1)) (mv_welcome_ids me (si_calls st1))
       \<lparr>nc_ChannelID = ch, nc_Epoch = scr_Epoch req, nc_Message = message, nc_Welcomes = welcomes\<rparr> (first_read (mv_env me) st1) = (Inr out, si_db st2)"
    and sent: "si_sent st2 = si_sent st1"
      "st' = st2\<lparr>si_sent := si_sent st2 @ Gateway.MlsCommit ch (co_Epoch out) # map Gateway.MlsWelcome (co_WelcomeUserIDs out)\<rparr>"
  have "std_DecodeString (scr_Message req) = Some message" using m by (auto simp: decodeBlob_def split: if_splits option.splits)
  moreover have "first_read (mv_env me) st1 = si_db st" "si_sent st1 = si_sent st"
    using resolve_rest [OF q r] q by (auto simp: first_read_def quiet_def)
  ultimately show ?thesis using req s sent by auto
qed

text \<open>A member reads the commit log.\<close>

lemma read_commits:
  assumes "quiet (mv_env me)" and "answering (mv_env me)" and "IsChannelMember ch (u_id v) (si_db st)"
    and "c \<in> set (channels (si_db st))" and "c_id c = ch" and "0 \<le> e"
  shows "fst (run (api_ListMlsCommits me (Some v) ch e None) st) = Json 200 (CommitsBody (map wire_commit (ListMlsCommits (si_db st) ch e 50)))"
proof -
  obtain x where x: "ChannelForUser ch (u_id v) (si_db st) = Inr x"
    using assms(4,5) by (cases "sql_row (\<lambda>c. c_id c = ch) (channels (si_db st))") (auto simp: ChannelForUser_def sql_row_None_iff)
  have "ch_ID x = ch" using ChannelForUser_Inr [OF x] by simp
  then show ?thesis
    using assms x
    by (simp add: run_def api_ListMlsCommits_def Let_def scope_then resolveChannel_def web_defs checked_def pageLimit_def maxCommitPageLimit_def
        answering_def quiet_def allowed_def Can_def canChannel_def caller_def sc_resource_def Authz.NewChannel_def)
qed

lemma commits_after:
  assumes inv: "mls_inv db" and g: "g \<in> set (mls_groups db)" "mg_channel g = ch" "mg_epoch g = e + 1"
    and c: "c \<in> set (mls_commits db)" "mc_channel c = ch" "mc_epoch c = e + 1" and "0 < n"
  shows "ListMlsCommits db ch e n = [scan_commit c]"
proof -
  have ok: "logs_ok (mls_groups db) (mls_commits db)" using inv by (simp add: mls_inv_def)
  then have le: "mc_epoch x \<le> e + 1" if "x \<in> set (mls_commits db)" "mc_channel x = ch" for x
    using that g unfolding logs_ok_def by fastforce
  let ?rows = "filter (\<lambda>c. mc_channel c = ch \<and> e < mc_epoch c) (mls_commits db)"
  have "distinct (map (\<lambda>c. (mc_channel c, mc_epoch c)) (mls_commits db))" using ok by (simp add: logs_ok_def)
  then have one: "x = c" if "x \<in> set ?rows" for x
    using le [of x] that c by (intro inj_onD [of "\<lambda>c. (mc_channel c, mc_epoch c)" "set (mls_commits db)"]) (auto simp: distinct_map)
  have "distinct ?rows" using ok by (auto simp: logs_ok_def distinct_map)
  moreover have "set ?rows = {c}" using one c by auto
  ultimately have "length ?rows = 1" by (metis card.empty card_insert_disjoint distinct_card empty_iff finite.emptyI One_nat_def)
  then obtain x where "?rows = [x]" by (auto simp: length_Suc_conv)
  with \<open>set ?rows = {c}\<close> have "?rows = [c]" by simp
  then show ?thesis using assms(8) by (simp add: ListMlsCommits_def sql_order_def)
qed

text \<open>A conversation has one group.\<close>

lemma one_group:
  assumes "mls_inv db" and "g \<in> set (mls_groups db)" and "mg_channel g = ch"
  shows "filter (\<lambda>g. mg_channel g = ch) (mls_groups db) = [g]"
proof -
  have "distinct (map mg_channel (mls_groups db))" using assms(1) by (simp add: mls_inv_def logs_ok_def)
  moreover have "filter (\<lambda>g. mg_channel g = ch) rows = [g]" if "distinct (map mg_channel rows)" "g \<in> set rows" for rows
    using that by (induction rows) (use assms(3) in \<open>auto simp: filter_empty_conv image_iff\<close>)
  ultimately show ?thesis using assms(2) by blast
qed

text \<open>
  C18. A commit comes back as it was sent. When a member's commit is accepted (with nothing else running), the conversation
  had one group, it stood at the very epoch the commit was built at, and it stands at the next one afterwards; the epoch
  it made is announced to the conversation, and every other member who then asks for
  the commits after the epoch it was built at is answered exactly that one commit, under the next epoch, with a
  payload that decodes to the bytes the committer's payload decoded to.
\<close>

theorem commit_read_back:
  assumes "quiet (mv_env me)" and "answering (mv_env me)" and "mls_inv (si_db st)"
    and "run (group_handler me (Some u) ch (SubmitCommit (Some req))) st = (Json 201 NoBody, st')"
    and "IsChannelMember ch (u_id v) (si_db st')" and "c \<in> set (channels (si_db st'))" and "c_id c = ch"
  shows "map mg_epoch (filter (\<lambda>g. mg_channel g = ch) (mls_groups (si_db st))) = [scr_Epoch req] \<and>
    map mg_epoch (filter (\<lambda>g. mg_channel g = ch) (mls_groups (si_db st'))) = [scr_Epoch req + 1] \<and>
    (\<exists>text at. fst (run (group_handler me (Some v) ch (ReadCommits (scr_Epoch req) None)) st') =
      Json 200 (CommitsBody [\<lparr>xk_Epoch = scr_Epoch req + 1, xk_Message = text, xk_CreatedAt = at\<rparr>])
    \<and> std_DecodeString text \<noteq> None \<and> std_DecodeString text = std_DecodeString (scr_Message req)
    \<and> Gateway.MlsCommit ch (scr_Epoch req + 1) \<in> set (si_sent st'))"
proof -
  obtain message welcomes k out where e: "0 \<le> scr_Epoch req" and m: "std_DecodeString (scr_Message req) = Some message"
    and s: "SubmitMlsCommit (ce_clock (mv_env me) k) (mv_welcome_ids me k)
       \<lparr>nc_ChannelID = ch, nc_Epoch = scr_Epoch req, nc_Message = message, nc_Welcomes = welcomes\<rparr> (si_db st) = (Inr out, si_db st')"
    and sent: "si_sent st' = si_sent st @ Gateway.MlsCommit ch (co_Epoch out) # map Gateway.MlsWelcome (co_WelcomeUserIDs out)"
    using submit_accepted [OF assms(1) assms(4) [unfolded group_handler.simps]] by auto
  let ?row = "\<lparr>mc_channel = ch, mc_epoch = scr_Epoch req + 1, mc_message = message, mc_created = ce_clock (mv_env me) k\<rparr>"
  have d: "distinct (map mw_id (mls_welcomes (si_db st)))" using assms(3) by (simp add: mls_inv_def devices_ok_def)
  from submit_effect [OF s [unfolded SubmitMlsCommit_def begin_func_Inr] d]
  obtain g where g: "g \<in> set (mls_groups (si_db st))" "mg_channel g = ch" "mg_epoch g = scr_Epoch req"
    and out: "co_Epoch out = scr_Epoch req + 1" and row: "?row \<in> set (mls_commits (si_db st'))"
    and gs: "mls_groups (si_db st') = sql_update (\<lambda>g. mg_channel g = ch \<and> mg_epoch g = scr_Epoch req) (\<lambda>g. g\<lparr>mg_epoch := mg_epoch g + 1\<rparr>) (mls_groups (si_db st))"
    by auto
  have inv: "mls_inv (si_db st')" using submit_inv [OF assms(3)] s by (metis snd_conv)
  have g': "g\<lparr>mg_epoch := mg_epoch g + 1\<rparr> \<in> set (mls_groups (si_db st'))" unfolding gs using g by (auto simp: sql_update_def image_iff intro!: bexI [of _ g])
  have "ListMlsCommits (si_db st') ch (scr_Epoch req) 50 = [scan_commit ?row]"
    by (rule commits_after [OF inv g' _ _ row]) (simp_all add: g)
  then have "\<exists>text at. fst (run (group_handler me (Some v) ch (ReadCommits (scr_Epoch req) None)) st') =
      Json 200 (CommitsBody [\<lparr>xk_Epoch = scr_Epoch req + 1, xk_Message = text, xk_CreatedAt = at\<rparr>])
    \<and> std_DecodeString text \<noteq> None \<and> std_DecodeString text = std_DecodeString (scr_Message req)
    \<and> Gateway.MlsCommit ch (scr_Epoch req + 1) \<in> set (si_sent st')"
    using read_commits [OF assms(1,2,5,6,7) e] m out sent std_roundtrip [of message]
    by (simp add: wire_commit_def scan_commit_def)
  moreover have "map mg_epoch (filter (\<lambda>g. mg_channel g = ch) (mls_groups (si_db st))) = [scr_Epoch req]"
    using one_group [OF assms(3) g(1,2)] g(3) by simp
  moreover have "map mg_epoch (filter (\<lambda>g. mg_channel g = ch) (mls_groups (si_db st'))) = [scr_Epoch req + 1]"
    using one_group [OF inv g'] g(2,3) by simp
  ultimately show ?thesis by blast
qed

definition first_commit :: SubmitMlsCommitRequest where
  "first_commit = \<lparr>scr_Epoch = 0, scr_Message = ''YQ=='', scr_Welcomes = Some [\<lparr>xd_DeviceIds = [12], xd_Welcome = ''YQ==''\<rparr>]\<rparr>"

theorem commit_read_back_witness:
  "let st' = snd (run (group_handler calm_mls (Some (demo_user 1)) 7 (SubmitCommit (Some first_commit))) (mls_site\<lparr>si_db := mls3\<rparr>))
   in \<exists>text at. fst (run (group_handler calm_mls (Some (demo_user 2)) 7 (ReadCommits 0 None)) st') =
       Json 200 (CommitsBody [\<lparr>xk_Epoch = 1, xk_Message = text, xk_CreatedAt = at\<rparr>]) \<and> std_DecodeString text = Some ''a''"
proof -
  let ?run = "run (group_handler calm_mls (Some (demo_user 1)) 7 (SubmitCommit (Some first_commit))) (mls_site\<lparr>si_db := mls3\<rparr>)"
  have "fst ?run = Json 201 NoBody" by code_simp
  then obtain st' where s: "?run = (Json 201 NoBody, st')" by (metis prod.collapse)
  have "IsChannelMember 7 2 (si_db (snd ?run)) \<and> map c_id (channels (si_db (snd ?run))) = [7]" by code_simp
  then have at: "IsChannelMember 7 2 (si_db st')" "map c_id (channels (si_db st')) = [7]" unfolding s snd_conv by blast+
  then have m: "IsChannelMember 7 (u_id (demo_user 2)) (si_db st')" "\<exists>c. c \<in> set (channels (si_db st')) \<and> c_id c = 7"
    by (auto simp: demo_user_def)
  have env: "quiet (mv_env calm_mls)" "answering (mv_env calm_mls)" by (simp_all add: calm_mls_def quiet_def answering_def quiet_env_def)
  have inv: "mls_inv (si_db (mls_site\<lparr>si_db := mls3\<rparr>))" using mls_fresh_run [OF mls_demo_fresh mls_demo_runs(2)] by simp
  have "std_DecodeString (scr_Message first_commit) = Some ''a'' \<and> scr_Epoch first_commit = 0" by code_simp
  with m(2) show ?thesis
    using commit_read_back [OF env inv s m(1)] unfolding s snd_conv Let_def by fastforce
qed

end
