(* ===== verification/Scim_Core.thy ===== *)
theory Scim_Core
  imports Uservalidate Account_Store Web
begin

text \<open>
  The decoding half of the provisioning surface, \<^verbatim>\<open>server/internal/scim/filter.go\<close>, \<^verbatim>\<open>patch.go\<close> and the mapping of
  \<^verbatim>\<open>users.go\<close>: filters, PatchOp operations, bodies and attributes. Nothing here touches the store.

  A decoded JSON value is a \<open>json\<close>. The fields of an object stand in the order in which this run visits them: Go's
  order over a map is the runtime's choice, so a statement about every order is a statement about every
  arrangement of the list. \<open>json option\<close> is a \<open>json.RawMessage\<close>: \<open>None\<close> is one the request did not carry. Where a
  text is only compared with ASCII constants it is compared as the list of its runes.
\<close>

section \<open>Text\<close>

definition runes_of :: "string \<Rightarrow> rune list" where "runes_of s = map byte_of s"

text \<open>\<open>unicode.IsSpace\<close>.\<close>

definition IsSpace :: "rune \<Rightarrow> bool" where
  "IsSpace r \<longleftrightarrow> 9 \<le> r \<and> r \<le> 13 \<or> r = 0x20 \<or> r = 0x85 \<or> r = 0xA0 \<or> r = 0x1680 \<or> 0x2000 \<le> r \<and> r \<le> 0x200A \<or>
     r = 0x2028 \<or> r = 0x2029 \<or> r = 0x202F \<or> r = 0x205F \<or> r = 0x3000"

text \<open>A text as its runes, each with the bytes it was decoded from.\<close>

function rune_chunks :: "string \<Rightarrow> (rune \<times> string) list" where
  "rune_chunks [] = []"
| "rune_chunks (c # s) =
     (let (r, w) = decode_rune (byte_of c) (map byte_of s) in (r, c # take w s) # rune_chunks (drop w s))"
  by pat_completeness auto
termination
  by (relation "measure length") auto

definition trim_by :: "('a \<Rightarrow> bool) \<Rightarrow> 'a list \<Rightarrow> 'a list" where
  "trim_by P xs = rev (dropWhile P (rev (dropWhile P xs)))"

definition TrimSpace :: "string \<Rightarrow> string" where
  "TrimSpace s = concat (map snd (trim_by (\<lambda>p. IsSpace (fst p)) (rune_chunks s)))"

text \<open>\<open>strings.ToLower\<close>, as the runes of the result.\<close>

definition lower_runes :: "string \<Rightarrow> rune list" where
  "lower_runes s = map ToLower (go_runes s)"

definition trim_prefix :: "'a list \<Rightarrow> 'a list \<Rightarrow> 'a list" where
  "trim_prefix p xs = (if take (length p) xs = p then drop (length p) xs else xs)"

text \<open>On ASCII text all of this works character by character.\<close>

lemma rune_chunks_ascii: "\<forall>c \<in> set s. byte_of c < 0x80 \<Longrightarrow> rune_chunks s = map (\<lambda>c. (byte_of c, [c])) s"
  by (induction s rule: rune_chunks.induct) auto

lemma TrimSpace_ascii:
  assumes "\<forall>c \<in> set s. byte_of c < 0x80"
  shows "TrimSpace s = trim_by (\<lambda>c. IsSpace (byte_of c)) s"
proof -
  have "trim_by P (map f xs) = map f (trim_by (P \<circ> f) xs)" for P :: "rune \<times> string \<Rightarrow> bool" and f and xs :: string
    by (simp add: trim_by_def dropWhile_map rev_map)
  then show ?thesis using assms by (simp add: TrimSpace_def rune_chunks_ascii comp_def)
qed

lemma lower_runes_ascii: "\<forall>c \<in> set s. byte_of c < 0x80 \<Longrightarrow> lower_runes s = map (\<lambda>c. ToLower (byte_of c)) s"
  by (simp add: lower_runes_def go_runes_ascii)

lemmas ascii_eval = TrimSpace_ascii lower_runes_ascii runes_of_def trim_by_def IsSpace_def ToLower_def byte_of_def

section \<open>JSON values\<close>

datatype json = JNull | JBool bool | JNum string | JStr string | JArr "json list" | JObj "(string \<times> json) list"

text \<open>\<open>json.Unmarshal\<close> into a string: \<open>null\<close> leaves the zero value and is no error.\<close>

definition unmarshal_string :: "json option \<Rightarrow> string option" where
  "unmarshal_string raw = (case raw of Some (JStr s) \<Rightarrow> Some s | Some JNull \<Rightarrow> Some [] | _ \<Rightarrow> None)"

definition unmarshal_bool :: "json option \<Rightarrow> bool option" where
  "unmarshal_bool raw = (case raw of Some (JBool b) \<Rightarrow> Some b | Some JNull \<Rightarrow> Some False | _ \<Rightarrow> None)"

text \<open>Into a map: of two fields with one name the later stands.\<close>

fun last_wins :: "(string \<times> json) list \<Rightarrow> (string \<times> json) list" where
  "last_wins [] = []"
| "last_wins ((k, v) # fs) = (if k \<in> fst ` set fs then last_wins fs else (k, v) # last_wins fs)"

lemma last_wins_subset: "set (last_wins fs) \<subseteq> set fs"
  by (induction fs rule: last_wins.induct) auto

definition unmarshal_map :: "json option \<Rightarrow> (string \<times> json) list option" where
  "unmarshal_map raw = (case raw of Some (JObj fs) \<Rightarrow> Some (last_wins fs) | Some JNull \<Rightarrow> Some [] | _ \<Rightarrow> None)"

section \<open>The JSON text of a filter's value\<close>

text \<open>\<open>utf8.AppendRune\<close>.\<close>

definition encode_rune :: "rune \<Rightarrow> nat list" where
  "encode_rune r =
     (if r < 0x80 then [r]
      else if r < 0x800 then [0xC0 + r div 64, 0x80 + r mod 64]
      else if r < 0x10000 then [0xE0 + r div 4096, 0x80 + r div 64 mod 64, 0x80 + r mod 64]
      else [0xF0 + r div 262144, 0x80 + r div 4096 mod 64, 0x80 + r div 64 mod 64, 0x80 + r mod 64])"

definition hex_value :: "nat \<Rightarrow> nat option" where
  "hex_value b = (if 48 \<le> b \<and> b \<le> 57 then Some (b - 48) else if 97 \<le> b \<and> b \<le> 102 then Some (b - 87)
     else if 65 \<le> b \<and> b \<le> 70 then Some (b - 55) else None)"

text \<open>\<open>getu4\<close>: four hexadecimal digits.\<close>

definition getu4 :: "nat list \<Rightarrow> nat option" where
  "getu4 s = (case s of a # b # c # d # _ \<Rightarrow>
       (case (hex_value a, hex_value b, hex_value c, hex_value d) of
          (Some w, Some x, Some y, Some z) \<Rightarrow> Some (((w * 16 + x) * 16 + y) * 16 + z) | _ \<Rightarrow> None)
     | _ \<Rightarrow> None)"

definition simple_escape :: "nat \<Rightarrow> nat option" where
  "simple_escape b = (if b = 34 \<or> b = 92 \<or> b = 47 then Some b else if b = 98 then Some 8 else if b = 102 then Some 12
     else if b = 110 then Some 10 else if b = 114 then Some 13 else if b = 116 then Some 9 else None)"

text \<open>
  What follows the opening quote, up to the closing one: \<open>None\<close> is a syntax error, otherwise the decoded bytes and
  what comes after. A lone surrogate and a byte that is not UTF-8 become U+FFFD.
\<close>

function unquote :: "nat list \<Rightarrow> (nat list \<times> nat list) option" where
  "unquote [] = None"
| "unquote (b # s) =
     (if b = 34 then Some ([], s)
      else if b < 0x20 then None
      else if b = 92 then
        (case s of
           [] \<Rightarrow> None
         | c # t \<Rightarrow>
             if c \<noteq> 117
             then (case simple_escape c of None \<Rightarrow> None | Some x \<Rightarrow> map_option (\<lambda>(out, z). (x # out, z)) (unquote t))
             else (case getu4 t of
                None \<Rightarrow> None
              | Some r \<Rightarrow>
                  if 0xD800 \<le> r \<and> r < 0xE000 then
                    (case (if r < 0xDC00 \<and> take 2 (drop 4 t) = [92, 117] then getu4 (drop 6 t) else None) of
                       Some r2 \<Rightarrow>
                         if 0xDC00 \<le> r2 \<and> r2 < 0xE000
                         then map_option (\<lambda>(out, z). (encode_rune ((r - 0xD800) * 1024 + (r2 - 0xDC00) + 0x10000) @ out, z)) (unquote (drop 10 t))
                         else map_option (\<lambda>(out, z). (encode_rune 0xFFFD @ out, z)) (unquote (drop 4 t))
                     | None \<Rightarrow> map_option (\<lambda>(out, z). (encode_rune 0xFFFD @ out, z)) (unquote (drop 4 t)))
                  else map_option (\<lambda>(out, z). (encode_rune r @ out, z)) (unquote (drop 4 t))))
      else (let (r, w) = decode_rune b s in map_option (\<lambda>(out, z). (encode_rune r @ out, z)) (unquote (drop w s))))"
  by pat_completeness auto
termination
  by (relation "measure length") (auto simp: less_Suc_eq_le)

definition json_space :: "nat \<Rightarrow> bool" where "json_space b \<longleftrightarrow> b = 32 \<or> b = 9 \<or> b = 10 \<or> b = 13"

text \<open>\<open>json.Unmarshal\<close> of a text into a string.\<close>

definition json_string :: "string \<Rightarrow> string option" where
  "json_string text =
     (let bs = trim_by json_space (map byte_of text)
      in if bs = runes_of ''null'' then Some []
         else case bs of
                q # s \<Rightarrow>
                  if q = 34 then (case unquote s of Some (out, []) \<Rightarrow> Some (map char_of out) | _ \<Rightarrow> None) else None
              | [] \<Rightarrow> None)"

section \<open>The filter\<close>

definition userSchemaURN :: string where "userSchemaURN = ''urn:ietf:params:scim:schemas:core:2.0:User''"

definition maxFilterLen :: int where "maxFilterLen = 512"

record ScimUserFilter =
  sf_UserName :: "string option"
  sf_ExternalID :: "string option"

definition no_filter :: ScimUserFilter where "no_filter = \<lparr>sf_UserName = None, sf_ExternalID = None\<rparr>"

text \<open>\<open>None\<close> is \<open>errInvalidFilter\<close>.\<close>

definition urn_prefix :: "rune list" where "urn_prefix = lower_runes userSchemaURN @ [58]"

definition parseFilter :: "string \<Rightarrow> ScimUserFilter option" where
  "parseFilter raw =
     (let expr = TrimSpace raw
      in if expr = [] then Some no_filter
         else if maxFilterLen < int (length expr) then None
         else case Cut (CHR '' '') expr of
                None \<Rightarrow> None
              | Some (attr, rest) \<Rightarrow>
                  (case Cut (CHR '' '') (TrimSpace rest) of
                     None \<Rightarrow> None
                   | Some (op, valueLiteral) \<Rightarrow>
                       if lower_runes op \<noteq> runes_of ''eq'' then None
                       else (case json_string (TrimSpace valueLiteral) of
                               None \<Rightarrow> None
                             | Some value \<Rightarrow>
                                 (let name = trim_prefix urn_prefix (lower_runes attr)
                                  in if name = runes_of ''username'' then Some (no_filter\<lparr>sf_UserName := Some value\<rparr>)
                                     else if name = runes_of ''externalid'' then Some (no_filter\<lparr>sf_ExternalID := Some value\<rparr>)
                                     else None))))"

section \<open>Accounts and what a directory may write\<close>

text \<open>\<open>storage.User\<close> with the two columns of migration 0014 and \<^verbatim>\<open>updated_at\<close>.\<close>

record scim_user =
  su_row :: user_row
  su_ScimUserName :: "string option"
  su_ScimExternalID :: "string option"
  su_UpdatedAt :: instant

record ScimUserAttributes =
  at_ScimUserName :: string
  at_ExternalID :: "string option"
  at_Email :: "string option"
  at_DisplayName :: string

record userWrite =
  uw_attrs :: ScimUserAttributes
  uw_active :: bool

record emailValue =
  ev_Value :: string
  ev_Type :: string
  ev_Primary :: bool

record userBody =
  ub_ExternalID :: "string option"
  ub_UserName :: string
  ub_DisplayName :: "string option"
  ub_Name :: "string option"
  ub_Emails :: "emailValue list"
  ub_Active :: "json option"

text \<open>
  What the directory is answered. Of \<open>metaValue\<close> the two instants are fields; \<open>resourceType\<close> and \<open>schemas\<close> are
  constants and \<open>location\<close> is a function of the id.
\<close>

record userResource =
  ur_ID :: uuid
  ur_ExternalID :: "string option"
  ur_UserName :: string
  ur_DisplayName :: string
  ur_Name :: "string option"
  ur_Emails :: "emailValue list"
  ur_Active :: bool
  ur_Created :: instant
  ur_LastModified :: instant

text \<open>A refusal: its \<open>scimType\<close> and its detail. \<open>Quoted s v\<close> is \<open>s\<close> followed by \<open>v\<close> in Go's \<open>%q\<close>.\<close>

datatype detail = Plain string | Quoted string string

type_synonym patchFailure = "string \<times> detail"

definition typeInvalidFilter :: string where "typeInvalidFilter = ''invalidFilter''"
definition typeInvalidPath :: string where "typeInvalidPath = ''invalidPath''"
definition typeInvalidSyntax :: string where "typeInvalidSyntax = ''invalidSyntax''"
definition typeInvalidValue :: string where "typeInvalidValue = ''invalidValue''"
definition typeUniqueness :: string where "typeUniqueness = ''uniqueness''"
definition typeTooMany :: string where "typeTooMany = ''tooMany''"

definition invalidPath :: "string \<Rightarrow> patchFailure" where
  "invalidPath path = (typeInvalidPath, Quoted ''unsupported patch path '' path)"

definition invalidValue :: "string \<Rightarrow> patchFailure" where
  "invalidValue d = (typeInvalidValue, Plain d)"

definition optional :: "string \<Rightarrow> string option" where
  "optional value = (if value = [] then None else Some value)"

definition primaryEmail :: "emailValue list \<Rightarrow> string" where
  "primaryEmail emails =
     (case filter (\<lambda>e. ev_Primary e \<and> ev_Value e \<noteq> []) emails of
        e # _ \<Rightarrow> ev_Value e
      | [] \<Rightarrow> (case filter (\<lambda>e. ev_Value e \<noteq> []) emails of e # _ \<Rightarrow> ev_Value e | [] \<Rightarrow> []))"

definition displayNameOf :: "userBody \<Rightarrow> string" where
  "displayNameOf body =
     (case ub_DisplayName body of Some d \<Rightarrow> d | None \<Rightarrow> (case ub_Name body of Some f \<Rightarrow> f | None \<Rightarrow> []))"

definition userNameOf :: "scim_user \<Rightarrow> string" where
  "userNameOf u =
     (case su_ScimUserName u of Some n \<Rightarrow> if n \<noteq> [] then n else u_username (su_row u) | None \<Rightarrow> u_username (su_row u))"

definition currentWrite :: "scim_user \<Rightarrow> userWrite" where
  "currentWrite u =
     \<lparr>uw_attrs = \<lparr>at_ScimUserName = userNameOf u, at_ExternalID = su_ScimExternalID u, at_Email = u_email (su_row u),
        at_DisplayName = u_display_name (su_row u)\<rparr>,
      uw_active = u_is_active (su_row u)\<rparr>"

definition resourceOf :: "scim_user \<Rightarrow> userResource" where
  "resourceOf u =
     \<lparr>ur_ID = u_id (su_row u), ur_ExternalID = su_ScimExternalID u, ur_UserName = userNameOf u,
      ur_DisplayName = u_display_name (su_row u),
      ur_Name = (if u_display_name (su_row u) \<noteq> [] then Some (u_display_name (su_row u)) else None),
      ur_Emails = (case u_email (su_row u) of None \<Rightarrow> []
        | Some e \<Rightarrow> [\<lparr>ev_Value = e, ev_Type = ''work'', ev_Primary = True\<rparr>]),
      ur_Active = u_is_active (su_row u), ur_Created = u_created (su_row u), ur_LastModified = su_UpdatedAt u\<rparr>"

definition maxUserNameLen :: int where "maxUserNameLen = 320"
definition maxExternalIDLen :: int where "maxExternalIDLen = 255"
definition maxDisplayNameLen :: int where "maxDisplayNameLen = 120"
definition maxEmailLen :: int where "maxEmailLen = 320"

definition validateAttributes :: "ScimUserAttributes \<Rightarrow> string" where
  "validateAttributes attrs =
     (if at_ScimUserName attrs = [] then ''userName is required''
      else if maxUserNameLen < RuneCountInString (at_ScimUserName attrs) then ''userName must be at most 320 characters''
      else if (case at_ExternalID attrs of None \<Rightarrow> False | Some x \<Rightarrow> maxExternalIDLen < RuneCountInString x)
      then ''externalId must be at most 255 characters''
      else if maxDisplayNameLen < RuneCountInString (at_DisplayName attrs) then ''displayName must be at most 120 characters''
      else if (case at_Email attrs of None \<Rightarrow> False | Some m \<Rightarrow> maxEmailLen < RuneCountInString m)
      then ''emails value must be at most 320 characters''
      else [])"

definition sameAttributes :: "ScimUserAttributes \<Rightarrow> ScimUserAttributes \<Rightarrow> bool" where
  "sameAttributes a b \<longleftrightarrow> at_ScimUserName a = at_ScimUserName b \<and> at_DisplayName a = at_DisplayName b \<and>
     at_Email a = at_Email b \<and> at_ExternalID a = at_ExternalID b"

section \<open>Decoding values\<close>

definition decodeBool :: "json option \<Rightarrow> patchFailure + bool" where
  "decodeBool raw =
     (case unmarshal_bool raw of
        Some b \<Rightarrow> Inr b
      | None \<Rightarrow>
          (case unmarshal_string raw of
             Some s \<Rightarrow>
               (let t = lower_runes (TrimSpace s)
                in if t = runes_of ''true'' then Inr True else if t = runes_of ''false'' then Inr False
                   else Inl (invalidValue ''active must be a boolean''))
           | None \<Rightarrow> Inl (invalidValue ''active must be a boolean'')))"

text \<open>
  Into an \<open>emailValue\<close>: field names match under Unicode's simple folding, as \<open>encoding/json\<close> compares them, an
  unknown field is skipped, a field of the wrong type is an error. The runes that fold to an ASCII letter are its
  capital and, for \<open>s\<close> and \<open>k\<close>, the long s and the Kelvin sign.
\<close>

definition fold_rune :: "rune \<Rightarrow> rune" where
  "fold_rune r = (if 65 \<le> r \<and> r \<le> 90 then r + 32 else if r = 0x17F then 115 else if r = 0x212A then 107 else r)"

definition fold_name :: "string \<Rightarrow> rune list" where
  "fold_name s = map fold_rune (go_runes s)"

definition zero_email :: emailValue where "zero_email = \<lparr>ev_Value = [], ev_Type = [], ev_Primary = False\<rparr>"

fun email_fields :: "(string \<times> json) list \<Rightarrow> emailValue \<Rightarrow> emailValue option" where
  "email_fields [] e = Some e"
| "email_fields ((k, v) # fs) e =
     (let name = fold_name k
      in if v = JNull then email_fields fs e
         else if name = runes_of ''value'' then (case v of JStr s \<Rightarrow> email_fields fs (e\<lparr>ev_Value := s\<rparr>) | _ \<Rightarrow> None)
         else if name = runes_of ''type'' then (case v of JStr s \<Rightarrow> email_fields fs (e\<lparr>ev_Type := s\<rparr>) | _ \<Rightarrow> None)
         else if name = runes_of ''primary'' then (case v of JBool b \<Rightarrow> email_fields fs (e\<lparr>ev_Primary := b\<rparr>) | _ \<Rightarrow> None)
         else email_fields fs e)"

definition unmarshal_email :: "json \<Rightarrow> emailValue option" where
  "unmarshal_email v = (case v of JNull \<Rightarrow> Some zero_email | JObj fs \<Rightarrow> email_fields fs zero_email | _ \<Rightarrow> None)"

definition unmarshal_emails :: "json \<Rightarrow> emailValue list option" where
  "unmarshal_emails v = (case v of JNull \<Rightarrow> Some [] | JArr vs \<Rightarrow> all_some (map unmarshal_email vs) | _ \<Rightarrow> None)"

datatype attribute = AttrUserName | AttrExternalID | AttrDisplayName | AttrEmail | AttrActive | AttrIgnored

fun attr_text :: "attribute \<Rightarrow> string" where
  "attr_text AttrUserName = ''username''"
| "attr_text AttrExternalID = ''externalid''"
| "attr_text AttrDisplayName = ''displayname''"
| "attr_text AttrEmail = ''emails''"
| "attr_text AttrActive = ''active''"
| "attr_text AttrIgnored = ''-ignored-''"

definition decodeString :: "attribute \<Rightarrow> json option \<Rightarrow> patchFailure + string" where
  "decodeString attr raw =
     (case unmarshal_string raw of
        Some s \<Rightarrow> Inr s
      | None \<Rightarrow>
          if attr \<noteq> AttrEmail then Inl (invalidValue (attr_text attr @ '' must be a string''))
          else
            (case (case raw of Some v \<Rightarrow> unmarshal_email v | None \<Rightarrow> None) of
               Some e \<Rightarrow>
                 if ev_Value e \<noteq> [] then Inr (ev_Value e)
                 else Inl (invalidValue ''emails must be a string, an email object, or an array of them'')
             | None \<Rightarrow>
                 (case (case raw of Some v \<Rightarrow> unmarshal_emails v | None \<Rightarrow> None) of
                    Some many \<Rightarrow> Inr (primaryEmail many)
                  | None \<Rightarrow> Inl (invalidValue ''emails must be a string, an email object, or an array of them''))))"

section \<open>Paths\<close>

text \<open>The scan of \<open>stripValueFilters\<close>: depth of brackets, whether inside quotes.\<close>

fun strip_loop :: "nat \<Rightarrow> bool \<Rightarrow> rune list \<Rightarrow> rune list" where
  "strip_loop depth inQuotes [] = []"
| "strip_loop depth inQuotes (c # s) =
     (if inQuotes then strip_loop depth (c \<noteq> 34) s
      else if c = 34 \<and> 0 < depth then strip_loop depth True s
      else if c = 91 then strip_loop (Suc depth) False s
      else if c = 93 then strip_loop (depth - 1) False s
      else if depth = 0 then c # strip_loop 0 False s
      else strip_loop depth False s)"

definition stripValueFilters :: "rune list \<Rightarrow> rune list" where
  "stripValueFilters path = strip_loop 0 False path"

definition normalizePath :: "string \<Rightarrow> attribute option" where
  "normalizePath path =
     (let p = stripValueFilters (trim_prefix urn_prefix (lower_runes (TrimSpace path)))
      in if p = runes_of ''username'' then Some AttrUserName
         else if p = runes_of ''externalid'' then Some AttrExternalID
         else if p = runes_of ''active'' then Some AttrActive
         else if p = runes_of ''displayname'' \<or> p = runes_of ''name.formatted'' then Some AttrDisplayName
         else if p = runes_of ''emails'' \<or> p = runes_of ''emails.value'' then Some AttrEmail
         else if p = runes_of ''password'' then Some AttrIgnored
         else None)"

lemmas path_eval = normalizePath_def urn_prefix_def userSchemaURN_def trim_prefix_def stripValueFilters_def

section \<open>PatchOp\<close>

record patchOperation =
  po_Op :: string
  po_Path :: string
  po_Value :: "json option"

definition removeAttribute :: "userWrite \<Rightarrow> attribute \<Rightarrow> string \<Rightarrow> patchFailure + userWrite" where
  "removeAttribute w attr path =
     (case attr of
        AttrEmail \<Rightarrow> Inr (w\<lparr>uw_attrs := (uw_attrs w)\<lparr>at_Email := None\<rparr>\<rparr>)
      | AttrExternalID \<Rightarrow> Inr (w\<lparr>uw_attrs := (uw_attrs w)\<lparr>at_ExternalID := None\<rparr>\<rparr>)
      | AttrDisplayName \<Rightarrow> Inr (w\<lparr>uw_attrs := (uw_attrs w)\<lparr>at_DisplayName := []\<rparr>\<rparr>)
      | _ \<Rightarrow> Inl (invalidValue (path @ '' cannot be removed'')))"

definition setAttribute :: "userWrite \<Rightarrow> attribute \<Rightarrow> json option \<Rightarrow> patchFailure + userWrite" where
  "setAttribute w attr raw =
     (if attr = AttrActive then
        (case decodeBool raw of Inl e \<Rightarrow> Inl e | Inr active \<Rightarrow> Inr (w\<lparr>uw_active := active\<rparr>))
      else
        (case decodeString attr raw of
           Inl e \<Rightarrow> Inl e
         | Inr value \<Rightarrow>
             (case attr of
                AttrUserName \<Rightarrow> if value = [] then Inl (invalidValue ''userName must not be empty'')
                                else Inr (w\<lparr>uw_attrs := (uw_attrs w)\<lparr>at_ScimUserName := value\<rparr>\<rparr>)
              | AttrExternalID \<Rightarrow> Inr (w\<lparr>uw_attrs := (uw_attrs w)\<lparr>at_ExternalID := optional value\<rparr>\<rparr>)
              | AttrDisplayName \<Rightarrow> Inr (w\<lparr>uw_attrs := (uw_attrs w)\<lparr>at_DisplayName := value\<rparr>\<rparr>)
              | AttrEmail \<Rightarrow> Inr (w\<lparr>uw_attrs := (uw_attrs w)\<lparr>at_Email := optional value\<rparr>\<rparr>)
              | _ \<Rightarrow> Inr w)))"

text \<open>The nodes of a value; each round works inside the value of the round before.\<close>

fun nodes :: "json \<Rightarrow> nat" where
  "nodes (JArr vs) = Suc (sum_list (map nodes vs))"
| "nodes (JObj fs) = Suc (sum_list (map (\<lambda>(k, v). Suc (nodes v)) fs))"
| "nodes v = 1"

lemma nodes_last_wins: "sum_list (map (\<lambda>(k, v). Suc (nodes v)) (last_wins fs)) \<le> sum_list (map (\<lambda>(k, v). Suc (nodes v)) fs)"
proof (induction fs)
  case (Cons f fs)
  obtain k v where "f = (k, v)" by (cases f)
  with Cons.IH show ?case by simp
qed simp

text \<open>
  \<open>applyOne\<close>, on the verb, the path and the value. An operation without a path applies once per field of its value,
  under the field's name; a field without a name is again such an operation.
\<close>

function apply_at :: "bool \<Rightarrow> userWrite \<Rightarrow> string \<Rightarrow> json option \<Rightarrow> patchFailure + userWrite"
  and apply_fields :: "userWrite \<Rightarrow> (string \<times> json) list \<Rightarrow> patchFailure + userWrite" where
  "apply_at remove w path raw =
     (if TrimSpace path = [] then
        if remove then Inl (invalidPath [])
        else (case unmarshal_map raw of
                None \<Rightarrow> Inl (invalidValue ''a patch operation without a path needs an object value'')
              | Some fs \<Rightarrow> apply_fields w fs)
      else case normalizePath path of
             None \<Rightarrow> Inl (invalidPath path)
           | Some attr \<Rightarrow>
               if attr = AttrIgnored then Inr w
               else if remove then removeAttribute w attr path
               else setAttribute w attr raw)"
| "apply_fields w [] = Inr w"
| "apply_fields w ((name, v) # fs) =
     (case apply_at False w name (Some v) of Inl e \<Rightarrow> Inl e | Inr w1 \<Rightarrow> apply_fields w1 fs)"
  by pat_completeness auto

termination
  by (relation "measure (\<lambda>x. case x of Inl (_, _, _, raw) \<Rightarrow> (case raw of None \<Rightarrow> 0 | Some v \<Rightarrow> 2 * nodes v)
       | Inr (_, fs) \<Rightarrow> Suc (2 * sum_list (map (\<lambda>(k, v). Suc (nodes v)) fs)))")
    (auto simp: unmarshal_map_def le_imp_less_Suc nodes_last_wins split: option.splits json.splits)

definition applyOne :: "userWrite \<Rightarrow> patchOperation \<Rightarrow> patchFailure + userWrite" where
  "applyOne w op =
     (let verb = lower_runes (TrimSpace (po_Op op))
      in if verb = runes_of ''add'' \<or> verb = runes_of ''replace'' then apply_at False w (po_Path op) (po_Value op)
         else if verb = runes_of ''remove'' then apply_at True w (po_Path op) (po_Value op)
         else Inl (typeInvalidValue, Quoted ''unsupported patch op '' (po_Op op)))"

fun apply_all :: "userWrite \<Rightarrow> patchOperation list \<Rightarrow> patchFailure + userWrite" where
  "apply_all w [] = Inr w"
| "apply_all w (op # ops) = (case applyOne w op of Inl e \<Rightarrow> Inl e | Inr w1 \<Rightarrow> apply_all w1 ops)"

definition applyPatch :: "userWrite \<Rightarrow> patchOperation list \<Rightarrow> patchFailure + userWrite" where
  "applyPatch current ops =
     (if ops = [] then Inl (invalidValue ''Operations must not be empty'') else apply_all current ops)"

section \<open>Bodies and pages\<close>

text \<open>An explicit \<open>null\<close> counts as absent.\<close>

definition present :: "json option \<Rightarrow> bool" where
  "present raw \<longleftrightarrow> raw \<noteq> None \<and> raw \<noteq> Some JNull"

definition readBody :: "userBody \<Rightarrow> bool \<Rightarrow> patchFailure + userWrite" where
  "readBody body base =
     (let attrs = \<lparr>at_ScimUserName = ub_UserName body,
                   at_ExternalID = (case ub_ExternalID body of None \<Rightarrow> None | Some x \<Rightarrow> optional x),
                   at_Email = optional (primaryEmail (ub_Emails body)), at_DisplayName = displayNameOf body\<rparr>
      in case (if present (ub_Active body) then decodeBool (ub_Active body) else Inr base) of
           Inl e \<Rightarrow> Inl e
         | Inr active \<Rightarrow>
             if validateAttributes attrs \<noteq> [] then Inl (invalidValue (validateAttributes attrs))
             else Inr \<lparr>uw_attrs = attrs, uw_active = active\<rparr>)"

definition defaultCount :: int where "defaultCount = 100"
definition maxCount :: int where "maxCount = 200"

definition pageWindow :: "string \<Rightarrow> string \<Rightarrow> int \<times> int" where
  "pageWindow rawStart rawCount =
     (let startIndex = (case ParseInt rawStart of Some n \<Rightarrow> if 1 < n then n else 1 | None \<Rightarrow> 1);
          count = (case ParseInt rawCount of Some n \<Rightarrow> if 0 \<le> n then n else defaultCount | None \<Rightarrow> defaultCount)
      in (startIndex, if maxCount < count then maxCount else count))"

end
