(* ===== verification/Scim.thy ===== *)
theory Scim
  imports Scim_Core Ratelimit Message_Store
begin

text \<open>
  The provisioning surface, \<^verbatim>\<open>server/internal/scim/scim.go\<close> and \<^verbatim>\<open>users.go\<close>, over \<^verbatim>\<open>server/internal/storage/scim.go\<close>
  and the dashboard's token operations. The two columns migration 0014 adds to \<^verbatim>\<open>users\<close>, and \<^verbatim>\<open>updated_at\<close>, which only
  this surface shows, are functions beside the table, from the account to its value; the tokens are a table of their own.

  A request runs against a store that others use: before its \<open>k\<close>-th store call the rest of the system acts on the
  directory as \<open>se_mid k\<close> says, and the call is answered, fails before it took effect, or takes effect and loses its
  answer, as in \<open>Web\<close>.
\<close>

section \<open>The store\<close>

record scim_token_row =
  st_id :: uuid
  st_hash :: bytes
  st_note :: string
  st_created_by :: uuid
  st_created :: instant
  st_last_used :: "instant option"
  st_revoked :: "instant option"

record directory =
  dir_db :: db
  dir_names :: "uuid \<Rightarrow> string option"
  dir_exts :: "uuid \<Rightarrow> string option"
  dir_updated :: "uuid \<Rightarrow> instant"
  dir_tokens :: "scim_token_row list"

record ScimToken =
  sk_ID :: uuid
  sk_Note :: string
  sk_CreatedBy :: MessageAuthor
  sk_CreatedAt :: instant
  sk_LastUsedAt :: "instant option"

definition live_token :: "scim_token_row \<Rightarrow> bool" where
  "live_token t \<longleftrightarrow> st_revoked t = None"

text \<open>The join of the token queries: a token with the account that minted it.\<close>

definition scanScimToken :: "directory \<Rightarrow> scim_token_row \<Rightarrow> ScimToken option" where
  "scanScimToken d t =
     (case sql_row (\<lambda>u. u_id u = st_created_by t) (users (dir_db d)) of
        None \<Rightarrow> None
      | Some u \<Rightarrow> Some \<lparr>sk_ID = st_id t, sk_Note = st_note t,
          sk_CreatedBy = \<lparr>ma_ID = u_id u, ma_Username = u_username u, ma_DisplayName = u_display_name u\<rparr>,
          sk_CreatedAt = st_created t, sk_LastUsedAt = st_last_used t\<rparr>)"

definition CreateScimToken ::
  "instant \<Rightarrow> uuid \<Rightarrow> uuid \<Rightarrow> bytes \<Rightarrow> string \<Rightarrow> directory \<Rightarrow> (store_error + ScimToken) \<times> directory" where
  "CreateScimToken now newID createdBy tokenHash note d =
     (let t = \<lparr>st_id = newID, st_hash = tokenHash, st_note = note, st_created_by = createdBy, st_created = now,
               st_last_used = None, st_revoked = None\<rparr>
      in if length tokenHash \<noteq> 32 \<or> 200 < char_length note then (Inl CheckViolation, d)
         else if sql_exists (\<lambda>x. st_id x = newID \<or> st_hash x = tokenHash) (dir_tokens d) then (Inl UniqueViolation, d)
         else case scanScimToken d t of
                None \<Rightarrow> (Inl ForeignKeyViolation, d)
              | Some tok \<Rightarrow> (Inr tok, d\<lparr>dir_tokens := sql_insert t (dir_tokens d)\<rparr>))"

text \<open>\<open>ORDER BY t.created_at DESC, t.id\<close>.\<close>

definition ListScimTokens :: "directory \<Rightarrow> ScimToken list" where
  "ListScimTokens d =
     List.map_filter (scanScimToken d)
       (sql_order (\<lambda>t. - st_created t) (sql_order st_id (filter live_token (dir_tokens d))))"

definition RevokeScimToken :: "instant \<Rightarrow> uuid \<Rightarrow> directory \<Rightarrow> (store_error + unit) \<times> directory" where
  "RevokeScimToken now i d =
     (let P = (\<lambda>t. st_id t = i \<and> live_token t)
      in if \<not> sql_exists P (dir_tokens d) then (Inl ErrNotFound, d)
         else (Inr (), d\<lparr>dir_tokens := sql_update P (\<lambda>t. t\<lparr>st_revoked := Some now\<rparr>) (dir_tokens d)\<rparr>))"

text \<open>One minute, in the store's microseconds.\<close>

definition scimTokenTouchInterval :: duration where "scimTokenTouchInterval = 60 * 10 ^ 6"

definition ScimTokenByHash :: "instant \<Rightarrow> bytes \<Rightarrow> directory \<Rightarrow> (store_error + uuid) \<times> directory" where
  "ScimTokenByHash now tokenHash d =
     (case sql_row (\<lambda>t. st_hash t = tokenHash \<and> live_token t) (dir_tokens d) of
        None \<Rightarrow> (Inl ErrNotFound, d)
      | Some live \<Rightarrow>
          (Inr (st_id live),
           d\<lparr>dir_tokens := sql_update (\<lambda>t. st_id t = st_id live \<and>
                (case st_last_used live of None \<Rightarrow> True | Some at \<Rightarrow> at < now - scimTokenTouchInterval))
              (\<lambda>t. t\<lparr>st_last_used := Some now\<rparr>) (dir_tokens d)\<rparr>))"

record NewScimUser =
  ns_Username :: string
  ns_ScimUserName :: string
  ns_ExternalID :: "string option"
  ns_Email :: "string option"
  ns_DisplayName :: string
  ns_Locale :: string
  ns_IsActive :: bool

definition scim_account :: "directory \<Rightarrow> user_row \<Rightarrow> scim_user" where
  "scim_account d u = \<lparr>su_row = u, su_ScimUserName = dir_names d (u_id u), su_ScimExternalID = dir_exts d (u_id u),
     su_UpdatedAt = dir_updated d (u_id u)\<rparr>"

text \<open>The CHECKs and the two UNIQUE columns of migration 0014, against every account but the one written.\<close>

definition scim_checks :: "string \<Rightarrow> string option \<Rightarrow> bool" where
  "scim_checks name ext \<longleftrightarrow> char_length name \<le> 320 \<and> (case ext of None \<Rightarrow> True | Some x \<Rightarrow> char_length x \<le> 255)"

definition scim_conflict ::
  "(string \<Rightarrow> string \<Rightarrow> bool) \<Rightarrow> uuid \<Rightarrow> string \<Rightarrow> string option \<Rightarrow> directory \<Rightarrow> string option" where
  "scim_conflict ceq i name ext d =
     (if ext \<noteq> None \<and> sql_exists (\<lambda>u. u_id u \<noteq> i \<and> dir_exts d (u_id u) = ext) (users (dir_db d))
      then Some ''users_scim_external_id_key''
      else if sql_exists (\<lambda>u. u_id u \<noteq> i \<and> email_clash ceq (dir_names d (u_id u)) (Some name)) (users (dir_db d))
      then Some ''users_scim_user_name_key''
      else None)"

definition scim_row :: "instant \<Rightarrow> uuid \<Rightarrow> NewScimUser \<Rightarrow> user_row" where
  "scim_row now newID nu =
     \<lparr>u_id = newID, u_username = ns_Username nu, u_email = ns_Email nu, u_password_hash = [], u_is_admin = False,
      u_is_active = ns_IsActive nu, u_display_name = ns_DisplayName nu, u_locale = ns_Locale nu, u_must_change = False,
      u_created = now\<rparr>"

definition CreateScimUser ::
  "(string \<Rightarrow> string \<Rightarrow> bool) \<Rightarrow> instant \<Rightarrow> uuid \<Rightarrow> NewScimUser \<Rightarrow> directory \<Rightarrow> (store_error + scim_user) \<times> directory" where
  "CreateScimUser ceq now newID nu d =
     (if \<not> scim_checks (ns_ScimUserName nu) (ns_ExternalID nu) then (Inl CheckViolation, d)
      else case insert_user ceq (scim_row now newID nu) (dir_db d) of
             Inl e \<Rightarrow> (Inl (mapUserConflict e), d)
           | Inr (u, db1) \<Rightarrow>
               (case scim_conflict ceq newID (ns_ScimUserName nu) (ns_ExternalID nu) d of
                  Some c \<Rightarrow> (Inl (mapUserConflict (UniqueViolationOf c)), d)
                | None \<Rightarrow>
                    (let d1 = d\<lparr>dir_db := db1, dir_names := (dir_names d)(newID := Some (ns_ScimUserName nu)),
                                dir_exts := (dir_exts d)(newID := ns_ExternalID nu), dir_updated := (dir_updated d)(newID := now)\<rparr>
                     in (Inr (scim_account d1 u), d1))))"

definition ReplaceScimUser ::
  "(string \<Rightarrow> string \<Rightarrow> bool) \<Rightarrow> instant \<Rightarrow> uuid \<Rightarrow> ScimUserAttributes \<Rightarrow> directory \<Rightarrow> (store_error + scim_user) \<times> directory" where
  "ReplaceScimUser ceq now i attrs d =
     (case sql_row (\<lambda>u. u_id u = i) (users (dir_db d)) of
        None \<Rightarrow> (Inl ErrNotFound, d)
      | Some u \<Rightarrow>
          (let f = (\<lambda>u. u\<lparr>u_email := at_Email attrs, u_display_name := at_DisplayName attrs\<rparr>)
           in if \<not> user_checks (f u) \<or> \<not> scim_checks (at_ScimUserName attrs) (at_ExternalID attrs) then (Inl CheckViolation, d)
              else if sql_exists (\<lambda>x. u_id x \<noteq> i \<and> email_clash ceq (u_email x) (at_Email attrs)) (users (dir_db d))
              then (Inl (mapUserConflict (UniqueViolationOf ''users_email_key'')), d)
              else case scim_conflict ceq i (at_ScimUserName attrs) (at_ExternalID attrs) d of
                     Some c \<Rightarrow> (Inl (mapUserConflict (UniqueViolationOf c)), d)
                   | None \<Rightarrow>
                       (let d1 = d\<lparr>dir_db := (dir_db d)\<lparr>users := sql_update (\<lambda>u. u_id u = i) f (users (dir_db d))\<rparr>,
                                   dir_names := (dir_names d)(i := Some (at_ScimUserName attrs)),
                                   dir_exts := (dir_exts d)(i := at_ExternalID attrs), dir_updated := (dir_updated d)(i := now)\<rparr>
                        in (Inr (scim_account d1 (f u)), d1))))"

definition scim_matches :: "(string \<Rightarrow> string \<Rightarrow> bool) \<Rightarrow> ScimUserFilter \<Rightarrow> scim_user \<Rightarrow> bool" where
  "scim_matches ceq f u \<longleftrightarrow>
     (case sf_UserName f of None \<Rightarrow> True
      | Some n \<Rightarrow> email_clash ceq (su_ScimUserName u) (Some n) \<or> email_clash ceq (u_email (su_row u)) (Some n)) \<and>
     (case sf_ExternalID f of None \<Rightarrow> True | Some x \<Rightarrow> su_ScimExternalID u = Some x)"

text \<open>The count and the page are two statements; \<open>mid\<close> is what happens between them.\<close>

definition ListScimUsers ::
  "(directory \<Rightarrow> directory) \<Rightarrow> (string \<Rightarrow> string \<Rightarrow> bool) \<Rightarrow> ScimUserFilter \<Rightarrow> nat \<Rightarrow> nat \<Rightarrow> directory \<Rightarrow>
   (store_error + scim_user list \<times> nat) \<times> directory" where
  "ListScimUsers mid ceq f offset lim d =
     (let total = length (filter (\<lambda>u. scim_matches ceq f (scim_account d u)) (users (dir_db d)))
      in if lim = 0 then (Inr ([], total), d)
         else
           (let d1 = mid d;
                rows = sql_order user_key (filter (\<lambda>u. scim_matches ceq f (scim_account d1 u)) (users (dir_db d1)))
            in (Inr (map (scim_account d1) (take lim (drop offset rows)), total), d1)))"

text \<open>The operations of \<open>Account_Store\<close> the surface uses, on the directory.\<close>

definition ScimUserByID :: "uuid \<Rightarrow> directory \<Rightarrow> store_error + scim_user" where
  "ScimUserByID i d = (case UserByID i (dir_db d) of Inl e \<Rightarrow> Inl e | Inr u \<Rightarrow> Inr (scim_account d u))"

definition ScimSetActive :: "instant \<Rightarrow> uuid \<Rightarrow> bool \<Rightarrow> directory \<Rightarrow> (store_error + scim_user) \<times> directory" where
  "ScimSetActive now i active d =
     (case UpdateUserAdmin now i \<lparr>au_IsAdmin = None, au_IsActive = Some active\<rparr> (dir_db d) of
        (Inl e, db1) \<Rightarrow> (Inl e, d\<lparr>dir_db := db1\<rparr>)
      | (Inr u, db1) \<Rightarrow>
          (let d1 = d\<lparr>dir_db := db1, dir_updated := (dir_updated d)(i := now)\<rparr> in (Inr (scim_account d1 u), d1)))"

section \<open>The service\<close>

text \<open>
  What one call of the audit recorder carries. The surface only calls it: \<open>Recorder.Record\<close> seals and appends on its
  own, and logs and drops an entry whose append fails (\<open>Audit_Log\<close>), so \<open>sv_record_calls\<close> lists the calls made and not the
  rows that reached the log.
\<close>

record scim_record =
  rr_Action :: string
  rr_Target :: uuid
  rr_Label :: string
  rr_UserName :: "string option"
  rr_Token :: uuid

record scim_service =
  sv_dir :: directory
  sv_calls :: nat
  sv_limiter :: limiter
  sv_record_calls :: "scim_record list"

text \<open>
  \<open>se_now\<close> and \<open>se_ids\<close> are the store's clock and identifiers at the \<open>k\<close>-th call, \<open>se_clock\<close> the readings of the
  limiter's clock, \<open>se_HashToken\<close> is SHA-256 of a presented token, \<open>se_sha256\<close> the digest \<open>DeriveUsername\<close> falls back
  to, \<open>se_parse\<close> and \<open>se_String\<close> are \<open>uuid.Parse\<close> and \<open>String\<close>.
\<close>

record scim_env =
  se_mid :: "nat \<Rightarrow> directory \<Rightarrow> directory"
  se_outage :: "nat \<Rightarrow> outage"
  se_now :: "nat \<Rightarrow> instant"
  se_ids :: "nat \<Rightarrow> uuid"
  se_citext :: "string \<Rightarrow> string \<Rightarrow> bool"
  se_HashToken :: "string \<Rightarrow> bytes"
  se_sha256 :: "bytes \<Rightarrow> nat list"
  se_parse :: "string \<Rightarrow> uuid option"
  se_String :: "uuid \<Rightarrow> string"
  se_clock :: "nat \<Rightarrow> instant"

datatype scim_answer =
    UserAnswer nat userResource "string option"
  | ListAnswer nat int nat "userResource list"
  | Document string
  | Deleted
  | ScimError nat string detail "(string \<times> string) list"

definition writeSCIMError :: "nat \<Rightarrow> string \<Rightarrow> string \<Rightarrow> scim_answer" where
  "writeSCIMError status scimType d = ScimError status scimType (Plain d) []"

definition scim_internalError :: scim_answer where "scim_internalError = writeSCIMError 500 [] ''internal server error''"
definition writeNotFound :: scim_answer where "writeNotFound = writeSCIMError 404 [] ''no such user''"
definition writeConflict :: "string \<Rightarrow> scim_answer" where "writeConflict d = writeSCIMError 409 typeUniqueness d"

definition writeLastAdminConflict :: scim_answer where
  "writeLastAdminConflict = writeSCIMError 409 [] ''the last active administrator cannot be deactivated''"

definition writeUnauthorized :: scim_answer where
  "writeUnauthorized = ScimError 401 [] (Plain ''a provisioning token is required'')
     [(''WWW-Authenticate'', ''Bearer realm=\"hamlaneh-scim\"'')]"

definition writeRateLimited :: "duration \<Rightarrow> scim_answer" where
  "writeRateLimited retryAfter =
     (let seconds = go_div (retryAfter + 10 ^ 9 - 1) (10 ^ 9)
      in ScimError 429 typeTooMany (Plain ''too many requests, try again later'')
           [(''Retry-After'', FormatInt (if seconds < 1 then 1 else seconds))])"

definition scim_malformed :: scim_answer where
  "scim_malformed = writeSCIMError 400 typeInvalidSyntax ''malformed request body''"

definition BasePath :: string where "BasePath = ''/scim/v2''"

definition location :: "scim_env \<Rightarrow> uuid \<Rightarrow> string" where
  "location env i = BasePath @ ''/Users/'' @ se_String env i"

definition scall :: "scim_env \<Rightarrow> (nat \<Rightarrow> directory \<Rightarrow> (store_error + 'a) \<times> directory) \<Rightarrow> scim_service \<Rightarrow>
    (store_error + 'a) \<times> scim_service" where
  "scall env f sv =
     (let k = sv_calls sv; d = se_mid env k (sv_dir sv); r = f k d
      in case se_outage env k of
           Up \<Rightarrow> (fst r, sv\<lparr>sv_dir := snd r, sv_calls := Suc k\<rparr>)
         | Down \<Rightarrow> (Inl unavailable, sv\<lparr>sv_dir := d, sv_calls := Suc k\<rparr>)
         | Lost \<Rightarrow> (Inl unavailable, sv\<lparr>sv_dir := snd r, sv_calls := Suc k\<rparr>))"

definition scim_recorded :: "uuid \<Rightarrow> string \<Rightarrow> scim_user \<Rightarrow> string option \<Rightarrow> scim_service \<Rightarrow> scim_service" where
  "scim_recorded token action target userName sv =
     sv\<lparr>sv_record_calls := sv_record_calls sv @ [\<lparr>rr_Action = action, rr_Target = u_id (su_row target),
        rr_Label = u_username (su_row target), rr_UserName = userName, rr_Token = token\<rparr>]\<rparr>"

definition lookup :: "scim_env \<Rightarrow> string \<Rightarrow> scim_service \<Rightarrow> (scim_answer + scim_user) \<times> scim_service" where
  "lookup env rawID sv =
     (case se_parse env rawID of
        None \<Rightarrow> (Inl writeNotFound, sv)
      | Some i \<Rightarrow>
          (case scall env (\<lambda>k d. (ScimUserByID i d, d)) sv of
             (Inr u, sv1) \<Rightarrow> (Inr u, sv1)
           | (Inl e, sv1) \<Rightarrow> (Inl (if e = ErrNotFound then writeNotFound else scim_internalError), sv1)))"

definition setActive :: "scim_env \<Rightarrow> uuid \<Rightarrow> scim_user \<Rightarrow> bool \<Rightarrow> scim_service \<Rightarrow> (scim_answer + unit) \<times> scim_service" where
  "setActive env token user active sv =
     (if u_is_active (su_row user) = active then (Inr (), sv)
      else case scall env (\<lambda>k. ScimSetActive (se_now env k) (u_id (su_row user)) active) sv of
             (Inl e, sv1) \<Rightarrow>
               (Inl (if e = ErrNotFound then writeNotFound else if e = ErrLastAdmin then writeLastAdminConflict
                     else scim_internalError), sv1)
           | (Inr updated, sv1) \<Rightarrow>
               (Inr (), scim_recorded token (if active then ''scim.user.reactivated'' else ''scim.user.deactivated'') updated None sv1))"

definition commit :: "scim_env \<Rightarrow> uuid \<Rightarrow> scim_user \<Rightarrow> userWrite \<Rightarrow> scim_service \<Rightarrow> scim_answer \<times> scim_service" where
  "commit env token user write sv =
     (case (if uw_active write \<noteq> u_is_active (su_row user) then setActive env token user (uw_active write) sv else (Inr (), sv)) of
        (Inl answer, sv1) \<Rightarrow> (answer, sv1)
      | (Inr _, sv1) \<Rightarrow>
          (case scall env (\<lambda>k. ReplaceScimUser (se_citext env) (se_now env k) (u_id (su_row user)) (uw_attrs write)) sv1 of
             (Inl e, sv2) \<Rightarrow>
               (if e = ErrNotFound then writeNotFound
                else if e = ErrScimIdentifierTaken \<or> e = ErrEmailTaken
                then writeConflict ''another account already holds that userName, externalId or email''
                else scim_internalError, sv2)
           | (Inr updated, sv2) \<Rightarrow>
               (UserAnswer 200 (resourceOf updated) None,
                if sameAttributes (uw_attrs write) (uw_attrs (currentWrite user)) then sv2
                else scim_recorded token ''scim.user.updated'' updated None sv2)))"

definition listUsers :: "scim_env \<Rightarrow> string \<Rightarrow> string \<Rightarrow> string \<Rightarrow> scim_service \<Rightarrow> scim_answer \<times> scim_service" where
  "listUsers env rawFilter rawStart rawCount sv =
     (case parseFilter rawFilter of
        None \<Rightarrow> (writeSCIMError 400 typeInvalidFilter
                  ''only 'userName eq \"...\"' and 'externalId eq \"...\"' are supported'', sv)
      | Some f \<Rightarrow>
          (let (startIndex, count) = pageWindow rawStart rawCount
           in case scall env (\<lambda>k. ListScimUsers (se_mid env k) (se_citext env) f (nat (startIndex - 1)) (nat count)) sv of
                (Inl e, sv1) \<Rightarrow> (scim_internalError, sv1)
              | (Inr (us, n), sv1) \<Rightarrow> (ListAnswer n startIndex (length us) (map resourceOf us), sv1)))"

definition maxUsernameAttempts :: nat where "maxUsernameAttempts = 20"

text \<open>The derivation loop: up to \<open>left\<close> inserts, from the given attempt on, until one is not a taken username.\<close>

fun create_loop :: "nat \<Rightarrow> int \<Rightarrow> scim_env \<Rightarrow> userWrite \<Rightarrow> string \<Rightarrow> scim_service \<Rightarrow> (store_error + scim_user) \<times> scim_service" where
  "create_loop 0 attempt env write loc sv = (Inl ErrUsernameTaken, sv)"
| "create_loop (Suc left) attempt env write loc sv =
     (case scall env (\<lambda>k. CreateScimUser (se_citext env) (se_now env k) (se_ids env k)
             \<lparr>ns_Username = DeriveUsername (se_sha256 env) (at_ScimUserName (uw_attrs write)) attempt,
              ns_ScimUserName = at_ScimUserName (uw_attrs write), ns_ExternalID = at_ExternalID (uw_attrs write),
              ns_Email = at_Email (uw_attrs write), ns_DisplayName = at_DisplayName (uw_attrs write), ns_Locale = loc,
              ns_IsActive = uw_active write\<rparr>) sv of
        (Inl e, sv1) \<Rightarrow> if e = ErrUsernameTaken then create_loop left (attempt + 1) env write loc sv1 else (Inl e, sv1)
      | (Inr u, sv1) \<Rightarrow> (Inr u, sv1))"

definition scim_refusal :: "patchFailure \<Rightarrow> scim_answer" where
  "scim_refusal f = ScimError 400 (fst f) (snd f) []"

definition createUser :: "scim_env \<Rightarrow> uuid \<Rightarrow> userBody option \<Rightarrow> scim_service \<Rightarrow> scim_answer \<times> scim_service" where
  "createUser env token body sv =
     (case body of
        None \<Rightarrow> (scim_malformed, sv)
      | Some b \<Rightarrow>
          (case readBody b True of
             Inl f \<Rightarrow> (scim_refusal f, sv)
           | Inr write \<Rightarrow>
               (case scall env (\<lambda>k d. (Inr (default_locale (org_settings (dir_db d))), d)) sv of
                  (Inl e, sv1) \<Rightarrow> (scim_internalError, sv1)
                | (Inr loc, sv1) \<Rightarrow>
                    (case create_loop maxUsernameAttempts 0 env write loc sv1 of
                       (Inl e, sv2) \<Rightarrow>
                         (if e = ErrScimIdentifierTaken \<or> e = ErrEmailTaken
                          then writeConflict ''an account with that userName, externalId or email already exists''
                          else if e = ErrUsernameTaken
                          then writeConflict ''could not derive a free local username from that userName; every candidate is taken''
                          else scim_internalError, sv2)
                     | (Inr created, sv2) \<Rightarrow>
                         (UserAnswer 201 (resourceOf created) (Some (location env (u_id (su_row created)))),
                          scim_recorded token ''scim.user.created'' created (Some (at_ScimUserName (uw_attrs write))) sv2)))))"

definition getUser :: "scim_env \<Rightarrow> string \<Rightarrow> scim_service \<Rightarrow> scim_answer \<times> scim_service" where
  "getUser env rawID sv =
     (case lookup env rawID sv of (Inl answer, sv1) \<Rightarrow> (answer, sv1) | (Inr u, sv1) \<Rightarrow> (UserAnswer 200 (resourceOf u) None, sv1))"

definition replaceUser :: "scim_env \<Rightarrow> uuid \<Rightarrow> string \<Rightarrow> userBody option \<Rightarrow> scim_service \<Rightarrow> scim_answer \<times> scim_service" where
  "replaceUser env token rawID body sv =
     (case lookup env rawID sv of
        (Inl answer, sv1) \<Rightarrow> (answer, sv1)
      | (Inr u, sv1) \<Rightarrow>
          (case body of
             None \<Rightarrow> (scim_malformed, sv1)
           | Some b \<Rightarrow>
               (case readBody b (u_is_active (su_row u)) of
                  Inl f \<Rightarrow> (scim_refusal f, sv1)
                | Inr write \<Rightarrow> commit env token u write sv1)))"

definition patchUser :: "scim_env \<Rightarrow> uuid \<Rightarrow> string \<Rightarrow> patchOperation list option \<Rightarrow> scim_service \<Rightarrow> scim_answer \<times> scim_service" where
  "patchUser env token rawID body sv =
     (case lookup env rawID sv of
        (Inl answer, sv1) \<Rightarrow> (answer, sv1)
      | (Inr u, sv1) \<Rightarrow>
          (case body of
             None \<Rightarrow> (scim_malformed, sv1)
           | Some ops \<Rightarrow>
               (case applyPatch (currentWrite u) ops of
                  Inl f \<Rightarrow> (scim_refusal f, sv1)
                | Inr write \<Rightarrow>
                    if validateAttributes (uw_attrs write) \<noteq> []
                    then (scim_refusal (invalidValue (validateAttributes (uw_attrs write))), sv1)
                    else commit env token u write sv1)))"

definition deleteUser :: "scim_env \<Rightarrow> uuid \<Rightarrow> string \<Rightarrow> scim_service \<Rightarrow> scim_answer \<times> scim_service" where
  "deleteUser env token rawID sv =
     (case lookup env rawID sv of
        (Inl answer, sv1) \<Rightarrow> (answer, sv1)
      | (Inr u, sv1) \<Rightarrow>
          (case setActive env token u False sv1 of (Inl answer, sv2) \<Rightarrow> (answer, sv2) | (Inr _, sv2) \<Rightarrow> (Deleted, sv2)))"

section \<open>Credentials, budget, dispatch\<close>

definition TokenLen :: nat where "TokenLen = (32 * 8 + 5) div 6"

definition PlausibleToken :: "string \<Rightarrow> bool" where
  "PlausibleToken raw \<longleftrightarrow> length raw = TokenLen \<and> list_all (\<lambda>c.
     65 \<le> byte_of c \<and> byte_of c \<le> 90 \<or> 97 \<le> byte_of c \<and> byte_of c \<le> 122 \<or> 48 \<le> byte_of c \<and> byte_of c \<le> 57 \<or>
     c = CHR ''-'' \<or> c = CHR ''_'') raw"

definition resolveToken :: "scim_env \<Rightarrow> string \<Rightarrow> scim_service \<Rightarrow> (store_error + uuid) \<times> scim_service" where
  "resolveToken env authorization sv =
     (let bearer = (take 7 authorization = ''Bearer ''); raw = TrimSpace (trim_prefix ''Bearer '' authorization)
      in if \<not> bearer \<or> \<not> PlausibleToken raw then (Inl ErrNotFound, sv)
         else scall env (\<lambda>k. ScimTokenByHash (se_now env k) (se_HashToken env raw)) sv)"

datatype scim_operation =
    Discovery string
  | ListAccounts string string string
  | CreateAccount "userBody option"
  | GetAccount string
  | ReplaceAccount string "userBody option"
  | PatchAccount string "patchOperation list option"
  | DeleteAccount string
  | Elsewhere

record scim_request =
  sr_Authorization :: string
  sr_client :: string
  sr_operation :: scim_operation

fun scim_mux :: "scim_env \<Rightarrow> uuid \<Rightarrow> scim_operation \<Rightarrow> scim_service \<Rightarrow> scim_answer \<times> scim_service" where
  "scim_mux env token (Discovery doc) sv = (Document doc, sv)"
| "scim_mux env token (ListAccounts rawFilter rawStart rawCount) sv = listUsers env rawFilter rawStart rawCount sv"
| "scim_mux env token (CreateAccount body) sv = createUser env token body sv"
| "scim_mux env token (GetAccount rawID) sv = getUser env rawID sv"
| "scim_mux env token (ReplaceAccount rawID body) sv = replaceUser env token rawID body sv"
| "scim_mux env token (PatchAccount rawID body) sv = patchUser env token rawID body sv"
| "scim_mux env token (DeleteAccount rawID) sv = deleteUser env token rawID sv"
| "scim_mux env token Elsewhere sv = (writeSCIMError 404 [] ''no such SCIM resource'', sv)"

definition scim_rateLimit :: int where "scim_rateLimit = 600"
definition scim_rateWindow :: duration where "scim_rateWindow = 60 * 10 ^ 9"

definition spend :: "scim_env \<Rightarrow> string \<Rightarrow> scim_service \<Rightarrow> scim_answer option \<times> scim_service" where
  "spend env key sv =
     (case Limited (se_clock env 0) key (sv_limiter sv) of
        (True, l) \<Rightarrow> (case RetryAfter (se_clock env 1) key l of (wait, l1) \<Rightarrow> (Some (writeRateLimited wait), sv\<lparr>sv_limiter := l1\<rparr>))
      | (False, l) \<Rightarrow> (None, sv\<lparr>sv_limiter := Record (se_clock env 1) key l\<rparr>))"

definition ServeSCIM :: "scim_env \<Rightarrow> scim_request \<Rightarrow> scim_service \<Rightarrow> scim_answer \<times> scim_service" where
  "ServeSCIM env r sv =
     (case resolveToken env (sr_Authorization r) sv of
        (res, sv1) \<Rightarrow>
          if (case res of Inl e \<Rightarrow> e \<noteq> ErrNotFound | Inr _ \<Rightarrow> False) then (scim_internalError, sv1)
          else
            (let key = (case res of Inr i \<Rightarrow> if i \<noteq> 0 then ''token:'' @ se_String env i else ''ip:'' @ sr_client r
                        | Inl _ \<Rightarrow> ''ip:'' @ sr_client r)
             in case spend env key sv1 of
                  (Some refusal, sv2) \<Rightarrow> (refusal, sv2)
                | (None, sv2) \<Rightarrow>
                    (case res of
                       Inl _ \<Rightarrow> (writeUnauthorized, sv2)
                     | Inr token \<Rightarrow> scim_mux env token (sr_operation r) sv2)))"

end
