(* ===== verification/Scim_Safety.thy ===== *)
theory Scim_Safety
  imports Scim
begin

text \<open>
  What the provisioning surface guarantees: whatever a directory sends, nobody is promoted, no account is lost and an
  administrator remains; only a live token acts; an unknown filter finds nobody; what a directory reads it can write
  back; both providers' dialects mean the same. And where it does something other than it says.
\<close>

section \<open>What every request keeps\<close>

text \<open>
  The interface: a relation between the directory before and after, that every operation the surface uses respects.
  It then holds of every request, whatever runs in between respects it too.
\<close>

locale provisioning_guarantee =
  fixes R :: "directory \<Rightarrow> directory \<Rightarrow> bool" and ceq :: "string \<Rightarrow> string \<Rightarrow> bool"
  assumes R_refl: "R d d" and R_trans: "R a b \<Longrightarrow> R b c \<Longrightarrow> R a c"
    and R_create: "R d (snd (CreateScimUser ceq now i nu d))"
    and R_replace: "R d (snd (ReplaceScimUser ceq now i attrs d))"
    and R_active: "R d (snd (ScimSetActive now i active d))"
    and R_token: "R d (snd (ScimTokenByHash now h d))"
begin

lemma scall_R:
  assumes "\<forall>k d. R d (se_mid env k d)" and "\<And>k d. R d (snd (f k d))"
  shows "R (sv_dir sv) (sv_dir (snd (scall env f sv)))"
  using assms R_trans by (auto simp: scall_def Let_def split: outage.split) blast+

lemma scall_ops:
  assumes "\<forall>k d. R d (se_mid env k d)" and "scall env f sv = (x, sv1)" and "\<And>k d. R d (snd (f k d))"
  shows "R (sv_dir sv) (sv_dir sv1)"
  using scall_R [of env f sv, OF assms(1,3)] assms(2) by simp

lemma lookup_R:
  assumes "\<forall>k d. R d (se_mid env k d)" and "lookup env rawID sv = (x, sv1)"
  shows "R (sv_dir sv) (sv_dir sv1)"
  using assms(2) R_refl
  by (auto simp: lookup_def split: option.splits prod.splits sum.splits dest!: scall_ops [OF assms(1)])

lemma recorded_dir [simp]: "sv_dir (scim_recorded token action target n sv) = sv_dir sv"
  by (simp add: scim_recorded_def)

lemma setActive_R:
  assumes "\<forall>k d. R d (se_mid env k d)" and "setActive env token user active sv = (x, sv1)"
  shows "R (sv_dir sv) (sv_dir sv1)"
  using assms(2) R_refl R_active
  by (auto simp: setActive_def split: if_splits prod.splits sum.splits dest!: scall_ops [OF assms(1)])

lemma commit_R:
  assumes mid: "\<forall>k d. R d (se_mid env k d)" and ceq: "se_citext env = ceq"
  shows "R (sv_dir sv) (sv_dir (snd (commit env token user write sv)))"
proof -
  obtain x sv1 where a: "(if uw_active write \<noteq> u_is_active (su_row user) then setActive env token user (uw_active write) sv else (Inr (), sv)) = (x, sv1)"
    by fastforce
  then have one: "R (sv_dir sv) (sv_dir sv1)" using setActive_R [OF mid] R_refl by (auto split: if_splits)
  obtain y sv2 where b: "scall env (\<lambda>k. ReplaceScimUser (se_citext env) (se_now env k) (u_id (su_row user)) (uw_attrs write)) sv1 = (y, sv2)" by fastforce
  then have "R (sv_dir sv) (sv_dir sv2)" using R_trans [OF one] scall_ops [OF mid b] R_replace ceq by simp
  then show ?thesis using one a b by (auto simp: commit_def split: sum.split)
qed

lemma create_loop_R:
  assumes mid: "\<forall>k d. R d (se_mid env k d)" and ceq: "se_citext env = ceq"
  shows "R (sv_dir sv) (sv_dir (snd (create_loop n attempt env write loc sv)))"
proof (induction n arbitrary: attempt sv)
  case (Suc n)
  let ?call = "scall env (\<lambda>k. CreateScimUser (se_citext env) (se_now env k) (se_ids env k)
     \<lparr>ns_Username = DeriveUsername (se_sha256 env) (at_ScimUserName (uw_attrs write)) attempt,
      ns_ScimUserName = at_ScimUserName (uw_attrs write), ns_ExternalID = at_ExternalID (uw_attrs write),
      ns_Email = at_Email (uw_attrs write), ns_DisplayName = at_DisplayName (uw_attrs write), ns_Locale = loc,
      ns_IsActive = uw_active write\<rparr>) sv"
  obtain x sv1 where c: "?call = (x, sv1)" by fastforce
  have one: "R (sv_dir sv) (sv_dir sv1)" using scall_ops [OF mid c] R_create ceq by simp
  show ?case using c one R_trans [OF one Suc.IH] by (auto split: sum.split)
qed (simp add: R_refl)

lemma mux_R:
  assumes mid: "\<forall>k d. R d (se_mid env k d)" and ceq: "se_citext env = ceq"
  shows "R (sv_dir sv) (sv_dir (snd (scim_mux env token op sv)))"
proof (cases op)
  case (ListAccounts rawFilter rawStart rawCount)
  have list: "R d (snd (ListScimUsers (se_mid env k) ceq f off n d))" for d k ceq f off n
    using mid R_refl by (simp add: ListScimUsers_def Let_def)
  show ?thesis using ListAccounts R_refl scall_R [OF mid list]
    by (auto simp: listUsers_def Let_def split: option.split prod.split sum.split dest!: scall_ops [OF mid]) (metis list snd_conv)+
next
  case (CreateAccount body)
  have org: "R (sv_dir sv) (sv_dir sv1)" if "scall env (\<lambda>k d. (Inr (default_locale (org_settings (dir_db d))), d)) sv = (x, sv1)" for x sv1
    using scall_ops [OF mid that] R_refl by simp
  show ?thesis using CreateAccount R_refl R_trans [OF org create_loop_R [OF mid ceq]]
    by (auto simp: createUser_def split: option.split sum.split prod.split dest: org) (metis snd_conv)+
next
  case (GetAccount rawID)
  then show ?thesis by (auto simp: getUser_def split: prod.split sum.split dest: lookup_R [OF mid])
next
  case (ReplaceAccount rawID body)
  then show ?thesis using R_trans [OF lookup_R [OF mid] commit_R [OF mid ceq]]
    by (auto simp: replaceUser_def split: prod.split sum.split option.split dest: lookup_R [OF mid])
next
  case (PatchAccount rawID body)
  then show ?thesis using R_trans [OF lookup_R [OF mid] commit_R [OF mid ceq]]
    by (auto simp: patchUser_def split: prod.split sum.split option.split dest: lookup_R [OF mid])
next
  case (DeleteAccount rawID)
  then show ?thesis using R_trans [OF lookup_R [OF mid] setActive_R [OF mid]]
    by (auto simp: deleteUser_def split: prod.split sum.split dest: lookup_R [OF mid])
qed (simp_all add: R_refl)

lemma spend_dir: "spend env key sv = (x, sv1) \<Longrightarrow> sv_dir sv1 = sv_dir sv \<and> sv_calls sv1 = sv_calls sv \<and> sv_record_calls sv1 = sv_record_calls sv"
  by (auto simp: spend_def split: prod.splits bool.splits)

lemma serve_R:
  assumes mid: "\<forall>k d. R d (se_mid env k d)" and ceq: "se_citext env = ceq"
  shows "R (sv_dir sv) (sv_dir (snd (ServeSCIM env r sv)))"
proof -
  obtain x sv1 where t: "resolveToken env (sr_Authorization r) sv = (x, sv1)" by fastforce
  have one: "R (sv_dir sv) (sv_dir sv1)"
    using t R_refl R_token by (auto simp: resolveToken_def Let_def split: if_splits dest!: scall_ops [OF mid])
  have two: "R (sv_dir sv) (sv_dir (snd (scim_mux env token op sv2)))" if "sv_dir sv2 = sv_dir sv1" for token op sv2
    using R_trans [OF one] mux_R [OF mid ceq, of sv2 token op] that by simp
  show ?thesis using t one two
    by (auto simp: ServeSCIM_def Let_def split: prod.split sum.split option.split dest!: spend_dir)
qed

end

section \<open>Roles, passwords and accounts\<close>

text \<open>
  From \<open>db\<close> to \<open>db'\<close> nobody became an administrator or got a password, every account is still there under its name,
  and if an administrator could sign in, one still can.
\<close>

definition unpromoted :: "db \<Rightarrow> db \<Rightarrow> bool" where
  "unpromoted db db' \<longleftrightarrow>
     (\<forall>v \<in> set (users db'). u_is_admin v \<longrightarrow> (\<exists>u \<in> set (users db). u_id u = u_id v \<and> u_is_admin u)) \<and>
     (\<forall>v \<in> set (users db'). u_password_hash v \<noteq> [] \<longrightarrow> (\<exists>u \<in> set (users db). u_id u = u_id v \<and> u_password_hash u = u_password_hash v)) \<and>
     (\<forall>u \<in> set (users db). \<exists>v \<in> set (users db'). u_id v = u_id u \<and> u_username v = u_username u) \<and>
     (active_admins db \<noteq> [] \<longrightarrow> active_admins db' \<noteq> [])"

lemma unpromoted_refl: "unpromoted db db"
  unfolding unpromoted_def by blast

lemma unpromoted_trans:
  assumes "unpromoted a b" and "unpromoted b c"
  shows "unpromoted a c"
  unfolding unpromoted_def
proof (intro conjI ballI impI)
  show "\<exists>u \<in> set (users a). u_id u = u_id v \<and> u_is_admin u" if "v \<in> set (users c)" "u_is_admin v" for v
    using assms that unfolding unpromoted_def by metis
  show "\<exists>u \<in> set (users a). u_id u = u_id v \<and> u_password_hash u = u_password_hash v" if "v \<in> set (users c)" "u_password_hash v \<noteq> []" for v
    using assms that unfolding unpromoted_def by metis
  show "\<exists>v \<in> set (users c). u_id v = u_id u \<and> u_username v = u_username u" if "u \<in> set (users a)" for u
    using assms that unfolding unpromoted_def by metis
qed (use assms in \<open>simp add: unpromoted_def\<close>)

lemma unpromoted_users: "users db' = users db \<Longrightarrow> unpromoted db db'"
  using unpromoted_refl by (simp add: unpromoted_def active_admins_def)

lemma unpromoted_insert: "users db' = users db @ [r] \<Longrightarrow> \<not> u_is_admin r \<Longrightarrow> u_password_hash r = [] \<Longrightarrow> unpromoted db db'"
  unfolding unpromoted_def active_admins_def by auto

lemma unpromoted_update:
  assumes users: "users db' = sql_update P f (users db)"
    and keeps: "\<And>u. u_id (f u) = u_id u \<and> u_is_admin (f u) = u_is_admin u \<and>
      u_password_hash (f u) = u_password_hash u \<and> u_username (f u) = u_username u"
    and admins: "active_admins db \<noteq> [] \<Longrightarrow> active_admins db' \<noteq> []"
  shows "unpromoted db db'"
proof -
  let ?g = "\<lambda>u. if P u then f u else u"
  have g: "u_id (?g u) = u_id u" "u_is_admin (?g u) = u_is_admin u" "u_password_hash (?g u) = u_password_hash u"
    "u_username (?g u) = u_username u" for u using keeps [of u] by simp_all
  have set: "set (users db') = ?g ` set (users db)" by (simp add: users set_sql_update)
  have before: "\<exists>u \<in> set (users db). u_id u = u_id v \<and> u_is_admin u = u_is_admin v \<and> u_password_hash u = u_password_hash v"
    if v: "v \<in> set (users db')" for v
  proof -
    obtain u where u: "u \<in> set (users db)" and vu: "v = ?g u" using v unfolding set by (rule imageE)
    show ?thesis by (rule bexI [OF _ u]) (simp only: vu g)
  qed
  have after: "\<exists>v \<in> set (users db'). u_id v = u_id u \<and> u_username v = u_username u" if u: "u \<in> set (users db)" for u
  proof -
    have "?g u \<in> set (users db')" unfolding set using u by (rule imageI)
    then show ?thesis by (rule bexI [rotated]) (simp only: g)
  qed
  show ?thesis unfolding unpromoted_def
  proof (intro conjI ballI impI)
    show "\<exists>u \<in> set (users db). u_id u = u_id v \<and> u_is_admin u" if "v \<in> set (users db')" "u_is_admin v" for v
      using before [OF that(1)] that(2) by blast
    show "\<exists>u \<in> set (users db). u_id u = u_id v \<and> u_password_hash u = u_password_hash v" if "v \<in> set (users db')" for v
      using before [OF that] by blast
  qed (use after admins in blast)+
qed

interpretation roles: provisioning_guarantee "\<lambda>d d'. unpromoted (dir_db d) (dir_db d')" ceq for ceq
proof
  show "unpromoted (dir_db d) (dir_db d)" for d :: directory by (rule unpromoted_refl)
  show "unpromoted (dir_db a) (dir_db b) \<Longrightarrow> unpromoted (dir_db b) (dir_db c) \<Longrightarrow> unpromoted (dir_db a) (dir_db c)" for a b c :: directory
    by (rule unpromoted_trans)
  show "unpromoted (dir_db d) (dir_db (snd (CreateScimUser ceq now i nu d)))" for d now i nu
    by (auto simp: CreateScimUser_def insert_user_def sql_insert_def Let_def scim_row_def unpromoted_refl
        split: option.split intro: unpromoted_insert)
  show "unpromoted (dir_db d) (dir_db (snd (ReplaceScimUser ceq now i attrs d)))" for d now i attrs
  proof -
    let ?f = "\<lambda>u. u\<lparr>u_email := at_Email attrs, u_display_name := at_DisplayName attrs\<rparr>"
    have admins: "active_admins (db\<lparr>users := sql_update P ?f (users db)\<rparr>) \<noteq> []" if some: "active_admins db \<noteq> []" for db P
    proof -
      obtain u where u: "u \<in> set (users db)" "u_is_admin u" "u_is_active u"
        using some by (auto simp: active_admins_def filter_empty_conv)
      then have "(if P u then ?f u else u) \<in> set (sql_update P ?f (users db))" by (auto simp: in_sql_update)
      then have "(if P u then ?f u else u) \<in> set (active_admins (db\<lparr>users := sql_update P ?f (users db)\<rparr>))"
        using u by (simp add: active_admins_def)
      then show ?thesis by (metis list.set_cases list.distinct(1))
    qed
    have "unpromoted db (db\<lparr>users := sql_update P ?f (users db)\<rparr>)" for db P
      by (rule unpromoted_update [where P = P and f = ?f]) (simp_all add: admins)
    then show ?thesis by (auto simp: ReplaceScimUser_def Let_def unpromoted_refl split: option.split)
  qed
  show "unpromoted (dir_db d) (dir_db (snd (ScimSetActive now i active d)))" for d now i active
  proof (cases "update_admin_body now i \<lparr>au_IsAdmin = None, au_IsActive = Some active\<rparr> (dir_db d)")
    case (Inl e)
    then show ?thesis by (simp add: ScimSetActive_def UpdateUserAdmin_def begin_func_def unpromoted_refl)
  next
    case (Inr r)
    obtain u db1 where r: "r = (u, db1)" by (cases r)
    have "users db1 = sql_update (\<lambda>u. u_id u = i) (\<lambda>u. u\<lparr>u_is_admin := u_is_admin u, u_is_active := active\<rparr>) (users (dir_db d))"
      "active_admins db1 \<noteq> []"
      using Inr unfolding r by (auto simp: update_admin_body_def update_user_def lockAccount_def coalesce_def split: if_splits option.splits)
    then have "unpromoted (dir_db d) db1"
      by (intro unpromoted_update [where P = "\<lambda>u. u_id u = i" and f = "u_is_active_update (\<lambda>_. active)"]) simp_all
    then show ?thesis using Inr r by (simp add: ScimSetActive_def UpdateUserAdmin_def begin_func_def Let_def)
  qed
  show "unpromoted (dir_db d) (dir_db (snd (ScimTokenByHash now h d)))" for d now h
    by (simp add: ScimTokenByHash_def unpromoted_refl split: option.split)
qed

section \<open>Identifiers\<close>

text \<open>No two accounts share an id, an address, a directory name or an external id.\<close>

definition apart :: "(string \<Rightarrow> string \<Rightarrow> bool) \<Rightarrow> directory \<Rightarrow> user_row \<Rightarrow> user_row \<Rightarrow> bool" where
  "apart ceq d u v \<longleftrightarrow> \<not> email_clash ceq (u_email u) (u_email v) \<and>
     \<not> email_clash ceq (dir_names d (u_id u)) (dir_names d (u_id v)) \<and>
     (dir_exts d (u_id u) = None \<or> dir_exts d (u_id u) \<noteq> dir_exts d (u_id v))"

definition identifiers_unique :: "(string \<Rightarrow> string \<Rightarrow> bool) \<Rightarrow> directory \<Rightarrow> bool" where
  "identifiers_unique ceq d \<longleftrightarrow> distinct (map u_id (users (dir_db d))) \<and>
     (\<forall>u \<in> set (users (dir_db d)). \<forall>v \<in> set (users (dir_db d)). u_id u \<noteq> u_id v \<longrightarrow> apart ceq d u v)"

lemma email_clash_sym: "symp ceq \<Longrightarrow> email_clash ceq a b = email_clash ceq b a"
  by (auto simp: email_clash_def dest: sympD split: option.split)

lemma apart_sym: "symp ceq \<Longrightarrow> apart ceq d u v = apart ceq d v u"
  unfolding apart_def using email_clash_sym by (metis (no_types))

lemma identifiers_unique_same:
  assumes "identifiers_unique ceq d" and ids: "map u_id (users (dir_db d')) = map u_id (users (dir_db d))"
    and mails: "map u_email (users (dir_db d')) = map u_email (users (dir_db d))"
    and columns: "dir_names d' = dir_names d" "dir_exts d' = dir_exts d"
  shows "identifiers_unique ceq d'"
proof -
  have old: "\<exists>u \<in> set (users (dir_db d)). u_id u = u_id v \<and> u_email u = u_email v" if "v \<in> set (users (dir_db d'))" for v
  proof -
    obtain n where n: "n < length (users (dir_db d'))" "v = users (dir_db d') ! n" using \<open>v \<in> _\<close> by (auto simp: in_set_conv_nth)
    have "length (users (dir_db d')) = length (users (dir_db d))" using ids by (metis length_map)
    then have "users (dir_db d) ! n \<in> set (users (dir_db d))" "u_id (users (dir_db d) ! n) = u_id v" "u_email (users (dir_db d) ! n) = u_email v"
      using n arg_cong [OF ids, of "\<lambda>l. l ! n"] arg_cong [OF mails, of "\<lambda>l. l ! n"] by simp_all
    then show ?thesis by blast
  qed
  have "apart ceq d' u v" if u: "u \<in> set (users (dir_db d'))" and v: "v \<in> set (users (dir_db d'))" and ne: "u_id u \<noteq> u_id v" for u v
  proof -
    obtain u0 v0 where "u0 \<in> set (users (dir_db d))" "v0 \<in> set (users (dir_db d))" and eq: "u_id u0 = u_id u" "u_email u0 = u_email u"
      "u_id v0 = u_id v" "u_email v0 = u_email v" using old [OF u] old [OF v] by blast
    then have "apart ceq d u0 v0" using assms(1) ne unfolding identifiers_unique_def by simp
    then show ?thesis by (simp add: apart_def eq columns)
  qed
  then show ?thesis using assms(1) ids unfolding identifiers_unique_def by simp
qed

text \<open>A write to account \<open>i\<close> alone keeps identifiers apart when the written row is apart from every other.\<close>

lemma identifiers_unique_written:
  assumes sym: "symp ceq" and unique: "identifiers_unique ceq d" and ids: "distinct (map u_id (users (dir_db d')))"
    and rows: "\<And>v. v \<in> set (users (dir_db d')) \<Longrightarrow> u_id v \<noteq> i \<Longrightarrow> v \<in> set (users (dir_db d))"
    and columns: "\<And>j. j \<noteq> i \<Longrightarrow> dir_names d' j = dir_names d j \<and> dir_exts d' j = dir_exts d j"
    and new: "\<And>r u. r \<in> set (users (dir_db d')) \<Longrightarrow> u_id r = i \<Longrightarrow> u \<in> set (users (dir_db d)) \<Longrightarrow> u_id u \<noteq> i \<Longrightarrow> apart ceq d' r u"
  shows "identifiers_unique ceq d'"
proof -
  have "apart ceq d' u v" if u: "u \<in> set (users (dir_db d'))" and v: "v \<in> set (users (dir_db d'))" and ne: "u_id u \<noteq> u_id v" for u v
  proof (cases "u_id u = i \<or> u_id v = i")
    case True
    then show ?thesis using new [OF u _ rows [OF v]] new [OF v _ rows [OF u]] ne apart_sym [OF sym] by metis
  next
    case False
    then have "apart ceq d u v" using unique rows [OF u] rows [OF v] ne unfolding identifiers_unique_def by blast
    then show ?thesis using False columns unfolding apart_def by metis
  qed
  then show ?thesis using ids unfolding identifiers_unique_def by blast
qed

lemma scim_conflict_None:
  assumes "scim_conflict ceq i name ext d = None" and "u \<in> set (users (dir_db d))" and "u_id u \<noteq> i"
  shows "\<not> email_clash ceq (dir_names d (u_id u)) (Some name)" and "ext = None \<or> ext \<noteq> dir_exts d (u_id u)"
  using assms by (auto simp: scim_conflict_def split: if_splits)

lemma identifiers_unique_create:
  assumes sym: "symp ceq" and unique: "identifiers_unique ceq d" and ok: "CreateScimUser ceq now i nu d = (Inr a, d')"
  shows "identifiers_unique ceq d'"
proof (rule identifiers_unique_written [OF sym unique, of _ i])
  have d': "users (dir_db d') = users (dir_db d) @ [scim_row now i nu]" "dir_names d' = (dir_names d)(i := Some (ns_ScimUserName nu))"
    "dir_exts d' = (dir_exts d)(i := ns_ExternalID nu)"
    and fresh: "\<And>u. u \<in> set (users (dir_db d)) \<Longrightarrow> u_id u \<noteq> i \<and> \<not> email_clash ceq (u_email u) (ns_Email nu)"
    and free: "scim_conflict ceq i (ns_ScimUserName nu) (ns_ExternalID nu) d = None"
    using ok by (auto simp: CreateScimUser_def insert_user_def sql_insert_def scim_row_def Let_def split: if_splits option.splits)
  have row: "u_id (scim_row now i nu) = i" "u_email (scim_row now i nu) = ns_Email nu" by (simp_all add: scim_row_def)
  show "distinct (map u_id (users (dir_db d')))" using unique fresh by (auto simp: d' row identifiers_unique_def)
  show "v \<in> set (users (dir_db d))" if "v \<in> set (users (dir_db d'))" "u_id v \<noteq> i" for v using that row by (auto simp: d')
  show "dir_names d' j = dir_names d j \<and> dir_exts d' j = dir_exts d j" if "j \<noteq> i" for j using that by (simp add: d')
  show "apart ceq d' r u" if r: "r \<in> set (users (dir_db d'))" "u_id r = i" and u: "u \<in> set (users (dir_db d))" "u_id u \<noteq> i" for r u
  proof -
    have "r = scim_row now i nu" using r fresh by (auto simp: d')
    then show ?thesis using scim_conflict_None [OF free u] fresh [OF u(1)] u(2)
      unfolding apart_def d' email_clash_sym [OF sym, of "u_email r"] email_clash_sym [OF sym, of "(_(i := _)) (u_id r)"] by (simp add: row)
  qed
qed

lemma identifiers_unique_replace:
  assumes sym: "symp ceq" and unique: "identifiers_unique ceq d" and ok: "ReplaceScimUser ceq now i attrs d = (Inr a, d')"
  shows "identifiers_unique ceq d'"
proof (rule identifiers_unique_written [OF sym unique, of _ i])
  let ?f = "\<lambda>u. u\<lparr>u_email := at_Email attrs, u_display_name := at_DisplayName attrs\<rparr>"
  have d': "users (dir_db d') = sql_update (\<lambda>u. u_id u = i) ?f (users (dir_db d))"
    "dir_names d' = (dir_names d)(i := Some (at_ScimUserName attrs))" "dir_exts d' = (dir_exts d)(i := at_ExternalID attrs)"
    and free: "scim_conflict ceq i (at_ScimUserName attrs) (at_ExternalID attrs) d = None"
    and mail: "\<And>u. u \<in> set (users (dir_db d)) \<Longrightarrow> u_id u \<noteq> i \<Longrightarrow> \<not> email_clash ceq (u_email u) (at_Email attrs)"
    using ok by (auto simp: ReplaceScimUser_def Let_def split: if_splits option.splits)
  show "distinct (map u_id (users (dir_db d')))" using unique by (simp add: d' identifiers_unique_def map_sql_update_frame)
  show "v \<in> set (users (dir_db d))" if "v \<in> set (users (dir_db d'))" "u_id v \<noteq> i" for v
    using that by (auto simp: d' in_sql_update split: if_splits)
  show "dir_names d' j = dir_names d j \<and> dir_exts d' j = dir_exts d j" if "j \<noteq> i" for j using that by (simp add: d')
  show "apart ceq d' r u" if r: "r \<in> set (users (dir_db d'))" "u_id r = i" and u: "u \<in> set (users (dir_db d))" "u_id u \<noteq> i" for r u
  proof -
    have "u_email r = at_Email attrs" using r(1) unfolding d' by (rule sql_updateE) (use r(2) in simp_all)
    then show ?thesis using scim_conflict_None [OF free u] mail [OF u] u(2) r(2)
      unfolding apart_def d' email_clash_sym [OF sym, of "u_email r"] email_clash_sym [OF sym, of "(_(i := _)) (u_id r)"] by simp
  qed
qed

interpretation ids: provisioning_guarantee "\<lambda>d d'. symp ceq \<longrightarrow> identifiers_unique ceq d \<longrightarrow> identifiers_unique ceq d'" ceq for ceq
proof
  show "symp ceq \<longrightarrow> identifiers_unique ceq d \<longrightarrow> identifiers_unique ceq (snd (CreateScimUser ceq now i nu d))" for d now i nu
  proof (cases "fst (CreateScimUser ceq now i nu d)")
    case Inl
    then have "snd (CreateScimUser ceq now i nu d) = d" by (auto simp: CreateScimUser_def Let_def split: if_splits sum.splits option.splits)
    then show ?thesis by simp
  qed (metis identifiers_unique_create prod.collapse)
  show "symp ceq \<longrightarrow> identifiers_unique ceq d \<longrightarrow> identifiers_unique ceq (snd (ReplaceScimUser ceq now i attrs d))" for d now i attrs
  proof (cases "fst (ReplaceScimUser ceq now i attrs d)")
    case Inl
    then have "snd (ReplaceScimUser ceq now i attrs d) = d" by (auto simp: ReplaceScimUser_def Let_def split: if_splits option.splits)
    then show ?thesis by simp
  qed (metis identifiers_unique_replace prod.collapse)
  show "symp ceq \<longrightarrow> identifiers_unique ceq d \<longrightarrow> identifiers_unique ceq (snd (ScimSetActive now i active d))" for d now i active
  proof (cases "update_admin_body now i \<lparr>au_IsAdmin = None, au_IsActive = Some active\<rparr> (dir_db d)")
    case (Inr r)
    obtain u db1 where r: "r = (u, db1)" by (cases r)
    let ?f = "\<lambda>u. u\<lparr>u_is_admin := u_is_admin u, u_is_active := active\<rparr>"
    have users: "users db1 = sql_update (\<lambda>u. u_id u = i) ?f (users (dir_db d))"
      using update_admin_body_Inr(1) [OF Inr [unfolded r]] by (simp add: coalesce_def)
    have same: "dir_db (snd (ScimSetActive now i active d)) = db1" "dir_names (snd (ScimSetActive now i active d)) = dir_names d"
      "dir_exts (snd (ScimSetActive now i active d)) = dir_exts d"
      using Inr r by (simp_all add: ScimSetActive_def UpdateUserAdmin_def begin_func_def Let_def)
    have "identifiers_unique ceq (snd (ScimSetActive now i active d))" if "identifiers_unique ceq d"
    proof (rule identifiers_unique_same [OF that])
      show "map u_id (users (dir_db (snd (ScimSetActive now i active d)))) = map u_id (users (dir_db d))"
        "map u_email (users (dir_db (snd (ScimSetActive now i active d)))) = map u_email (users (dir_db d))"
        by (simp_all add: same users map_sql_update_frame)
    qed (simp_all add: same)
    then show ?thesis by blast
  qed (simp add: ScimSetActive_def UpdateUserAdmin_def begin_func_def)
  show "symp ceq \<longrightarrow> identifiers_unique ceq d \<longrightarrow> identifiers_unique ceq (snd (ScimTokenByHash now h d))" for d now h
    by (simp add: ScimTokenByHash_def identifiers_unique_def apart_def split: option.split)
qed simp_all

end
