(* ===== verification/Scim_Contract.thy ===== *)
theory Scim_Contract
  imports Scim_Safety
begin

text \<open>
  Who may use the provisioning surface and what a request gets: credentials, offboarding, filters, what a directory
  reads and writes back, and the two dialects of PatchOp. The last section shows where the code does something other
  than its comments say.
\<close>

section \<open>What no request can do\<close>

text \<open>
  C19. A directory promotes nobody. Whatever a provisioning request carries, whoever sends it, whatever runs between its
  store calls (as long as that promotes nobody either) and whichever of them fails: nobody becomes an
  administrator, nobody gets a password, no account disappears or changes its local name, and if an
  administrator could sign in before, one still can.
\<close>

theorem directory_promotes_nobody:
  assumes "\<forall>k d. unpromoted (dir_db d) (dir_db (se_mid env k d))"
  shows "unpromoted (dir_db (sv_dir sv)) (dir_db (sv_dir (snd (ServeSCIM env r sv))))"
  using assms refl by (rule roles.serve_R)

text \<open>
  Identifiers stay unique. Where text comparison is symmetric, no provisioning request, whichever of its store calls
  fails and whatever runs between them (as long as it keeps them unique too), leaves two accounts with one address, one
  directory name or one external id.
\<close>

theorem identifiers_stay_unique:
  assumes "symp (se_citext env)" and "\<forall>k d. identifiers_unique (se_citext env) d \<longrightarrow> identifiers_unique (se_citext env) (se_mid env k d)"
    and "identifiers_unique (se_citext env) (sv_dir sv)"
  shows "identifiers_unique (se_citext env) (sv_dir (snd (ServeSCIM env r sv)))"
  using ids.serve_R [of "se_citext env" env sv r] assms by blast

section \<open>Credentials\<close>

fun scim_status :: "scim_answer \<Rightarrow> nat" where
  "scim_status (UserAnswer n _ _) = n"
| "scim_status (ListAnswer _ _ _ _) = 200"
| "scim_status (Document _) = 200"
| "scim_status Deleted = 204"
| "scim_status (ScimError n _ _ _) = n"

text \<open>The digest of the token a request presents.\<close>

definition presented :: "scim_env \<Rightarrow> scim_request \<Rightarrow> bytes" where
  "presented env r = se_HashToken env (TrimSpace (trim_prefix ''Bearer '' (sr_Authorization r)))"

lemma spend_refusal: "spend env key sv = (Some a, sv1) \<Longrightarrow> scim_status a = 429"
  by (auto simp: spend_def writeRateLimited_def Let_def split: prod.splits bool.splits)

lemma resolve_unknown:
  assumes "take 7 (sr_Authorization r) = ''Bearer '' \<Longrightarrow>
    \<forall>t \<in> set (dir_tokens (se_mid env (sv_calls sv) (sv_dir sv))). live_token t \<longrightarrow> st_hash t \<noteq> presented env r"
    and "resolveToken env (sr_Authorization r) sv = (x, sv1)"
  shows "(\<exists>e. x = Inl e) \<and> sv_record_calls sv1 = sv_record_calls sv \<and> sv_dir sv1 \<in> {sv_dir sv, se_mid env (sv_calls sv) (sv_dir sv)}"
proof -
  have "sql_row (\<lambda>t. st_hash t = presented env r \<and> live_token t) (dir_tokens (se_mid env (sv_calls sv) (sv_dir sv))) = None"
    if "take 7 (sr_Authorization r) = ''Bearer ''"
    using assms(1) [OF that] by (auto simp: sql_row_None_iff)
  then show ?thesis using assms(2)
    by (auto simp: resolveToken_def scall_def ScimTokenByHash_def Let_def presented_def split: if_splits outage.splits)
qed

text \<open>
  C20. Only a live token acts. A request that does not carry, behind \<open>Bearer\<close>, a token that is a live provisioning
  token when the store is asked (no such header, another scheme, a malformed, unknown or revoked token) is answered
  401, 429 or 500; it calls the recorder for nothing and leaves the directory as it found it.
\<close>

theorem only_live_token_acts:
  assumes "take 7 (sr_Authorization r) = ''Bearer '' \<Longrightarrow>
    \<forall>t \<in> set (dir_tokens (se_mid env (sv_calls sv) (sv_dir sv))). live_token t \<longrightarrow> st_hash t \<noteq> presented env r"
    and "ServeSCIM env r sv = (a, sv')"
  shows "scim_status a \<in> {401, 429, 500} \<and> sv_record_calls sv' = sv_record_calls sv \<and>
    sv_dir sv' \<in> {sv_dir sv, se_mid env (sv_calls sv) (sv_dir sv)}"
proof -
  obtain x sv1 where t: "resolveToken env (sr_Authorization r) sv = (x, sv1)" by fastforce
  obtain e where e: "x = Inl e" and kept: "sv_record_calls sv1 = sv_record_calls sv" "sv_dir sv1 \<in> {sv_dir sv, se_mid env (sv_calls sv) (sv_dir sv)}"
    using resolve_unknown [OF assms(1) t] by blast
  obtain y sv2 where s: "spend env (''ip:'' @ sr_client r) sv1 = (y, sv2)" by fastforce
  have spent: "sv_dir sv2 = sv_dir sv1" "sv_record_calls sv2 = sv_record_calls sv1" using roles.spend_dir [OF s] by simp_all
  show ?thesis using assms(2) kept spent t s e
    by (auto simp: ServeSCIM_def scim_internalError_def writeSCIMError_def writeUnauthorized_def split: if_splits option.splits
        dest: spend_refusal)
qed

text \<open>Once revoked, a token's digest, unique in its table, belongs to no live token.\<close>

lemma revoked_is_dead:
  assumes "distinct (map st_hash (dir_tokens d))" and "t \<in> set (dir_tokens d)" and "RevokeScimToken now (st_id t) d = (Inr (), d')"
  shows "\<forall>u \<in> set (dir_tokens d'). live_token u \<longrightarrow> st_hash u \<noteq> st_hash t"
proof (intro ballI impI)
  fix u assume u: "u \<in> set (dir_tokens d')" and live: "live_token u"
  have tokens: "dir_tokens d' = sql_update (\<lambda>x. st_id x = st_id t \<and> live_token x) (\<lambda>x. x\<lparr>st_revoked := Some now\<rparr>) (dir_tokens d)"
    using assms(3) by (auto simp: RevokeScimToken_def Let_def split: if_splits)
  have "u \<in> set (dir_tokens d) \<and> \<not> (st_id u = st_id t \<and> live_token u)"
    using u unfolding tokens by (rule sql_updateE) (use live in \<open>auto simp: live_token_def\<close>)
  then show "st_hash u \<noteq> st_hash t" using live assms(1,2) by (metis distinct_map_inj)
qed

section \<open>Offboarding\<close>

lemma ScimSetActive_off:
  assumes "ScimSetActive now i False d = (Inr a, d')"
  shows "\<exists>v. UserByID i (dir_db d') = Inr v \<and> \<not> u_is_active v \<and> u_id v = i"
    and "\<forall>s \<in> set (sessions (dir_db d')). s_user s = i \<longrightarrow> s_revoked_at s \<noteq> None"
    and "u_id (su_row a) = i"
proof -
  let ?upd = "\<lparr>au_IsAdmin = None, au_IsActive = Some False\<rparr>"
  obtain u where b: "update_admin_body now i ?upd (dir_db d) = Inr (u, dir_db d')" and a: "su_row a = u"
    using assms by (auto simp: ScimSetActive_def UpdateUserAdmin_def scim_account_def split: prod.splits sum.splits)
  show "u_id (su_row a) = i" using update_admin_body_Inr(6) [OF b] a by simp
  have off: "\<not> u_is_active u"
    using b by (auto simp: update_admin_body_def update_user_def lockAccount_def coalesce_def split: if_splits option.splits)
  have "sql_row (\<lambda>u. u_id u = i) (users (dir_db d)) \<noteq> None"
    using b by (auto simp: update_admin_body_def update_user_def lockAccount_def split: if_splits option.splits)
  then obtain v where v: "sql_row (\<lambda>u. u_id u = i) (users (dir_db d)) = Some v" by blast
  show "\<exists>v. UserByID i (dir_db d') = Inr v \<and> \<not> u_is_active v \<and> u_id v = i"
    using v sql_row_Some_iff [OF v] by (simp add: UserByID_def update_admin_body_Inr(1) [OF b] sql_row_sql_update coalesce_def)
  have sessions: "sessions (dir_db d') = sql_update (\<lambda>s. s_user s = i \<and> s_revoked_at s = None) (\<lambda>s. s\<lparr>s_revoked_at := Some now\<rparr>) (sessions (dir_db d))"
    using off by (simp add: update_admin_body_Inr(7) [OF b] revoke_where_def)
  show "\<forall>s \<in> set (sessions (dir_db d')). s_user s = i \<longrightarrow> s_revoked_at s \<noteq> None"
  proof (intro ballI impI)
    fix s assume "s \<in> set (sessions (dir_db d'))" and mine: "s_user s = i"
    then show "s_revoked_at s \<noteq> None" unfolding sessions by (elim sql_updateE) simp_all
  qed
qed

lemma scall_answered:
  assumes "scall env f sv = (Inr x, sv1)"
  shows "\<exists>d. f (sv_calls sv) d = (Inr x, sv_dir sv1)" and "sv_record_calls sv1 = sv_record_calls sv"
  using assms by (auto simp: scall_def Let_def split: outage.splits) (metis prod.collapse)

lemma scall_audit: "scall env f sv = (x, sv1) \<Longrightarrow> sv_record_calls sv1 = sv_record_calls sv"
  by (auto simp: scall_def Let_def split: outage.splits)

text \<open>
  C21. Deletion offboards. A DELETE that finds an active account and is answered 204 leaves the account in place,
  deactivated, with every one of its sessions revoked, and calls the audit recorder once, to say that this token did
  it. Any other answer is 404, 409 or 500 and calls it for nothing.
\<close>

theorem deletion_offboards:
  assumes parse: "se_parse env rawID = Some i"
    and found: "UserByID i (dir_db (se_mid env (sv_calls sv) (sv_dir sv))) = Inr u" and active: "u_is_active u"
    and run: "deleteUser env token rawID sv = (a, sv')"
  shows "if a = Deleted
    then (\<exists>v. UserByID i (dir_db (sv_dir sv')) = Inr v \<and> \<not> u_is_active v) \<and>
         (\<forall>s \<in> set (sessions (dir_db (sv_dir sv'))). s_user s = i \<longrightarrow> s_revoked_at s \<noteq> None) \<and>
         (\<exists>rec. sv_record_calls sv' = sv_record_calls sv @ [rec] \<and> rr_Action rec = ''scim.user.deactivated'' \<and> rr_Target rec = i \<and> rr_Token rec = token)
    else scim_status a \<in> {404, 409, 500} \<and> sv_record_calls sv' = sv_record_calls sv"
proof -
  let ?d = "se_mid env (sv_calls sv) (sv_dir sv)"
  obtain x sv1 where l: "scall env (\<lambda>k d. (ScimUserByID i d, d)) sv = (x, sv1)" by fastforce
  have audit: "sv_record_calls sv1 = sv_record_calls sv" by (rule scall_audit [OF l])
  have x: "x = Inr (scim_account ?d u) \<or> x = Inl unavailable"
    using l found by (auto simp: scall_def ScimUserByID_def Let_def split: outage.splits)
  have ui: "u_id u = i" using found by (auto simp: UserByID_def dest: sql_row_Some_iff split: option.splits)
  obtain y sv2 where c: "scall env (\<lambda>k. ScimSetActive (se_now env k) i False) sv1 = (y, sv2)" by fastforce
  have audit2: "sv_record_calls sv2 = sv_record_calls sv" using scall_audit [OF c] audit by simp
  show ?thesis
  proof (cases "\<exists>b. x = Inr (scim_account ?d u) \<and> y = Inr b")
    case True
    then obtain b where xy: "x = Inr (scim_account ?d u)" "y = Inr b" by blast
    obtain now d where "ScimSetActive now i False d = (Inr b, sv_dir sv2)" using scall_answered(1) [OF c [unfolded xy]] by blast
    note off = ScimSetActive_off [OF this]
    have "a = Deleted" "sv' = scim_recorded token ''scim.user.deactivated'' b None sv2"
      using run parse l c active ui xy by (auto simp: deleteUser_def lookup_def setActive_def scim_account_def)
    then show ?thesis using off audit2 by (auto simp: scim_recorded_def)
  next
    case False
    then have "\<exists>n t d h. a = ScimError n t d h \<and> n \<in> {404, 409, 500}" "sv' = sv1 \<or> sv' = sv2"
      using run parse l c active ui x
      by (auto simp: deleteUser_def lookup_def setActive_def scim_account_def writeNotFound_def scim_internalError_def
          writeLastAdminConflict_def writeSCIMError_def split: sum.splits if_splits)
    then show ?thesis using audit audit2 by auto
  qed
qed

section \<open>Lookups and full reads\<close>

lemma ListScimUsers_page:
  assumes "ListScimUsers mid ceq f off lim d = (Inr (us, n), d')"
  shows "length us \<le> lim" and "\<forall>a \<in> set us. su_row a \<in> set (users (dir_db d')) \<and> a = scim_account d' (su_row a) \<and> scim_matches ceq f a"
proof -
  show "length us \<le> lim" using assms by (auto simp: ListScimUsers_def Let_def split: if_splits)
  show "\<forall>a \<in> set us. su_row a \<in> set (users (dir_db d')) \<and> a = scim_account d' (su_row a) \<and> scim_matches ceq f a"
    using assms by (auto simp: ListScimUsers_def Let_def scim_account_def split: if_splits dest!: in_set_takeD in_set_dropD)
qed

text \<open>A text that is not blank parses, if it does, to exactly one equality.\<close>

lemma parseFilter_selects:
  assumes "parseFilter raw = Some f" and "TrimSpace raw \<noteq> []"
  shows "\<exists>wanted. f = no_filter\<lparr>sf_UserName := Some wanted\<rparr> \<or> f = no_filter\<lparr>sf_ExternalID := Some wanted\<rparr>"
  using assms by (simp add: parseFilter_def Let_def split: if_splits option.splits prod.splits) blast+

lemma pageWindow_bound: "snd (pageWindow rawStart rawCount) \<le> 200"
  by (simp add: pageWindow_def Let_def maxCount_def)

text \<open>
  C39. A filter never falls open. When a list request carries any filter at all and is answered with accounts,
  the filter asked for one value, of the directory name or of the external id, and each of them holds it: as its
  directory name or its address in the first case, as its external id in the second. There are at most two hundred of
  them, and every account listed is one of the directory.
\<close>

theorem filter_never_falls_open:
  assumes "listUsers env rawFilter rawStart rawCount sv = (ListAnswer n start k us, sv')" and "TrimSpace rawFilter \<noteq> []"
  shows "k = length us \<and> k \<le> 200 \<and>
    (\<exists>wanted. (parseFilter rawFilter = Some (no_filter\<lparr>sf_UserName := Some wanted\<rparr>) \<or>
                parseFilter rawFilter = Some (no_filter\<lparr>sf_ExternalID := Some wanted\<rparr>)) \<and> (\<forall>r \<in> set us. \<exists>u \<in> set (users (dir_db (sv_dir sv'))).
       r = resourceOf (scim_account (sv_dir sv') u) \<and>
       (if parseFilter rawFilter = Some (no_filter\<lparr>sf_UserName := Some wanted\<rparr>)
        then email_clash (se_citext env) (dir_names (sv_dir sv') (u_id u)) (Some wanted) \<or> email_clash (se_citext env) (u_email u) (Some wanted)
        else dir_exts (sv_dir sv') (u_id u) = Some wanted)))"
proof -
  obtain f where f: "parseFilter rawFilter = Some f"
    using assms(1) by (auto simp: listUsers_def writeSCIMError_def split: option.splits)
  obtain wanted where sel: "f = no_filter\<lparr>sf_UserName := Some wanted\<rparr> \<or> f = no_filter\<lparr>sf_ExternalID := Some wanted\<rparr>"
    using parseFilter_selects [OF f assms(2)] by blast
  obtain st c where w: "pageWindow rawStart rawCount = (st, c)" by fastforce
  then have c: "nat c \<le> 200" using pageWindow_bound [of rawStart rawCount] by simp
  let ?call = "\<lambda>k. ListScimUsers (se_mid env k) (se_citext env) f (nat (st - 1)) (nat c)"
  obtain as where call: "scall env ?call sv = (Inr (as, n), sv')" and us: "us = map resourceOf as" "k = length as"
    using assms(1) f w by (auto simp: listUsers_def scim_internalError_def writeSCIMError_def split: prod.splits sum.splits)
  obtain d where "?call (sv_calls sv) d = (Inr (as, n), sv_dir sv')" using scall_answered(1) [OF call] by blast
  note page = ListScimUsers_page [OF this]
  have "\<exists>u \<in> set (users (dir_db (sv_dir sv'))). r = resourceOf (scim_account (sv_dir sv') u) \<and>
       (if parseFilter rawFilter = Some (no_filter\<lparr>sf_UserName := Some wanted\<rparr>)
        then email_clash (se_citext env) (dir_names (sv_dir sv') (u_id u)) (Some wanted) \<or> email_clash (se_citext env) (u_email u) (Some wanted)
        else dir_exts (sv_dir sv') (u_id u) = Some wanted)"
    if r: "r \<in> set us" for r
  proof -
    obtain a where a: "a \<in> set as" "r = resourceOf a" using r us by auto
    then have m: "su_row a \<in> set (users (dir_db (sv_dir sv')))" "a = scim_account (sv_dir sv') (su_row a)" "scim_matches (se_citext env) f a"
      using page(2) by blast+
    have names: "su_ScimUserName a = dir_names (sv_dir sv') (u_id (su_row a))" "su_ScimExternalID a = dir_exts (sv_dir sv') (u_id (su_row a))"
      by (subst m(2), simp add: scim_account_def)+
    show ?thesis using a(2) m sel f by (intro bexI [OF _ m(1)]) (auto simp: scim_matches_def no_filter_def names [symmetric])
  qed
  moreover have "parseFilter rawFilter = Some (no_filter\<lparr>sf_UserName := Some wanted\<rparr>) \<or>
      parseFilter rawFilter = Some (no_filter\<lparr>sf_ExternalID := Some wanted\<rparr>)" using f sel by blast
  moreover have "k = length us" "k \<le> 200" using us page(1) c by simp_all
  ultimately show ?thesis by blast
qed

text \<open>What a provider's lookup says is what is looked up.\<close>

lemma unquote_plain:
  assumes "\<forall>c \<in> set v. 32 \<le> byte_of c \<and> byte_of c < 127 \<and> byte_of c \<noteq> 34 \<and> byte_of c \<noteq> 92"
  shows "unquote (map byte_of v @ [34]) = Some (map byte_of v, [])"
  using assms by (induction v) (auto simp: encode_rune_def)

lemma json_string_plain:
  assumes "\<forall>c \<in> set v. 32 \<le> byte_of c \<and> byte_of c < 127 \<and> byte_of c \<noteq> 34 \<and> byte_of c \<noteq> 92"
  shows "json_string (CHR 0x22 # v @ [CHR 0x22]) = Some v"
proof -
  have q: "byte_of CHR 0x22 = 34" by (simp add: byte_of_def)
  have restored: "map char_of (map byte_of v) = v" by (simp add: byte_of_def comp_def)
  have "trim_by json_space (34 # map byte_of v @ [34]) = 34 # map byte_of v @ [34]" by (simp add: trim_by_def json_space_def)
  moreover have "34 # map byte_of v @ [34] \<noteq> runes_of ''null''" by (simp add: runes_of_def byte_of_def)
  ultimately show ?thesis using unquote_plain [OF assms] by (simp add: json_string_def q restored [unfolded map_map])
qed

lemma Cut_first: "sep \<notin> set a \<Longrightarrow> Cut sep (a @ sep # b) = Some (a, b)"
  by (induction a) (auto simp: Cut_def split: list.splits)

lemma TrimSpace_tight:
  assumes "\<forall>c \<in> set (a # m @ [b]). byte_of c < 128" and "\<not> IsSpace (byte_of a)" and "\<not> IsSpace (byte_of b)"
  shows "TrimSpace (a # m @ [b]) = a # m @ [b]"
  using assms by (simp add: TrimSpace_ascii trim_by_def)

lemma parseFilter_equality:
  assumes plain: "\<forall>c \<in> set v. 32 \<le> byte_of c \<and> byte_of c < 127 \<and> byte_of c \<noteq> 34 \<and> byte_of c \<noteq> 92" and short: "length v \<le> 400"
    and attr: "\<forall>c \<in> set (a # attr). byte_of c < 128 \<and> \<not> IsSpace (byte_of c)" "length attr \<le> 50"
  shows "parseFilter ((a # attr) @ '' eq \"'' @ v @ ''\"'') =
    (let name = trim_prefix urn_prefix (lower_runes (a # attr))
     in if name = runes_of ''username'' then Some (no_filter\<lparr>sf_UserName := Some v\<rparr>)
        else if name = runes_of ''externalid'' then Some (no_filter\<lparr>sf_ExternalID := Some v\<rparr>)
        else None)"
proof -
  let ?q = "CHR 0x22" and ?s = "CHR '' ''"
  let ?lit = "?q # v @ [?q]" and ?rest = "''eq'' @ ?s # ?q # v @ [?q]"
  have bytes: "byte_of ?q = 34" "byte_of ?s = 32" "byte_of CHR ''e'' = 101" "byte_of CHR ''q'' = 113" by (simp_all add: byte_of_def)
  have space: "IsSpace 32" "\<not> IsSpace 34" "\<not> IsSpace 101" by (simp_all add: IsSpace_def)
  have expr: "(a # attr) @ '' eq \"'' @ v @ ''\"'' = (a # attr) @ ?s # ?rest" by simp
  have t1: "TrimSpace ((a # attr) @ ?s # ?rest) = (a # attr) @ ?s # ?rest"
    using TrimSpace_tight [of a "attr @ ?s # ''eq'' @ ?s # ?q # v" ?q] plain attr by (fastforce simp: bytes space)
  have t2: "TrimSpace ?rest = ?rest"
    using TrimSpace_tight [of "CHR ''e''" "''q'' @ ?s # ?q # v" ?q] plain by (fastforce simp: bytes space)
  have t3: "TrimSpace ?lit = ?lit" using TrimSpace_tight [of ?q v ?q] plain by (fastforce simp: bytes space)
  have "?s \<notin> set (a # attr)" using attr(1) bytes(2) space(1) by metis
  then have c1: "Cut ?s ((a # attr) @ ?s # ?rest) = Some (a # attr, ?rest)" by (rule Cut_first)
  have c2: "Cut ?s ?rest = Some (''eq'', ?lit)" by (rule Cut_first) simp
  have len: "\<not> maxFilterLen < int (length ((a # attr) @ ?s # ?rest))" using short attr(2) by (simp add: maxFilterLen_def)
  have eq: "lower_runes ''eq'' = runes_of ''eq''" by (simp add: ascii_eval)
  have ne: "(a # attr) @ ?s # ?rest \<noteq> []" by simp
  show ?thesis unfolding parseFilter_def Let_def expr t1 c1 option.case prod.case t2 c2 t3 json_string_plain [OF plain] eq
    using len ne by (simp only: if_False simp_thms)
qed

text \<open>
  A lookup says what it means. The filter a provider writes for a printable text is parsed to exactly that text, on
  either attribute.
\<close>

theorem lookup_says_what_it_means:
  assumes plain: "\<forall>c \<in> set v. 32 \<le> byte_of c \<and> byte_of c < 127 \<and> byte_of c \<noteq> 34 \<and> byte_of c \<noteq> 92" and short: "length v \<le> 400"
  shows "parseFilter (''userName eq \"'' @ v @ ''\"'') = Some (no_filter\<lparr>sf_UserName := Some v\<rparr>)"
    and "parseFilter (''externalId eq \"'' @ v @ ''\"'') = Some (no_filter\<lparr>sf_ExternalID := Some v\<rparr>)"
proof -
  have u: "\<forall>c \<in> set ''userName''. byte_of c < 128 \<and> \<not> IsSpace (byte_of c)" "\<forall>c \<in> set ''externalId''. byte_of c < 128 \<and> \<not> IsSpace (byte_of c)"
    by (simp_all add: byte_of_def IsSpace_def)
  show "parseFilter (''userName eq \"'' @ v @ ''\"'') = Some (no_filter\<lparr>sf_UserName := Some v\<rparr>)"
    using parseFilter_equality [OF plain short u(1)] by (simp add: ascii_eval path_eval)
  show "parseFilter (''externalId eq \"'' @ v @ ''\"'') = Some (no_filter\<lparr>sf_ExternalID := Some v\<rparr>)"
    using parseFilter_equality [OF plain short u(2)] by (simp add: ascii_eval path_eval)
qed

text \<open>Nobody else writes and the store answers.\<close>

definition calm :: "scim_env \<Rightarrow> bool" where
  "calm env \<longleftrightarrow> (\<forall>k. se_outage env k = Up \<and> (\<forall>d. se_mid env k d = d))"

lemma scall_calm:
  assumes "calm env"
  shows "scall env f sv = (let (x, d) = f (sv_calls sv) (sv_dir sv) in (x, sv\<lparr>sv_dir := d, sv_calls := Suc (sv_calls sv)\<rparr>))"
  using assms by (simp add: scall_def calm_def Let_def split_def)

text \<open>
  A provider reads the whole directory: it asks for \<open>page_size\<close> accounts from \<open>start\<close> on and goes on behind what it got
  until it has seen \<open>totalResults\<close> of them, in at most \<open>n\<close> requests.
\<close>

fun full_read :: "nat \<Rightarrow> scim_env \<Rightarrow> nat \<Rightarrow> nat \<Rightarrow> scim_service \<Rightarrow> userResource list" where
  "full_read 0 env page_size start sv = []"
| "full_read (Suc n) env page_size start sv =
     (case listUsers env [] (FormatInt (int start)) (FormatInt (int page_size)) sv of
        (ListAnswer results _ k us, sv1) \<Rightarrow> us @ (if results < start + k then [] else full_read n env page_size (start + k) sv1)
      | _ \<Rightarrow> [])"

lemma parseFilter_blank: "parseFilter [] = Some no_filter"
  by (simp add: parseFilter_def TrimSpace_def trim_by_def)

definition whole_directory :: "directory \<Rightarrow> userResource list" where
  "whole_directory d = map (\<lambda>u. resourceOf (scim_account d u)) (sql_order user_key (users (dir_db d)))"

lemma length_whole_directory [simp]: "length (whole_directory d) = length (users (dir_db d))"
  by (simp add: whole_directory_def sql_order_def)

lemma listUsers_page:
  assumes "calm env" and "0 < start" and "int start < 2 ^ 63" and "0 < page_size" and "page_size \<le> 200"
  shows "listUsers env [] (FormatInt (int start)) (FormatInt (int page_size)) sv =
    (let page = take page_size (drop (start - 1) (whole_directory (sv_dir sv)))
     in (ListAnswer (length (users (dir_db (sv_dir sv)))) (int start) (length page) page, sv\<lparr>sv_calls := Suc (sv_calls sv)\<rparr>))"
proof -
  have w: "pageWindow (FormatInt (int start)) (FormatInt (int page_size)) = (int start, int page_size)"
    using ParseInt_FormatInt [of "int start"] ParseInt_FormatInt [of "int page_size"] assms
    by (simp add: pageWindow_def Let_def maxCount_def)
  have all: "scim_matches ceq no_filter a" for ceq a by (simp add: scim_matches_def no_filter_def)
  have mid: "se_mid env k d = d" for k d using assms(1) by (simp add: calm_def)
  have off: "nat (int start - 1) = start - 1" using assms(2) by simp
  show ?thesis using assms(4)
    by (simp add: listUsers_def parseFilter_blank w scall_calm [OF assms(1)] ListScimUsers_def all mid off Let_def
        whole_directory_def take_map drop_map sql_order_def)
qed

lemma full_read_from:
  assumes calm: "calm env" and page_size: "0 < page_size" "page_size \<le> 200" and "int (length (users (dir_db (sv_dir sv)))) + 1 < 2 ^ 63"
    and "0 < start" and "start \<le> length (users (dir_db (sv_dir sv))) + 1" and "length (users (dir_db (sv_dir sv))) + 1 < start + n"
  shows "full_read n env page_size start sv = drop (start - 1) (whole_directory (sv_dir sv))"
  using assms(4-)
proof (induction n arbitrary: start sv)
  case (Suc n)
  let ?total = "length (users (dir_db (sv_dir sv)))" and ?all = "whole_directory (sv_dir sv)"
  let ?page = "take page_size (drop (start - 1) ?all)" and ?sv1 = "sv\<lparr>sv_calls := Suc (sv_calls sv)\<rparr>"
  have page: "listUsers env [] (FormatInt (int start)) (FormatInt (int page_size)) sv = (ListAnswer ?total (int start) (length ?page) ?page, ?sv1)"
    using listUsers_page [OF calm Suc.prems(2) _ page_size, of sv] Suc.prems(1,3) by (simp add: Let_def)
  have rest: "drop (start - 1) ?all = ?page @ drop (start + length ?page - 1) ?all"
  proof -
    have "drop (start - 1) ?all = ?page @ drop page_size (drop (start - 1) ?all)" by (rule append_take_drop_id [symmetric])
    moreover have "drop page_size (drop (start - 1) ?all) = drop (start + length ?page - 1) ?all"
      using Suc.prems(2,3) by (cases "page_size \<le> length (drop (start - 1) ?all)") (auto simp: add.commute)
    ultimately show ?thesis by simp
  qed
  show ?case
  proof (cases "?total < start + length ?page")
    case True
    then have "drop (start + length ?page - 1) ?all = []" by simp
    then show ?thesis using page True rest by simp
  next
    case False
    then have progress: "0 < length ?page" using page_size(1) Suc.prems(2) by simp
    have "full_read n env page_size (start + length ?page) ?sv1 = drop (start + length ?page - 1) (whole_directory (sv_dir ?sv1))"
      using Suc.IH [of ?sv1 "start + length ?page"] Suc.prems False progress by simp
    then show ?thesis using page False rest by simp
  qed
qed simp

text \<open>
  C24. A full read is complete. In a directory nobody else writes to, a provider that pages through all accounts, whatever
  page size from one to two hundred it uses, gets every account exactly once, oldest first, in at most one
  request per account and one more.
\<close>

theorem full_read_complete:
  assumes "calm env" and "0 < page_size" and "page_size \<le> 200" and "int (length (users (dir_db (sv_dir sv)))) + 1 < 2 ^ 63"
  shows "full_read (length (users (dir_db (sv_dir sv))) + 1) env page_size 1 sv = whole_directory (sv_dir sv)"
  using full_read_from [OF assms, of 1] by (simp del: full_read.simps)

section \<open>Reading and writing back\<close>

text \<open>The body a provider sends when it writes back the resource it read; an empty display name was not sent to it.\<close>

definition body_of :: "userResource \<Rightarrow> userBody" where
  "body_of res =
     \<lparr>ub_ExternalID = ur_ExternalID res, ub_UserName = ur_UserName res,
      ub_DisplayName = optional (ur_DisplayName res), ub_Name = ur_Name res, ub_Emails = ur_Emails res,
      ub_Active = Some (JBool (ur_Active res))\<rparr>"

text \<open>An account whose optional columns are not empty texts, as \<open>optional\<close> leaves them, and whose texts fit the columns.\<close>

definition well_provisioned :: "scim_user \<Rightarrow> bool" where
  "well_provisioned a \<longleftrightarrow> su_ScimExternalID a \<noteq> Some [] \<and> u_email (su_row a) \<noteq> Some [] \<and>
     validateAttributes (uw_attrs (currentWrite a)) = [] \<and> user_checks (su_row a) \<and> scim_checks (userNameOf a) (su_ScimExternalID a)"

lemma read_back:
  assumes "well_provisioned a"
  shows "readBody (body_of (resourceOf a)) base = Inr (currentWrite a)"
proof -
  have ext: "(case su_ScimExternalID a of None \<Rightarrow> None | Some x \<Rightarrow> optional x) = su_ScimExternalID a"
    using assms by (auto simp: well_provisioned_def optional_def split: option.split)
  have mail: "optional (primaryEmail (ur_Emails (resourceOf a))) = u_email (su_row a)"
    using assms by (auto simp: well_provisioned_def optional_def primaryEmail_def resourceOf_def split: option.split)
  have name: "displayNameOf (body_of (resourceOf a)) = u_display_name (su_row a)"
    by (simp add: displayNameOf_def body_of_def resourceOf_def optional_def)
  have attrs: "\<lparr>at_ScimUserName = ub_UserName (body_of (resourceOf a)),
      at_ExternalID = (case ub_ExternalID (body_of (resourceOf a)) of None \<Rightarrow> None | Some x \<Rightarrow> optional x),
      at_Email = optional (primaryEmail (ub_Emails (body_of (resourceOf a)))), at_DisplayName = displayNameOf (body_of (resourceOf a))\<rparr>
    = uw_attrs (currentWrite a)"
    unfolding name using ext mail by (simp add: body_of_def currentWrite_def) (simp add: resourceOf_def)
  show ?thesis using assms unfolding readBody_def Let_def attrs
    by (simp add: well_provisioned_def body_of_def present_def decodeBool_def unmarshal_bool_def resourceOf_def currentWrite_def)
qed

lemma replace_same:
  assumes unique: "identifiers_unique ceq d" and u: "u \<in> set (users (dir_db d))"
    and ok: "well_provisioned (scim_account d u)" and name: "dir_names d (u_id u) = Some n" "n \<noteq> []"
  shows "ReplaceScimUser ceq now (u_id u) (uw_attrs (currentWrite (scim_account d u))) d =
    (Inr ((scim_account d u)\<lparr>su_UpdatedAt := now\<rparr>), d\<lparr>dir_updated := (dir_updated d)(u_id u := now)\<rparr>)"
proof -
  let ?a = "scim_account d u" and ?attrs = "uw_attrs (currentWrite (scim_account d u))"
  let ?f = "\<lambda>x. x\<lparr>u_email := at_Email ?attrs, u_display_name := at_DisplayName ?attrs\<rparr>"
  have row: "sql_row (\<lambda>x. u_id x = u_id u) (users (dir_db d)) = Some u"
    using sql_row_unique [of u_id, OF _ u] unique by (simp add: identifiers_unique_def)
  have attrs: "at_Email ?attrs = u_email u" "at_DisplayName ?attrs = u_display_name u" "at_ScimUserName ?attrs = n"
    "at_ExternalID ?attrs = dir_exts d (u_id u)"
    using name by (simp_all add: currentWrite_def scim_account_def userNameOf_def)
  have same: "sql_update (\<lambda>x. u_id x = u_id u) ?f (users (dir_db d)) = users (dir_db d)"
    unfolding sql_update_def attrs
  proof (rule map_idI)
    fix x assume "x \<in> set (users (dir_db d))"
    then have "u_id x = u_id u \<Longrightarrow> x = u" using unique u distinct_map_inj unfolding identifiers_unique_def by metis
    then show "(if u_id x = u_id u then x\<lparr>u_email := u_email u, u_display_name := u_display_name u\<rparr> else x) = x" by (cases "u_id x = u_id u") simp_all
  qed
  have others: "apart ceq d x u" if "x \<in> set (users (dir_db d))" "u_id x \<noteq> u_id u" for x
    using unique u that unfolding identifiers_unique_def by blast
  have free: "scim_conflict ceq (u_id u) n (dir_exts d (u_id u)) d = None"
    using others name by (fastforce simp: scim_conflict_def apart_def)
  have mail: "\<not> sql_exists (\<lambda>x. u_id x \<noteq> u_id u \<and> email_clash ceq (u_email x) (u_email u)) (users (dir_db d))"
    using others by (auto simp: apart_def)
  have checks: "user_checks (?f u)" "scim_checks n (dir_exts d (u_id u))"
    unfolding attrs using ok name by (simp_all add: well_provisioned_def scim_account_def userNameOf_def)
  have restored: "d\<lparr>dir_db := (dir_db d)\<lparr>users := users (dir_db d)\<rparr>, dir_names := (dir_names d)(u_id u := Some n),
      dir_exts := (dir_exts d)(u_id u := dir_exts d (u_id u)), dir_updated := x\<rparr> = d\<lparr>dir_updated := x\<rparr>" for x
    using name by (simp add: fun_upd_idem)
  have touched: "scim_account (d\<lparr>dir_updated := x\<rparr>) u = ?a\<lparr>su_UpdatedAt := x (u_id u)\<rparr>" for x by (simp add: scim_account_def)
  show ?thesis using checks free mail same restored unfolding ReplaceScimUser_def row Let_def
    by (simp add: attrs touched del: sql_exists_iff)
qed

lemma resourceOf_touched: "resourceOf (a\<lparr>su_UpdatedAt := now\<rparr>) = (resourceOf a)\<lparr>ur_LastModified := now\<rparr>"
  by (cases a) (simp add: resourceOf_def userNameOf_def split: option.split)

text \<open>
  C22. What a directory reads it can write back. For an account a directory has claimed, whose identifiers are unique and
  whose texts fit their columns, reading it and putting the very same resource back answers 200 with that resource, last
  modified now, calls the audit recorder for nothing, and changes nothing in the directory but that instant of that
  account.
\<close>

theorem put_back_keeps_account:
  assumes "calm env" and "identifiers_unique (se_citext env) (sv_dir sv)" and "se_parse env rawID = Some i"
    and "UserByID i (dir_db (sv_dir sv)) = Inr u" and "well_provisioned (scim_account (sv_dir sv) u)"
    and "dir_names (sv_dir sv) i = Some n" and "n \<noteq> []"
  shows "\<exists>res sv1 sv2. getUser env rawID sv = (UserAnswer 200 res None, sv1) \<and>
    (let now = se_now env (sv_calls sv + 2)
     in replaceUser env token rawID (Some (body_of res)) sv1 = (UserAnswer 200 (res\<lparr>ur_LastModified := now\<rparr>) None, sv2) \<and>
        sv_dir sv2 = (sv_dir sv)\<lparr>dir_updated := (dir_updated (sv_dir sv))(i := now)\<rparr>) \<and>
    sv_record_calls sv2 = sv_record_calls sv"
proof -
  let ?a = "scim_account (sv_dir sv) u" and ?now = "se_now env (sv_calls sv + 2)"
  let ?d = "(sv_dir sv)\<lparr>dir_updated := (dir_updated (sv_dir sv))(i := ?now)\<rparr>"
  have u: "u \<in> set (users (dir_db (sv_dir sv)))" "u_id u = i"
    using assms(4) by (auto simp: UserByID_def split: option.splits dest: sql_row_Some_iff)
  have look: "lookup env rawID s = (Inr ?a, s\<lparr>sv_calls := Suc (sv_calls s)\<rparr>)" if "sv_dir s = sv_dir sv" for s
    using that assms(3,4) by (simp add: lookup_def scall_calm [OF assms(1)] ScimUserByID_def)
  have touched: "ReplaceScimUser (se_citext env) ?now i (uw_attrs (currentWrite ?a)) (sv_dir sv) = (Inr (?a\<lparr>su_UpdatedAt := ?now\<rparr>), ?d)"
    using replace_same [OF assms(2) u(1) assms(5)] assms(6,7) u(2) by simp
  have quiet: "uw_active (currentWrite ?a) = u_is_active (su_row ?a)" "u_id (su_row ?a) = i"
    "sameAttributes (uw_attrs (currentWrite ?a)) (uw_attrs (currentWrite ?a))"
    using u(2) by (simp_all add: currentWrite_def scim_account_def sameAttributes_def)
  let ?s1 = "sv\<lparr>sv_calls := Suc (sv_calls sv)\<rparr>"
  have get: "getUser env rawID sv = (UserAnswer 200 (resourceOf ?a) None, ?s1)" by (simp add: getUser_def look)
  have put: "replaceUser env token rawID (Some (body_of (resourceOf ?a))) ?s1 =
      (UserAnswer 200 ((resourceOf ?a)\<lparr>ur_LastModified := ?now\<rparr>) None, ?s1\<lparr>sv_dir := ?d, sv_calls := Suc (Suc (Suc (sv_calls sv)))\<rparr>)"
    using touched by (simp add: replaceUser_def look read_back [OF assms(5)] commit_def quiet scall_calm [OF assms(1)] resourceOf_touched)
  show ?thesis unfolding Let_def
    by (rule exI, rule exI, rule exI, rule conjI [OF get], rule conjI, rule conjI [OF put]) simp_all
qed

section \<open>The two dialects\<close>

lemma last_wins_distinct: "distinct (map fst fs) \<Longrightarrow> last_wins fs = fs"
  by (induction fs rule: last_wins.induct) auto

text \<open>A word in any mix of small and capital letters, with blanks around it or without.\<close>

definition spells :: "string \<Rightarrow> string \<Rightarrow> bool" where
  "spells word s \<longleftrightarrow> list_all (\<lambda>c. byte_of c < 128) s \<and>
     list_all2 (\<lambda>c w. c = w \<or> byte_of c + 32 = byte_of w) (trim_by (\<lambda>c. IsSpace (byte_of c)) s) word"

definition small_letters :: "string \<Rightarrow> bool" where
  "small_letters word \<longleftrightarrow> list_all (\<lambda>c. 97 \<le> byte_of c \<and> byte_of c \<le> 122) word"

lemma spells_lower:
  assumes "spells word s" and "small_letters word"
  shows "lower_runes (TrimSpace s) = runes_of word"
proof -
  let ?core = "trim_by (\<lambda>c. IsSpace (byte_of c)) s"
  have ascii: "\<forall>c \<in> set s. byte_of c < 128" using assms(1) by (auto simp: spells_def list_all_iff)
  have core: "list_all2 (\<lambda>c w. c = w \<or> byte_of c + 32 = byte_of w) ?core word" using assms(1) by (simp add: spells_def)
  have "\<forall>c \<in> set ?core. byte_of c < 128" using ascii by (auto simp: trim_by_def dest!: set_dropWhileD)
  then have "lower_runes (TrimSpace s) = map (\<lambda>c. ToLower (byte_of c)) ?core" by (simp add: TrimSpace_ascii [OF ascii] lower_runes_ascii)
  also have "\<dots> = runes_of word"
    using core assms(2) unfolding small_letters_def runes_of_def
    by (induction rule: list_all2_induct) (auto simp: ToLower_def)
  finally show ?thesis .
qed

lemma spells_active:
  assumes "spells ''active'' path"
  shows "normalizePath path = Some AttrActive" and "TrimSpace path \<noteq> []"
proof -
  have low: "lower_runes (TrimSpace path) = runes_of ''active''"
    by (rule spells_lower [OF assms]) (simp add: small_letters_def byte_of_def)
  then show "normalizePath path = Some AttrActive" unfolding normalizePath_def low by (simp add: ascii_eval path_eval)
  show "TrimSpace path \<noteq> []" using low by (auto simp: ascii_eval)
qed

lemma spells_bool:
  assumes "spells (if b then ''true'' else ''false'') t"
  shows "decodeBool (Some (JStr t)) = Inr b"
proof -
  have "lower_runes (TrimSpace t) = runes_of (if b then ''true'' else ''false'')"
    by (rule spells_lower [OF assms]) (simp add: small_letters_def byte_of_def)
  then show ?thesis by (simp add: decodeBool_def unmarshal_bool_def unmarshal_string_def runes_of_def byte_of_def split: if_splits)
qed

text \<open>
  C23. Both dialects mean the same. An operation without a path, whose value is an object (Okta's form), has the effect of the
  sequence of operations with a path (Entra's form), one per field. The verb, the path \<open>active\<close> and the texts
  \<open>true\<close> and \<open>false\<close> count in any mix of small and capital letters and with blanks around them; with such spellings every
  form of setting \<open>active\<close>, with a path or inside an object, by a boolean or by its text, sets it and changes nothing else.
\<close>

theorem dialects_agree:
  assumes "spells ''add'' verb \<or> spells ''replace'' verb" and "TrimSpace blank = []" and "distinct (map fst fs)"
    and "spells ''active'' path" and "spells (if b then ''true'' else ''false'') t" and "v = JBool b \<or> v = JStr t"
  shows "applyOne w \<lparr>po_Op = verb, po_Path = blank, po_Value = Some (JObj fs)\<rparr> =
      apply_all w (map (\<lambda>(name, x). \<lparr>po_Op = verb, po_Path = name, po_Value = Some x\<rparr>) fs) \<and>
    applyOne w \<lparr>po_Op = verb, po_Path = blank, po_Value = Some (JObj [(path, v)])\<rparr> = Inr (w\<lparr>uw_active := b\<rparr>) \<and>
    applyOne w \<lparr>po_Op = verb, po_Path = path, po_Value = Some v\<rparr> = Inr (w\<lparr>uw_active := b\<rparr>)"
proof (intro conjI)
  have "lower_runes (TrimSpace verb) = runes_of ''add'' \<or> lower_runes (TrimSpace verb) = runes_of ''replace''"
    using assms(1) spells_lower [of "''add''" verb] spells_lower [of "''replace''" verb] by (auto simp: small_letters_def byte_of_def)
  then have one: "applyOne w \<lparr>po_Op = verb, po_Path = p, po_Value = x\<rparr> = apply_at False w p x" for w p x
    by (auto simp: applyOne_def Let_def)
  have "apply_fields w fs = apply_all w (map (\<lambda>(name, x). \<lparr>po_Op = verb, po_Path = name, po_Value = Some x\<rparr>) fs)" for w
  proof (induction fs arbitrary: w)
    case (Cons f fs)
    obtain name x where "f = (name, x)" by (cases f)
    then show ?case using Cons.IH by (simp add: one del: apply_at.simps split: sum.split)
  qed simp
  then show "applyOne w \<lparr>po_Op = verb, po_Path = blank, po_Value = Some (JObj fs)\<rparr> =
      apply_all w (map (\<lambda>(name, x). \<lparr>po_Op = verb, po_Path = name, po_Value = Some x\<rparr>) fs)"
    using assms(2,3) by (simp add: one unmarshal_map_def last_wins_distinct)
  have "decodeBool (Some v) = Inr b" using assms(6) spells_bool [OF assms(5)] by (auto simp: decodeBool_def unmarshal_bool_def)
  then have set: "apply_at False w path (Some v) = Inr (w\<lparr>uw_active := b\<rparr>)"
    using spells_active [OF assms(4)] by (simp add: setAttribute_def)
  then show "applyOne w \<lparr>po_Op = verb, po_Path = path, po_Value = Some v\<rparr> = Inr (w\<lparr>uw_active := b\<rparr>)" by (simp only: one)
  have "apply_at False w blank (Some (JObj [(path, v)])) = apply_fields w [(path, v)]"
    using assms(2) by (simp add: unmarshal_map_def del: apply_fields.simps)
  then show "applyOne w \<lparr>po_Op = verb, po_Path = blank, po_Value = Some (JObj [(path, v)])\<rparr> = Inr (w\<lparr>uw_active := b\<rparr>)"
    unfolding one by (simp add: set del: apply_at.simps)
qed

section \<open>Where code and comments part\<close>

text \<open>
  A PATCH that sets \<open>active\<close> to \<open>null\<close> deactivates the account; in the body of a PUT the same \<open>null\<close> counts as absent.
\<close>

lemma displayNameOf_active [simp]: "displayNameOf (b\<lparr>ub_Active := x\<rparr>) = displayNameOf b"
  by (simp add: displayNameOf_def split: option.split)

theorem patch_null_deactivates:
  shows "applyPatch w [\<lparr>po_Op = ''replace'', po_Path = ''active'', po_Value = Some JNull\<rparr>] = Inr (w\<lparr>uw_active := False\<rparr>)"
    and "readBody (b\<lparr>ub_Active := Some JNull\<rparr>) base = readBody (b\<lparr>ub_Active := None\<rparr>) base"
  by (simp add: applyPatch_def applyOne_def Let_def ascii_eval path_eval setAttribute_def decodeBool_def unmarshal_bool_def)
    (simp add: readBody_def present_def)

text \<open>
  The fields of one object in two orders give two results: which one a PATCH that names both \<open>displayName\<close> and
  \<open>name.formatted\<close> has is the runtime's choice.
\<close>

theorem field_order_matters:
  shows "applyOne w \<lparr>po_Op = ''replace'', po_Path = [], po_Value = Some (JObj [(''displayName'', JStr x), (''name.formatted'', JStr y)])\<rparr>
      = Inr (w\<lparr>uw_attrs := (uw_attrs w)\<lparr>at_DisplayName := y\<rparr>\<rparr>)"
    and "applyOne w \<lparr>po_Op = ''replace'', po_Path = [], po_Value = Some (JObj [(''name.formatted'', JStr y), (''displayName'', JStr x)])\<rparr>
      = Inr (w\<lparr>uw_attrs := (uw_attrs w)\<lparr>at_DisplayName := x\<rparr>\<rparr>)"
  by (simp_all add: applyOne_def Let_def ascii_eval path_eval unmarshal_map_def setAttribute_def decodeString_def unmarshal_string_def)

section \<open>Examples\<close>

definition demo_scim :: scim_env where
  "demo_scim = \<lparr>se_mid = (\<lambda>k d. d), se_outage = (\<lambda>k. Up), se_now = (\<lambda>k. 100), se_ids = (\<lambda>k. 50 + k), se_citext = (=),
     se_HashToken = take 32, se_sha256 = (\<lambda>_. replicate 32 0),
     se_parse = (\<lambda>s. if s = ''2'' then Some 2 else if s = ''3'' then Some 3 else None), se_String = (\<lambda>_. ''id''), se_clock = int\<rparr>"

definition demo_token :: string where "demo_token = replicate 43 CHR ''t''"

definition office :: directory where
  "office = \<lparr>dir_db = team\<lparr>users := users team @ [named 3 ''reza'' False False]\<rparr>,
     dir_names = [2 \<mapsto> ''omid@x''], dir_exts = [2 \<mapsto> ''00u2''], dir_updated = (\<lambda>_. 40),
     dir_tokens = [\<lparr>st_id = 9, st_hash = replicate 32 CHR ''t'', st_note = ''okta'', st_created_by = 1, st_created = 5,
       st_last_used = None, st_revoked = None\<rparr>]\<rparr>"

definition desk :: scim_service where
  "desk = \<lparr>sv_dir = office, sv_calls = 0, sv_limiter = the (New scim_rateLimit scim_rateWindow 0), sv_record_calls = []\<rparr>"

definition demo_call :: "string \<Rightarrow> scim_operation \<Rightarrow> scim_request" where
  "demo_call auth op = \<lparr>sr_Authorization = auth, sr_client = ''10.0.0.1'', sr_operation = op\<rparr>"

lemma named_columns [simp]:
  "u_id (named i n a b) = i" "u_username (named i n a b) = n" "u_email (named i n a b) = Some (n @ ''@x'')"
  "u_is_admin (named i n a b) = a" "u_is_active (named i n a b) = b" "u_display_name (named i n a b) = n"
  by (simp_all add: named_def)

lemma named_written:
  "(named i n a b)\<lparr>u_is_active := c\<rparr> = named i n a c" "(named i n a b)\<lparr>u_is_admin := a, u_is_active := c\<rparr> = named i n a c"
  by (simp_all add: named_def)

lemma named_checks: "user_checks (named i ''reza'' a b)" "user_checks (named i ''omid'' a b)"
  by (simp_all add: user_checks_def named_def char_length_def)

lemma demo_calm: "calm demo_scim"
  by (simp add: calm_def demo_scim_def)

lemma office_users: "users (dir_db office) = [named 1 ''sarah'' True True, named 2 ''omid'' False True, named 3 ''reza'' False False]"
  by (simp add: office_def team_def)

lemma office_unique: "identifiers_unique (=) office"
  by (simp add: identifiers_unique_def apart_def email_clash_def office_users) (simp add: named_def office_def)

text \<open>
  A PATCH that reactivates an account and claims a name another account holds is refused as a conflict, and the
  account is active afterwards.
\<close>

definition claiming_patch :: "patchOperation list" where
  "claiming_patch = [\<lparr>po_Op = ''replace'', po_Path = ''userName'', po_Value = Some (JStr ''omid@x'')\<rparr>,
     \<lparr>po_Op = ''replace'', po_Path = ''active'', po_Value = Some (JBool True)\<rparr>]"

theorem refused_patch_reactivates:
  "\<exists>sv'. patchUser demo_scim 9 ''3'' (Some claiming_patch) desk =
     (writeConflict ''another account already holds that userName, externalId or email'', sv') \<and>
   (\<exists>u. UserByID 3 (dir_db (sv_dir desk)) = Inr u \<and> \<not> u_is_active u) \<and>
   (\<exists>u. UserByID 3 (dir_db (sv_dir sv')) = Inr u \<and> u_is_active u)"
proof -
  have 1: "applyPatch (currentWrite (scim_account office (named 3 ''reza'' False False))) claiming_patch =
      Inr \<lparr>uw_attrs = \<lparr>at_ScimUserName = ''omid@x'', at_ExternalID = None, at_Email = Some ''reza@x'', at_DisplayName = ''reza''\<rparr>, uw_active = True\<rparr>"
    by (simp add: applyPatch_def claiming_patch_def applyOne_def Let_def ascii_eval path_eval setAttribute_def decodeBool_def
        unmarshal_bool_def decodeString_def unmarshal_string_def currentWrite_def scim_account_def named_def office_def)
  let ?d = "office\<lparr>dir_db := (dir_db office)\<lparr>users := [named 1 ''sarah'' True True, named 2 ''omid'' False True, named 3 ''reza'' False True]\<rparr>,
      dir_updated := (dir_updated office)(3 := 100)\<rparr>"
  have 2: "UserByID 3 (dir_db office) = Inr (named 3 ''reza'' False False)"
    by (simp add: UserByID_def office_users sql_row_def)
  have 3: "validateAttributes \<lparr>at_ScimUserName = ''omid@x'', at_ExternalID = None, at_Email = Some ''reza@x'', at_DisplayName = ''reza''\<rparr> = []"
    by (simp add: validateAttributes_def RuneCountInString_def go_runes_ascii byte_of_def maxUserNameLen_def maxDisplayNameLen_def maxEmailLen_def)
  have 4: "ScimSetActive 100 3 True office = (Inr (scim_account ?d (named 3 ''reza'' False True)), ?d)"
    by (simp add: ScimSetActive_def UpdateUserAdmin_def begin_func_def update_admin_body_def lockAccount_def update_user_def coalesce_def
        office_users sql_row_def sql_update_def active_admins_def named_written named_checks Let_def)
  have row_checks: "user_checks ((named 3 ''reza'' False True)\<lparr>u_email := Some ''reza@x'', u_display_name := ''reza''\<rparr>)"
    by (simp add: user_checks_def char_length_def named_def)
  have 5: "ReplaceScimUser (=) 100 3 \<lparr>at_ScimUserName = ''omid@x'', at_ExternalID = None, at_Email = Some ''reza@x'', at_DisplayName = ''reza''\<rparr> ?d = (Inl ErrScimIdentifierTaken, ?d)"
    using row_checks by (simp add: ReplaceScimUser_def sql_row_def scim_conflict_def email_clash_def scim_checks_def char_length_def office_def)
  have env: "se_citext demo_scim = (=)" "se_now demo_scim k = 100" "se_parse demo_scim ''3'' = Some 3" for k by (simp_all add: demo_scim_def)
  let ?w = "scim_recorded 9 ''scim.user.reactivated'' (scim_account ?d (named 3 ''reza'' False True)) None (desk\<lparr>sv_dir := ?d, sv_calls := 2\<rparr>)"
  have "patchUser demo_scim 9 ''3'' (Some claiming_patch) desk =
      (writeConflict ''another account already holds that userName, externalId or email'', ?w\<lparr>sv_calls := 3\<rparr>)"
    using 1 2 3 4 5
    by (simp add: patchUser_def lookup_def scall_calm [OF demo_calm] ScimUserByID_def env desk_def commit_def setActive_def
        scim_account_def scim_recorded_def numeral_3_eq_3 numeral_2_eq_2)
  moreover have "\<exists>u. UserByID 3 (dir_db (sv_dir (?w\<lparr>sv_calls := 3\<rparr>))) = Inr u \<and> u_is_active u"
    by (simp add: UserByID_def sql_row_def scim_recorded_def)
  ultimately show ?thesis using 2 by (auto simp: desk_def)
qed

theorem directory_promotes_nobody_witness:
  "unpromoted (dir_db office) (dir_db (sv_dir (snd (ServeSCIM demo_scim
     (demo_call (''Bearer '' @ demo_token) (PatchAccount ''3'' (Some claiming_patch))) desk))))"
  using directory_promotes_nobody [of demo_scim desk "demo_call (''Bearer '' @ demo_token) (PatchAccount ''3'' (Some claiming_patch))"]
  by (simp add: demo_scim_def unpromoted_refl) (simp add: desk_def)

theorem identifiers_stay_unique_witness:
  "identifiers_unique (=) (sv_dir (snd (ServeSCIM demo_scim (demo_call (''Bearer '' @ demo_token) (DeleteAccount ''2'')) desk)))"
  using identifiers_stay_unique [of demo_scim desk "demo_call (''Bearer '' @ demo_token) (DeleteAccount ''2'')"] office_unique
  by (simp add: demo_scim_def sympI desk_def)

theorem only_live_token_acts_witness:
  "scim_status (fst (ServeSCIM demo_scim (demo_call ''Bearer abc'' (DeleteAccount ''2'')) desk)) \<in> {401, 429, 500} \<and>
   sv_dir (snd (ServeSCIM demo_scim (demo_call ''Bearer abc'' (DeleteAccount ''2'')) desk)) = office"
proof -
  let ?r = "demo_call ''Bearer abc'' (DeleteAccount ''2'')"
  have "presented demo_scim ?r = ''abc''"
    by (simp add: presented_def demo_scim_def demo_call_def trim_prefix_def ascii_eval)
  then have "\<forall>t \<in> set (dir_tokens (se_mid demo_scim (sv_calls desk) (sv_dir desk))). live_token t \<longrightarrow> st_hash t \<noteq> presented demo_scim ?r"
    by (simp add: desk_def office_def demo_scim_def numeral_eq_Suc)
  from only_live_token_acts [OF this prod.collapse [symmetric]] show ?thesis by (simp add: demo_scim_def desk_def)
qed

theorem deletion_offboards_witness:
  "\<exists>sv'. deleteUser demo_scim 9 ''2'' desk = (Deleted, sv') \<and> (\<exists>v. UserByID 2 (dir_db (sv_dir sv')) = Inr v \<and> \<not> u_is_active v)"
proof -
  have env: "se_now demo_scim k = 100" "se_parse demo_scim ''2'' = Some 2" "se_mid demo_scim k d = d" for k d by (simp_all add: demo_scim_def)
  have found: "UserByID 2 (dir_db office) = Inr (named 2 ''omid'' False True)" by (simp add: UserByID_def office_users sql_row_def)
  obtain d a where off: "ScimSetActive 100 2 False office = (Inr a, d)"
    by (simp add: ScimSetActive_def UpdateUserAdmin_def begin_func_def update_admin_body_def lockAccount_def update_user_def coalesce_def
        office_users sql_row_def sql_update_def active_admins_def named_written named_checks Let_def)
  obtain a sv' where run: "deleteUser demo_scim 9 ''2'' desk = (a, sv')" by fastforce
  have "fst (deleteUser demo_scim 9 ''2'' desk) = Deleted"
    using off found by (simp add: deleteUser_def lookup_def scall_calm [OF demo_calm] ScimUserByID_def env desk_def setActive_def scim_account_def)
  then have "a = Deleted" using run by simp
  then show ?thesis using deletion_offboards [of demo_scim "''2''" 2 desk "named 2 ''omid'' False True" 9, OF env(2) _ _ run] found run
    by (simp add: env desk_def)
qed

theorem filter_never_falls_open_witness:
  "\<exists>us sv'. listUsers demo_scim ''userName eq \"omid@x\"'' [] [] desk = (ListAnswer 1 1 1 us, sv') \<and> length us = 1"
proof -
  let ?raw = "''userName eq \"omid@x\"''"
  have trim: "TrimSpace ?raw = ?raw" by (simp add: ascii_eval)
  have "parseFilter ?raw = Some (no_filter\<lparr>sf_UserName := Some ''omid@x''\<rparr>)"
    unfolding parseFilter_def trim
    by (simp add: Let_def maxFilterLen_def Cut_def ascii_eval path_eval json_string_def json_space_def encode_rune_def) (simp add: char_of_def bit_0)
  moreover have "pageWindow [] [] = (1, 100)"
    by (simp add: pageWindow_def ParseInt_def defaultCount_def maxCount_def)
  moreover have "filter (\<lambda>u. scim_matches (se_citext demo_scim) (no_filter\<lparr>sf_UserName := Some ''omid@x''\<rparr>) (scim_account office u)) (users (dir_db office)) =
      [named 2 ''omid'' False True]"
    unfolding office_users by (simp add: scim_matches_def no_filter_def scim_account_def email_clash_def demo_scim_def) (simp add: office_def)
  moreover have "se_mid demo_scim k d = d" for k d by (simp add: demo_scim_def)
  ultimately have "\<exists>us sv'. listUsers demo_scim ?raw [] [] desk = (ListAnswer 1 1 1 us, sv')"
    by (simp add: listUsers_def scall_calm [OF demo_calm] ListScimUsers_def desk_def sql_order_def)
  then obtain us sv' where run: "listUsers demo_scim ?raw [] [] desk = (ListAnswer 1 1 1 us, sv')" by blast
  show ?thesis using filter_never_falls_open [OF run] trim run by auto
qed

theorem full_read_complete_witness: "full_read 4 demo_scim 2 1 desk = whole_directory office"
proof -
  have "length (users (dir_db (sv_dir desk))) = 3" "sv_dir desk = office" by (simp_all add: desk_def office_users)
  then show ?thesis using full_read_complete [OF demo_calm, of 2 desk] by (simp del: full_read.simps)
qed

theorem put_back_keeps_account_witness:
  "\<exists>res sv1 sv2. getUser demo_scim ''2'' desk = (UserAnswer 200 res None, sv1) \<and>
    replaceUser demo_scim 9 ''2'' (Some (body_of res)) sv1 = (UserAnswer 200 (res\<lparr>ur_LastModified := 100\<rparr>) None, sv2) \<and>
    dir_db (sv_dir sv2) = dir_db office"
proof -
  have dir: "sv_dir desk = office" by (simp add: desk_def)
  have "UserByID 2 (dir_db office) = Inr (named 2 ''omid'' False True)" by (simp add: UserByID_def office_users sql_row_def)
  moreover have "well_provisioned (scim_account office (named 2 ''omid'' False True))"
    by (simp add: well_provisioned_def scim_account_def office_def currentWrite_def userNameOf_def named_checks scim_checks_def char_length_def
        validateAttributes_def RuneCountInString_def go_runes_ascii byte_of_def maxUserNameLen_def maxDisplayNameLen_def maxEmailLen_def maxExternalIDLen_def)
  moreover have "identifiers_unique (se_citext demo_scim) office" using office_unique by (simp add: demo_scim_def)
  moreover have "se_now demo_scim k = 100" for k by (simp add: demo_scim_def)
  ultimately show ?thesis
    using put_back_keeps_account [OF demo_calm, of desk "''2''" 2 "named 2 ''omid'' False True" "''omid@x''" 9]
    unfolding dir Let_def by (force simp: demo_scim_def office_def)
qed

definition demo_write :: userWrite where
  "demo_write = currentWrite (scim_account office (named 2 ''omid'' False True))"

theorem dialects_agree_witness:
  "applyOne demo_write \<lparr>po_Op = ''ADD'', po_Path = '' '', po_Value = Some (JObj [(''userName'', JStr ''x''), (''active'', JBool True)])\<rparr> =
   apply_all demo_write [\<lparr>po_Op = ''ADD'', po_Path = ''userName'', po_Value = Some (JStr ''x'')\<rparr>, \<lparr>po_Op = ''ADD'', po_Path = ''active'', po_Value = Some (JBool True)\<rparr>] \<and>
   applyOne demo_write \<lparr>po_Op = ''ADD'', po_Path = '' Active'', po_Value = Some (JStr ''FAlse'')\<rparr> = Inr (demo_write\<lparr>uw_active := False\<rparr>)"
proof -
  have 1: "spells ''add'' ''ADD''" "TrimSpace '' '' = []" "spells ''active'' '' Active''" "spells (if False then ''true'' else ''false'') ''FAlse''"
    "distinct (map fst [(''userName'', JStr ''x''), (''active'', JBool True)])"
    by (simp_all add: spells_def ascii_eval)
  show ?thesis
    using dialects_agree [OF disjI1 [OF 1(1)] 1(2,5,3,4) disjI2 [OF refl], of demo_write] by simp
qed

end
