(* ===== verification/Spec2Isabelle.thy ===== *)
theory Spec2Isabelle
  imports Authz Ratelimit Uservalidate Session_Store Totp_Core Totp_Store Mls_Store Sign_In Account_Store
    Channel_Store Mentions Message_Store Message_Safety Message_History Audit_Log File_Sign Replay Gateway_Safety Conversation_Safety Conversation_Pages
    Mls_Traffic Scim_Contract
begin

text \<open>
  Verification of the Hamlaneh server, a self-hosted messenger written in Go
  (\<^verbatim>\<open>src/server\<close>).

  \<^bold>\<open>The program.\<close> One process serves the HTTP API (\<^verbatim>\<open>internal/httpserver\<close>) and the WebSocket gateway
  (\<^verbatim>\<open>internal/wsgateway\<close>). A handler authenticates the request against the session store, asks
  \<^verbatim>\<open>internal/authz\<close> for permission, spends a budget of \<^verbatim>\<open>internal/ratelimit\<close>, and changes state through
  \<^verbatim>\<open>internal/storage\<close>, whose operations are SQL statements or transactions on PostgreSQL
  (\<^verbatim>\<open>internal/sqlitestore\<close> is the single-user variant). Second factors are \<^verbatim>\<open>internal/totp\<close>, account
  names \<^verbatim>\<open>internal/uservalidate\<close>, end-to-end encryption is transported, never read, by the MLS half of
  the storage package.

  \<^bold>\<open>The theories.\<close>
  \<^item> \<open>Prelude\<close>: the Go types, the SQL statement forms (\<open>sql_update\<close>, \<open>sql_delete\<close>, \<open>sql_insert\<close>,
    \<open>sql_row\<close>, \<open>sql_order\<close>), transactions (\<open>begin_func\<close>: \<open>pgx.BeginFunc\<close>), and keyset pagination with
    the locale \<open>keyset_pager\<close>: what a client that walks every page reads.
  \<^item> \<open>Schema\<close>: the tables of \<^verbatim>\<open>storage/migrations\<close> that the modelled operations touch, as records of rows,
    and the database \<open>db\<close>.
  \<^item> \<open>Authz\<close> (\<^verbatim>\<open>authz/authz.go\<close>, \<^verbatim>\<open>channels.go\<close>, \<^verbatim>\<open>conferences.go\<close>): actions, resources, \<open>Can\<close> and its
    four deciders. \<open>permitted\<close> is the access matrix as inductive rules; \<open>Can\<close> decides exactly that
    relation, and the locale \<open>authorizer\<close> (interpreted as \<open>choke\<close>) gives what callers rely on.
  \<^item> \<open>Ratelimit\<close> (\<^verbatim>\<open>ratelimit/ratelimit.go\<close>, \<^verbatim>\<open>wsgateway/connectbudget.go\<close>): the sliding window, its
    refinement of a full event log (\<open>refines\<close>), the locale \<open>rate_limiter\<close> of ask-then-record clients
    (interpreted as \<open>sliding\<close>), and the connect budget of the gateway.
  \<^item> \<open>Session_Store\<close> (\<^verbatim>\<open>storage/sessions.go\<close>, \<^verbatim>\<open>session_families.go\<close>): sessions, refresh rotation with
    reuse detection, revocation, the device list. \<open>session_step\<close> is the step relation, \<open>sessions_inv\<close>
    the family invariant, the locale \<open>token_store\<close> (interpreted as \<open>pg\<close>) the contract of a token store.
  \<^item> \<open>Go_Text\<close>: what the sources use of Go's text: UTF-8 decoding, case mapping, \<open>strconv\<close>, base32.
  \<^item> \<open>Totp_Core\<close> (\<^verbatim>\<open>totp/totp.go\<close>, \<^verbatim>\<open>recovery.go\<close>): code verification and recovery codes; the locale
    \<open>code_checker\<close> (interpreted as \<open>totp\<close>) is what the store relies on of its callback.
  \<^item> \<open>Uservalidate\<close> (\<^verbatim>\<open>uservalidate.go\<close>, \<^verbatim>\<open>derive.go\<close>): credential bounds and derived account names.
  \<^item> \<open>Totp_Store\<close> (\<^verbatim>\<open>storage/totp.go\<close>): setup, verification, activation, recovery codes, challenges and
    the two-step sign-in, as transactions; \<open>totp_step\<close> and \<open>totp_trace\<close> log what was accepted and spent.
  \<^item> \<open>Mls_Store\<close> (\<^verbatim>\<open>storage/mls.go\<close>, \<^verbatim>\<open>mls_backups.go\<close>): devices, key packages, groups, the commit log,
    Welcomes and key backups; \<open>mls_step\<close> is the step relation, \<open>mls_inv\<close> its invariant, and the roster and
    the commit log are interpretations of \<open>keyset_pager\<close>.
  \<^item> \<open>Sign_In\<close> (\<^verbatim>\<open>httpserver/auth_handlers.go\<close>, \<^verbatim>\<open>totp_handlers.go\<close>): \<open>Login\<close>, \<open>CompleteTotpLogin\<close>,
    \<open>RefreshSession\<close> and \<open>Logout\<close>, composed of the operations above.
  \<^item> \<open>Account_Store\<close> (\<^verbatim>\<open>storage/users.go\<close>, \<^verbatim>\<open>passwordreset.go\<close>, \<^verbatim>\<open>invites.go\<close>): accounts, roles, passwords,
    reset links, invitations; \<open>account_step\<close> is the step relation, \<open>account_inv\<close> the invariant, and the account
    and invitation lists are interpretations of \<open>keyset_pager\<close>.
  \<^item> \<open>Channel_Store\<close> (\<^verbatim>\<open>storage/channels.go\<close>): channels, direct messages, membership and the sidebar;
    \<open>channel_step\<close>, \<open>channels_inv\<close>.
  \<^item> \<open>Mentions\<close> (\<^verbatim>\<open>storage/mentions.go\<close>): the scan for mention tokens, a \<open>while_option\<close> loop, against the
    specification of the tokens of a text.
  \<^item> \<open>Message_Store\<close> (\<^verbatim>\<open>storage/messages.go\<close>, \<^verbatim>\<open>attachments.go\<close>, \<^verbatim>\<open>linkpreviews.go\<close>,
    \<^verbatim>\<open>readpositions.go\<close>): sending, editing, deleting, files, previews, pages, read positions, with the step
    relation \<open>message_step\<close>; its safety properties are in \<open>Message_Safety\<close>, the pages in \<open>Message_History\<close>.
  \<^item> \<open>Go_Encoding\<close>: what the sources use of \<open>strconv\<close>, \<open>encoding/binary\<close> and \<open>encoding/base64\<close>.
  \<^item> \<open>Audit_Log\<close> (\<^verbatim>\<open>audit/audit.go\<close>, \<^verbatim>\<open>storage/audit.go\<close>, \<^verbatim>\<open>httpserver/audit_handlers.go\<close>): the sealed
    chain of administrative actions; the locale \<open>sealing\<close> (interpreted as \<open>chain\<close>) is what the log relies on of
    a seal.
  \<^item> \<open>File_Sign\<close> (\<^verbatim>\<open>filesign/filesign.go\<close>, \<^verbatim>\<open>httpserver/files_origin.go\<close>): signed file addresses and what is
    served under them, over a model of the query strings of \<open>net/url\<close>.
  \<^item> \<open>Replay\<close> (\<^verbatim>\<open>wsgateway/replay.go\<close>): a channel's sequence numbers and its buffer of recent events.
  \<^item> \<open>Gateway\<close> (\<^verbatim>\<open>wsgateway/dispatch.go\<close>, \<^verbatim>\<open>wsgateway.go\<close>, \<^verbatim>\<open>conn.go\<close>, \<^verbatim>\<open>frame.go\<close>): events, audiences,
    delivery, registration with replay, the sweeps and the client's frames.
  \<^item> \<open>Gateway_Safety\<close> (the same files): the running gateway as the step relation \<open>gateway_step\<close>, in which the
    dispatcher reads an event's audience from the store in one step and writes to the sockets in a later one,
    as the code does, while people connect, leave and change the store in between.
  \<^item> \<open>Web\<close> (\<^verbatim>\<open>httpserver/errors.go\<close>, \<^verbatim>\<open>text.go\<close>, the cursors of \<^verbatim>\<open>channel_handlers.go\<close>): answers, early returns, store
    calls while other requests run and with outages, text rules, page limits and cursors.
  \<^item> \<open>Conversations\<close> (\<^verbatim>\<open>httpserver/channel_handlers.go\<close>, \<^verbatim>\<open>message_handlers.go\<close>, \<^verbatim>\<open>e2ee.go\<close>, \<^verbatim>\<open>api/serialize.go\<close>): the
    endpoints of the conversation surface, each method of \<open>apiServer\<close> as \<open>api_\<close> followed by its name, over
    \<open>Authz\<close>, \<open>Channel_Store\<close>, \<open>Message_Store\<close> and the events of \<open>Gateway\<close>; \<open>Conversation_Safety\<close> and
    \<open>Conversation_Pages\<close> prove what they guarantee with rules that follow the structure of a handler.
  \<^item> \<open>Mls_Handlers\<close> (\<^verbatim>\<open>httpserver/mls_handlers.go\<close>, \<^verbatim>\<open>mls_backup_handlers.go\<close>): the endpoints of the encryption
    transport over \<open>Mls_Store\<close>, in the same style; \<open>Mls_Traffic\<close> proves what they guarantee.
  \<^item> \<open>Scim_Core\<close> (\<^verbatim>\<open>scim/filter.go\<close>, \<^verbatim>\<open>patch.go\<close>, the mapping of \<^verbatim>\<open>users.go\<close>) and \<open>Scim\<close> (\<^verbatim>\<open>storage/scim.go\<close>,
    \<^verbatim>\<open>scim/scim.go\<close>, \<^verbatim>\<open>users.go\<close>): provisioning by an external directory, from its token to the answer.
    \<open>Scim_Safety\<close> has the locale \<open>provisioning_guarantee\<close>: a relation every store operation respects holds of
    every request; its interpretations \<open>roles\<close> and \<open>ids\<close> are about promotion and about identifiers.
    \<open>Scim_Contract\<close> has what no request can do, the credentials, offboarding, lookups, write-back and the two dialects.

  \<^bold>\<open>What the lemmas show.\<close> Authorization: \<open>Can\<close> is the matrix, strangers are denied everything about a
  conversation. Limiters: answers are those of the full history, an ask-then-record client stays
  inside its rate, a returned wait is exact. Sessions: a refresh token is good for one rotation, a
  replay kills every session of the family that its sweep sees, for good, and the whole family when no rotation ran
  beside it, a rotated access token is dead at once. Second factor: a code is
  never accepted twice, a challenge is worth five tries, an account ten wrong codes in five minutes
  across challenges and addresses, a recovery code one sign-in, a sign-in happens completely or not
  at all, and the password alone never signs a two-step account in. MLS: one commit wins an epoch, the log has no gap
  and a client that catches up reads all of it, a key package is handed out once, the eviction
  allow-list is the whole roster, a backup counter only advances. Accounts: an administrator always
  remains and the removal of the last one is refused, a reset ends every session, link and challenge, an invitation makes one account. Conversations:
  none is ever without members, a direct message stays a pair, opening it is idempotent. Messages: one row
  per idempotency key, mentions exactly those named who are members when the message is sent, and after an edit
  those named who are members or were mentioned before, a deletion is final, files stay with
  their message, what was read stays read, a client that scrolls back reads everything once. Audit: an
  untouched log always verifies when the addresses it records carry no zone, which the column does not keep, and a tampered run that verifies exhibits a collision of the MAC. Files:
  an address works until it expires, and a file is served only under its own signature. Gateway: a resumed
  client gets exactly the events it missed, and one that is not far behind is always resumed; an event reaches
  members of its conversation only (or the people it names), a replay goes to members only, and a resumed
  client that keeps up is then sent every later event or told to fetch the history; an event that is
  between the dispatcher's two steps while a client resumes reaches the client neither way. Handlers: an
  encrypted conversation never holds readable text nor a readable one ciphertext, under any interleaving; a
  stranger is answered as about a conversation that does not exist, and changes nothing; a conversation is born
  in the organisation's mode; nobody's words are changed but the caller's own; a client that follows the
  cursors reads its whole sidebar. Encryption transport: groups live on encrypted conversations only, one that is
  not encrypted costs nobody a key package, a user's requests touch their own devices only, and a commit is read
  back as it was sent. Provisioning: a directory promotes nobody, gives nobody a password and loses no account, only a
  live token acts, a deletion deactivates and ends the sessions, identifiers stay unique, a filter never falls open and
  says what it means, a full read is complete, what is read can be written back and only its time of change moves, and both dialects of PatchOp agree;
  and three places where the code does other than its comments say. Other such places stand beside the properties they
  limit: a refresh that runs beside a sweep survives it (\<open>racing_refresh_survives\<close>), overlapping edits leave a mention nobody
  wrote (\<open>racing_edit_leaves_mention\<close>), an address with a zone makes an untouched log raise an alarm
  (\<open>zoned_address_raises_alarm\<close>), and the example at the end of this theory.

  \<^bold>\<open>Conventions.\<close> A table is the list of its rows; a UNIQUE or FOREIGN KEY or CHECK constraint is a
  branch of the insert that returns the error the operation maps. A UUID is a natural number, compared
  and ordered only. The store's clock, the identifiers \<open>gen_random_uuid()\<close> draws and the bytes
  \<open>crypto/rand\<close> fills in are arguments; that a drawn family identifier is new is a premise where it
  matters. SHA-256, argon2id, HOTP, \<open>citext\<close> and \<open>uuid.String\<close> are parameters, with named hypotheses
  where a property needs one. Attempt counters are unbounded integers (their caps are far below
  \<open>2 ^ 31\<close>); the epoch of a group is bounded by \<open>bigint\<close> and its overflow is an error; a Go \<open>int\<close> is
  64 bits where \<open>DeriveUsername\<close> depends on it.

  \<^bold>\<open>Concurrency.\<close> A transaction is one step where a lock keeps other writers out of what it reads and writes: the
  account row (\<open>lockAccount\<close>), an advisory lock (minting a session, the audit log), the row it changes
  (\<open>SELECT \<dots> FOR UPDATE\<close>, the epoch of a group), or a unique index. Where a statement works on a snapshot that others may have
  overtaken, what it cannot see is an argument that every property leaves open: \<open>RotateSession\<close>, \<open>RevokeFamily\<close>,
  \<open>RevokeUserFamily\<close> and \<open>RevokeOtherFamilies\<close> take the sessions their sweep misses (\<open>missed\<close>), \<open>UpdateMessageContent\<close> the
  snapshot of its statement (\<open>edit_snapshot\<close>), and \<open>ClaimMlsKeyPackages\<close>, which skips locked rows, the set of them. Limiter calls are atomic under
  their mutex, but a handler that asks and records later is not: \<open>Sign_In\<close> handles requests one at a
  time. The limiter reads its clock before it takes the mutex; the properties assume the readings do
  not decrease.

  \<^bold>\<open>Fuel.\<close> \<open>keyset_walk\<close>, \<open>probe_walk\<close>, \<open>scrollback\<close>, \<open>sidebar\<close> and \<open>full_read\<close>, the clients that page, have fuel, the number of fetches; every
  non-empty page moves the cursor, so one more than the number of rows is enough, which is proved. The
  member and channel pages of the gateway stop after \<open>maxAudiencePages\<close>, as in the source. The mention
  scan is a \<open>while_option\<close> loop that is proved to end. Every other recursion is structural or has its measure.

  \<^bold>\<open>Not modelled\<close>, in the order in which it is worth adding: the egress guard, the
  endpoint budget table and middleware, organisation settings, the two-step settings handlers, the gateway's
  origin check and heartbeats, the SQLite store as a second interpretation of \<open>token_store\<close>. Left out for
  good: generated code (\<^verbatim>\<open>internal/api\<close>), full-text search (PostgreSQL's), pure I/O (mailer, blob store,
  OIDC and LiveKit clients, link fetching, web assets), process start-up, and the web and desktop clients.
\<close>

section \<open>Deactivation and a pending second step\<close>

definition leaver :: db where
  "leaver = signin1\<lparr>users := [named 1 ''sarah'' False True, named 2 ''omid'' True True]\<rparr>"

definition open_env :: env where "open_env = demo_env\<lparr>hotp_validate := demo_hotp\<rparr>"

definition late_request :: request where "late_request = demo_request\<lparr>rq_wall := 90 * 10 ^ 9, rq_dbnow := 5\<rparr>"

text \<open>
  An example of a deactivation that does not reach a sign-in that is half done. \<open>UpdateUserAdmin\<close> revokes the sessions of the
  account it deactivates and leaves its two-step challenges alone, and neither the completion of a
  challenge nor the reading of a session asks whether the account is active: an account that is
  deactivated between its password and its code still signs in, and keeps a live session. (A completed
  password reset consumes the challenges; a deactivation does not.)
\<close>

theorem deactivated_completes_challenge:
  "(case UpdateUserAdmin 4 1 deactivate leaver of
      (Inr u, db1) \<Rightarrow> \<not> u_is_active u \<and>
        (case CompleteTotpLogin open_env late_request (Some ''raw'') (Some ''123456'') (demo_server db1) of
           (SignedIn v sess, st) \<Rightarrow> \<not> u_is_active v \<and>
             (case SessionUserByAccessHash 6 (replicate 32 CHR ''a'') (store st) of
                Inr (_, w) \<Rightarrow> u_id w = 1 \<and> \<not> u_is_active w
              | Inl _ \<Rightarrow> False)
         | _ \<Rightarrow> False)
    | (Inl _, _) \<Rightarrow> False)"
  by code_simp

end
